(* ===== verification/HzPrelude.thy ===== *)
theory HzPrelude
  imports Main "HOL-Library.Word"
begin

text \<open>
  The shared vocabulary of the development: names for the C integer types and for
  addresses, the two list operations a singly linked list of the server is walked and cut
  with, and the interfaces (locales) the component theories interpret.

  \<^item> \<open>u8\<close>, \<open>u16\<close>, \<open>u32\<close>, \<open>u64\<close> are \<open>unsigned char\<close>, \<open>unsigned short\<close>,
    \<open>unsigned int\<close> and \<open>unsigned long long\<close>: words that wrap around.
  \<^item> \<open>ptr\<close> is the address of a heap node. A linked list of the server is a list of
    nodes in link order; where the code compares node addresses the nodes carry theirs.
  \<^item> \<open>index_of P xs\<close> is the walk \<open>for (link = &head; *link; link = &(*link)->next)\<close>
    that stops at the first node with \<open>P\<close>; \<open>remove_at i xs\<close> is \<open>*link = (*link)->next\<close>
    at the link it stopped at.
\<close>

unbundle bit_operations_syntax

type_synonym u8 = "8 word"
type_synonym u16 = "16 word"
type_synonym u32 = "32 word"
type_synonym u64 = "64 word"
type_synonym ptr = nat

text \<open>Facts about one operation that every later proof of its component may use.\<close>

named_theorems link_simps \<open>walking and cutting linked lists\<close>
named_theorems inv_intros \<open>operations that keep a component's invariant\<close>

section \<open>Linked lists as lists of nodes\<close>

fun index_of :: "('a \<Rightarrow> bool) \<Rightarrow> 'a list \<Rightarrow> nat option" where
  "index_of P [] = None"
| "index_of P (x # xs) = (if P x then Some 0 else map_option Suc (index_of P xs))"

definition remove_at :: "nat \<Rightarrow> 'a list \<Rightarrow> 'a list" where
  "remove_at i xs = take i xs @ drop (Suc i) xs"

definition next_pred :: "nat \<Rightarrow> ('a \<Rightarrow> bool) \<Rightarrow> 'a list \<Rightarrow> bool" where
  "next_pred i P xs \<longleftrightarrow> i < length xs \<and> P (xs ! i) \<and> (\<forall>j<i. \<not> P (xs ! j))"

lemma index_of_None [link_simps]: "index_of P xs = None \<longleftrightarrow> (\<forall>x\<in>set xs. \<not> P x)"
  by (induction xs) auto

lemma index_of_Some_next: "index_of P xs = Some i \<Longrightarrow> next_pred i P xs"
proof (induction xs arbitrary: i)
  case Nil
  then show ?case by simp
next
  case (Cons x xs)
  show ?case
  proof (cases "P x")
    case True
    with Cons.prems show ?thesis by (auto simp: next_pred_def)
  next
    case False
    with Cons.prems obtain k where k: "index_of P xs = Some k" "i = Suc k" by auto
    from Cons.IH [OF k(1)] False k(2) show ?thesis
      by (auto simp: next_pred_def nth_Cons split: nat.splits)
  qed
qed

lemma index_of_bound: "index_of P xs = Some i \<Longrightarrow> i < length xs"
  by (drule index_of_Some_next) (simp add: next_pred_def)

lemma index_of_sat: "index_of P xs = Some i \<Longrightarrow> P (xs ! i)"
  by (drule index_of_Some_next) (simp add: next_pred_def)

lemma index_of_first: "index_of P xs = Some i \<Longrightarrow> j < i \<Longrightarrow> \<not> P (xs ! j)"
  by (drule index_of_Some_next) (simp add: next_pred_def)

lemma index_of_exists: "x \<in> set xs \<Longrightarrow> P x \<Longrightarrow> \<exists>i. index_of P xs = Some i"
  by (metis index_of_None option.exhaust)

lemma index_of_split:
  assumes "index_of P xs = Some i"
  shows "\<exists>ys y zs. xs = ys @ y # zs \<and> length ys = i \<and> P y \<and> (\<forall>x\<in>set ys. \<not> P x)"
proof -
  have b: "i < length xs" using assms by (rule index_of_bound)
  have "xs = take i xs @ xs ! i # drop (Suc i) xs" using b by (rule id_take_nth_drop)
  moreover have "length (take i xs) = i" using b by simp
  moreover have "P (xs ! i)" using assms by (rule index_of_sat)
  moreover have "\<forall>x\<in>set (take i xs). \<not> P x"
    using index_of_first [OF assms] b by (auto simp: in_set_conv_nth)
  ultimately show ?thesis by blast
qed

lemma index_of_append_first:
  "\<forall>x\<in>set ys. \<not> P x \<Longrightarrow> P y \<Longrightarrow> index_of P (ys @ y # zs) = Some (length ys)"
  by (induction ys) auto

lemma index_of_cong: "(\<And>x. x \<in> set xs \<Longrightarrow> P x = Q x) \<Longrightarrow> index_of P xs = index_of Q xs"
  by (induction xs) auto

lemma find_index_of: "map_option ((!) xs) (index_of P xs) = List.find P xs"
proof (induction xs)
  case Nil
  then show ?case by simp
next
  case (Cons x xs)
  have "map_option ((!) (x # xs)) (map_option Suc (index_of P xs)) = map_option ((!) xs) (index_of P xs)"
    by (simp add: option.map_comp comp_def)
  with Cons show ?case by simp
qed

lemma find_mem: "List.find P xs = Some x \<Longrightarrow> x \<in> set xs \<and> P x"
  by (auto simp: find_Some_iff)

lemma remove_at_append [link_simps]: "remove_at (length ys) (ys @ y # zs) = ys @ zs"
  by (simp add: remove_at_def)

lemma length_remove_at [link_simps]: "i < length xs \<Longrightarrow> length (remove_at i xs) = length xs - 1"
  by (simp add: remove_at_def)

lemma nth_remove_at:
  "i < length xs \<Longrightarrow> j < length xs - 1 \<Longrightarrow> remove_at i xs ! j = xs ! (if j < i then j else Suc j)"
  by (simp add: remove_at_def nth_append)

lemma in_remove_at_nth:
  assumes "x \<in> set (remove_at i xs)" "i < length xs"
  obtains j where "j < length xs" "j \<noteq> i" "x = xs ! j"
proof -
  from assms obtain j where "j < length xs - 1" "x = remove_at i xs ! j"
    by (auto simp: in_set_conv_nth length_remove_at)
  with nth_remove_at [OF assms(2)] assms(2) that [of j] that [of "Suc j"] show thesis by (cases "j < i") auto
qed

lemma set_remove_at_subset: "set (remove_at i xs) \<subseteq> set xs"
  using set_take_subset [of i xs] set_drop_subset [of "Suc i" xs] by (simp add: remove_at_def)

lemma in_remove_at: "x \<in> set (remove_at i xs) \<Longrightarrow> x \<in> set xs"
  using set_remove_at_subset [of i xs] by auto

lemma map_remove_at: "map f (remove_at i xs) = remove_at i (map f xs)"
  by (simp add: remove_at_def take_map drop_map)

lemma filter_remove_at:
  assumes "i < length xs" "\<not> P (xs ! i)"
  shows "filter P (remove_at i xs) = filter P xs"
proof -
  have "filter P xs = filter P (take i xs @ xs ! i # drop (Suc i) xs)"
    using id_take_nth_drop [OF assms(1)] by simp
  then show ?thesis using assms(2) by (simp add: remove_at_def)
qed

lemma distinct_remove_at: "distinct xs \<Longrightarrow> distinct (remove_at i xs)"
  by (auto simp: remove_at_def distinct_drop dest: set_take_disj_set_drop_if_distinct [of xs i "Suc i"])

lemma set_remove_at_distinct:
  assumes "distinct xs" "i < length xs"
  shows "set (remove_at i xs) = set xs - {xs ! i}"
proof -
  have eq: "xs = take i xs @ xs ! i # drop (Suc i) xs" using assms(2) by (rule id_take_nth_drop)
  with assms(1) have "distinct (take i xs @ xs ! i # drop (Suc i) xs)" by simp
  then have "xs ! i \<notin> set (take i xs)" "xs ! i \<notin> set (drop (Suc i) xs)" by auto
  moreover have "set xs = set (take i xs) \<union> {xs ! i} \<union> set (drop (Suc i) xs)"
    by (subst eq) simp
  ultimately show ?thesis by (auto simp: remove_at_def)
qed

lemma remove_at_filter:
  "index_of P xs = None \<Longrightarrow> filter P xs = []"
  by (simp add: index_of_None)

text \<open>Counting nodes in a machine word, as the server's \<open>depth\<close> and \<open>pending\<close> fields do.\<close>

lemma of_nat_length_remove_at:
  "i < length xs \<Longrightarrow> (of_nat (length (remove_at i xs)) :: 'w::len word) = of_nat (length xs) - 1"
  by (simp add: length_remove_at of_nat_diff)

lemma word_count_nonzero:
  "n < 2 ^ LENGTH('w) \<Longrightarrow> (of_nat n :: 'w::len word) = 0 \<longleftrightarrow> n = 0"
  by (auto dest!: arg_cong [where f = unat] simp: unat_of_nat)

lemma unat_ucast_u64 [simp]: "unat (ucast (x :: u32) :: u64) = unat x"
proof -
  have "unat x < 2 ^ 32" using unsigned_less [of x] by simp
  then show ?thesis by (simp add: unsigned_ucast_eq take_bit_nat_eq_self)
qed

section \<open>Queues kept with a pointer to their tail\<close>

text \<open>
  Several queues of the server append without a walk, by a pointer to the last node. The nodes
  reachable from the head, each with its address, are a list. Writing \<open>t->next = node\<close> with
  \<open>node->next == NULL\<close> changes what is reachable: the nodes up to \<open>t\<close>, then \<open>node\<close>; nothing if \<open>t\<close> is
  not reachable. Whether the queue keeps its elements thus rests on the tail being the last node.
\<close>

type_synonym 'a nodes = "(ptr \<times> 'a) list"

definition append_after :: "ptr \<Rightarrow> ptr \<times> 'a \<Rightarrow> 'a nodes \<Rightarrow> 'a nodes" where
  "append_after t node nodes =
     (case index_of (\<lambda>n. fst n = t) nodes of
        None \<Rightarrow> nodes
      | Some i \<Rightarrow> take (Suc i) nodes @ [node])"

definition last_addr :: "'a nodes \<Rightarrow> ptr option" where
  "last_addr nodes = (if nodes = [] then None else Some (fst (last nodes)))"

definition fresh_node :: "ptr \<Rightarrow> 'a nodes \<Rightarrow> bool" where
  "fresh_node p nodes \<longleftrightarrow> p \<notin> fst ` set nodes"

lemma append_after_last:
  assumes "distinct (map fst nodes)" "last_addr nodes = Some t"
  shows "append_after t node nodes = nodes @ [node]"
proof -
  from assms(2) have ne: "nodes \<noteq> []" and t: "t = fst (last nodes)"
    by (auto simp: last_addr_def split: if_splits)
  then have split: "nodes = butlast nodes @ [last nodes]" by simp
  then have "distinct (map fst (butlast nodes @ [last nodes]))" using assms(1) by simp
  then have "fst (last nodes) \<notin> fst ` set (butlast nodes)" by simp
  then have "\<forall>n\<in>set (butlast nodes). fst n \<noteq> t" by (metis image_eqI t)
  then have "index_of (\<lambda>n. fst n = t) (butlast nodes @ [last nodes]) = Some (length (butlast nodes))"
    by (rule index_of_append_first) (simp add: t)
  then have "index_of (\<lambda>n. fst n = t) nodes = Some (length nodes - 1)" using ne by simp
  then show ?thesis using ne by (simp add: append_after_def)
qed

lemma last_addr_snoc [simp]: "last_addr (nodes @ [(p, m)]) = Some p"
  by (simp add: last_addr_def)

lemma last_addr_Cons [simp]: "last_addr ((p, m) # nodes) = (if nodes = [] then Some p else last_addr nodes)"
  by (simp add: last_addr_def)

lemma last_addr_Nil [simp]: "last_addr [] = None"
  by (simp add: last_addr_def)

lemma last_addr_None: "last_addr nodes = None \<longleftrightarrow> nodes = []"
  by (simp add: last_addr_def)

lemma fresh_distinct:
  "distinct (map fst nodes) \<Longrightarrow> fresh_node p nodes \<Longrightarrow> distinct (map fst (nodes @ [(p, m)]))"
  by (auto simp: fresh_node_def)

section \<open>Interfaces\<close>

text \<open>
  A component with state offers operations and an invariant they keep. \<open>ok s op\<close> is what a
  caller must see to before it calls (a fresh address from the allocator, a counter that
  does not wrap); \<open>admissible\<close> says that a whole sequence of calls does.
\<close>

fun admissible :: "('s \<Rightarrow> 'op \<Rightarrow> 's) \<Rightarrow> ('s \<Rightarrow> 'op \<Rightarrow> bool) \<Rightarrow> 's \<Rightarrow> 'op list \<Rightarrow> bool" where
  "admissible step ok s [] = True"
| "admissible step ok s (p # ps) = (ok s p \<and> admissible step ok (step s p) ps)"

locale invariant_machine =
  fixes step :: "'s \<Rightarrow> 'op \<Rightarrow> 's"
    and ok :: "'s \<Rightarrow> 'op \<Rightarrow> bool"
    and inv :: "'s \<Rightarrow> bool"
  assumes step_inv: "inv s \<Longrightarrow> ok s p \<Longrightarrow> inv (step s p)"
begin

lemma run_inv: "inv s \<Longrightarrow> admissible step ok s ps \<Longrightarrow> inv (foldl step s ps)"
  by (induction ps arbitrary: s) (auto intro: step_inv)

lemma run_inv_append:
  "inv s \<Longrightarrow> admissible step ok s (ps @ qs) \<Longrightarrow> inv (foldl step s ps)"
  by (induction ps arbitrary: s) (auto intro: step_inv)

end

text \<open>
  A component that implements an abstract one: the abstraction of the state after an
  operation is the abstract operation on the abstraction of the state before it.
\<close>

locale refinement_machine = invariant_machine step ok inv
  for step :: "'s \<Rightarrow> 'op \<Rightarrow> 's" and ok :: "'s \<Rightarrow> 'op \<Rightarrow> bool" and inv :: "'s \<Rightarrow> bool" +
  fixes abs :: "'s \<Rightarrow> 'a"
    and astep :: "'a \<Rightarrow> 'op \<Rightarrow> 'a"
  assumes step_abs: "inv s \<Longrightarrow> ok s p \<Longrightarrow> abs (step s p) = astep (abs s) p"
begin

lemma run_abs:
  "inv s \<Longrightarrow> admissible step ok s ps \<Longrightarrow> abs (foldl step s ps) = foldl astep (abs s) ps"
proof (induction ps arbitrary: s)
  case Nil
  then show ?case by simp
next
  case (Cons p ps)
  then have "inv (step s p)" and "abs (step s p) = astep (abs s) p"
    by (simp_all add: step_inv step_abs)
  with Cons show ?case by simp
qed

end

text \<open>
  A first-in first-out queue: \<open>add\<close> appends, \<open>take\<close> gives the oldest element or nothing.
  The completion ports and the queues of sent messages provide it.
\<close>

fun take_n :: "('q \<Rightarrow> ('m \<times> 'q) option) \<Rightarrow> nat \<Rightarrow> 'q \<Rightarrow> 'm list \<times> 'q" where
  "take_n take1 0 q = ([], q)"
| "take_n take1 (Suc n) q =
     (case take1 q of None \<Rightarrow> ([], q)
      | Some (m, q') \<Rightarrow> (let (ms, q'') = take_n take1 n q' in (m # ms, q'')))"

fun add_all :: "('r \<Rightarrow> 'm \<Rightarrow> 'q \<Rightarrow> 'q) \<Rightarrow> ('r \<times> 'm) list \<Rightarrow> 'q \<Rightarrow> 'q" where
  "add_all add [] q = q"
| "add_all add ((r, m) # rms) q = add_all add rms (add r m q)"

fun all_fresh :: "('r \<Rightarrow> 'm \<Rightarrow> 'q \<Rightarrow> 'q) \<Rightarrow> ('r \<Rightarrow> 'q \<Rightarrow> bool) \<Rightarrow> ('r \<times> 'm) list \<Rightarrow> 'q \<Rightarrow> bool" where
  "all_fresh add fresh [] q = True"
| "all_fresh add fresh ((r, m) # rms) q = (fresh r q \<and> all_fresh add fresh rms (add r m q))"

locale fifo_queue =
  fixes items :: "'q \<Rightarrow> 'm list"
    and add :: "'r \<Rightarrow> 'm \<Rightarrow> 'q \<Rightarrow> 'q"
    and take1 :: "'q \<Rightarrow> ('m \<times> 'q) option"
    and inv :: "'q \<Rightarrow> bool"
    and fresh :: "'r \<Rightarrow> 'q \<Rightarrow> bool"
  assumes add_items: "inv q \<Longrightarrow> fresh r q \<Longrightarrow> items (add r m q) = items q @ [m]"
    and add_inv: "inv q \<Longrightarrow> fresh r q \<Longrightarrow> inv (add r m q)"
    and take_None: "inv q \<Longrightarrow> take1 q = None \<longleftrightarrow> items q = []"
    and take_Some: "inv q \<Longrightarrow> take1 q = Some (m, q') \<Longrightarrow> items q = m # items q' \<and> inv q'"
begin

lemma take_n_items:
  "inv q \<Longrightarrow> take_n take1 n q = (ms, q') \<Longrightarrow> ms = take n (items q) \<and> items q' = drop n (items q) \<and> inv q'"
proof (induction n arbitrary: q ms q')
  case 0
  then show ?case by simp
next
  case (Suc n)
  show ?case
  proof (cases "take1 q")
    case None
    with Suc.prems take_None [of q] show ?thesis by simp
  next
    case (Some r)
    then obtain m q1 where r: "take1 q = Some (m, q1)" by (cases r) auto
    obtain ms1 q2 where t: "take_n take1 n q1 = (ms1, q2)" by fastforce
    from r t Suc.prems(2) have eq: "ms = m # ms1" "q' = q2" by auto
    from take_Some [OF Suc.prems(1) r] have it: "items q = m # items q1" and i1: "inv q1" by auto
    from Suc.IH [OF i1 t] it eq show ?thesis by simp
  qed
qed

lemma add_all_items:
  "inv q \<Longrightarrow> all_fresh add fresh rms q \<Longrightarrow>
   inv (add_all add rms q) \<and> items (add_all add rms q) = items q @ map snd rms"
  by (induction rms arbitrary: q) (auto simp: add_inv add_items)

lemma fifo_order:
  assumes "inv q" "all_fresh add fresh rms q"
  shows "fst (take_n take1 n (add_all add rms q)) = take n (items q @ map snd rms)"
  using add_all_items [OF assms] take_n_items [of "add_all add rms q" n]
  by (cases "take_n take1 n (add_all add rms q)") auto

lemma take_after_add:
  assumes "inv q" "fresh r q"
  shows "\<exists>m' q'. take1 (add r m q) = Some (m', q') \<and>
           m' # items q' = items q @ [m]"
proof -
  have i: "inv (add r m q)" and it: "items (add r m q) = items q @ [m]"
    using assms by (auto intro: add_inv add_items)
  then have "take1 (add r m q) \<noteq> None" using take_None by force
  then obtain m' q' where "take1 (add r m q) = Some (m', q')" by auto
  with take_Some [OF i this] it show ?thesis by auto
qed

end

end
