(* ===== verification/HzThreads.thy ===== *)
theory HzThreads
  imports HzPrelude "HOL-Library.Multiset"
begin

text \<open>
  Thread, mutex and keyed-event state of the in-process server
  (\<open>dlls/ntdll/unix/horizon_threads.h\<close>): the life of a thread object with its suspend
  count, the recursive mutex with its abandoned flag, the rendezvous of keyed events, and
  the list of threads that wait to be joined.

  Every operation is one function on the struct it changes. A keyed-event rendezvous blocks
  in the middle, so it is a step relation: one step for each region the code runs under the
  lock, and one for the unlocked read of \<open>done\<close>. The joining of threads likewise releases
  the lock while it joins, so it is split where the lock is.
\<close>

section \<open>Threads\<close>

abbreviation (input) HORIZON_THREAD_STILL_ACTIVE :: int where
  "HORIZON_THREAD_STILL_ACTIVE \<equiv> 0x103"
abbreviation (input) HORIZON_THREAD_INFO_TERMINATED :: u32 where
  "HORIZON_THREAD_INFO_TERMINATED \<equiv> 0x02"
abbreviation (input) HORIZON_THREAD_INFO_LAST :: u32 where
  "HORIZON_THREAD_INFO_LAST \<equiv> 0x04"
abbreviation (input) HORIZON_THREAD_MAX_SUSPEND :: int where
  "HORIZON_THREAD_MAX_SUSPEND \<equiv> 127"
abbreviation (input) HORIZON_THREAD_ALL_ACCESS :: u32 where
  "HORIZON_THREAD_ALL_ACCESS \<equiv> 0x001fffff"
abbreviation (input) HORIZON_THREADS_STATUS_ACCESS_DENIED :: u32 where
  "HORIZON_THREADS_STATUS_ACCESS_DENIED \<equiv> 0xc0000022"
abbreviation (input) HORIZON_THREADS_STATUS_MUTANT_NOT_OWNED :: u32 where
  "HORIZON_THREADS_STATUS_MUTANT_NOT_OWNED \<equiv> 0xc0000046"
abbreviation (input) HORIZON_THREADS_STATUS_SUSPEND_EXCEEDED :: u32 where
  "HORIZON_THREADS_STATUS_SUSPEND_EXCEEDED \<equiv> 0xc000004a"

text \<open>\<open>if (access & test) access |= bits;\<close>\<close>

definition or_if :: "u32 \<Rightarrow> u32 \<Rightarrow> u32 \<Rightarrow> u32" where
  "or_if test bits access = (if access AND test \<noteq> 0 then access OR bits else access)"

definition horizon_thread_map_access :: "u32 \<Rightarrow> u32" where
  "horizon_thread_map_access access =
     (let a1 = or_if 0x80000000 0x00020048 access;
          a2 = or_if 0x40000000 0x00020437 a1;
          a3 = or_if 0x20000000 0x00121800 a2;
          a4 = or_if 0x12000000 HORIZON_THREAD_ALL_ACCESS a3;
          a5 = a4 AND NOT 0xf2000000;
          a6 = or_if 0x0040 0x0800 a5
      in or_if 0x0020 0x0400 a6)"

record horizon_thread_state =
  th_tid :: u32
  th_pid :: u32
  th_teb :: u64
  th_entry :: u64
  th_affinity :: u64
  th_priority :: int
  th_base_priority :: int
  th_exit_code :: int
  th_started :: bool
  th_terminated :: bool
  th_is_system :: bool
  th_suspend :: int
  th_creation_time :: int
  th_exit_time :: int

definition horizon_thread_init :: "u32 \<Rightarrow> u32 \<Rightarrow> u64 \<Rightarrow> int \<Rightarrow> horizon_thread_state" where
  "horizon_thread_init tid pid affinity now =
     \<lparr>th_tid = tid, th_pid = pid, th_teb = 0, th_entry = 0, th_affinity = affinity,
      th_priority = 0, th_base_priority = 0, th_exit_code = 0, th_started = False,
      th_terminated = False, th_is_system = False, th_suspend = 0,
      th_creation_time = now, th_exit_time = 0\<rparr>"

definition horizon_thread_exit_status :: "horizon_thread_state \<Rightarrow> int" where
  "horizon_thread_exit_status thread =
     (if th_terminated thread then th_exit_code thread else HORIZON_THREAD_STILL_ACTIVE)"

definition horizon_thread_info_flags :: "horizon_thread_state \<Rightarrow> u32 \<Rightarrow> u32" where
  "horizon_thread_info_flags thread running =
     (let flags = (if th_terminated thread then HORIZON_THREAD_INFO_TERMINATED else 0)
      in if running = 1 then flags OR HORIZON_THREAD_INFO_LAST else flags)"

definition horizon_thread_set_exit_code :: "horizon_thread_state \<Rightarrow> int \<Rightarrow> horizon_thread_state" where
  "horizon_thread_set_exit_code thread code =
     (if \<not> th_terminated thread then thread\<lparr>th_exit_code := code\<rparr> else thread)"

definition horizon_thread_mark_terminated ::
    "horizon_thread_state \<Rightarrow> int \<Rightarrow> bool \<times> horizon_thread_state" where
  "horizon_thread_mark_terminated thread now =
     (if th_terminated thread then (False, thread)
      else (True, thread\<lparr>th_terminated := True, th_suspend := 0, th_exit_time := now\<rparr>))"

definition horizon_thread_may_start :: "horizon_thread_state \<Rightarrow> bool" where
  "horizon_thread_may_start thread \<longleftrightarrow> th_suspend thread = 0 \<or> th_terminated thread"

text \<open>Both return the status, the previous count and the thread.\<close>

definition horizon_thread_resume ::
    "horizon_thread_state \<Rightarrow> u32 \<times> int \<times> horizon_thread_state" where
  "horizon_thread_resume thread =
     (let previous = th_suspend thread
      in (0, previous,
          if th_suspend thread \<noteq> 0 then thread\<lparr>th_suspend := th_suspend thread - 1\<rparr> else thread))"

definition horizon_thread_suspend ::
    "horizon_thread_state \<Rightarrow> u32 \<times> int \<times> horizon_thread_state" where
  "horizon_thread_suspend thread =
     (let previous = th_suspend thread
      in if th_terminated thread then (HORIZON_THREADS_STATUS_ACCESS_DENIED, previous, thread)
         else if th_suspend thread \<ge> HORIZON_THREAD_MAX_SUSPEND
              then (HORIZON_THREADS_STATUS_SUSPEND_EXCEEDED, previous, thread)
         else (0, previous, thread\<lparr>th_suspend := th_suspend thread + 1\<rparr>))"

text \<open>The requests that change a thread's run state, as the server's handlers make them.\<close>

datatype thread_op = T_suspend | T_resume | T_set_exit_code int | T_end int

fun thread_step :: "horizon_thread_state \<Rightarrow> thread_op \<Rightarrow> horizon_thread_state" where
  "thread_step t T_suspend = snd (snd (horizon_thread_suspend t))"
| "thread_step t T_resume = snd (snd (horizon_thread_resume t))"
| "thread_step t (T_set_exit_code c) = horizon_thread_set_exit_code t c"
| "thread_step t (T_end now) = snd (horizon_thread_mark_terminated t now)"

definition thread_inv :: "horizon_thread_state \<Rightarrow> bool" where
  "thread_inv t \<longleftrightarrow> 0 \<le> th_suspend t \<and> th_suspend t \<le> HORIZON_THREAD_MAX_SUSPEND \<and>
     (th_terminated t \<longrightarrow> th_suspend t = 0)"

section \<open>Mutexes\<close>

record horizon_mutex_state =
  mx_owner :: u32
  mx_count :: u32
  mx_abandoned :: bool

definition horizon_mutex_signaled :: "horizon_mutex_state \<Rightarrow> u32 \<Rightarrow> bool" where
  "horizon_mutex_signaled mutex tid \<longleftrightarrow> mx_count mutex = 0 \<or> mx_owner mutex = tid"

definition horizon_mutex_acquire ::
    "horizon_mutex_state \<Rightarrow> u32 \<Rightarrow> bool \<times> horizon_mutex_state" where
  "horizon_mutex_acquire mutex tid =
     (let abandoned = mx_abandoned mutex;
          m = mutex\<lparr>mx_abandoned := False\<rparr>
      in (abandoned,
          if mx_count m \<noteq> 0 \<and> mx_owner m = tid then m\<lparr>mx_count := mx_count m + 1\<rparr>
          else m\<lparr>mx_owner := tid, mx_count := 1\<rparr>))"

definition horizon_mutex_release ::
    "horizon_mutex_state \<Rightarrow> u32 \<Rightarrow> u32 \<times> u32 \<times> horizon_mutex_state" where
  "horizon_mutex_release mutex tid =
     (let previous = mx_count mutex
      in if mx_count mutex = 0 \<or> mx_owner mutex \<noteq> tid
         then (HORIZON_THREADS_STATUS_MUTANT_NOT_OWNED, previous, mutex)
         else (let m = mutex\<lparr>mx_count := mx_count mutex - 1\<rparr>
               in (0, previous, if mx_count m = 0 then m\<lparr>mx_owner := 0\<rparr> else m)))"

definition horizon_mutex_abandon ::
    "horizon_mutex_state \<Rightarrow> u32 \<Rightarrow> bool \<times> horizon_mutex_state" where
  "horizon_mutex_abandon mutex tid =
     (if mx_count mutex = 0 \<or> mx_owner mutex \<noteq> tid then (False, mutex)
      else (True, mutex\<lparr>mx_owner := 0, mx_count := 0, mx_abandoned := True\<rparr>))"

text \<open>
  The server acquires a mutex only for a thread it is signaled for (a wait), releases it for
  the thread that asks, and abandons it when a thread ends.
\<close>

datatype mutex_op = M_wait u32 | M_release u32 | M_end u32

fun mutex_step :: "horizon_mutex_state \<Rightarrow> mutex_op \<Rightarrow> horizon_mutex_state" where
  "mutex_step m (M_wait tid) =
     (if horizon_mutex_signaled m tid then snd (horizon_mutex_acquire m tid) else m)"
| "mutex_step m (M_release tid) = snd (snd (horizon_mutex_release m tid))"
| "mutex_step m (M_end tid) = snd (horizon_mutex_abandon m tid)"

definition mutex_init :: horizon_mutex_state where
  "mutex_init = \<lparr>mx_owner = 0, mx_count = 0, mx_abandoned = False\<rparr>"

text \<open>What a mutex promises: a lock that is free (perhaps abandoned), or held by one thread to a
  depth.\<close>

datatype lock = Free bool | Held u32 nat

fun lock_step :: "lock \<Rightarrow> mutex_op \<Rightarrow> lock" where
  "lock_step (Free ab) (M_wait t) = Held t 1"
| "lock_step (Held own n) (M_wait t) = (if own = t then Held own (Suc n) else Held own n)"
| "lock_step (Free ab) (M_release t) = Free ab"
| "lock_step (Held own n) (M_release t) =
     (if own = t then (if n = 1 then Free False else Held own (n - 1)) else Held own n)"
| "lock_step (Free ab) (M_end t) = Free ab"
| "lock_step (Held own n) (M_end t) = (if own = t then Free True else Held own n)"

definition mutex_abs :: "horizon_mutex_state \<Rightarrow> lock" where
  "mutex_abs m = (if mx_count m = 0 then Free (mx_abandoned m) else Held (mx_owner m) (unat (mx_count m)))"

definition mutex_inv :: "horizon_mutex_state \<Rightarrow> bool" where
  "mutex_inv m \<longleftrightarrow> (mx_count m = 0 \<longrightarrow> mx_owner m = 0) \<and> (mx_count m \<noteq> 0 \<longrightarrow> \<not> mx_abandoned m)"

definition mutex_ok :: "horizon_mutex_state \<Rightarrow> mutex_op \<Rightarrow> bool" where
  "mutex_ok m p \<longleftrightarrow> (case p of M_wait t \<Rightarrow> unat (mx_count m) < 2 ^ 32 - 1 | _ \<Rightarrow> True)"

section \<open>Keyed events\<close>

record horizon_keyed_waiter =
  kw_object :: u64
  kw_key :: u64
  kw_release :: bool
  kw_done :: bool

text \<open>\<open>keyed_peer w self q\<close>: the waiter at \<open>q\<close> is the other side of \<open>self\<close>'s operation.\<close>

definition keyed_peer :: "(ptr \<Rightarrow> horizon_keyed_waiter) \<Rightarrow> ptr \<Rightarrow> ptr \<Rightarrow> bool" where
  "keyed_peer w self peer \<longleftrightarrow>
     \<not> (kw_release (w peer) = kw_release (w self) \<or> kw_object (w peer) \<noteq> kw_object (w self) \<or>
        kw_key (w peer) \<noteq> kw_key (w self))"

definition horizon_keyed_match_locked ::
    "(ptr \<Rightarrow> horizon_keyed_waiter) \<Rightarrow> ptr list \<Rightarrow> ptr \<Rightarrow> (ptr \<times> ptr list) option" where
  "horizon_keyed_match_locked w queue self =
     (case index_of (keyed_peer w self) queue of
        None \<Rightarrow> None
      | Some i \<Rightarrow> Some (queue ! i, remove_at i queue))"

definition horizon_keyed_enqueue_locked :: "ptr list \<Rightarrow> ptr \<Rightarrow> ptr list" where
  "horizon_keyed_enqueue_locked queue self = queue @ [self]"

definition horizon_keyed_cancel_locked :: "ptr list \<Rightarrow> ptr \<Rightarrow> bool \<times> ptr list" where
  "horizon_keyed_cancel_locked queue self =
     (case index_of (\<lambda>p. p = self) queue of
        None \<Rightarrow> (False, queue)
      | Some i \<Rightarrow> (True, remove_at i queue))"

text \<open>
  One call of \<open>horizon_keyed_rendezvous\<close> has one waiter, on its own stack, named by its
  address. A call is not yet in the lock, blocked, or has returned 0 (paired) or 1 (timed
  out). The timeout of a call does not change: 0 polls, a negative one waits for ever.
\<close>

datatype keyed_pc = K_enter | K_blocked | K_returned int

record keyed_system =
  ks_queue :: "ptr list"
  ks_waiter :: "ptr \<Rightarrow> horizon_keyed_waiter"
  ks_pc :: "ptr \<Rightarrow> keyed_pc"
  ks_timeout :: "ptr \<Rightarrow> int"

definition set_done :: "bool \<Rightarrow> horizon_keyed_waiter \<Rightarrow> horizon_keyed_waiter" where
  "set_done b w = w\<lparr>kw_done := b\<rparr>"

inductive horizon_keyed_rendezvous :: "keyed_system \<Rightarrow> keyed_system \<Rightarrow> bool" where
  pair:
    "ks_pc s p = K_enter \<Longrightarrow>
     horizon_keyed_match_locked (ks_waiter s) (ks_queue s) p = Some (peer, rest) \<Longrightarrow>
     horizon_keyed_rendezvous s
       (s\<lparr>ks_queue := rest,
          ks_waiter := (ks_waiter s)(p := set_done False (ks_waiter s p),
                                     peer := set_done True (ks_waiter s peer)),
          ks_pc := (ks_pc s)(p := K_returned 0)\<rparr>)"
| poll:
    "ks_pc s p = K_enter \<Longrightarrow>
     horizon_keyed_match_locked (ks_waiter s) (ks_queue s) p = None \<Longrightarrow> ks_timeout s p = 0 \<Longrightarrow>
     horizon_keyed_rendezvous s
       (s\<lparr>ks_waiter := (ks_waiter s)(p := set_done False (ks_waiter s p)),
          ks_pc := (ks_pc s)(p := K_returned 1)\<rparr>)"
| block:
    "ks_pc s p = K_enter \<Longrightarrow>
     horizon_keyed_match_locked (ks_waiter s) (ks_queue s) p = None \<Longrightarrow> ks_timeout s p \<noteq> 0 \<Longrightarrow>
     horizon_keyed_rendezvous s
       (s\<lparr>ks_queue := horizon_keyed_enqueue_locked (ks_queue s) p,
          ks_waiter := (ks_waiter s)(p := set_done False (ks_waiter s p)),
          ks_pc := (ks_pc s)(p := K_blocked)\<rparr>)"
| wake:
    "ks_pc s p = K_blocked \<Longrightarrow> kw_done (ks_waiter s p) \<Longrightarrow>
     horizon_keyed_rendezvous s (s\<lparr>ks_pc := (ks_pc s)(p := K_returned 0)\<rparr>)"
| expire:
    "ks_pc s p = K_blocked \<Longrightarrow> 0 < ks_timeout s p \<Longrightarrow>
     horizon_keyed_cancel_locked (ks_queue s) p = (True, rest) \<Longrightarrow>
     horizon_keyed_rendezvous s
       (s\<lparr>ks_queue := rest, ks_pc := (ks_pc s)(p := K_returned 1)\<rparr>)"
| expire_late:
    "ks_pc s p = K_blocked \<Longrightarrow> 0 < ks_timeout s p \<Longrightarrow>
     horizon_keyed_cancel_locked (ks_queue s) p = (False, rest) \<Longrightarrow>
     horizon_keyed_rendezvous s s"

inductive keyed_reachable :: "keyed_system \<Rightarrow> bool" where
  start: "ks_queue s = [] \<Longrightarrow> (\<And>p. ks_pc s p = K_enter) \<Longrightarrow> keyed_reachable s"
| step: "keyed_reachable s \<Longrightarrow> horizon_keyed_rendezvous s t \<Longrightarrow> keyed_reachable t"

text \<open>The calls of one side of one key that have been paired, whether or not they have seen it.\<close>

definition keyed_paired :: "keyed_system \<Rightarrow> u64 \<Rightarrow> u64 \<Rightarrow> bool \<Rightarrow> ptr set" where
  "keyed_paired s obj key rel =
     {p. kw_object (ks_waiter s p) = obj \<and> kw_key (ks_waiter s p) = key \<and>
         kw_release (ks_waiter s p) = rel \<and>
         (ks_pc s p = K_returned 0 \<or> ks_pc s p = K_blocked \<and> kw_done (ks_waiter s p))}"

definition keyed_inv :: "keyed_system \<Rightarrow> bool" where
  "keyed_inv s \<longleftrightarrow>
     distinct (ks_queue s) \<and>
     (\<forall>p. p \<in> set (ks_queue s) \<longleftrightarrow> ks_pc s p = K_blocked \<and> \<not> kw_done (ks_waiter s p)) \<and>
     (\<forall>p\<in>set (ks_queue s). \<forall>q\<in>set (ks_queue s). \<not> keyed_peer (ks_waiter s) p q) \<and>
     (\<forall>obj key. finite (keyed_paired s obj key True) \<and> finite (keyed_paired s obj key False) \<and>
        card (keyed_paired s obj key True) = card (keyed_paired s obj key False))"

section \<open>Threads waiting to be joined\<close>

type_synonym pthread = nat

record horizon_zombie_list =
  zl_head :: "pthread list"
  zl_pending :: u32
  zl_reaped :: u64

definition horizon_zombie_push :: "horizon_zombie_list \<Rightarrow> pthread \<Rightarrow> horizon_zombie_list" where
  "horizon_zombie_push l self = l\<lparr>zl_head := self # zl_head l, zl_pending := zl_pending l + 1\<rparr>"

text \<open>\<open>horizon_zombie_reap\<close> takes the whole list under the lock, joins outside it, and puts back
  its own entry under the lock again. The walk returns what is kept and what was joined.\<close>

definition reap_detach :: "horizon_zombie_list \<Rightarrow> pthread list \<times> horizon_zombie_list" where
  "reap_detach l = (zl_head l, l\<lparr>zl_head := []\<rparr>)"

fun reap_walk :: "pthread \<Rightarrow> pthread list \<Rightarrow> pthread list \<Rightarrow> pthread list \<Rightarrow> pthread list \<times> pthread list" where
  "reap_walk self [] keep joined = (keep, joined)"
| "reap_walk self (node # nodes) keep joined =
     (if node = self then reap_walk self nodes (node # keep) joined
      else reap_walk self nodes keep (joined @ [node]))"

definition reap_finish :: "pthread list \<Rightarrow> nat \<Rightarrow> horizon_zombie_list \<Rightarrow> horizon_zombie_list" where
  "reap_finish keep joined l =
     (let head = fold (#) keep (zl_head l)
      in l\<lparr>zl_head := head, zl_pending := zl_pending l - of_nat joined,
           zl_reaped := zl_reaped l + ucast (of_nat joined :: u32)\<rparr>)"

definition horizon_zombie_reap :: "pthread \<Rightarrow> horizon_zombie_list \<Rightarrow> pthread list \<times> horizon_zombie_list" where
  "horizon_zombie_reap self l =
     (let (head, l1) = reap_detach l;
          (keep, joined) = reap_walk self head [] []
      in (joined, reap_finish keep (length joined) l1))"

text \<open>Pushes and any number of reapers, interleaved at the lock. \<open>zs_flight\<close> holds the lists the
  reapers have detached, each with the thread that did; \<open>zs_joined\<close> what was joined, by whom.\<close>

record zombie_system =
  zs_list :: horizon_zombie_list
  zs_flight :: "(pthread \<times> pthread list) list"
  zs_joined :: "(pthread \<times> pthread) list"

datatype zombie_op = Z_push pthread | Z_detach pthread | Z_finish nat

fun zombie_step :: "zombie_system \<Rightarrow> zombie_op \<Rightarrow> zombie_system" where
  "zombie_step s (Z_push t) = s\<lparr>zs_list := horizon_zombie_push (zs_list s) t\<rparr>"
| "zombie_step s (Z_detach self) =
     (let (head, l) = reap_detach (zs_list s)
      in s\<lparr>zs_list := l, zs_flight := (self, head) # zs_flight s\<rparr>)"
| "zombie_step s (Z_finish i) =
     (if i < length (zs_flight s)
      then (let (self, head) = zs_flight s ! i;
                (keep, joined) = reap_walk self head [] []
            in s\<lparr>zs_list := reap_finish keep (length joined) (zs_list s),
                 zs_flight := remove_at i (zs_flight s),
                 zs_joined := zs_joined s @ map (Pair self) joined\<rparr>)
      else s)"

definition zombie_init :: zombie_system where
  "zombie_init = \<lparr>zs_list = \<lparr>zl_head = [], zl_pending = 0, zl_reaped = 0\<rparr>,
                  zs_flight = [], zs_joined = []\<rparr>"

definition zombie_waiting :: "zombie_system \<Rightarrow> nat" where
  "zombie_waiting s = length (zl_head (zs_list s)) + sum_list (map (length \<circ> snd) (zs_flight s))"

definition zombie_inv :: "zombie_system \<Rightarrow> bool" where
  "zombie_inv s \<longleftrightarrow>
     zl_pending (zs_list s) = of_nat (zombie_waiting s) \<and>
     ucast (zl_reaped (zs_list s)) = (of_nat (length (zs_joined s)) :: u32) \<and>
     (\<forall>(self, t)\<in>set (zs_joined s). t \<noteq> self)"


section \<open>What holds of threads\<close>

lemma thread_step_inv [inv_intros]: "thread_inv t \<Longrightarrow> thread_inv (thread_step t p)"
  by (cases p)
    (auto simp: thread_inv_def horizon_thread_suspend_def horizon_thread_resume_def
      horizon_thread_set_exit_code_def horizon_thread_mark_terminated_def Let_def)

interpretation thread: invariant_machine thread_step "\<lambda>_ _. True" thread_inv
  by unfold_locales (rule thread_step_inv)

lemma thread_always_admissible: "admissible thread_step (\<lambda>_ _. True) t ps"
  by (induction ps arbitrary: t) auto

lemma thread_init_inv: "thread_inv (horizon_thread_init tid pid affinity now)"
  by (simp add: thread_inv_def horizon_thread_init_def)

lemma terminated_step:
  "th_terminated t \<Longrightarrow> thread_inv t \<Longrightarrow> thread_step t p = t"
  by (cases p)
    (auto simp: thread_inv_def horizon_thread_suspend_def horizon_thread_resume_def
      horizon_thread_set_exit_code_def horizon_thread_mark_terminated_def Let_def)

lemma terminated_run:
  "th_terminated t \<Longrightarrow> thread_inv t \<Longrightarrow> foldl thread_step t ps = t"
  by (induction ps) (auto simp: terminated_step)

lemma suspend_resume_inverse:
  assumes "thread_inv t" "horizon_thread_suspend t = (0, previous, t')"
  shows "horizon_thread_resume t' = (0, previous + 1, t) \<and> \<not> horizon_thread_may_start t'"
  using assms
  by (auto simp: thread_inv_def horizon_thread_suspend_def horizon_thread_resume_def
      horizon_thread_may_start_def Let_def split: if_splits)

section \<open>What holds of mutexes\<close>

lemmas mutex_defs = horizon_mutex_signaled_def horizon_mutex_acquire_def horizon_mutex_release_def
  horizon_mutex_abandon_def Let_def

lemma unat_u32_dec: "(c :: u32) \<noteq> 0 \<Longrightarrow> unat (c - 1) = unat c - 1"
  by (rule unat_minus_one)

lemma unat_u32_inc: "unat (c :: u32) < 2 ^ 32 - 1 \<Longrightarrow> unat (c + 1) = Suc (unat c)"
  by (simp add: unat_word_ariths)

lemma u32_inc_nonzero: "unat (c :: u32) < 2 ^ 32 - 1 \<Longrightarrow> c + 1 \<noteq> 0"
  by (metis unat_u32_inc nat.distinct(1) unat_0)

lemma u32_unat_one: "unat (c :: u32) = Suc 0 \<longleftrightarrow> c = 1"
  by (metis One_nat_def unat_1 word_unat_eq_iff)

lemma mutex_step_inv [inv_intros]: "mutex_inv m \<Longrightarrow> mutex_ok m p \<Longrightarrow> mutex_inv (mutex_step m p)"
  by (cases p) (auto simp: mutex_inv_def mutex_ok_def mutex_defs u32_inc_nonzero)

lemma mutex_step_abs:
  assumes "mutex_inv m" "mutex_ok m p"
  shows "mutex_abs (mutex_step m p) = lock_step (mutex_abs m) p"
proof (cases p)
  case (M_wait t)
  with assms show ?thesis
    by (auto simp: mutex_inv_def mutex_ok_def mutex_abs_def mutex_defs u32_inc_nonzero unat_u32_inc)
next
  case (M_release t)
  with assms show ?thesis
    by (auto simp: mutex_inv_def mutex_abs_def mutex_defs u32_unat_one unat_u32_dec)
next
  case (M_end t)
  with assms show ?thesis by (auto simp: mutex_inv_def mutex_abs_def mutex_defs)
qed

interpretation mutex: refinement_machine mutex_step mutex_ok mutex_inv mutex_abs lock_step
  by unfold_locales (auto intro: mutex_step_inv mutex_step_abs)

text \<open>A step deepens a mutex by one at most, so fewer than \<open>2 ^ 32\<close> requests never wrap its count.\<close>

lemma mutex_step_count:
  "unat (mx_count (mutex_step m p)) \<le> Suc (unat (mx_count m))"
proof (cases p)
  case (M_wait t)
  then show ?thesis
    by (auto simp: mutex_defs unat_word_ariths intro: le_trans [OF mod_less_eq_dividend])
next
  case (M_release t)
  have "unat (c - 1) \<le> Suc (unat c)" if "c \<noteq> 0" for c :: u32
    using unat_u32_dec [OF that] by simp
  with M_release show ?thesis by (auto simp: mutex_defs)
next
  case (M_end t)
  then show ?thesis by (auto simp: mutex_defs)
qed

lemma mutex_admissible:
  "unat (mx_count m) + length ps < 2 ^ 32 \<Longrightarrow> admissible mutex_step mutex_ok m ps"
proof (induction ps arbitrary: m)
  case Nil
  then show ?case by simp
next
  case (Cons p ps)
  then have "mutex_ok m p" by (auto simp: mutex_ok_def split: mutex_op.splits)
  moreover have "unat (mx_count (mutex_step m p)) + length ps < 2 ^ 32"
    using mutex_step_count [of m p] Cons.prems by simp
  ultimately show ?case using Cons.IH by simp
qed

lemma mutex_init_inv: "mutex_inv mutex_init"
  by (simp add: mutex_inv_def mutex_init_def)

lemma mutex_abs_init: "mutex_abs mutex_init = Free False"
  by (simp add: mutex_abs_def mutex_init_def)


section \<open>What holds of keyed events\<close>

lemma keyed_match_Some:
  assumes "horizon_keyed_match_locked w queue p = Some (peer, rest)"
  shows "peer \<in> set queue \<and> keyed_peer w p peer"
    and "distinct queue \<Longrightarrow> distinct rest \<and> set rest = set queue - {peer}"
proof -
  from assms obtain i where i: "index_of (keyed_peer w p) queue = Some i"
      and eq: "peer = queue ! i" "rest = remove_at i queue"
    by (auto simp: horizon_keyed_match_locked_def split: option.splits)
  have b: "i < length queue" using i by (rule index_of_bound)
  show "peer \<in> set queue \<and> keyed_peer w p peer"
    using b eq(1) index_of_sat [OF i] by simp
  show "distinct rest \<and> set rest = set queue - {peer}" if "distinct queue"
    using that b eq by (simp add: distinct_remove_at set_remove_at_distinct)
qed

lemma keyed_match_None:
  "horizon_keyed_match_locked w queue p = None \<longleftrightarrow> (\<forall>q\<in>set queue. \<not> keyed_peer w p q)"
  unfolding index_of_None [symmetric] horizon_keyed_match_locked_def
  by (cases "index_of (keyed_peer w p) queue") auto

lemma keyed_cancel:
  assumes "distinct queue" "horizon_keyed_cancel_locked queue p = (found, rest)"
  shows "found \<longleftrightarrow> p \<in> set queue" and "distinct rest" and "set rest = set queue - {p}"
proof -
  show "found \<longleftrightarrow> p \<in> set queue"
    using assms(2) index_of_None [of "\<lambda>q. q = p" queue] index_of_exists [of p queue "\<lambda>q. q = p"]
    by (auto simp: horizon_keyed_cancel_locked_def split: option.splits)
  show "distinct rest"
    using assms by (auto simp: horizon_keyed_cancel_locked_def distinct_remove_at split: option.splits)
  show "set rest = set queue - {p}"
  proof (cases "index_of (\<lambda>q. q = p) queue")
    case None
    with assms(2) show ?thesis by (auto simp: horizon_keyed_cancel_locked_def index_of_None)
  next
    case (Some i)
    with assms show ?thesis
      using index_of_bound [OF Some] index_of_sat [OF Some]
      by (auto simp: horizon_keyed_cancel_locked_def set_remove_at_distinct)
  qed
qed

lemma keyed_peer_irrefl [simp]: "\<not> keyed_peer w p p"
  by (simp add: keyed_peer_def)

lemma keyed_peer_sym: "keyed_peer w p q = keyed_peer w q p"
  by (auto simp: keyed_peer_def)

text \<open>\<open>done\<close> is not what pairs two calls, so publishing it changes no pairing.\<close>

lemma set_done_simps [simp]:
  "kw_object (set_done b x) = kw_object x" "kw_key (set_done b x) = kw_key x"
  "kw_release (set_done b x) = kw_release x" "kw_done (set_done b x) = b"
  by (simp_all add: set_done_def)

lemma keyed_peer_set_done [simp]:
  "keyed_peer (w(p := set_done b (w p))) = keyed_peer w"
  by (auto simp: keyed_peer_def fun_eq_iff)

lemma keyed_peer_set_done2 [simp]:
  "p \<noteq> q \<Longrightarrow> keyed_peer (w(p := set_done b (w p), q := set_done c (w q))) = keyed_peer w"
  by (auto simp: keyed_peer_def fun_eq_iff)

text \<open>A pairing adds one call to each side of its key and none to any other.\<close>

lemma keyed_paired_pair:
  assumes "ks_pc s p = K_enter" "ks_pc s q = K_blocked" "\<not> kw_done (ks_waiter s q)"
      "keyed_peer (ks_waiter s) p q"
    and t: "t = s\<lparr>ks_queue := rest,
          ks_waiter := (ks_waiter s)(p := set_done False (ks_waiter s p),
                                     q := set_done True (ks_waiter s q)),
          ks_pc := (ks_pc s)(p := K_returned 0)\<rparr>"
  shows "keyed_paired t obj key rel =
     (if kw_object (ks_waiter s p) = obj \<and> kw_key (ks_waiter s p) = key
      then insert (if kw_release (ks_waiter s p) = rel then p else q) (keyed_paired s obj key rel)
      else keyed_paired s obj key rel)"
proof (rule set_eqI)
  fix x
  have pq: "p \<noteq> q" using assms(1,2) by auto
  consider "x = p" | "x = q" | "x \<noteq> p" "x \<noteq> q" by blast
  then show "x \<in> keyed_paired t obj key rel \<longleftrightarrow> x \<in>
     (if kw_object (ks_waiter s p) = obj \<and> kw_key (ks_waiter s p) = key
      then insert (if kw_release (ks_waiter s p) = rel then p else q) (keyed_paired s obj key rel)
      else keyed_paired s obj key rel)"
  proof cases
    case 1
    with assms(1) pq show ?thesis by (auto simp: t keyed_paired_def)
  next
    case 2
    with assms(2-4) pq show ?thesis by (auto simp: t keyed_paired_def keyed_peer_def)
  next
    case 3
    then show ?thesis by (simp add: t keyed_paired_def)
  qed
qed

lemma keyed_paired_fresh:
  assumes "ks_pc s p = K_enter" "ks_pc s q = K_blocked" "\<not> kw_done (ks_waiter s q)"
  shows "p \<notin> keyed_paired s obj key rel" "q \<notin> keyed_paired s obj key rel"
  using assms by (auto simp: keyed_paired_def)

lemma keyed_pair_inv:
  assumes inv: "keyed_inv s" and pc: "ks_pc s p = K_enter"
    and m: "horizon_keyed_match_locked (ks_waiter s) (ks_queue s) p = Some (q, rest)"
    and t: "t = s\<lparr>ks_queue := rest,
          ks_waiter := (ks_waiter s)(p := set_done False (ks_waiter s p),
                                     q := set_done True (ks_waiter s q)),
          ks_pc := (ks_pc s)(p := K_returned 0)\<rparr>"
  shows "keyed_inv t"
proof -
  have d: "distinct (ks_queue s)" using inv by (simp add: keyed_inv_def)
  from keyed_match_Some(1) [OF m] have q: "q \<in> set (ks_queue s)" "keyed_peer (ks_waiter s) p q" by auto
  from keyed_match_Some(2) [OF m d] have r: "distinct rest" "set rest = set (ks_queue s) - {q}" by auto
  from inv q(1) have qb: "ks_pc s q = K_blocked" "\<not> kw_done (ks_waiter s q)" by (auto simp: keyed_inv_def)
  have pq: "p \<noteq> q" using pc qb(1) by auto
  have pnq: "p \<notin> set (ks_queue s)" using inv pc by (auto simp: keyed_inv_def)
  have mem: "\<forall>x. x \<in> set (ks_queue t) \<longleftrightarrow> ks_pc t x = K_blocked \<and> \<not> kw_done (ks_waiter t x)"
    using inv r(2) pc pq unfolding t keyed_inv_def by auto
  have peers: "\<forall>x\<in>set (ks_queue t). \<forall>y\<in>set (ks_queue t). \<not> keyed_peer (ks_waiter t) x y"
    using inv r(2) pq unfolding t keyed_inv_def by (simp del: fun_upd_apply)
  have bal: "finite (keyed_paired t obj key True) \<and> finite (keyed_paired t obj key False) \<and>
        card (keyed_paired t obj key True) = card (keyed_paired t obj key False)" for obj key
    using inv keyed_paired_fresh [OF pc qb]
    by (simp add: keyed_paired_pair [OF pc qb q(2) t] keyed_inv_def)
  show ?thesis using r(1) mem peers bal by (simp add: keyed_inv_def t)
qed

lemma keyed_paired_same:
  assumes "\<And>x. kw_object (ks_waiter t x) = kw_object (ks_waiter s x)"
    "\<And>x. kw_key (ks_waiter t x) = kw_key (ks_waiter s x)"
    "\<And>x. kw_release (ks_waiter t x) = kw_release (ks_waiter s x)"
    "\<And>x. (ks_pc t x = K_returned 0 \<or> ks_pc t x = K_blocked \<and> kw_done (ks_waiter t x)) =
          (ks_pc s x = K_returned 0 \<or> ks_pc s x = K_blocked \<and> kw_done (ks_waiter s x))"
  shows "keyed_paired t = keyed_paired s"
  unfolding keyed_paired_def by (intro ext) (simp add: assms)

lemma keyed_block_inv:
  assumes inv: "keyed_inv s" and pc: "ks_pc s p = K_enter"
    and m: "horizon_keyed_match_locked (ks_waiter s) (ks_queue s) p = None"
    and t: "t = s\<lparr>ks_queue := horizon_keyed_enqueue_locked (ks_queue s) p,
          ks_waiter := (ks_waiter s)(p := set_done False (ks_waiter s p)),
          ks_pc := (ks_pc s)(p := K_blocked)\<rparr>"
  shows "keyed_inv t"
proof -
  have pnq: "p \<notin> set (ks_queue s)" using inv pc by (auto simp: keyed_inv_def)
  have same: "keyed_paired t = keyed_paired s"
    by (rule keyed_paired_same) (auto simp: t pc)
  have none: "\<forall>q\<in>set (ks_queue s). \<not> keyed_peer (ks_waiter s) p q" using m by (simp add: keyed_match_None)
  have peers: "\<forall>x\<in>set (ks_queue t). \<forall>y\<in>set (ks_queue t). \<not> keyed_peer (ks_waiter t) x y"
    using inv none keyed_peer_sym [of "ks_waiter s" p]
    unfolding t keyed_inv_def horizon_keyed_enqueue_locked_def by (simp del: fun_upd_apply)
  have mem: "\<forall>x. x \<in> set (ks_queue t) \<longleftrightarrow> ks_pc t x = K_blocked \<and> \<not> kw_done (ks_waiter t x)"
    using inv unfolding t keyed_inv_def horizon_keyed_enqueue_locked_def by auto
  show ?thesis
    using inv pnq same mem peers by (simp add: keyed_inv_def t horizon_keyed_enqueue_locked_def)
qed

lemma keyed_poll_inv:
  assumes inv: "keyed_inv s" and pc: "ks_pc s p = K_enter"
    and t: "t = s\<lparr>ks_waiter := (ks_waiter s)(p := set_done False (ks_waiter s p)),
          ks_pc := (ks_pc s)(p := K_returned 1)\<rparr>"
  shows "keyed_inv t"
proof -
  have pnq: "p \<notin> set (ks_queue s)" using inv pc by (auto simp: keyed_inv_def)
  have same: "keyed_paired t = keyed_paired s"
    by (rule keyed_paired_same) (auto simp: t pc)
  have mem: "\<forall>x. x \<in> set (ks_queue t) \<longleftrightarrow> ks_pc t x = K_blocked \<and> \<not> kw_done (ks_waiter t x)"
    using inv pnq unfolding t keyed_inv_def by auto
  have peers: "\<forall>x\<in>set (ks_queue t). \<forall>y\<in>set (ks_queue t). \<not> keyed_peer (ks_waiter t) x y"
    using inv unfolding t keyed_inv_def by (simp del: fun_upd_apply)
  show ?thesis using inv same mem peers by (simp add: keyed_inv_def t)
qed

lemma keyed_wake_inv:
  assumes inv: "keyed_inv s" and pc: "ks_pc s p = K_blocked" "kw_done (ks_waiter s p)"
    and t: "t = s\<lparr>ks_pc := (ks_pc s)(p := K_returned 0)\<rparr>"
  shows "keyed_inv t"
proof -
  have same: "keyed_paired t = keyed_paired s"
    by (rule keyed_paired_same) (auto simp: t pc)
  have "\<forall>x. x \<in> set (ks_queue t) \<longleftrightarrow> ks_pc t x = K_blocked \<and> \<not> kw_done (ks_waiter t x)"
    using inv pc unfolding t keyed_inv_def by auto
  then show ?thesis using inv same by (simp add: keyed_inv_def t)
qed

lemma keyed_expire_inv:
  assumes inv: "keyed_inv s" and pc: "ks_pc s p = K_blocked"
    and c: "horizon_keyed_cancel_locked (ks_queue s) p = (True, rest)"
    and t: "t = s\<lparr>ks_queue := rest, ks_pc := (ks_pc s)(p := K_returned 1)\<rparr>"
  shows "keyed_inv t"
proof -
  have d: "distinct (ks_queue s)" using inv by (simp add: keyed_inv_def)
  from keyed_cancel [OF d c] have r: "p \<in> set (ks_queue s)" "distinct rest"
      "set rest = set (ks_queue s) - {p}" by auto
  from inv r(1) have nd: "\<not> kw_done (ks_waiter s p)" by (auto simp: keyed_inv_def)
  have same: "keyed_paired t = keyed_paired s"
    by (rule keyed_paired_same) (auto simp: t pc nd)
  have "\<forall>x. x \<in> set (ks_queue t) \<longleftrightarrow> ks_pc t x = K_blocked \<and> \<not> kw_done (ks_waiter t x)"
    using inv r(3) unfolding t keyed_inv_def by auto
  moreover have "\<forall>x\<in>set (ks_queue t). \<forall>y\<in>set (ks_queue t). \<not> keyed_peer (ks_waiter t) x y"
    using inv r(3) by (simp add: keyed_inv_def t)
  ultimately show ?thesis using inv same r(2) by (simp add: keyed_inv_def t)
qed

lemma keyed_step_inv: "horizon_keyed_rendezvous s t \<Longrightarrow> keyed_inv s \<Longrightarrow> keyed_inv t"
proof (induction rule: horizon_keyed_rendezvous.induct)
  case (pair s p peer rest)
  then show ?case by (blast intro: keyed_pair_inv)
next
  case (poll s p)
  then show ?case by (blast intro: keyed_poll_inv)
next
  case (block s p)
  then show ?case by (blast intro: keyed_block_inv)
next
  case (wake s p)
  then show ?case by (blast intro: keyed_wake_inv)
next
  case (expire s p rest)
  then show ?case by (blast intro: keyed_expire_inv)
next
  case (expire_late s p rest)
  then show ?case by simp
qed

lemma keyed_reachable_inv: "keyed_reachable s \<Longrightarrow> keyed_inv s"
proof (induction rule: keyed_reachable.induct)
  case (start s)
  then show ?case by (simp add: keyed_inv_def keyed_paired_def)
next
  case (step s t)
  then show ?case by (blast intro: keyed_step_inv)
qed

inductive_cases keyed_from: "horizon_keyed_rendezvous s t"

section \<open>What holds of the threads waiting to be joined\<close>

lemma reap_walk_eq:
  "reap_walk self nodes keep joined =
     (rev (filter (\<lambda>t. t = self) nodes) @ keep, joined @ filter (\<lambda>t. t \<noteq> self) nodes)"
  by (induction nodes arbitrary: keep joined) auto

lemma length_filter_split: "length (filter P xs) + length (filter (\<lambda>x. \<not> P x) xs) = length xs"
  by (induction xs) auto

lemma sum_list_remove_at:
  "i < length xs \<Longrightarrow> sum_list (map f xs) = (f (xs ! i) :: nat) + sum_list (map f (remove_at i xs))"
  by (subst id_take_nth_drop [of i xs]) (simp_all add: remove_at_def)

lemma ucast_add_ucast: "ucast (a + ucast b :: u64) = (ucast a + b :: u32)"
proof transfer
  fix a b :: int
  have "a mod 2 ^ 64 mod 2 ^ 32 = a mod (2 ^ 32 :: int)" by (rule mod_mod_cancel) simp
  then have "(a mod 2 ^ 64 + b) mod 2 ^ 32 = (a + b) mod (2 ^ 32 :: int)" by (metis mod_add_left_eq)
  then show "take_bit LENGTH(32) (take_bit LENGTH(64) (a + take_bit LENGTH(32) b)) =
      take_bit LENGTH(32) (take_bit LENGTH(64) a + b)"
    by (simp add: take_bit_eq_mod mod_mod_cancel mod_add_right_eq)
qed

lemma zombie_waiting_finish:
  assumes "i < length (zs_flight s)" "zs_flight s ! i = (self, head)"
  shows "zombie_waiting s =
     zombie_waiting (zombie_step s (Z_finish i)) + length (filter (\<lambda>t. t \<noteq> self) head)"
  using assms sum_list_remove_at [OF assms(1), of "length \<circ> snd"]
    length_filter_split [of "\<lambda>t. t = self" head]
  by (simp add: zombie_waiting_def reap_walk_eq reap_finish_def Let_def foldr_conv_fold [symmetric]
      fold_Cons_rev)

lemma zombie_step_inv [inv_intros]: "zombie_inv s \<Longrightarrow> zombie_inv (zombie_step s p)"
proof (cases p)
  case (Z_push t)
  then show "zombie_inv s \<Longrightarrow> ?thesis"
    by (simp add: zombie_inv_def zombie_waiting_def horizon_zombie_push_def)
next
  case (Z_detach self)
  then show "zombie_inv s \<Longrightarrow> ?thesis"
    by (simp add: zombie_inv_def zombie_waiting_def reap_detach_def)
next
  case (Z_finish i)
  assume inv: "zombie_inv s"
  show ?thesis
  proof (cases "i < length (zs_flight s)")
    case False
    with inv Z_finish show ?thesis by simp
  next
    case True
    obtain self head where f: "zs_flight s ! i = (self, head)" by fastforce
    have w: "of_nat (zombie_waiting s) =
        of_nat (zombie_waiting (zombie_step s (Z_finish i))) +
        (of_nat (length (filter (\<lambda>t. t \<noteq> self) head)) :: u32)"
      using zombie_waiting_finish [OF True f] by simp
    show ?thesis
      using inv True f w Z_finish
      by (auto simp: zombie_inv_def reap_walk_eq reap_finish_def Let_def algebra_simps ucast_add_ucast)
  qed
qed

interpretation zombie: invariant_machine zombie_step "\<lambda>_ _. True" zombie_inv
  by unfold_locales (rule zombie_step_inv)

lemma zombie_init_inv: "zombie_inv zombie_init"
  by (simp add: zombie_inv_def zombie_init_def zombie_waiting_def)

lemma zombie_always_admissible: "admissible zombie_step (\<lambda>_ _. True) s ps"
  by (induction ps arbitrary: s) auto

text \<open>Where the pushed threads are: in the list, with a reaper, or joined.\<close>

definition zombie_pushed :: "zombie_op list \<Rightarrow> pthread list" where
  "zombie_pushed ops = concat (map (\<lambda>p. case p of Z_push t \<Rightarrow> [t] | _ \<Rightarrow> []) ops)"

definition zombie_places :: "zombie_system \<Rightarrow> pthread multiset" where
  "zombie_places s = mset (zl_head (zs_list s)) + sum_list (map (mset \<circ> snd) (zs_flight s)) +
     mset (map snd (zs_joined s))"

lemma sum_list_mset_remove_at:
  "i < length xs \<Longrightarrow> sum_list (map f xs) = (f (xs ! i) :: 'a multiset) + sum_list (map f (remove_at i xs))"
  by (subst id_take_nth_drop [of i xs]) (simp_all add: remove_at_def union_ac)

lemma zombie_places_finish:
  assumes "i < length (zs_flight s)"
  shows "zombie_places (zombie_step s (Z_finish i)) = zombie_places s"
proof -
  obtain self head where f: "zs_flight s ! i = (self, head)" by fastforce
  let ?keep = "filter (\<lambda>t. t = self) head" and ?join = "filter (\<lambda>t. t \<noteq> self) head"
  have parts: "mset ?keep + mset ?join = mset head"
    by (metis mset_filter multiset_partition)
  have "zombie_places (zombie_step s (Z_finish i)) =
      mset ?keep + mset (zl_head (zs_list s)) +
      sum_list (map (mset \<circ> snd) (remove_at i (zs_flight s))) + (mset (map snd (zs_joined s)) + mset ?join)"
    using assms f
    by (simp add: zombie_places_def reap_walk_eq reap_finish_def Let_def fold_Cons_rev comp_def del: mset_filter)
  also have "\<dots> = mset (zl_head (zs_list s)) + (mset head + sum_list (map (mset \<circ> snd) (remove_at i (zs_flight s)))) +
      mset (map snd (zs_joined s))"
    by (simp add: parts [symmetric] del: mset_filter)
  also have "\<dots> = zombie_places s"
    using sum_list_mset_remove_at [OF assms, of "mset \<circ> snd"] f by (simp add: zombie_places_def)
  finally show ?thesis .
qed

lemma zombie_places_run:
  "zombie_places (foldl zombie_step s ops) = zombie_places s + mset (zombie_pushed ops)"
proof (induction ops arbitrary: s)
  case Nil
  then show ?case by (simp add: zombie_pushed_def)
next
  case (Cons p ops)
  have "zombie_places (zombie_step s p) = zombie_places s + mset (zombie_pushed [p])"
  proof (cases p)
    case (Z_finish i)
    then show ?thesis
      using zombie_places_finish [of i s] by (cases "i < length (zs_flight s)") (auto simp: zombie_pushed_def)
  qed (auto simp: zombie_pushed_def zombie_places_def horizon_zombie_push_def reap_detach_def)
  with Cons [of "zombie_step s p"] show ?case by (simp add: zombie_pushed_def)
qed

lemma keyed_arrive:
  assumes "horizon_keyed_rendezvous s t" "ks_pc s p = K_enter" "q \<in> set (ks_queue s)"
    "keyed_peer (ks_waiter s) p q"
  shows "ks_pc t p = K_enter \<or> ks_pc t p = K_returned 0"
  using assms by (elim keyed_from) (auto simp: keyed_match_None)

lemma keyed_wakes:
  assumes "ks_pc s p = K_blocked" "kw_done (ks_waiter s p)"
  shows "\<exists>t. horizon_keyed_rendezvous s t \<and> ks_pc t p = K_returned 0"
  using horizon_keyed_rendezvous.wake [OF assms] by fastforce

lemma keyed_paired_safe:
  assumes inv: "keyed_inv s" and "horizon_keyed_rendezvous s t" "ks_pc s p = K_blocked"
    "kw_done (ks_waiter s p)"
  shows "ks_pc t p \<noteq> K_returned 1"
proof -
  have d: "distinct (ks_queue s)" using inv by (simp add: keyed_inv_def)
  have "p \<notin> set (ks_queue s)" using inv assms(4) by (auto simp: keyed_inv_def)
  then have "horizon_keyed_cancel_locked (ks_queue s) p \<noteq> (True, rest)" for rest
    using keyed_cancel(1) [OF d] by blast
  with assms(2-4) show ?thesis by (elim keyed_from) auto
qed

section \<open>Properties\<close>

text \<open>C18. A mutex is a recursive lock with one holder. After any sequence of fewer than
  \<open>2 ^ 32\<close> waits, releases and thread ends its state is that of the abstract lock; it is signaled
  for a thread exactly when it is free or held by that thread; a release succeeds only for the
  holder; and an acquisition reports \<open>abandoned\<close> exactly when the last holder ended with it.\<close>

theorem mutex_refines_lock:
  assumes "length ops < 2 ^ 32"
  defines "m \<equiv> foldl mutex_step mutex_init ops"
    and "lk \<equiv> foldl lock_step (Free False) ops"
  shows "mutex_abs m = lk \<and>
    (horizon_mutex_signaled m tid \<longleftrightarrow> (case lk of Free ab \<Rightarrow> True | Held own n \<Rightarrow> own = tid)) \<and>
    (fst (horizon_mutex_release m tid) = 0 \<longleftrightarrow> (\<exists>n. lk = Held tid n)) \<and>
    (fst (horizon_mutex_acquire m tid) \<longleftrightarrow> lk = Free True)"
proof -
  have adm: "admissible mutex_step mutex_ok mutex_init ops"
    using assms(1) by (intro mutex_admissible) (simp add: mutex_init_def)
  have abs: "mutex_abs m = lk"
    using mutex.run_abs [OF mutex_init_inv adm] by (simp add: m_def lk_def mutex_abs_init)
  have inv: "mutex_inv m"
    using mutex.run_inv [OF mutex_init_inv adm] by (simp add: m_def)
  show ?thesis
    using inv unfolding abs [symmetric] by (auto simp: mutex_abs_def mutex_inv_def mutex_defs)
qed

theorem mutex_refines_lock_witness:
  "mutex_abs (foldl mutex_step mutex_init [M_wait 7, M_wait 9, M_wait 7, M_release 9, M_release 7, M_end 7]) =
     Free True \<and>
   horizon_mutex_signaled (foldl mutex_step mutex_init
     [M_wait 7, M_wait 9, M_wait 7, M_release 9, M_release 7, M_end 7]) 9"
  using mutex_refines_lock [of "[M_wait 7, M_wait 9, M_wait 7, M_release 9, M_release 7, M_end 7]" 9]
  by simp

text \<open>C19. A keyed event pairs calls one to one. In every reachable state no two queued calls could
  pair; for each key as many releases as waits have been paired; a call that arrives while its
  other side waits can only return success at once; and a call that has been paired can only
  return success, never a timeout, and is able to.\<close>

theorem keyed_rendezvous_pairs:
  assumes "keyed_reachable s"
  shows "(\<forall>p q. p \<in> set (ks_queue s) \<and> q \<in> set (ks_queue s) \<longrightarrow> \<not> keyed_peer (ks_waiter s) p q) \<and>
    (\<forall>obj key. finite (keyed_paired s obj key True) \<and>
       card (keyed_paired s obj key True) = card (keyed_paired s obj key False)) \<and>
    (\<forall>p q t. ks_pc s p = K_enter \<and> q \<in> set (ks_queue s) \<and> keyed_peer (ks_waiter s) p q \<and>
       horizon_keyed_rendezvous s t \<longrightarrow> ks_pc t p = K_enter \<or> ks_pc t p = K_returned 0) \<and>
    (\<forall>p. ks_pc s p = K_blocked \<and> kw_done (ks_waiter s p) \<longrightarrow>
       (\<exists>t. horizon_keyed_rendezvous s t \<and> ks_pc t p = K_returned 0) \<and>
       (\<forall>t. horizon_keyed_rendezvous s t \<longrightarrow> ks_pc t p \<noteq> K_returned 1))"
proof -
  have inv: "keyed_inv s" using assms by (rule keyed_reachable_inv)
  show ?thesis
    using inv keyed_arrive keyed_wakes keyed_paired_safe [OF inv] unfolding keyed_inv_def by blast
qed

text \<open>A wait at address 1 that blocked and a release at address 2 that found it.\<close>

definition keyed_demo :: "keyed_system" where
  "keyed_demo = \<lparr>ks_queue = [],
     ks_waiter = (\<lambda>p. \<lparr>kw_object = 5, kw_key = 9, kw_release = (p = 2), kw_done = False\<rparr>),
     ks_pc = (\<lambda>p. K_enter), ks_timeout = (\<lambda>p. 100)\<rparr>"

definition keyed_demo_blocked :: "keyed_system" where
  "keyed_demo_blocked = keyed_demo\<lparr>ks_queue := [1], ks_pc := (ks_pc keyed_demo)(1 := K_blocked)\<rparr>"

definition keyed_demo_paired :: "keyed_system" where
  "keyed_demo_paired = keyed_demo\<lparr>
     ks_waiter := (ks_waiter keyed_demo)(1 := set_done True (ks_waiter keyed_demo 1)),
     ks_pc := (ks_pc keyed_demo)(1 := K_blocked, 2 := K_returned 0)\<rparr>"

lemma keyed_demo_reachable: "keyed_reachable keyed_demo_paired"
proof -
  have 0: "keyed_reachable keyed_demo" by (rule keyed_reachable.start) (simp_all add: keyed_demo_def)
  have "ks_waiter keyed_demo = (ks_waiter keyed_demo)(1 := set_done False (ks_waiter keyed_demo 1))"
    by (auto simp: keyed_demo_def set_done_def fun_eq_iff)
  then have "horizon_keyed_rendezvous keyed_demo keyed_demo_blocked"
    using horizon_keyed_rendezvous.block [of keyed_demo 1]
    by (simp add: keyed_demo_def keyed_demo_blocked_def horizon_keyed_match_locked_def
        horizon_keyed_enqueue_locked_def)
  with 0 have 1: "keyed_reachable keyed_demo_blocked" by (rule keyed_reachable.step)
  have "(ks_waiter keyed_demo)(2 := set_done False (ks_waiter keyed_demo 2),
        1 := set_done True (ks_waiter keyed_demo 1)) =
      (ks_waiter keyed_demo)(1 := set_done True (ks_waiter keyed_demo 1))"
    by (auto simp: keyed_demo_def set_done_def fun_eq_iff)
  then have "horizon_keyed_rendezvous keyed_demo_blocked keyed_demo_paired"
    using horizon_keyed_rendezvous.pair [of keyed_demo_blocked 2 1 "[]"]
    by (simp add: keyed_demo_def keyed_demo_blocked_def keyed_demo_paired_def
        horizon_keyed_match_locked_def keyed_peer_def remove_at_def)
  with 1 show ?thesis by (rule keyed_reachable.step)
qed

theorem keyed_rendezvous_pairs_witness:
  "keyed_reachable keyed_demo_paired \<and> ks_pc keyed_demo_paired 1 = K_blocked \<and>
   (\<exists>t. horizon_keyed_rendezvous keyed_demo_paired t \<and> ks_pc t 1 = K_returned 0) \<and>
   card (keyed_paired keyed_demo_paired 5 9 True) = card (keyed_paired keyed_demo_paired 5 9 False)"
proof -
  have "ks_pc keyed_demo_paired 1 = K_blocked \<and> kw_done (ks_waiter keyed_demo_paired 1)"
    by (simp add: keyed_demo_paired_def keyed_demo_def)
  then show ?thesis using keyed_rendezvous_pairs [OF keyed_demo_reachable] keyed_demo_reachable by blast
qed

text \<open>The life of a thread: whatever the requests, its suspend count stays between 0 and
  127; while it runs its exit status is \<open>STILL_ACTIVE\<close>; once it has ended no request changes it
  again, a suspend is refused, and its status is its exit code; and a suspend that succeeds keeps
  it from starting and is undone by one resume.\<close>

theorem thread_lifecycle:
  fixes tid pid :: u32 and affinity :: u64 and now :: int and ops :: "thread_op list"
  defines "t \<equiv> foldl thread_step (horizon_thread_init tid pid affinity now) ops"
  shows "0 \<le> th_suspend t \<and> th_suspend t \<le> 127 \<and>
    (\<not> th_terminated t \<longrightarrow> horizon_thread_exit_status t = 0x103) \<and>
    (th_terminated t \<longrightarrow> (\<forall>more. foldl thread_step t more = t) \<and> horizon_thread_may_start t \<and>
       fst (horizon_thread_suspend t) = HORIZON_THREADS_STATUS_ACCESS_DENIED \<and>
       horizon_thread_exit_status t = th_exit_code t) \<and>
    (\<forall>previous t'. horizon_thread_suspend t = (0, previous, t') \<longrightarrow>
       horizon_thread_resume t' = (0, previous + 1, t) \<and> \<not> horizon_thread_may_start t')"
proof -
  have inv: "thread_inv t"
    using thread.run_inv [OF thread_init_inv thread_always_admissible] by (simp add: t_def)
  then have "0 \<le> th_suspend t \<and> th_suspend t \<le> 127" by (simp add: thread_inv_def)
  moreover have "fst (horizon_thread_suspend t) = HORIZON_THREADS_STATUS_ACCESS_DENIED \<and>
      horizon_thread_may_start t" if "th_terminated t"
    using that by (simp add: horizon_thread_suspend_def horizon_thread_may_start_def Let_def)
  ultimately show ?thesis
    using terminated_run [OF _ inv] suspend_resume_inverse [OF inv]
    unfolding horizon_thread_exit_status_def by presburger
qed

theorem thread_lifecycle_witness:
  "let t = foldl thread_step (horizon_thread_init 4 8 1 1000) [T_suspend, T_set_exit_code 3, T_end 2000]
   in th_terminated t \<and> foldl thread_step t [T_set_exit_code 9, T_suspend] = t \<and>
      horizon_thread_exit_status t = 3"
proof -
  define t where "t = foldl thread_step (horizon_thread_init 4 8 1 1000) [T_suspend, T_set_exit_code 3, T_end 2000]"
  have "th_terminated t" "th_exit_code t = 3"
    by (simp_all add: t_def horizon_thread_init_def horizon_thread_suspend_def horizon_thread_set_exit_code_def
        horizon_thread_mark_terminated_def Let_def)
  then show ?thesis
    using thread_lifecycle [where ops = "[T_suspend, T_set_exit_code 3, T_end 2000]" and tid = 4 and pid = 8
        and affinity = 1 and now = 1000]
    unfolding Let_def t_def [symmetric] by metis
qed

text \<open>No exited thread is lost and none is joined more often than it exited, however pushes
  and reapers interleave at the lock: the pushed threads are, with multiplicity, those in the
  list, those a reaper holds and those joined; \<open>pending\<close> counts the ones not joined yet; and no
  thread joins itself.\<close>

theorem zombies_accounted:
  fixes ops :: "zombie_op list"
  defines "s \<equiv> foldl zombie_step zombie_init ops"
  shows "mset (zombie_pushed ops) =
      mset (zl_head (zs_list s)) + sum_list (map (mset \<circ> snd) (zs_flight s)) + mset (map snd (zs_joined s)) \<and>
    zl_pending (zs_list s) =
      of_nat (length (zl_head (zs_list s)) + sum_list (map (length \<circ> snd) (zs_flight s))) \<and>
    (\<forall>self t. (self, t) \<in> set (zs_joined s) \<longrightarrow> t \<noteq> self)"
proof -
  have inv: "zombie_inv s"
    using zombie.run_inv [OF zombie_init_inv zombie_always_admissible] by (simp add: s_def)
  have "zombie_places s = mset (zombie_pushed ops)"
    using zombie_places_run [of zombie_init ops]
    by (simp add: s_def zombie_places_def zombie_init_def)
  with inv show ?thesis by (auto simp: zombie_inv_def zombie_places_def zombie_waiting_def)
qed

theorem zombies_accounted_witness:
  "let s = foldl zombie_step zombie_init [Z_push 4, Z_push 5, Z_detach 5, Z_push 6, Z_finish 0]
   in zs_joined s = [(5, 4)] \<and> zl_head (zs_list s) = [5, 6] \<and> zl_pending (zs_list s) = 2"
proof -
  have "zs_joined (foldl zombie_step zombie_init [Z_push 4, Z_push 5, Z_detach 5, Z_push 6, Z_finish 0]) = [(5, 4)]"
    "zl_head (zs_list (foldl zombie_step zombie_init [Z_push 4, Z_push 5, Z_detach 5, Z_push 6, Z_finish 0])) = [5, 6]"
    "zs_flight (foldl zombie_step zombie_init [Z_push 4, Z_push 5, Z_detach 5, Z_push 6, Z_finish 0]) = []"
    by (simp_all add: zombie_init_def horizon_zombie_push_def reap_detach_def reap_finish_def remove_at_def Let_def)
  then show ?thesis
    using zombies_accounted [of "[Z_push 4, Z_push 5, Z_detach 5, Z_push 6, Z_finish 0]"] by simp
qed

end
