(* ===== verification/HzCompletion.thy ===== *)
theory HzCompletion
  imports HzPrelude
begin

text \<open>
  I/O completion ports (\<open>dlls/ntdll/unix/horizon_completion.h\<close>): the queue of messages a port
  holds, the rules by which a completion wait is signaled and takes its message, and the
  rules for a file's I/O results. \<open>horizon_fd_queue\<close> and the user APC queue of \<open>horizon.c\<close>
  are kept the same way (head, tail, \<open>tail->next = node\<close>) and are modelled beside it.
\<close>

abbreviation (input) HORIZON_FILE_SYNCHRONOUS_IO_ALERT :: u32 where
  "HORIZON_FILE_SYNCHRONOUS_IO_ALERT \<equiv> 0x10"
abbreviation (input) HORIZON_FILE_SYNCHRONOUS_IO_NONALERT :: u32 where
  "HORIZON_FILE_SYNCHRONOUS_IO_NONALERT \<equiv> 0x20"
abbreviation (input) HORIZON_FILE_SKIP_COMPLETION_PORT_ON_SUCCESS :: u32 where
  "HORIZON_FILE_SKIP_COMPLETION_PORT_ON_SUCCESS \<equiv> 0x1"
abbreviation (input) HORIZON_FILE_SKIP_SET_EVENT_ON_HANDLE :: u32 where
  "HORIZON_FILE_SKIP_SET_EVENT_ON_HANDLE \<equiv> 0x2"
abbreviation (input) HORIZON_FILE_SKIP_SET_USER_EVENT_ON_FAST_IO :: u32 where
  "HORIZON_FILE_SKIP_SET_USER_EVENT_ON_FAST_IO \<equiv> 0x4"

section \<open>The queue\<close>

record horizon_completion_msg =
  cm_ckey :: u64
  cm_cvalue :: u64
  cm_information :: u64
  cm_status :: u32

text \<open>The head is the first reachable node; \<open>cq_tail\<close> is the stored pointer.\<close>

record horizon_completion_queue =
  cq_nodes :: "horizon_completion_msg nodes"
  cq_tail :: "ptr option"
  cq_depth :: u32

text \<open>\<open>alloc\<close> is what \<open>malloc\<close> returned.\<close>

definition horizon_completion_add ::
    "ptr option \<Rightarrow> horizon_completion_queue \<Rightarrow> u64 \<Rightarrow> u64 \<Rightarrow> u32 \<Rightarrow> u64 \<Rightarrow>
     bool \<times> horizon_completion_queue" where
  "horizon_completion_add alloc queue ckey cvalue status information =
     (case alloc of
        None \<Rightarrow> (False, queue)
      | Some p \<Rightarrow>
          (let msg = (p, \<lparr>cm_ckey = ckey, cm_cvalue = cvalue, cm_information = information,
                          cm_status = status\<rparr>);
               nodes = (case cq_tail queue of
                          Some t \<Rightarrow> append_after t msg (cq_nodes queue)
                        | None \<Rightarrow> [msg])
           in (True, queue\<lparr>cq_nodes := nodes, cq_tail := Some p, cq_depth := cq_depth queue + 1\<rparr>)))"

definition horizon_completion_take ::
    "horizon_completion_queue \<Rightarrow> (horizon_completion_msg \<times> horizon_completion_queue) option" where
  "horizon_completion_take queue =
     (case cq_nodes queue of
        [] \<Rightarrow> None
      | (p, m) # rest \<Rightarrow>
          Some (m, queue\<lparr>cq_nodes := rest,
                         cq_tail := (if rest = [] then None else cq_tail queue),
                         cq_depth := cq_depth queue - 1\<rparr>))"

text \<open>\<open>while (horizon_completion_take( queue, &msg )) ;\<close>\<close>

function horizon_completion_clear :: "horizon_completion_queue \<Rightarrow> horizon_completion_queue" where
  "horizon_completion_clear queue =
     (case horizon_completion_take queue of
        None \<Rightarrow> queue
      | Some (m, queue') \<Rightarrow> horizon_completion_clear queue')"
  by pat_completeness auto
termination
  by (relation "measure (\<lambda>q. length (cq_nodes q))")
    (auto simp: horizon_completion_take_def split: list.splits)

declare horizon_completion_clear.simps [simp del]

definition horizon_completion_wait_signaled :: "horizon_completion_queue option \<Rightarrow> bool \<Rightarrow> bool" where
  "horizon_completion_wait_signaled port closed \<longleftrightarrow>
     (case port of None \<Rightarrow> True | Some q \<Rightarrow> closed \<or> cq_depth q \<noteq> 0)"

text \<open>Whether the wait is abandoned; else what it took and what the port is left with.\<close>

definition horizon_completion_wait_satisfy ::
    "horizon_completion_queue option \<Rightarrow> bool \<Rightarrow>
     bool \<times> horizon_completion_msg option \<times> horizon_completion_queue option" where
  "horizon_completion_wait_satisfy port closed =
     (case port of
        None \<Rightarrow> (True, None, None)
      | Some q \<Rightarrow>
          if closed then (True, None, Some q)
          else (case horizon_completion_take q of
                  None \<Rightarrow> (False, None, Some q)
                | Some (m, q') \<Rightarrow> (False, Some m, Some q')))"

section \<open>Files associated with a port\<close>

definition horizon_completion_file_overlapped :: "u32 \<Rightarrow> bool" where
  "horizon_completion_file_overlapped options \<longleftrightarrow>
     options AND (HORIZON_FILE_SYNCHRONOUS_IO_ALERT OR HORIZON_FILE_SYNCHRONOUS_IO_NONALERT) = 0"

definition horizon_completion_file_posts :: "bool \<Rightarrow> u32 \<Rightarrow> bool" where
  "horizon_completion_file_posts async flags \<longleftrightarrow>
     async \<or> flags AND HORIZON_FILE_SKIP_COMPLETION_PORT_ON_SUCCESS = 0"

definition horizon_completion_file_mode :: "u32 \<Rightarrow> u32 \<Rightarrow> u32" where
  "horizon_completion_file_mode flags request =
     flags OR (request AND (HORIZON_FILE_SKIP_COMPLETION_PORT_ON_SUCCESS OR
                            HORIZON_FILE_SKIP_SET_EVENT_ON_HANDLE OR
                            HORIZON_FILE_SKIP_SET_USER_EVENT_ON_FAST_IO))"

section \<open>Descriptors passed between client and server\<close>

text \<open>\<open>horizon_fd_queue_push\<close> ends the process when it has no memory, so it has no failing
  branch; \<open>horizon_fd_queue_pop\<close> waits while the queue is empty, which is \<open>None\<close> here.\<close>

record horizon_fd_message =
  fm_fd :: int
  fm_handle :: u32

record horizon_fd_queue =
  fq_nodes :: "horizon_fd_message nodes"
  fq_tail :: "ptr option"

definition horizon_fd_queue_push :: "ptr \<Rightarrow> horizon_fd_message \<Rightarrow> horizon_fd_queue \<Rightarrow> horizon_fd_queue" where
  "horizon_fd_queue_push p m queue =
     (let nodes = (case fq_tail queue of
                     Some t \<Rightarrow> append_after t (p, m) (fq_nodes queue)
                   | None \<Rightarrow> [(p, m)])
      in queue\<lparr>fq_nodes := nodes, fq_tail := Some p\<rparr>)"

definition horizon_fd_queue_pop :: "horizon_fd_queue \<Rightarrow> (horizon_fd_message \<times> horizon_fd_queue) option" where
  "horizon_fd_queue_pop queue =
     (case fq_nodes queue of
        [] \<Rightarrow> None
      | (p, m) # rest \<Rightarrow>
          Some (m, queue\<lparr>fq_nodes := rest, fq_tail := (if rest = [] then None else fq_tail queue)\<rparr>))"

section \<open>What holds of the queues\<close>

definition completion_inv :: "horizon_completion_queue \<Rightarrow> bool" where
  "completion_inv q \<longleftrightarrow>
     distinct (map fst (cq_nodes q)) \<and> cq_tail q = last_addr (cq_nodes q) \<and>
     cq_depth q = of_nat (length (cq_nodes q))"

definition completion_items :: "horizon_completion_queue \<Rightarrow> horizon_completion_msg list" where
  "completion_items q = map snd (cq_nodes q)"

definition completion_put :: "ptr \<Rightarrow> horizon_completion_msg \<Rightarrow> horizon_completion_queue \<Rightarrow> horizon_completion_queue" where
  "completion_put p m q =
     snd (horizon_completion_add (Some p) q (cm_ckey m) (cm_cvalue m) (cm_status m) (cm_information m))"

definition completion_empty :: horizon_completion_queue where
  "completion_empty = \<lparr>cq_nodes = [], cq_tail = None, cq_depth = 0\<rparr>"

definition fd_queue_inv :: "horizon_fd_queue \<Rightarrow> bool" where
  "fd_queue_inv q \<longleftrightarrow> distinct (map fst (fq_nodes q)) \<and> fq_tail q = last_addr (fq_nodes q)"

text \<open>Appending by the tail pointer appends, whether or not the queue was empty.\<close>

lemma tail_append:
  assumes "distinct (map fst nodes)" "stored = last_addr nodes"
  shows "(case stored of Some t \<Rightarrow> append_after t node nodes | None \<Rightarrow> [node]) = nodes @ [node]"
  using assms by (auto simp: last_addr_None append_after_last split: option.splits)

lemma completion_put_nodes:
  "completion_inv q \<Longrightarrow> cq_nodes (completion_put p m q) = cq_nodes q @ [(p, m)]"
  by (cases m) (simp add: completion_put_def completion_inv_def horizon_completion_add_def Let_def tail_append)

lemma completion_put_inv [inv_intros]:
  assumes "completion_inv q" "fresh_node p (cq_nodes q)"
  shows "completion_inv (completion_put p m q)"
proof -
  have n: "cq_nodes (completion_put p m q) = cq_nodes q @ [(p, m)]"
    using assms(1) by (rule completion_put_nodes)
  moreover have "cq_tail (completion_put p m q) = Some p"
    "cq_depth (completion_put p m q) = cq_depth q + 1"
    by (simp_all add: completion_put_def horizon_completion_add_def Let_def)
  ultimately show ?thesis
    using assms by (auto simp: completion_inv_def fresh_node_def)
qed

lemma completion_take_inv [inv_intros]:
  assumes "completion_inv q" "horizon_completion_take q = Some (m, q')"
  shows "completion_inv q' \<and> completion_items q = m # completion_items q'"
proof (cases "cq_nodes q")
  case Nil
  with assms(2) show ?thesis by (simp add: horizon_completion_take_def)
next
  case (Cons n rest)
  obtain p m1 where n: "n = (p, m1)" by fastforce
  with assms Cons show ?thesis
    by (auto simp: horizon_completion_take_def completion_inv_def completion_items_def)
qed

lemma completion_take_None:
  "horizon_completion_take q = None \<longleftrightarrow> completion_items q = []"
  by (auto simp: horizon_completion_take_def completion_items_def split: list.splits)

interpretation completion: fifo_queue completion_items completion_put horizon_completion_take
    completion_inv "\<lambda>p q. fresh_node p (cq_nodes q)"
proof unfold_locales
  fix q p m
  assume "completion_inv q" "fresh_node p (cq_nodes q)"
  then show "completion_items (completion_put p m q) = completion_items q @ [m]"
    by (simp add: completion_items_def completion_put_nodes)
qed (auto simp: completion_take_None dest: completion_take_inv intro: completion_put_inv)

lemma fd_queue_push_nodes:
  "fd_queue_inv q \<Longrightarrow> fq_nodes (horizon_fd_queue_push p m q) = fq_nodes q @ [(p, m)]"
  by (simp add: horizon_fd_queue_push_def fd_queue_inv_def tail_append)

interpretation fd_queue: fifo_queue "\<lambda>q. map snd (fq_nodes q)" horizon_fd_queue_push horizon_fd_queue_pop
    fd_queue_inv "\<lambda>p q. fresh_node p (fq_nodes q)"
proof unfold_locales
  fix q p m
  assume i: "fd_queue_inv q" and f: "fresh_node p (fq_nodes q)"
  show "map snd (fq_nodes (horizon_fd_queue_push p m q)) = map snd (fq_nodes q) @ [m]"
    using i by (simp add: fd_queue_push_nodes)
  show "fd_queue_inv (horizon_fd_queue_push p m q)"
    using i f fd_queue_push_nodes [OF i, of p m] unfolding fd_queue_inv_def
    by (auto simp: horizon_fd_queue_push_def fresh_node_def)
next
  fix q m q'
  assume "fd_queue_inv q" "horizon_fd_queue_pop q = Some (m, q')"
  then show "map snd (fq_nodes q) = m # map snd (fq_nodes q') \<and> fd_queue_inv q'"
    by (auto simp: horizon_fd_queue_pop_def fd_queue_inv_def split: list.splits)
qed (auto simp: horizon_fd_queue_pop_def split: list.splits)

lemma completion_clear_empty:
  "completion_inv q \<Longrightarrow> horizon_completion_clear q = completion_empty"
proof (induction q rule: horizon_completion_clear.induct)
  case (1 q)
  show ?case
  proof (cases "horizon_completion_take q")
    case None
    then have "cq_nodes q = []" by (simp add: completion_take_None completion_items_def)
    then have "q = completion_empty"
      using "1.prems" by (cases q) (simp add: completion_inv_def completion_empty_def)
    moreover have "horizon_completion_clear q = q"
      using None by (simp add: horizon_completion_clear.simps [of q])
    ultimately show ?thesis by simp
  next
    case (Some r)
    obtain m q' where r: "r = (m, q')" by fastforce
    with Some have t: "horizon_completion_take q = Some (m, q')" by simp
    then have "completion_inv q'" using completion_take_inv "1.prems" by blast
    with "1.IH" [OF Some r [symmetric]] show ?thesis by (simp add: horizon_completion_clear.simps [of q] t)
  qed
qed

text \<open>A port with fewer than \<open>2 ^ 32\<close> messages: the wait's test of \<open>depth\<close> is a test for a message.\<close>

lemma completion_depth_zero:
  "completion_inv q \<Longrightarrow> length (cq_nodes q) < 2 ^ 32 \<Longrightarrow> cq_depth q = 0 \<longleftrightarrow> completion_items q = []"
  using word_count_nonzero [of "length (cq_nodes q)", where 'w = 32]
  by (auto simp: completion_inv_def completion_items_def)


text \<open>The requests on a port as a machine, and the list it implements.\<close>

datatype completion_op = C_add ptr horizon_completion_msg | C_take

fun completion_step :: "horizon_completion_queue \<Rightarrow> completion_op \<Rightarrow> horizon_completion_queue" where
  "completion_step q (C_add p m) = completion_put p m q"
| "completion_step q C_take = (case horizon_completion_take q of None \<Rightarrow> q | Some (m, q') \<Rightarrow> q')"

fun completion_spec :: "horizon_completion_msg list \<Rightarrow> completion_op \<Rightarrow> horizon_completion_msg list" where
  "completion_spec ms (C_add p m) = ms @ [m]"
| "completion_spec ms C_take = tl ms"

definition completion_ok :: "horizon_completion_queue \<Rightarrow> completion_op \<Rightarrow> bool" where
  "completion_ok q p \<longleftrightarrow> (case p of C_add a m \<Rightarrow> fresh_node a (cq_nodes q) | C_take \<Rightarrow> True)"

lemma completion_step_inv: "completion_inv q \<Longrightarrow> completion_ok q p \<Longrightarrow> completion_inv (completion_step q p)"
  by (cases p) (auto simp: completion_ok_def split: option.splits
      intro: completion_put_inv dest: completion_take_inv)

lemma completion_step_spec:
  assumes "completion_inv q" "completion_ok q p"
  shows "completion_items (completion_step q p) = completion_spec (completion_items q) p"
proof (cases p)
  case (C_add a m)
  with assms completion.add_items show ?thesis by (simp add: completion_ok_def)
next
  case C_take
  show ?thesis
  proof (cases "horizon_completion_take q")
    case None
    then have "completion_items q = []" by (simp add: completion_take_None)
    with None C_take show ?thesis by simp
  next
    case (Some r)
    obtain m q' where r: "r = (m, q')" by fastforce
    with Some have "completion_items q = m # completion_items q'"
      using completion_take_inv [of q m q'] assms(1) by blast
    with Some r C_take show ?thesis by simp
  qed
qed

interpretation completion: refinement_machine completion_step completion_ok completion_inv
    completion_items completion_spec
  by unfold_locales (auto intro: completion_step_inv simp: completion_step_spec)

lemma completion_empty_inv: "completion_inv completion_empty"
  by (simp add: completion_inv_def completion_empty_def)

lemma completion_empty_items: "completion_items completion_empty = []"
  by (simp add: completion_items_def completion_empty_def)

lemma completion_spec_length: "length (foldl completion_spec ms ops) \<le> length ms + length ops"
proof (induction ops arbitrary: ms)
  case Nil
  then show ?case by simp
next
  case (Cons p ops)
  have "length (completion_spec ms p) \<le> Suc (length ms)" by (cases p) auto
  with Cons [of "completion_spec ms p"] show ?case by simp
qed

section \<open>Properties\<close>

text \<open>C21. A completion port is a first-in first-out queue: after any sequence of posts (each into
  newly allocated memory) and removals, its messages are those of the list that posts append to and
  removals take the head of; \<open>depth\<close> counts them; with fewer than \<open>2 ^ 32\<close> requests a completion
  wait is signaled exactly when a message is there, and takes the oldest; and clearing the port
  empties it.\<close>

theorem completion_port_fifo:
  assumes "admissible completion_step completion_ok completion_empty ops"
  defines "q \<equiv> foldl completion_step completion_empty ops"
    and "ms \<equiv> foldl completion_spec [] ops"
  shows "completion_items q = ms \<and> cq_depth q = of_nat (length ms) \<and>
    (length ops < 2 ^ 32 \<longrightarrow>
       (horizon_completion_wait_signaled (Some q) False \<longleftrightarrow> ms \<noteq> []) \<and>
       (ms \<noteq> [] \<longrightarrow> fst (snd (horizon_completion_wait_satisfy (Some q) False)) = Some (hd ms))) \<and>
    horizon_completion_clear q = completion_empty"
proof -
  have i: "completion_inv q"
    using completion.run_inv [OF completion_empty_inv assms(1)] by (simp add: q_def)
  have items: "completion_items q = ms"
    using completion.run_abs [OF completion_empty_inv assms(1)]
    by (simp add: q_def ms_def completion_empty_items)
  have depth: "cq_depth q = of_nat (length ms)"
    using i items by (auto simp: completion_inv_def completion_items_def)
  have len: "length (cq_nodes q) = length ms" using items by (auto simp: completion_items_def)
  have sat: "ms \<noteq> [] \<longrightarrow> fst (snd (horizon_completion_wait_satisfy (Some q) False)) = Some (hd ms)"
    using completion_take_inv [OF i] items completion_take_None [of q]
    by (auto simp: horizon_completion_wait_satisfy_def split: option.splits)
  have "horizon_completion_wait_signaled (Some q) False \<longleftrightarrow> ms \<noteq> []" if "length ops < 2 ^ 32"
    using completion_depth_zero [OF i] len completion_spec_length [of "[]" ops] that items
    by (simp add: horizon_completion_wait_signaled_def ms_def [symmetric])
  with items depth sat completion_clear_empty [OF i] show ?thesis by blast
qed

theorem completion_port_fifo_witness:
  "let m1 = \<lparr>cm_ckey = 7, cm_cvalue = 1, cm_information = 0, cm_status = 0\<rparr>;
       m2 = \<lparr>cm_ckey = 7, cm_cvalue = 2, cm_information = 0, cm_status = 0\<rparr>;
       ops = [C_add 100 m1, C_add 200 m2, C_take];
       q = foldl completion_step completion_empty ops
   in admissible completion_step completion_ok completion_empty ops \<and>
      completion_items q = [m2] \<and> cq_depth q = 1 \<and>
      horizon_completion_wait_signaled (Some q) False"
proof -
  define m1 where "m1 = \<lparr>cm_ckey = 7, cm_cvalue = 1, cm_information = 0, cm_status = 0\<rparr>"
  define m2 where "m2 = \<lparr>cm_ckey = 7, cm_cvalue = 2, cm_information = 0, cm_status = 0\<rparr>"
  have a: "admissible completion_step completion_ok completion_empty [C_add 100 m1, C_add 200 m2, C_take]"
    by (simp add: completion_ok_def completion_put_def horizon_completion_add_def completion_empty_def
        fresh_node_def Let_def)
  show ?thesis
    unfolding m1_def [symmetric] m2_def [symmetric] Let_def
    using completion_port_fifo [OF a] a by simp
qed

text \<open>The descriptors the client and the server pass each other arrive in the order they were
  sent, each with its handle: popping after any number of pushes gives the descriptors that were
  queued before, then the pushed ones in order.\<close>

theorem fd_queue_in_order:
  assumes "fd_queue_inv q"
    and "all_fresh horizon_fd_queue_push (\<lambda>p q. fresh_node p (fq_nodes q)) pms q"
  shows "fst (take_n horizon_fd_queue_pop n (add_all horizon_fd_queue_push pms q)) =
     take n (map snd (fq_nodes q) @ map snd pms)"
  using assms by (rule fd_queue.fifo_order)

theorem fd_queue_in_order_witness:
  "fst (take_n horizon_fd_queue_pop 2
     (add_all horizon_fd_queue_push
        [(10, \<lparr>fm_fd = 3, fm_handle = 4\<rparr>), (20, \<lparr>fm_fd = 5, fm_handle = 8\<rparr>)]
        \<lparr>fq_nodes = [], fq_tail = None\<rparr>)) =
   [\<lparr>fm_fd = 3, fm_handle = 4\<rparr>, \<lparr>fm_fd = 5, fm_handle = 8\<rparr>]"
proof -
  have i: "fd_queue_inv \<lparr>fq_nodes = [], fq_tail = None\<rparr>" by (simp add: fd_queue_inv_def)
  have f: "all_fresh horizon_fd_queue_push (\<lambda>p q. fresh_node p (fq_nodes q))
     [(10, \<lparr>fm_fd = 3, fm_handle = 4\<rparr>), (20, \<lparr>fm_fd = 5, fm_handle = 8\<rparr>)] \<lparr>fq_nodes = [], fq_tail = None\<rparr>"
    by (simp add: fresh_node_def horizon_fd_queue_push_def)
  show ?thesis using fd_queue_in_order [OF i f, of 2] by simp
qed

end
