(* ===== verification/HzMessages.thy ===== *)
theory HzMessages
  imports HzPrelude
begin

text \<open>
  Posted messages and window timers of the in-process server
  (\<open>dlls/ntdll/unix/horizon_message_queue.h\<close>, \<open>dlls/ntdll/unix/horizon_win_timers.h\<close>).

  The posted messages of all threads are one list with a pointer to the link the next message
  is stored in, which removing the last message has to move back. The timers are a list with
  the newest first and a counter the ids of windowless timers are taken from, downwards.
\<close>

section \<open>Posted messages\<close>

abbreviation (input) HORIZON_MESSAGE_QUEUE_THREAD_ONLY :: u32 where
  "HORIZON_MESSAGE_QUEUE_THREAD_ONLY \<equiv> 0xffffffff"

record horizon_posted_message =
  pm_tid :: u32
  pm_win :: u32
  pm_msg :: u32
  pm_wparam :: u64
  pm_lparam :: u64
  pm_x :: int
  pm_y :: int
  pm_time :: u32

text \<open>A link is \<open>&queue->head\<close> or \<open>&node->next\<close>.\<close>

datatype link = Head_link | Next_link ptr

record horizon_message_queue =
  mq_nodes :: "horizon_posted_message nodes"
  mq_tail :: link

definition horizon_message_queue_init :: horizon_message_queue where
  "horizon_message_queue_init = \<lparr>mq_nodes = [], mq_tail = Head_link\<rparr>"

text \<open>\<open>*link = node\<close>, for a node whose \<open>next\<close> is \<open>NULL\<close>.\<close>

definition store_link :: "link \<Rightarrow> ptr \<times> 'a \<Rightarrow> 'a nodes \<Rightarrow> 'a nodes" where
  "store_link l node nodes =
     (case l of Head_link \<Rightarrow> [node] | Next_link t \<Rightarrow> append_after t node nodes)"

text \<open>The link that points to node \<open>i\<close>.\<close>

definition link_at :: "'a nodes \<Rightarrow> nat \<Rightarrow> link" where
  "link_at nodes i = (if i = 0 then Head_link else Next_link (fst (nodes ! (i - 1))))"

definition horizon_message_queue_post ::
    "ptr option \<Rightarrow> horizon_message_queue \<Rightarrow> horizon_posted_message \<Rightarrow> int \<times> horizon_message_queue" where
  "horizon_message_queue_post alloc queue message =
     (case alloc of
        None \<Rightarrow> (-1, queue)
      | Some copy \<Rightarrow>
          (0, queue\<lparr>mq_nodes := store_link (mq_tail queue) (copy, message) (mq_nodes queue),
                    mq_tail := Next_link copy\<rparr>))"

definition horizon_message_queue_matches ::
    "(u32 \<Rightarrow> u32 \<Rightarrow> bool) \<Rightarrow> horizon_posted_message \<Rightarrow> u32 \<Rightarrow> u32 \<Rightarrow> u32 \<Rightarrow> bool" where
  "horizon_message_queue_matches is_descendant message get_win lo hi =
     (if (lo \<noteq> 0 \<or> hi \<noteq> 0) \<and> (pm_msg message < lo \<or> pm_msg message > hi) then False
      else if get_win = 0 then True
      else if get_win = HORIZON_MESSAGE_QUEUE_THREAD_ONLY \<or> get_win = 1 then pm_win message = 0
      else if pm_win message = 0 then False
      else pm_win message = get_win \<or> is_descendant (pm_win message) get_win)"

definition posted_wanted ::
    "(u32 \<Rightarrow> u32 \<Rightarrow> bool) \<Rightarrow> u32 \<Rightarrow> u32 \<Rightarrow> u32 \<Rightarrow> u32 \<Rightarrow> horizon_posted_message \<Rightarrow> bool" where
  "posted_wanted is_descendant tid get_win lo hi m \<longleftrightarrow>
     pm_tid m = tid \<and> horizon_message_queue_matches is_descendant m get_win lo hi"

text \<open>The link found is named by the position of the node it points to.\<close>

definition horizon_message_queue_find ::
    "(u32 \<Rightarrow> u32 \<Rightarrow> bool) \<Rightarrow> horizon_message_queue \<Rightarrow> u32 \<Rightarrow> u32 \<Rightarrow> u32 \<Rightarrow> u32 \<Rightarrow> nat option" where
  "horizon_message_queue_find is_descendant queue tid get_win lo hi =
     index_of (\<lambda>(p, m). posted_wanted is_descendant tid get_win lo hi m) (mq_nodes queue)"

definition horizon_message_queue_remove :: "horizon_message_queue \<Rightarrow> nat \<Rightarrow> horizon_message_queue" where
  "horizon_message_queue_remove queue i =
     queue\<lparr>mq_nodes := remove_at i (mq_nodes queue),
           mq_tail := (if mq_tail queue = Next_link (fst (mq_nodes queue ! i))
                       then link_at (mq_nodes queue) i else mq_tail queue)\<rparr>"

definition posted_dropped :: "u32 \<Rightarrow> u32 \<Rightarrow> horizon_posted_message \<Rightarrow> bool" where
  "posted_dropped tid win m = (if win \<noteq> 0 then pm_win m = win else pm_tid m = tid)"

function message_queue_drop_from :: "nat \<Rightarrow> horizon_message_queue \<Rightarrow> u32 \<Rightarrow> u32 \<Rightarrow> horizon_message_queue" where
  "message_queue_drop_from i queue tid win =
     (if i < length (mq_nodes queue)
      then (if posted_dropped tid win (snd (mq_nodes queue ! i))
            then message_queue_drop_from i (horizon_message_queue_remove queue i) tid win
            else message_queue_drop_from (Suc i) queue tid win)
      else queue)"
  by pat_completeness auto
termination
  by (relation "measure (\<lambda>(i, queue, tid, win). length (mq_nodes queue) - i)")
    (auto simp: horizon_message_queue_remove_def length_remove_at)

declare message_queue_drop_from.simps [simp del]

definition horizon_message_queue_drop :: "horizon_message_queue \<Rightarrow> u32 \<Rightarrow> u32 \<Rightarrow> horizon_message_queue" where
  "horizon_message_queue_drop queue tid win = message_queue_drop_from 0 queue tid win"

text \<open>The requests on the queue, and what they promise: a list in the order of posting, from which
  a thread takes the oldest message its filter admits.\<close>

datatype posted_op = P_post ptr horizon_posted_message | P_take u32 u32 u32 u32 | P_drop u32 u32

fun posted_step :: "(u32 \<Rightarrow> u32 \<Rightarrow> bool) \<Rightarrow> horizon_message_queue \<Rightarrow> posted_op \<Rightarrow> horizon_message_queue" where
  "posted_step d q (P_post p m) = snd (horizon_message_queue_post (Some p) q m)"
| "posted_step d q (P_take tid win lo hi) =
     (case horizon_message_queue_find d q tid win lo hi of
        None \<Rightarrow> q | Some i \<Rightarrow> horizon_message_queue_remove q i)"
| "posted_step d q (P_drop tid win) = horizon_message_queue_drop q tid win"

fun remove_first :: "('a \<Rightarrow> bool) \<Rightarrow> 'a list \<Rightarrow> 'a list" where
  "remove_first P [] = []"
| "remove_first P (x # xs) = (if P x then xs else x # remove_first P xs)"

fun posted_spec :: "(u32 \<Rightarrow> u32 \<Rightarrow> bool) \<Rightarrow> horizon_posted_message list \<Rightarrow> posted_op \<Rightarrow> horizon_posted_message list" where
  "posted_spec d ms (P_post p m) = ms @ [m]"
| "posted_spec d ms (P_take tid win lo hi) = remove_first (posted_wanted d tid win lo hi) ms"
| "posted_spec d ms (P_drop tid win) = filter (\<lambda>m. \<not> posted_dropped tid win m) ms"

definition posted_inv :: "horizon_message_queue \<Rightarrow> bool" where
  "posted_inv q \<longleftrightarrow> distinct (map fst (mq_nodes q)) \<and>
     mq_tail q = link_at (mq_nodes q) (length (mq_nodes q))"

definition posted_ok :: "horizon_message_queue \<Rightarrow> posted_op \<Rightarrow> bool" where
  "posted_ok q p \<longleftrightarrow> (case p of P_post a m \<Rightarrow> fresh_node a (mq_nodes q) | _ \<Rightarrow> True)"

section \<open>Window timers\<close>

abbreviation (input) HORIZON_WIN_TIMERS_NO_MEMORY :: int where "HORIZON_WIN_TIMERS_NO_MEMORY \<equiv> -1"
abbreviation (input) HORIZON_WIN_TIMERS_NO_IDS :: int where "HORIZON_WIN_TIMERS_NO_IDS \<equiv> -2"
abbreviation (input) HORIZON_WIN_TIMERS_NOT_FOUND :: int where "HORIZON_WIN_TIMERS_NOT_FOUND \<equiv> -3"

record horizon_win_timer =
  wt_tid :: u32
  wt_win :: u32
  wt_msg :: u32
  wt_rate :: u32
  wt_id :: u64
  wt_lparam :: u64
  wt_when :: u64

record horizon_win_timers =
  ts_head :: "horizon_win_timer list"
  ts_next_id :: u64

definition timer_key :: "horizon_win_timer \<Rightarrow> u32 \<times> u32 \<times> u32 \<times> u64" where
  "timer_key t = (wt_tid t, wt_win t, wt_msg t, wt_id t)"

definition horizon_win_timers_find ::
    "horizon_win_timers \<Rightarrow> u32 \<Rightarrow> u32 \<Rightarrow> u32 \<Rightarrow> u64 \<Rightarrow> nat option" where
  "horizon_win_timers_find timers tid win msg ident =
     index_of (\<lambda>t. wt_tid t = tid \<and> wt_win t = win \<and> wt_msg t = msg \<and> wt_id t = ident) (ts_head timers)"

definition horizon_win_timers_remove :: "horizon_win_timers \<Rightarrow> nat \<Rightarrow> horizon_win_timers" where
  "horizon_win_timers_remove timers i = timers\<lparr>ts_head := remove_at i (ts_head timers)\<rparr>"

text \<open>\<open>if (--timers->next_id <= 0x100) timers->next_id = 0x7fff;\<close>\<close>

definition next_timer_id :: "u64 \<Rightarrow> u64" where
  "next_timer_id i = (if i - 1 \<le> 0x100 then 0x7fff else i - 1)"

text \<open>
  The search for a free id. It stops when the counter is back at the id it started from, after
  each of the \<open>0x7fff - 0x100 = 32511\<close> ids has been tried, which is the fuel the caller gives.
  \<open>None\<close> is out of fuel; \<open>Some (None, n)\<close> is no free id; \<open>Some (Some i, n)\<close> is the free id \<open>i\<close>.
\<close>

fun win_timers_free_id ::
    "nat \<Rightarrow> horizon_win_timers \<Rightarrow> u32 \<Rightarrow> u32 \<Rightarrow> u64 \<Rightarrow> u64 \<Rightarrow> (u64 option \<times> u64) option" where
  "win_timers_free_id 0 timers tid msg end_id next_id = None"
| "win_timers_free_id (Suc fuel) timers tid msg end_id next_id =
     (let ident = next_id; next_id' = next_timer_id next_id
      in if horizon_win_timers_find timers tid 0 msg ident = None then Some (Some ident, next_id')
         else if next_id' = end_id then Some (None, next_id')
         else win_timers_free_id fuel timers tid msg end_id next_id')"

definition WIN_TIMER_IDS :: nat where
  "WIN_TIMER_IDS = 0x7fff - 0x100"

text \<open>The first part of \<open>horizon_win_timers_set\<close>: an existing timer is removed, and the id to use
  is the caller's, or 0 when one has to be found.\<close>

definition win_timers_replace ::
    "horizon_win_timers \<Rightarrow> u32 \<Rightarrow> u32 \<Rightarrow> u32 \<Rightarrow> u64 \<Rightarrow> horizon_win_timers \<times> u64" where
  "win_timers_replace timers0 tid win msg id0 =
     (let timers1 = (if ts_next_id timers0 = 0 then timers0\<lparr>ts_next_id := 0x7fff\<rparr> else timers0)
      in if win \<noteq> 0 \<or> id0 \<noteq> 0 then
           (case horizon_win_timers_find timers1 tid win msg id0 of
              Some i \<Rightarrow> (horizon_win_timers_remove timers1 i, id0)
            | None \<Rightarrow> (timers1, if win = 0 then 0 else id0))
         else (timers1, id0))"

text \<open>The second part: the id.\<close>

definition win_timers_choose_id ::
    "horizon_win_timers \<Rightarrow> u32 \<Rightarrow> u32 \<Rightarrow> u32 \<Rightarrow> u64 \<Rightarrow> (u64 option \<times> u64) option" where
  "win_timers_choose_id timers tid win msg id1 =
     (if win = 0 \<and> id1 = 0
      then win_timers_free_id WIN_TIMER_IDS timers tid msg (ts_next_id timers) (ts_next_id timers)
      else Some (Some id1, ts_next_id timers))"

definition horizon_win_timers_set ::
    "bool \<Rightarrow> horizon_win_timers \<Rightarrow> u32 \<Rightarrow> u32 \<Rightarrow> u32 \<Rightarrow> u64 \<Rightarrow> u32 \<Rightarrow> u64 \<Rightarrow> u64 \<Rightarrow>
     (int \<times> u64 \<times> horizon_win_timers) option" where
  "horizon_win_timers_set alloc timers0 tid win msg id0 rate lparam now =
     (let (timers2, id1) = win_timers_replace timers0 tid win msg id0
      in case win_timers_choose_id timers2 tid win msg id1 of
           None \<Rightarrow> None
         | Some (None, n) \<Rightarrow> Some (HORIZON_WIN_TIMERS_NO_IDS, 0, timers2\<lparr>ts_next_id := n\<rparr>)
         | Some (Some ident, n) \<Rightarrow>
             (let timers3 = timers2\<lparr>ts_next_id := n\<rparr>
              in if \<not> alloc then Some (HORIZON_WIN_TIMERS_NO_MEMORY, 0, timers3)
                 else (let r = (if rate \<noteq> 0 then rate else 1);
                           timer = \<lparr>wt_tid = tid, wt_win = win, wt_msg = msg, wt_rate = r, wt_id = ident,
                                    wt_lparam = lparam, wt_when = now + ucast r\<rparr>
                       in Some (0, ident, timers3\<lparr>ts_head := timer # ts_head timers3\<rparr>))))"

definition horizon_win_timers_kill ::
    "horizon_win_timers \<Rightarrow> u32 \<Rightarrow> u32 \<Rightarrow> u32 \<Rightarrow> u64 \<Rightarrow> int \<times> horizon_win_timers" where
  "horizon_win_timers_kill timers tid win msg ident =
     (case horizon_win_timers_find timers tid win msg ident of
        None \<Rightarrow> (HORIZON_WIN_TIMERS_NOT_FOUND, timers)
      | Some i \<Rightarrow> (0, horizon_win_timers_remove timers i))"

definition timer_due :: "u32 \<Rightarrow> u32 \<Rightarrow> u32 \<Rightarrow> u32 \<Rightarrow> u64 \<Rightarrow> horizon_win_timer \<Rightarrow> bool" where
  "timer_due tid get_win lo hi now t \<longleftrightarrow>
     \<not> (wt_tid t \<noteq> tid \<or> wt_when t > now) \<and>
     \<not> (get_win \<noteq> 0 \<and> wt_win t \<noteq> get_win) \<and>
     \<not> ((lo \<noteq> 0 \<or> hi \<noteq> 0) \<and> (wt_msg t < lo \<or> wt_msg t > hi))"

text \<open>The walk keeps the position of the earliest timer that passes so far.\<close>

fun timers_earliest ::
    "(horizon_win_timer \<Rightarrow> bool) \<Rightarrow> nat \<Rightarrow> (nat \<times> horizon_win_timer) option \<Rightarrow> horizon_win_timer list \<Rightarrow>
     (nat \<times> horizon_win_timer) option" where
  "timers_earliest P i found [] = found"
| "timers_earliest P i found (t # ts) =
     timers_earliest P (Suc i)
       (if P t then (case found of None \<Rightarrow> Some (i, t)
                     | Some (j, f) \<Rightarrow> if wt_when t < wt_when f then Some (i, t) else found)
        else found) ts"

text \<open>\<open>while (found->when <= now) found->when += found->rate;\<close>\<close>

partial_function (option) timer_advance :: "u64 \<Rightarrow> u32 \<Rightarrow> u64 \<Rightarrow> u64 option" where
  "timer_advance now rate when =
     (if when \<le> now then timer_advance now rate (when + ucast rate) else Some when)"

definition horizon_win_timers_expired ::
    "horizon_win_timers \<Rightarrow> u32 \<Rightarrow> u32 \<Rightarrow> u32 \<Rightarrow> u32 \<Rightarrow> u64 \<Rightarrow> bool \<Rightarrow>
     (horizon_win_timer option \<times> horizon_win_timers) option" where
  "horizon_win_timers_expired timers tid get_win lo hi now remove =
     (case timers_earliest (timer_due tid get_win lo hi now) 0 None (ts_head timers) of
        None \<Rightarrow> Some (None, timers)
      | Some (i, found) \<Rightarrow>
          if remove
          then (case timer_advance now (wt_rate found) (wt_when found) of
                  None \<Rightarrow> None
                | Some w \<Rightarrow>
                    (let found' = found\<lparr>wt_when := w\<rparr>
                     in Some (Some found', timers\<lparr>ts_head := (ts_head timers)[i := found']\<rparr>)))
          else Some (Some found, timers))"

definition horizon_win_timers_drop :: "horizon_win_timers \<Rightarrow> u32 \<Rightarrow> u32 \<Rightarrow> horizon_win_timers" where
  "horizon_win_timers_drop timers tid win =
     timers\<lparr>ts_head := filter (\<lambda>t. \<not> (if win \<noteq> 0 then wt_win t = win else wt_tid t = tid)) (ts_head timers)\<rparr>"

definition timers_inv :: "horizon_win_timers \<Rightarrow> bool" where
  "timers_inv timers \<longleftrightarrow>
     distinct (map timer_key (ts_head timers)) \<and>
     (\<forall>t\<in>set (ts_head timers). wt_rate t \<noteq> 0) \<and>
     (ts_next_id timers = 0 \<or> 0x100 < ts_next_id timers \<and> ts_next_id timers \<le> 0x7fff)"

datatype timers_op =
    WT_set bool u32 u32 u32 u64 u32 u64 u64
  | WT_kill u32 u32 u32 u64
  | WT_expired u32 u32 u32 u32 u64 bool
  | WT_drop u32 u32

text \<open>A request that did not return leaves the timers as they were; the lemmas below show when
  every request returns.\<close>

fun timers_step :: "horizon_win_timers \<Rightarrow> timers_op \<Rightarrow> horizon_win_timers" where
  "timers_step ts (WT_set alloc tid win msg ident rate lparam now) =
     (case horizon_win_timers_set alloc ts tid win msg ident rate lparam now of
        None \<Rightarrow> ts | Some (code, i, ts') \<Rightarrow> ts')"
| "timers_step ts (WT_kill tid win msg ident) = snd (horizon_win_timers_kill ts tid win msg ident)"
| "timers_step ts (WT_expired tid get_win lo hi now remove) =
     (case horizon_win_timers_expired ts tid get_win lo hi now remove of
        None \<Rightarrow> ts | Some (t, ts') \<Rightarrow> ts')"
| "timers_step ts (WT_drop tid win) = horizon_win_timers_drop ts tid win"

definition timers_init :: horizon_win_timers where
  "timers_init = \<lparr>ts_head = [], ts_next_id = 0\<rparr>"

definition timers_ok :: "horizon_win_timers \<Rightarrow> timers_op \<Rightarrow> bool" where
  "timers_ok ts p \<longleftrightarrow> (case p of WT_expired tid w lo hi now r \<Rightarrow> unat now + 2 ^ 32 \<le> 2 ^ 64 | _ \<Rightarrow> True)"

section \<open>What holds of posted messages\<close>

lemma link_at_last: "nodes \<noteq> [] \<Longrightarrow> link_at nodes (length nodes) = Next_link (fst (last nodes))"
  by (simp add: link_at_def last_conv_nth)

lemma store_link_last:
  assumes "distinct (map fst nodes)" "l = link_at nodes (length nodes)"
  shows "store_link l node nodes = nodes @ [node]"
proof (cases "nodes = []")
  case True
  with assms show ?thesis by (simp add: store_link_def link_at_def)
next
  case False
  then have "last_addr nodes = Some (fst (last nodes))" by (simp add: last_addr_def)
  with assms False show ?thesis by (simp add: store_link_def link_at_last append_after_last)
qed

lemma posted_post:
  assumes "posted_inv q" "fresh_node p (mq_nodes q)"
  shows "posted_inv (snd (horizon_message_queue_post (Some p) q m))"
    and "mq_nodes (snd (horizon_message_queue_post (Some p) q m)) = mq_nodes q @ [(p, m)]"
proof -
  show n: "mq_nodes (snd (horizon_message_queue_post (Some p) q m)) = mq_nodes q @ [(p, m)]"
    using assms(1) by (simp add: horizon_message_queue_post_def posted_inv_def store_link_last)
  show "posted_inv (snd (horizon_message_queue_post (Some p) q m))"
    using assms n unfolding posted_inv_def
    by (auto simp: fresh_node_def link_at_def horizon_message_queue_post_def)
qed

text \<open>The last node is removed exactly when the tail points into it.\<close>

lemma posted_remove_inv:
  assumes inv: "posted_inv q" and i: "i < length (mq_nodes q)"
  shows "posted_inv (horizon_message_queue_remove q i)"
proof -
  let ?n = "mq_nodes q"
  have d: "distinct (map fst ?n)" using inv by (simp add: posted_inv_def)
  have ne: "?n \<noteq> []" using i by auto
  have tail: "mq_tail q = Next_link (fst (last ?n))"
    using inv link_at_last [of ?n] ne by (simp add: posted_inv_def)
  have last: "last ?n = ?n ! (length ?n - 1)" using i by (intro last_conv_nth) auto
  have dr: "distinct (map fst (remove_at i ?n))" using d by (simp add: map_remove_at distinct_remove_at)
  have hit: "fst (last ?n) = fst (?n ! i) \<longleftrightarrow> i = length ?n - 1"
    using nth_eq_iff_index_eq [OF d, of i "length ?n - 1"] i last by auto
  have "(if mq_tail q = Next_link (fst (?n ! i)) then link_at ?n i else mq_tail q) =
      link_at (remove_at i ?n) (length (remove_at i ?n))"
  proof (cases "i = length ?n - 1")
    case True
    then have r: "remove_at i ?n = take i ?n" using i by (simp add: remove_at_def)
    from True hit tail have "mq_tail q = Next_link (fst (?n ! i))" by simp
    then show ?thesis using r i by (simp add: link_at_def)
  next
    case False
    then have "drop (Suc i) ?n \<noteq> []" using i by simp
    then have l: "last (remove_at i ?n) = last ?n" and ne: "remove_at i ?n \<noteq> []"
      by (auto simp: remove_at_def)
    from False hit tail have "mq_tail q \<noteq> Next_link (fst (?n ! i))" by simp
    then show ?thesis using tail l by (simp add: link_at_last [OF ne])
  qed
  then show ?thesis using dr by (simp add: posted_inv_def horizon_message_queue_remove_def)
qed

lemma posted_remove_nodes:
  "mq_nodes (horizon_message_queue_remove q i) = remove_at i (mq_nodes q)"
  by (simp add: horizon_message_queue_remove_def)

lemma message_queue_drop_from_spec:
  "posted_inv q \<Longrightarrow> posted_inv (message_queue_drop_from i q tid win) \<and>
   mq_nodes (message_queue_drop_from i q tid win) =
     take i (mq_nodes q) @ filter (\<lambda>n. \<not> posted_dropped tid win (snd n)) (drop i (mq_nodes q))"
proof (induction i q tid win rule: message_queue_drop_from.induct)
  case (1 i q tid win)
  note eq = message_queue_drop_from.simps [of i q tid win]
  show ?case
  proof (cases "i < length (mq_nodes q)")
    case False
    with "1.prems" show ?thesis by (simp add: eq)
  next
    case True
    then have split: "drop i (mq_nodes q) = mq_nodes q ! i # drop (Suc i) (mq_nodes q)"
      by (rule Cons_nth_drop_Suc [symmetric])
    show ?thesis
    proof (cases "posted_dropped tid win (snd (mq_nodes q ! i))")
      case d: True
      have "posted_inv (horizon_message_queue_remove q i)"
        using "1.prems" True by (rule posted_remove_inv)
      from "1.IH"(1) [OF True d this] show ?thesis
        using True d split by (simp add: eq posted_remove_nodes remove_at_def)
    next
      case d: False
      from "1.IH"(2) [OF True d "1.prems"] show ?thesis
        using True d split by (simp add: eq take_Suc_conv_app_nth)
    qed
  qed
qed

lemma remove_first_index:
  "remove_first P xs = (case index_of P xs of None \<Rightarrow> xs | Some i \<Rightarrow> remove_at i xs)"
  by (induction xs) (auto simp: remove_at_def split: option.splits)

lemma index_of_map: "index_of (\<lambda>x. P (f x)) xs = index_of P (map f xs)"
  by (induction xs) auto

lemma posted_find_messages:
  "horizon_message_queue_find d q tid win lo hi =
     index_of (posted_wanted d tid win lo hi) (map snd (mq_nodes q))"
  by (simp add: horizon_message_queue_find_def index_of_map [symmetric] case_prod_beta')

lemma posted_step_inv [inv_intros]: "posted_inv q \<Longrightarrow> posted_ok q p \<Longrightarrow> posted_inv (posted_step d q p)"
proof (cases p)
  case (P_post a m)
  then show "posted_inv q \<Longrightarrow> posted_ok q p \<Longrightarrow> ?thesis"
    using posted_post(1) by (simp add: posted_ok_def)
next
  case (P_take tid win lo hi)
  assume "posted_inv q"
  with P_take show ?thesis
    by (auto simp: horizon_message_queue_find_def split: option.splits
        intro: posted_remove_inv index_of_bound)
next
  case (P_drop tid win)
  assume "posted_inv q"
  with P_drop show ?thesis
    by (simp add: horizon_message_queue_drop_def message_queue_drop_from_spec)
qed

lemma posted_step_spec:
  assumes "posted_inv q" "posted_ok q p"
  shows "map snd (mq_nodes (posted_step d q p)) = posted_spec d (map snd (mq_nodes q)) p"
proof (cases p)
  case (P_post a m)
  with assms posted_post(2) [of q a m] show ?thesis by (simp add: posted_ok_def)
next
  case (P_take tid win lo hi)
  then show ?thesis
    by (simp add: posted_find_messages remove_first_index posted_remove_nodes map_remove_at
        split: option.splits)
next
  case (P_drop tid win)
  with assms show ?thesis
    by (simp add: horizon_message_queue_drop_def message_queue_drop_from_spec filter_map o_def)
qed

interpretation posted: refinement_machine "posted_step d" posted_ok posted_inv "map snd \<circ> mq_nodes"
    "posted_spec d" for d
  by unfold_locales (auto intro: posted_step_inv simp: posted_step_spec)

lemma posted_init_inv: "posted_inv horizon_message_queue_init"
  by (simp add: posted_inv_def horizon_message_queue_init_def link_at_def)


section \<open>What holds of window timers\<close>

text \<open>The ids of windowless timers, as numbers, and how far the counter has to run.\<close>

definition timer_id_range :: "u64 \<Rightarrow> bool" where
  "timer_id_range i \<longleftrightarrow> 0x100 < unat i \<and> unat i \<le> 0x7fff"

definition id_steps :: "u64 \<Rightarrow> u64 \<Rightarrow> nat" where
  "id_steps n x = (if unat x \<le> unat n then unat n - unat x else unat n + WIN_TIMER_IDS - unat x)"

definition id_round :: "u64 \<Rightarrow> u64 \<Rightarrow> nat" where
  "id_round n e = (if unat e < unat n then unat n - unat e else unat n + WIN_TIMER_IDS - unat e)"

lemma timer_id_range_word: "timer_id_range i \<longleftrightarrow> 0x100 < i \<and> i \<le> 0x7fff"
  by (simp add: timer_id_range_def word_less_nat_alt word_le_nat_alt)

lemma unat_next_timer_id:
  "timer_id_range n \<Longrightarrow> unat (next_timer_id n) = (if unat n = 0x101 then 0x7fff else unat n - 1)"
proof -
  assume r: "timer_id_range n"
  then have "n \<noteq> 0" by (auto simp: timer_id_range_def)
  then have "unat (n - 1) = unat n - 1" by (rule unat_minus_one)
  with r show ?thesis by (auto simp: next_timer_id_def timer_id_range_def word_le_nat_alt)
qed

lemma next_timer_id_range: "timer_id_range n \<Longrightarrow> timer_id_range (next_timer_id n)"
  using unat_next_timer_id [of n] by (auto simp: timer_id_range_def)

lemma id_round_next:
  assumes "timer_id_range n" "timer_id_range e" "next_timer_id n \<noteq> e"
  shows "id_round n e = Suc (id_round (next_timer_id n) e)"
proof -
  have "unat (next_timer_id n) \<noteq> unat e" using assms(3) by (simp add: word_unat_eq_iff)
  with assms(1,2) show ?thesis
    unfolding id_round_def unat_next_timer_id [OF assms(1)] timer_id_range_def WIN_TIMER_IDS_def
    by (auto split: if_splits)
qed

lemma id_steps_next:
  assumes "timer_id_range n" "timer_id_range x" "x \<noteq> n"
  shows "id_steps n x = Suc (id_steps (next_timer_id n) x)"
proof -
  have "unat x \<noteq> unat n" using assms(3) by (simp add: word_unat_eq_iff)
  with assms(1,2) show ?thesis
    unfolding id_steps_def unat_next_timer_id [OF assms(1)] timer_id_range_def WIN_TIMER_IDS_def
    by (auto split: if_splits)
qed

lemma id_round_last:
  assumes "timer_id_range n" "next_timer_id n = e"
  shows "id_round n e = 1"
  using assms unat_next_timer_id [OF assms(1)]
  by (auto simp: id_round_def timer_id_range_def WIN_TIMER_IDS_def)

lemma free_id_total:
  "timer_id_range n \<Longrightarrow> timer_id_range e \<Longrightarrow> id_round n e \<le> fuel \<Longrightarrow>
   \<exists>r. win_timers_free_id fuel timers tid msg e n = Some r"
proof (induction fuel arbitrary: n)
  case 0
  then show ?case
    by (auto simp: id_round_def timer_id_range_def WIN_TIMER_IDS_def split: if_splits)
next
  case (Suc fuel)
  show ?case
  proof (cases "next_timer_id n = e")
    case True
    then show ?thesis by (simp add: Let_def)
  next
    case False
    then have "id_round (next_timer_id n) e \<le> fuel" using Suc.prems id_round_next by fastforce
    with Suc next_timer_id_range show ?thesis by (auto simp: Let_def)
  qed
qed

lemma free_id_found:
  "timer_id_range n \<Longrightarrow> win_timers_free_id fuel timers tid msg e n = Some (Some i, m) \<Longrightarrow>
   timer_id_range i \<and> timer_id_range m \<and> horizon_win_timers_find timers tid 0 msg i = None"
proof (induction fuel arbitrary: n)
  case 0
  then show ?case by simp
next
  case (Suc fuel)
  note r = next_timer_id_range [OF Suc.prems(1)]
  show ?case
  proof (cases "horizon_win_timers_find timers tid 0 msg n = None")
    case True
    with Suc.prems r show ?thesis by (auto simp: Let_def)
  next
    case False
    with Suc.prems(2) have "win_timers_free_id fuel timers tid msg e (next_timer_id n) = Some (Some i, m)"
      by (auto simp: Let_def split: if_splits)
    with r show ?thesis by (rule Suc.IH)
  qed
qed

lemma free_id_none:
  "timer_id_range n \<Longrightarrow> timer_id_range e \<Longrightarrow>
   win_timers_free_id fuel timers tid msg e n = Some (None, m) \<Longrightarrow>
   m = e \<and> (\<forall>x. timer_id_range x \<and> id_steps n x < id_round n e \<longrightarrow>
     horizon_win_timers_find timers tid 0 msg x \<noteq> None)"
proof (induction fuel arbitrary: n)
  case 0
  then show ?case by simp
next
  case (Suc fuel)
  have used: "horizon_win_timers_find timers tid 0 msg n \<noteq> None"
    using Suc.prems(3) by (auto simp: Let_def split: if_splits)
  show ?case
  proof (cases "next_timer_id n = e")
    case True
    then have "id_round n e = 1" using Suc.prems(1) by (simp add: id_round_last)
    moreover have "x = n" if "timer_id_range x" "id_steps n x < 1" for x
      using id_steps_next [OF Suc.prems(1) that(1)] that(2) by fastforce
    ultimately show ?thesis using Suc.prems(3) used True by (auto simp: Let_def split: if_splits)
  next
    case False
    then have rec: "win_timers_free_id fuel timers tid msg e (next_timer_id n) = Some (None, m)"
      using Suc.prems(3) used by (auto simp: Let_def)
    note ih = Suc.IH [OF next_timer_id_range [OF Suc.prems(1)] Suc.prems(2) rec]
    have "horizon_win_timers_find timers tid 0 msg x \<noteq> None"
      if x: "timer_id_range x" "id_steps n x < id_round n e" for x
    proof (cases "x = n")
      case True
      with used show ?thesis by simp
    next
      case False
      with x \<open>next_timer_id n \<noteq> e\<close> have "id_steps (next_timer_id n) x < id_round (next_timer_id n) e"
        using id_steps_next id_round_next Suc.prems(1,2) by fastforce
      with ih x(1) show ?thesis by blast
    qed
    with ih show ?thesis by blast
  qed
qed

lemma id_full_round: "timer_id_range n \<Longrightarrow> id_round n n = WIN_TIMER_IDS"
  by (simp add: id_round_def)

lemma id_steps_bound: "timer_id_range n \<Longrightarrow> timer_id_range x \<Longrightarrow> id_steps n x < WIN_TIMER_IDS"
  by (auto simp: id_steps_def timer_id_range_def WIN_TIMER_IDS_def)

text \<open>Rescheduling a timer moves it past now by whole periods, and by no more than it has to.\<close>

lemma timer_advance_spec:
  assumes r: "rate \<noteq> 0" and room: "unat now + unat rate < 2 ^ 64"
  shows "\<exists>w. timer_advance now rate t = Some w \<and> now < w \<and> t \<le> w \<and>
           unat rate dvd unat w - unat t \<and> (t \<le> now \<longrightarrow> unat w \<le> unat now + unat rate)"
proof (induction "Suc (unat now) - unat t" arbitrary: t rule: less_induct)
  case less
  have r0: "0 < unat rate" using r by (simp add: unat_gt_0)
  show ?case
  proof (cases "t \<le> now")
    case False
    then show ?thesis by (subst timer_advance.simps) auto
  next
    case True
    then have le: "unat t \<le> unat now" by (simp add: word_le_nat_alt)
    then have sum: "unat (t + ucast rate :: u64) = unat t + unat rate"
      using room by (simp add: unat_word_ariths)
    then have "Suc (unat now) - unat (t + ucast rate) < Suc (unat now) - unat t" using r0 le by simp
    from less [OF this] obtain w where w: "timer_advance now rate (t + ucast rate) = Some w" "now < w"
        "t + ucast rate \<le> w" "unat rate dvd unat w - unat (t + ucast rate)"
        "t + ucast rate \<le> now \<longrightarrow> unat w \<le> unat now + unat rate" by blast
    have tw: "unat t + unat rate \<le> unat w" using w(3) sum by (simp add: word_le_nat_alt)
    then have "unat w - unat t = (unat w - unat (t + ucast rate)) + unat rate" using sum by simp
    then have dv: "unat rate dvd unat w - unat t" using w(4) by simp
    have "unat w \<le> unat now + unat rate"
    proof (cases "t + ucast rate \<le> now")
      case False
      then have "timer_advance now rate (t + ucast rate) = Some (t + ucast rate)"
        by (simp add: timer_advance.simps)
      with w(1) sum le show ?thesis by simp
    qed (use w(5) in blast)
    with w tw dv True show ?thesis
      by (subst timer_advance.simps) (auto simp: word_le_nat_alt)
  qed
qed

text \<open>The walk finds the timer that fell due first.\<close>

lemma timers_earliest_spec:
  "case timers_earliest P i found ts of
     None \<Rightarrow> found = None \<and> (\<forall>t\<in>set ts. \<not> P t)
   | Some (j, f) \<Rightarrow>
       (found = Some (j, f) \<or> (\<exists>k<length ts. j = i + k \<and> f = ts ! k \<and> P f)) \<and>
       (\<forall>t\<in>set ts. P t \<longrightarrow> wt_when f \<le> wt_when t) \<and>
       (\<forall>j0 f0. found = Some (j0, f0) \<longrightarrow> wt_when f \<le> wt_when f0)"
proof (induction ts arbitrary: i found)
  case Nil
  then show ?case by (auto split: option.splits)
next
  case (Cons t ts)
  let ?found = "if P t then (case found of None \<Rightarrow> Some (i, t)
                     | Some (j, f) \<Rightarrow> if wt_when t < wt_when f then Some (i, t) else found)
        else found"
  have eq: "timers_earliest P i found (t # ts) = timers_earliest P (Suc i) ?found ts" by simp
  note ih = Cons.IH [where i = "Suc i" and found = ?found]
  show ?case
  proof (cases "timers_earliest P (Suc i) ?found ts")
    case None
    with ih have "?found = None" "\<forall>t\<in>set ts. \<not> P t" by auto
    with None eq show ?thesis by (auto split: if_splits option.splits)
  next
    case (Some r)
    obtain j f where r: "r = (j, f)" by fastforce
    from ih Some r have src: "?found = Some (j, f) \<or> (\<exists>k<length ts. j = Suc i + k \<and> f = ts ! k \<and> P f)"
      and min: "\<forall>t\<in>set ts. P t \<longrightarrow> wt_when f \<le> wt_when t"
      and acc: "\<forall>j0 f0. ?found = Some (j0, f0) \<longrightarrow> wt_when f \<le> wt_when f0" by auto
    have "found = Some (j, f) \<or> (\<exists>k<length (t # ts). j = i + k \<and> f = (t # ts) ! k \<and> P f)"
    proof (cases "?found = Some (j, f)")
      case True
      then have "found = Some (j, f) \<or> (j = i \<and> f = t \<and> P t)"
        by (auto split: if_splits option.splits)
      then show ?thesis by force
    next
      case False
      with src obtain k where "k < length ts" "j = Suc i + k" "f = ts ! k" "P f" by auto
      then show ?thesis by (intro disjI2 exI [of _ "Suc k"]) auto
    qed
    moreover have "P t \<longrightarrow> wt_when f \<le> wt_when t"
      using acc by (auto split: if_splits option.splits)
    moreover have "\<forall>j0 f0. found = Some (j0, f0) \<longrightarrow> wt_when f \<le> wt_when f0"
      using acc by (auto split: if_splits option.splits dest: order_trans less_imp_le)
    ultimately show ?thesis using Some r eq min by auto
  qed
qed

lemma timers_find_key:
  "horizon_win_timers_find timers tid win msg ident = None \<longleftrightarrow>
     (tid, win, msg, ident) \<notin> timer_key ` set (ts_head timers)"
  by (auto simp: horizon_win_timers_find_def index_of_None timer_key_def image_iff)


lemma timers_remove_inv:
  assumes "timers_inv ts" "i < length (ts_head ts)"
  shows "timers_inv (horizon_win_timers_remove ts i)"
    and "timer_key (ts_head ts ! i) \<notin> timer_key ` set (ts_head (horizon_win_timers_remove ts i))"
proof -
  have d: "distinct (map timer_key (ts_head ts))" using assms(1) by (simp add: timers_inv_def)
  then have dr: "distinct (map timer_key (remove_at i (ts_head ts)))"
    by (simp add: map_remove_at distinct_remove_at)
  then show "timers_inv (horizon_win_timers_remove ts i)"
    using assms(1) in_remove_at [of _ i "ts_head ts"]
    by (auto simp: timers_inv_def horizon_win_timers_remove_def)
  have "set (map timer_key (remove_at i (ts_head ts))) = timer_key ` set (ts_head ts) - {timer_key (ts_head ts ! i)}"
    using d assms(2) set_remove_at_distinct [of "map timer_key (ts_head ts)" i] by (simp add: map_remove_at)
  then show "timer_key (ts_head ts ! i) \<notin> timer_key ` set (ts_head (horizon_win_timers_remove ts i))"
    by (simp add: horizon_win_timers_remove_def)
qed

lemma timers_found_key:
  assumes "horizon_win_timers_find ts tid win msg ident = Some i"
  shows "i < length (ts_head ts) \<and> timer_key (ts_head ts ! i) = (tid, win, msg, ident)"
  using index_of_bound [OF assms [unfolded horizon_win_timers_find_def]]
    index_of_sat [OF assms [unfolded horizon_win_timers_find_def]]
  by (simp add: timer_key_def)

lemma win_timers_replace_spec:
  assumes inv: "timers_inv ts" and r: "win_timers_replace ts tid win msg id0 = (ts2, id1)"
  shows "timers_inv ts2 \<and> timer_id_range (ts_next_id ts2) \<and> (win \<noteq> 0 \<longrightarrow> id1 = id0) \<and>
    (win \<noteq> 0 \<or> id1 \<noteq> 0 \<longrightarrow> (tid, win, msg, id1) \<notin> timer_key ` set (ts_head ts2))"
proof -
  define ts1 where "ts1 = (if ts_next_id ts = 0 then ts\<lparr>ts_next_id := 0x7fff\<rparr> else ts)"
  have i1: "timers_inv ts1" and r1: "timer_id_range (ts_next_id ts1)"
    using inv by (auto simp: ts1_def timers_inv_def timer_id_range_word)
  show ?thesis
  proof (cases "horizon_win_timers_find ts1 tid win msg id0")
    case None
    with r have "ts2 = ts1" "id1 = (if win \<noteq> 0 \<or> id0 = 0 then id0 else 0)"
      by (auto simp: win_timers_replace_def ts1_def [symmetric] Let_def split: if_splits)
    with None i1 r1 show ?thesis by (auto simp: timers_find_key)
  next
    case (Some i)
    note f = timers_found_key [OF Some]
    show ?thesis
    proof (cases "win \<noteq> 0 \<or> id0 \<noteq> 0")
      case True
      with r Some have eq: "ts2 = horizon_win_timers_remove ts1 i" "id1 = id0"
        by (auto simp: win_timers_replace_def ts1_def [symmetric] Let_def)
      with timers_remove_inv [OF i1, of i] f r1 show ?thesis
        by (simp add: horizon_win_timers_remove_def)
    next
      case False
      with r have "ts2 = ts1" "id1 = id0"
        by (auto simp: win_timers_replace_def ts1_def [symmetric] Let_def)
      with False i1 r1 show ?thesis by simp
    qed
  qed
qed

lemma win_timers_choose_id_spec:
  assumes "timer_id_range (ts_next_id ts)"
    and "win \<noteq> 0 \<or> id1 \<noteq> 0 \<longrightarrow> (tid, win, msg, id1) \<notin> timer_key ` set (ts_head ts)"
  shows "\<exists>r n. win_timers_choose_id ts tid win msg id1 = Some (r, n) \<and> timer_id_range n \<and>
    (case r of
       Some i \<Rightarrow> (tid, win, msg, i) \<notin> timer_key ` set (ts_head ts) \<and>
                 (win \<noteq> 0 \<or> id1 \<noteq> 0 \<longrightarrow> i = id1) \<and> (win = 0 \<and> id1 = 0 \<longrightarrow> timer_id_range i)
     | None \<Rightarrow> win = 0 \<and> (\<forall>x. timer_id_range x \<longrightarrow> (tid, 0, msg, x) \<in> timer_key ` set (ts_head ts)))"
proof (cases "win = 0 \<and> id1 = 0")
  case False
  with assms show ?thesis by (auto simp: win_timers_choose_id_def)
next
  case True
  let ?n = "ts_next_id ts"
  obtain r n where search: "win_timers_free_id WIN_TIMER_IDS ts tid msg ?n ?n = Some (r, n)"
    using free_id_total [OF assms(1) assms(1), of WIN_TIMER_IDS ts tid msg] id_full_round [OF assms(1)] by auto
  show ?thesis
  proof (cases r)
    case None
    with search have s: "win_timers_free_id WIN_TIMER_IDS ts tid msg ?n ?n = Some (None, n)" by simp
    from free_id_none [OF assms(1) assms(1) s] have "n = ?n"
      and "\<forall>x. timer_id_range x \<longrightarrow> horizon_win_timers_find ts tid 0 msg x \<noteq> None"
      using id_full_round [OF assms(1)] id_steps_bound [OF assms(1)] by auto
    with s None assms(1) True show ?thesis
      by (auto simp: win_timers_choose_id_def timers_find_key)
  next
    case (Some i)
    with search free_id_found [OF assms(1)] True show ?thesis
      by (auto simp: win_timers_choose_id_def timers_find_key)
  qed
qed

lemma win_timers_set_spec:
  assumes inv: "timers_inv ts"
  shows "\<exists>code i ts'. horizon_win_timers_set alloc ts tid win msg id0 rate lparam now = Some (code, i, ts') \<and>
    timers_inv ts' \<and>
    (code = 0 \<and> alloc \<and> (win \<noteq> 0 \<longrightarrow> i = id0) \<and>
       (\<exists>t rest. ts_head ts' = t # rest \<and> timer_key t = (tid, win, msg, i) \<and>
          (tid, win, msg, i) \<notin> timer_key ` set rest) \<or>
     code = HORIZON_WIN_TIMERS_NO_MEMORY \<and> \<not> alloc \<or>
     code = HORIZON_WIN_TIMERS_NO_IDS \<and> win = 0 \<and>
       (\<forall>x. timer_id_range x \<longrightarrow> (tid, 0, msg, x) \<in> timer_key ` set (ts_head ts')))"
proof -
  obtain ts2 id1 where r: "win_timers_replace ts tid win msg id0 = (ts2, id1)" by fastforce
  from win_timers_replace_spec [OF inv r] have i2: "timers_inv ts2"
    and rng: "timer_id_range (ts_next_id ts2)" and idw: "win \<noteq> 0 \<longrightarrow> id1 = id0"
    and free: "win \<noteq> 0 \<or> id1 \<noteq> 0 \<longrightarrow> (tid, win, msg, id1) \<notin> timer_key ` set (ts_head ts2)" by auto
  from win_timers_choose_id_spec [OF rng free] obtain c n where
    c: "win_timers_choose_id ts2 tid win msg id1 = Some (c, n)" and n: "timer_id_range n" and
    cs: "case c of
       Some i \<Rightarrow> (tid, win, msg, i) \<notin> timer_key ` set (ts_head ts2) \<and>
                 (win \<noteq> 0 \<or> id1 \<noteq> 0 \<longrightarrow> i = id1) \<and> (win = 0 \<and> id1 = 0 \<longrightarrow> timer_id_range i)
     | None \<Rightarrow> win = 0 \<and> (\<forall>x. timer_id_range x \<longrightarrow> (tid, 0, msg, x) \<in> timer_key ` set (ts_head ts2))"
    by blast
  have i3: "timers_inv (ts2\<lparr>ts_next_id := n\<rparr>)"
    using i2 n by (simp add: timers_inv_def timer_id_range_word)
  show ?thesis
  proof (cases c)
    case None
    with r c cs i3 show ?thesis by (simp add: horizon_win_timers_set_def)
  next
    case (Some i)
    then have fresh: "(tid, win, msg, i) \<notin> timer_key ` set (ts_head ts2)" using cs by simp
    show ?thesis
    proof (cases alloc)
      case False
      with r c Some i3 show ?thesis by (simp add: horizon_win_timers_set_def Let_def)
    next
      case True
      with r c Some i3 fresh cs idw show ?thesis
        by (auto simp: horizon_win_timers_set_def Let_def timers_inv_def timer_key_def)
    qed
  qed
qed

lemma timers_expired_spec:
  assumes inv: "timers_inv ts" and room: "unat now + 2 ^ 32 \<le> 2 ^ 64"
  shows "\<exists>r ts'. horizon_win_timers_expired ts tid get_win lo hi now remove = Some (r, ts') \<and>
    timers_inv ts' \<and> map timer_key (ts_head ts') = map timer_key (ts_head ts) \<and>
    (case r of
       None \<Rightarrow> ts' = ts \<and> (\<forall>t\<in>set (ts_head ts). \<not> timer_due tid get_win lo hi now t)
     | Some t' \<Rightarrow> (\<exists>i<length (ts_head ts).
          timer_due tid get_win lo hi now (ts_head ts ! i) \<and>
          (\<forall>t\<in>set (ts_head ts). timer_due tid get_win lo hi now t \<longrightarrow>
             wt_when (ts_head ts ! i) \<le> wt_when t) \<and>
          (if remove
           then now < wt_when t' \<and> unat (wt_when t') \<le> unat now + unat (wt_rate t') \<and>
                ts_head ts' = (ts_head ts)[i := t'] \<and> t' = (ts_head ts ! i)\<lparr>wt_when := wt_when t'\<rparr>
           else t' = ts_head ts ! i \<and> ts' = ts)))"
proof -
  let ?P = "timer_due tid get_win lo hi now"
  note spec = timers_earliest_spec [where P = ?P and i = 0 and found = None and ts = "ts_head ts"]
  show ?thesis
  proof (cases "timers_earliest ?P 0 None (ts_head ts)")
    case None
    with spec inv show ?thesis by (simp add: horizon_win_timers_expired_def)
  next
    case (Some jf)
    obtain i f where jf: "jf = (i, f)" by fastforce
    from spec Some jf have i: "i < length (ts_head ts)" "f = ts_head ts ! i" "?P f"
      and min: "\<forall>t\<in>set (ts_head ts). ?P t \<longrightarrow> wt_when f \<le> wt_when t" by auto
    show ?thesis
    proof (cases remove)
      case False
      with Some jf i min inv show ?thesis by (auto simp: horizon_win_timers_expired_def)
    next
      case True
      have rate: "wt_rate f \<noteq> 0" using inv i(1,2) by (simp add: timers_inv_def)
      have "unat (wt_rate f) < 2 ^ 32" using unsigned_less [of "wt_rate f"] by simp
      then have "unat now + unat (wt_rate f) < 2 ^ 64" using room by simp
      from timer_advance_spec [OF rate this, of "wt_when f"] obtain w where
        w: "timer_advance now (wt_rate f) (wt_when f) = Some w" "now < w"
        "wt_when f \<le> now \<longrightarrow> unat w \<le> unat now + unat (wt_rate f)" by blast
      have due: "wt_when f \<le> now" using i(3) by (auto simp: timer_due_def)
      have keys: "map timer_key ((ts_head ts)[i := f\<lparr>wt_when := w\<rparr>]) = map timer_key (ts_head ts)"
        using i(1,2) by (simp add: map_update timer_key_def list_update_same_conv)
      have "set ((ts_head ts)[i := f\<lparr>wt_when := w\<rparr>]) \<subseteq> insert (f\<lparr>wt_when := w\<rparr>) (set (ts_head ts))"
        by (rule set_update_subset_insert)
      then have "timers_inv (ts\<lparr>ts_head := (ts_head ts)[i := f\<lparr>wt_when := w\<rparr>]\<rparr>)"
        using inv keys rate by (auto simp: timers_inv_def)
      with Some jf True w due keys i min show ?thesis
        by (auto simp: horizon_win_timers_expired_def Let_def intro!: exI [of _ i])
    qed
  qed
qed

lemma timers_drop_inv: "timers_inv ts \<Longrightarrow> timers_inv (horizon_win_timers_drop ts tid win)"
  by (auto simp: timers_inv_def horizon_win_timers_drop_def distinct_map_filter)

lemma timers_kill_inv: "timers_inv ts \<Longrightarrow> timers_inv (snd (horizon_win_timers_kill ts tid win msg ident))"
  by (auto simp: horizon_win_timers_kill_def split: option.splits
      intro: timers_remove_inv dest: timers_found_key)

lemma timers_step_inv [inv_intros]: "timers_inv ts \<Longrightarrow> timers_ok ts p \<Longrightarrow> timers_inv (timers_step ts p)"
proof (cases p)
  case (WT_set alloc tid win msg ident rate lparam now)
  assume "timers_inv ts"
  from win_timers_set_spec [OF this] obtain code i ts' where
    "horizon_win_timers_set alloc ts tid win msg ident rate lparam now = Some (code, i, ts')" "timers_inv ts'"
    by blast
  with WT_set show ?thesis by simp
next
  case (WT_expired tid w lo hi now r)
  assume "timers_inv ts" "timers_ok ts p"
  then have "timers_inv ts" "unat now + 2 ^ 32 \<le> 2 ^ 64" by (simp_all add: timers_ok_def WT_expired)
  from timers_expired_spec [OF this] obtain t ts' where
    "horizon_win_timers_expired ts tid w lo hi now r = Some (t, ts')" "timers_inv ts'" by blast
  with WT_expired show ?thesis by simp
qed (simp_all add: timers_kill_inv timers_drop_inv)

interpretation timers: invariant_machine timers_step timers_ok timers_inv
  by unfold_locales (rule timers_step_inv)

lemma timers_init_inv: "timers_inv timers_init"
  by (simp add: timers_inv_def timers_init_def)

section \<open>Properties\<close>

text \<open>C24. The posted messages are one list in the order of posting: after any sequence of posts
  (into newly allocated memory), retrievals and drops the messages in the queue are those of the
  abstract list, and a search returns the oldest message that passes the thread's filter, if any
  does.\<close>

theorem posted_queue_refines_list:
  assumes "admissible (posted_step d) posted_ok horizon_message_queue_init ops"
  defines "q \<equiv> foldl (posted_step d) horizon_message_queue_init ops"
    and "ms \<equiv> foldl (posted_spec d) [] ops"
  shows "map snd (mq_nodes q) = ms \<and>
    map_option (\<lambda>i. snd (mq_nodes q ! i)) (horizon_message_queue_find d q tid win lo hi) =
      List.find (posted_wanted d tid win lo hi) ms"
proof -
  have ms: "map snd (mq_nodes q) = ms"
    using posted.run_abs [OF posted_init_inv assms(1)]
    by (simp add: q_def ms_def horizon_message_queue_init_def)
  let ?f = "horizon_message_queue_find d q tid win lo hi"
  have f: "?f = index_of (posted_wanted d tid win lo hi) ms"
    by (simp add: posted_find_messages ms)
  have "map_option (\<lambda>i. snd (mq_nodes q ! i)) ?f = map_option ((!) ms) ?f"
  proof (cases ?f)
    case (Some i)
    then have "i < length ms" using f index_of_bound by metis
    then show ?thesis using Some ms by auto
  qed simp
  with ms f find_index_of show ?thesis by metis
qed

definition posted_demo :: "u32 \<Rightarrow> u32 \<Rightarrow> u32 \<Rightarrow> horizon_posted_message" where
  "posted_demo tid win msg = \<lparr>pm_tid = tid, pm_win = win, pm_msg = msg, pm_wparam = 0, pm_lparam = 0,
     pm_x = 0, pm_y = 0, pm_time = 0\<rparr>"

text \<open>The last message is taken and another posted after it, at an address used before.\<close>

theorem posted_queue_refines_list_witness:
  "map snd (mq_nodes (foldl (posted_step (\<lambda>_ _. False)) horizon_message_queue_init
     [P_post 1 (posted_demo 4 0 10), P_post 2 (posted_demo 5 0 11), P_take 5 0 0 0,
      P_post 2 (posted_demo 4 0 12)])) = [posted_demo 4 0 10, posted_demo 4 0 12]"
proof -
  let ?ops = "[P_post 1 (posted_demo 4 0 10), P_post 2 (posted_demo 5 0 11), P_take 5 0 0 0,
      P_post 2 (posted_demo 4 0 12)]"
  have "admissible (posted_step (\<lambda>_ _. False)) posted_ok horizon_message_queue_init ?ops"
    by (simp add: posted_ok_def fresh_node_def horizon_message_queue_init_def horizon_message_queue_post_def
        store_link_def append_after_def horizon_message_queue_find_def horizon_message_queue_remove_def
        posted_wanted_def posted_demo_def horizon_message_queue_matches_def remove_at_def)
  from posted_queue_refines_list [OF this] show ?thesis
    by (simp add: posted_wanted_def posted_demo_def horizon_message_queue_matches_def)
qed

text \<open>C26. Setting a timer always returns. It succeeds with one timer for the (thread, window,
  message, id) it was set for, newest in the list, keeping the id a window asked for; it fails
  only for want of memory, or for a windowless timer when every id of the range 0x101 to 0x7fff is
  in use by the thread for that message. The list never holds two timers with one key.\<close>

theorem timers_set_outcome:
  assumes "admissible timers_step timers_ok timers_init ops"
  defines "ts \<equiv> foldl timers_step timers_init ops"
  shows "\<exists>code i ts'.
    horizon_win_timers_set alloc ts tid win msg id0 rate lparam now = Some (code, i, ts') \<and>
    distinct (map timer_key (ts_head ts')) \<and>
    (code = 0 \<and> alloc \<and> (win \<noteq> 0 \<longrightarrow> i = id0) \<and>
       (\<exists>t rest. ts_head ts' = t # rest \<and> timer_key t = (tid, win, msg, i)) \<or>
     code = HORIZON_WIN_TIMERS_NO_MEMORY \<and> \<not> alloc \<or>
     code = HORIZON_WIN_TIMERS_NO_IDS \<and> win = 0 \<and>
       (\<forall>x. 0x100 < x \<and> x \<le> 0x7fff \<longrightarrow> (tid, 0, msg, x) \<in> timer_key ` set (ts_head ts')))"
proof -
  have inv: "timers_inv ts" unfolding ts_def by (rule timers.run_inv [OF timers_init_inv assms(1)])
  show ?thesis
    using win_timers_set_spec [OF inv, of alloc tid win msg id0 rate lparam now]
    unfolding timers_inv_def timer_id_range_word by blast
qed

theorem timers_set_outcome_witness:
  "\<exists>code i ts'. horizon_win_timers_set True (foldl timers_step timers_init [WT_set True 4 7 0x113 1 10 0 0])
     4 7 0x113 1 20 0 5 = Some (code, i, ts') \<and> distinct (map timer_key (ts_head ts'))"
proof -
  have "admissible timers_step timers_ok timers_init [WT_set True 4 7 0x113 1 10 0 0]"
    by (simp add: timers_ok_def)
  from timers_set_outcome [OF this] show ?thesis by blast
qed

text \<open>Asking for an expired timer always returns, away from the end of the 64-bit clock: the
  timer it gives is due, passes the filter, and no other that does fell due earlier; none is given
  only if none is due. A timer that is taken is set to a time after \<open>now\<close> by at most one
  period, and the others are left alone.\<close>

theorem timers_expired_earliest:
  assumes "admissible timers_step timers_ok timers_init ops" "unat now + 2 ^ 32 \<le> 2 ^ 64"
  defines "ts \<equiv> foldl timers_step timers_init ops"
  shows "\<exists>r ts'. horizon_win_timers_expired ts tid get_win lo hi now remove = Some (r, ts') \<and>
    (case r of
       None \<Rightarrow> ts' = ts \<and> (\<forall>t\<in>set (ts_head ts). \<not> timer_due tid get_win lo hi now t)
     | Some t' \<Rightarrow> (\<exists>i<length (ts_head ts).
          timer_due tid get_win lo hi now (ts_head ts ! i) \<and>
          (\<forall>t\<in>set (ts_head ts). timer_due tid get_win lo hi now t \<longrightarrow>
             wt_when (ts_head ts ! i) \<le> wt_when t) \<and>
          (if remove
           then now < wt_when t' \<and> unat (wt_when t') \<le> unat now + unat (wt_rate t') \<and>
                ts_head ts' = (ts_head ts)[i := t'] \<and> t' = (ts_head ts ! i)\<lparr>wt_when := wt_when t'\<rparr>
           else t' = ts_head ts ! i \<and> ts' = ts)))"
proof -
  have inv: "timers_inv ts" unfolding ts_def by (rule timers.run_inv [OF timers_init_inv assms(1)])
  show ?thesis using timers_expired_spec [OF inv assms(2), of tid get_win lo hi remove] by blast
qed

theorem timers_expired_earliest_witness:
  "\<exists>r ts'. horizon_win_timers_expired (foldl timers_step timers_init [WT_set True 4 7 0x113 1 10 0 0])
     4 0 0 0 25 True = Some (r, ts') \<and> (\<exists>t. r = Some t \<and> 25 < wt_when t \<and> wt_rate t = 10)"
proof -
  have adm: "admissible timers_step timers_ok timers_init [WT_set True 4 7 0x113 1 10 0 0]"
    by (simp add: timers_ok_def)
  have head: "ts_head (foldl timers_step timers_init [WT_set True 4 7 0x113 1 10 0 0]) =
      [\<lparr>wt_tid = 4, wt_win = 7, wt_msg = 0x113, wt_rate = 10, wt_id = 1, wt_lparam = 0, wt_when = 10\<rparr>]"
    by (simp add: timers_init_def horizon_win_timers_set_def win_timers_replace_def win_timers_choose_id_def
        horizon_win_timers_find_def Let_def)
  from timers_expired_earliest [OF adm, where now = 25 and tid = 4 and get_win = 0 and lo = 0 and hi = 0
      and remove = True] obtain r ts' where
    e: "horizon_win_timers_expired (foldl timers_step timers_init [WT_set True 4 7 0x113 1 10 0 0])
       4 0 0 0 25 True = Some (r, ts')" and
    c: "case r of None \<Rightarrow> \<not> timer_due 4 0 0 0 25
           \<lparr>wt_tid = 4, wt_win = 7, wt_msg = 0x113, wt_rate = 10, wt_id = 1, wt_lparam = 0, wt_when = 10\<rparr>
        | Some t' \<Rightarrow> 25 < wt_when t' \<and> t' = \<lparr>wt_tid = 4, wt_win = 7, wt_msg = 0x113, wt_rate = 10,
            wt_id = 1, wt_lparam = 0, wt_when = 10\<rparr>\<lparr>wt_when := wt_when t'\<rparr>"
    unfolding head by (force split: option.splits)
  show ?thesis
  proof (cases r)
    case None
    with c show ?thesis by (simp add: timer_due_def)
  next
    case (Some t)
    with c have "25 < wt_when t" and eq: "t = \<lparr>wt_tid = 4, wt_win = 7, wt_msg = 0x113, wt_rate = 10,
            wt_id = 1, wt_lparam = 0, wt_when = 10\<rparr>\<lparr>wt_when := wt_when t\<rparr>" by simp_all
    moreover have "wt_rate t = 10" by (subst eq) simp
    ultimately show ?thesis using e Some by blast
  qed
qed

end
