(* ===== verification/HzAsync.thy ===== *)
theory HzAsync
  imports HzPrelude
begin

text \<open>
  Operations on a socket that wait (\<open>dlls/ntdll/unix/horizon_async.h\<close>). The server keeps a
  list of them in the order they were started, each in one of four states: tried by the client
  (direct), waiting for its socket (queued), ready for a thread, or running on one. The list also
  counts how many are ready. An operation is named by its address.
\<close>

abbreviation (input) HORIZON_ASYNC_DIRECT :: int where "HORIZON_ASYNC_DIRECT \<equiv> 0"
abbreviation (input) HORIZON_ASYNC_QUEUED :: int where "HORIZON_ASYNC_QUEUED \<equiv> 1"
abbreviation (input) HORIZON_ASYNC_READY :: int where "HORIZON_ASYNC_READY \<equiv> 2"
abbreviation (input) HORIZON_ASYNC_RUNNING :: int where "HORIZON_ASYNC_RUNNING \<equiv> 3"
abbreviation (input) HORIZON_ASYNC_READ :: int where "HORIZON_ASYNC_READ \<equiv> 0"
abbreviation (input) HORIZON_ASYNC_WRITE :: int where "HORIZON_ASYNC_WRITE \<equiv> 1"
abbreviation (input) HORIZON_ASYNC_IO :: int where "HORIZON_ASYNC_IO \<equiv> 0"
abbreviation (input) HORIZON_ASYNC_ACCEPT :: int where "HORIZON_ASYNC_ACCEPT \<equiv> 1"
abbreviation (input) HORIZON_ASYNC_ACCEPT_INTO :: int where "HORIZON_ASYNC_ACCEPT_INTO \<equiv> 2"
abbreviation (input) HORIZON_ASYNC_STATUS_ALERTED :: u32 where "HORIZON_ASYNC_STATUS_ALERTED \<equiv> 0x101"
abbreviation (input) HORIZON_ASYNC_STATUS_CANCELLED :: u32 where
  "HORIZON_ASYNC_STATUS_CANCELLED \<equiv> 0xc0000120"
abbreviation (input) HORIZON_ASYNC_STATUS_HANDLES_CLOSED :: u32 where
  "HORIZON_ASYNC_STATUS_HANDLES_CLOSED \<equiv> 0x8000000a"
abbreviation (input) HORIZON_ASYNC_POST :: u32 where "HORIZON_ASYNC_POST \<equiv> 1"
abbreviation (input) HORIZON_ASYNC_APC :: u32 where "HORIZON_ASYNC_APC \<equiv> 2"
abbreviation (input) HORIZON_ASYNC_EVENT :: u32 where "HORIZON_ASYNC_EVENT \<equiv> 4"

section \<open>The list\<close>

record horizon_async_data =
  ad_handle :: u32
  ad_event :: u32
  ad_iosb :: u64
  ad_user :: u64
  ad_apc :: u64
  ad_apc_context :: u64

record horizon_async =
  at_id :: u32
  at_apc_id :: u32
  at_owner_tid :: u32
  at_sock :: u32
  at_direction :: int
  at_state :: int
  at_pending :: bool
  at_data :: horizon_async_data
  at_status :: u32
  at_ready_at :: u64
  at_port :: "ptr option"
  at_port_key :: u64
  at_port_flags :: u32
  at_kind :: int
  at_accept_into :: u32
  at_accepted :: bool
  at_recv_len :: u32
  at_local_len :: u32
  at_out_size :: u32
  at_out :: "u8 list option"
  at_out_status :: u32
  at_out_info :: u32

record horizon_async_list =
  al_nodes :: "horizon_async nodes"
  al_next_id :: u32
  al_ready :: int

definition horizon_async_new_id :: "horizon_async_list \<Rightarrow> u32 \<times> horizon_async_list" where
  "horizon_async_new_id l =
     (let n = al_next_id l + 1; n' = (if n = 0 then 1 else n)
      in (n', l\<lparr>al_next_id := n'\<rparr>))"

definition horizon_async_add :: "horizon_async_list \<Rightarrow> ptr \<Rightarrow> horizon_async \<Rightarrow> horizon_async_list" where
  "horizon_async_add l p async = l\<lparr>al_nodes := al_nodes l @ [(p, async)]\<rparr>"

definition horizon_async_remove :: "horizon_async_list \<Rightarrow> ptr \<Rightarrow> horizon_async_list" where
  "horizon_async_remove l p =
     (case index_of (\<lambda>n. fst n = p) (al_nodes l) of
        None \<Rightarrow> l
      | Some i \<Rightarrow> l\<lparr>al_nodes := remove_at i (al_nodes l)\<rparr>)"

definition horizon_async_find_id :: "horizon_async_list \<Rightarrow> u32 \<Rightarrow> (ptr \<times> horizon_async) option" where
  "horizon_async_find_id l ident =
     (if ident = 0 then None else List.find (\<lambda>(p, a). at_id a = ident) (al_nodes l))"

definition horizon_async_find_apc :: "horizon_async_list \<Rightarrow> u32 \<Rightarrow> (ptr \<times> horizon_async) option" where
  "horizon_async_find_apc l apc_id =
     (if apc_id = 0 then None
      else List.find (\<lambda>(p, a). at_state a = HORIZON_ASYNC_RUNNING \<and> at_apc_id a = apc_id) (al_nodes l))"

definition horizon_async_find_user :: "horizon_async_list \<Rightarrow> u64 \<Rightarrow> (ptr \<times> horizon_async) option" where
  "horizon_async_find_user l user = List.find (\<lambda>(p, a). ad_user (at_data a) = user) (al_nodes l)"

text \<open>A write through the pointer \<open>p\<close> to a node of the list.\<close>

definition async_update :: "ptr \<Rightarrow> (horizon_async \<Rightarrow> horizon_async) \<Rightarrow> horizon_async nodes \<Rightarrow> horizon_async nodes" where
  "async_update p f nodes = map (\<lambda>(q, a). (q, if q = p then f a else a)) nodes"

definition async_set_ready :: "u32 \<Rightarrow> u64 \<Rightarrow> horizon_async \<Rightarrow> horizon_async" where
  "async_set_ready status now a =
     a\<lparr>at_state := HORIZON_ASYNC_READY, at_status := status, at_ready_at := now\<rparr>"

definition horizon_async_ready ::
    "horizon_async_list \<Rightarrow> ptr \<times> horizon_async \<Rightarrow> u32 \<Rightarrow> u64 \<Rightarrow> horizon_async_list" where
  "horizon_async_ready l node status now =
     l\<lparr>al_ready := (if at_state (snd node) \<noteq> HORIZON_ASYNC_READY then al_ready l + 1 else al_ready l),
       al_nodes := async_update (fst node) (async_set_ready status now) (al_nodes l)\<rparr>"

definition horizon_async_run ::
    "horizon_async_list \<Rightarrow> ptr \<times> horizon_async \<Rightarrow> u32 \<Rightarrow> horizon_async_list" where
  "horizon_async_run l node apc_id =
     l\<lparr>al_ready := (if at_state (snd node) = HORIZON_ASYNC_READY then al_ready l - 1 else al_ready l),
       al_nodes := async_update (fst node)
         (\<lambda>a. a\<lparr>at_state := HORIZON_ASYNC_RUNNING, at_apc_id := apc_id\<rparr>) (al_nodes l)\<rparr>"

definition horizon_async_ready_for ::
    "horizon_async_list \<Rightarrow> u32 \<Rightarrow> u64 \<Rightarrow> u64 \<Rightarrow> (ptr \<times> horizon_async) option" where
  "horizon_async_ready_for l tid now stale =
     (case List.find (\<lambda>(p, a). at_state a = HORIZON_ASYNC_READY \<and> at_owner_tid a = tid) (al_nodes l) of
        Some node \<Rightarrow> Some node
      | None \<Rightarrow>
          List.find (\<lambda>(p, a). at_state a = HORIZON_ASYNC_READY \<and> now - at_ready_at a \<ge> stale) (al_nodes l))"

definition horizon_async_any_stale :: "horizon_async_list \<Rightarrow> u64 \<Rightarrow> u64 \<Rightarrow> bool" where
  "horizon_async_any_stale l now stale \<longleftrightarrow>
     list_ex (\<lambda>(p, a). at_state a = HORIZON_ASYNC_READY \<and> now - at_ready_at a \<ge> stale) (al_nodes l)"

definition horizon_async_any_queued :: "horizon_async_list \<Rightarrow> bool" where
  "horizon_async_any_queued l \<longleftrightarrow>
     list_ex (\<lambda>(p, a). at_state a = HORIZON_ASYNC_QUEUED \<or> at_state a = HORIZON_ASYNC_READY) (al_nodes l)"

fun next_queued :: "u32 \<Rightarrow> int \<Rightarrow> horizon_async nodes \<Rightarrow> (ptr \<times> horizon_async) option" where
  "next_queued sock direction [] = None"
| "next_queued sock direction ((p, a) # nodes) =
     (if at_sock a \<noteq> sock \<or> at_direction a \<noteq> direction then next_queued sock direction nodes
      else if at_state a = HORIZON_ASYNC_QUEUED then Some (p, a)
      else if at_state a = HORIZON_ASYNC_READY \<or> at_state a = HORIZON_ASYNC_RUNNING then None
      else next_queued sock direction nodes)"

definition horizon_async_next_queued ::
    "horizon_async_list \<Rightarrow> u32 \<Rightarrow> int \<Rightarrow> (ptr \<times> horizon_async) option" where
  "horizon_async_next_queued l sock direction = next_queued sock direction (al_nodes l)"

text \<open>The result, and the flags \<open>read\<close> and \<open>write\<close>.\<close>

definition horizon_async_waiting_on :: "horizon_async_list \<Rightarrow> u32 \<Rightarrow> bool \<times> bool \<times> bool" where
  "horizon_async_waiting_on l sock =
     (let waiting = filter (\<lambda>(p, a). at_sock a = sock \<and> at_state a = HORIZON_ASYNC_QUEUED) (al_nodes l);
          read = list_ex (\<lambda>(p, a). at_direction a = HORIZON_ASYNC_READ) waiting;
          write = list_ex (\<lambda>(p, a). at_direction a \<noteq> HORIZON_ASYNC_READ) waiting
      in (read \<or> write, read, write))"

definition horizon_async_completion :: "horizon_async \<Rightarrow> bool \<Rightarrow> bool \<Rightarrow> bool \<Rightarrow> u32" where
  "horizon_async_completion async failed has_port skip_on_success =
     (if \<not> at_pending async \<and> failed then 0
      else (let actions =
              (if ad_apc (at_data async) \<noteq> 0 then HORIZON_ASYNC_APC
               else if ad_apc_context (at_data async) \<noteq> 0 \<and> has_port \<and> (at_pending async \<or> \<not> skip_on_success)
                    then HORIZON_ASYNC_POST else 0)
            in if ad_event (at_data async) \<noteq> 0 then actions OR HORIZON_ASYNC_EVENT else actions))"

definition async_cancels :: "u32 \<Rightarrow> u64 \<Rightarrow> u32 \<Rightarrow> horizon_async \<Rightarrow> bool" where
  "async_cancels sock iosb tid a \<longleftrightarrow>
     \<not> (at_sock a \<noteq> sock \<and> \<not> (at_kind a = HORIZON_ASYNC_ACCEPT_INTO \<and> at_accept_into a = sock)) \<and>
     \<not> (iosb \<noteq> 0 \<and> ad_iosb (at_data a) \<noteq> iosb) \<and> \<not> (tid \<noteq> 0 \<and> at_owner_tid a \<noteq> tid) \<and>
     \<not> (at_state a \<noteq> HORIZON_ASYNC_QUEUED \<and> at_state a \<noteq> HORIZON_ASYNC_READY)"

fun async_cancel_walk ::
    "(ptr \<times> horizon_async) list \<Rightarrow> u32 \<Rightarrow> u64 \<Rightarrow> u32 \<Rightarrow> u64 \<Rightarrow> bool \<Rightarrow> u32 \<Rightarrow> horizon_async_list \<Rightarrow>
     u32 \<times> horizon_async_list" where
  "async_cancel_walk [] sock iosb tid now closing count l = (count, l)"
| "async_cancel_walk ((p, a) # todo) sock iosb tid now closing count l =
     (if async_cancels sock iosb tid a
      then async_cancel_walk todo sock iosb tid now closing (count + 1)
             (horizon_async_ready l (p, a)
               (if closing \<and> at_kind a = HORIZON_ASYNC_IO then HORIZON_ASYNC_STATUS_HANDLES_CLOSED
                else HORIZON_ASYNC_STATUS_CANCELLED) now)
      else async_cancel_walk todo sock iosb tid now closing count l)"

definition horizon_async_cancel ::
    "horizon_async_list \<Rightarrow> u32 \<Rightarrow> u64 \<Rightarrow> u32 \<Rightarrow> u64 \<Rightarrow> bool \<Rightarrow> u32 \<times> horizon_async_list" where
  "horizon_async_cancel l sock iosb tid now closing =
     async_cancel_walk (al_nodes l) sock iosb tid now closing 0 l"

text \<open>\<open>local_at\<close>, \<open>remote_at\<close> and \<open>remote_len\<close> when the sizes fit.\<close>

definition horizon_async_accept_layout :: "u32 \<Rightarrow> u32 \<Rightarrow> u32 \<Rightarrow> (u32 \<times> u32 \<times> u32) option" where
  "horizon_async_accept_layout out_size recv_len local_len =
     (if recv_len > out_size \<or> local_len > out_size - recv_len then None
      else if local_len \<noteq> 0 \<and> local_len < 4 then None
      else (let remote_len = out_size - recv_len - local_len
            in if remote_len \<ge> 4 then Some (recv_len, recv_len + local_len, remote_len) else None))"


section \<open>The life of an operation\<close>

text \<open>
  What the server's requests and its poller do to the list: an operation is started, its first
  try is reported as pending or as done, the poller makes the next of a socket ready or an accept
  fails, a thread takes one, its result is reported, and operations are cancelled. \<open>A_start\<close> is
  \<open>horizon_server_async_create_locked\<close>'s part of the list, and \<open>queued\<close> is for an accept, which is
  queued under the same lock.
\<close>

datatype async_op =
    A_start ptr horizon_async bool
  | A_direct u32 bool bool
  | A_poll u32 int u32 u64
  | A_run u32 u64 u64 u32
  | A_result u32 bool
  | A_cancel u32 u64 u32 u64 bool

fun async_step :: "horizon_async_list \<Rightarrow> async_op \<Rightarrow> horizon_async_list" where
  "async_step l (A_start p a queued) =
     (let (ident, l1) = horizon_async_new_id l
      in horizon_async_add l1 p (a\<lparr>at_id := ident, at_status := HORIZON_ASYNC_STATUS_ALERTED,
           at_state := (if queued then HORIZON_ASYNC_QUEUED else HORIZON_ASYNC_DIRECT),
           at_pending := queued\<rparr>))"
| "async_step l (A_direct ident is_pending mark) =
     (case horizon_async_find_id l ident of
        None \<Rightarrow> l
      | Some (p, a) \<Rightarrow>
          if at_state a \<noteq> HORIZON_ASYNC_DIRECT then l
          else if is_pending
               then l\<lparr>al_nodes := async_update p
                        (\<lambda>a. a\<lparr>at_state := HORIZON_ASYNC_QUEUED, at_pending := True\<rparr>) (al_nodes l)\<rparr>
          else horizon_async_remove l p)"
| "async_step l (A_poll sock direction status now) =
     (case horizon_async_next_queued l sock direction of
        None \<Rightarrow> l
      | Some node \<Rightarrow> horizon_async_ready l node status now)"
| "async_step l (A_run tid now stale apc_id) =
     (case horizon_async_ready_for l tid now stale of
        None \<Rightarrow> l
      | Some node \<Rightarrow> horizon_async_run l node apc_id)"
| "async_step l (A_result apc_id is_pending) =
     (case horizon_async_find_apc l apc_id of
        None \<Rightarrow> l
      | Some (p, a) \<Rightarrow>
          (let l1 = l\<lparr>al_nodes := async_update p (\<lambda>a. a\<lparr>at_apc_id := 0\<rparr>) (al_nodes l)\<rparr>
           in if is_pending
              then l1\<lparr>al_nodes := async_update p (\<lambda>a. a\<lparr>at_state := HORIZON_ASYNC_QUEUED,
                        at_status := HORIZON_ASYNC_STATUS_ALERTED\<rparr>) (al_nodes l1)\<rparr>
              else horizon_async_remove l1 p))"
| "async_step l (A_cancel sock iosb tid now closing) = snd (horizon_async_cancel l sock iosb tid now closing)"

definition async_init :: horizon_async_list where
  "async_init = \<lparr>al_nodes = [], al_next_id = 0, al_ready = 0\<rparr>"

text \<open>\<open>async_stream a b\<close>: the two are on one socket in one direction.\<close>

definition async_stream :: "horizon_async \<Rightarrow> horizon_async \<Rightarrow> bool" where
  "async_stream a b \<longleftrightarrow> at_sock a = at_sock b \<and> at_direction a = at_direction b"

definition async_live :: "horizon_async \<Rightarrow> bool" where
  "async_live a \<longleftrightarrow> (at_state a = HORIZON_ASYNC_READY \<or> at_state a = HORIZON_ASYNC_RUNNING) \<and>
     at_status a = HORIZON_ASYNC_STATUS_ALERTED"

text \<open>What the order of the list promises of \<open>a\<close> before \<open>b\<close> in one stream: \<open>a\<close> is not in its first try,
  and \<open>b\<close> is not being done.\<close>

definition async_before :: "horizon_async \<Rightarrow> horizon_async \<Rightarrow> bool" where
  "async_before a b \<longleftrightarrow> (async_stream a b \<longrightarrow> at_state a \<noteq> HORIZON_ASYNC_DIRECT \<and> \<not> async_live b)"

definition async_inv :: "horizon_async_list \<Rightarrow> bool" where
  "async_inv l \<longleftrightarrow>
     distinct (map fst (al_nodes l)) \<and>
     (\<forall>a\<in>snd ` set (al_nodes l). 0 \<le> at_state a \<and> at_state a \<le> 3) \<and>
     al_ready l = int (length (filter (\<lambda>a. at_state a = HORIZON_ASYNC_READY) (map snd (al_nodes l)))) \<and>
     sorted_wrt async_before (map snd (al_nodes l))"

text \<open>Memory is new; and a client reports the outcome of its first try on a socket and direction
  before an operation is started there again.\<close>

definition async_ok :: "horizon_async_list \<Rightarrow> async_op \<Rightarrow> bool" where
  "async_ok l p \<longleftrightarrow>
     (case p of
        A_start q a queued \<Rightarrow> fresh_node q (al_nodes l) \<and>
          \<not> list_ex (\<lambda>(r, b). async_stream b a \<and> at_state b = HORIZON_ASYNC_DIRECT) (al_nodes l)
      | _ \<Rightarrow> True)"

section \<open>What holds of the list\<close>

lemma async_update_at:
  assumes "distinct (map fst (ys @ (p, a) # zs))"
  shows "async_update p f (ys @ (p, a) # zs) = ys @ (p, f a) # zs"
proof -
  have "p \<notin> fst ` set ys" "p \<notin> fst ` set zs" using assms by auto
  then have "async_update p f ys = ys" "async_update p f zs = zs"
    unfolding async_update_def by (auto simp: case_prod_beta' image_iff intro!: map_idI)
  then show ?thesis by (simp add: async_update_def)
qed

lemma async_update_split:
  assumes "async_inv l" "(p, a) \<in> set (al_nodes l)"
  shows "\<exists>ys zs. al_nodes l = ys @ (p, a) # zs \<and> (\<forall>f. async_update p f (al_nodes l) = ys @ (p, f a) # zs)"
proof -
  from assms(2) obtain ys zs where n: "al_nodes l = ys @ (p, a) # zs" by (meson split_list)
  with assms(1) have "distinct (map fst (ys @ (p, a) # zs))" by (simp add: async_inv_def)
  from async_update_at [OF this] n show ?thesis by metis
qed

text \<open>Every step but starting and removing replaces one node. The order survives if the node does
  not go back to its first try, and starts being done only when nothing of its stream is before.\<close>

lemma async_inv_replace:
  assumes inv: "async_inv l" and n: "al_nodes l = ys @ (p, a) # zs" and n': "al_nodes l' = ys @ (p, b) # zs"
    and same: "at_sock b = at_sock a" "at_direction b = at_direction a"
    and range: "0 \<le> at_state b" "at_state b \<le> 3"
    and direct: "at_state b = HORIZON_ASYNC_DIRECT \<longrightarrow> at_state a = HORIZON_ASYNC_DIRECT"
    and live: "async_live b \<longrightarrow> async_live a \<or> (\<forall>y\<in>snd ` set ys. \<not> async_stream y a)"
    and ready: "al_ready l' = al_ready l - (if at_state a = HORIZON_ASYNC_READY then 1 else 0) +
      (if at_state b = HORIZON_ASYNC_READY then 1 else 0)"
  shows "async_inv l'"
proof -
  have st: "async_stream x b = async_stream x a" "async_stream b x = async_stream a x" for x
    using same by (auto simp: async_stream_def)
  have o: "sorted_wrt async_before (map snd ys @ a # map snd zs)"
    using inv n by (simp add: async_inv_def)
  have 1: "async_before y b" if "y \<in> snd ` set ys" for y
    using that o live by (auto simp: sorted_wrt_append async_before_def st)
  have 2: "async_before b z" if "z \<in> snd ` set zs" for z
    using that o direct by (auto simp: sorted_wrt_append async_before_def st)
  have "sorted_wrt async_before (map snd ys @ b # map snd zs)"
    using o 1 2 by (auto simp: sorted_wrt_append)
  then show ?thesis using inv n n' ready range by (auto simp: async_inv_def)
qed

lemma async_ready_inv:
  assumes inv: "async_inv l" and n: "al_nodes l = ys @ (p, a) # zs"
    and live: "status = HORIZON_ASYNC_STATUS_ALERTED \<longrightarrow> (\<forall>y\<in>snd ` set ys. \<not> async_stream y a)"
  shows "async_inv (horizon_async_ready l (p, a) status now)"
proof -
  have "distinct (map fst (ys @ (p, a) # zs))" using inv n by (simp add: async_inv_def)
  from async_update_at [OF this] have u: "\<And>f. async_update p f (al_nodes l) = ys @ (p, f a) # zs"
    by (simp add: n)
  show ?thesis
    by (rule async_inv_replace [OF inv n, where b = "async_set_ready status now a"])
      (use live u in \<open>auto simp: horizon_async_ready_def async_set_ready_def async_live_def\<close>)
qed

text \<open>What the poller takes next: queued, and all of its stream before it still in the first try.\<close>

lemma next_queued_split:
  "next_queued sock direction nodes = Some (p, a) \<Longrightarrow>
   \<exists>ys zs. nodes = ys @ (p, a) # zs \<and> at_sock a = sock \<and> at_direction a = direction \<and>
     at_state a = HORIZON_ASYNC_QUEUED \<and>
     (\<forall>y\<in>snd ` set ys. async_stream y a \<longrightarrow>
        at_state y \<noteq> HORIZON_ASYNC_QUEUED \<and> at_state y \<noteq> HORIZON_ASYNC_READY \<and> at_state y \<noteq> HORIZON_ASYNC_RUNNING)"
proof (induction nodes)
  case Nil
  then show ?case by simp
next
  case (Cons node nodes)
  obtain q b where node: "node = (q, b)" by fastforce
  show ?case
  proof (cases "at_sock b = sock \<and> at_direction b = direction \<and> at_state b = HORIZON_ASYNC_QUEUED")
    case True
    with Cons.prems node have "p = q" "a = b" by auto
    with True node show ?thesis by (intro exI [of _ "[]"] exI [of _ nodes]) auto
  next
    case False
    with Cons.prems node have "next_queued sock direction nodes = Some (p, a)"
      by (auto split: if_splits)
    from Cons.IH [OF this] obtain ys zs where "nodes = ys @ (p, a) # zs" "at_sock a = sock"
      "at_direction a = direction" "at_state a = HORIZON_ASYNC_QUEUED"
      "\<forall>y\<in>snd ` set ys. async_stream y a \<longrightarrow>
        at_state y \<noteq> HORIZON_ASYNC_QUEUED \<and> at_state y \<noteq> HORIZON_ASYNC_READY \<and> at_state y \<noteq> HORIZON_ASYNC_RUNNING"
      by blast
    with False Cons.prems node show ?thesis
      by (intro exI [of _ "node # ys"] exI [of _ zs]) (auto simp: async_stream_def split: if_splits)
  qed
qed

lemma async_poll_inv:
  assumes inv: "async_inv l" and f: "horizon_async_next_queued l sock direction = Some (p, a)"
  shows "async_inv (horizon_async_ready l (p, a) status now)"
proof -
  from f next_queued_split obtain ys zs where n: "al_nodes l = ys @ (p, a) # zs"
    and early: "\<forall>y\<in>snd ` set ys. async_stream y a \<longrightarrow>
        at_state y \<noteq> HORIZON_ASYNC_QUEUED \<and> at_state y \<noteq> HORIZON_ASYNC_READY \<and> at_state y \<noteq> HORIZON_ASYNC_RUNNING"
    unfolding horizon_async_next_queued_def by blast
  have none: "\<not> async_stream y a" if y: "y \<in> snd ` set ys" for y
  proof
    assume s: "async_stream y a"
    have "0 \<le> at_state y" "at_state y \<le> 3" using inv n y by (auto simp: async_inv_def)
    with early y s have "at_state y = HORIZON_ASYNC_DIRECT" by fastforce
    moreover have "async_before y a" using inv n y by (auto simp: async_inv_def sorted_wrt_append)
    ultimately show False using s by (simp add: async_before_def)
  qed
  with async_ready_inv [OF inv n] show ?thesis by blast
qed

lemma async_remove_inv:
  assumes inv: "async_inv l" and mem: "(p, a) \<in> set (al_nodes l)" and nr: "at_state a \<noteq> HORIZON_ASYNC_READY"
  shows "async_inv (horizon_async_remove l p)"
proof -
  have d: "distinct (map fst (al_nodes l))" using inv by (simp add: async_inv_def)
  from mem obtain ys zs where n: "al_nodes l = ys @ (p, a) # zs" by (meson split_list)
  with d have "\<forall>x\<in>set ys. fst x \<noteq> p" by force
  then have "index_of (\<lambda>n. fst n = p) (al_nodes l) = Some (length ys)"
    unfolding n by (rule index_of_append_first) simp
  then have r: "horizon_async_remove l p = l\<lparr>al_nodes := ys @ zs\<rparr>"
    by (simp add: horizon_async_remove_def n remove_at_append)
  show ?thesis using inv n nr by (auto simp: r async_inv_def sorted_wrt_append)
qed

lemma async_run_inv:
  assumes inv: "async_inv l" and mem: "(p, a) \<in> set (al_nodes l)" and r: "at_state a = HORIZON_ASYNC_READY"
  shows "async_inv (horizon_async_run l (p, a) apc_id)"
proof -
  from async_update_split [OF inv mem] obtain ys zs where n: "al_nodes l = ys @ (p, a) # zs"
    and u: "\<And>f. async_update p f (al_nodes l) = ys @ (p, f a) # zs" by blast
  show ?thesis
    by (rule async_inv_replace [OF inv n, where b = "a\<lparr>at_state := HORIZON_ASYNC_RUNNING, at_apc_id := apc_id\<rparr>"])
      (use r u in \<open>auto simp: horizon_async_run_def async_live_def\<close>)
qed

text \<open>A node that is not ready, set queued.\<close>

lemma async_queue_inv:
  assumes inv: "async_inv l" and mem: "(p, a) \<in> set (al_nodes l)" and nr: "at_state a \<noteq> HORIZON_ASYNC_READY"
    and f: "at_state (f a) = HORIZON_ASYNC_QUEUED" "at_sock (f a) = at_sock a" "at_direction (f a) = at_direction a"
  shows "async_inv (l\<lparr>al_nodes := async_update p f (al_nodes l)\<rparr>)"
proof -
  from async_update_split [OF inv mem] obtain ys zs where n: "al_nodes l = ys @ (p, a) # zs"
    and u: "\<And>f. async_update p f (al_nodes l) = ys @ (p, f a) # zs" by blast
  show ?thesis
    by (rule async_inv_replace [OF inv n, where b = "f a"]) (use nr f u in \<open>auto simp: async_live_def\<close>)
qed

lemma async_start_inv:
  assumes inv: "async_inv l" and ok: "async_ok l (A_start p a queued)"
  shows "async_inv (async_step l (A_start p a queued))"
proof -
  have d: "\<forall>b\<in>snd ` set (al_nodes l). async_stream b a \<longrightarrow> at_state b \<noteq> HORIZON_ASYNC_DIRECT"
    using ok by (auto simp: async_ok_def list_ex_iff)
  have "async_before b (a\<lparr>at_id := i, at_status := HORIZON_ASYNC_STATUS_ALERTED,
      at_state := (if queued then HORIZON_ASYNC_QUEUED else HORIZON_ASYNC_DIRECT), at_pending := queued\<rparr>)"
    if "b \<in> snd ` set (al_nodes l)" for b i
    using d that by (auto simp: async_before_def async_stream_def async_live_def)
  then show ?thesis
    using inv ok
    by (auto simp: async_inv_def async_ok_def fresh_node_def horizon_async_new_id_def horizon_async_add_def
        sorted_wrt_append Let_def)
qed

lemma async_cancel_inv:
  "async_inv l \<Longrightarrow> al_nodes l = done @ todo \<Longrightarrow>
   async_inv (snd (async_cancel_walk todo sock iosb tid now closing count l))"
proof (induction todo arbitrary: count l "done")
  case Nil
  then show ?case by simp
next
  case (Cons node todo)
  obtain p a where node: "node = (p, a)" by fastforce
  have n: "al_nodes l = done @ (p, a) # todo" using Cons.prems(2) node by simp
  show ?case
  proof (cases "async_cancels sock iosb tid a")
    case False
    have "al_nodes l = (done @ [node]) @ todo" using Cons.prems(2) by simp
    from Cons.IH [OF Cons.prems(1) this] False node show ?thesis by simp
  next
    case True
    define status where "status = (if closing \<and> at_kind a = HORIZON_ASYNC_IO
      then HORIZON_ASYNC_STATUS_HANDLES_CLOSED else HORIZON_ASYNC_STATUS_CANCELLED)"
    define l' where "l' = horizon_async_ready l (p, a) status now"
    have i: "async_inv l'"
      unfolding l'_def by (rule async_ready_inv [OF Cons.prems(1) n]) (simp add: status_def)
    have "distinct (map fst (done @ (p, a) # todo))" using Cons.prems(1) n by (simp add: async_inv_def)
    from async_update_at [OF this] have "al_nodes l' = (done @ [(p, async_set_ready status now a)]) @ todo"
      by (simp add: l'_def horizon_async_ready_def n)
    from Cons.IH [OF i this] True node show ?thesis by (simp add: l'_def status_def)
  qed
qed

lemma async_ready_for_mem:
  "horizon_async_ready_for l tid now stale = Some (p, a) \<Longrightarrow>
   (p, a) \<in> set (al_nodes l) \<and> at_state a = HORIZON_ASYNC_READY"
  by (auto simp: horizon_async_ready_for_def split: option.splits dest!: find_mem)

lemma async_result_inv:
  assumes inv: "async_inv l" and f: "horizon_async_find_apc l apc_id = Some (p, a)"
  shows "async_inv (async_step l (A_result apc_id is_pending))"
proof -
  have mem: "(p, a) \<in> set (al_nodes l)" and r: "at_state a = HORIZON_ASYNC_RUNNING"
    using f by (auto simp: horizon_async_find_apc_def dest!: find_mem split: if_splits)
  from async_update_split [OF inv mem] obtain ys zs where n: "al_nodes l = ys @ (p, a) # zs"
    and u: "\<And>f. async_update p f (al_nodes l) = ys @ (p, f a) # zs" by blast
  define l1 where "l1 = l\<lparr>al_nodes := async_update p (\<lambda>a. a\<lparr>at_apc_id := 0\<rparr>) (al_nodes l)\<rparr>"
  have i1: "async_inv l1"
    by (rule async_inv_replace [OF inv n, where b = "a\<lparr>at_apc_id := 0\<rparr>"])
      (use r in \<open>auto simp: l1_def u async_live_def\<close>)
  have m1: "(p, a\<lparr>at_apc_id := 0\<rparr>) \<in> set (al_nodes l1)" by (simp add: l1_def u)
  show ?thesis
    using async_remove_inv [OF i1 m1] r f
      async_queue_inv [OF i1 m1, where f = "\<lambda>a. a\<lparr>at_state := HORIZON_ASYNC_QUEUED,
        at_status := HORIZON_ASYNC_STATUS_ALERTED\<rparr>"]
    by (simp add: l1_def [symmetric] Let_def)
qed

lemma async_step_inv [inv_intros]:
  assumes inv: "async_inv l" and ok: "async_ok l p"
  shows "async_inv (async_step l p)"
proof (cases p)
  case (A_start q a queued)
  with assms async_start_inv show ?thesis by simp
next
  case (A_direct ident is_pending mark)
  show ?thesis
  proof (cases "horizon_async_find_id l ident")
    case None
    with inv A_direct show ?thesis by simp
  next
    case (Some node)
    obtain q a where node: "node = (q, a)" by fastforce
    with Some have "(q, a) \<in> set (al_nodes l)"
      by (auto simp: horizon_async_find_id_def dest!: find_mem split: if_splits)
    with inv Some node A_direct show ?thesis
      by (auto intro: async_remove_inv async_queue_inv)
  qed
next
  case (A_poll sock direction status now)
  with inv show ?thesis by (auto split: option.splits intro: async_poll_inv)
next
  case (A_run tid now stale apc_id)
  with inv show ?thesis by (auto split: option.splits intro: async_run_inv dest: async_ready_for_mem)
next
  case (A_result apc_id is_pending)
  with inv async_result_inv show ?thesis by (cases "horizon_async_find_apc l apc_id") auto
next
  case (A_cancel sock iosb tid now closing)
  with async_cancel_inv [OF inv, of "[]"] show ?thesis by (simp add: horizon_async_cancel_def)
qed

interpretation async: invariant_machine async_step async_ok async_inv
  by unfold_locales (rule async_step_inv)

lemma async_init_inv: "async_inv async_init"
  by (simp add: async_inv_def async_init_def)

text \<open>What a cancellation leaves of each operation.\<close>

definition async_cancelled :: "u32 \<Rightarrow> u64 \<Rightarrow> u32 \<Rightarrow> u64 \<Rightarrow> bool \<Rightarrow> horizon_async \<Rightarrow> horizon_async" where
  "async_cancelled sock iosb tid now closing a =
     (if async_cancels sock iosb tid a
      then async_set_ready (if closing \<and> at_kind a = HORIZON_ASYNC_IO then HORIZON_ASYNC_STATUS_HANDLES_CLOSED
             else HORIZON_ASYNC_STATUS_CANCELLED) now a
      else a)"

lemma async_cancel_walk_spec:
  "distinct (map fst (al_nodes l)) \<Longrightarrow> al_nodes l = done @ todo \<Longrightarrow>
   al_nodes (snd (async_cancel_walk todo sock iosb tid now closing count l)) =
     done @ map (map_prod id (async_cancelled sock iosb tid now closing)) todo \<and>
   fst (async_cancel_walk todo sock iosb tid now closing count l) =
     count + of_nat (length (filter (async_cancels sock iosb tid) (map snd todo)))"
proof (induction todo arbitrary: count l "done")
  case Nil
  then show ?case by simp
next
  case (Cons node todo)
  obtain p a where node: "node = (p, a)" by fastforce
  show ?case
  proof (cases "async_cancels sock iosb tid a")
    case False
    have "al_nodes l = (done @ [node]) @ todo" using Cons.prems(2) by simp
    from Cons.IH [OF Cons.prems(1) this] False node show ?thesis by (simp add: async_cancelled_def)
  next
    case True
    define status where "status = (if closing \<and> at_kind a = HORIZON_ASYNC_IO
      then HORIZON_ASYNC_STATUS_HANDLES_CLOSED else HORIZON_ASYNC_STATUS_CANCELLED)"
    define l' where "l' = horizon_async_ready l (p, a) status now"
    have d: "distinct (map fst (done @ (p, a) # todo))" using Cons.prems node by simp
    have n: "al_nodes l' = (done @ [(p, async_set_ready status now a)]) @ todo"
      using async_update_at [OF d] Cons.prems(2) node by (simp add: l'_def horizon_async_ready_def)
    have "distinct (map fst (al_nodes l'))" using d n by simp
    from Cons.IH [OF this n] True node show ?thesis
      by (simp add: l'_def status_def async_cancelled_def)
  qed
qed

section \<open>Properties\<close>


definition async_demo :: "u32 \<Rightarrow> horizon_async" where
  "async_demo owner = \<lparr>at_id = 0, at_apc_id = 0, at_owner_tid = owner, at_sock = 7, at_direction = 0, at_state = 0,
     at_pending = False, at_data = \<lparr>ad_handle = 7, ad_event = 0, ad_iosb = 1, ad_user = 2, ad_apc = 0,
       ad_apc_context = 0\<rparr>,
     at_status = 0, at_ready_at = 0, at_port = None, at_port_key = 0, at_port_flags = 0, at_kind = 0,
     at_accept_into = 0, at_accepted = False, at_recv_len = 0, at_local_len = 0, at_out_size = 0,
     at_out = None, at_out_status = 0, at_out_info = 0\<rparr>"



text \<open>Cancelling, or closing the socket, ends exactly the operations asked for that wait or
  are ready: each becomes ready with the status that says how it ended, everything else in the
  list and its order are unchanged, and the number returned counts them.\<close>

theorem async_cancel_exact:
  assumes "admissible async_step async_ok async_init ops"
  defines "l \<equiv> foldl async_step async_init ops"
  shows "al_nodes (snd (horizon_async_cancel l sock iosb tid now closing)) =
      map (map_prod id (async_cancelled sock iosb tid now closing)) (al_nodes l) \<and>
    fst (horizon_async_cancel l sock iosb tid now closing) =
      of_nat (length (filter (async_cancels sock iosb tid) (map snd (al_nodes l))))"
proof -
  have "async_inv l" unfolding l_def by (rule async.run_inv [OF async_init_inv assms(1)])
  then have "distinct (map fst (al_nodes l))" by (simp add: async_inv_def)
  from async_cancel_walk_spec [OF this, of "[]"] show ?thesis by (simp add: horizon_async_cancel_def)
qed

theorem async_cancel_exact_witness:
  "fst (horizon_async_cancel (foldl async_step async_init [A_start 1 (async_demo 4) True]) 7 0 0 60 True) = 1"
proof -
  have "admissible async_step async_ok async_init [A_start 1 (async_demo 4) True]"
    by (simp add: async_ok_def fresh_node_def async_init_def)
  from async_cancel_exact [OF this, where sock = 7 and iosb = 0 and tid = 0 and now = 60 and closing = True]
  show ?thesis
    by (simp add: async_init_def horizon_async_new_id_def horizon_async_add_def async_demo_def async_cancels_def Let_def)
qed

text \<open>The buffer of an accept is laid out without overlap and inside its size: the data
  received, the local address and the remote one follow each other and fill it exactly, and each
  address that has room at all has room for its length field.\<close>

theorem accept_layout_fits:
  assumes "horizon_async_accept_layout out_size recv_len local_len = Some (local_at, remote_at, remote_len)"
  shows "unat local_at = unat recv_len \<and> unat remote_at = unat local_at + unat local_len \<and>
    unat remote_at + unat remote_len = unat out_size \<and> 4 \<le> unat remote_len \<and>
    (local_len = 0 \<or> 4 \<le> unat local_len)"
proof -
  from assms have le: "recv_len \<le> out_size" "local_len \<le> out_size - recv_len"
    and eqs: "local_at = recv_len" "remote_at = recv_len + local_len" "remote_len = out_size - recv_len - local_len"
    and sz: "4 \<le> remote_len" "local_len = 0 \<or> 4 \<le> local_len"
    by (auto simp: horizon_async_accept_layout_def Let_def split: if_splits)
  have 1: "unat (out_size - recv_len) = unat out_size - unat recv_len" using le(1) by (rule unat_sub)
  have 2: "unat remote_len = unat out_size - unat recv_len - unat local_len"
    using unat_sub [OF le(2)] 1 eqs(3) by simp
  have 3: "unat local_len \<le> unat out_size - unat recv_len" "unat recv_len \<le> unat out_size"
    using le 1 by (simp_all add: word_le_nat_alt)
  have "unat out_size < 2 ^ 32" using unsigned_less [of out_size] by simp
  then have "unat remote_at = unat recv_len + unat local_len"
    using 3 eqs(2) by (simp add: unat_word_ariths)
  with 2 3 eqs sz show ?thesis by (auto simp: word_le_nat_alt)
qed

theorem accept_layout_fits_witness:
  "horizon_async_accept_layout 100 20 32 = Some (20, 52, 48) \<and> unat (52 :: u32) + unat (48 :: u32) = unat (100 :: u32)"
proof -
  have "horizon_async_accept_layout 100 20 32 = Some (20, 52, 48)"
    by (simp add: horizon_async_accept_layout_def)
  with accept_layout_fits [OF this] show ?thesis by simp
qed

end
