(* ===== verification/HzObjects.thy ===== *)
theory HzObjects
  imports HzThreads HzCompletion HzAsync "HOL-Library.Finite_Map"
begin

text \<open>
  The objects of the in-process server and the table of handles to them
  (\<open>dlls/ntdll/unix/horizon.c\<close>): creating and duplicating handles, looking them up through the
  hash, object names, and the reference counts that decide when an object is freed.

  Objects live in a finite map from addresses; freeing one removes it. A reference is a handle
  entry, a pointer in another object (the port of a completion wait or of a file, the file of a
  mapping), or one held outside the table: by a connection, a thread-local cache, a queued wait
  or a pending operation. The latter are the list \<open>sv_holds\<close>. Calls into the registry and the file
  system are recorded, in order, in \<open>sv_effects\<close>.
\<close>

section \<open>State\<close>

datatype horizon_server_object_type =
    OBJECT_RESERVE | OBJECT_REG_KEY | OBJECT_EVENT | OBJECT_KEYED_EVENT | OBJECT_MUTEX
  | OBJECT_SEMAPHORE | OBJECT_TIMER | OBJECT_FILE | OBJECT_MAPPING | OBJECT_PROCESS | OBJECT_THREAD
  | OBJECT_SOCK | OBJECT_WINSTATION | OBJECT_DESKTOP | OBJECT_MSG_QUEUE | OBJECT_DIRECTORY
  | OBJECT_COMPLETION | OBJECT_COMPLETION_WAIT | OBJECT_NAMED_PIPE | OBJECT_NSI

text \<open>A link of \<open>object->waiters\<close>: the waiter it belongs to, its place there, and the object waited on, which differs
  from the object the link hangs on for a completion wait.\<close>

record horizon_sync_link =
  sl_waiter :: ptr
  sl_index :: nat
  sl_object :: ptr
  sl_source :: ptr

record horizon_server_object =
  so_type :: horizon_server_object_type
  so_refs :: u32
  so_waiters :: "horizon_sync_link list"
  so_manual_reset :: bool
  so_signaled :: bool
  so_count :: u32
  so_max :: u32
  so_mutex :: horizon_mutex_state
  so_thread :: horizon_thread_state
  so_apcs :: "(u8 list) nodes"
  so_apc_last :: "ptr option"
  so_rootdir :: u32
  so_name :: "u8 list"
  so_directory :: nat
  so_timer_when :: int
  so_timer_period :: u32
  so_file_fd :: int
  so_file_peer_fd :: int
  so_file_name :: "string option"
  so_file_access :: u32
  so_file_options :: u32
  so_file_sharing :: u32
  so_file_shared :: bool
  so_file_delete :: bool
  so_file_is_dir :: bool
  so_queue_tid :: u32
  so_reg_key :: "ptr option"
  so_completion :: horizon_completion_queue
  so_completion_closed :: bool
  so_wait_port :: "ptr option"
  so_wait_msg :: horizon_completion_msg
  so_wait_has_msg :: bool
  so_file_completion :: "ptr option"
  so_file_completion_key :: u64
  so_file_completion_flags :: u32
  so_mapping_shared_file :: "ptr option"

record horizon_server_handle_entry =
  he_addr :: ptr
  he_handle :: u32
  he_access :: u32
  he_object :: ptr

datatype server_effect =
    E_reg_release ptr
  | E_reg_closed ptr u32
  | E_close int
  | E_rmdir string
  | E_unlink string

record horizon_sync_waiter =
  sw_tid :: u32
  sw_thread :: ptr
  sw_size :: u32
  sw_flags :: u32
  sw_data :: "u8 list"
  sw_status :: u32
  sw_queued :: bool
  sw_notified :: bool
  sw_completed :: bool
  sw_links :: "horizon_sync_link list"

record server =
  sv_objects :: "(ptr, horizon_server_object) fmap"
  sv_handles :: "horizon_server_handle_entry list"
  sv_hash :: "nat \<Rightarrow> horizon_server_handle_entry list"
  sv_next_handle :: u32
  sv_threads :: "ptr list"
  sv_timers :: "ptr list"
  sv_running_threads :: u32
  sv_holds :: "ptr list"
  sv_waiters :: "ptr list"
  sv_waiter :: "ptr \<Rightarrow> horizon_sync_waiter option"
  sv_asyncs :: horizon_async_list
  sv_effects :: "server_effect list"

abbreviation object_at :: "server \<Rightarrow> ptr \<Rightarrow> horizon_server_object option" where
  "object_at s p \<equiv> fmlookup (sv_objects s) p"

definition put_object :: "ptr \<Rightarrow> horizon_server_object \<Rightarrow> server \<Rightarrow> server" where
  "put_object p ob s = s\<lparr>sv_objects := fmupd p ob (sv_objects s)\<rparr>"

text \<open>A write through an object pointer.\<close>

definition update_object :: "ptr \<Rightarrow> (horizon_server_object \<Rightarrow> horizon_server_object) \<Rightarrow> server \<Rightarrow> server" where
  "update_object p f s = (case object_at s p of None \<Rightarrow> s | Some ob \<Rightarrow> put_object p (f ob) s)"

definition emit :: "server_effect \<Rightarrow> server \<Rightarrow> server" where
  "emit e s = s\<lparr>sv_effects := sv_effects s @ [e]\<rparr>"

abbreviation (input) HORIZON_STATUS_SUCCESS :: u32 where "HORIZON_STATUS_SUCCESS \<equiv> 0"
abbreviation (input) HORIZON_STATUS_OBJECT_NAME_EXISTS :: u32 where "HORIZON_STATUS_OBJECT_NAME_EXISTS \<equiv> 0x40000000"
abbreviation (input) HORIZON_STATUS_INVALID_HANDLE :: u32 where "HORIZON_STATUS_INVALID_HANDLE \<equiv> 0xc0000008"
abbreviation (input) HORIZON_STATUS_NO_MEMORY :: u32 where "HORIZON_STATUS_NO_MEMORY \<equiv> 0xc0000017"
abbreviation (input) HORIZON_STATUS_OBJECT_TYPE_MISMATCH :: u32 where
  "HORIZON_STATUS_OBJECT_TYPE_MISMATCH \<equiv> 0xc0000024"
abbreviation (input) HORIZON_STATUS_OBJECT_NAME_NOT_FOUND :: u32 where
  "HORIZON_STATUS_OBJECT_NAME_NOT_FOUND \<equiv> 0xc0000034"
abbreviation (input) HORIZON_STATUS_NOT_SAME_OBJECT :: u32 where "HORIZON_STATUS_NOT_SAME_OBJECT \<equiv> 0xc00001ac"
abbreviation (input) HORIZON_CURRENT_THREAD_HANDLE :: u32 where "HORIZON_CURRENT_THREAD_HANDLE \<equiv> 0xfffffffe"
abbreviation (input) HORIZON_CURRENT_PROCESS_HANDLE :: u32 where "HORIZON_CURRENT_PROCESS_HANDLE \<equiv> 0xffffffff"
abbreviation (input) HORIZON_OBJECT_DIR_NAMED_OBJECTS :: nat where "HORIZON_OBJECT_DIR_NAMED_OBJECTS \<equiv> 2"

section \<open>The handle table\<close>

definition horizon_server_alloc_handle :: "server \<Rightarrow> u32 \<times> server" where
  "horizon_server_alloc_handle s =
     (let h = sv_next_handle s + 4 in (h, s\<lparr>sv_next_handle := h\<rparr>))"

definition horizon_server_handle_bucket :: "u32 \<Rightarrow> nat" where
  "horizon_server_handle_bucket handle = unat (drop_bit 2 handle AND 4095)"

definition horizon_server_find_handle_locked :: "server \<Rightarrow> u32 \<Rightarrow> horizon_server_handle_entry option" where
  "horizon_server_find_handle_locked s handle =
     List.find (\<lambda>e. he_handle e = handle) (sv_hash s (horizon_server_handle_bucket handle))"

definition horizon_server_link_handle_locked :: "server \<Rightarrow> horizon_server_handle_entry \<Rightarrow> server" where
  "horizon_server_link_handle_locked s entry =
     (let bucket = horizon_server_handle_bucket (he_handle entry)
      in s\<lparr>sv_handles := entry # sv_handles s,
           sv_hash := (sv_hash s)(bucket := entry # sv_hash s bucket)\<rparr>)"

text \<open>The list is doubly linked, so the entry is cut out where it is; the bucket is walked to it.\<close>

definition cut_entry :: "horizon_server_handle_entry \<Rightarrow> horizon_server_handle_entry list \<Rightarrow>
    horizon_server_handle_entry list" where
  "cut_entry entry es =
     (case index_of (\<lambda>e. he_addr e = he_addr entry) es of None \<Rightarrow> es | Some i \<Rightarrow> remove_at i es)"

definition horizon_server_unlink_handle_locked :: "server \<Rightarrow> horizon_server_handle_entry \<Rightarrow> server" where
  "horizon_server_unlink_handle_locked s entry =
     (let bucket = horizon_server_handle_bucket (he_handle entry)
      in s\<lparr>sv_handles := cut_entry entry (sv_handles s),
           sv_hash := (sv_hash s)(bucket := cut_entry entry (sv_hash s bucket))\<rparr>)"

text \<open>An object as \<open>calloc\<close> and the creator leave it.\<close>

definition blank_thread :: horizon_thread_state where
  "blank_thread = horizon_thread_init 0 0 0 0"

definition new_object :: "horizon_server_object_type \<Rightarrow> horizon_server_object" where
  "new_object ty = \<lparr>so_type = ty, so_refs = 1, so_waiters = [], so_manual_reset = False, so_signaled = False,
     so_count = 0, so_max = 0, so_mutex = mutex_init, so_thread = blank_thread, so_apcs = [], so_apc_last = None,
     so_rootdir = 0, so_name = [], so_directory = 0, so_timer_when = 0, so_timer_period = 0,
     so_file_fd = -1, so_file_peer_fd = -1, so_file_name = None, so_file_access = 0,
     so_file_options = 0, so_file_sharing = 0, so_file_shared = False, so_file_delete = False,
     so_file_is_dir = False, so_queue_tid = 0, so_reg_key = None, so_completion = completion_empty,
     so_completion_closed = False, so_wait_port = None,
     so_wait_msg = \<lparr>cm_ckey = 0, cm_cvalue = 0, cm_information = 0, cm_status = 0\<rparr>, so_wait_has_msg = False,
     so_file_completion = None, so_file_completion_key = 0, so_file_completion_flags = 0,
     so_mapping_shared_file = None\<rparr>"

text \<open>\<open>alloc\<close> is what the two \<open>calloc\<close>s returned: the object and the entry.\<close>

definition horizon_server_create_handle_locked ::
    "ptr option \<times> ptr option \<Rightarrow> horizon_server_object_type \<Rightarrow> server \<Rightarrow>
     (horizon_server_handle_entry \<times> server) option" where
  "horizon_server_create_handle_locked alloc ty s =
     (case alloc of
        (Some p, Some q) \<Rightarrow>
          (let (h, s1) = horizon_server_alloc_handle s;
               entry = \<lparr>he_addr = q, he_handle = h, he_access = 0, he_object = p\<rparr>;
               s2 = horizon_server_link_handle_locked s1 entry
           in Some (entry, put_object p (new_object ty) s2))
      | _ \<Rightarrow> None)"

definition horizon_server_create_handle_for_object_locked ::
    "ptr option \<Rightarrow> ptr \<Rightarrow> server \<Rightarrow> (horizon_server_handle_entry \<times> server) option" where
  "horizon_server_create_handle_for_object_locked alloc p s =
     (case alloc of
        None \<Rightarrow> None
      | Some q \<Rightarrow>
          (let (h, s1) = horizon_server_alloc_handle s;
               entry = \<lparr>he_addr = q, he_handle = h, he_access = 0, he_object = p\<rparr>;
               s2 = update_object p (\<lambda>ob. ob\<lparr>so_refs := so_refs ob + 1,
                      so_completion_closed := (if so_type ob = OBJECT_COMPLETION then False
                                               else so_completion_closed ob)\<rparr>) s1
           in Some (entry, horizon_server_link_handle_locked s2 entry)))"

definition horizon_server_object_has_handles_locked :: "server \<Rightarrow> ptr \<Rightarrow> bool" where
  "horizon_server_object_has_handles_locked s p \<longleftrightarrow> list_ex (\<lambda>e. he_object e = p) (sv_handles s)"

section \<open>Freeing\<close>

definition unlink_ptr :: "ptr \<Rightarrow> ptr list \<Rightarrow> ptr list" where
  "unlink_ptr p ps = (case index_of (\<lambda>q. q = p) ps of None \<Rightarrow> ps | Some i \<Rightarrow> remove_at i ps)"

definition horizon_server_unlink_timer_locked :: "ptr \<Rightarrow> server \<Rightarrow> server" where
  "horizon_server_unlink_timer_locked p s = s\<lparr>sv_timers := unlink_ptr p (sv_timers s)\<rparr>"

text \<open>
  \<open>horizon_server_free_object\<close> frees an object, drops the references it holds, each of which may
  free another object in the same way before the next is dropped, and then closes its key and its
  descriptors. The recursion is a work list: what is still to be released, and what is left to be
  closed when the objects before it are gone.
\<close>

datatype free_work = Release ptr | Finish horizon_server_object

definition object_refs :: "horizon_server_object \<Rightarrow> ptr list" where
  "object_refs ob = (case so_wait_port ob of None \<Rightarrow> [] | Some p \<Rightarrow> [p]) @
     (case so_file_completion ob of None \<Rightarrow> [] | Some p \<Rightarrow> [p]) @
     (case so_mapping_shared_file ob of None \<Rightarrow> [] | Some p \<Rightarrow> [p])"

definition free_begin :: "ptr \<Rightarrow> horizon_server_object \<Rightarrow> server \<Rightarrow> server" where
  "free_begin p ob s =
     (let s1 = (if so_type ob = OBJECT_TIMER then horizon_server_unlink_timer_locked p s else s);
          s2 = (if so_type ob = OBJECT_THREAD then s1\<lparr>sv_threads := unlink_ptr p (sv_threads s1)\<rparr> else s1)
      in s2\<lparr>sv_objects := fmdrop p (sv_objects s2)\<rparr>)"

definition free_finish :: "horizon_server_object \<Rightarrow> server \<Rightarrow> server" where
  "free_finish ob s =
     (let s1 = (case so_reg_key ob of None \<Rightarrow> s | Some k \<Rightarrow> emit (E_reg_release k) s);
          s2 = (if so_file_fd ob \<noteq> -1 then emit (E_close (so_file_fd ob)) s1 else s1)
      in if so_file_peer_fd ob \<noteq> -1 then emit (E_close (so_file_peer_fd ob)) s2 else s2)"

lemma sv_objects_free_finish [simp]: "sv_objects (free_finish ob s) = sv_objects s"
  by (simp add: free_finish_def emit_def Let_def split: option.splits)

lemma sv_objects_free_begin [simp]: "sv_objects (free_begin p ob s) = fmdrop p (sv_objects s)"
  by (simp add: free_begin_def horizon_server_unlink_timer_locked_def Let_def)

lemma fmap_card_pos: "fmlookup m p = Some x \<Longrightarrow> 0 < card (fset (fmdom m))"
  by (metis card_gt_0_iff empty_iff finite_fset fmdomI)

lemma fmap_insert_dom: "fmlookup m p = Some x \<Longrightarrow> insert p (fset (fmdom m)) = fset (fmdom m)"
  by (metis insert_absorb fmdomI)

function release_all :: "free_work list \<Rightarrow> server \<Rightarrow> server" where
  "release_all [] s = s"
| "release_all (Finish ob # work) s = release_all work (free_finish ob s)"
| "release_all (Release p # work) s =
     (case object_at s p of
        None \<Rightarrow> release_all work s
      | Some ob \<Rightarrow>
          (let refs = so_refs ob - 1
           in if refs = 0
              then release_all (map Release (object_refs ob) @ [Finish ob] @ work) (free_begin p ob s)
              else release_all work (put_object p (ob\<lparr>so_refs := refs\<rparr>) s)))"
  by pat_completeness auto

termination
proof (relation "measures [\<lambda>(work, s). card (fset (fmdom (sv_objects s))), \<lambda>(work, s). length work]", goal_cases)
  case (4 p work s ob refs)
  with fmap_card_pos [OF 4(1)] show ?case by (auto simp: fmdomI)
next
  case (5 p work s ob refs)
  with fmap_insert_dom [OF 5(1)] show ?case by (simp add: put_object_def)
qed simp_all

declare release_all.simps [simp del]

text \<open>\<open>if (!--object->refs) horizon_server_free_object( object );\<close>\<close>

definition release :: "ptr \<Rightarrow> server \<Rightarrow> server" where
  "release p s = release_all [Release p] s"

definition horizon_server_free_object :: "ptr \<Rightarrow> server \<Rightarrow> server" where
  "horizon_server_free_object p s =
     (case object_at s p of
        None \<Rightarrow> s
      | Some ob \<Rightarrow> release_all (map Release (object_refs ob) @ [Finish ob]) (free_begin p ob s))"

section \<open>Looking up\<close>

text \<open>\<open>me\<close> is the thread object of the connection whose request is handled.\<close>

definition horizon_server_find_handle_object_locked ::
    "ptr option \<Rightarrow> server \<Rightarrow> u32 \<Rightarrow> horizon_server_object_type option \<Rightarrow> ptr option" where
  "horizon_server_find_handle_object_locked me s handle ty =
     (if handle = 0 then None
      else (let found = (if handle = HORIZON_CURRENT_THREAD_HANDLE then me
                         else map_option he_object (horizon_server_find_handle_locked s handle))
            in case found of
                 None \<Rightarrow> None
               | Some p \<Rightarrow>
                   (case ty of
                      None \<Rightarrow> Some p
                    | Some t \<Rightarrow> if map_option so_type (object_at s p) \<noteq> Some t then None else Some p)))"

definition horizon_server_compare_object_handles :: "ptr option \<Rightarrow> server \<Rightarrow> u32 \<Rightarrow> u32 \<Rightarrow> u32" where
  "horizon_server_compare_object_handles me s h1 h2 =
     (if h1 = 0 \<or> h2 = 0 then HORIZON_STATUS_INVALID_HANDLE
      else (case (horizon_server_find_handle_object_locked me s h1 None,
                  horizon_server_find_handle_object_locked me s h2 None) of
              (Some p, Some q) \<Rightarrow> if p = q then HORIZON_STATUS_SUCCESS else HORIZON_STATUS_NOT_SAME_OBJECT
            | _ \<Rightarrow> HORIZON_STATUS_INVALID_HANDLE))"

text \<open>The status, or the object.\<close>

definition horizon_server_find_typed_object_locked ::
    "server \<Rightarrow> u32 \<Rightarrow> horizon_server_object_type \<Rightarrow> u32 + ptr" where
  "horizon_server_find_typed_object_locked s handle ty =
     (if handle = 0 then Inl HORIZON_STATUS_INVALID_HANDLE
      else (case horizon_server_find_handle_locked s handle of
              None \<Rightarrow> Inl HORIZON_STATUS_INVALID_HANDLE
            | Some entry \<Rightarrow>
                if map_option so_type (object_at s (he_object entry)) \<noteq> Some ty
                then Inl HORIZON_STATUS_OBJECT_TYPE_MISMATCH
                else Inr (he_object entry)))"

definition horizon_server_get_thread_locked :: "ptr option \<Rightarrow> server \<Rightarrow> u32 \<Rightarrow> u32 + ptr" where
  "horizon_server_get_thread_locked me s handle =
     (if handle = HORIZON_CURRENT_THREAD_HANDLE
      then (case me of None \<Rightarrow> Inl HORIZON_STATUS_INVALID_HANDLE | Some p \<Rightarrow> Inr p)
      else horizon_server_find_typed_object_locked s handle OBJECT_THREAD)"

definition horizon_process_map_access :: "u32 \<Rightarrow> u32" where
  "horizon_process_map_access access =
     (let a1 = or_if 0x80000000 0x00020410 access;
          a2 = or_if 0x40000000 0x00020bea a1;
          a3 = or_if 0x20000000 0x00121001 a2;
          a4 = or_if 0x12000000 0x001fffff a3;
          a5 = a4 AND NOT 0xf2000000;
          a6 = or_if 0x0400 0x1000 a5;
          a7 = or_if 0x0200 0x2000 a6
      in if a7 AND 0x0028 = 0x0028 then a7 OR 0x1000 else a7)"

text \<open>\<open>entry->access = acc\<close>, for an entry that is in the list and in its bucket.\<close>

definition set_access :: "ptr \<Rightarrow> u32 \<Rightarrow> server \<Rightarrow> server" where
  "set_access q acc s =
     (let set = (\<lambda>e. if he_addr e = q then e\<lparr>he_access := acc\<rparr> else e)
      in s\<lparr>sv_handles := map set (sv_handles s), sv_hash := (\<lambda>b. map set (sv_hash s b))\<rparr>)"

definition horizon_server_duplicate_object_handle ::
    "ptr option \<times> ptr option \<Rightarrow> ptr option \<Rightarrow> ptr option \<Rightarrow> server \<Rightarrow> u32 \<Rightarrow> u32 \<Rightarrow> u32 \<Rightarrow>
     (u32 \<times> u32 \<times> server)" where
  "horizon_server_duplicate_object_handle alloc_process alloc me s handle access options =
     (if handle = 0 then (HORIZON_STATUS_INVALID_HANDLE, 0, s)
      else (case alloc of
        None \<Rightarrow> (HORIZON_STATUS_NO_MEMORY, 0, s)
      | Some q \<Rightarrow>
          if handle = HORIZON_CURRENT_PROCESS_HANDLE
          then (case horizon_server_create_handle_locked alloc_process OBJECT_PROCESS s of
                  None \<Rightarrow> (HORIZON_STATUS_NO_MEMORY, 0, s)
                | Some (entry, s1) \<Rightarrow>
                    (HORIZON_STATUS_SUCCESS, he_handle entry,
                     set_access (he_addr entry)
                       (if options AND 2 \<noteq> 0 then 0x001fffff else horizon_process_map_access access) s1))
          else
            (let source =
               (if handle = HORIZON_CURRENT_THREAD_HANDLE \<and> me \<noteq> None then Some (the me, 0x001fffff)
                else map_option (\<lambda>e. (he_object e, he_access e)) (horizon_server_find_handle_locked s handle))
             in case source of
                  None \<Rightarrow> (HORIZON_STATUS_INVALID_HANDLE, 0, s)
                | Some (p, source_access) \<Rightarrow>
                    (let ty = map_option so_type (object_at s p);
                         acc = (if ty = Some OBJECT_THREAD
                                then (if options AND 2 \<noteq> 0 then source_access else horizon_thread_map_access access)
                                else if ty = Some OBJECT_PROCESS
                                then (if options AND 2 \<noteq> 0 then source_access else horizon_process_map_access access)
                                else 0);
                         (h, s1) = horizon_server_alloc_handle s;
                         s2 = update_object p (\<lambda>ob. ob\<lparr>so_refs := so_refs ob + 1\<rparr>) s1;
                         entry = \<lparr>he_addr = q, he_handle = h, he_access = acc, he_object = p\<rparr>
                     in (HORIZON_STATUS_SUCCESS, h, horizon_server_link_handle_locked s2 entry)))))"

section \<open>Names\<close>

record horizon_object_name =
  on_rootdir :: u32
  on_name :: "u8 list"

definition horizon_server_name_matches ::
    "horizon_server_object \<Rightarrow> horizon_server_object_type option \<Rightarrow> horizon_object_name \<Rightarrow> bool" where
  "horizon_server_name_matches ob ty name \<longleftrightarrow>
     \<not> (on_name name = [] \<or> so_name ob = []) \<and> \<not> so_rootdir ob \<noteq> on_rootdir name \<and>
     \<not> length (so_name ob) \<noteq> length (on_name name) \<and> \<not> so_name ob \<noteq> on_name name \<and>
     (case ty of None \<Rightarrow> True | Some t \<Rightarrow> so_type ob = t)"

definition horizon_server_name_root_locked :: "server \<Rightarrow> u32 \<Rightarrow> u32" where
  "horizon_server_name_root_locked s rootdir =
     (if rootdir \<noteq> 0
      then (case horizon_server_find_handle_locked s rootdir of
              None \<Rightarrow> rootdir
            | Some entry \<Rightarrow>
                (case object_at s (he_object entry) of
                   None \<Rightarrow> rootdir
                 | Some ob \<Rightarrow> if so_type ob = OBJECT_DIRECTORY \<and> so_directory ob = HORIZON_OBJECT_DIR_NAMED_OBJECTS
                              then 0 else rootdir))
      else rootdir)"

definition horizon_server_find_named_object_locked ::
    "server \<Rightarrow> horizon_server_object_type option \<Rightarrow> horizon_object_name \<Rightarrow> ptr option" where
  "horizon_server_find_named_object_locked s ty name =
     (let canonical = name\<lparr>on_rootdir := horizon_server_name_root_locked s (on_rootdir name)\<rparr>
      in map_option he_object
           (List.find (\<lambda>e. case object_at s (he_object e) of
                             None \<Rightarrow> False
                           | Some ob \<Rightarrow> horizon_server_name_matches ob ty canonical) (sv_handles s)))"

definition horizon_server_find_named_object_any_locked :: "server \<Rightarrow> horizon_object_name \<Rightarrow> ptr option" where
  "horizon_server_find_named_object_any_locked s name = horizon_server_find_named_object_locked s None name"

text \<open>\<open>alloc\<close> says whether there is memory for the name.\<close>

definition horizon_server_set_object_name :: "bool \<Rightarrow> ptr \<Rightarrow> horizon_object_name \<Rightarrow> server \<Rightarrow> u32 \<times> server" where
  "horizon_server_set_object_name alloc p name s =
     (if on_name name = [] then (HORIZON_STATUS_SUCCESS, s)
      else if \<not> alloc then (HORIZON_STATUS_NO_MEMORY, s)
      else (HORIZON_STATUS_SUCCESS,
            update_object p (\<lambda>ob. ob\<lparr>so_name := on_name name,
              so_rootdir := horizon_server_name_root_locked s (on_rootdir name)\<rparr>) s))"

record object_alloc =
  oa_object :: "ptr option"
  oa_entry :: "ptr option"
  oa_name :: bool

definition horizon_server_create_named_object_handle_locked ::
    "object_alloc \<Rightarrow> horizon_server_object_type \<Rightarrow> horizon_object_name \<Rightarrow> server \<Rightarrow>
     u32 \<times> horizon_server_handle_entry option \<times> server" where
  "horizon_server_create_named_object_handle_locked alloc ty name s =
     (case horizon_server_find_named_object_any_locked s name of
        Some p \<Rightarrow>
          if map_option so_type (object_at s p) \<noteq> Some ty then (HORIZON_STATUS_OBJECT_TYPE_MISMATCH, None, s)
          else (case horizon_server_create_handle_for_object_locked (oa_entry alloc) p s of
                  None \<Rightarrow> (HORIZON_STATUS_NO_MEMORY, None, s)
                | Some (entry, s1) \<Rightarrow> (HORIZON_STATUS_OBJECT_NAME_EXISTS, Some entry, s1))
      | None \<Rightarrow>
          (case horizon_server_create_handle_locked (oa_object alloc, oa_entry alloc) ty s of
             None \<Rightarrow> (HORIZON_STATUS_NO_MEMORY, None, s)
           | Some (entry, s1) \<Rightarrow>
               (let (status, s2) = horizon_server_set_object_name (oa_name alloc) (he_object entry) name s1
                in if status \<noteq> HORIZON_STATUS_SUCCESS
                   then (HORIZON_STATUS_NO_MEMORY, None,
                         horizon_server_free_object (he_object entry)
                           (horizon_server_unlink_handle_locked s2 entry))
                   else (HORIZON_STATUS_SUCCESS, Some entry, s2))))"

definition horizon_server_open_named_object_handle ::
    "ptr option \<Rightarrow> horizon_server_object_type option \<Rightarrow> horizon_object_name \<Rightarrow> server \<Rightarrow> u32 \<times> u32 \<times> server" where
  "horizon_server_open_named_object_handle alloc ty name s =
     (if on_name name = [] then (HORIZON_STATUS_OBJECT_NAME_NOT_FOUND, 0, s)
      else (case horizon_server_find_named_object_locked s ty name of
              None \<Rightarrow> (HORIZON_STATUS_OBJECT_NAME_NOT_FOUND, 0, s)
            | Some p \<Rightarrow>
                (case horizon_server_create_handle_for_object_locked alloc p s of
                   None \<Rightarrow> (HORIZON_STATUS_NO_MEMORY, 0, s)
                 | Some (entry, s1) \<Rightarrow> (HORIZON_STATUS_SUCCESS, he_handle entry, s1))))"

definition horizon_server_create_object_handle ::
    "ptr option \<times> ptr option \<Rightarrow> horizon_server_object_type \<Rightarrow> server \<Rightarrow> u32 \<times> u32 \<times> server" where
  "horizon_server_create_object_handle alloc ty s =
     (case horizon_server_create_handle_locked alloc ty s of
        None \<Rightarrow> (HORIZON_STATUS_NO_MEMORY, 0, s)
      | Some (entry, s1) \<Rightarrow> (HORIZON_STATUS_SUCCESS, he_handle entry, s1))"

section \<open>Threads\<close>

text \<open>A new thread object has no handles; the caller adds the references.\<close>

definition horizon_server_alloc_thread_locked ::
    "ptr option \<Rightarrow> u32 \<Rightarrow> u32 \<Rightarrow> u64 \<Rightarrow> int \<Rightarrow> server \<Rightarrow> (ptr \<times> server) option" where
  "horizon_server_alloc_thread_locked alloc tid pid affinity now s =
     (case alloc of
        None \<Rightarrow> None
      | Some p \<Rightarrow>
          (let ob = (new_object OBJECT_THREAD)\<lparr>so_refs := 0, so_thread := horizon_thread_init tid pid affinity now\<rparr>
           in Some (p, (put_object p ob s)\<lparr>sv_threads := p # sv_threads s,
                         sv_running_threads := sv_running_threads s + 1\<rparr>)))"

text \<open>A reference kept outside the table: \<open>object->refs++\<close>, and giving it back.\<close>

definition hold :: "ptr \<Rightarrow> server \<Rightarrow> server" where
  "hold p s = (update_object p (\<lambda>ob. ob\<lparr>so_refs := so_refs ob + 1\<rparr>) s)\<lparr>sv_holds := p # sv_holds s\<rparr>"

definition unhold :: "ptr \<Rightarrow> server \<Rightarrow> server" where
  "unhold p s = release p (s\<lparr>sv_holds := remove1 p (sv_holds s)\<rparr>)"

text \<open>The thread-local cache of the calling thread's object is the argument and the result;
  \<open>set_ok\<close> says whether \<open>pthread_setspecific\<close> succeeds.\<close>

definition horizon_sync_release_thread :: "ptr \<Rightarrow> server \<Rightarrow> server" where
  "horizon_sync_release_thread p s = unhold p s"

definition horizon_sync_get_thread_locked ::
    "bool \<Rightarrow> ptr option \<Rightarrow> u32 \<Rightarrow> server \<Rightarrow> ptr option \<times> ptr option \<times> server" where
  "horizon_sync_get_thread_locked set_ok cached tid s =
     (let find = (\<lambda>s. List.find (\<lambda>p. case object_at s p of None \<Rightarrow> False
                      | Some ob \<Rightarrow> th_tid (so_thread ob) = tid \<and> \<not> th_terminated (so_thread ob)) (sv_threads s));
          search = (\<lambda>s. case find s of
                     None \<Rightarrow> (None, None, s)
                   | Some p \<Rightarrow> if \<not> set_ok then (None, None, s) else (Some p, Some p, hold p s))
      in case cached of
           None \<Rightarrow> search s
         | Some p \<Rightarrow>
             (case object_at s p of
                None \<Rightarrow> (None, cached, s)
              | Some ob \<Rightarrow>
                  if th_tid (so_thread ob) = tid
                  then (if th_terminated (so_thread ob) then None else Some p, cached, s)
                  else if \<not> set_ok then (None, cached, s)
                  else search (unhold p s)))"

section \<open>Pointers between objects\<close>

text \<open>A completion wait is tied to a port, and a file to one, under the object lock.\<close>

definition horizon_server_bind_completion_wait_locked :: "ptr \<Rightarrow> ptr \<Rightarrow> server \<Rightarrow> server" where
  "horizon_server_bind_completion_wait_locked wait port s =
     (case object_at s wait of
        None \<Rightarrow> s
      | Some w \<Rightarrow>
          if so_wait_port w = Some port then s
          else (let s1 = update_object port (\<lambda>ob. ob\<lparr>so_refs := so_refs ob + 1\<rparr>) s;
                    s2 = (case so_wait_port w of None \<Rightarrow> s1 | Some old \<Rightarrow> release old s1)
                in update_object wait (\<lambda>w. w\<lparr>so_wait_port := Some port\<rparr>) s2))"

definition set_file_completion :: "ptr \<Rightarrow> ptr \<Rightarrow> u64 \<Rightarrow> server \<Rightarrow> server" where
  "set_file_completion file port ckey s =
     update_object file (\<lambda>f. f\<lparr>so_file_completion := Some port, so_file_completion_key := ckey\<rparr>)
       (update_object port (\<lambda>ob. ob\<lparr>so_refs := so_refs ob + 1\<rparr>) s)"

section \<open>The invariant\<close>

definition object_ref_count :: "server \<Rightarrow> ptr \<Rightarrow> nat" where
  "object_ref_count s p =
     (\<Sum>q\<in>fset (fmdom (sv_objects s)). count_list (object_refs (the (object_at s q))) p)"

definition ref_count :: "server \<Rightarrow> ptr \<Rightarrow> nat" where
  "ref_count s p = count_list (map he_object (sv_handles s)) p + count_list (sv_holds s) p + object_ref_count s p"

definition work_refs :: "free_work list \<Rightarrow> ptr \<Rightarrow> nat" where
  "work_refs work p = count_list (concat (map (\<lambda>w. case w of Release q \<Rightarrow> [q] | Finish ob \<Rightarrow> []) work)) p"

text \<open>Every object's count is the number of references to it, at least one, and every reference is
  to an object that is there. During a release the work still to do counts as well.\<close>

definition refs_inv :: "free_work list \<Rightarrow> server \<Rightarrow> bool" where
  "refs_inv work s \<longleftrightarrow>
     (\<forall>p ob. object_at s p = Some ob \<longrightarrow>
        unat (so_refs ob) = ref_count s p + work_refs work p \<and> so_refs ob \<noteq> 0) \<and>
     (\<forall>p. 0 < ref_count s p + work_refs work p \<longrightarrow> object_at s p \<noteq> None)"

text \<open>Handles and entries are unique, none is 0, all come from the counter, and each bucket of the
  hash is the part of the list that hashes to it, in the same order.\<close>

definition table_inv :: "server \<Rightarrow> bool" where
  "table_inv s \<longleftrightarrow>
     distinct (map he_handle (sv_handles s)) \<and> distinct (map he_addr (sv_handles s)) \<and>
     (\<forall>e\<in>set (sv_handles s). 0x100 < unat (he_handle e) \<and> unat (he_handle e) \<le> unat (sv_next_handle s)) \<and>
     0x100 \<le> unat (sv_next_handle s) \<and>
     (\<forall>b. sv_hash s b = filter (\<lambda>e. horizon_server_handle_bucket (he_handle e) = b) (sv_handles s))"

definition lists_inv :: "server \<Rightarrow> bool" where
  "lists_inv s \<longleftrightarrow>
     distinct (sv_threads s) \<and> distinct (sv_timers s) \<and>
     (\<forall>p\<in>set (sv_threads s). map_option so_type (object_at s p) = Some OBJECT_THREAD) \<and>
     (\<forall>p\<in>set (sv_timers s). map_option so_type (object_at s p) = Some OBJECT_TIMER)"

text \<open>Only ports are waited on or given results through, and a port points to nothing, so freeing one
  frees no other object.\<close>

definition port_at :: "server \<Rightarrow> ptr \<Rightarrow> bool" where
  "port_at s p \<longleftrightarrow> map_option so_type (object_at s p) = Some OBJECT_COMPLETION"

definition ports_inv :: "server \<Rightarrow> bool" where
  "ports_inv s \<longleftrightarrow> (\<forall>p ob. object_at s p = Some ob \<longrightarrow>
     (so_type ob = OBJECT_COMPLETION \<longrightarrow> object_refs ob = []) \<and>
     (\<forall>q. (so_wait_port ob = Some q \<or> so_file_completion ob = Some q) \<and> object_at s q \<noteq> None \<longrightarrow> port_at s q))"

definition objects_inv :: "server \<Rightarrow> bool" where
  "objects_inv s \<longleftrightarrow> table_inv s \<and> refs_inv [] s \<and> lists_inv s \<and> ports_inv s"

definition server_init :: server where
  "server_init = \<lparr>sv_objects = fmempty, sv_handles = [], sv_hash = (\<lambda>_. []), sv_next_handle = 0x100,
     sv_threads = [], sv_timers = [], sv_running_threads = 0, sv_holds = [], sv_waiters = [],
     sv_waiter = (\<lambda>_. None), sv_asyncs = async_init, sv_effects = []\<rparr>"

section \<open>Counting references\<close>

lemma work_refs_simps [simp]:
  "work_refs [] p = 0"
  "work_refs (Finish ob # work) p = work_refs work p"
  "work_refs (Release q # work) p = (if q = p then 1 else 0) + work_refs work p"
  "work_refs (w1 @ w2) p = work_refs w1 p + work_refs w2 p"
  "work_refs (map Release qs) p = count_list qs p"
  by (simp_all add: work_refs_def comp_def)

lemma object_ref_count_drop:
  assumes "object_at s p = Some ob" "sv_objects s' = fmdrop p (sv_objects s)"
  shows "object_ref_count s q = object_ref_count s' q + count_list (object_refs ob) q"
proof -
  let ?f = "\<lambda>m r. count_list (object_refs (the (fmlookup m r))) q"
  have p: "p \<in> fset (fmdom (sv_objects s))" using assms(1) by (simp add: fmdomI)
  have "object_ref_count s q = ?f (sv_objects s) p + (\<Sum>r\<in>fset (fmdom (sv_objects s)) - {p}. ?f (sv_objects s) r)"
    using p by (simp add: object_ref_count_def sum.remove)
  moreover have "(\<Sum>r\<in>fset (fmdom (sv_objects s)) - {p}. ?f (sv_objects s) r) = object_ref_count s' q"
    unfolding object_ref_count_def assms(2) by (intro sum.cong) auto
  ultimately show ?thesis using assms(1) by simp
qed

lemma object_ref_count_put:
  assumes "sv_objects s' = fmupd p ob' (sv_objects s)"
  shows "object_ref_count s' q + (case object_at s p of None \<Rightarrow> 0 | Some ob \<Rightarrow> count_list (object_refs ob) q) =
    object_ref_count s q + count_list (object_refs ob') q"
proof -
  define s1 where "s1 = s\<lparr>sv_objects := fmdrop p (sv_objects s)\<rparr>"
  have up: "object_at s' p = Some ob'" "sv_objects s1 = fmdrop p (sv_objects s')"
    by (simp_all add: assms s1_def fmap_ext)
  have 1: "object_ref_count s' q = object_ref_count s1 q + count_list (object_refs ob') q"
    by (rule object_ref_count_drop [OF up])
  show ?thesis
  proof (cases "object_at s p")
    case None
    then have "fmdrop p (sv_objects s) = sv_objects s" by (intro fmap_ext) auto
    with 1 None show ?thesis by (simp add: s1_def object_ref_count_def)
  next
    case (Some ob)
    with object_ref_count_drop [OF Some, of s1] 1 show ?thesis by (simp add: s1_def)
  qed
qed

lemma object_ref_count_cong: "sv_objects s' = sv_objects s \<Longrightarrow> object_ref_count s' = object_ref_count s"
  by (simp add: object_ref_count_def fun_eq_iff)

text \<open>A write to an object that keeps what it points to changes no count.\<close>

lemma object_ref_count_same:
  assumes "sv_objects s' = fmupd p ob' (sv_objects s)" "object_at s p = Some ob" "object_refs ob' = object_refs ob"
  shows "object_ref_count s' q = object_ref_count s q"
  using object_ref_count_put [OF assms(1), of q] assms(2,3) by simp

section \<open>Releasing\<close>

lemma free_begin_frame [simp]:
  "sv_handles (free_begin p ob s) = sv_handles s" "sv_hash (free_begin p ob s) = sv_hash s"
  "sv_next_handle (free_begin p ob s) = sv_next_handle s" "sv_holds (free_begin p ob s) = sv_holds s"
  "sv_waiters (free_begin p ob s) = sv_waiters s" "sv_waiter (free_begin p ob s) = sv_waiter s"
  "sv_asyncs (free_begin p ob s) = sv_asyncs s"
  by (simp_all add: free_begin_def horizon_server_unlink_timer_locked_def Let_def)

lemma free_finish_frame [simp]:
  "sv_handles (free_finish ob s) = sv_handles s" "sv_hash (free_finish ob s) = sv_hash s"
  "sv_next_handle (free_finish ob s) = sv_next_handle s" "sv_holds (free_finish ob s) = sv_holds s"
  "sv_waiters (free_finish ob s) = sv_waiters s" "sv_waiter (free_finish ob s) = sv_waiter s"
  "sv_asyncs (free_finish ob s) = sv_asyncs s" "sv_threads (free_finish ob s) = sv_threads s"
  "sv_timers (free_finish ob s) = sv_timers s"
  by (simp_all add: free_finish_def emit_def Let_def split: option.splits)

lemma put_object_frame [simp]:
  "sv_handles (put_object p ob s) = sv_handles s" "sv_hash (put_object p ob s) = sv_hash s"
  "sv_next_handle (put_object p ob s) = sv_next_handle s" "sv_holds (put_object p ob s) = sv_holds s"
  "sv_waiters (put_object p ob s) = sv_waiters s" "sv_waiter (put_object p ob s) = sv_waiter s"
  "sv_asyncs (put_object p ob s) = sv_asyncs s" "sv_threads (put_object p ob s) = sv_threads s"
  "sv_timers (put_object p ob s) = sv_timers s" "sv_effects (put_object p ob s) = sv_effects s"
  "sv_objects (put_object p ob s) = fmupd p ob (sv_objects s)"
  by (simp_all add: put_object_def)

definition table_part where
  "table_part s = (sv_handles s, sv_hash s, sv_next_handle s, sv_holds s, sv_waiters s, sv_waiter s, sv_asyncs s)"

lemma table_part_free [simp]:
  "table_part (free_begin p ob s) = table_part s" "table_part (free_finish ob s) = table_part s"
  "table_part (put_object p ob s) = table_part s"
  by (simp_all add: table_part_def)

text \<open>What each step of a release keeps, the whole of it keeps.\<close>

lemma release_all_keeps:
  assumes fin: "\<And>ob s. P s \<Longrightarrow> P (free_finish ob s)"
    and beg: "\<And>p ob s. P s \<Longrightarrow> object_at s p = Some ob \<Longrightarrow> P (free_begin p ob s)"
    and dec: "\<And>p ob s. P s \<Longrightarrow> object_at s p = Some ob \<Longrightarrow> P (put_object p (ob\<lparr>so_refs := so_refs ob - 1\<rparr>) s)"
  shows "P s \<Longrightarrow> P (release_all work s)"
proof (induction work s rule: release_all.induct)
  case (3 p work s)
  show ?case
  proof (cases "object_at s p")
    case None
    with 3 show ?thesis by (simp add: release_all.simps)
  next
    case (Some ob)
    with 3 beg [OF "3.prems" Some] dec [OF "3.prems" Some] show ?thesis
      by (cases "so_refs ob - 1 = 0") (simp_all add: release_all.simps(3) Let_def)
  qed
qed (simp_all add: release_all.simps fin)

lemma release_all_table [simp]: "table_part (release_all work s) = table_part s"
  by (rule release_all_keeps [where P = "\<lambda>t. table_part t = table_part s"]) simp_all

lemma release_all_frame [simp]:
  "sv_handles (release_all work s) = sv_handles s" "sv_hash (release_all work s) = sv_hash s"
  "sv_next_handle (release_all work s) = sv_next_handle s" "sv_holds (release_all work s) = sv_holds s"
  "sv_waiters (release_all work s) = sv_waiters s" "sv_waiter (release_all work s) = sv_waiter s"
  "sv_asyncs (release_all work s) = sv_asyncs s"
  using release_all_table [of work s] by (simp_all add: table_part_def del: release_all_table)

lemma refs_inv_cong:
  assumes "refs_inv work s" "\<And>p. object_at s' p = object_at s p" "\<And>p. ref_count s' p + work_refs work' p = ref_count s p + work_refs work p"
  shows "refs_inv work' s'"
  using assms by (simp add: refs_inv_def)

lemma ref_count_finish [simp]: "ref_count (free_finish ob s) p = ref_count s p"
  using object_ref_count_cong [of "free_finish ob s" s] by (simp add: ref_count_def)

lemma release_all_refs: "refs_inv work s \<Longrightarrow> refs_inv [] (release_all work s)"
proof (induction work s rule: release_all.induct)
  case (1 s)
  then show ?case by (simp add: release_all.simps)
next
  case (2 ob work s)
  have "refs_inv work (free_finish ob s)"
    using "2.prems" by (rule refs_inv_cong) simp_all
  with "2.IH" show ?case by (simp add: release_all.simps)
next
  case (3 p work s)
  have "object_at s p \<noteq> None" using "3.prems" by (simp add: refs_inv_def)
  then obtain ob where ob: "object_at s p = Some ob" by blast
  define refs where "refs = so_refs ob - 1"
  have tot: "unat (so_refs ob) = Suc (ref_count s p + work_refs work p)" and nz: "so_refs ob \<noteq> 0"
    using "3.prems" ob by (auto simp: refs_inv_def)
  have un: "unat refs = ref_count s p + work_refs work p"
    using tot unat_minus_one [OF nz] by (simp add: refs_def)
  show ?case
  proof (cases "refs = 0")
    case True
    let ?s = "free_begin p ob s" and ?w = "map Release (object_refs ob) @ [Finish ob] @ work"
    have cnt: "ref_count ?s q + work_refs ?w q + (if q = p then 1 else 0) = ref_count s q + work_refs (Release p # work) q" for q
      using object_ref_count_drop [OF ob, of ?s q] by (simp add: ref_count_def)
    have none: "ref_count ?s p + work_refs ?w p = 0" using cnt [of p] un True by simp
    have "refs_inv ?w ?s"
      unfolding refs_inv_def
    proof (intro conjI allI impI)
      fix q ob'
      assume q: "object_at ?s q = Some ob'"
      then have "q \<noteq> p" "object_at s q = Some ob'" by (auto split: if_splits)
      with "3.prems" cnt [of q] show "unat (so_refs ob') = ref_count ?s q + work_refs ?w q" "so_refs ob' \<noteq> 0"
        by (auto simp: refs_inv_def)
    next
      fix q
      assume pos: "0 < ref_count ?s q + work_refs ?w q"
      then have "q \<noteq> p" using none by auto
      with pos "3.prems" cnt [of q] show "object_at ?s q \<noteq> None" by (auto simp: refs_inv_def)
    qed
    with "3.IH"(2) [OF ob refs_def True] ob True show ?thesis
      by (simp add: release_all.simps refs_def Let_def)
  next
    case False
    let ?s = "put_object p (ob\<lparr>so_refs := refs\<rparr>) s"
    have cnt: "ref_count ?s q = ref_count s q" for q
      using object_ref_count_same [of ?s p "ob\<lparr>so_refs := refs\<rparr>" s ob q] ob
      by (simp add: ref_count_def object_refs_def)
    have "refs_inv work ?s"
      using "3.prems" False un by (auto simp: refs_inv_def cnt split: if_splits)
    with "3.IH"(3) [OF ob refs_def False] ob False show ?thesis
      by (simp add: release_all.simps refs_def Let_def)
  qed
qed

text \<open>Freeing takes an object out of the lists it is in.\<close>

lemma unlink_ptr_remove1: "unlink_ptr p ps = remove1 p ps"
  by (induction ps) (auto simp: unlink_ptr_def remove_at_def split: option.splits)

lemma lists_free_begin:
  assumes "lists_inv s" "object_at s p = Some ob"
  shows "lists_inv (free_begin p ob s)"
proof -
  have t: "p \<in> set (sv_threads s) \<Longrightarrow> so_type ob = OBJECT_THREAD" "p \<in> set (sv_timers s) \<Longrightarrow> so_type ob = OBJECT_TIMER"
    using assms by (auto simp: lists_inv_def)
  have keep: "p \<notin> set ps \<Longrightarrow> remove1 p ps = ps" for ps by (rule remove1_idem)
  have "sv_threads (free_begin p ob s) = remove1 p (sv_threads s)"
    using t(1) keep [of "sv_threads s"]
    by (cases "p \<in> set (sv_threads s)")
      (auto simp: free_begin_def horizon_server_unlink_timer_locked_def unlink_ptr_remove1 Let_def)
  moreover have "sv_timers (free_begin p ob s) = remove1 p (sv_timers s)"
    using t(2) keep [of "sv_timers s"]
    by (cases "p \<in> set (sv_timers s)")
      (auto simp: free_begin_def horizon_server_unlink_timer_locked_def unlink_ptr_remove1 Let_def)
  ultimately show ?thesis using assms(1) by (auto simp: lists_inv_def)
qed

lemma lists_put:
  assumes "lists_inv s" "map_option so_type (object_at s p) = Some (so_type ob)"
  shows "lists_inv (put_object p ob s)"
  using assms by (auto simp: lists_inv_def)

lemma release_all_lists: "lists_inv s \<Longrightarrow> lists_inv (release_all work s)"
proof (erule release_all_keeps [rotated -1])
  show "lists_inv (free_finish ob s)" if "lists_inv s" for ob s
    using that by (simp add: lists_inv_def)
qed (auto intro: lists_free_begin lists_put)

text \<open>What of an object the references and the ports depend on.\<close>

definition shape where
  "shape ob = (so_type ob, so_wait_port ob, so_file_completion ob, so_mapping_shared_file ob)"

lemma shape_refs: "shape ob' = shape ob \<Longrightarrow> object_refs ob' = object_refs ob"
  by (simp add: shape_def object_refs_def)

lemma shape_type: "shape ob' = shape ob \<Longrightarrow> so_type ob' = so_type ob"
  by (simp add: shape_def)

lemma ports_drop:
  "ports_inv s \<Longrightarrow> sv_objects s' = fmdrop p (sv_objects s) \<Longrightarrow> ports_inv s'"
  by (auto simp: ports_inv_def port_at_def split: if_splits)

lemma ports_put:
  assumes "ports_inv s" "object_at s p = Some ob" "shape ob' = shape ob" "sv_objects s' = fmupd p ob' (sv_objects s)"
  shows "ports_inv s'"
proof -
  have r: "object_refs ob' = object_refs ob" using assms(3) by (rule shape_refs)
  have "port_at s' q = port_at s q" for q using assms(2-4) by (auto simp: port_at_def shape_def)
  then show ?thesis
    using assms(1-4) r by (auto simp: ports_inv_def shape_def split: if_splits)
qed

lemma ports_cong: "sv_objects s' = sv_objects s \<Longrightarrow> ports_inv s' = ports_inv s"
  by (simp add: ports_inv_def port_at_def)

lemma release_all_ports: "ports_inv s \<Longrightarrow> ports_inv (release_all work s)"
proof (erule release_all_keeps [rotated -1])
  show "ports_inv (free_finish ob s)" if "ports_inv s" for ob s
    using that ports_cong [of "free_finish ob s" s] by simp
  show "ports_inv (free_begin p ob s)" if "ports_inv s" "object_at s p = Some ob" for p ob s
    using that(1) by (rule ports_drop) simp
  show "ports_inv (put_object p (ob\<lparr>so_refs := so_refs ob - 1\<rparr>) s)" if "ports_inv s" "object_at s p = Some ob" for p ob s
    by (rule ports_put [OF that, where ob' = "ob\<lparr>so_refs := so_refs ob - 1\<rparr>"]) (simp_all add: shape_def)
qed

lemma table_inv_cong: "table_part s' = table_part s \<Longrightarrow> table_inv s' = table_inv s"
  by (simp add: table_inv_def table_part_def)

lemma release_all_inv:
  assumes "table_inv s" "refs_inv work s" "lists_inv s" "ports_inv s"
  shows "objects_inv (release_all work s)"
  using assms release_all_refs release_all_lists release_all_ports table_inv_cong [OF release_all_table]
  by (simp add: objects_inv_def)

section \<open>The table\<close>

lemma find_filter: "(\<And>x. P x \<Longrightarrow> Q x) \<Longrightarrow> List.find P (filter Q xs) = List.find P xs"
  by (induction xs) auto

text \<open>The hash finds what a search of the whole list would.\<close>

lemma find_handle_list:
  "table_inv s \<Longrightarrow> horizon_server_find_handle_locked s h = List.find (\<lambda>e. he_handle e = h) (sv_handles s)"
  by (auto simp: horizon_server_find_handle_locked_def table_inv_def intro!: find_filter)

lemma find_handle_mem:
  "table_inv s \<Longrightarrow> horizon_server_find_handle_locked s h = Some e \<Longrightarrow> e \<in> set (sv_handles s) \<and> he_handle e = h"
  by (auto simp: find_handle_list dest: find_mem)

lemma find_handle_live:
  assumes "objects_inv s" "horizon_server_find_handle_locked s h = Some e"
  shows "\<exists>ob. object_at s (he_object e) = Some ob"
proof -
  have "e \<in> set (sv_handles s)" using assms find_handle_mem by (auto simp: objects_inv_def)
  then have "0 < ref_count s (he_object e)" by (auto simp: ref_count_def count_list_0_iff intro: gr0I)
  then show ?thesis using assms(1) by (auto simp: objects_inv_def refs_inv_def)
qed

lemma cut_entry_remove1:
  "(\<And>x. x \<in> set es \<Longrightarrow> he_addr x = he_addr e \<Longrightarrow> x = e) \<Longrightarrow> cut_entry e es = remove1 e es"
proof (induction es)
  case Nil
  then show ?case by (simp add: cut_entry_def)
next
  case (Cons x es)
  then have "cut_entry e es = remove1 e es" by simp
  with Cons.prems [of x] show ?case
    by (auto simp: cut_entry_def remove_at_def split: option.splits)
qed

lemma distinct_map_eq: "distinct (map f xs) \<Longrightarrow> x \<in> set xs \<Longrightarrow> y \<in> set xs \<Longrightarrow> f x = f y \<Longrightarrow> x = y"
  by (auto simp: distinct_map inj_on_def)

lemma unlink_handles:
  assumes "table_inv s" "e \<in> set (sv_handles s)"
  shows "sv_handles (horizon_server_unlink_handle_locked s e) = remove1 e (sv_handles s)"
    and "table_inv (horizon_server_unlink_handle_locked s e)"
proof -
  have d: "distinct (map he_addr (sv_handles s))" "distinct (map he_handle (sv_handles s))"
    using assms(1) by (auto simp: table_inv_def)
  have uniq: "x = e" if "x \<in> set (sv_handles s)" "he_addr x = he_addr e" for x
    using distinct_map_eq [OF d(1)] that assms(2) by blast
  show h: "sv_handles (horizon_server_unlink_handle_locked s e) = remove1 e (sv_handles s)"
    using uniq by (simp add: horizon_server_unlink_handle_locked_def cut_entry_remove1 Let_def)
  have "sv_hash (horizon_server_unlink_handle_locked s e) b =
      filter (\<lambda>x. horizon_server_handle_bucket (he_handle x) = b) (remove1 e (sv_handles s))" for b
  proof (cases "b = horizon_server_handle_bucket (he_handle e)")
    case True
    have "cut_entry e (sv_hash s b) = remove1 e (sv_hash s b)"
      using uniq assms(1) by (intro cut_entry_remove1) (auto simp: table_inv_def)
    with True assms(1) show ?thesis
      by (simp add: horizon_server_unlink_handle_locked_def Let_def table_inv_def filter_remove1)
  next
    case False
    with assms(1) show ?thesis
      by (simp add: horizon_server_unlink_handle_locked_def Let_def table_inv_def filter_remove1 remove1_idem)
  qed
  then have hash: "\<forall>b. sv_hash (horizon_server_unlink_handle_locked s e) b =
      filter (\<lambda>x. horizon_server_handle_bucket (he_handle x) = b) (sv_handles (horizon_server_unlink_handle_locked s e))"
    by (simp add: h)
  have nh: "sv_next_handle (horizon_server_unlink_handle_locked s e) = sv_next_handle s"
    by (simp add: horizon_server_unlink_handle_locked_def Let_def)
  have sub: "set (remove1 e (sv_handles s)) \<subseteq> set (sv_handles s)" by (rule set_remove1_subset)
  have dd: "distinct (map he_handle (remove1 e (sv_handles s)))" "distinct (map he_addr (remove1 e (sv_handles s)))"
    using d sub by (auto simp: distinct_map distinct_remove1 intro: inj_on_subset)
  show "table_inv (horizon_server_unlink_handle_locked s e)"
    unfolding table_inv_def nh using assms(1) dd sub hash by (auto simp: table_inv_def h)
qed

text \<open>A new entry gets the next handle of the counter.\<close>

lemma unat_next_handle: "unat (n :: u32) + 4 < 2 ^ 32 \<Longrightarrow> unat (n + 4) = unat n + 4"
  by (simp add: unat_word_ariths)

lemma link_table:
  assumes "table_inv s" "unat (sv_next_handle s) + 4 < 2 ^ 32" "q \<notin> he_addr ` set (sv_handles s)"
    and e: "he_addr e = q" "he_handle e = sv_next_handle s + 4"
  shows "table_inv (horizon_server_link_handle_locked (s\<lparr>sv_next_handle := sv_next_handle s + 4\<rparr>) e)"
proof -
  note n = unat_next_handle [OF assms(2)]
  have "he_handle e \<noteq> he_handle x" if "x \<in> set (sv_handles s)" for x
    using that assms(1) n e(2) by (fastforce simp: table_inv_def)
  then show ?thesis
    using assms n by (fastforce simp: table_inv_def horizon_server_link_handle_locked_def Let_def)
qed

section \<open>Operations on handles keep the invariant\<close>

text \<open>What an allocation of handles asks of its caller: memory is new, and the counter has room.\<close>

definition fresh_entry :: "ptr \<Rightarrow> server \<Rightarrow> bool" where
  "fresh_entry q s \<longleftrightarrow> q \<notin> he_addr ` set (sv_handles s) \<and> unat (sv_next_handle s) + 4 < 2 ^ 32"

definition fresh_object :: "ptr \<Rightarrow> server \<Rightarrow> bool" where
  "fresh_object p s \<longleftrightarrow> object_at s p = None"

lemma unreferenced:
  assumes "objects_inv s" "object_at s p = None"
  shows "ref_count s p = 0" "p \<notin> set (sv_threads s)" "p \<notin> set (sv_timers s)"
  using assms by (auto simp: objects_inv_def refs_inv_def lists_inv_def)

text \<open>The tables after one more entry for \<open>p\<close>.\<close>

definition add_entry :: "ptr \<Rightarrow> u32 \<Rightarrow> ptr \<Rightarrow> server \<Rightarrow> server" where
  "add_entry q acc p s = horizon_server_link_handle_locked (s\<lparr>sv_next_handle := sv_next_handle s + 4\<rparr>)
     \<lparr>he_addr = q, he_handle = sv_next_handle s + 4, he_access = acc, he_object = p\<rparr>"

lemma add_entry_simps [simp]:
  "sv_objects (add_entry q acc p s) = sv_objects s" "sv_holds (add_entry q acc p s) = sv_holds s"
  "sv_threads (add_entry q acc p s) = sv_threads s" "sv_timers (add_entry q acc p s) = sv_timers s"
  "map he_object (sv_handles (add_entry q acc p s)) = p # map he_object (sv_handles s)"
  by (simp_all add: add_entry_def horizon_server_link_handle_locked_def Let_def)

lemma ref_count_add_entry: "ref_count (add_entry q acc p s) r = ref_count s r + (if r = p then 1 else 0)"
  using object_ref_count_cong [of "add_entry q acc p s" s] by (simp add: ref_count_def)

lemma add_entry_table:
  "table_inv s \<Longrightarrow> fresh_entry q s \<Longrightarrow> table_inv (add_entry q acc p s)"
  unfolding add_entry_def fresh_entry_def by (rule link_table) auto

lemma put_table [simp]: "table_inv (put_object p ob s) = table_inv s"
  by (rule table_inv_cong) simp

lemma ref_count_put:
  assumes "object_at s p = None \<Longrightarrow> object_refs ob' = []"
    "\<And>ob. object_at s p = Some ob \<Longrightarrow> object_refs ob' = object_refs ob"
  shows "ref_count (put_object p ob' s) q = ref_count s q"
  using assms object_ref_count_put [of "put_object p ob' s" p ob' s q]
  by (cases "object_at s p") (simp_all add: ref_count_def)

lemma new_object_simps [simp]: "object_refs (new_object ty) = []" "so_refs (new_object ty) = 1" "so_type (new_object ty) = ty"
  by (simp_all add: object_refs_def new_object_def)

lemma create_handle_eq:
  "horizon_server_create_handle_locked (Some p, Some q) ty s =
     Some (\<lparr>he_addr = q, he_handle = sv_next_handle s + 4, he_access = 0, he_object = p\<rparr>,
           put_object p (new_object ty) (add_entry q 0 p s))"
  by (simp add: horizon_server_create_handle_locked_def horizon_server_alloc_handle_def add_entry_def Let_def)

lemma create_handle_inv:
  assumes inv: "objects_inv s" and f: "fresh_object p s" "fresh_entry q s"
  shows "objects_inv (put_object p (new_object ty) (add_entry q acc p s))"
proof -
  let ?s = "put_object p (new_object ty) (add_entry q acc p s)"
  have none: "object_at s p = None" using f(1) by (simp add: fresh_object_def)
  note un = unreferenced [OF inv none]
  have cnt: "ref_count ?s r = ref_count s r + (if r = p then 1 else 0)" for r
    using ref_count_put [of "add_entry q acc p s" p "new_object ty" r] none
    by (simp add: ref_count_add_entry)
  have "refs_inv [] ?s" using inv un(1) by (auto simp: objects_inv_def refs_inv_def cnt)
  moreover have "lists_inv ?s" using inv un(2,3) by (auto simp: objects_inv_def lists_inv_def)
  moreover have "ports_inv ?s"
  proof -
    have "so_wait_port ob \<noteq> Some p \<and> so_file_completion ob \<noteq> Some p" if "object_at s r = Some ob" for r ob
    proof -
      have "count_list (object_refs ob) p \<le> object_ref_count s p"
        using object_ref_count_drop [OF that, of "s\<lparr>sv_objects := fmdrop r (sv_objects s)\<rparr>" p] by simp
      then have "p \<notin> set (object_refs ob)" using un(1) by (simp add: ref_count_def count_list_0_iff)
      then show ?thesis by (auto simp: object_refs_def)
    qed
    then show ?thesis
      using inv none by (auto simp: objects_inv_def ports_inv_def port_at_def new_object_def object_refs_def)
  qed
  ultimately show ?thesis using inv f(2) by (simp add: objects_inv_def add_entry_table)
qed

text \<open>One more reference to an object, whoever holds it.\<close>

definition refs_room :: "ptr \<Rightarrow> server \<Rightarrow> bool" where
  "refs_room p s \<longleftrightarrow> (case object_at s p of None \<Rightarrow> False | Some ob \<Rightarrow> unat (so_refs ob) + 1 < 2 ^ 32)"

lemma more_refs_inv:
  assumes inv: "refs_inv [] s" and ob: "object_at s p = Some ob" and room: "unat (so_refs ob) + 1 < 2 ^ 32"
    and s': "sv_objects s' = fmupd p ob' (sv_objects s)" "so_refs ob' = so_refs ob + 1"
    and cnt: "\<And>r. ref_count s' r = ref_count s r + (if r = p then 1 else 0)"
  shows "refs_inv [] s'"
proof -
  have "unat (so_refs ob + 1) = unat (so_refs ob) + 1" using room by (simp add: unat_word_ariths)
  moreover from this have "so_refs ob + 1 \<noteq> 0" by (metis add_is_0 one_neq_zero unat_0)
  ultimately show ?thesis using inv ob s' by (auto simp: refs_inv_def cnt)
qed

lemma dup_entry_inv:
  assumes inv: "objects_inv s" and room: "refs_room p s" "fresh_entry q s"
    and f: "\<And>ob. so_refs (f ob) = so_refs ob + 1" "\<And>ob. shape (f ob) = shape ob"
  shows "objects_inv (add_entry q acc p (update_object p f s))"
proof -
  from room(1) obtain ob where ob: "object_at s p = Some ob" "unat (so_refs ob) + 1 < 2 ^ 32"
    by (auto simp: refs_room_def split: option.splits)
  have up: "update_object p f s = put_object p (f ob) s" by (simp add: update_object_def ob)
  have cnt: "ref_count (add_entry q acc p (put_object p (f ob) s)) r = ref_count s r + (if r = p then 1 else 0)" for r
    using ref_count_put [of s p "f ob" r] ob(1) shape_refs [OF f(2)] by (simp add: ref_count_add_entry)
  have "refs_inv [] (add_entry q acc p (put_object p (f ob) s))"
    by (rule more_refs_inv [OF _ ob(1) ob(2) _ f(1) cnt]) (use inv in \<open>auto simp: objects_inv_def\<close>)
  moreover have "lists_inv (put_object p (f ob) s)"
    using inv ob shape_type [OF f(2)] by (intro lists_put) (auto simp: objects_inv_def)
  then have "lists_inv (add_entry q acc p (put_object p (f ob) s))" by (simp add: lists_inv_def)
  moreover have "table_inv (put_object p (f ob) s)" "fresh_entry q (put_object p (f ob) s)"
    using inv room(2) by (simp_all add: objects_inv_def fresh_entry_def)
  then have "table_inv (add_entry q acc p (put_object p (f ob) s))" by (rule add_entry_table)
  moreover have "ports_inv (add_entry q acc p (put_object p (f ob) s))"
    using inv ports_put [of s p ob "f ob" "add_entry q acc p (put_object p (f ob) s)"] ob(1) f(2) [of ob]
    by (simp add: objects_inv_def)
  ultimately show ?thesis by (simp add: objects_inv_def up)
qed

lemma put_next_handle:
  "put_object p ob (s\<lparr>sv_next_handle := n\<rparr>) = (put_object p ob s)\<lparr>sv_next_handle := n\<rparr>"
  by (simp add: put_object_def)

lemma create_handle_for_object_eq:
  "horizon_server_create_handle_for_object_locked (Some q) p s =
     Some (\<lparr>he_addr = q, he_handle = sv_next_handle s + 4, he_access = 0, he_object = p\<rparr>,
       add_entry q 0 p (update_object p (\<lambda>ob. ob\<lparr>so_refs := so_refs ob + 1,
         so_completion_closed := (if so_type ob = OBJECT_COMPLETION then False else so_completion_closed ob)\<rparr>) s))"
  by (cases "object_at s p")
    (simp_all add: horizon_server_create_handle_for_object_locked_def horizon_server_alloc_handle_def add_entry_def
      update_object_def put_next_handle Let_def)

lemma create_handle_for_object_inv:
  assumes "objects_inv s" "refs_room p s" "fresh_entry q s"
    "horizon_server_create_handle_for_object_locked (Some q) p s = Some (e, s')"
  shows "objects_inv s'"
  using assms(4) unfolding create_handle_for_object_eq
  by (auto intro!: dup_entry_inv [OF assms(1-3)] simp: shape_def)

lemma hold_inv:
  assumes inv: "objects_inv s" and room: "refs_room p s"
  shows "objects_inv (hold p s)"
proof -
  from room obtain ob where ob: "object_at s p = Some ob" "unat (so_refs ob) + 1 < 2 ^ 32"
    by (auto simp: refs_room_def split: option.splits)
  let ?ob = "ob\<lparr>so_refs := so_refs ob + 1\<rparr>" and ?s = "hold p s"
  have h: "sv_objects ?s = fmupd p ?ob (sv_objects s)" "sv_handles ?s = sv_handles s" "sv_holds ?s = p # sv_holds s"
    "sv_hash ?s = sv_hash s" "sv_next_handle ?s = sv_next_handle s" "sv_threads ?s = sv_threads s" "sv_timers ?s = sv_timers s"
    by (simp_all add: hold_def update_object_def ob)
  have "object_ref_count ?s r = object_ref_count s r" for r
    by (rule object_ref_count_same [OF h(1) ob(1)]) (simp add: object_refs_def)
  then have cnt: "ref_count ?s r = ref_count s r + (if r = p then 1 else 0)" for r
    by (simp add: ref_count_def h)
  have "refs_inv [] ?s"
    by (rule more_refs_inv [OF _ ob(1) ob(2) h(1) _ cnt]) (use inv in \<open>auto simp: objects_inv_def\<close>)
  moreover have "table_inv ?s" "lists_inv ?s"
    using inv ob(1) by (auto simp: objects_inv_def table_inv_def lists_inv_def h)
  moreover have "ports_inv ?s"
    using inv by (intro ports_put [OF _ ob(1) _ h(1)]) (simp_all add: objects_inv_def shape_def)
  ultimately show ?thesis by (simp add: objects_inv_def)
qed

lemma count_list_map_remove1:
  "e \<in> set es \<Longrightarrow> count_list (map f es) y = count_list (map f (remove1 e es)) y + (if y = f e then 1 else 0)"
proof (induction es)
  case Nil
  then show ?case by simp
next
  case (Cons x es)
  show ?case
  proof (cases "x = e")
    case True
    then show ?thesis by simp
  next
    case False
    with Cons have "count_list (map f es) y = count_list (map f (remove1 e es)) y + (if y = f e then 1 else 0)" by simp
    with False show ?thesis by (simp only: list.map count_list.simps remove1.simps if_False) simp
  qed
qed

lemma unhold_inv:
  assumes inv: "objects_inv s" and p: "p \<in> set (sv_holds s)"
  shows "objects_inv (unhold p s)"
proof -
  let ?s = "s\<lparr>sv_holds := remove1 p (sv_holds s)\<rparr>"
  have cnt: "ref_count ?s r + work_refs [Release p] r = ref_count s r + work_refs [] r" for r
    using count_list_map_remove1 [OF p, of "\<lambda>x. x" r] object_ref_count_cong [of ?s s]
    by (cases "r = p") (simp_all add: ref_count_def)
  have "refs_inv [Release p] ?s"
    by (rule refs_inv_cong [where s = s and work = "[]"]) (use inv cnt in \<open>auto simp: objects_inv_def\<close>)
  moreover have "table_inv ?s" "lists_inv ?s"
    using inv by (simp_all add: objects_inv_def table_inv_def lists_inv_def)
  moreover have "ports_inv ?s" using inv ports_cong [of ?s s] by (simp add: objects_inv_def)
  ultimately show ?thesis by (simp add: unhold_def release_def release_all_inv)
qed

text \<open>Taking an entry out leaves one reference to give back.\<close>

lemma unlink_refs:
  assumes inv: "objects_inv s" and e: "e \<in> set (sv_handles s)"
  defines "s' \<equiv> horizon_server_unlink_handle_locked s e"
  shows "refs_inv [Release (he_object e)] s'" "table_inv s'" "lists_inv s'" "ports_inv s'"
proof -
  have t: "table_inv s" using inv by (simp add: objects_inv_def)
  have h: "sv_handles s' = remove1 e (sv_handles s)" "table_inv s'"
    using unlink_handles [OF t e] by (simp_all add: s'_def)
  have o: "sv_objects s' = sv_objects s" "sv_holds s' = sv_holds s" "sv_threads s' = sv_threads s" "sv_timers s' = sv_timers s"
    by (simp_all add: s'_def horizon_server_unlink_handle_locked_def Let_def)
  have cnt: "ref_count s' r + work_refs [Release (he_object e)] r = ref_count s r + work_refs [] r" for r
    using count_list_map_remove1 [OF e, of he_object r] object_ref_count_cong [of s' s]
    by (simp add: ref_count_def h o)
  show "refs_inv [Release (he_object e)] s'"
    by (rule refs_inv_cong [where s = s and work = "[]"]) (use inv cnt o in \<open>auto simp: objects_inv_def\<close>)
  show "table_inv s'" by (rule h)
  show "lists_inv s'" using inv by (simp add: objects_inv_def lists_inv_def o)
  show "ports_inv s'" using inv ports_cong [OF o(1)] by (simp add: objects_inv_def)
qed


lemma unlink_release_inv:
  assumes "objects_inv s" "e \<in> set (sv_handles s)"
  shows "objects_inv (release (he_object e) (horizon_server_unlink_handle_locked s e))"
  unfolding release_def using unlink_refs [OF assms] by (intro release_all_inv)

lemma free_object_release:
  "object_at s p = Some ob \<Longrightarrow> so_refs ob = 1 \<Longrightarrow> horizon_server_free_object p s = release p s"
  by (simp add: horizon_server_free_object_def release_def release_all.simps(3) Let_def)

text \<open>Writes that touch neither references nor pointers.\<close>

lemma update_object_table [simp]: "table_part (update_object p f s) = table_part s"
  by (simp add: update_object_def split: option.splits)

lemma update_inv:
  assumes inv: "objects_inv s" and f: "\<And>ob. shape (f ob) = shape ob" "\<And>ob. so_refs (f ob) = so_refs ob"
  shows "objects_inv (update_object p f s)"
proof (cases "object_at s p")
  case None
  with inv show ?thesis by (simp add: update_object_def)
next
  case (Some ob)
  let ?s = "put_object p (f ob) s"
  have cnt: "ref_count ?s q = ref_count s q" for q
    using Some shape_refs [OF f(1)] by (intro ref_count_put) simp_all
  have "refs_inv [] ?s" using inv Some f(2) by (auto simp: objects_inv_def refs_inv_def cnt)
  moreover have "lists_inv ?s" using inv Some shape_type [OF f(1)] by (intro lists_put) (auto simp: objects_inv_def)
  moreover have "ports_inv ?s"
    using inv ports_put [of s p ob "f ob" ?s] Some f(1) [of ob] by (simp add: objects_inv_def)
  ultimately show ?thesis using inv Some by (simp add: update_object_def objects_inv_def)
qed

definition named_ok :: "object_alloc \<Rightarrow> server \<Rightarrow> bool" where
  "named_ok alloc s \<longleftrightarrow>
     (case oa_object alloc of None \<Rightarrow> True | Some p \<Rightarrow> fresh_object p s) \<and>
     (case oa_entry alloc of None \<Rightarrow> True | Some q \<Rightarrow> fresh_entry q s) \<and>
     (\<forall>p. object_at s p \<noteq> None \<longrightarrow> refs_room p s)"

lemma find_named_live:
  assumes "horizon_server_find_named_object_locked s ty name = Some p"
  shows "object_at s p \<noteq> None"
  using assms
  by (auto simp: horizon_server_find_named_object_locked_def Let_def dest!: find_mem split: option.splits)

lemma create_named_inv:
  assumes inv: "objects_inv s" and ok: "named_ok alloc s"
    and c: "horizon_server_create_named_object_handle_locked alloc ty name s = (status, e, s')"
  shows "objects_inv s'"
proof (cases "horizon_server_find_named_object_any_locked s name")
  case (Some p)
  then have live: "object_at s p \<noteq> None"
    by (auto simp: horizon_server_find_named_object_any_locked_def dest: find_named_live)
  then have room: "refs_room p s" using ok by (simp add: named_ok_def)
  show ?thesis
  proof (cases "oa_entry alloc")
    case None
    with Some c inv show ?thesis
      by (auto simp: horizon_server_create_named_object_handle_locked_def
          horizon_server_create_handle_for_object_locked_def split: if_splits)
  next
    case q: (Some q)
    have fq: "fresh_entry q s" using ok q by (simp add: named_ok_def)
    show ?thesis
      using Some c inv q create_handle_for_object_inv [OF inv room fq]
      by (auto simp: horizon_server_create_named_object_handle_locked_def split: if_splits option.splits prod.splits)
  qed
next
  case None
  show ?thesis
  proof (cases "\<exists>p q. oa_object alloc = Some p \<and> oa_entry alloc = Some q")
    case False
    with None c inv show ?thesis
      by (auto simp: horizon_server_create_named_object_handle_locked_def
          horizon_server_create_handle_locked_def split: option.splits)
  next
    case True
    then obtain p q where pq: "oa_object alloc = Some p" "oa_entry alloc = Some q" by blast
    define e1 where "e1 = \<lparr>he_addr = q, he_handle = sv_next_handle s + 4, he_access = 0, he_object = p\<rparr>"
    define s1 where "s1 = put_object p (new_object ty) (add_entry q 0 p s)"
    have i1: "objects_inv s1"
      unfolding s1_def by (rule create_handle_inv [OF inv]) (use ok pq in \<open>simp_all add: named_ok_def\<close>)
    have cr: "horizon_server_create_handle_locked (Some p, Some q) ty s = Some (e1, s1)"
      by (simp add: create_handle_eq e1_def s1_def)
    have mem: "e1 \<in> set (sv_handles s1)"
      by (simp add: e1_def s1_def add_entry_def horizon_server_link_handle_locked_def Let_def)
    have named: "objects_inv (update_object p (\<lambda>ob. ob\<lparr>so_name := n, so_rootdir := r\<rparr>) s1)" for n r
      by (rule update_inv [OF i1]) (simp_all add: shape_def)
    have "object_at (horizon_server_unlink_handle_locked s1 e1) p = Some (new_object ty)"
      by (simp add: horizon_server_unlink_handle_locked_def Let_def s1_def)
    from free_object_release [OF this]
    have failed: "objects_inv (horizon_server_free_object p (horizon_server_unlink_handle_locked s1 e1))"
      using unlink_release_inv [OF i1 mem] by (simp add: e1_def)
    show ?thesis
      using c None pq cr i1 named failed
      by (auto simp: horizon_server_create_named_object_handle_locked_def horizon_server_set_object_name_def
          e1_def split: if_splits)
  qed
qed

section \<open>Pointers between objects keep the invariant\<close>

text \<open>A port that is released touches no other object, so the order of the writes does not matter.\<close>

lemma fmdrop_upd: "w \<noteq> p \<Longrightarrow> fmdrop p (fmupd w x m) = fmupd w x (fmdrop p m)"
  by (intro fmap_ext) auto

lemma fmupd_upd: "w \<noteq> p \<Longrightarrow> fmupd p y (fmupd w x m) = fmupd w x (fmupd p y m)"
  by (intro fmap_ext) auto

lemma free_finish_put: "free_finish ob (put_object w x s) = put_object w x (free_finish ob s)"
  by (cases "so_reg_key ob") (simp_all add: free_finish_def emit_def put_object_def Let_def)

lemma free_begin_put: "w \<noteq> p \<Longrightarrow> free_begin p ob (put_object w x s) = put_object w x (free_begin p ob s)"
  by (simp add: free_begin_def horizon_server_unlink_timer_locked_def put_object_def fmdrop_upd Let_def)

lemma release_leaf_put:
  assumes "object_at s old = Some ob" "object_refs ob = []" "w \<noteq> old"
  shows "release old (put_object w x s) = put_object w x (release old s)"
  using assms
  by (simp add: release_def release_all.simps Let_def free_begin_put free_finish_put)
    (simp add: put_object_def fmupd_upd)

lemma release_leaf_other:
  assumes "object_at s old = Some ob" "object_refs ob = []" "w \<noteq> old"
  shows "object_at (release old s) w = object_at s w"
  using assms by (simp add: release_def release_all.simps Let_def)

text \<open>Object \<open>w\<close> gets a pointer to the port \<open>p\<close>, which gains a reference; what \<open>w\<close> pointed to before is
  left to release.\<close>

lemma point_refs:
  assumes inv: "objects_inv s" and w: "object_at s w = Some wo" and p: "object_at s p = Some po" "w \<noteq> p"
    and room: "unat (so_refs po) + 1 < 2 ^ 32" and wo': "so_refs wo' = so_refs wo" "so_type wo' = so_type wo"
    and refs: "\<And>r. count_list (object_refs wo') r + count_list old r =
      count_list (object_refs wo) r + (if r = p then 1 else 0)"
  defines "s' \<equiv> put_object w wo' (put_object p (po\<lparr>so_refs := so_refs po + 1\<rparr>) s)"
  shows "refs_inv (map Release old) s'" "table_inv s'" "lists_inv s'"
proof -
  define s1 where "s1 = put_object p (po\<lparr>so_refs := so_refs po + 1\<rparr>) s"
  have c1: "object_ref_count s1 r = object_ref_count s r" for r
    using object_ref_count_same [of s1 p "po\<lparr>so_refs := so_refs po + 1\<rparr>" s po r] p(1)
    by (simp add: s1_def object_refs_def)
  have w1: "object_at s1 w = Some wo" using w p(2) by (simp add: s1_def)
  have s': "s' = put_object w wo' s1" by (simp add: s'_def s1_def)
  have c2: "object_ref_count s' r + count_list (object_refs wo) r = object_ref_count s1 r + count_list (object_refs wo') r" for r
    using object_ref_count_put [of s' w wo' s1 r] w1 by (simp add: s')
  have cnt: "ref_count s' r + count_list old r = ref_count s r + (if r = p then 1 else 0)" for r
    using c1 [of r] c2 [of r] refs [of r] by (simp add: ref_count_def s' s1_def)
  have up: "unat (so_refs po + 1) = unat (so_refs po) + 1" using room by (simp add: unat_word_ariths)
  then have nz: "so_refs po + 1 \<noteq> 0" by (metis add_is_0 one_neq_zero unat_0)
  show "refs_inv (map Release old) s'"
    unfolding refs_inv_def
  proof (intro conjI allI impI)
    fix r ob
    assume r: "object_at s' r = Some ob"
    have "unat (so_refs ob) = ref_count s r + (if r = p then 1 else 0) \<and> so_refs ob \<noteq> 0"
      using r inv w p wo' up nz by (auto simp: objects_inv_def refs_inv_def s'_def split: if_splits)
    then show "unat (so_refs ob) = ref_count s' r + work_refs (map Release old) r" "so_refs ob \<noteq> 0"
      using cnt [of r] by simp_all
  next
    fix r
    assume "0 < ref_count s' r + work_refs (map Release old) r"
    then have "r = p \<or> 0 < ref_count s r" using cnt [of r] by (auto split: if_splits)
    then show "object_at s' r \<noteq> None" using inv p w by (auto simp: objects_inv_def refs_inv_def s'_def)
  qed
  show "table_inv s'" using inv by (simp add: s'_def objects_inv_def)
  have "lists_inv s1" unfolding s1_def using inv p(1) by (intro lists_put) (simp_all add: objects_inv_def)
  then show "lists_inv s'" unfolding s' using w1 wo'(2) by (intro lists_put) simp_all
qed

lemma point_ports:
  assumes inv: "objects_inv s" and w: "object_at s w = Some wo" "so_type wo \<noteq> OBJECT_COMPLETION"
    and p: "object_at s p = Some po" "so_type po = OBJECT_COMPLETION"
    and wo': "so_type wo' = so_type wo" "so_wait_port wo' \<in> {so_wait_port wo, Some p}"
      "so_file_completion wo' \<in> {so_file_completion wo, Some p}"
  shows "ports_inv (put_object w wo' (put_object p (po\<lparr>so_refs := so_refs po + 1\<rparr>) s))" (is "ports_inv ?s")
proof -
  have at: "port_at ?s q = port_at s q" for q using w p wo'(1) by (auto simp: port_at_def)
  have pp: "port_at s p" using p by (simp add: port_at_def)
  have ps: "ports_inv s" using inv by (simp add: objects_inv_def)
  have po: "object_refs (po\<lparr>so_refs := so_refs po + 1\<rparr>) = object_refs po" by (simp add: object_refs_def)
  have dom: "object_at ?s q \<noteq> None \<longleftrightarrow> object_at s q \<noteq> None" for q using w p by auto
  show ?thesis
    unfolding ports_inv_def
  proof (intro allI impI conjI; (elim conjE)?)
    fix r ob
    assume r: "object_at ?s r = Some ob" "so_type ob = OBJECT_COMPLETION"
    then have "r \<noteq> w" using w wo'(1) by auto
    with r show "object_refs ob = []" using ps p po by (auto simp: ports_inv_def split: if_splits)
  next
    fix r ob q
    assume r: "object_at ?s r = Some ob" and q: "so_wait_port ob = Some q \<or> so_file_completion ob = Some q"
      and l: "object_at ?s q \<noteq> None"
    from l have l: "object_at s q \<noteq> None" by (simp only: dom not_False_eq_True)
    have "q = p \<or> (\<exists>ob'. object_at s r = Some ob' \<and> (so_wait_port ob' = Some q \<or> so_file_completion ob' = Some q))"
      using r q w p wo'(2,3) by (auto split: if_splits)
    then show "port_at ?s q" using ps pp l unfolding at by (auto simp: ports_inv_def)
  qed
qed

lemma bind_inv:
  assumes inv: "objects_inv s" and w: "object_at s wait = Some wo" "so_type wo = OBJECT_COMPLETION_WAIT"
    and p: "port_at s port" and room: "refs_room port s"
  shows "objects_inv (horizon_server_bind_completion_wait_locked wait port s)"
proof (cases "so_wait_port wo = Some port")
  case True
  with inv w show ?thesis by (simp add: horizon_server_bind_completion_wait_locked_def)
next
  case False
  from p obtain po where po: "object_at s port = Some po" "so_type po = OBJECT_COMPLETION"
    by (auto simp: port_at_def)
  have ne: "wait \<noteq> port" using w po by auto
  have r: "unat (so_refs po) + 1 < 2 ^ 32" using room po by (simp add: refs_room_def)
  let ?wo = "wo\<lparr>so_wait_port := Some port\<rparr>" and ?po = "po\<lparr>so_refs := so_refs po + 1\<rparr>"
  define old where "old = (case so_wait_port wo of None \<Rightarrow> [] | Some q \<Rightarrow> [q])"
  have refs: "count_list (object_refs ?wo) q + count_list old q =
      count_list (object_refs wo) q + (if q = port then 1 else 0)" for q
    by (simp add: object_refs_def old_def split: option.splits)
  let ?s = "put_object wait ?wo (put_object port ?po s)"
  have parts: "refs_inv (map Release old) ?s" "table_inv ?s" "lists_inv ?s"
    using point_refs [OF inv w(1) po(1) ne r _ _ refs] by simp_all
  have "ports_inv ?s" using point_ports [OF inv w(1) _ po, of ?wo] w(2) by simp
  with parts have ok: "objects_inv (release_all (map Release old) ?s)" by (intro release_all_inv)
  show ?thesis
  proof (cases "so_wait_port wo")
    case None
    with ok w po ne False show ?thesis
      by (simp add: horizon_server_bind_completion_wait_locked_def update_object_def old_def release_all.simps)
  next
    case (Some q)
    let ?s1 = "put_object port ?po s"
    have "0 < ref_count s q"
    proof -
      have "count_list (object_refs wo) q \<le> object_ref_count s q"
        using object_ref_count_drop [OF w(1), of "s\<lparr>sv_objects := fmdrop wait (sv_objects s)\<rparr>" q] by simp
      then show ?thesis using Some by (simp add: object_refs_def ref_count_def)
    qed
    then have "object_at s q \<noteq> None" using inv by (simp add: objects_inv_def refs_inv_def)
    then obtain qo where qo: "object_at s q = Some qo" by blast
    have "port_at s q" using inv w(1) Some qo unfolding objects_inv_def ports_inv_def by blast
    then have "so_type qo = OBJECT_COMPLETION" using qo by (simp add: port_at_def)
    then have leaf: "object_refs qo = []" "wait \<noteq> q" using inv w qo by (auto simp: objects_inv_def ports_inv_def)
    have q1: "object_at ?s1 q = Some qo" using qo Some False by simp
    have "release q ?s = put_object wait ?wo (release q ?s1)"
      by (rule release_leaf_put [OF q1 leaf])
    moreover have "object_at (release q ?s1) wait = Some wo"
      using release_leaf_other [OF q1 leaf] w(1) ne by simp
    ultimately show ?thesis
      using ok w po ne False Some
      by (simp add: horizon_server_bind_completion_wait_locked_def update_object_def old_def release_def)
  qed
qed

lemma set_file_completion_inv:
  assumes inv: "objects_inv s" and f: "object_at s file = Some fo" "so_type fo \<noteq> OBJECT_COMPLETION"
      "so_file_completion fo = None"
    and p: "port_at s port" and room: "refs_room port s"
  shows "objects_inv (set_file_completion file port ckey s)"
proof -
  from p obtain po where po: "object_at s port = Some po" "so_type po = OBJECT_COMPLETION"
    by (auto simp: port_at_def)
  have ne: "file \<noteq> port" using f po by auto
  have r: "unat (so_refs po) + 1 < 2 ^ 32" using room po by (simp add: refs_room_def)
  let ?fo = "fo\<lparr>so_file_completion := Some port, so_file_completion_key := ckey\<rparr>"
  let ?s = "put_object file ?fo (put_object port (po\<lparr>so_refs := so_refs po + 1\<rparr>) s)"
  have refs: "count_list (object_refs ?fo) q + count_list [] q =
      count_list (object_refs fo) q + (if q = port then 1 else 0)" for q
    using f(3) by (simp add: object_refs_def split: option.splits)
  have "refs_inv [] ?s" "table_inv ?s" "lists_inv ?s"
    using point_refs [OF inv f(1) po(1) ne r _ _ refs] by simp_all
  moreover have "ports_inv ?s" using point_ports [OF inv f(1) f(2) po, of ?fo] by simp
  ultimately show ?thesis using f po ne by (simp add: set_file_completion_def update_object_def objects_inv_def)
qed

text \<open>A new thread object and the reference its creator keeps.\<close>

lemma alloc_thread_inv:
  assumes inv: "objects_inv s" and f: "fresh_object p s"
    and a: "horizon_server_alloc_thread_locked (Some p) tid pid affinity now s = Some (q, s1)"
  shows "objects_inv (hold q s1)"
proof -
  have none: "object_at s p = None" using f by (simp add: fresh_object_def)
  note un = unreferenced [OF inv none]
  let ?ob = "(new_object OBJECT_THREAD)\<lparr>so_refs := 1, so_thread := horizon_thread_init tid pid affinity now\<rparr>"
  let ?s = "hold q s1"
  have q: "q = p" using a by (simp add: horizon_server_alloc_thread_locked_def Let_def)
  have h: "sv_objects ?s = fmupd p ?ob (sv_objects s)" "sv_handles ?s = sv_handles s" "sv_holds ?s = p # sv_holds s"
    "sv_hash ?s = sv_hash s" "sv_next_handle ?s = sv_next_handle s" "sv_threads ?s = p # sv_threads s" "sv_timers ?s = sv_timers s"
    using a by (auto simp: horizon_server_alloc_thread_locked_def hold_def update_object_def Let_def intro!: fmap_ext)
  have "object_ref_count ?s r = object_ref_count s r" for r
    using object_ref_count_put [OF h(1), of r] none by (simp add: object_refs_def new_object_def)
  then have cnt: "ref_count ?s r = ref_count s r + (if r = p then 1 else 0)" for r
    by (simp add: ref_count_def h)
  have "refs_inv [] ?s" using inv un(1) by (auto simp: objects_inv_def refs_inv_def cnt h)
  moreover have "table_inv ?s" "lists_inv ?s"
    using inv un(2,3) by (auto simp: objects_inv_def table_inv_def lists_inv_def h)
  moreover have "ports_inv ?s"
  proof -
    have "so_wait_port ob \<noteq> Some p \<and> so_file_completion ob \<noteq> Some p" if "object_at s r = Some ob" for r ob
    proof -
      have "count_list (object_refs ob) p \<le> object_ref_count s p"
        using object_ref_count_drop [OF that, of "s\<lparr>sv_objects := fmdrop r (sv_objects s)\<rparr>" p] by simp
      then have "p \<notin> set (object_refs ob)" using un(1) by (simp add: ref_count_def count_list_0_iff)
      then show ?thesis by (auto simp: object_refs_def)
    qed
    then show ?thesis
      using inv none by (auto simp: objects_inv_def ports_inv_def port_at_def new_object_def object_refs_def h)
  qed
  ultimately show ?thesis by (simp add: objects_inv_def)
qed

lemma set_access_inv:
  assumes "objects_inv s"
  shows "objects_inv (set_access q acc s)"
proof -
  let ?s = "set_access q acc s"
  have same: "sv_objects ?s = sv_objects s" "sv_holds ?s = sv_holds s" "sv_threads ?s = sv_threads s"
    "sv_timers ?s = sv_timers s" "sv_next_handle ?s = sv_next_handle s"
    "map he_object (sv_handles ?s) = map he_object (sv_handles s)" "map he_addr (sv_handles ?s) = map he_addr (sv_handles s)"
    "map he_handle (sv_handles ?s) = map he_handle (sv_handles s)"
    by (simp_all add: set_access_def Let_def comp_def)
  have "ref_count ?s p = ref_count s p" for p
    using object_ref_count_cong [OF same(1)] by (simp add: ref_count_def same)
  then have "refs_inv [] ?s" "lists_inv ?s" "ports_inv ?s"
    using assms by (simp_all add: objects_inv_def refs_inv_def lists_inv_def ports_inv_def port_at_def same)
  moreover have "table_inv ?s"
  proof -
    have "sv_hash ?s b = filter (\<lambda>e. horizon_server_handle_bucket (he_handle e) = b) (sv_handles ?s)" for b
      using assms by (simp add: set_access_def Let_def objects_inv_def table_inv_def filter_map comp_def if_distrib cong: if_cong)
    moreover have "he_handle ` set (sv_handles ?s) = he_handle ` set (sv_handles s)"
      using same(8) by (metis set_map)
    ultimately show ?thesis
      using assms unfolding objects_inv_def table_inv_def same by (auto simp: image_iff set_eq_iff) metis+
  qed
  ultimately show ?thesis by (simp add: objects_inv_def)
qed

lemma duplicate_inv:
  assumes inv: "objects_inv s"
    and fe: "\<And>q. alloc = Some q \<Longrightarrow> fresh_entry q s"
    and fp: "\<And>p. fst alloc_process = Some p \<Longrightarrow> fresh_object p s" "\<And>q. snd alloc_process = Some q \<Longrightarrow> fresh_entry q s"
    and room: "\<And>p. object_at s p \<noteq> None \<Longrightarrow> refs_room p s"
    and me: "\<And>p. me = Some p \<Longrightarrow> object_at s p \<noteq> None"
    and d: "horizon_server_duplicate_object_handle alloc_process alloc me s handle access options = (status, h, s')"
  shows "objects_inv s'"
proof (cases "handle = 0 \<or> alloc = None")
  case True
  with d have "s' = s" by (elim disjE) (auto simp: horizon_server_duplicate_object_handle_def split: if_splits)
  with inv show ?thesis by simp
next
  case False
  then obtain q where q: "alloc = Some q" by blast
  have dup: "objects_inv (add_entry q acc p (update_object p (\<lambda>ob. ob\<lparr>so_refs := so_refs ob + 1\<rparr>) s))"
    if "object_at s p \<noteq> None" for acc p
    using dup_entry_inv [OF inv room [OF that] fe [OF q]] by (simp add: shape_def)
  have link: "horizon_server_link_handle_locked (update_object p f (s\<lparr>sv_next_handle := sv_next_handle s + 4\<rparr>))
      \<lparr>he_addr = q, he_handle = sv_next_handle s + 4, he_access = acc, he_object = p\<rparr> =
      add_entry q acc p (update_object p f s)" for p f acc
    by (cases "object_at s p") (simp_all add: update_object_def put_next_handle add_entry_def)
  have live: "object_at s (he_object e) \<noteq> None" if "horizon_server_find_handle_locked s handle = Some e" for e
    using find_handle_live [OF inv that] by auto
  consider (process) "handle = HORIZON_CURRENT_PROCESS_HANDLE"
    | (thread) "handle = HORIZON_CURRENT_THREAD_HANDLE \<and> me \<noteq> None"
    | (other) "handle \<noteq> HORIZON_CURRENT_PROCESS_HANDLE" "\<not> (handle = HORIZON_CURRENT_THREAD_HANDLE \<and> me \<noteq> None)" by blast
  then show ?thesis
  proof cases
    case process
    show ?thesis
    proof (cases "\<exists>p r. alloc_process = (Some p, Some r)")
      case True
      then obtain p r where pr: "alloc_process = (Some p, Some r)" by blast
      have "objects_inv (put_object p (new_object OBJECT_PROCESS) (add_entry r 0 p s))"
        using fp pr by (intro create_handle_inv [OF inv]) simp_all
      with d q process pr set_access_inv show ?thesis
        by (auto simp: horizon_server_duplicate_object_handle_def create_handle_eq)
    next
      case none: False
      then have "horizon_server_create_handle_locked alloc_process OBJECT_PROCESS s = None"
        by (auto simp: horizon_server_create_handle_locked_def split: prod.splits option.splits)
      with d q process inv show ?thesis by (simp add: horizon_server_duplicate_object_handle_def)
    qed
  next
    case thread
    with d q dup me show ?thesis
      by (auto simp: horizon_server_duplicate_object_handle_def horizon_server_alloc_handle_def link Let_def
          split: option.splits)
  next
    case other
    show ?thesis
    proof (cases "horizon_server_find_handle_locked s handle")
      case None
      with d q other False inv show ?thesis
        by (auto simp: horizon_server_duplicate_object_handle_def Let_def)
    next
      case (Some e)
      with d q other False dup [OF live [OF Some]] show ?thesis
        by (auto simp: horizon_server_duplicate_object_handle_def horizon_server_alloc_handle_def link Let_def
            split: option.splits)
    qed
  qed
qed

end
