(* ===== verification/HzSync.thy ===== *)
theory HzSync
  imports HzObjects
begin

text \<open>
  Waiting on objects (\<open>dlls/ntdll/unix/horizon.c\<close>): whether an object is signaled, taking its
  signal, waits on one, any or all of several handles, the queues of waiting threads, the waking
  that a change of an object causes, and the requests on events, mutexes, semaphores, timers and
  completion ports that make such changes.

  \<open>env\<close> carries what these read but do not keep: the state of message queues, the clocks, and the
  outcome of file system calls. \<open>tid\<close> and \<open>me\<close> are the thread id and the thread object of the
  connection whose request is handled. Bytes past the end of a request's data read as 0.
\<close>

datatype errno = EOK | EACCES | EPERM | EEXIST | ENOENT | ENOTDIR | EMFILE | ENFILE | ENOMEM | EIO | EOTHER

record environment =
  ev_queue_signaled :: "u32 \<Rightarrow> bool"
  ev_async_now :: u64
  ev_system_time :: int
  ev_close :: "int \<Rightarrow> errno"
  ev_remove :: "string \<Rightarrow> errno"

abbreviation (input) HORIZON_STATUS_TIMEOUT :: u32 where "HORIZON_STATUS_TIMEOUT \<equiv> 0x102"
abbreviation (input) HORIZON_STATUS_PENDING :: u32 where "HORIZON_STATUS_PENDING \<equiv> 0x103"
abbreviation (input) HORIZON_STATUS_ABANDONED_WAIT_0 :: u32 where "HORIZON_STATUS_ABANDONED_WAIT_0 \<equiv> 0x80"
abbreviation (input) HORIZON_STATUS_INVALID_PARAMETER :: u32 where "HORIZON_STATUS_INVALID_PARAMETER \<equiv> 0xc000000d"
abbreviation (input) HORIZON_STATUS_ACCESS_DENIED :: u32 where "HORIZON_STATUS_ACCESS_DENIED \<equiv> 0xc0000022"
abbreviation (input) HORIZON_STATUS_SEMAPHORE_LIMIT_EXCEEDED :: u32 where
  "HORIZON_STATUS_SEMAPHORE_LIMIT_EXCEEDED \<equiv> 0xc0000047"
abbreviation (input) HORIZON_APC_RESULT_SIZE :: u32 where "HORIZON_APC_RESULT_SIZE \<equiv> 40"
abbreviation (input) HORIZON_SELECT_WAIT :: u32 where "HORIZON_SELECT_WAIT \<equiv> 1"
abbreviation (input) HORIZON_SELECT_WAIT_ALL :: u32 where "HORIZON_SELECT_WAIT_ALL \<equiv> 2"
abbreviation (input) HORIZON_SELECT_SIGNAL_AND_WAIT :: u32 where "HORIZON_SELECT_SIGNAL_AND_WAIT \<equiv> 3"
abbreviation (input) HORIZON_SELECT_ALERTABLE :: u32 where "HORIZON_SELECT_ALERTABLE \<equiv> 1"
abbreviation (input) HORIZON_ASYNC_STALE :: u64 where "HORIZON_ASYNC_STALE \<equiv> 200000"
abbreviation (input) HORIZON_USER_APC_MAX :: nat where "HORIZON_USER_APC_MAX \<equiv> 512"

section \<open>One object\<close>

definition wait_port_of :: "server \<Rightarrow> horizon_server_object \<Rightarrow> horizon_server_object option" where
  "wait_port_of s ob = (case so_wait_port ob of None \<Rightarrow> None | Some q \<Rightarrow> object_at s q)"

definition horizon_server_object_is_signaled :: "environment \<Rightarrow> u32 \<Rightarrow> server \<Rightarrow> horizon_server_object \<Rightarrow> bool" where
  "horizon_server_object_is_signaled env tid s ob =
     (case so_type ob of
        OBJECT_EVENT \<Rightarrow> so_signaled ob
      | OBJECT_MUTEX \<Rightarrow> horizon_mutex_signaled (so_mutex ob) tid
      | OBJECT_SEMAPHORE \<Rightarrow> so_count ob > 0
      | OBJECT_TIMER \<Rightarrow> so_signaled ob
      | OBJECT_THREAD \<Rightarrow> th_terminated (so_thread ob)
      | OBJECT_MSG_QUEUE \<Rightarrow> ev_queue_signaled env (so_queue_tid ob)
      | OBJECT_COMPLETION \<Rightarrow> cq_depth (so_completion ob) > 0
      | OBJECT_COMPLETION_WAIT \<Rightarrow>
          horizon_completion_wait_signaled (map_option so_completion (wait_port_of s ob))
            (case wait_port_of s ob of None \<Rightarrow> False | Some port \<Rightarrow> so_completion_closed port)
      | OBJECT_PROCESS \<Rightarrow> True
      | OBJECT_RESERVE \<Rightarrow> True
      | OBJECT_KEYED_EVENT \<Rightarrow> True
      | _ \<Rightarrow> False)"

text \<open>Whether the wait acquired something abandoned, and the state after it.\<close>

definition horizon_server_consume_signal :: "u32 \<Rightarrow> server \<Rightarrow> ptr \<Rightarrow> bool \<times> server" where
  "horizon_server_consume_signal tid s p =
     (case object_at s p of
        None \<Rightarrow> (False, s)
      | Some ob \<Rightarrow>
          (case so_type ob of
             OBJECT_EVENT \<Rightarrow> (False, if \<not> so_manual_reset ob then put_object p (ob\<lparr>so_signaled := False\<rparr>) s else s)
           | OBJECT_MUTEX \<Rightarrow>
               (let (abandoned, m) = horizon_mutex_acquire (so_mutex ob) tid
                in (abandoned, put_object p (ob\<lparr>so_mutex := m\<rparr>) s))
           | OBJECT_SEMAPHORE \<Rightarrow>
               (False, if so_count ob \<noteq> 0 then put_object p (ob\<lparr>so_count := so_count ob - 1\<rparr>) s else s)
           | OBJECT_TIMER \<Rightarrow> (False, if \<not> so_manual_reset ob then put_object p (ob\<lparr>so_signaled := False\<rparr>) s else s)
           | OBJECT_COMPLETION_WAIT \<Rightarrow>
               (case (so_wait_port ob, wait_port_of s ob) of
                  (Some q, Some port) \<Rightarrow>
                    if so_completion_closed port then (True, s)
                    else (case horizon_completion_wait_satisfy (Some (so_completion port)) False of
                            (ab, Some m, Some queue) \<Rightarrow>
                              (False, put_object p (ob\<lparr>so_wait_msg := m, so_wait_has_msg := True\<rparr>)
                                        (put_object q (port\<lparr>so_completion := queue\<rparr>) s))
                          | _ \<Rightarrow> (False, put_object p (ob\<lparr>so_wait_has_msg := False\<rparr>) s))
                | _ \<Rightarrow> (True, s))
           | _ \<Rightarrow> (False, s)))"

definition horizon_server_wait_object_locked ::
    "environment \<Rightarrow> u32 \<Rightarrow> ptr option \<Rightarrow> server \<Rightarrow> u32 \<Rightarrow> bool \<Rightarrow> u32 \<times> server" where
  "horizon_server_wait_object_locked env tid me s handle consume =
     (if handle = 0 then (HORIZON_STATUS_INVALID_HANDLE, s)
      else if handle = HORIZON_CURRENT_THREAD_HANDLE
      then (case horizon_server_get_thread_locked me s handle of
              Inl status \<Rightarrow> (status, s) | Inr p \<Rightarrow> (HORIZON_STATUS_TIMEOUT, s))
      else (case horizon_server_find_handle_locked s handle of
              None \<Rightarrow> (HORIZON_STATUS_INVALID_HANDLE, s)
            | Some entry \<Rightarrow>
                (case object_at s (he_object entry) of
                   None \<Rightarrow> (HORIZON_STATUS_INVALID_HANDLE, s)
                 | Some ob \<Rightarrow>
                     if \<not> horizon_server_object_is_signaled env tid s ob then (HORIZON_STATUS_TIMEOUT, s)
                     else if consume
                     then (let (abandoned, s1) = horizon_server_consume_signal tid s (he_object entry)
                           in (if abandoned then HORIZON_STATUS_ABANDONED_WAIT_0 else HORIZON_STATUS_SUCCESS, s1))
                     else (HORIZON_STATUS_SUCCESS, s))))"

section \<open>Several handles\<close>

definition read_u32 :: "u8 list \<Rightarrow> nat \<Rightarrow> u32" where
  "read_u32 data i = (let b = (\<lambda>k. if i + k < length data then ucast (data ! (i + k)) else 0 :: u32)
     in b 0 OR push_bit 8 (b 1) OR push_bit 16 (b 2) OR push_bit 24 (b 3))"

text \<open>The first pass of a wait for all: stops at the first handle that is not signaled.\<close>

fun check_all :: "environment \<Rightarrow> u32 \<Rightarrow> ptr option \<Rightarrow> server \<Rightarrow> u32 list \<Rightarrow> u32" where
  "check_all env tid me s [] = HORIZON_STATUS_SUCCESS"
| "check_all env tid me s (h # hs) =
     (let status = fst (horizon_server_wait_object_locked env tid me s h False)
      in if status \<noteq> HORIZON_STATUS_SUCCESS then status else check_all env tid me s hs)"

fun consume_all :: "environment \<Rightarrow> u32 \<Rightarrow> ptr option \<Rightarrow> u32 \<Rightarrow> server \<Rightarrow> u32 list \<Rightarrow> u32 \<times> server" where
  "consume_all env tid me status s [] = (status, s)"
| "consume_all env tid me status s (h # hs) =
     (let (st, s1) = horizon_server_wait_object_locked env tid me s h True
      in consume_all env tid me
           (if st = HORIZON_STATUS_ABANDONED_WAIT_0 then HORIZON_STATUS_ABANDONED_WAIT_0 else status) s1 hs)"

fun wait_any :: "environment \<Rightarrow> u32 \<Rightarrow> ptr option \<Rightarrow> u32 \<Rightarrow> server \<Rightarrow> u32 list \<Rightarrow> u32 \<Rightarrow> u32 \<times> server" where
  "wait_any env tid me i s [] status = (status, s)"
| "wait_any env tid me i s (h # hs) status =
     (let (st, s1) = horizon_server_wait_object_locked env tid me s h True
      in if st = HORIZON_STATUS_SUCCESS \<or> st = HORIZON_STATUS_ABANDONED_WAIT_0 then (st + i, s1)
         else if st \<noteq> HORIZON_STATUS_TIMEOUT then (st, s1)
         else wait_any env tid me (i + 1) s1 hs st)"

definition select_handles :: "u32 \<Rightarrow> u8 list \<Rightarrow> u32 list" where
  "select_handles sz op = map (\<lambda>i. read_u32 op (4 + 4 * i)) [0..<unat ((sz - 4) div 4)]"

definition horizon_server_select_wait ::
    "environment \<Rightarrow> u32 \<Rightarrow> ptr option \<Rightarrow> server \<Rightarrow> u8 list \<Rightarrow> u32 \<Rightarrow> bool \<Rightarrow> u32 \<times> server" where
  "horizon_server_select_wait env tid me s op sz wait_all =
     (if sz < 8 then (HORIZON_STATUS_INVALID_PARAMETER, s)
      else if (sz - 4) div 4 = 0 then (HORIZON_STATUS_INVALID_PARAMETER, s)
      else (let handles = select_handles sz op
            in if wait_all
               then (let status = check_all env tid me s handles
                     in if status = HORIZON_STATUS_SUCCESS then consume_all env tid me status s handles
                        else (status, s))
               else wait_any env tid me 0 s handles HORIZON_STATUS_TIMEOUT))"

text \<open>Where the operation is in the data of the request: after a result, or at the start.\<close>

definition select_data :: "u32 \<Rightarrow> u8 list \<Rightarrow> u8 list option" where
  "select_data sz data =
     (let data_size = of_nat (length data)
      in if data_size \<ge> HORIZON_APC_RESULT_SIZE + sz then Some (drop 40 data)
         else if data_size \<ge> sz then Some data
         else None)"

definition horizon_server_select_status ::
    "environment \<Rightarrow> u32 \<Rightarrow> ptr option \<Rightarrow> server \<Rightarrow> u32 \<Rightarrow> u8 list \<Rightarrow> u32 \<times> server" where
  "horizon_server_select_status env tid me s sz data =
     (if sz = 0 then (HORIZON_STATUS_TIMEOUT, s)
      else (case select_data sz data of
              None \<Rightarrow> (HORIZON_STATUS_INVALID_PARAMETER, s)
            | Some d \<Rightarrow>
                if sz < 4 then (HORIZON_STATUS_INVALID_PARAMETER, s)
                else (let op = read_u32 d 0
                      in if op = HORIZON_SELECT_WAIT then horizon_server_select_wait env tid me s d sz False
                         else if op = HORIZON_SELECT_WAIT_ALL then horizon_server_select_wait env tid me s d sz True
                         else if op = HORIZON_SELECT_SIGNAL_AND_WAIT
                         then (if sz < 8 then (HORIZON_STATUS_INVALID_PARAMETER, s)
                               else horizon_server_wait_object_locked env tid me s (read_u32 d 4) True)
                         else (HORIZON_STATUS_SUCCESS, s))))"

section \<open>Waiting threads\<close>

definition update_waiter :: "ptr \<Rightarrow> (horizon_sync_waiter \<Rightarrow> horizon_sync_waiter) \<Rightarrow> server \<Rightarrow> server" where
  "update_waiter w f s = s\<lparr>sv_waiter := (sv_waiter s)(w := map_option f (sv_waiter s w))\<rparr>"

text \<open>\<open>horizon_sync_notify_locked\<close> also signals the waiter's condition.\<close>

definition horizon_sync_notify_locked :: "ptr \<Rightarrow> server \<Rightarrow> server" where
  "horizon_sync_notify_locked w s = update_waiter w (\<lambda>x. x\<lparr>sw_notified := True\<rparr>) s"

definition horizon_server_signal_changed_locked :: "server \<Rightarrow> server" where
  "horizon_server_signal_changed_locked s = fold horizon_sync_notify_locked (sv_waiters s) s"

text \<open>A link leaves the circular list of its source; the list is a list with its head first.\<close>

definition unlink_waiter :: "horizon_sync_link \<Rightarrow> server \<Rightarrow> server" where
  "unlink_waiter link s =
     update_object (sl_source link) (\<lambda>ob. ob\<lparr>so_waiters := remove1 link (so_waiters ob)\<rparr>) s"

definition unqueue_link :: "ptr \<Rightarrow> horizon_sync_link \<Rightarrow> server \<Rightarrow> server" where
  "unqueue_link w link s =
     (let s0 = update_waiter w (\<lambda>x. x\<lparr>sw_links := butlast (sw_links x)\<rparr>) s;
          s1 = unlink_waiter link s0;
          s2 = (if sl_source link \<noteq> sl_object link then unhold (sl_source link) s1 else s1)
      in unhold (sl_object link) s2)"

text \<open>The links are given up from the last to the first.\<close>

definition horizon_sync_unqueue_locked :: "ptr \<Rightarrow> server \<Rightarrow> server" where
  "horizon_sync_unqueue_locked w s =
     (case sv_waiter s w of
        None \<Rightarrow> s
      | Some x \<Rightarrow>
          (let s1 = (if sw_queued x then s\<lparr>sv_waiters := unlink_ptr w (sv_waiters s)\<rparr> else s);
               s2 = update_waiter w (\<lambda>x. x\<lparr>sw_queued := False\<rparr>) s1
           in fold (unqueue_link w) (rev (sw_links x)) s2))"

text \<open>The source of a link, where the object can be waited on by a queue at all.\<close>

definition link_source :: "server \<Rightarrow> ptr \<Rightarrow> ptr option" where
  "link_source s p =
     (case object_at s p of
        None \<Rightarrow> None
      | Some ob \<Rightarrow>
          (case so_type ob of
             OBJECT_EVENT \<Rightarrow> Some p | OBJECT_MUTEX \<Rightarrow> Some p | OBJECT_SEMAPHORE \<Rightarrow> Some p
           | OBJECT_TIMER \<Rightarrow> Some p | OBJECT_THREAD \<Rightarrow> Some p | OBJECT_MSG_QUEUE \<Rightarrow> Some p
           | OBJECT_COMPLETION \<Rightarrow> Some p
           | OBJECT_COMPLETION_WAIT \<Rightarrow> so_wait_port ob
           | _ \<Rightarrow> None))"

definition queue_link :: "ptr \<Rightarrow> ptr \<Rightarrow> ptr \<Rightarrow> server \<Rightarrow> server" where
  "queue_link w p source s =
     (let n = (case sv_waiter s w of None \<Rightarrow> 0 | Some x \<Rightarrow> length (sw_links x));
          link = \<lparr>sl_waiter = w, sl_index = n, sl_object = p, sl_source = source\<rparr>;
          s1 = update_object source (\<lambda>ob. ob\<lparr>so_waiters := so_waiters ob @ [link]\<rparr>) s;
          s2 = (if source \<noteq> p then hold source s1 else s1);
          s3 = hold p s2
      in update_waiter w (\<lambda>x. x\<lparr>sw_links := sw_links x @ [link]\<rparr>) s3)"

fun queue_links :: "ptr option \<Rightarrow> ptr \<Rightarrow> u32 list \<Rightarrow> server \<Rightarrow> bool \<times> server" where
  "queue_links me w [] s = (True, s)"
| "queue_links me w (h # hs) s =
     (case horizon_server_find_handle_object_locked me s h None of
        None \<Rightarrow> (False, s)
      | Some p \<Rightarrow>
          (case link_source s p of
             None \<Rightarrow> (False, s)
           | Some source \<Rightarrow> queue_links me w hs (queue_link w p source s)))"

definition queue_handles :: "u32 \<Rightarrow> u8 list \<Rightarrow> u32 list option" where
  "queue_handles sz data =
     (if sz < 4 then None
      else (case select_data sz data of
              None \<Rightarrow> None
            | Some d \<Rightarrow>
                (let op = read_u32 d 0
                 in if op = HORIZON_SELECT_WAIT \<or> op = HORIZON_SELECT_WAIT_ALL
                    then (if sz < 8 then None
                          else if (sz - 4) div 4 > 64 then None else Some (select_handles sz d))
                    else if op = HORIZON_SELECT_SIGNAL_AND_WAIT
                    then (if sz < 8 then None else Some [read_u32 d 4])
                    else None)))"

definition horizon_sync_queue_locked :: "ptr option \<Rightarrow> ptr \<Rightarrow> server \<Rightarrow> bool \<times> server" where
  "horizon_sync_queue_locked me w s =
     (case sv_waiter s w of
        None \<Rightarrow> (False, s)
      | Some x \<Rightarrow>
          (case queue_handles (sw_size x) (sw_data x) of
             None \<Rightarrow> (False, s)
           | Some hs \<Rightarrow>
               (case queue_links me w hs s of
                  (False, s1) \<Rightarrow> (False, horizon_sync_unqueue_locked w s1)
                | (True, s1) \<Rightarrow>
                    (True, update_waiter w (\<lambda>x. x\<lparr>sw_queued := True\<rparr>) (s1\<lparr>sv_waiters := w # sv_waiters s1\<rparr>)))))"

text \<open>One turn of the loop over an object's waiters.\<close>

definition notify_link :: "environment \<Rightarrow> bool \<Rightarrow> horizon_sync_link \<Rightarrow> server \<Rightarrow> server" where
  "notify_link env satisfy link s =
     (let w = sl_waiter link
      in case sv_waiter s w of
           None \<Rightarrow> s
         | Some x \<Rightarrow>
             if sw_completed x then s
             else if \<not> satisfy \<or>
                (case object_at s (sw_thread x) of
                   None \<Rightarrow> False
                 | Some t \<Rightarrow> th_suspend (so_thread t) \<noteq> 0 \<or>
                     (sw_flags x AND HORIZON_SELECT_ALERTABLE \<noteq> 0 \<and> so_apcs t \<noteq> [])) \<or>
                (al_nodes (sv_asyncs s) \<noteq> [] \<and>
                 horizon_async_ready_for (sv_asyncs s) (sw_tid x) (ev_async_now env) HORIZON_ASYNC_STALE \<noteq> None)
             then horizon_sync_notify_locked w s
             else (let (status, s1) = horizon_server_select_status env (sw_tid x) (Some (sw_thread x)) s
                         (sw_size x) (sw_data x);
                       s2 = update_waiter w (\<lambda>x. x\<lparr>sw_status := status\<rparr>) s1
                   in if status = HORIZON_STATUS_TIMEOUT then s2
                      else horizon_sync_notify_locked w (update_waiter w (\<lambda>x. x\<lparr>sw_completed := True\<rparr>) s2)))"

definition notify_source :: "server \<Rightarrow> ptr \<Rightarrow> ptr" where
  "notify_source s p =
     (case object_at s p of
        None \<Rightarrow> p
      | Some ob \<Rightarrow> (case so_wait_port ob of
                      None \<Rightarrow> p
                    | Some q \<Rightarrow> if so_type ob = OBJECT_COMPLETION_WAIT then q else p))"

definition horizon_sync_notify_object_locked :: "environment \<Rightarrow> ptr \<Rightarrow> bool \<Rightarrow> server \<Rightarrow> server" where
  "horizon_sync_notify_object_locked env p satisfy s =
     (case object_at s (notify_source s p) of
        None \<Rightarrow> s
      | Some ob \<Rightarrow> fold (notify_link env satisfy) (so_waiters ob) s)"

definition horizon_sync_notify_async_locked :: "environment \<Rightarrow> server \<Rightarrow> server" where
  "horizon_sync_notify_async_locked env s =
     fold (\<lambda>w s. case sv_waiter s w of
                   None \<Rightarrow> s
                 | Some x \<Rightarrow>
                     if \<not> sw_completed x \<and>
                        horizon_async_ready_for (sv_asyncs s) (sw_tid x) (ev_async_now env) HORIZON_ASYNC_STALE \<noteq> None
                     then horizon_sync_notify_locked w s else s) (sv_waiters s) s"

section \<open>Closing a handle\<close>

definition horizon_server_errno_status :: "errno \<Rightarrow> u32" where
  "horizon_server_errno_status e =
     (case e of EOK \<Rightarrow> HORIZON_STATUS_SUCCESS | EACCES \<Rightarrow> HORIZON_STATUS_ACCESS_DENIED
      | EPERM \<Rightarrow> HORIZON_STATUS_ACCESS_DENIED | EEXIST \<Rightarrow> 0xc0000035 | ENOENT \<Rightarrow> 0xc000000f
      | ENOTDIR \<Rightarrow> 0xc000003a | EMFILE \<Rightarrow> 0xc000011f | ENFILE \<Rightarrow> 0xc000011f
      | ENOMEM \<Rightarrow> HORIZON_STATUS_NO_MEMORY | EIO \<Rightarrow> HORIZON_STATUS_INVALID_PARAMETER
      | EOTHER \<Rightarrow> HORIZON_STATUS_INVALID_PARAMETER)"

text \<open>The last close of a file that is to be deleted: its descriptor goes first, since the file system
  cannot delete an open file.\<close>

definition delete_on_close :: "environment \<Rightarrow> ptr \<Rightarrow> horizon_server_object \<Rightarrow> server \<Rightarrow> u32 \<times> server" where
  "delete_on_close env p ob s =
     (case so_file_name ob of
        None \<Rightarrow> (HORIZON_STATUS_SUCCESS, s)
      | Some name \<Rightarrow>
          if so_type ob = OBJECT_FILE \<and> (so_file_options ob AND 0x00001000 \<noteq> 0 \<or> so_file_delete ob)
          then (let (st1, s1) = (if so_file_fd ob \<noteq> -1
                       then (horizon_server_errno_status (ev_close env (so_file_fd ob)),
                             update_object p (\<lambda>ob. ob\<lparr>so_file_fd := -1\<rparr>) (emit (E_close (so_file_fd ob)) s))
                       else (HORIZON_STATUS_SUCCESS, s));
                    s2 = emit (if so_file_is_dir ob then E_rmdir name else E_unlink name) s1;
                    err = ev_remove env name
                in (if err \<noteq> EOK \<and> err \<noteq> ENOENT then horizon_server_errno_status err else st1, s2))
          else (HORIZON_STATUS_SUCCESS, s))"

text \<open>The part before the reference is given back: what waits on the object hears of it.\<close>

definition close_notify :: "environment \<Rightarrow> u32 \<Rightarrow> ptr \<Rightarrow> server \<Rightarrow> server" where
  "close_notify env handle p s =
     (let s1 = horizon_sync_notify_object_locked env p False s;
          ty = map_option so_type (object_at s1 p);
          s2 = (if ty = Some OBJECT_SOCK \<and> al_nodes (sv_asyncs s1) \<noteq> []
                then (let (n, l) = horizon_async_cancel (sv_asyncs s1) handle 0 0 (ev_async_now env) True;
                          s1' = s1\<lparr>sv_asyncs := l\<rparr>
                      in if n \<noteq> 0 then horizon_sync_notify_async_locked env s1' else s1')
                else s1);
          s3 = (if ty = Some OBJECT_COMPLETION \<and> \<not> horizon_server_object_has_handles_locked s2 p
                then horizon_sync_notify_object_locked env p True
                       (update_object p (\<lambda>ob. ob\<lparr>so_completion_closed := True\<rparr>) s2)
                else s2)
      in case map_option so_reg_key (object_at s3 p) of
           Some (Some k) \<Rightarrow> emit (E_reg_closed k handle) s3
         | _ \<Rightarrow> s3)"

definition horizon_server_close_object_handle :: "environment \<Rightarrow> u32 \<Rightarrow> server \<Rightarrow> u32 \<times> server" where
  "horizon_server_close_object_handle env handle s =
     (if handle = 0 then (HORIZON_STATUS_INVALID_HANDLE, s)
      else (case horizon_server_find_handle_locked s handle of
              None \<Rightarrow> (HORIZON_STATUS_INVALID_HANDLE, s)
            | Some entry \<Rightarrow>
                (let p = he_object entry;
                     s1 = close_notify env handle p (horizon_server_unlink_handle_locked s entry)
                 in case object_at s1 p of
                      None \<Rightarrow> (HORIZON_STATUS_SUCCESS, s1)
                    | Some ob \<Rightarrow>
                        if so_refs ob = 0 then (HORIZON_STATUS_SUCCESS, s1)
                        else if so_refs ob - 1 = 0
                        then (let (status, s2) = delete_on_close env p ob s1 in (status, release p s2))
                        else (HORIZON_STATUS_SUCCESS, release p s1))))"

section \<open>Changing objects\<close>

definition horizon_server_signal_object_locked ::
    "environment \<Rightarrow> u32 \<Rightarrow> server \<Rightarrow> u32 \<Rightarrow> u32 \<times> server" where
  "horizon_server_signal_object_locked env tid s handle =
     (if handle = 0 then (HORIZON_STATUS_INVALID_HANDLE, s)
      else (case horizon_server_find_handle_locked s handle of
              None \<Rightarrow> (HORIZON_STATUS_INVALID_HANDLE, s)
            | Some entry \<Rightarrow>
                (let p = he_object entry
                 in case object_at s p of
                      None \<Rightarrow> (HORIZON_STATUS_INVALID_HANDLE, s)
                    | Some ob \<Rightarrow>
                        (case so_type ob of
                           OBJECT_EVENT \<Rightarrow>
                             (HORIZON_STATUS_SUCCESS,
                              if \<not> so_signaled ob
                              then horizon_sync_notify_object_locked env p True (put_object p (ob\<lparr>so_signaled := True\<rparr>) s)
                              else s)
                         | OBJECT_MUTEX \<Rightarrow>
                             (let (status, previous, m) = horizon_mutex_release (so_mutex ob) tid;
                                  s1 = put_object p (ob\<lparr>so_mutex := m\<rparr>) s
                              in (status, if status = 0 \<and> mx_count m = 0
                                          then horizon_sync_notify_object_locked env p True s1 else s1))
                         | OBJECT_SEMAPHORE \<Rightarrow>
                             if so_count ob = so_max ob then (HORIZON_STATUS_SEMAPHORE_LIMIT_EXCEEDED, s)
                             else (HORIZON_STATUS_SUCCESS,
                                   horizon_sync_notify_object_locked env p True
                                     (put_object p (ob\<lparr>so_count := so_count ob + 1\<rparr>) s))
                         | _ \<Rightarrow> (HORIZON_STATUS_OBJECT_TYPE_MISMATCH, s)))))"

datatype event_op = PULSE_EVENT | SET_EVENT | RESET_EVENT | BAD_EVENT_OP

text \<open>The status, the state reported and the server.\<close>

definition horizon_server_handle_event_op :: "environment \<Rightarrow> u32 \<Rightarrow> event_op \<Rightarrow> server \<Rightarrow> u32 \<times> bool \<times> server" where
  "horizon_server_handle_event_op env handle op s =
     (case horizon_server_find_typed_object_locked s handle OBJECT_EVENT of
        Inl status \<Rightarrow> (status, False, s)
      | Inr p \<Rightarrow>
          (case object_at s p of
             None \<Rightarrow> (HORIZON_STATUS_INVALID_HANDLE, False, s)
           | Some ob \<Rightarrow>
               (let set = put_object p (ob\<lparr>so_signaled := True\<rparr>) s
                in case op of
                     PULSE_EVENT \<Rightarrow>
                       (HORIZON_STATUS_SUCCESS, so_signaled ob,
                        update_object p (\<lambda>ob. ob\<lparr>so_signaled := False\<rparr>)
                          (horizon_sync_notify_object_locked env p True set))
                   | SET_EVENT \<Rightarrow>
                       (HORIZON_STATUS_SUCCESS, so_signaled ob,
                        if \<not> so_signaled ob then horizon_sync_notify_object_locked env p True set else s)
                   | RESET_EVENT \<Rightarrow>
                       (HORIZON_STATUS_SUCCESS, so_signaled ob, put_object p (ob\<lparr>so_signaled := False\<rparr>) s)
                   | BAD_EVENT_OP \<Rightarrow> (HORIZON_STATUS_INVALID_PARAMETER, so_signaled ob, s))))"

definition horizon_server_handle_query_event :: "u32 \<Rightarrow> server \<Rightarrow> u32 \<times> bool \<times> bool" where
  "horizon_server_handle_query_event handle s =
     (case horizon_server_find_typed_object_locked s handle OBJECT_EVENT of
        Inl status \<Rightarrow> (status, False, False)
      | Inr p \<Rightarrow>
          (case object_at s p of
             None \<Rightarrow> (HORIZON_STATUS_INVALID_HANDLE, False, False)
           | Some ob \<Rightarrow> (HORIZON_STATUS_SUCCESS, so_manual_reset ob, so_signaled ob)))"

text \<open>The status, the previous count and the server.\<close>

definition horizon_server_handle_release_mutex :: "environment \<Rightarrow> u32 \<Rightarrow> u32 \<Rightarrow> server \<Rightarrow> u32 \<times> u32 \<times> server" where
  "horizon_server_handle_release_mutex env tid handle s =
     (case horizon_server_find_typed_object_locked s handle OBJECT_MUTEX of
        Inl status \<Rightarrow> (status, 0, s)
      | Inr p \<Rightarrow>
          (case object_at s p of
             None \<Rightarrow> (HORIZON_STATUS_INVALID_HANDLE, 0, s)
           | Some ob \<Rightarrow>
               (let (status, previous, m) = horizon_mutex_release (so_mutex ob) tid;
                    s1 = put_object p (ob\<lparr>so_mutex := m\<rparr>) s
                in (status, previous,
                    if status = HORIZON_STATUS_SUCCESS \<and> mx_count m = 0
                    then horizon_sync_notify_object_locked env p True s1 else s1))))"

definition horizon_server_handle_query_mutex :: "u32 \<Rightarrow> u32 \<Rightarrow> server \<Rightarrow> u32 \<times> u32 \<times> bool \<times> bool" where
  "horizon_server_handle_query_mutex tid handle s =
     (case horizon_server_find_typed_object_locked s handle OBJECT_MUTEX of
        Inl status \<Rightarrow> (status, 0, False, False)
      | Inr p \<Rightarrow>
          (case object_at s p of
             None \<Rightarrow> (HORIZON_STATUS_INVALID_HANDLE, 0, False, False)
           | Some ob \<Rightarrow> (HORIZON_STATUS_SUCCESS, mx_count (so_mutex ob),
                          mx_count (so_mutex ob) \<noteq> 0 \<and> mx_owner (so_mutex ob) = tid, mx_abandoned (so_mutex ob))))"

definition horizon_server_handle_release_semaphore ::
    "environment \<Rightarrow> u32 \<Rightarrow> u32 \<Rightarrow> server \<Rightarrow> u32 \<times> u32 \<times> server" where
  "horizon_server_handle_release_semaphore env handle n s =
     (case horizon_server_find_typed_object_locked s handle OBJECT_SEMAPHORE of
        Inl status \<Rightarrow> (status, 0, s)
      | Inr p \<Rightarrow>
          (case object_at s p of
             None \<Rightarrow> (HORIZON_STATUS_INVALID_HANDLE, 0, s)
           | Some ob \<Rightarrow>
               if n = 0 then (HORIZON_STATUS_INVALID_PARAMETER, 0, s)
               else if n > so_max ob \<or> so_count ob > so_max ob - n
               then (HORIZON_STATUS_SEMAPHORE_LIMIT_EXCEEDED, 0, s)
               else (HORIZON_STATUS_SUCCESS, so_count ob,
                     horizon_sync_notify_object_locked env p True
                       (put_object p (ob\<lparr>so_count := so_count ob + n\<rparr>) s))))"

definition horizon_server_handle_query_semaphore :: "u32 \<Rightarrow> server \<Rightarrow> u32 \<times> u32 \<times> u32" where
  "horizon_server_handle_query_semaphore handle s =
     (case horizon_server_find_typed_object_locked s handle OBJECT_SEMAPHORE of
        Inl status \<Rightarrow> (status, 0, 0)
      | Inr p \<Rightarrow>
          (case object_at s p of
             None \<Rightarrow> (HORIZON_STATUS_INVALID_HANDLE, 0, 0)
           | Some ob \<Rightarrow> (HORIZON_STATUS_SUCCESS, so_count ob, so_max ob)))"

text \<open>Creating: a new object is set up, an existing one of the name only gets a handle. The handler
  returns the status, the handle and the server.\<close>

definition create_object ::
    "object_alloc \<Rightarrow> horizon_server_object_type \<Rightarrow> horizon_object_name \<Rightarrow>
     (horizon_server_object \<Rightarrow> horizon_server_object) \<Rightarrow> server \<Rightarrow> u32 \<times> u32 \<times> server" where
  "create_object alloc ty name setup s =
     (case horizon_server_create_named_object_handle_locked alloc ty name s of
        (status, None, s1) \<Rightarrow> (status, 0, s1)
      | (status, Some entry, s1) \<Rightarrow>
          (status, he_handle entry,
           if status = HORIZON_STATUS_SUCCESS then update_object (he_object entry) setup s1 else s1))"

definition horizon_server_handle_create_event ::
    "object_alloc \<Rightarrow> horizon_object_name \<Rightarrow> bool \<Rightarrow> bool \<Rightarrow> server \<Rightarrow> u32 \<times> u32 \<times> server" where
  "horizon_server_handle_create_event alloc name manual_reset initial_state s =
     create_object alloc OBJECT_EVENT name
       (\<lambda>ob. ob\<lparr>so_manual_reset := manual_reset, so_signaled := initial_state\<rparr>) s"

definition horizon_server_handle_create_keyed_event ::
    "object_alloc \<Rightarrow> horizon_object_name \<Rightarrow> server \<Rightarrow> u32 \<times> u32 \<times> server" where
  "horizon_server_handle_create_keyed_event alloc name s = create_object alloc OBJECT_KEYED_EVENT name id s"

definition horizon_server_handle_create_mutex ::
    "object_alloc \<Rightarrow> u32 \<Rightarrow> horizon_object_name \<Rightarrow> bool \<Rightarrow> server \<Rightarrow> u32 \<times> u32 \<times> server" where
  "horizon_server_handle_create_mutex alloc tid name owned s =
     create_object alloc OBJECT_MUTEX name
       (\<lambda>ob. if owned then ob\<lparr>so_mutex := snd (horizon_mutex_acquire (so_mutex ob) tid)\<rparr> else ob) s"

definition horizon_server_handle_create_semaphore ::
    "object_alloc \<Rightarrow> horizon_object_name \<Rightarrow> u32 \<Rightarrow> u32 \<Rightarrow> server \<Rightarrow> u32 \<times> u32 \<times> server" where
  "horizon_server_handle_create_semaphore alloc name initial max_count s =
     (if max_count = 0 \<or> initial > max_count then (HORIZON_STATUS_INVALID_PARAMETER, 0, s)
      else create_object alloc OBJECT_SEMAPHORE name (\<lambda>ob. ob\<lparr>so_count := initial, so_max := max_count\<rparr>) s)"

definition horizon_server_handle_create_timer ::
    "object_alloc \<Rightarrow> horizon_object_name \<Rightarrow> bool \<Rightarrow> server \<Rightarrow> u32 \<times> u32 \<times> server" where
  "horizon_server_handle_create_timer alloc name manual s =
     create_object alloc OBJECT_TIMER name
       (\<lambda>ob. ob\<lparr>so_manual_reset := manual, so_signaled := False, so_timer_when := 0, so_timer_period := 0\<rparr>) s"

definition horizon_server_handle_create_completion ::
    "object_alloc \<Rightarrow> horizon_object_name \<Rightarrow> server \<Rightarrow> u32 \<times> u32 \<times> server" where
  "horizon_server_handle_create_completion alloc name s = create_object alloc OBJECT_COMPLETION name id s"

section \<open>Timers\<close>

text \<open>The walk over the armed timers: \<open>todo\<close> is what is left of the list. A one-shot timer that
  expired leaves the list; a periodic one is moved past the present.\<close>

definition expire_timer :: "environment \<Rightarrow> ptr \<Rightarrow> horizon_server_object \<Rightarrow> server \<Rightarrow> server" where
  "expire_timer env p ob s =
     (let now = ev_system_time env;
          s1 = (if so_timer_period ob = 0
                then horizon_server_unlink_timer_locked p
                       (put_object p (ob\<lparr>so_signaled := True, so_timer_when := 0\<rparr>) s)
                else (let period = int (unat (so_timer_period ob)) * 10000;
                          when = so_timer_when ob + ((now - so_timer_when ob) div period + 1) * period
                      in put_object p (ob\<lparr>so_signaled := True, so_timer_when := when\<rparr>) s))
      in horizon_sync_notify_object_locked env p True s1)"

fun update_timers_walk :: "environment \<Rightarrow> ptr list \<Rightarrow> server \<Rightarrow> server" where
  "update_timers_walk env [] s = s"
| "update_timers_walk env (p # todo) s =
     (case object_at s p of
        None \<Rightarrow> update_timers_walk env todo s
      | Some ob \<Rightarrow>
          if so_timer_when ob > ev_system_time env then update_timers_walk env todo s
          else update_timers_walk env todo (expire_timer env p ob s))"

definition horizon_server_update_timers_locked :: "environment \<Rightarrow> server \<Rightarrow> server" where
  "horizon_server_update_timers_locked env s = update_timers_walk env (sv_timers s) s"

text \<open>The status, whether the timer was signaled, and the server.\<close>

definition horizon_server_handle_set_timer ::
    "environment \<Rightarrow> u32 \<Rightarrow> int \<Rightarrow> int \<Rightarrow> server \<Rightarrow> u32 \<times> bool \<times> server" where
  "horizon_server_handle_set_timer env handle expire period s =
     (case horizon_server_find_typed_object_locked s handle OBJECT_TIMER of
        Inl status \<Rightarrow> (status, False, s)
      | Inr p \<Rightarrow>
          (case object_at s p of
             None \<Rightarrow> (HORIZON_STATUS_INVALID_HANDLE, False, s)
           | Some ob \<Rightarrow>
               (let now = ev_system_time env;
                    s1 = (if so_timer_when ob = 0 then s\<lparr>sv_timers := p # sv_timers s\<rparr> else s);
                    when = (if expire \<le> 0 then now - expire else max expire now);
                    s2 = put_object p (ob\<lparr>so_timer_when := when,
                           so_timer_period := (if period > 0 then of_int period else 0), so_signaled := False\<rparr>) s1
                in (HORIZON_STATUS_SUCCESS, so_signaled ob, horizon_sync_notify_object_locked env p False s2))))"

definition horizon_server_handle_cancel_timer ::
    "environment \<Rightarrow> u32 \<Rightarrow> server \<Rightarrow> u32 \<times> bool \<times> server" where
  "horizon_server_handle_cancel_timer env handle s =
     (case horizon_server_find_typed_object_locked s handle OBJECT_TIMER of
        Inl status \<Rightarrow> (status, False, s)
      | Inr p \<Rightarrow>
          (case object_at s p of
             None \<Rightarrow> (HORIZON_STATUS_INVALID_HANDLE, False, s)
           | Some ob \<Rightarrow>
               (HORIZON_STATUS_SUCCESS, so_signaled ob,
                horizon_sync_notify_object_locked env p False
                  (put_object p (ob\<lparr>so_signaled := False, so_timer_when := 0, so_timer_period := 0\<rparr>)
                    (horizon_server_unlink_timer_locked p s)))))"

definition horizon_server_handle_get_timer_info ::
    "environment \<Rightarrow> u32 \<Rightarrow> server \<Rightarrow> u32 \<times> int \<times> bool \<times> server" where
  "horizon_server_handle_get_timer_info env handle s =
     (let s1 = horizon_server_update_timers_locked env s
      in case horizon_server_find_typed_object_locked s1 handle OBJECT_TIMER of
           Inl status \<Rightarrow> (status, 0, False, s1)
         | Inr p \<Rightarrow>
             (case object_at s1 p of
                None \<Rightarrow> (HORIZON_STATUS_INVALID_HANDLE, 0, False, s1)
              | Some ob \<Rightarrow> (HORIZON_STATUS_SUCCESS, so_timer_when ob, so_signaled ob, s1)))"

section \<open>Completion ports\<close>

record horizon_server_connection =
  cn_tid :: u32
  cn_thread :: "ptr option"
  cn_completion_wait :: "ptr option"
  cn_completion_wait_handle :: u32

text \<open>\<open>alloc\<close> is the memory for the message.\<close>

definition horizon_server_post_completion_locked ::
    "environment \<Rightarrow> ptr option \<Rightarrow> ptr \<Rightarrow> u64 \<Rightarrow> u64 \<Rightarrow> u32 \<Rightarrow> u64 \<Rightarrow> server \<Rightarrow> server" where
  "horizon_server_post_completion_locked env alloc port ckey cvalue status information s =
     (case object_at s port of
        None \<Rightarrow> s
      | Some ob \<Rightarrow>
          (case horizon_completion_add alloc (so_completion ob) ckey cvalue status information of
             (False, q) \<Rightarrow> s
           | (True, q) \<Rightarrow>
               horizon_sync_notify_object_locked env port True (put_object port (ob\<lparr>so_completion := q\<rparr>) s)))"

definition horizon_server_handle_add_completion ::
    "environment \<Rightarrow> ptr option \<Rightarrow> u32 \<Rightarrow> u64 \<Rightarrow> u64 \<Rightarrow> u32 \<Rightarrow> u64 \<Rightarrow> server \<Rightarrow> u32 \<times> server" where
  "horizon_server_handle_add_completion env alloc handle ckey cvalue status information s =
     (case horizon_server_find_typed_object_locked s handle OBJECT_COMPLETION of
        Inl st \<Rightarrow> (st, s)
      | Inr port \<Rightarrow>
          (HORIZON_STATUS_SUCCESS,
           horizon_server_post_completion_locked env alloc port ckey cvalue status information s))"

definition horizon_server_completion_wait_locked ::
    "ptr option \<times> ptr option \<Rightarrow> horizon_server_connection \<Rightarrow> server \<Rightarrow>
     (ptr \<times> horizon_server_connection \<times> server) option" where
  "horizon_server_completion_wait_locked alloc c s =
     (case cn_completion_wait c of
        Some p \<Rightarrow> Some (p, c, s)
      | None \<Rightarrow>
          (case horizon_server_create_handle_locked alloc OBJECT_COMPLETION_WAIT s of
             None \<Rightarrow> None
           | Some (entry, s1) \<Rightarrow>
               Some (he_object entry,
                     c\<lparr>cn_completion_wait := Some (he_object entry), cn_completion_wait_handle := he_handle entry\<rparr>,
                     hold (he_object entry) s1)))"

record remove_completion_reply =
  rc_error :: u32
  rc_msg :: "horizon_completion_msg option"
  rc_wait_handle :: u32

definition horizon_server_handle_remove_completion ::
    "ptr option \<times> ptr option \<Rightarrow> u32 \<Rightarrow> horizon_server_connection \<Rightarrow> server \<Rightarrow>
     remove_completion_reply \<times> horizon_server_connection \<times> server" where
  "horizon_server_handle_remove_completion alloc handle c s =
     (case horizon_server_find_typed_object_locked s handle OBJECT_COMPLETION of
        Inl st \<Rightarrow> (\<lparr>rc_error = st, rc_msg = None, rc_wait_handle = 0\<rparr>, c, s)
      | Inr port \<Rightarrow>
          (case object_at s port of
             None \<Rightarrow> (\<lparr>rc_error = HORIZON_STATUS_INVALID_HANDLE, rc_msg = None, rc_wait_handle = 0\<rparr>, c, s)
           | Some ob \<Rightarrow>
               (case horizon_completion_take (so_completion ob) of
                  Some (m, q) \<Rightarrow>
                    (let s1 = put_object port (ob\<lparr>so_completion := q\<rparr>) s
                     in (\<lparr>rc_error = HORIZON_STATUS_SUCCESS, rc_msg = Some m, rc_wait_handle = 0\<rparr>, c,
                         case cn_completion_wait c of
                           None \<Rightarrow> s1
                         | Some wait \<Rightarrow> horizon_server_bind_completion_wait_locked wait port s1))
                | None \<Rightarrow>
                    (case horizon_server_completion_wait_locked alloc c s of
                       None \<Rightarrow> (\<lparr>rc_error = HORIZON_STATUS_NO_MEMORY, rc_msg = None, rc_wait_handle = 0\<rparr>, c, s)
                     | Some (wait, c1, s1) \<Rightarrow>
                         (\<lparr>rc_error = HORIZON_STATUS_PENDING, rc_msg = None,
                            rc_wait_handle = cn_completion_wait_handle c1\<rparr>, c1,
                          horizon_server_bind_completion_wait_locked wait port s1)))))"

definition horizon_server_handle_get_thread_completion ::
    "horizon_server_connection \<Rightarrow> server \<Rightarrow> (u32 + horizon_completion_msg) \<times> server" where
  "horizon_server_handle_get_thread_completion c s =
     (case cn_completion_wait c of
        None \<Rightarrow> (Inl HORIZON_STATUS_INVALID_HANDLE, s)
      | Some wait \<Rightarrow>
          (case object_at s wait of
             None \<Rightarrow> (Inl HORIZON_STATUS_INVALID_HANDLE, s)
           | Some ob \<Rightarrow>
               if \<not> so_wait_has_msg ob then (Inl HORIZON_STATUS_INVALID_HANDLE, s)
               else (Inr (so_wait_msg ob), put_object wait (ob\<lparr>so_wait_has_msg := False\<rparr>) s)))"

definition horizon_server_handle_query_completion :: "u32 \<Rightarrow> server \<Rightarrow> u32 \<times> u32" where
  "horizon_server_handle_query_completion handle s =
     (case horizon_server_find_typed_object_locked s handle OBJECT_COMPLETION of
        Inl st \<Rightarrow> (st, 0)
      | Inr port \<Rightarrow>
          (HORIZON_STATUS_SUCCESS,
           case object_at s port of None \<Rightarrow> 0 | Some ob \<Rightarrow> cq_depth (so_completion ob)))"

text \<open>Each search after the first is made only when the one before found another type.\<close>

definition horizon_server_find_io_object_locked :: "server \<Rightarrow> u32 \<Rightarrow> u32 + ptr" where
  "horizon_server_find_io_object_locked s handle =
     (let retry = (\<lambda>r ty. case r of
                     Inl st \<Rightarrow> if st = HORIZON_STATUS_OBJECT_TYPE_MISMATCH
                               then horizon_server_find_typed_object_locked s handle ty else r
                   | Inr p \<Rightarrow> r)
      in retry (retry (horizon_server_find_typed_object_locked s handle OBJECT_FILE) OBJECT_SOCK) OBJECT_NSI)"

definition horizon_server_handle_set_completion_info :: "u32 \<Rightarrow> u32 \<Rightarrow> u64 \<Rightarrow> server \<Rightarrow> u32 \<times> server" where
  "horizon_server_handle_set_completion_info handle chandle ckey s =
     (case horizon_server_find_io_object_locked s handle of
        Inl st \<Rightarrow> (st, s)
      | Inr file \<Rightarrow>
          (case object_at s file of
             None \<Rightarrow> (HORIZON_STATUS_INVALID_HANDLE, s)
           | Some f \<Rightarrow>
               if \<not> horizon_completion_file_overlapped (so_file_options f) \<or> so_file_completion f \<noteq> None
               then (HORIZON_STATUS_INVALID_PARAMETER, s)
               else (case horizon_server_find_typed_object_locked s chandle OBJECT_COMPLETION of
                       Inl st \<Rightarrow> (st, s)
                     | Inr port \<Rightarrow> (HORIZON_STATUS_SUCCESS, set_file_completion file port ckey s))))"

definition horizon_server_handle_add_fd_completion ::
    "environment \<Rightarrow> ptr option \<Rightarrow> u32 \<Rightarrow> bool \<Rightarrow> u64 \<Rightarrow> u32 \<Rightarrow> u64 \<Rightarrow> server \<Rightarrow> u32 \<times> server" where
  "horizon_server_handle_add_fd_completion env alloc handle async cvalue status information s =
     (case horizon_server_find_io_object_locked s handle of
        Inl st \<Rightarrow> (st, s)
      | Inr file \<Rightarrow>
          (HORIZON_STATUS_SUCCESS,
           case object_at s file of
             None \<Rightarrow> s
           | Some f \<Rightarrow>
               (case so_file_completion f of
                  None \<Rightarrow> s
                | Some port \<Rightarrow>
                    if horizon_completion_file_posts async (so_file_completion_flags f)
                    then horizon_server_post_completion_locked env alloc port (so_file_completion_key f)
                           cvalue status information s
                    else s)))"

definition horizon_server_handle_set_fd_completion_mode :: "u32 \<Rightarrow> u32 \<Rightarrow> server \<Rightarrow> u32 \<times> server" where
  "horizon_server_handle_set_fd_completion_mode handle flags s =
     (case horizon_server_find_io_object_locked s handle of
        Inl st \<Rightarrow> (st, s)
      | Inr file \<Rightarrow>
          (case object_at s file of
             None \<Rightarrow> (HORIZON_STATUS_INVALID_HANDLE, s)
           | Some f \<Rightarrow>
               if horizon_completion_file_overlapped (so_file_options f)
               then (HORIZON_STATUS_SUCCESS,
                     put_object file (f\<lparr>so_file_completion_flags :=
                       horizon_completion_file_mode (so_file_completion_flags f) flags\<rparr>) s)
               else (HORIZON_STATUS_INVALID_PARAMETER, s)))"

text \<open>The client is gone: its wait object loses the handle it was given and the connection's
  reference.\<close>

definition horizon_server_end_completion_wait_locked ::
    "horizon_server_connection \<Rightarrow> server \<Rightarrow> horizon_server_connection \<times> server" where
  "horizon_server_end_completion_wait_locked c s =
     (case cn_completion_wait c of
        None \<Rightarrow> (c, s)
      | Some wait \<Rightarrow>
          (let s1 = (case horizon_server_find_handle_locked s (cn_completion_wait_handle c) of
                       None \<Rightarrow> s
                     | Some entry \<Rightarrow>
                         if he_object entry = wait
                         then update_object wait (\<lambda>ob. ob\<lparr>so_refs := so_refs ob - 1\<rparr>)
                                (horizon_server_unlink_handle_locked s entry)
                         else s)
           in (c\<lparr>cn_completion_wait := None, cn_completion_wait_handle := 0\<rparr>, unhold wait s1)))"

section \<open>User APCs\<close>

text \<open>The queue is kept by its last node; \<open>alloc\<close> is the memory for the call. Every thread that
  waits alertably on behalf of the target is woken.\<close>

definition horizon_server_queue_user_apc_locked ::
    "ptr option \<Rightarrow> ptr \<Rightarrow> u8 list \<Rightarrow> server \<Rightarrow> u32 \<times> server" where
  "horizon_server_queue_user_apc_locked alloc thread call s =
     (if call = [] \<or> length call > HORIZON_USER_APC_MAX then (HORIZON_STATUS_INVALID_PARAMETER, s)
      else (case (alloc, object_at s thread) of
              (Some p, Some t) \<Rightarrow>
                (let nodes = (case so_apc_last t of
                                Some l \<Rightarrow> append_after l (p, call) (so_apcs t)
                              | None \<Rightarrow> [(p, call)]);
                     s1 = put_object thread (t\<lparr>so_apcs := nodes, so_apc_last := Some p\<rparr>) s
                 in (HORIZON_STATUS_SUCCESS,
                     fold (\<lambda>w s. case sv_waiter s w of
                                   None \<Rightarrow> s
                                 | Some x \<Rightarrow> if sw_thread x = thread \<and> sw_flags x AND HORIZON_SELECT_ALERTABLE \<noteq> 0
                                             then horizon_sync_notify_locked w s else s) (sv_waiters s1) s1))
            | _ \<Rightarrow> (HORIZON_STATUS_NO_MEMORY, s)))"

definition horizon_server_take_user_apc_locked :: "ptr option \<Rightarrow> server \<Rightarrow> (u8 list) option \<times> server" where
  "horizon_server_take_user_apc_locked thread s =
     (case thread of
        None \<Rightarrow> (None, s)
      | Some p \<Rightarrow>
          (case object_at s p of
             None \<Rightarrow> (None, s)
           | Some t \<Rightarrow>
               (case so_apcs t of
                  [] \<Rightarrow> (None, s)
                | (q, call) # rest \<Rightarrow>
                    (Some call, put_object p (t\<lparr>so_apcs := rest,
                       so_apc_last := (if rest = [] then None else so_apc_last t)\<rparr>) s))))"

section \<open>What waiting leaves alone\<close>

text \<open>The part of the state that handles, references and the list of armed timers live in. Waits, wakes and signals keep it.\<close>

definition skeleton where
  "skeleton s = (sv_handles s, sv_hash s, sv_next_handle s, sv_holds s, sv_threads s, sv_timers s,
     (\<lambda>p. map_option (\<lambda>ob. (shape ob, so_refs ob, so_timer_when ob)) (object_at s p)))"

lemma skeleton_parts:
  assumes "skeleton s' = skeleton s"
  shows "sv_handles s' = sv_handles s" "sv_hash s' = sv_hash s" "sv_next_handle s' = sv_next_handle s"
    "sv_holds s' = sv_holds s" "sv_threads s' = sv_threads s" "sv_timers s' = sv_timers s"
    "map_option (\<lambda>ob. (shape ob, so_refs ob, so_timer_when ob)) (object_at s' p) = map_option (\<lambda>ob. (shape ob, so_refs ob, so_timer_when ob)) (object_at s p)"
  using assms by (simp_all add: skeleton_def fun_eq_iff)

lemma skeleton_at:
  assumes "skeleton s' = skeleton s" "object_at s p = Some ob"
  shows "\<exists>ob'. object_at s' p = Some ob' \<and> shape ob' = shape ob \<and> so_refs ob' = so_refs ob \<and>
    so_timer_when ob' = so_timer_when ob"
  using skeleton_parts(7) [OF assms(1), of p] assms(2) by auto

lemma skeleton_none:
  assumes "skeleton s' = skeleton s"
  shows "object_at s' p = None \<longleftrightarrow> object_at s p = None"
  using skeleton_parts(7) [OF assms, of p] by (cases "object_at s' p"; cases "object_at s p") auto

lemma skeleton_type:
  assumes "skeleton s' = skeleton s"
  shows "map_option so_type (object_at s' p) = map_option so_type (object_at s p)"
  using skeleton_parts(7) [OF assms, of p] shape_type
  by (cases "object_at s' p"; cases "object_at s p") auto

lemma skeleton_ref_count:
  assumes "skeleton s' = skeleton s"
  shows "ref_count s' p = ref_count s p"
proof -
  have dom: "fmdom (sv_objects s') = fmdom (sv_objects s)"
    using skeleton_none [OF assms] by (intro fset_eqI) (metis fmdom_notD fmdom_notI)
  have "object_refs (the (object_at s' q)) = object_refs (the (object_at s q))" if "q |\<in>| fmdom (sv_objects s)" for q
  proof -
    from that obtain ob where ob: "object_at s q = Some ob" by (auto simp: fmlookup_dom_iff)
    from skeleton_at [OF assms ob] obtain ob' where o: "object_at s' q = Some ob'" "shape ob' = shape ob" by blast
    with ob show ?thesis using shape_refs [OF o(2)] by simp
  qed
  then have "object_ref_count s' p = object_ref_count s p"
    unfolding object_ref_count_def dom by (intro sum.cong) auto
  then show ?thesis using skeleton_parts [OF assms] by (simp add: ref_count_def)
qed

lemma skeleton_ports:
  assumes sk: "skeleton s' = skeleton s" and inv: "ports_inv s"
  shows "ports_inv s'"
  unfolding ports_inv_def
proof (intro allI impI conjI; (elim conjE)?)
  fix p ob
  assume p: "object_at s' p = Some ob" "so_type ob = OBJECT_COMPLETION"
  from skeleton_at [OF sk [symmetric] p(1)] obtain ob' where ob': "object_at s p = Some ob'" "shape ob' = shape ob" by blast
  with inv p(2) shape_type [OF ob'(2)] shape_refs [OF ob'(2)] show "object_refs ob = []"
    by (auto simp: ports_inv_def)
next
  fix p ob q
  assume p: "object_at s' p = Some ob" and q: "so_wait_port ob = Some q \<or> so_file_completion ob = Some q"
    and l: "object_at s' q \<noteq> None"
  from skeleton_at [OF sk [symmetric] p(1)] obtain ob' where ob': "object_at s p = Some ob'" "shape ob' = shape ob" by blast
  have "so_wait_port ob' = Some q \<or> so_file_completion ob' = Some q" using q ob'(2) by (auto simp: shape_def)
  moreover have "object_at s q \<noteq> None" using l skeleton_none [OF sk] by simp
  ultimately have "port_at s q" using inv ob'(1) unfolding ports_inv_def by blast
  then show "port_at s' q" using skeleton_type [OF sk, of q] by (simp add: port_at_def)
qed

text \<open>A reference that is still to be given back is one the skeleton does not show.\<close>

lemma refs_inv_skeleton:
  assumes sk: "skeleton s' = skeleton s" and inv: "refs_inv work s"
  shows "refs_inv work s'"
  unfolding refs_inv_def
proof (intro conjI allI impI)
  fix p ob
  assume p: "object_at s' p = Some ob"
  from skeleton_at [OF sk [symmetric] p] obtain ob' where "object_at s p = Some ob'" "so_refs ob' = so_refs ob" by blast
  moreover from this(1) have "unat (so_refs ob') = ref_count s p + work_refs work p" "so_refs ob' \<noteq> 0"
    using inv unfolding refs_inv_def by blast+
  ultimately show "unat (so_refs ob) = ref_count s' p + work_refs work p" "so_refs ob \<noteq> 0"
    by (simp_all add: skeleton_ref_count [OF sk])
next
  fix p
  assume "0 < ref_count s' p + work_refs work p"
  then have "object_at s p \<noteq> None" using inv unfolding refs_inv_def skeleton_ref_count [OF sk] by metis
  then show "object_at s' p \<noteq> None" using skeleton_none [OF sk] by metis
qed

lemma objects_inv_skeleton:
  assumes sk: "skeleton s' = skeleton s" and inv: "objects_inv s"
  shows "objects_inv s'"
  using inv refs_inv_skeleton [OF sk] skeleton_ports [OF sk]
  by (simp add: objects_inv_def table_inv_def lists_inv_def skeleton_parts [OF sk] skeleton_type [OF sk])

text \<open>Handle lookups see the skeleton only.\<close>

lemma skeleton_find: "skeleton s' = skeleton s \<Longrightarrow> horizon_server_find_handle_locked s' = horizon_server_find_handle_locked s"
  by (drule skeleton_parts) (simp add: horizon_server_find_handle_locked_def fun_eq_iff)

lemma skeleton_put:
  "object_at s p = Some ob \<Longrightarrow> shape ob' = shape ob \<Longrightarrow> so_refs ob' = so_refs ob \<Longrightarrow>
   so_timer_when ob' = so_timer_when ob \<Longrightarrow> skeleton (put_object p ob' s) = skeleton s"
  by (simp add: skeleton_def fun_eq_iff)

text \<open>The waiting threads: which are queued, for what, and on which object's list.\<close>

definition queues where
  "queues s = (sv_waiters s, (\<lambda>w. map_option sw_links (sv_waiter s w)), (\<lambda>p. map_option so_waiters (object_at s p)))"

definition frame where
  "frame s = (skeleton s, queues s)"

lemma frame_skeleton: "frame s' = frame s \<Longrightarrow> skeleton s' = skeleton s"
  and frame_queues: "frame s' = frame s \<Longrightarrow> queues s' = queues s"
  by (simp_all add: frame_def)

lemma frame_put:
  "object_at s p = Some ob \<Longrightarrow> shape ob' = shape ob \<Longrightarrow> so_refs ob' = so_refs ob \<Longrightarrow>
   so_timer_when ob' = so_timer_when ob \<Longrightarrow> so_waiters ob' = so_waiters ob \<Longrightarrow> frame (put_object p ob' s) = frame s"
  by (simp add: frame_def skeleton_def queues_def fun_eq_iff)

lemma frame_update:
  "(\<And>ob. shape (f ob) = shape ob) \<Longrightarrow> (\<And>ob. so_refs (f ob) = so_refs ob) \<Longrightarrow>
   (\<And>ob. so_timer_when (f ob) = so_timer_when ob) \<Longrightarrow> (\<And>ob. so_waiters (f ob) = so_waiters ob) \<Longrightarrow> frame (update_object p f s) = frame s"
  by (cases "object_at s p") (simp_all add: update_object_def frame_put)

lemma skeleton_simps [simp]:
  "skeleton (s\<lparr>sv_waiter := x\<rparr>) = skeleton s" "skeleton (s\<lparr>sv_waiters := y\<rparr>) = skeleton s"
  "skeleton (s\<lparr>sv_asyncs := z\<rparr>) = skeleton s" "skeleton (s\<lparr>sv_effects := e\<rparr>) = skeleton s"
  "skeleton (s\<lparr>sv_running_threads := n\<rparr>) = skeleton s"
  "skeleton (update_waiter w f s) = skeleton s" "skeleton (horizon_sync_notify_locked w s) = skeleton s"
  "skeleton (emit eff s) = skeleton s"
  by (simp_all add: skeleton_def update_waiter_def horizon_sync_notify_locked_def emit_def)

lemma frame_update_waiter:
  "(\<And>x. sw_links (f x) = sw_links x) \<Longrightarrow> frame (update_waiter w f s) = frame s"
  by (simp add: frame_def queues_def) (auto simp: update_waiter_def fun_eq_iff map_option_case split: option.splits)

lemma frame_simps [simp]:
  "frame (s\<lparr>sv_asyncs := z\<rparr>) = frame s" "frame (s\<lparr>sv_effects := e\<rparr>) = frame s"
  "frame (s\<lparr>sv_running_threads := n\<rparr>) = frame s"
  "frame (horizon_sync_notify_locked w s) = frame s"
  "frame (update_waiter w (\<lambda>x. x\<lparr>sw_status := st\<rparr>) s) = frame s"
  "frame (update_waiter w (\<lambda>x. x\<lparr>sw_completed := b\<rparr>) s) = frame s"
  "frame (emit eff s) = frame s"
  by (simp_all add: horizon_sync_notify_locked_def frame_update_waiter) (simp_all add: frame_def queues_def emit_def)

lemma frame_consume [simp]: "frame (snd (horizon_server_consume_signal tid s p)) = frame s"
proof (cases "object_at s p")
  case None
  then show ?thesis by (simp add: horizon_server_consume_signal_def)
next
  case (Some ob)
  note put = frame_put [OF Some]
  show ?thesis
  proof (cases "so_type ob = OBJECT_COMPLETION_WAIT")
    case False
    with Some show ?thesis
      by (auto simp: horizon_server_consume_signal_def shape_def intro!: put
          split: horizon_server_object_type.splits prod.splits)
  next
    case True
    show ?thesis
    proof (cases "\<exists>q port. so_wait_port ob = Some q \<and> object_at s q = Some port")
      case False
      with Some True show ?thesis
        by (auto simp: horizon_server_consume_signal_def wait_port_of_def split: option.splits)
    next
      case qp: True
      then obtain q port where q: "so_wait_port ob = Some q" "object_at s q = Some port" by blast
      have 1: "frame (put_object q (port\<lparr>so_completion := x\<rparr>) s) = frame s" for x
        by (rule frame_put [OF q(2)]) (simp_all add: shape_def)
      have 2: "frame (put_object p (ob\<lparr>so_wait_msg := m, so_wait_has_msg := True\<rparr>)
          (put_object q (port\<lparr>so_completion := x\<rparr>) s)) = frame s" for m x
      proof (cases "p = q")
        case True
        with q Some have "port = ob" by simp
        have "frame (put_object p (ob\<lparr>so_wait_msg := m, so_wait_has_msg := True\<rparr>)
            (put_object q (port\<lparr>so_completion := x\<rparr>) s)) = frame (put_object q (port\<lparr>so_completion := x\<rparr>) s)"
          by (rule frame_put [of _ _ "port\<lparr>so_completion := x\<rparr>"]) (simp_all add: True \<open>port = ob\<close> shape_def)
        with 1 show ?thesis by simp
      next
        case False
        have "frame (put_object p (ob\<lparr>so_wait_msg := m, so_wait_has_msg := True\<rparr>)
            (put_object q (port\<lparr>so_completion := x\<rparr>) s)) = frame (put_object q (port\<lparr>so_completion := x\<rparr>) s)"
          using False Some by (intro frame_put [of _ _ ob]) (simp_all add: shape_def)
        with 1 show ?thesis by simp
      qed
      have 3: "frame (put_object p (ob\<lparr>so_wait_has_msg := False\<rparr>) s) = frame s"
        by (rule put) (simp_all add: shape_def)
      show ?thesis
        using Some True q 2 3
        by (auto simp: horizon_server_consume_signal_def wait_port_of_def split: prod.splits option.splits)
    qed
  qed
qed

lemma frame_wait [simp]: "frame (snd (horizon_server_wait_object_locked env tid me s h c)) = frame s"
proof -
  have "frame s1 = frame s" if "horizon_server_consume_signal tid s p = (ab, s1)" for p ab s1
    using frame_consume [of tid s p] that by simp
  then show ?thesis
    by (auto simp: horizon_server_wait_object_locked_def Let_def split: option.splits sum.splits prod.splits)
qed

lemma frame_consume_all [simp]: "frame (snd (consume_all env tid me st s hs)) = frame s"
proof (induction hs arbitrary: st s)
  case (Cons h hs)
  obtain a s1 where w: "horizon_server_wait_object_locked env tid me s h True = (a, s1)" by fastforce
  then have "frame s1 = frame s" using frame_wait [of env tid me s h True] by simp
  with Cons w show ?case by simp
qed simp

lemma frame_wait_any [simp]: "frame (snd (wait_any env tid me i s hs st)) = frame s"
proof (induction hs arbitrary: i st s)
  case (Cons h hs)
  obtain a s1 where w: "horizon_server_wait_object_locked env tid me s h True = (a, s1)" by fastforce
  then have "frame s1 = frame s" using frame_wait [of env tid me s h True] by simp
  with Cons w show ?case by simp
qed simp

lemma frame_select_wait [simp]: "frame (snd (horizon_server_select_wait env tid me s op sz wa)) = frame s"
  by (simp add: horizon_server_select_wait_def Let_def)

lemma frame_select_status [simp]: "frame (snd (horizon_server_select_status env tid me s sz data)) = frame s"
  by (simp add: horizon_server_select_status_def Let_def split: option.splits)

lemma frame_notify_link [simp]: "frame (notify_link env satisfy link s) = frame s"
proof -
  have "frame s1 = frame s" if "horizon_server_select_status env tid me s sz data = (st, s1)" for tid me sz data st s1
    using frame_select_status [of env tid me s sz data] that by simp
  then show ?thesis by (auto simp: notify_link_def Let_def split: option.splits prod.splits)
qed

lemma frame_fold: "(\<And>x s. frame (f x s) = frame s) \<Longrightarrow> frame (fold f xs s) = frame s"
  by (induction xs arbitrary: s) auto

lemma frame_notify_object [simp]: "frame (horizon_sync_notify_object_locked env p satisfy s) = frame s"
  by (auto simp: horizon_sync_notify_object_locked_def frame_fold split: option.splits)

lemma frame_notify_async [simp]: "frame (horizon_sync_notify_async_locked env s) = frame s"
  by (auto simp: horizon_sync_notify_async_locked_def intro!: frame_fold split: option.splits)

lemma frame_close_notify [simp]: "frame (close_notify env handle p s) = frame s"
proof -
  have closed: "frame (update_object p (\<lambda>ob. ob\<lparr>so_completion_closed := True\<rparr>) t) = frame t" for t
    by (rule frame_update) (simp_all add: shape_def)
  show ?thesis by (auto simp: close_notify_def Let_def closed split: prod.splits option.splits)
qed

lemma frame_delete_on_close: "frame (snd (delete_on_close env p ob s)) = frame s"
proof -
  have "frame (update_object p (\<lambda>ob. ob\<lparr>so_file_fd := -1\<rparr>) t) = frame t" for t
    by (rule frame_update) (simp_all add: shape_def)
  then show ?thesis by (auto simp: delete_on_close_def Let_def split: option.splits)
qed

text \<open>The two halves of the frame.\<close>

lemmas skeleton_consume [simp] = frame_consume [THEN frame_skeleton]
lemmas skeleton_wait [simp] = frame_wait [THEN frame_skeleton]
lemmas skeleton_consume_all [simp] = frame_consume_all [THEN frame_skeleton]
lemmas skeleton_wait_any [simp] = frame_wait_any [THEN frame_skeleton]
lemmas skeleton_select_wait [simp] = frame_select_wait [THEN frame_skeleton]
lemmas skeleton_select_status [simp] = frame_select_status [THEN frame_skeleton]
lemmas skeleton_notify_link [simp] = frame_notify_link [THEN frame_skeleton]
lemmas skeleton_notify_object [simp] = frame_notify_object [THEN frame_skeleton]
lemmas skeleton_notify_async [simp] = frame_notify_async [THEN frame_skeleton]
lemmas skeleton_close_notify [simp] = frame_close_notify [THEN frame_skeleton]
lemmas skeleton_delete_on_close [simp] = frame_delete_on_close [THEN frame_skeleton]

lemma close_inv:
  assumes inv: "objects_inv s"
  shows "objects_inv (snd (horizon_server_close_object_handle env handle s))"
proof (cases "horizon_server_find_handle_locked s handle")
  case None
  with inv show ?thesis by (simp add: horizon_server_close_object_handle_def)
next
  case (Some e)
  have mem: "e \<in> set (sv_handles s)" using inv Some find_handle_mem by (auto simp: objects_inv_def)
  define s0 where "s0 = horizon_server_unlink_handle_locked s e"
  define s1 where "s1 = close_notify env handle (he_object e) s0"
  have sk: "skeleton s1 = skeleton s0" by (simp add: s1_def)
  have rel: "objects_inv (release (he_object e) t)" if t: "skeleton t = skeleton s0" for t
  proof -
    note u = unlink_refs [OF inv mem, folded s0_def]
    have "refs_inv [Release (he_object e)] t" using refs_inv_skeleton [OF t] u(1) .
    moreover have "table_inv t" "lists_inv t"
      using u(2,3) by (simp_all add: table_inv_def lists_inv_def skeleton_parts [OF t] skeleton_type [OF t])
    moreover have "ports_inv t" using skeleton_ports [OF t u(4)] .
    ultimately show ?thesis unfolding release_def by (intro release_all_inv)
  qed
  have "refs_inv [Release (he_object e)] s1"
    using refs_inv_skeleton [OF sk] unlink_refs(1) [OF inv mem] by (simp add: s0_def)
  then have "object_at s1 (he_object e) \<noteq> None" "\<And>ob. object_at s1 (he_object e) = Some ob \<Longrightarrow> so_refs ob \<noteq> 0"
    by (simp_all add: refs_inv_def)
  then obtain ob where ob: "object_at s1 (he_object e) = Some ob" "so_refs ob \<noteq> 0" by blast
  have dl: "skeleton s2 = skeleton s0" if "delete_on_close env (he_object e) ob s1 = (st, s2)" for st s2
    using skeleton_delete_on_close [of env "he_object e" ob s1] that sk by simp
  obtain st s2 where d: "delete_on_close env (he_object e) ob s1 = (st, s2)" by fastforce
  show ?thesis
    using Some ob rel [OF sk] rel [OF dl [OF d]] d inv
    by (simp add: horizon_server_close_object_handle_def Let_def s0_def [symmetric] s1_def [symmetric])
qed

section \<open>Armed timers\<close>

text \<open>A timer is in the list exactly while it has a time to expire at.\<close>

definition armed_inv :: "server \<Rightarrow> bool" where
  "armed_inv s \<longleftrightarrow> (\<forall>p ob. object_at s p = Some ob \<longrightarrow>
     (p \<in> set (sv_timers s) \<longleftrightarrow> so_type ob = OBJECT_TIMER \<and> so_timer_when ob \<noteq> 0))"

definition server_inv :: "server \<Rightarrow> bool" where
  "server_inv s \<longleftrightarrow> objects_inv s \<and> armed_inv s"

lemma armed_skeleton:
  assumes sk: "skeleton s' = skeleton s" and inv: "armed_inv s"
  shows "armed_inv s'"
  unfolding armed_inv_def
proof (intro allI impI)
  fix p ob
  assume "object_at s' p = Some ob"
  from skeleton_at [OF sk [symmetric] this] obtain ob' where ob': "object_at s p = Some ob'" "shape ob' = shape ob"
    "so_timer_when ob' = so_timer_when ob" by blast
  then have "p \<in> set (sv_timers s) \<longleftrightarrow> so_type ob' = OBJECT_TIMER \<and> so_timer_when ob' \<noteq> 0"
    using inv by (simp add: armed_inv_def)
  with ob' shape_type [OF ob'(2)] show "p \<in> set (sv_timers s') \<longleftrightarrow> so_type ob = OBJECT_TIMER \<and> so_timer_when ob \<noteq> 0"
    by (simp add: skeleton_parts [OF sk])
qed

lemma server_inv_skeleton: "server_inv s \<Longrightarrow> skeleton s' = skeleton s \<Longrightarrow> server_inv s'"
  by (auto simp: server_inv_def intro: objects_inv_skeleton armed_skeleton)

lemma armed_put:
  assumes "armed_inv s" "sv_objects s' = fmupd p ob' (sv_objects s)" "sv_timers s' = sv_timers s"
    and "\<And>ob. object_at s p = Some ob \<Longrightarrow> so_type ob' = so_type ob \<and> so_timer_when ob' = so_timer_when ob"
    and "object_at s p = None \<Longrightarrow> so_timer_when ob' = 0 \<and> p \<notin> set (sv_timers s)"
  shows "armed_inv s'"
  using assms by (cases "object_at s p") (auto simp: armed_inv_def)

lemma free_begin_timers:
  "lists_inv s \<Longrightarrow> object_at s p = Some ob \<Longrightarrow> sv_timers (free_begin p ob s) = remove1 p (sv_timers s)"
  by (cases "p \<in> set (sv_timers s)")
    (auto simp: free_begin_def horizon_server_unlink_timer_locked_def unlink_ptr_remove1 Let_def lists_inv_def remove1_idem)

lemma release_all_armed:
  assumes "lists_inv s \<and> armed_inv s"
  shows "lists_inv (release_all work s) \<and> armed_inv (release_all work s)"
  using assms
proof (rule release_all_keeps [rotated -1])
  show "lists_inv (free_finish ob s) \<and> armed_inv (free_finish ob s)" if "lists_inv s \<and> armed_inv s" for ob s
    using that by (simp add: lists_inv_def armed_inv_def)
  show "lists_inv (free_begin p ob s) \<and> armed_inv (free_begin p ob s)"
    if "lists_inv s \<and> armed_inv s" "object_at s p = Some ob" for p ob s
    using that lists_free_begin by (auto simp: armed_inv_def free_begin_timers lists_inv_def split: if_splits)
  show "lists_inv (put_object p (ob\<lparr>so_refs := so_refs ob - 1\<rparr>) s) \<and> armed_inv (put_object p (ob\<lparr>so_refs := so_refs ob - 1\<rparr>) s)"
    if "lists_inv s \<and> armed_inv s" "object_at s p = Some ob" for p ob s
    using that by (auto intro: lists_put simp: armed_inv_def)
qed

lemma armed_cong:
  "sv_objects s' = sv_objects s \<Longrightarrow> sv_timers s' = sv_timers s \<Longrightarrow> armed_inv s' = armed_inv s"
  by (simp add: armed_inv_def)

lemma armed_update:
  assumes "armed_inv s" "\<And>ob. so_type (f ob) = so_type ob" "\<And>ob. so_timer_when (f ob) = so_timer_when ob"
  shows "armed_inv (update_object p f s)"
  using assms by (cases "object_at s p") (auto simp: update_object_def armed_inv_def)

lemma release_inv:
  assumes "table_inv s" "refs_inv [Release p] s" "lists_inv s" "ports_inv s" "armed_inv s"
  shows "server_inv (release p s)"
  using assms release_all_inv [of s "[Release p]"] release_all_armed [of s "[Release p]"]
  by (simp add: server_inv_def release_def)

lemma unhold_server_inv:
  assumes "server_inv s" "p \<in> set (sv_holds s)"
  shows "server_inv (unhold p s)"
proof -
  have "armed_inv (unhold p s)"
    using assms(1) release_all_armed [of "s\<lparr>sv_holds := remove1 p (sv_holds s)\<rparr>" "[Release p]"]
    by (simp add: unhold_def release_def server_inv_def objects_inv_def lists_inv_def armed_inv_def)
  with assms unhold_inv show ?thesis by (simp add: server_inv_def)
qed

lemma hold_server_inv:
  assumes "server_inv s" "refs_room p s"
  shows "server_inv (hold p s)"
proof -
  have "armed_inv (update_object p (\<lambda>ob. ob\<lparr>so_refs := so_refs ob + 1\<rparr>) s)"
    using assms(1) by (intro armed_update) (simp_all add: server_inv_def)
  then have "armed_inv (hold p s)"
    by (simp add: hold_def armed_inv_def)
  with assms hold_inv show ?thesis by (simp add: server_inv_def)
qed

lemma new_object_when [simp]: "so_timer_when (new_object ty) = 0"
  by (simp add: new_object_def)

lemma create_handle_server_inv:
  assumes "server_inv s" "fresh_object p s" "fresh_entry q s"
  shows "server_inv (put_object p (new_object ty) (add_entry q acc p s))"
proof -
  have o: "objects_inv s" and a: "armed_inv s" using assms(1) by (simp_all add: server_inv_def)
  have none: "object_at s p = None" using assms(2) by (simp add: fresh_object_def)
  have "armed_inv (put_object p (new_object ty) (add_entry q acc p s))"
    by (rule armed_put [OF a, where p = p and ob' = "new_object ty"])
      (use none unreferenced(3) [OF o none] in simp_all)
  with create_handle_inv [OF o assms(2,3)] show ?thesis by (simp add: server_inv_def)
qed

lemma armed_add_entry [simp]: "armed_inv (add_entry q acc p s) = armed_inv s"
  by (rule armed_cong) simp_all

lemma armed_unlink [simp]: "armed_inv (horizon_server_unlink_handle_locked s e) = armed_inv s"
  by (rule armed_cong) (simp_all add: horizon_server_unlink_handle_locked_def Let_def)

lemma create_named_armed:
  assumes inv: "server_inv s" and ok: "named_ok alloc s"
    and c: "horizon_server_create_named_object_handle_locked alloc ty name s = (status, e, s')"
  shows "armed_inv s'"
proof -
  have a: "armed_inv s" and o: "objects_inv s" using inv by (simp_all add: server_inv_def)
  have dup: "armed_inv s1" if "horizon_server_create_handle_for_object_locked x p s = Some (e, s1)" for x p e s1
    using that a
    by (cases x) (auto simp: horizon_server_create_handle_for_object_locked_def [where alloc = None]
        create_handle_for_object_eq intro!: armed_update)
  show ?thesis
  proof (cases "horizon_server_find_named_object_any_locked s name")
    case (Some p)
    with c a dup show ?thesis
      by (auto simp: horizon_server_create_named_object_handle_locked_def split: if_splits option.splits)
  next
    case None
    show ?thesis
    proof (cases "\<exists>p q. oa_object alloc = Some p \<and> oa_entry alloc = Some q")
      case False
      with None c a show ?thesis
        by (auto simp: horizon_server_create_named_object_handle_locked_def
            horizon_server_create_handle_locked_def split: option.splits)
    next
      case True
      then obtain p q where pq: "oa_object alloc = Some p" "oa_entry alloc = Some q" by blast
      define s1 where "s1 = put_object p (new_object ty) (add_entry q 0 p s)"
      define e1 where "e1 = \<lparr>he_addr = q, he_handle = sv_next_handle s + 4, he_access = 0, he_object = p\<rparr>"
      have cr: "horizon_server_create_handle_locked (Some p, Some q) ty s = Some (e1, s1)"
        by (simp add: create_handle_eq e1_def s1_def)
      have i1: "server_inv s1"
        unfolding s1_def by (rule create_handle_server_inv [OF inv]) (use ok pq in \<open>simp_all add: named_ok_def\<close>)
      have mem: "e1 \<in> set (sv_handles s1)"
        by (simp add: e1_def s1_def add_entry_def horizon_server_link_handle_locked_def Let_def)
      have named: "armed_inv (update_object p (\<lambda>ob. ob\<lparr>so_name := n, so_rootdir := r\<rparr>) s1)" for n r
        using i1 by (intro armed_update) (simp_all add: server_inv_def)
      have ob: "object_at (horizon_server_unlink_handle_locked s1 e1) p = Some (new_object ty)"
        by (simp add: horizon_server_unlink_handle_locked_def Let_def s1_def)
      have u: "refs_inv [Release p] (horizon_server_unlink_handle_locked s1 e1)"
        "table_inv (horizon_server_unlink_handle_locked s1 e1)" "lists_inv (horizon_server_unlink_handle_locked s1 e1)"
        "ports_inv (horizon_server_unlink_handle_locked s1 e1)"
        using unlink_refs [OF _ mem] i1 by (simp_all add: server_inv_def e1_def)
      have failed: "armed_inv (horizon_server_free_object p (horizon_server_unlink_handle_locked s1 e1))"
        using release_inv [OF u(2,1,3,4)] i1 free_object_release [OF ob] by (simp add: server_inv_def)
      show ?thesis
        using c None pq cr i1 named failed
        by (auto simp: horizon_server_create_named_object_handle_locked_def horizon_server_set_object_name_def
            e1_def server_inv_def split: if_splits)
    qed
  qed
qed

lemma create_named_new:
  assumes "horizon_server_create_named_object_handle_locked alloc ty name s = (HORIZON_STATUS_SUCCESS, Some e, s')"
  shows "\<exists>ob. object_at s' (he_object e) = Some ob \<and> so_timer_when ob = 0 \<and> so_waiters ob = [] \<and> so_type ob = ty"
  using assms
  by (auto simp: horizon_server_create_named_object_handle_locked_def horizon_server_create_handle_locked_def
      horizon_server_set_object_name_def horizon_server_alloc_handle_def horizon_server_link_handle_locked_def
      update_object_def new_object_def Let_def split: option.splits if_splits prod.splits)

lemma create_object_inv:
  assumes inv: "server_inv s" and ok: "named_ok alloc s"
    and f: "\<And>ob. shape (f ob) = shape ob" "\<And>ob. so_refs (f ob) = so_refs ob"
      "\<And>ob. so_timer_when ob = 0 \<Longrightarrow> so_timer_when (f ob) = 0"
  shows "server_inv (snd (snd (create_object alloc ty name f s)))"
proof -
  obtain status e s1 where c: "horizon_server_create_named_object_handle_locked alloc ty name s = (status, e, s1)"
    by (metis prod_cases3)
  have i: "server_inv s1"
    using create_named_inv [OF _ ok c] create_named_armed [OF inv ok c] inv by (simp add: server_inv_def)
  have "server_inv (update_object (he_object en) f s1)" if "status = HORIZON_STATUS_SUCCESS" "e = Some en" for en
  proof -
    from create_named_new [OF c [unfolded that]] obtain ob
      where ob: "object_at s1 (he_object en) = Some ob" "so_timer_when ob = 0" by blast
    with i f show ?thesis by (auto simp: update_object_def intro!: server_inv_skeleton [OF i skeleton_put])
  qed
  with c i show ?thesis by (simp add: create_object_def split: option.splits)
qed

end
