(* ===== verification/HzServer.thy ===== *)
theory HzServer
  imports HzSync
begin

text \<open>
  The requests on objects taken together: every handler of \<open>HzSync\<close> and \<open>HzObjects\<close> keeps the
  invariant of the server's tables, so it holds after any sequence of requests. The properties of
  handles, reference counts and armed timers follow from it.
\<close>

section \<open>Requests that only change the inside of an object\<close>

lemma find_typed_live:
  assumes "objects_inv s" "horizon_server_find_typed_object_locked s handle ty = Inr p"
  shows "\<exists>ob. object_at s p = Some ob \<and> so_type ob = ty"
  using assms find_handle_live
  by (fastforce simp: horizon_server_find_typed_object_locked_def split: if_splits option.splits)

lemma frame_put_inside:
  assumes "object_at s p = Some ob"
  shows "frame (put_object p (ob\<lparr>so_signaled := b\<rparr>) s) = frame s"
    "frame (put_object p (ob\<lparr>so_mutex := m\<rparr>) s) = frame s"
    "frame (put_object p (ob\<lparr>so_count := n\<rparr>) s) = frame s"
    "frame (put_object p (ob\<lparr>so_completion := q\<rparr>) s) = frame s"
    "frame (put_object p (ob\<lparr>so_wait_has_msg := b\<rparr>) s) = frame s"
    "frame (put_object p (ob\<lparr>so_file_completion_flags := f\<rparr>) s) = frame s"
    "frame (put_object p (ob\<lparr>so_apcs := a, so_apc_last := l\<rparr>) s) = frame s"
  by (rule frame_put [OF assms]; simp add: shape_def)+

lemma frame_update_signaled [simp]: "frame (update_object p (\<lambda>ob. ob\<lparr>so_signaled := b\<rparr>) s) = frame s"
  by (rule frame_update) (simp_all add: shape_def)

lemma frame_event_op [simp]: "frame (snd (snd (horizon_server_handle_event_op env h op s))) = frame s"
  by (auto simp: horizon_server_handle_event_op_def Let_def frame_put_inside split: sum.splits option.splits event_op.splits)

lemma frame_signal_object [simp]: "frame (snd (horizon_server_signal_object_locked env tid s h)) = frame s"
  by (auto simp: horizon_server_signal_object_locked_def Let_def frame_put_inside
      split: option.splits horizon_server_object_type.splits prod.splits)

lemma frame_release_mutex [simp]: "frame (snd (snd (horizon_server_handle_release_mutex env tid h s))) = frame s"
  by (auto simp: horizon_server_handle_release_mutex_def Let_def frame_put_inside split: sum.splits option.splits prod.splits)

lemma frame_release_semaphore [simp]: "frame (snd (snd (horizon_server_handle_release_semaphore env h n s))) = frame s"
  by (auto simp: horizon_server_handle_release_semaphore_def frame_put_inside split: sum.splits option.splits)

lemma frame_post [simp]: "frame (horizon_server_post_completion_locked env a p k v st i s) = frame s"
  by (auto simp: horizon_server_post_completion_locked_def frame_put_inside split: option.splits prod.splits bool.splits)

lemma frame_add_completion [simp]: "frame (snd (horizon_server_handle_add_completion env a h k v st i s)) = frame s"
  by (simp add: horizon_server_handle_add_completion_def split: sum.splits)

lemma frame_add_fd_completion [simp]:
  "frame (snd (horizon_server_handle_add_fd_completion env a h as v st i s)) = frame s"
  by (simp add: horizon_server_handle_add_fd_completion_def split: sum.splits option.splits)

lemma frame_get_thread_completion [simp]:
  "frame (snd (horizon_server_handle_get_thread_completion c s)) = frame s"
  by (simp add: horizon_server_handle_get_thread_completion_def frame_put_inside split: option.splits)

lemma frame_completion_mode [simp]:
  "frame (snd (horizon_server_handle_set_fd_completion_mode h fl s)) = frame s"
  by (simp add: horizon_server_handle_set_fd_completion_mode_def frame_put_inside split: sum.splits option.splits)

lemma frame_queue_apc [simp]: "frame (snd (horizon_server_queue_user_apc_locked a t call s)) = frame s"
  by (auto simp: horizon_server_queue_user_apc_locked_def Let_def frame_put_inside
      intro!: trans [OF frame_fold] split: option.splits)

lemma frame_take_apc [simp]: "frame (snd (horizon_server_take_user_apc_locked t s)) = frame s"
  by (auto simp: horizon_server_take_user_apc_locked_def frame_put_inside split: option.splits list.splits)

lemmas skeleton_update_signaled [simp] = frame_update_signaled [THEN frame_skeleton]
lemmas skeleton_event_op [simp] = frame_event_op [THEN frame_skeleton]
lemmas skeleton_signal_object [simp] = frame_signal_object [THEN frame_skeleton]
lemmas skeleton_release_mutex [simp] = frame_release_mutex [THEN frame_skeleton]
lemmas skeleton_release_semaphore [simp] = frame_release_semaphore [THEN frame_skeleton]
lemmas skeleton_post [simp] = frame_post [THEN frame_skeleton]
lemmas skeleton_add_completion [simp] = frame_add_completion [THEN frame_skeleton]
lemmas skeleton_add_fd_completion [simp] = frame_add_fd_completion [THEN frame_skeleton]
lemmas skeleton_get_thread_completion [simp] = frame_get_thread_completion [THEN frame_skeleton]
lemmas skeleton_completion_mode [simp] = frame_completion_mode [THEN frame_skeleton]
lemmas skeleton_queue_apc [simp] = frame_queue_apc [THEN frame_skeleton]
lemmas skeleton_take_apc [simp] = frame_take_apc [THEN frame_skeleton]

section \<open>Closing\<close>

lemma close_server_inv:
  assumes inv: "server_inv s"
  shows "server_inv (snd (horizon_server_close_object_handle env handle s))"
proof -
  have o: "objects_inv s" using inv by (simp add: server_inv_def)
  have rel: "armed_inv (release p t)" if "skeleton t = skeleton (horizon_server_unlink_handle_locked s e)" for t p e
  proof -
    have "lists_inv t"
      using o by (simp add: lists_inv_def objects_inv_def skeleton_parts [OF that] skeleton_type [OF that])
        (simp add: horizon_server_unlink_handle_locked_def Let_def)
    moreover have "armed_inv t" using that inv by (intro armed_skeleton [OF that]) (simp add: server_inv_def)
    ultimately show ?thesis unfolding release_def using release_all_armed by blast
  qed
  have dl: "armed_inv (release p s2)"
    if "delete_on_close env p ob (close_notify env handle p (horizon_server_unlink_handle_locked s e)) = (st, s2)" for p ob e st s2
    using skeleton_delete_on_close [of env p ob "close_notify env handle p (horizon_server_unlink_handle_locked s e)"] that
    by (intro rel [where e = e]) simp
  have ar: "armed_inv (close_notify env handle p (horizon_server_unlink_handle_locked s e))" for p e
    using inv by (intro armed_skeleton [OF skeleton_close_notify]) (simp add: server_inv_def)
  have "armed_inv (snd (horizon_server_close_object_handle env handle s))"
    using inv by (auto simp: horizon_server_close_object_handle_def Let_def server_inv_def
        intro: dl rel ar split: option.splits prod.splits)
  with close_inv [OF o] show ?thesis by (simp add: server_inv_def)
qed

section \<open>Timers\<close>

text \<open>An object whose inside and time change while its place in the list of armed timers changes along.\<close>

lemma put_timer_inv:
  assumes inv: "server_inv s" and ob: "object_at s p = Some ob" "so_type ob = OBJECT_TIMER"
    and ob': "shape ob' = shape ob" "so_refs ob' = so_refs ob"
    and ts: "distinct ts" "set ts = (if so_timer_when ob' = 0 then set (sv_timers s) - {p} else insert p (set (sv_timers s)))"
  shows "server_inv (put_object p ob' (s\<lparr>sv_timers := ts\<rparr>))"
proof -
  let ?s = "put_object p ob' (s\<lparr>sv_timers := ts\<rparr>)"
  have o: "objects_inv s" and a: "armed_inv s" using inv by (simp_all add: server_inv_def)
  have t: "so_type ob' = OBJECT_TIMER" using shape_type [OF ob'(1)] ob(2) by simp
  have one: "objects_inv (update_object p (\<lambda>_. ob') s)"
  proof -
    let ?f = "\<lambda>x. if shape x = shape ob \<and> so_refs x = so_refs ob then ob' else x"
    have "objects_inv (update_object p ?f s)" using ob' by (intro update_inv [OF o]) auto
    with ob show ?thesis by (simp add: update_object_def)
  qed
  have same: "sv_objects ?s = sv_objects (update_object p (\<lambda>_. ob') s)" "table_part ?s = table_part (update_object p (\<lambda>_. ob') s)"
      "sv_holds ?s = sv_holds (update_object p (\<lambda>_. ob') s)" "sv_handles ?s = sv_handles (update_object p (\<lambda>_. ob') s)"
      "sv_threads ?s = sv_threads (update_object p (\<lambda>_. ob') s)"
    using ob by (simp_all add: update_object_def table_part_def)
  have "refs_inv [] ?s" 
  proof (rule refs_inv_cong [of "[]" "update_object p (\<lambda>_. ob') s"])
    show "refs_inv [] (update_object p (\<lambda>_. ob') s)" using one by (simp add: objects_inv_def)
    show "object_at ?s q = object_at (update_object p (\<lambda>_. ob') s) q" for q
      using same(1) by (simp only:)
    show "ref_count ?s q + work_refs [] q = ref_count (update_object p (\<lambda>_. ob') s) q + work_refs [] q" for q
      using object_ref_count_cong [OF same(1)] same(3,4) by (simp add: ref_count_def)
  qed
  moreover have "table_inv ?s" using one table_inv_cong [OF same(2)] by (simp add: objects_inv_def)
  moreover have "ports_inv ?s" using one ports_cong [OF same(1)] by (simp add: objects_inv_def)
  moreover have "lists_inv ?s"
    using o one ob ts t by (auto simp: objects_inv_def lists_inv_def update_object_def split: if_splits)
  moreover have "armed_inv ?s"
    using a ob ts(2) t by (auto simp: armed_inv_def split: if_splits)
  ultimately show ?thesis by (simp add: server_inv_def objects_inv_def)
qed

lemma server_inv_timers: "server_inv s \<Longrightarrow> distinct (sv_timers s)"
  by (simp add: server_inv_def objects_inv_def lists_inv_def)

lemma set_timer_inv:
  assumes inv: "server_inv s" and now: "0 < ev_system_time env"
  shows "server_inv (snd (snd (horizon_server_handle_set_timer env handle expire period s)))"
proof (cases "horizon_server_find_typed_object_locked s handle OBJECT_TIMER")
  case (Inl st)
  with inv show ?thesis by (simp add: horizon_server_handle_set_timer_def)
next
  case (Inr p)
  then obtain ob where ob: "object_at s p = Some ob" "so_type ob = OBJECT_TIMER"
    using find_typed_live inv by (metis server_inv_def)
  define w where "w = (if expire \<le> 0 then ev_system_time env - expire else max expire (ev_system_time env))"
  define ob' where "ob' = ob\<lparr>so_timer_when := w, so_timer_period := (if period > 0 then of_int period else 0), so_signaled := False\<rparr>"
  define ts where "ts = (if so_timer_when ob = 0 then p # sv_timers s else sv_timers s)"
  have nz: "so_timer_when ob' \<noteq> 0" using now by (auto simp: ob'_def w_def max_def)
  have mem: "p \<in> set (sv_timers s) \<longleftrightarrow> so_timer_when ob \<noteq> 0" using inv ob by (simp add: server_inv_def armed_inv_def)
  have "server_inv (put_object p ob' (s\<lparr>sv_timers := ts\<rparr>))"
    using nz mem server_inv_timers [OF inv]
    by (intro put_timer_inv [OF inv ob]) (auto simp: ob'_def shape_def ts_def)
  then have "server_inv (horizon_sync_notify_object_locked env p False (put_object p ob' (s\<lparr>sv_timers := ts\<rparr>)))"
    by (rule server_inv_skeleton) simp
  moreover have "(if so_timer_when ob = 0 then s\<lparr>sv_timers := p # sv_timers s\<rparr> else s) = s\<lparr>sv_timers := ts\<rparr>"
    by (simp add: ts_def)
  ultimately show ?thesis
    using Inr ob by (simp add: horizon_server_handle_set_timer_def Let_def ob'_def w_def)
qed

lemma disarm_inv:
  assumes inv: "server_inv s" and ob: "object_at s p = Some ob" "so_type ob = OBJECT_TIMER"
    and ob': "shape ob' = shape ob" "so_refs ob' = so_refs ob" "so_timer_when ob' = 0"
  shows "server_inv (put_object p ob' (horizon_server_unlink_timer_locked p s))"
  unfolding horizon_server_unlink_timer_locked_def
  using server_inv_timers [OF inv] ob' by (intro put_timer_inv [OF inv ob]) (auto simp: unlink_ptr_remove1)

lemma cancel_timer_inv:
  assumes inv: "server_inv s"
  shows "server_inv (snd (snd (horizon_server_handle_cancel_timer env handle s)))"
proof (cases "horizon_server_find_typed_object_locked s handle OBJECT_TIMER")
  case (Inl st)
  with inv show ?thesis by (simp add: horizon_server_handle_cancel_timer_def)
next
  case (Inr p)
  then obtain ob where ob: "object_at s p = Some ob" "so_type ob = OBJECT_TIMER"
    using find_typed_live inv by (metis server_inv_def)
  have "server_inv (put_object p (ob\<lparr>so_signaled := False, so_timer_when := 0, so_timer_period := 0\<rparr>)
      (horizon_server_unlink_timer_locked p s))"
    by (rule disarm_inv [OF inv ob]) (simp_all add: shape_def)
  then have "server_inv (horizon_sync_notify_object_locked env p False
      (put_object p (ob\<lparr>so_signaled := False, so_timer_when := 0, so_timer_period := 0\<rparr>) (horizon_server_unlink_timer_locked p s)))"
    by (rule server_inv_skeleton) simp
  with Inr ob show ?thesis by (simp add: horizon_server_handle_cancel_timer_def)
qed

text \<open>A periodic timer that expired is moved past the present by at most a period, and keeps its phase.\<close>

lemma next_period:
  fixes start now period :: int
  assumes "0 < period" "start \<le> now"
  defines "w \<equiv> start + ((now - start) div period + 1) * period"
  shows "now < w" "w \<le> now + period" "(w - start) mod period = 0"
proof -
  define d m where "d = (now - start) div period * period" and "m = (now - start) mod period"
  have "d + m = now - start" by (simp add: d_def m_def)
  moreover have "0 \<le> m" "m < period" using assms(1) by (simp_all add: m_def)
  moreover have "w = start + d + period" by (simp add: w_def d_def distrib_right)
  ultimately show "now < w" "w \<le> now + period" by simp_all
  show "(w - start) mod period = 0" by (simp add: w_def)
qed

lemma expire_timer_inv:
  assumes inv: "server_inv s" and ob: "object_at s p = Some ob" and p: "p \<in> set (sv_timers s)"
    and due: "so_timer_when ob \<le> ev_system_time env" and now: "0 < ev_system_time env"
  shows "server_inv (expire_timer env p ob s)" "set (sv_timers (expire_timer env p ob s)) \<subseteq> set (sv_timers s)"
    "\<And>q. q \<noteq> p \<Longrightarrow> q \<in> set (sv_timers s) \<Longrightarrow> q \<in> set (sv_timers (expire_timer env p ob s))"
proof -
  have ty: "so_type ob = OBJECT_TIMER" using inv ob p by (simp add: server_inv_def armed_inv_def)
  let ?period = "int (unat (so_timer_period ob)) * 10000"
  let ?w = "so_timer_when ob + ((ev_system_time env - so_timer_when ob) div ?period + 1) * ?period"
  let ?once = "horizon_server_unlink_timer_locked p (put_object p (ob\<lparr>so_signaled := True, so_timer_when := 0\<rparr>) s)"
  let ?again = "put_object p (ob\<lparr>so_signaled := True, so_timer_when := ?w\<rparr>) s"
  have comm: "?once = put_object p (ob\<lparr>so_signaled := True, so_timer_when := 0\<rparr>) (horizon_server_unlink_timer_locked p s)"
    by (simp add: horizon_server_unlink_timer_locked_def put_object_def)
  have 1: "server_inv ?once" unfolding comm by (rule disarm_inv [OF inv ob ty]) (simp_all add: shape_def)
  have 2: "server_inv ?again" if "so_timer_period ob \<noteq> 0"
  proof -
    have "0 < unat (so_timer_period ob)" using that by (simp add: unat_gt_0)
    then have "0 < ?period" by (simp del: of_nat_unat)
    then have "?w \<noteq> 0" using next_period(1) [OF _ due, of ?period] now by simp
    then have "server_inv (put_object p (ob\<lparr>so_signaled := True, so_timer_when := ?w\<rparr>) (s\<lparr>sv_timers := sv_timers s\<rparr>))"
      using server_inv_timers [OF inv] p by (intro put_timer_inv [OF inv ob ty]) (auto simp: shape_def)
    then show ?thesis by simp
  qed
  define s1 where "s1 = (if so_timer_period ob = 0 then ?once else ?again)"
  have e: "expire_timer env p ob s = horizon_sync_notify_object_locked env p True s1"
    by (simp add: expire_timer_def s1_def Let_def)
  show "server_inv (expire_timer env p ob s)"
    unfolding e by (rule server_inv_skeleton [OF _ skeleton_notify_object]) (use 1 2 in \<open>simp add: s1_def\<close>)
  have t: "sv_timers (expire_timer env p ob s) = sv_timers s1"
    unfolding e by (rule skeleton_parts(6)) simp
  have "sv_timers s1 = (if so_timer_period ob = 0 then remove1 p (sv_timers s) else sv_timers s)"
    by (simp add: s1_def horizon_server_unlink_timer_locked_def unlink_ptr_remove1)
  then show "set (sv_timers (expire_timer env p ob s)) \<subseteq> set (sv_timers s)"
    "\<And>q. q \<noteq> p \<Longrightarrow> q \<in> set (sv_timers s) \<Longrightarrow> q \<in> set (sv_timers (expire_timer env p ob s))"
    unfolding t using set_remove1_subset [of p "sv_timers s"] by (auto split: if_splits)
qed

lemma update_timers_walk_inv:
  assumes "server_inv s" "distinct todo" "set todo \<subseteq> set (sv_timers s)" "0 < ev_system_time env"
  shows "server_inv (update_timers_walk env todo s)"
  using assms
proof (induction todo arbitrary: s)
  case (Cons p todo)
  show ?case
  proof (cases "\<exists>ob. object_at s p = Some ob \<and> so_timer_when ob \<le> ev_system_time env")
    case False
    with Cons show ?thesis by (auto split: option.splits)
  next
    case True
    then obtain ob where ob: "object_at s p = Some ob" "so_timer_when ob \<le> ev_system_time env" by blast
    have p: "p \<in> set (sv_timers s)" using Cons.prems by simp
    note x = expire_timer_inv [OF Cons.prems(1) ob(1) p ob(2) Cons.prems(4)]
    have "set todo \<subseteq> set (sv_timers (expire_timer env p ob s))"
    proof
      fix q
      assume "q \<in> set todo"
      with Cons.prems(2,3) have "q \<noteq> p" "q \<in> set (sv_timers s)" by auto
      then show "q \<in> set (sv_timers (expire_timer env p ob s))" by (rule x(3))
    qed
    then have "server_inv (update_timers_walk env todo (expire_timer env p ob s))"
      using Cons.IH [OF x(1)] Cons.prems(2,4) by simp
    with ob show ?thesis by simp
  qed
qed simp

lemma update_timers_inv:
  "server_inv s \<Longrightarrow> 0 < ev_system_time env \<Longrightarrow> server_inv (horizon_server_update_timers_locked env s)"
  unfolding horizon_server_update_timers_locked_def
  by (rule update_timers_walk_inv) (auto simp: server_inv_timers)

section \<open>Creating and opening\<close>

lemma named_ok_code [code]:
  "named_ok alloc s \<longleftrightarrow>
     (case oa_object alloc of None \<Rightarrow> True | Some p \<Rightarrow> fresh_object p s) \<and>
     (case oa_entry alloc of None \<Rightarrow> True | Some q \<Rightarrow> fresh_entry q s) \<and>
     fBall (fmdom (sv_objects s)) (\<lambda>p. refs_room p s)"
  by (auto simp: named_ok_def fmlookup_dom_iff)

lemma fresh_entry_code [code]:
  "fresh_entry q s \<longleftrightarrow> q \<notin> he_addr ` set (sv_handles s) \<and> sv_next_handle s < 0xfffffffc"
  by (simp add: fresh_entry_def word_less_nat_alt less_diff_conv)

lemma refs_room_code [code]:
  "refs_room p s \<longleftrightarrow> (case object_at s p of None \<Rightarrow> False | Some ob \<Rightarrow> so_refs ob < 0xffffffff)"
  by (auto simp: refs_room_def word_less_nat_alt less_diff_conv split: option.splits)

lemma server_init_inv: "server_inv server_init"
proof -
  have "ref_count server_init p = 0" for p
    by (simp add: server_init_def ref_count_def object_ref_count_def)
  then show ?thesis
    by (simp add: server_inv_def objects_inv_def table_inv_def refs_inv_def lists_inv_def ports_inv_def armed_inv_def)
      (simp add: server_init_def)
qed

lemma create_handlers_inv:
  assumes "server_inv s" "named_ok alloc s"
  shows "server_inv (snd (snd (horizon_server_handle_create_event alloc name m i s)))"
    "server_inv (snd (snd (horizon_server_handle_create_keyed_event alloc name s)))"
    "server_inv (snd (snd (horizon_server_handle_create_mutex alloc tid name owned s)))"
    "server_inv (snd (snd (horizon_server_handle_create_semaphore alloc name n mx s)))"
    "server_inv (snd (snd (horizon_server_handle_create_timer alloc name m s)))"
    "server_inv (snd (snd (horizon_server_handle_create_completion alloc name s)))"
proof -
  note c = create_object_inv [OF assms]
  show "server_inv (snd (snd (horizon_server_handle_create_event alloc name m i s)))"
    unfolding horizon_server_handle_create_event_def by (rule c) (simp_all add: shape_def)
  show "server_inv (snd (snd (horizon_server_handle_create_keyed_event alloc name s)))"
    unfolding horizon_server_handle_create_keyed_event_def by (rule c) simp_all
  show "server_inv (snd (snd (horizon_server_handle_create_mutex alloc tid name owned s)))"
    unfolding horizon_server_handle_create_mutex_def by (rule c) (simp_all add: shape_def)
  show "server_inv (snd (snd (horizon_server_handle_create_semaphore alloc name n mx s)))"
    unfolding horizon_server_handle_create_semaphore_def
    by (auto intro!: c simp: shape_def assms(1) simp del: split_paired_All)
  show "server_inv (snd (snd (horizon_server_handle_create_timer alloc name m s)))"
    unfolding horizon_server_handle_create_timer_def by (rule c) (simp_all add: shape_def)
  show "server_inv (snd (snd (horizon_server_handle_create_completion alloc name s)))"
    unfolding horizon_server_handle_create_completion_def by (rule c) simp_all
qed

lemma for_object_server_inv:
  assumes inv: "server_inv s" and room: "refs_room p s" and q: "\<And>q. alloc = Some q \<Longrightarrow> fresh_entry q s"
    and c: "horizon_server_create_handle_for_object_locked alloc p s = Some (e, s1)"
  shows "server_inv s1"
proof -
  from c obtain a where a: "alloc = Some a"
    by (cases alloc) (simp_all add: horizon_server_create_handle_for_object_locked_def)
  have "armed_inv s1"
    using c a inv by (auto simp: create_handle_for_object_eq server_inv_def intro!: armed_update)
  moreover have "objects_inv s1"
    using create_handle_for_object_inv [OF _ room q [OF a]] inv c a by (auto simp: server_inv_def)
  ultimately show ?thesis by (simp add: server_inv_def)
qed

lemma open_named_inv:
  assumes inv: "server_inv s" and ok: "named_ok alloc s"
  shows "server_inv (snd (snd (horizon_server_open_named_object_handle (oa_entry alloc) ty name s)))"
proof -
  have "server_inv s1" if "horizon_server_find_named_object_locked s ty name = Some p"
    "horizon_server_create_handle_for_object_locked (oa_entry alloc) p s = Some (e, s1)" for p e s1
    using ok find_named_live [OF that(1)] by (intro for_object_server_inv [OF inv _ _ that(2)]) (auto simp: named_ok_def)
  with inv show ?thesis
    by (auto simp: horizon_server_open_named_object_handle_def split: option.splits prod.splits)
qed

lemma armed_set_access [simp]: "armed_inv (set_access q acc s) = armed_inv s"
  by (rule armed_cong) (simp_all add: set_access_def Let_def)

definition dup_ok :: "ptr option \<times> ptr option \<Rightarrow> ptr option \<Rightarrow> ptr option \<Rightarrow> server \<Rightarrow> bool" where
  "dup_ok alloc_process alloc me s \<longleftrightarrow>
     named_ok \<lparr>oa_object = fst alloc_process, oa_entry = snd alloc_process, oa_name = True\<rparr> s \<and>
     (case alloc of None \<Rightarrow> True | Some q \<Rightarrow> fresh_entry q s) \<and>
     (case me of None \<Rightarrow> True | Some p \<Rightarrow> object_at s p \<noteq> None)"

lemma armed_link_handle [simp]: "armed_inv (horizon_server_link_handle_locked s e) = armed_inv s"
  by (rule armed_cong) (simp_all add: horizon_server_link_handle_locked_def Let_def)

lemma armed_next_handle [simp]: "armed_inv (s\<lparr>sv_next_handle := n\<rparr>) = armed_inv s"
  by (rule armed_cong) simp_all

lemma dup_armed:
  assumes inv: "server_inv s" and ok: "dup_ok alloc_process alloc me s"
  shows "armed_inv (snd (snd (horizon_server_duplicate_object_handle alloc_process alloc me s handle access options)))"
proof -
  have a: "armed_inv s" using inv by (simp add: server_inv_def)
  have new: "armed_inv s1" if "horizon_server_create_handle_locked alloc_process OBJECT_PROCESS s = Some (e, s1)" for e s1
  proof -
    from that obtain p q where pq: "alloc_process = (Some p, Some q)"
      by (cases alloc_process; cases "fst alloc_process"; cases "snd alloc_process")
        (auto simp: horizon_server_create_handle_locked_def)
    with that ok create_handle_server_inv [OF inv, of p q OBJECT_PROCESS 0] show ?thesis
      by (auto simp: create_handle_eq dup_ok_def named_ok_def server_inv_def)
  qed
  have up: "armed_inv (update_object p (\<lambda>ob. ob\<lparr>so_refs := so_refs ob + 1\<rparr>) (s\<lparr>sv_next_handle := n\<rparr>))" for p n
    by (intro armed_update) (simp_all add: a)
  show ?thesis
    using a up by (auto simp: horizon_server_duplicate_object_handle_def horizon_server_alloc_handle_def Let_def new
        split: option.splits prod.splits)
qed

lemma dup_inv:
  assumes inv: "server_inv s" and ok: "dup_ok alloc_process alloc me s"
  shows "server_inv (snd (snd (horizon_server_duplicate_object_handle alloc_process alloc me s handle access options)))"
proof -
  obtain st h s' where d: "horizon_server_duplicate_object_handle alloc_process alloc me s handle access options = (st, h, s')"
    by (metis prod_cases3)
  have "objects_inv s'"
    by (rule duplicate_inv [OF _ _ _ _ _ _ d]) (use inv ok in \<open>auto simp: dup_ok_def named_ok_def server_inv_def\<close>)
  with dup_armed [OF assms, of handle access options] d show ?thesis by (simp add: server_inv_def)
qed

section \<open>Completion ports\<close>

lemma find_io_live:
  assumes "objects_inv s" "horizon_server_find_io_object_locked s handle = Inr p"
  shows "\<exists>ob. object_at s p = Some ob \<and> so_type ob \<in> {OBJECT_FILE, OBJECT_SOCK, OBJECT_NSI}"
  using assms find_typed_live [OF assms(1)]
  by (fastforce simp: horizon_server_find_io_object_locked_def Let_def split: sum.splits if_splits)

lemma set_completion_info_inv:
  assumes inv: "server_inv s" and room: "\<And>p. object_at s p \<noteq> None \<Longrightarrow> refs_room p s"
  shows "server_inv (snd (horizon_server_handle_set_completion_info handle chandle ckey s))"
proof -
  have o: "objects_inv s" and a: "armed_inv s" using inv by (simp_all add: server_inv_def)
  have "server_inv (set_file_completion fp port ckey s)"
    if "horizon_server_find_io_object_locked s handle = Inr fp" "object_at s fp = Some f" "so_file_completion f = None"
      "horizon_server_find_typed_object_locked s chandle OBJECT_COMPLETION = Inr port" for fp f port
  proof -
    from find_io_live [OF o that(1)] that(2) have "so_type f \<noteq> OBJECT_COMPLETION" by auto
    moreover from find_typed_live [OF o that(4)] have "port_at s port" "object_at s port \<noteq> None" by (auto simp: port_at_def)
    ultimately have "objects_inv (set_file_completion fp port ckey s)"
      by (intro set_file_completion_inv [OF o that(2) _ that(3)] room)
    moreover have "armed_inv (set_file_completion fp port ckey s)"
      unfolding set_file_completion_def by (intro armed_update a) simp_all
    ultimately show ?thesis by (simp add: server_inv_def)
  qed
  with inv show ?thesis
    by (auto simp: horizon_server_handle_set_completion_info_def split: sum.splits option.splits)
qed

lemma bind_server_inv:
  assumes inv: "server_inv s" and w: "object_at s wait = Some wo" "so_type wo = OBJECT_COMPLETION_WAIT"
    and p: "port_at s port" and room: "refs_room port s"
  shows "server_inv (horizon_server_bind_completion_wait_locked wait port s)"
proof -
  have o: "objects_inv s" and a: "armed_inv s" using inv by (simp_all add: server_inv_def)
  let ?s = "update_object port (\<lambda>ob. ob\<lparr>so_refs := so_refs ob + 1\<rparr>) s"
  have a1: "armed_inv ?s" by (intro armed_update a) simp_all
  have "lists_inv ?s"
    using o p lists_put [of s port]
    by (auto simp: update_object_def objects_inv_def port_at_def split: option.splits)
  then have a2: "armed_inv (release q ?s)" for q
    unfolding release_def using release_all_armed a1 by blast
  have "armed_inv (horizon_server_bind_completion_wait_locked wait port s)"
    using w(1) a a1 a2
    by (auto simp: horizon_server_bind_completion_wait_locked_def Let_def intro!: armed_update split: option.splits)
  with bind_inv [OF o w p room] show ?thesis by (simp add: server_inv_def)
qed

section \<open>What closing a handle does\<close>

lemma close_shape:
  assumes inv: "objects_inv s" and h: "horizon_server_find_handle_locked s handle = Some e"
  shows "\<exists>t. snd (horizon_server_close_object_handle env handle s) = release (he_object e) t \<and>
    skeleton t = skeleton (horizon_server_unlink_handle_locked s e)"
proof -
  have mem: "e \<in> set (sv_handles s)" "he_handle e = handle" using inv h find_handle_mem by (auto simp: objects_inv_def)
  then have nz: "handle \<noteq> 0" using inv by (auto simp: objects_inv_def table_inv_def)
  define s1 where "s1 = close_notify env handle (he_object e) (horizon_server_unlink_handle_locked s e)"
  have sk: "skeleton s1 = skeleton (horizon_server_unlink_handle_locked s e)" by (simp add: s1_def)
  have "refs_inv [Release (he_object e)] s1"
    using refs_inv_skeleton [OF sk] unlink_refs(1) [OF inv mem(1)] by simp
  then have "object_at s1 (he_object e) \<noteq> None" "\<And>ob. object_at s1 (he_object e) = Some ob \<Longrightarrow> so_refs ob \<noteq> 0"
    by (simp_all add: refs_inv_def)
  then obtain ob where ob: "object_at s1 (he_object e) = Some ob" "so_refs ob \<noteq> 0" by blast
  obtain st s2 where d: "delete_on_close env (he_object e) ob s1 = (st, s2)" by fastforce
  have "skeleton s2 = skeleton s1" using skeleton_delete_on_close [of env "he_object e" ob s1] d by simp
  with h nz ob d sk show ?thesis
    by (cases "so_refs ob - 1 = 0")
      (auto simp: horizon_server_close_object_handle_def Let_def s1_def [symmetric])
qed

lemma find_remove1_other: "\<not> P e \<Longrightarrow> List.find P (remove1 e xs) = List.find P xs"
  by (induction xs) auto

lemma release_all_gone: "object_at s p = None \<Longrightarrow> object_at (release_all work s) p = None"
  by (rule release_all_keeps [where P = "\<lambda>t. object_at t p = None"]) auto

lemma release_gone:
  assumes "object_at s p = Some ob"
  shows "object_at (release p s) p = None \<longleftrightarrow> so_refs ob = 1"
proof (cases "so_refs ob = 1")
  case True
  with assms show ?thesis by (simp add: release_def release_all.simps(3) release_all_gone)
next
  case False
  then have "so_refs ob - 1 \<noteq> 0" by simp
  with assms False show ?thesis by (simp add: release_def release_all.simps Let_def)
qed

text \<open>An example: two events that reset themselves, the second one set.\<close>

definition example_env :: environment where
  "example_env = \<lparr>ev_queue_signaled = (\<lambda>_. False), ev_async_now = 0, ev_system_time = 1000,
     ev_close = (\<lambda>_. EOK), ev_remove = (\<lambda>_. EOK)\<rparr>"

definition no_name :: horizon_object_name where
  "no_name = \<lparr>on_rootdir = 0, on_name = []\<rparr>"

definition example_events :: server where
  "example_events =
     snd (snd (horizon_server_handle_create_event \<lparr>oa_object = Some 12, oa_entry = Some 22, oa_name = True\<rparr> no_name False True
       (snd (snd (horizon_server_handle_create_event \<lparr>oa_object = Some 11, oa_entry = Some 21, oa_name = True\<rparr> no_name False False
         server_init)))))"

lemma example_events_inv: "server_inv example_events"
proof -
  have 1: "named_ok \<lparr>oa_object = Some 11, oa_entry = Some 21, oa_name = True\<rparr> server_init" by code_simp
  have 2: "named_ok \<lparr>oa_object = Some 12, oa_entry = Some 22, oa_name = True\<rparr>
      (snd (snd (horizon_server_handle_create_event \<lparr>oa_object = Some 11, oa_entry = Some 21, oa_name = True\<rparr> no_name False False
         server_init)))" by code_simp
  show ?thesis
    unfolding example_events_def by (intro create_handlers_inv server_init_inv 1 2)
qed

text \<open>
  C1. Closing a handle ends that handle and no other: afterwards the handle is unknown, every other
  handle finds the same entry as before, and every entry that can be found still names a live
  object. The object itself is freed exactly when the handle was the last of all references to it,
  from handles, from other objects and from threads that wait. Closing an unknown handle changes
  nothing.
\<close>

theorem close_exact:
  assumes "server_inv s"
    and "horizon_server_close_object_handle env handle s = (status, s')"
  shows "case horizon_server_find_handle_locked s handle of
       None \<Rightarrow> status = HORIZON_STATUS_INVALID_HANDLE \<and> s' = s
     | Some e \<Rightarrow>
         horizon_server_find_handle_locked s' handle = None \<and>
         (\<forall>h. h \<noteq> handle \<longrightarrow> horizon_server_find_handle_locked s' h = horizon_server_find_handle_locked s h) \<and>
         (\<forall>h d. horizon_server_find_handle_locked s' h = Some d \<longrightarrow> object_at s' (he_object d) \<noteq> None) \<and>
         (object_at s' (he_object e) = None \<longleftrightarrow> ref_count s (he_object e) = 1)"
proof (cases "horizon_server_find_handle_locked s handle")
  case None
  with assms show ?thesis by (auto simp: horizon_server_close_object_handle_def split: if_splits)
next
  case (Some e)
  have o: "objects_inv s" using assms(1) by (simp add: server_inv_def)
  then have t: "table_inv s" by (simp add: objects_inv_def)
  have mem: "e \<in> set (sv_handles s)" "he_handle e = handle" using find_handle_mem [OF t Some] by simp_all
  from close_shape [OF o Some, of env] assms(2) obtain u
    where u: "s' = release (he_object e) u" "skeleton u = skeleton (horizon_server_unlink_handle_locked s e)" by auto
  have o': "objects_inv s'" using close_inv [OF o, of env handle] assms(2) by simp
  then have t': "table_inv s'" by (simp add: objects_inv_def)
  have hs: "sv_handles s' = remove1 e (sv_handles s)"
    using unlink_handles(1) [OF t mem(1)] skeleton_parts(1) [OF u(2)] by (simp add: u(1) release_def)
  have d: "distinct (map he_handle (sv_handles s))" using t by (simp add: table_inv_def)
  have "List.find (\<lambda>x. he_handle x = handle) (remove1 e (sv_handles s)) = None"
  proof -
    have "x = e" if "x \<in> set (sv_handles s)" "he_handle x = handle" for x
      using distinct_map_eq [OF d that(1) mem(1)] that(2) mem(2) by simp
    moreover have "distinct (sv_handles s)" using d by (simp add: distinct_map)
    ultimately show ?thesis by (auto simp: find_None_iff)
  qed
  moreover have "List.find (\<lambda>x. he_handle x = h) (remove1 e (sv_handles s)) = List.find (\<lambda>x. he_handle x = h) (sv_handles s)"
    if "h \<noteq> handle" for h
    using that mem(2) by (intro find_remove1_other) simp
  moreover have "object_at s' (he_object x) \<noteq> None" if "horizon_server_find_handle_locked s' h = Some x" for h x
    using find_handle_live [OF o' that] by auto
  moreover have "object_at s' (he_object e) = None \<longleftrightarrow> ref_count s (he_object e) = 1"
  proof -
    from find_handle_live [OF o Some] obtain ob where ob: "object_at s (he_object e) = Some ob" by blast
    then have "object_at (horizon_server_unlink_handle_locked s e) (he_object e) = Some ob"
      by (simp add: horizon_server_unlink_handle_locked_def Let_def)
    from skeleton_at [OF u(2) this] obtain ob' where ob': "object_at u (he_object e) = Some ob'" "so_refs ob' = so_refs ob" by blast
    have "unat (so_refs ob) = ref_count s (he_object e)" using o ob by (simp add: objects_inv_def refs_inv_def)
    moreover have "so_refs ob = 1 \<longleftrightarrow> unat (so_refs ob) = 1" by (simp add: word_unat_eq_iff)
    ultimately show ?thesis using release_gone [OF ob'(1)] ob'(2) by (simp add: u(1))
  qed
  ultimately show ?thesis
    using Some by (simp add: find_handle_list [OF t] find_handle_list [OF t'] hs)
qed

theorem close_exact_witness:
  "server_inv example_events \<and>
   horizon_server_find_handle_locked (snd (horizon_server_close_object_handle example_env 0x104 example_events)) 0x104 = None \<and>
   horizon_server_find_handle_locked (snd (horizon_server_close_object_handle example_env 0x104 example_events)) 0x108 =
     horizon_server_find_handle_locked example_events 0x108 \<and>
   horizon_server_find_handle_locked example_events 0x104 \<noteq> None \<and>
   horizon_server_find_handle_locked example_events 0x108 \<noteq> None \<and>
   object_at (snd (horizon_server_close_object_handle example_env 0x104 example_events)) 11 = None"
proof -
  let ?c = "horizon_server_close_object_handle example_env 0x104 example_events"
  have e: "horizon_server_find_handle_locked example_events 0x104 =
      Some \<lparr>he_addr = 21, he_handle = 0x104, he_access = 0, he_object = 11\<rparr>" by code_simp
  have n: "horizon_server_find_handle_locked example_events 0x108 \<noteq> None" by code_simp
  have gone: "object_at (snd ?c) 11 = None" by code_simp
  show ?thesis
    using close_exact [OF example_events_inv surjective_pairing [of ?c]] e n gone example_events_inv by simp
qed

end
