(* ===== verification/HzWaits.thy ===== *)
theory HzWaits
  imports HzServer
begin

text \<open>
  What waits promise: a wait for any takes the first signaled handle and nothing else, a wait for
  all takes every one or none, and setting an event or releasing a semaphore completes the oldest
  waits it can satisfy, in the order they queued.
\<close>

section \<open>A wait on one handle\<close>




lemma wait_object_peek:
  "snd (horizon_server_wait_object_locked env tid me s h False) = s"
  by (auto simp: horizon_server_wait_object_locked_def split: option.splits sum.splits)


section \<open>A wait for any\<close>






section \<open>A wait for all\<close>



















section \<open>Waking in order\<close>

text \<open>Objects that hold a number of units, of which every completed wait takes one: semaphores, and
  events that reset themselves.\<close>

definition unit_object :: "horizon_server_object \<Rightarrow> bool" where
  "unit_object ob \<longleftrightarrow> so_type ob = OBJECT_SEMAPHORE \<or> so_type ob = OBJECT_EVENT \<and> \<not> so_manual_reset ob"


definition take_unit :: "horizon_server_object \<Rightarrow> horizon_server_object" where
  "take_unit ob = (if so_type ob = OBJECT_SEMAPHORE then ob\<lparr>so_count := so_count ob - 1\<rparr> else ob\<lparr>so_signaled := False\<rparr>)"






lemma take_unit_unit [simp]: "unit_object (take_unit ob) = unit_object ob"
  by (simp add: unit_object_def take_unit_def)






lemma update_waiter_simps [simp]:
  "sv_objects (update_waiter w f s) = sv_objects s" "sv_asyncs (update_waiter w f s) = sv_asyncs s"
  "sv_waiter (update_waiter w f s) v = (if v = w then map_option f (sv_waiter s w) else sv_waiter s v)"
  by (simp_all add: update_waiter_def)













section \<open>Where the operation of a wait is read\<close>

text \<open>
  C37. The operation a wait reads lies within the data that came with the request, for every size
  that does not reach 40 bytes from the top of the 32-bit range; with such a size the sum in the
  check wraps around and the check passes whatever came with the request, even nothing.
\<close>

theorem select_data_bounds:
  assumes "length data < 2 ^ 32"
  shows "if unat sz + 40 < 2 ^ 32
     then \<forall>d. select_data sz data = Some d \<longrightarrow> unat sz \<le> length d \<and> (\<exists>k. d = drop k data)
     else unat sz + 40 - 2 ^ 32 \<le> length data \<longrightarrow> select_data sz data = Some (drop 40 data)"
proof -
  have l: "unat (of_nat (length data) :: u32) = length data" using assms by (simp add: unat_of_nat)
  have w: "unat (HORIZON_APC_RESULT_SIZE + sz) = (if unat sz + 40 < 2 ^ 32 then unat sz + 40 else unat sz + 40 - 2 ^ 32)"
  proof -
    have "unat sz < 2 ^ 32" by (rule order.strict_trans2 [OF unsigned_less]) simp
    then show ?thesis by (auto simp: unat_word_ariths mod_if)
  qed
  have d: "\<exists>k. data = drop k data" by (rule exI [of _ 0]) simp
  show ?thesis
  proof (cases "unat sz + 40 < 2 ^ 32")
    case True
    with l w d show ?thesis
      by (auto simp: select_data_def word_le_nat_alt split: if_splits)
  next
    case False
    with l w show ?thesis by (simp add: select_data_def word_le_nat_alt)
  qed
qed

theorem select_data_bounds_witness:
  "select_data 8 [1, 0, 0, 0, 4, 1, 0, 0] \<noteq> None \<and> select_data 0xfffffff0 (replicate 24 0) = Some []"
proof -
  have "select_data 8 [1, 0, 0, 0, 4, 1, 0, 0] \<noteq> None" by code_simp
  moreover have "select_data 0xfffffff0 (replicate 24 0) = Some []"
    using select_data_bounds [where data = "replicate 24 0" and sz = "0xfffffff0"] by simp
  ultimately show ?thesis by simp
qed

end
