(* ===== verification/HzSwapIndex.thy ===== *)
theory HzSwapIndex
  imports HzPrelude
begin

text \<open>
  Two questions about ranges of the address space: \<open>dlls/ntdll/unix/horizon_free_range.h\<close> asks the
  kernel whether a range is unmapped, and \<open>dlls/ntdll/unix/horizon_swap_index.h\<close> keeps which pages
  belong to swapped memory, in bitmaps of 128 MiB each that are made when first needed.

  The kernel's answer is the parameter \<open>query\<close>. Page numbers are natural numbers: every address
  the index takes is below \<open>2^39\<close>, so none of the sums over pages wraps.
\<close>

section \<open>Unmapped ranges\<close>

abbreviation (input) HORIZON_MEMTYPE_UNMAPPED :: u32 where "HORIZON_MEMTYPE_UNMAPPED \<equiv> 0"

record horizon_region =
  rg_addr :: u64
  rg_size :: u64
  rg_type :: u32

function range_walk :: "(u64 \<Rightarrow> horizon_region option) \<Rightarrow> u64 \<Rightarrow> u64 \<Rightarrow> bool" where
  "range_walk query addr limit =
     (if addr < limit then
        (case query addr of
           None \<Rightarrow> False
         | Some region \<Rightarrow>
             if rg_type region \<noteq> HORIZON_MEMTYPE_UNMAPPED then False
             else if rg_addr region > addr then False
             else (let nxt = rg_addr region + rg_size region
                   in if nxt < rg_addr region then True
                      else if nxt \<le> addr then False
                      else range_walk query nxt limit))
      else True)"
  by pat_completeness auto

termination
proof (relation "measure (\<lambda>(query, addr, limit). 2 ^ 64 - unat addr)", goal_cases)
  case (2 query addr limit region nxt)
  then have "unat addr < unat nxt" by (simp add: word_less_nat_alt linorder_not_le)
  moreover have "unat nxt < 2 ^ 64" by (rule order.strict_trans2 [OF unsigned_less]) simp
  ultimately show ?case by simp
qed simp

declare range_walk.simps [simp del]

definition horizon_range_unmapped :: "u64 \<Rightarrow> u64 \<Rightarrow> (u64 \<Rightarrow> horizon_region option) \<Rightarrow> bool" where
  "horizon_range_unmapped start sz query =
     (if start + sz < start then False else range_walk query start (start + sz))"

text \<open>What the kernel promises: for every address there is a block, the block contains the address and
  does not pass the top of the address space, and its type is that of each of its bytes.\<close>

definition kernel_query :: "(u64 \<Rightarrow> horizon_region option) \<Rightarrow> (nat \<Rightarrow> bool) \<Rightarrow> bool" where
  "kernel_query query unmapped \<longleftrightarrow>
     (\<forall>a. \<exists>r. query a = Some r \<and> unat (rg_addr r) \<le> unat a \<and> unat a < unat (rg_addr r) + unat (rg_size r) \<and>
        unat (rg_addr r) + unat (rg_size r) \<le> 2 ^ 64 \<and>
        (\<forall>b. unat (rg_addr r) \<le> b \<and> b < unat (rg_addr r) + unat (rg_size r) \<longrightarrow>
           (unmapped b \<longleftrightarrow> rg_type r = HORIZON_MEMTYPE_UNMAPPED)))"

lemma unat_u64_less: "unat (x :: u64) < 2 ^ 64"
  by (rule order.strict_trans2 [OF unsigned_less]) simp

lemma range_walk_spec:
  assumes "kernel_query query unmapped"
  shows "range_walk query addr limit \<longleftrightarrow> (\<forall>b. unat addr \<le> b \<and> b < unat limit \<longrightarrow> unmapped b)"
  using assms
proof (induction query addr limit rule: range_walk.induct)
  case (1 query addr limit)
  show ?case
  proof (cases "addr < limit")
    case False
    then show ?thesis by (auto simp: range_walk.simps [of query addr limit] word_less_nat_alt)
  next
    case True
    from "1.prems" obtain r where r: "query addr = Some r" "unat (rg_addr r) \<le> unat addr"
      "unat addr < unat (rg_addr r) + unat (rg_size r)" "unat (rg_addr r) + unat (rg_size r) \<le> 2 ^ 64"
      and same: "\<And>b. unat (rg_addr r) \<le> b \<Longrightarrow> b < unat (rg_addr r) + unat (rg_size r) \<Longrightarrow>
        unmapped b \<longleftrightarrow> rg_type r = HORIZON_MEMTYPE_UNMAPPED"
      unfolding kernel_query_def by meson
    define nxt where "nxt = rg_addr r + rg_size r"
    have le: "\<not> rg_addr r > addr" using r(2) by (simp add: word_less_nat_alt)
    show ?thesis
    proof (cases "rg_type r = HORIZON_MEMTYPE_UNMAPPED")
      case mapped: False
      then have "\<not> unmapped (unat addr)" using same r(2,3) by blast
      with True mapped r(1) show ?thesis by (auto simp: range_walk.simps [of query addr limit] word_less_nat_alt)
    next
      case free: True
      then have here: "unmapped b" if "unat addr \<le> b" "b < unat (rg_addr r) + unat (rg_size r)" for b
        using same r(2) that by auto
      show ?thesis
      proof (cases "unat (rg_addr r) + unat (rg_size r) = 2 ^ 64")
        case top: True
        then have "unat nxt = 0" by (simp add: nxt_def unat_word_ariths)
        moreover have "0 < unat (rg_addr r)" using top unat_u64_less [of "rg_size r"] by auto
        ultimately have "nxt < rg_addr r" by (simp add: word_less_nat_alt)
        moreover have "unmapped b" if "unat addr \<le> b" "b < unat limit" for b
          using here that top unat_u64_less [of limit] by simp
        ultimately show ?thesis
          using True r(1) free le by (simp add: range_walk.simps [of query addr limit] nxt_def [symmetric])
      next
        case False
        then have n: "unat nxt = unat (rg_addr r) + unat (rg_size r)"
          using r(4) by (simp add: nxt_def unat_word_ariths)
        then have c: "\<not> nxt < rg_addr r" "\<not> nxt \<le> addr" using r(3) by (simp_all add: word_less_nat_alt word_le_nat_alt)
        have "range_walk query addr limit = range_walk query nxt limit"
          using True r(1) free le c by (simp add: range_walk.simps [of query addr limit] nxt_def [symmetric])
        also have "\<dots> \<longleftrightarrow> (\<forall>b. unat nxt \<le> b \<and> b < unat limit \<longrightarrow> unmapped b)"
          using "1.IH" [OF True r(1) _ _ _ _ _ "1.prems"] free le c by (simp add: nxt_def)
        also have "\<dots> \<longleftrightarrow> (\<forall>b. unat addr \<le> b \<and> b < unat limit \<longrightarrow> unmapped b)"
          using here n r(3) by (metis le_trans less_imp_le_nat not_le_imp_less)
        finally show ?thesis .
      qed
    qed
  qed
qed

text \<open>The search answers yes for exactly the ranges that are free: with a kernel that describes the
  address space truly, a range is found unmapped if and only if it does not pass the top of the
  address space and every one of its bytes is unmapped, however the kernel cuts the space into
  blocks, the one that ends at the top included.\<close>

theorem range_unmapped_exact:
  assumes "kernel_query query unmapped"
  shows "horizon_range_unmapped start sz query \<longleftrightarrow>
    unat start + unat sz < 2 ^ 64 \<and> (\<forall>b. unat start \<le> b \<and> b < unat start + unat sz \<longrightarrow> unmapped b)"
proof (cases "unat start + unat sz < 2 ^ 64")
  case True
  then have "unat (start + sz) = unat start + unat sz" by (simp add: unat_word_ariths)
  with True show ?thesis
    using range_walk_spec [OF assms, of start "start + sz"]
    by (simp add: horizon_range_unmapped_def word_less_nat_alt)
next
  case False
  then have "unat (start + sz) = unat start + unat sz - 2 ^ 64"
    using unat_u64_less [of start] unat_u64_less [of sz] by (simp add: unat_word_ariths mod_if)
  with False have "start + sz < start" using unat_u64_less [of sz] by (simp add: word_less_nat_alt)
  with False show ?thesis by (simp add: horizon_range_unmapped_def)
qed

text \<open>A kernel with a mapped megabyte at the bottom and the rest free, in two blocks.\<close>

definition example_query :: "u64 \<Rightarrow> horizon_region option" where
  "example_query a = Some
     (if a < 0x100000 then \<lparr>rg_addr = 0, rg_size = 0x100000, rg_type = 3\<rparr>
      else if a < 0x200000 then \<lparr>rg_addr = 0x100000, rg_size = 0x100000, rg_type = 0\<rparr>
      else \<lparr>rg_addr = 0x200000, rg_size = 0xffffffffffe00000, rg_type = 0\<rparr>)"

theorem range_unmapped_exact_witness:
  "kernel_query example_query (\<lambda>b. 0x100000 \<le> b) \<and> horizon_range_unmapped 0x180000 0x100000 example_query \<and>
   \<not> horizon_range_unmapped 0xf0000 0x20000 example_query"
proof -
  have k: "kernel_query example_query (\<lambda>b. 0x100000 \<le> b)"
    using unat_u64_less
    by (auto simp: kernel_query_def example_query_def word_less_nat_alt word_le_nat_alt)
  note e = range_unmapped_exact [OF k]
  show ?thesis using k e [of "0x180000" "0x100000"] e [of "0xf0000" "0x20000"] by auto
qed

section \<open>The index of swapped pages\<close>

text \<open>Region \<open>r\<close> is the bitmap of the pages from \<open>32768 * r\<close> on, where it has been made. \<open>calloc_ok r\<close>
  says whether there is memory for it.\<close>

type_synonym horizon_swap_index = "nat \<Rightarrow> u64 list option"

definition swap_index_mask :: "nat \<Rightarrow> nat \<Rightarrow> u64" where
  "swap_index_mask first_bit last_bit = push_bit first_bit (-1) AND drop_bit (63 - last_bit) (-1)"

definition next_page :: "nat \<Rightarrow> nat \<Rightarrow> nat \<Rightarrow> nat" where
  "next_page step page limit = (let nxt = (page OR step) + 1 in if nxt > limit then limit else nxt)"

definition update_word :: "bool \<Rightarrow> u64 \<Rightarrow> u64 \<Rightarrow> u64" where
  "update_word add m w = (if add then w OR m else w AND NOT m)"

lemma or_ones: "(page :: nat) OR (2 ^ n - 1) = page div 2 ^ n * 2 ^ n + (2 ^ n - 1)"
proof -
  have "page OR mask n = push_bit n (drop_bit n page) OR mask n"
    by (rule bit_eqI) (auto simp: bit_simps)
  also have "\<dots> = push_bit n (drop_bit n page) + mask n"
    by (rule disjunctive_add [symmetric]) (auto simp: bit_simps)
  finally show ?thesis by (simp add: mask_eq_exp_minus_1 push_bit_eq_mult drop_bit_eq_div)
qed

lemma next_page_bounds:
  assumes "page < limit"
  shows "page < next_page 63 page limit" "next_page 63 page limit \<le> limit"
    "next_page 63 page limit \<le> page div 64 * 64 + 64"
    "page < next_page 32767 page limit" "next_page 32767 page limit \<le> limit"
    "next_page 32767 page limit \<le> page div 32768 * 32768 + 32768"
  using assms or_ones [of page 6] or_ones [of page 15] by (auto simp: next_page_def Let_def)

function swap_update_walk ::
    "(nat \<Rightarrow> bool) \<Rightarrow> bool \<Rightarrow> horizon_swap_index \<Rightarrow> nat \<Rightarrow> nat \<Rightarrow> int \<times> horizon_swap_index" where
  "swap_update_walk calloc_ok add index page limit =
     (if page < limit then
        (let region = page div 2 ^ 15;
             word = page div 2 ^ 6 mod 512;
             nxt = next_page 63 page limit;
             m = swap_index_mask (page mod 64) ((nxt - 1) mod 64)
         in case index region of
              Some bits \<Rightarrow>
                swap_update_walk calloc_ok add (index(region \<mapsto> bits[word := update_word add m (bits ! word)])) nxt limit
            | None \<Rightarrow>
                if add
                then (if calloc_ok region
                      then swap_update_walk calloc_ok add
                             (index(region \<mapsto> (replicate 512 0)[word := update_word add m 0])) nxt limit
                      else (-1, index))
                else swap_update_walk calloc_ok add index nxt limit)
      else (0, index))"
  by pat_completeness auto

termination
  by (relation "measure (\<lambda>(calloc_ok, add, index, page, limit). limit - page)")
    (auto dest: next_page_bounds(1) intro: diff_less_mono2)

declare swap_update_walk.simps [simp del]

definition swap_index_update ::
    "(nat \<Rightarrow> bool) \<Rightarrow> horizon_swap_index \<Rightarrow> u64 \<Rightarrow> u64 \<Rightarrow> bool \<Rightarrow> int \<times> horizon_swap_index" where
  "swap_index_update calloc_ok index addr sz add =
     (if sz = 0 then (0, index)
      else if addr \<ge> 2 ^ 39 \<or> sz > 2 ^ 39 - addr then (-1, index)
      else (let page = (if add then unat addr div 4096 else (unat addr + 4095) div 4096);
                limit = (if add then (unat addr + unat sz + 4095) div 4096 else (unat addr + unat sz) div 4096)
            in swap_update_walk calloc_ok add index page limit))"

function swap_contains_walk :: "horizon_swap_index \<Rightarrow> nat \<Rightarrow> nat \<Rightarrow> bool" where
  "swap_contains_walk index page limit =
     (if page < limit then
        (case index (page div 2 ^ 15) of
           None \<Rightarrow> swap_contains_walk index (next_page 32767 page limit) limit
         | Some bits \<Rightarrow>
             (let nxt = next_page 63 page limit
              in if bits ! (page div 2 ^ 6 mod 512) AND swap_index_mask (page mod 64) ((nxt - 1) mod 64) \<noteq> 0 then True
                 else swap_contains_walk index nxt limit))
      else False)"
  by pat_completeness auto

termination
  by (relation "measure (\<lambda>(index, page, limit). limit - page)")
    (auto dest: next_page_bounds(1,4) intro: diff_less_mono2)

declare swap_contains_walk.simps [simp del]

definition swap_index_contains :: "horizon_swap_index \<Rightarrow> u64 \<Rightarrow> u64 \<Rightarrow> bool" where
  "swap_index_contains index addr sz =
     (if sz = 0 then False
      else if sz - 1 > - 1 - addr then True
      else if addr \<ge> 2 ^ 39 then False
      else (let sz = (if sz > 2 ^ 39 - addr then 2 ^ 39 - addr else sz)
            in swap_contains_walk index (unat addr div 4096) ((unat addr + unat sz + 4095) div 4096)))"

text \<open>The pages the index holds.\<close>

definition swap_pages :: "horizon_swap_index \<Rightarrow> nat set" where
  "swap_pages index = {p. case index (p div 32768) of None \<Rightarrow> False | Some bits \<Rightarrow> bit (bits ! (p div 64 mod 512)) (p mod 64)}"

definition swap_inv :: "horizon_swap_index \<Rightarrow> bool" where
  "swap_inv index \<longleftrightarrow> (\<forall>r bits. index r = Some bits \<longrightarrow> length bits = 512 \<and> r < 4096)"

lemma mask_bit:
  assumes "f \<le> l" "l < 64"
  shows "bit (swap_index_mask f l) i \<longleftrightarrow> f \<le> i \<and> i \<le> l"
  using assms by (auto simp: swap_index_mask_def bit_simps)

text \<open>The pages of one word: those from \<open>page\<close> to before \<open>nxt\<close> are the bits of the mask.\<close>

lemma same_word:
  fixes p page :: nat
  shows "p div 32768 = page div 32768 \<and> p div 64 mod 512 = page div 64 mod 512 \<longleftrightarrow> p div 64 = page div 64"
proof
  assume a: "p div 32768 = page div 32768 \<and> p div 64 mod 512 = page div 64 mod 512"
  have "x div 64 = 512 * (x div 32768) + x div 64 mod 512" for x :: nat
    using div_mult_mod_eq [of "x div 64" 512] by (simp add: div_mult2_eq [of x 64 512, simplified, symmetric] mult.commute)
  with a show "p div 64 = page div 64" by metis
next
  assume "p div 64 = page div 64"
  moreover have "x div 32768 = x div 64 div 512" for x :: nat by (simp add: div_mult2_eq [of x 64 512, simplified])
  ultimately show "p div 32768 = page div 32768 \<and> p div 64 mod 512 = page div 64 mod 512" by metis
qed

lemma word_range:
  fixes p page nxt :: nat
  assumes "page < nxt" "nxt \<le> page div 64 * 64 + 64" "p div 64 = page div 64"
  shows "page mod 64 \<le> p mod 64 \<and> p mod 64 \<le> (nxt - 1) mod 64 \<longleftrightarrow> page \<le> p \<and> p < nxt"
proof -
  have n: "(nxt - 1) div 64 = page div 64" using assms(1,2) by (intro div_nat_eqI) auto
  have "x = x div 64 * 64 + x mod 64" for x :: nat by simp
  from this [of p] this [of page] this [of "nxt - 1"] n assms(1,3) show ?thesis by linarith
qed

lemma range_same_word:
  fixes p page nxt :: nat
  assumes "page \<le> p" "p < nxt" "nxt \<le> page div 64 * 64 + 64"
  shows "p div 64 = page div 64"
  using assms by (intro div_nat_eqI) auto

lemma step_pages:
  assumes n: "page < nxt" "nxt \<le> page div 64 * 64 + 64" and l: "length bits = 512"
    and b: "\<And>i. i < 512 \<Longrightarrow> bits ! i = (case index (page div 32768) of None \<Rightarrow> 0 | Some bs \<Rightarrow> bs ! i)"
  defines "m \<equiv> swap_index_mask (page mod 64) ((nxt - 1) mod 64)" and "w \<equiv> page div 64 mod 512"
  shows "swap_pages (index(page div 32768 \<mapsto> bits[w := update_word add m (bits ! w)])) =
    (if add then swap_pages index \<union> {page..<nxt} else swap_pages index - {page..<nxt})"
proof (intro set_eqI)
  fix p
  have nn: "(nxt - 1) div 64 = page div 64" using n by (intro div_nat_eqI) auto
  have le: "page mod 64 \<le> (nxt - 1) mod 64"
  proof -
    have "x = x div 64 * 64 + x mod 64" for x :: nat by simp
    from this [of page] this [of "nxt - 1"] nn n(1) show ?thesis by linarith
  qed
  have mb: "bit m i \<longleftrightarrow> page mod 64 \<le> i \<and> i \<le> (nxt - 1) mod 64" for i
    unfolding m_def by (rule mask_bit [OF le]) simp
  have w: "w < 512" by (simp add: w_def)
  have old: "p \<in> swap_pages index \<longleftrightarrow> bit (bits ! (p div 64 mod 512)) (p mod 64)" if "p div 32768 = page div 32768"
    using that b [of "p div 64 mod 512"] by (simp add: swap_pages_def split: option.splits)
  show "p \<in> swap_pages (index(page div 32768 \<mapsto> bits[w := update_word add m (bits ! w)])) \<longleftrightarrow>
      p \<in> (if add then swap_pages index \<union> {page..<nxt} else swap_pages index - {page..<nxt})"
  proof (cases "p div 64 = page div 64")
    case True
    then have r: "p div 32768 = page div 32768" "p div 64 mod 512 = w" using same_word [of p page] by (auto simp: w_def)
    have "p \<in> swap_pages (index(page div 32768 \<mapsto> bits[w := update_word add m (bits ! w)])) \<longleftrightarrow>
        bit (update_word add m (bits ! w)) (p mod 64)"
      using r w l by (simp add: swap_pages_def)
    also have "\<dots> \<longleftrightarrow> (if add then bit (bits ! w) (p mod 64) \<or> page \<le> p \<and> p < nxt
        else bit (bits ! w) (p mod 64) \<and> \<not> (page \<le> p \<and> p < nxt))"
      using mb [of "p mod 64"] word_range [OF n True] by (simp add: update_word_def bit_simps)
    finally show ?thesis using old r by auto
  next
    case False
    then have "\<not> (page \<le> p \<and> p < nxt)" using range_same_word n(2) by blast
    moreover have "p \<in> swap_pages (index(page div 32768 \<mapsto> bits[w := update_word add m (bits ! w)])) \<longleftrightarrow> p \<in> swap_pages index"
    proof (cases "p div 32768 = page div 32768")
      case True
      with False have "p div 64 mod 512 \<noteq> w" using same_word [of p page] by (auto simp: w_def)
      with True old show ?thesis by (simp add: swap_pages_def)
    next
      case False
      then show ?thesis by (simp add: swap_pages_def)
    qed
    ultimately show ?thesis by auto
  qed
qed

lemma range_split:
  fixes a b c :: nat
  shows "a \<le> b \<Longrightarrow> b \<le> c \<Longrightarrow> {a..<c} = {a..<b} \<union> {b..<c}"
  by auto

lemma no_bitmap_pages:
  assumes "index (page div 32768) = None" "p \<in> {page..<nxt}" "nxt \<le> page div 32768 * 32768 + 32768"
  shows "p \<notin> swap_pages index"
proof -
  have "p div 32768 = page div 32768" using assms(2,3) by (intro div_nat_eqI) auto
  with assms(1) show ?thesis by (simp add: swap_pages_def)
qed

text \<open>What a walk over the pages of a range does to the set: all of it, or nothing but a part of an addition that found no memory.\<close>

definition walk_result :: "(nat \<Rightarrow> bool) \<Rightarrow> bool \<Rightarrow> horizon_swap_index \<Rightarrow> nat \<Rightarrow> nat \<Rightarrow> int \<Rightarrow> horizon_swap_index \<Rightarrow> bool" where
  "walk_result calloc_ok add index page limit st index' \<longleftrightarrow> swap_inv index' \<and>
    (st = 0 \<and> swap_pages index' = (if add then swap_pages index \<union> {page..<limit} else swap_pages index - {page..<limit}) \<or>
     st = -1 \<and> add \<and> swap_pages index \<subseteq> swap_pages index' \<and> swap_pages index' \<subseteq> swap_pages index \<union> {page..<limit} \<and>
       (\<exists>p\<in>{page..<limit}. \<not> calloc_ok (p div 32768)))"

lemma walk_result_step:
  assumes inv: "swap_inv index" and n: "page < nxt" "nxt \<le> limit" "nxt \<le> page div 64 * 64 + 64" and r: "page div 32768 < 4096"
    and bits: "length bits = 512" "\<And>i. i < 512 \<Longrightarrow> bits ! i = (case index (page div 32768) of None \<Rightarrow> 0 | Some bs \<Rightarrow> bs ! i)"
    and upd: "upd = index(page div 32768 \<mapsto> bits[page div 64 mod 512 :=
      update_word add (swap_index_mask (page mod 64) ((nxt - 1) mod 64)) (bits ! (page div 64 mod 512))])"
    and later: "swap_inv upd \<Longrightarrow> walk_result calloc_ok add upd nxt limit st index'"
  shows "walk_result calloc_ok add index page limit st index'"
proof -
  have i: "swap_inv upd" using inv bits(1) r by (auto simp: swap_inv_def upd)
  have pg: "swap_pages upd = (if add then swap_pages index \<union> {page..<nxt} else swap_pages index - {page..<nxt})"
    unfolding upd by (rule step_pages) (use n bits in auto)
  have join: "{page..<limit} = {page..<nxt} \<union> {nxt..<limit}" using n by (intro range_split) auto
  from later [OF i] show ?thesis unfolding walk_result_def pg join by (cases add) auto
qed

lemma walk_result_skip:
  assumes none: "index (page div 32768) = None" and n: "page < nxt" "nxt \<le> limit" "nxt \<le> page div 64 * 64 + 64"
    and later: "walk_result calloc_ok False index nxt limit st index'"
  shows "walk_result calloc_ok False index page limit st index'"
proof -
  have "p \<notin> swap_pages index" if "p \<in> {page..<nxt}" for p
  proof -
    have "p div 64 = page div 64" using that n(3) by (intro range_same_word) auto
    then have "p div 32768 = page div 32768" using same_word [of p page] by blast
    with none show ?thesis by (simp add: swap_pages_def)
  qed
  moreover have "{page..<limit} = {page..<nxt} \<union> {nxt..<limit}" using n by (intro range_split) auto
  ultimately have "swap_pages index - {page..<limit} = swap_pages index - {nxt..<limit}" by auto
  with later show ?thesis by (simp add: walk_result_def)
qed

lemma swap_update_walk_spec:
  assumes "swap_inv index" "limit \<le> 2 ^ 27" "swap_update_walk calloc_ok add index page limit = (st, index')"
  shows "walk_result calloc_ok add index page limit st index'"
  using assms
proof (induction calloc_ok add index page limit rule: swap_update_walk.induct)
  case (1 calloc_ok add index page limit)
  show ?case
  proof (cases "page < limit")
    case False
    with "1.prems" show ?thesis by (auto simp: walk_result_def swap_update_walk.simps [of calloc_ok add index page limit])
  next
    case True
    define nxt where "nxt = next_page 63 page limit"
    have n: "page < nxt" "nxt \<le> limit" "nxt \<le> page div 64 * 64 + 64"
      using next_page_bounds(1-3) [OF True] by (simp_all add: nxt_def)
    have r: "page div 32768 < 4096" using True "1.prems"(2) by (simp add: less_mult_imp_div_less)
    define m where "m = swap_index_mask (page mod 64) ((nxt - 1) mod 64)"
    note walk = swap_update_walk.simps [of calloc_ok add index page limit, unfolded Let_def, folded nxt_def, folded m_def]
    note step = walk_result_step [OF "1.prems"(1) n r, folded m_def]
    have e: "page div 32768 = page div 2 ^ 15" "page div 64 mod 512 = page div 2 ^ 6 mod 512" by simp_all
    consider (there) bits where "index (page div 32768) = Some bits" | (new) "index (page div 32768) = None" add "calloc_ok (page div 32768)"
      | (full) "index (page div 32768) = None" add "\<not> calloc_ok (page div 32768)" | (skip) "index (page div 32768) = None" "\<not> add"
      by (cases "index (page div 32768)") auto
    then show ?thesis
    proof cases
      case there
      let ?upd = "index(page div 32768 \<mapsto> bits[page div 64 mod 512 := update_word add m (bits ! (page div 64 mod 512))])"
      have "swap_update_walk calloc_ok add ?upd nxt limit = (st, index')" using there "1.prems"(3) True walk by simp
      note later = "1.IH"(3) [OF True e nxt_def m_def there _ "1.prems"(2) this]
      have "length bits = 512" using there "1.prems"(1) by (auto simp: swap_inv_def)
      then show ?thesis by (rule step [OF _ _ refl later]) (simp_all add: there)
    next
      case new
      let ?upd = "index(page div 32768 \<mapsto> (replicate 512 0)[page div 64 mod 512 := update_word add m 0])"
      have z: "(replicate 512 0 :: u64 list) ! (page div 64 mod 512) = 0" by simp
      have "swap_update_walk calloc_ok add ?upd nxt limit = (st, index')" using new "1.prems"(3) True walk by simp
      note later = "1.IH"(1) [OF True e nxt_def m_def new _ "1.prems"(2) this]
      show ?thesis by (rule step [where bits = "replicate 512 0", unfolded z, OF _ _ refl later]) (simp_all add: new)
    next
      case full
      then show ?thesis using "1.prems" True walk by (auto simp: walk_result_def)
    next
      case skip
      have "walk_result calloc_ok add index nxt limit st index'"
        by (rule "1.IH"(2) [OF True e nxt_def m_def skip]) (use skip "1.prems" True walk in simp_all)
      then show ?thesis using walk_result_skip [where index = index, OF skip(1) n] skip(2) by simp
    qed
  qed
qed

lemma word_meets:
  assumes n: "page < nxt" "nxt \<le> page div 64 * 64 + 64" and bits: "index (page div 32768) = Some bits"
  shows "bits ! (page div 64 mod 512) AND swap_index_mask (page mod 64) ((nxt - 1) mod 64) \<noteq> 0 \<longleftrightarrow>
      (\<exists>p\<in>{page..<nxt}. p \<in> swap_pages index)" (is "?w AND ?m \<noteq> 0 \<longleftrightarrow> _")
proof -
  have "(nxt - 1) div 64 = page div 64" using n by (intro div_nat_eqI) auto
  then have le: "page mod 64 \<le> (nxt - 1) mod 64"
    using n(1) div_mult_mod_eq [of page 64] div_mult_mod_eq [of "nxt - 1" 64] by linarith
  have mb: "bit ?m i \<longleftrightarrow> page mod 64 \<le> i \<and> i \<le> (nxt - 1) mod 64" for i by (rule mask_bit [OF le]) simp
  show ?thesis
  proof
    assume "?w AND ?m \<noteq> 0"
    then obtain i where i: "bit ?w i" "page mod 64 \<le> i" "i \<le> (nxt - 1) mod 64"
      using mb by (auto simp: bit_eq_iff bit_simps)
    define p where "p = page div 64 * 64 + i"
    have "i < 64" using i(3) by (rule le_less_trans) simp
    then have d: "p div 64 = page div 64" "p mod 64 = i" by (simp_all add: p_def)
    have "page \<le> p \<and> p < nxt" using word_range [OF n d(1)] i d(2) by simp
    moreover have "p \<in> swap_pages index" using same_word [of p page] d i(1) bits by (simp add: swap_pages_def)
    ultimately show "\<exists>p\<in>{page..<nxt}. p \<in> swap_pages index" by auto
  next
    assume "\<exists>p\<in>{page..<nxt}. p \<in> swap_pages index"
    then obtain p where p: "page \<le> p" "p < nxt" "p \<in> swap_pages index" by auto
    have d: "p div 64 = page div 64" by (rule range_same_word [OF p(1,2) n(2)])
    have "bit ?w (p mod 64)" using p(3) same_word [of p page] d bits by (simp add: swap_pages_def)
    moreover have "bit ?m (p mod 64)" using mb word_range [OF n d] p(1,2) by simp
    ultimately show "?w AND ?m \<noteq> 0" by (metis bit_0_eq bit_and_iff bot_apply bot_bool_def)
  qed
qed

lemma swap_contains_walk_spec:
  assumes "swap_inv index"
  shows "swap_contains_walk index page limit \<longleftrightarrow> (\<exists>p\<in>{page..<limit}. p \<in> swap_pages index)"
  using assms
proof (induction index page limit rule: swap_contains_walk.induct)
  case (1 index page limit)
  note walk = swap_contains_walk.simps [of index page limit]
  show ?case
  proof (cases "page < limit")
    case False
    then show ?thesis by (simp add: walk)
  next
    case True
    show ?thesis
    proof (cases "index (page div 32768)")
      case None
      let ?n = "next_page 32767 page limit"
      have n: "page < ?n" "?n \<le> limit" "?n \<le> page div 32768 * 32768 + 32768" using next_page_bounds(4-6) [OF True] by simp_all
      have "swap_contains_walk index page limit = swap_contains_walk index ?n limit" using True None by (simp add: walk)
      moreover have "swap_contains_walk index ?n limit \<longleftrightarrow> (\<exists>p\<in>{?n..<limit}. p \<in> swap_pages index)"
        using "1.IH"(1) [OF True] None "1.prems" by simp
      ultimately show ?thesis using range_split [of page ?n limit] n no_bitmap_pages [where index = index, OF None _ n(3)] by auto
    next
      case (Some bits)
      define nxt where "nxt = next_page 63 page limit"
      have n: "page < nxt" "nxt \<le> limit" "nxt \<le> page div 64 * 64 + 64"
        using next_page_bounds(1-3) [OF True] by (simp_all add: nxt_def)
      note here = word_meets [where index = index, OF n(1,3) Some]
      have "swap_contains_walk index page limit \<longleftrightarrow>
          (\<exists>p\<in>{page..<nxt}. p \<in> swap_pages index) \<or> swap_contains_walk index nxt limit"
        using True Some here by (simp add: walk nxt_def [symmetric])
      also have "\<dots> \<longleftrightarrow> (\<exists>p\<in>{page..<nxt}. p \<in> swap_pages index) \<or> (\<exists>p\<in>{nxt..<limit}. p \<in> swap_pages index)"
        using "1.IH"(2) [OF True _ nxt_def] Some "1.prems" here by auto
      finally show ?thesis using range_split [of page nxt limit] n by auto
    qed
  qed
qed

section \<open>Bytes and pages\<close>

lemma touched_pages:
  fixes a n :: nat
  assumes "0 < n"
  shows "{a div 4096..<(a + n + 4095) div 4096} = {p. \<exists>b. a \<le> b \<and> b < a + n \<and> p = b div 4096}"
proof (intro set_eqI iffI)
  fix p
  assume p: "p \<in> {a div 4096..<(a + n + 4095) div 4096}"
  define b where "b = max a (p * 4096)"
  have "p * 4096 < a + n"
  proof -
    have "p + 1 \<le> (a + n + 4095) div 4096" using p by simp
    then have "(p + 1) * 4096 \<le> a + n + 4095" by (simp add: less_eq_div_iff_mult_less_eq)
    then show ?thesis by simp
  qed
  moreover have "a < p * 4096 + 4096"
  proof -
    have "a div 4096 < p + 1" using p by simp
    then show ?thesis by (simp add: div_less_iff_less_mult)
  qed
  ultimately have "a \<le> b" "b < a + n" "b div 4096 = p" using assms by (auto simp: b_def max_def intro!: div_nat_eqI)
  then show "p \<in> {p. \<exists>b. a \<le> b \<and> b < a + n \<and> p = b div 4096}" by auto
next
  fix p
  assume "p \<in> {p. \<exists>b. a \<le> b \<and> b < a + n \<and> p = b div 4096}"
  then obtain b where b: "a \<le> b" "b < a + n" "p = b div 4096" by auto
  have "a div 4096 \<le> p" using b by (simp add: div_le_mono)
  moreover have "p < (a + n + 4095) div 4096"
  proof -
    have "(p + 1) * 4096 \<le> a + n + 4095" using b(2,3) div_mult_mod_eq [of b 4096] by simp
    then have "p + 1 \<le> (a + n + 4095) div 4096" by (simp add: less_eq_div_iff_mult_less_eq)
    then show ?thesis by simp
  qed
  ultimately show "p \<in> {a div 4096..<(a + n + 4095) div 4096}" by simp
qed

lemma inside_pages:
  fixes a n :: nat
  shows "{(a + 4095) div 4096..<(a + n) div 4096} = {p. a \<le> p * 4096 \<and> p * 4096 + 4096 \<le> a + n}"
proof (intro set_eqI)
  fix p
  have "(a + 4095) div 4096 \<le> p \<longleftrightarrow> a \<le> p * 4096"
    using div_less_iff_less_mult [of 4096 "a + 4095" "p + 1"] by simp linarith
  moreover have "p < (a + n) div 4096 \<longleftrightarrow> p * 4096 + 4096 \<le> a + n"
    using less_eq_div_iff_mult_less_eq [of 4096 "p + 1" "a + n"] by simp linarith
  ultimately show "p \<in> {(a + 4095) div 4096..<(a + n) div 4096} \<longleftrightarrow> p \<in> {p. a \<le> p * 4096 \<and> p * 4096 + 4096 \<le> a + n}"
    by simp
qed

lemma swap_range_ok:
  assumes "\<not> (addr \<ge> (2 :: u64) ^ 39 \<or> sz > 2 ^ 39 - addr)"
  shows "unat addr < 2 ^ 39" "unat addr + unat sz \<le> 2 ^ 39"
proof -
  show a: "unat addr < 2 ^ 39" using assms by (simp add: word_less_nat_alt word_le_nat_alt)
  have "unat (2 ^ 39 - addr) = 2 ^ 39 - unat addr"
    using a by (simp add: unat_sub word_le_nat_alt)
  then show "unat addr + unat sz \<le> 2 ^ 39" using assms a by (auto simp: word_less_nat_alt)
qed

lemma swap_update_spec:
  assumes "swap_inv index" and "sz \<noteq> 0" and "swap_index_update calloc_ok index addr sz add = (st, index')"
  shows "swap_inv index' \<and>
    (if st = 0
     then swap_pages index' =
       (if add then swap_pages index \<union> {p. \<exists>b. unat addr \<le> b \<and> b < unat addr + unat sz \<and> p = b div 4096}
        else swap_pages index - {p. unat addr \<le> p * 4096 \<and> p * 4096 + 4096 \<le> unat addr + unat sz})
     else swap_pages index \<subseteq> swap_pages index' \<and>
       swap_pages index' \<subseteq> swap_pages index \<union> {p. \<exists>b. unat addr \<le> b \<and> b < unat addr + unat sz \<and> p = b div 4096})"
proof (cases "addr \<ge> 2 ^ 39 \<or> sz > 2 ^ 39 - addr")
  case True
  with assms show ?thesis by (auto simp: swap_index_update_def)
next
  case False
  have z: "0 < unat sz" using assms(2) by (simp add: unat_gt_0)
  note b = swap_range_ok [OF False]
  have l: "(unat addr + unat sz + 4095) div 4096 \<le> 2 ^ 27" "(unat addr + unat sz) div 4096 \<le> 2 ^ 27"
    using div_le_mono [of "unat addr + unat sz + 4095" "2 ^ 39 + 4095" 4096] div_le_mono [of "unat addr + unat sz" "2 ^ 39" 4096] b
    by simp_all
  show ?thesis
  proof (cases add)
    case True
    have "swap_update_walk calloc_ok True index (unat addr div 4096) ((unat addr + unat sz + 4095) div 4096) = (st, index')"
      using assms(2,3) False True by (simp add: swap_index_update_def Let_def)
    from swap_update_walk_spec [OF assms(1) l(1) this, unfolded walk_result_def] True touched_pages [OF z, of "unat addr"] show ?thesis by auto
  next
    case no: False
    have "swap_update_walk calloc_ok False index ((unat addr + 4095) div 4096) ((unat addr + unat sz) div 4096) = (st, index')"
      using assms(2,3) False no by (simp add: swap_index_update_def Let_def)
    from swap_update_walk_spec [OF assms(1) l(2) this, unfolded walk_result_def] no inside_pages [of "unat addr" "unat sz"] show ?thesis by auto
  qed
qed

lemma swap_pages_top:
  assumes "swap_inv index" "p \<in> swap_pages index"
  shows "p < 2 ^ 27"
proof -
  have "p div 32768 < 4096" using assms by (auto simp: swap_pages_def swap_inv_def split: option.splits)
  then show ?thesis by (simp add: div_less_iff_less_mult)
qed

lemma swap_range_fits:
  fixes addr sz :: u64
  assumes "sz \<noteq> 0" "unat addr + unat sz < 2 ^ 64"
  shows "\<not> sz - 1 > - 1 - addr"
proof -
  have m: "unat (- 1 :: u64) = 2 ^ 64 - 1" by (simp add: unsigned_minus_1_eq_mask mask_eq_exp_minus_1)
  have "addr \<le> - 1" unfolding word_le_nat_alt m using unat_u64_less [of addr] by simp
  then have "unat (- 1 - addr) = 2 ^ 64 - 1 - unat addr" unfolding m [symmetric] by (rule unat_sub)
  moreover have "unat (sz - 1) = unat sz - 1" using assms(1) by (rule unat_minus_one)
  ultimately show ?thesis using assms by (simp add: word_less_nat_alt)
qed

lemma swap_contains_spec:
  assumes "swap_inv index" and "sz \<noteq> 0" and "unat addr + unat sz < 2 ^ 64"
  shows "swap_index_contains index addr sz \<longleftrightarrow>
       (\<exists>b. unat addr \<le> b \<and> b < unat addr + unat sz \<and> b div 4096 \<in> swap_pages index)"
proof -
  note w = swap_range_fits [OF assms(2,3)] and top = swap_pages_top [OF assms(1)]
  have z: "0 < unat sz" using assms(2) by (simp add: unat_gt_0)
  show ?thesis
  proof (cases "addr \<ge> 2 ^ 39")
    case True
    then have "2 ^ 39 \<le> unat addr" by (simp add: word_le_nat_alt)
    then have "b div 4096 \<notin> swap_pages index" if "unat addr \<le> b" for b
      using that top [of "b div 4096"] by (auto simp: div_less_iff_less_mult)
    with True w assms(2) show ?thesis by (auto simp: swap_index_contains_def)
  next
    case False
    define n where "n = (if sz > 2 ^ 39 - addr then 2 ^ 39 - addr else sz)"
    have a: "unat addr < 2 ^ 39" using False by (simp add: word_le_nat_alt)
    have s39: "unat (2 ^ 39 - addr) = 2 ^ 39 - unat addr" using a by (simp add: unat_sub word_le_nat_alt)
    have n: "unat n = min (unat sz) (2 ^ 39 - unat addr)"
      using s39 by (auto simp: n_def word_less_nat_alt min_def)
    have n0: "0 < unat n" using n a z by simp
    have "swap_index_contains index addr sz \<longleftrightarrow>
        (\<exists>p\<in>{unat addr div 4096..<(unat addr + unat n + 4095) div 4096}. p \<in> swap_pages index)"
      using False w assms(2) swap_contains_walk_spec [OF assms(1)]
      by (simp add: swap_index_contains_def n_def)
    also have "\<dots> \<longleftrightarrow> (\<exists>b. unat addr \<le> b \<and> b < unat addr + unat n \<and> b div 4096 \<in> swap_pages index)"
      unfolding touched_pages [OF n0] by auto
    also have "\<dots> \<longleftrightarrow> (\<exists>b. unat addr \<le> b \<and> b < unat addr + unat sz \<and> b div 4096 \<in> swap_pages index)"
    proof -
      have "b < unat addr + unat n \<longleftrightarrow> b < unat addr + unat sz" if "b div 4096 \<in> swap_pages index" for b
        using top [OF that] n a by (auto simp: min_def div_less_iff_less_mult split: if_splits)
      then show ?thesis by blast
    qed
    finally show ?thesis .
  qed
qed

text \<open>C17. The index of swapped memory is a set of pages. Adding a range adds exactly the pages it touches,
  removing one takes out exactly the pages it covers entirely, and when the memory for a bitmap runs
  out or the range is out of bounds no page is lost and none outside the range appears. The question
  whether a range meets the index is answered yes exactly when one of its bytes lies in a page of
  the set. No bitmap beyond the table is ever touched.\<close>

theorem swap_index_refines_set:
  assumes "swap_inv index" and "sz \<noteq> 0" and "unat addr + unat sz < 2 ^ 64"
    and "swap_index_update calloc_ok index addr sz add = (st, index')"
  shows "swap_inv index' \<and>
    (if st = 0
     then swap_pages index' =
       (if add then swap_pages index \<union> {p. \<exists>b. unat addr \<le> b \<and> b < unat addr + unat sz \<and> p = b div 4096}
        else swap_pages index - {p. unat addr \<le> p * 4096 \<and> p * 4096 + 4096 \<le> unat addr + unat sz})
     else swap_pages index \<subseteq> swap_pages index' \<and>
       swap_pages index' \<subseteq> swap_pages index \<union> {p. \<exists>b. unat addr \<le> b \<and> b < unat addr + unat sz \<and> p = b div 4096}) \<and>
    (swap_index_contains index addr sz \<longleftrightarrow>
       (\<exists>b. unat addr \<le> b \<and> b < unat addr + unat sz \<and> b div 4096 \<in> swap_pages index))"
  using swap_update_spec [OF assms(1,2,4)] swap_contains_spec [OF assms(1-3)] by blast

theorem swap_index_refines_set_witness:
  "swap_inv Map.empty \<and> fst (swap_index_update (\<lambda>_. True) Map.empty 0x3000 0x2001 True) = 0 \<and>
   swap_pages (snd (swap_index_update (\<lambda>_. True) Map.empty 0x3000 0x2001 True)) = {3, 4, 5}"
proof -
  let ?u = "swap_index_update (\<lambda>_. True) Map.empty 0x3000 0x2001 True"
  have i: "swap_inv Map.empty" by (simp add: swap_inv_def)
  have "?u = swap_update_walk (\<lambda>_. True) True Map.empty 3 6" by (simp add: swap_index_update_def)
  then have z: "fst ?u = 0" using swap_update_walk_spec [OF i _ surjective_pairing, of 6 "\<lambda>_. True" True 3] by (auto simp: walk_result_def)
  have p: "{p. \<exists>b. unat (0x3000 :: u64) \<le> b \<and> b < unat (0x3000 :: u64) + unat (0x2001 :: u64) \<and> p = b div 4096} = {3, 4, 5}"
  proof -
    have "{3 ..< 6 :: nat} = {3, 4, 5}" by auto
    then show ?thesis using touched_pages [of "unat (0x2001 :: u64)" "unat (0x3000 :: u64)"] by simp
  qed
  have e: "swap_pages Map.empty = {}" by (simp add: swap_pages_def)
  show ?thesis
    using swap_index_refines_set [OF i _ _ surjective_pairing [of ?u]] i z p e by simp
qed

end
