(* ===== verification/HzPages.thy ===== *)
theory HzPages
  imports HzPrelude "HOL-Library.Multiset"
begin

text \<open>
  The pool of page-aligned backing memory (\<open>dlls/ntdll/unix/horizon_pool.h\<close>): arenas of 512 pages,
  each one kernel memory block, from which runs of pages are taken and to which they are given back.

  Addresses and sizes are natural numbers (no sum of the code passes \<open>2^64\<close> for blocks that are
  there). What the allocator answers, \<open>realloc_ok\<close> for the table of arenas and the block that
  \<open>aligned_alloc\<close> returns, is given with each request. Bytes of the \<open>used\<close> array are booleans.
\<close>

abbreviation (input) HORIZON_POOL_PAGE :: nat where "HORIZON_POOL_PAGE \<equiv> 4096"
abbreviation (input) HORIZON_POOL_PAGES :: nat where "HORIZON_POOL_PAGES \<equiv> 512"
abbreviation (input) HORIZON_POOL_RETAIN_EMPTY :: nat where "HORIZON_POOL_RETAIN_EMPTY \<equiv> 8"
abbreviation (input) HORIZON_POOL_ARENA :: nat where "HORIZON_POOL_ARENA \<equiv> 2097152"
abbreviation (input) SIZE_MAX :: nat where "SIZE_MAX \<equiv> 18446744073709551615"
abbreviation (input) arena_struct_size :: nat where "arena_struct_size \<equiv> 528"

record horizon_page_arena =
  pa_memory :: "ptr option"
  pa_free_pages :: nat
  pa_used :: "bool list"

record horizon_page_pool =
  pp_arenas :: "horizon_page_arena list"
  pp_active_arenas :: nat
  pp_peak_arenas :: nat
  pp_hits :: u64
  pp_misses :: u64
  pp_reclaims :: u64
  pp_blocks :: u64
  pp_shared :: u64

definition empty_arena :: horizon_page_arena where
  "empty_arena = \<lparr>pa_memory = None, pa_free_pages = 0, pa_used = replicate 512 False\<rparr>"

section \<open>Operations\<close>

text \<open>The scan for a run of free pages: \<open>j\<close> is the position, \<open>run\<close> the length of the run before it.\<close>

fun find_run :: "nat \<Rightarrow> nat \<Rightarrow> nat \<Rightarrow> bool list \<Rightarrow> nat option" where
  "find_run pages j run [] = None"
| "find_run pages j run (u # us) =
     (let run = (if u then 0 else run + 1)
      in if run = pages then Some (j + 1 - run) else find_run pages (j + 1) run us)"

definition mark :: "nat \<Rightarrow> nat \<Rightarrow> bool \<Rightarrow> bool list \<Rightarrow> bool list" where
  "mark i n b us = map (\<lambda>j. if i \<le> j \<and> j < i + n then b else us ! j) [0..<length us]"

text \<open>The first arena that has such a run, and where.\<close>

fun find_arena :: "nat \<Rightarrow> nat \<Rightarrow> horizon_page_arena list \<Rightarrow> (nat \<times> nat) option" where
  "find_arena pages i [] = None"
| "find_arena pages i (a # as) =
     (if pa_memory a = None \<or> pa_free_pages a < pages then find_arena pages (i + 1) as
      else (case find_run pages 0 0 (pa_used a) of
              Some k \<Rightarrow> Some (i, k)
            | None \<Rightarrow> find_arena pages (i + 1) as))"

definition horizon_pages_alloc ::
    "bool \<Rightarrow> ptr option \<Rightarrow> horizon_page_pool \<Rightarrow> nat \<Rightarrow> ptr option \<times> horizon_page_pool" where
  "horizon_pages_alloc realloc_ok block pool sz =
     (let pages = sz div HORIZON_POOL_PAGE
      in if sz = 0 \<or> sz mod HORIZON_POOL_PAGE \<noteq> 0 \<or> pages > HORIZON_POOL_PAGES then (None, pool)
         else (case find_arena pages 0 (pp_arenas pool) of
                 Some (i, k) \<Rightarrow>
                   (let arena = pp_arenas pool ! i
                    in (Some (the (pa_memory arena) + k * HORIZON_POOL_PAGE),
                        pool\<lparr>pp_arenas := (pp_arenas pool)[i := arena\<lparr>pa_used := mark k pages True (pa_used arena),
                               pa_free_pages := pa_free_pages arena - pages\<rparr>],
                             pp_hits := pp_hits pool + 1\<rparr>))
               | None \<Rightarrow>
                   (let slot = (case index_of (\<lambda>a. pa_memory a = None) (pp_arenas pool) of
                                  Some i \<Rightarrow> Some (i, pool)
                                | None \<Rightarrow>
                                    (let old = length (pp_arenas pool);
                                         capacity = (if old \<noteq> 0 then old * 2 else 32)
                                     in if capacity \<le> old \<or> capacity > SIZE_MAX div arena_struct_size then None
                                        else if \<not> realloc_ok then None
                                        else Some (old, pool\<lparr>pp_arenas := pp_arenas pool @ replicate (capacity - old) empty_arena\<rparr>)))
                    in case slot of
                         None \<Rightarrow> (None, pool)
                       | Some (i, pool1) \<Rightarrow>
                           (case block of
                              None \<Rightarrow> (None, pool1)
                            | Some memory \<Rightarrow>
                                (Some memory,
                                 pool1\<lparr>pp_arenas := (pp_arenas pool1)[i := \<lparr>pa_memory = Some memory,
                                          pa_free_pages = HORIZON_POOL_PAGES - pages,
                                          pa_used = mark 0 pages True (pa_used (pp_arenas pool1 ! i))\<rparr>],
                                       pp_active_arenas := pp_active_arenas pool1 + 1,
                                       pp_peak_arenas := max (pp_peak_arenas pool1) (pp_active_arenas pool1 + 1),
                                       pp_misses := pp_misses pool1 + 1,
                                       pp_hits := pp_hits pool1 + 1\<rparr>)))))"

definition horizon_pages_alloc_dedicated ::
    "bool \<Rightarrow> ptr option \<Rightarrow> ptr option \<Rightarrow> horizon_page_pool \<Rightarrow> nat \<Rightarrow> ptr option \<times> horizon_page_pool" where
  "horizon_pages_alloc_dedicated realloc_ok block direct pool sz =
     (if sz = 0 \<or> sz mod HORIZON_POOL_PAGE \<noteq> 0 \<or> sz > SIZE_MAX - (HORIZON_POOL_ARENA - 1) then (None, pool)
      else (case horizon_pages_alloc realloc_ok block pool sz of
              (Some p, pool1) \<Rightarrow> (Some p, pool1)
            | (None, pool1) \<Rightarrow>
                (direct, if direct \<noteq> None then pool1\<lparr>pp_blocks := pp_blocks pool1 + 1\<rparr> else pool1)))"

definition horizon_pages_alloc_any ::
    "bool \<Rightarrow> ptr option \<Rightarrow> ptr option \<Rightarrow> ptr option \<Rightarrow> horizon_page_pool \<Rightarrow> nat \<Rightarrow> ptr option \<times> horizon_page_pool" where
  "horizon_pages_alloc_any realloc_ok block direct fallback pool sz =
     (case horizon_pages_alloc_dedicated realloc_ok block direct pool sz of
        (Some p, pool1) \<Rightarrow> (Some p, pool1)
      | (None, pool1) \<Rightarrow>
          if sz \<noteq> 0 \<and> sz mod HORIZON_POOL_PAGE = 0
          then (fallback, if fallback \<noteq> None then pool1\<lparr>pp_shared := pp_shared pool1 + 1\<rparr> else pool1)
          else (None, pool1))"

definition in_arena :: "ptr \<Rightarrow> nat \<Rightarrow> horizon_page_arena \<Rightarrow> bool" where
  "in_arena p sz a =
     (case pa_memory a of
        None \<Rightarrow> False
      | Some memory \<Rightarrow> memory \<le> p \<and> p - memory < HORIZON_POOL_ARENA \<and> (p - memory) mod HORIZON_POOL_PAGE = 0 \<and>
          sz \<le> HORIZON_POOL_ARENA - (p - memory))"

definition horizon_pages_free :: "horizon_page_pool \<Rightarrow> ptr \<Rightarrow> nat \<Rightarrow> bool \<times> horizon_page_pool" where
  "horizon_pages_free pool p sz =
     (if p = 0 \<or> sz = 0 \<or> sz mod HORIZON_POOL_PAGE \<noteq> 0 then (False, pool)
      else (case index_of (in_arena p sz) (pp_arenas pool) of
              None \<Rightarrow> (False, pool)
            | Some i \<Rightarrow>
                (let arena = pp_arenas pool ! i;
                     pages = sz div HORIZON_POOL_PAGE;
                     left = pa_free_pages arena + pages
                 in (True,
                     if left = HORIZON_POOL_PAGES \<and> pp_active_arenas pool > HORIZON_POOL_RETAIN_EMPTY
                     then pool\<lparr>pp_arenas := (pp_arenas pool)[i := empty_arena],
                               pp_active_arenas := pp_active_arenas pool - 1, pp_reclaims := pp_reclaims pool + 1\<rparr>
                     else pool\<lparr>pp_arenas := (pp_arenas pool)[i := arena\<lparr>
                                 pa_used := mark ((p - the (pa_memory arena)) div HORIZON_POOL_PAGE) pages False (pa_used arena),
                                 pa_free_pages := left\<rparr>]\<rparr>))))"

definition trimmed :: "horizon_page_arena \<Rightarrow> bool" where
  "trimmed a \<longleftrightarrow> pa_memory a \<noteq> None \<and> pa_free_pages a = HORIZON_POOL_PAGES"

definition horizon_pages_trim :: "horizon_page_pool \<Rightarrow> nat \<times> horizon_page_pool" where
  "horizon_pages_trim pool =
     (let n = length (filter trimmed (pp_arenas pool));
          active = pp_active_arenas pool - n;
          arenas = map (\<lambda>a. if trimmed a then empty_arena else a) (pp_arenas pool)
      in (n * HORIZON_POOL_ARENA,
          pool\<lparr>pp_arenas := (if active = 0 then [] else arenas), pp_active_arenas := active,
               pp_reclaims := pp_reclaims pool + of_nat n\<rparr>))"

section \<open>The pages in use\<close>

definition arena_pages :: "horizon_page_arena \<Rightarrow> nat set" where
  "arena_pages a = (case pa_memory a of
      None \<Rightarrow> {} | Some memory \<Rightarrow> {memory + j * 4096 | j. j < length (pa_used a) \<and> pa_used a ! j})"

definition pool_pages :: "horizon_page_pool \<Rightarrow> nat set" where
  "pool_pages pool = (\<Union>a\<in>set (pp_arenas pool). arena_pages a)"

definition block_pages :: "ptr \<Rightarrow> nat \<Rightarrow> nat set" where
  "block_pages p sz = {p + j * 4096 | j. j < sz div 4096}"

definition arena_ok :: "horizon_page_arena \<Rightarrow> bool" where
  "arena_ok a \<longleftrightarrow> length (pa_used a) = 512 \<and>
     (case pa_memory a of
        None \<Rightarrow> a = empty_arena
      | Some memory \<Rightarrow> 0 < memory \<and> pa_free_pages a = length (filter Not (pa_used a)))"

definition apart :: "horizon_page_arena \<Rightarrow> horizon_page_arena \<Rightarrow> bool" where
  "apart a b \<longleftrightarrow> (\<forall>m n. pa_memory a = Some m \<and> pa_memory b = Some n \<longrightarrow>
     m + HORIZON_POOL_ARENA \<le> n \<or> n + HORIZON_POOL_ARENA \<le> m)"

definition pool_inv :: "horizon_page_pool \<Rightarrow> bool" where
  "pool_inv pool \<longleftrightarrow>
     (\<forall>a\<in>set (pp_arenas pool). arena_ok a) \<and>
     (\<forall>i j. i < length (pp_arenas pool) \<and> j < length (pp_arenas pool) \<and> i \<noteq> j \<longrightarrow> apart (pp_arenas pool ! i) (pp_arenas pool ! j)) \<and>
     pp_active_arenas pool = length (filter (\<lambda>a. pa_memory a \<noteq> None) (pp_arenas pool))"

text \<open>What the allocator promises: a block that is not part of any block it handed out before.\<close>

definition fresh_block :: "horizon_page_pool \<Rightarrow> ptr option \<Rightarrow> bool" where
  "fresh_block pool block \<longleftrightarrow> (case block of None \<Rightarrow> True
     | Some m \<Rightarrow> 0 < m \<and> (\<forall>a\<in>set (pp_arenas pool). apart \<lparr>pa_memory = Some m, pa_free_pages = 0, pa_used = []\<rparr> a))"

section \<open>Runs\<close>

lemma length_mark [simp]: "length (mark i n b us) = length us"
  by (simp add: mark_def)

lemma nth_mark [simp]: "j < length us \<Longrightarrow> mark i n b us ! j = (if i \<le> j \<and> j < i + n then b else us ! j)"
  by (simp add: mark_def)

text \<open>The run that is found is free and lies within the list.\<close>

lemma find_run_Some:
  assumes "find_run pages j run us = Some k" "\<And>i. j - run \<le> i \<Longrightarrow> i < j \<Longrightarrow> \<not> f i" "run \<le> j"
    "\<And>i. i < length us \<Longrightarrow> f (j + i) = us ! i" "0 < pages"
  shows "k + pages \<le> j + length us \<and> (\<forall>i. k \<le> i \<and> i < k + pages \<longrightarrow> \<not> f i)"
  using assms
proof (induction us arbitrary: j run)
  case (Cons u us)
  define run' where "run' = (if u then 0 else run + 1)"
  have fj: "f j = u" using Cons.prems(4) [of 0] by simp
  have free: "\<not> f i" if "j + 1 - run' \<le> i" "i < j + 1" for i
    using that fj Cons.prems(2) [of i] Cons.prems(3) by (cases "i = j") (auto simp: run'_def split: if_splits)
  have r': "run' \<le> j + 1" using Cons.prems(3) by (simp add: run'_def)
  show ?case
  proof (cases "run' = pages")
    case True
    with Cons.prems(1) have "k = j + 1 - pages" by (simp add: run'_def [symmetric] Let_def)
    with free True r' show ?thesis by auto
  next
    case False
    with Cons.prems(1) have f1: "find_run pages (j + 1) run' us = Some k" by (simp add: run'_def [symmetric] Let_def)
    have f2: "f (j + 1 + i) = us ! i" if "i < length us" for i using Cons.prems(4) [of "Suc i"] that by simp
    from Cons.IH [OF f1 free r' f2 Cons.prems(5)] show ?thesis by simp
  qed
qed simp

lemma find_run_free:
  assumes "find_run pages 0 0 us = Some k" "0 < pages"
  shows "k + pages \<le> length us" "\<And>i. k \<le> i \<Longrightarrow> i < k + pages \<Longrightarrow> \<not> us ! i"
  using find_run_Some [OF assms(1), of "\<lambda>i. us ! i"] assms(2) by auto

lemma find_arena_Some:
  assumes "find_arena pages i as = Some (n, k)"
  shows "i \<le> n \<and> n < i + length as \<and> pa_memory (as ! (n - i)) \<noteq> None \<and> find_run pages 0 0 (pa_used (as ! (n - i))) = Some k"
  using assms
proof (induction as arbitrary: i)
  case (Cons a as)
  show ?case
  proof (cases "pa_memory a = None \<or> pa_free_pages a < pages \<or> find_run pages 0 0 (pa_used a) = None")
    case True
    with Cons.prems have "find_arena pages (i + 1) as = Some (n, k)" by (auto split: if_splits)
    from Cons.IH [OF this] show ?thesis by (auto simp: nth_Cons' )
  next
    case False
    with Cons.prems show ?thesis by auto
  qed
qed simp

lemma free_count: "length (filter Not us) = card {j. j < length us \<and> \<not> us ! j}"
  by (simp add: length_filter_conv_card)

lemma mark_True_count:
  assumes "k + n \<le> length us" "\<And>i. k \<le> i \<Longrightarrow> i < k + n \<Longrightarrow> \<not> us ! i"
  shows "length (filter Not (mark k n True us)) = length (filter Not us) - n" "n \<le> length (filter Not us)"
proof -
  have run: "{k..<k + n} \<subseteq> {j. j < length us \<and> \<not> us ! j}" using assms by auto
  have "{j. j < length us \<and> \<not> mark k n True us ! j} = {j. j < length us \<and> \<not> us ! j} - {k..<k + n}" by (auto split: if_splits)
  then show "length (filter Not (mark k n True us)) = length (filter Not us) - n"
    using run by (simp add: free_count card_Diff_subset)
  show "n \<le> length (filter Not us)" using card_mono [OF _ run] by (simp add: free_count)
qed

lemma mark_False_count:
  assumes "k + n \<le> length us" "\<And>i. k \<le> i \<Longrightarrow> i < k + n \<Longrightarrow> us ! i"
  shows "length (filter Not (mark k n False us)) = length (filter Not us) + n"
proof -
  have "{j. j < length us \<and> \<not> mark k n False us ! j} = {j. j < length us \<and> \<not> us ! j} \<union> {k..<k + n}" using assms(1) by (auto split: if_splits)
  moreover have "{j. j < length us \<and> \<not> us ! j} \<inter> {k..<k + n} = {}" using assms(2) by auto
  ultimately show ?thesis by (simp add: free_count card_Un_disjoint)
qed

section \<open>One arena of the pool\<close>

lemma arena_pages_range:
  assumes "arena_ok a" "x \<in> arena_pages a"
  shows "\<exists>m. pa_memory a = Some m \<and> m \<le> x \<and> x < m + HORIZON_POOL_ARENA"
  using assms by (auto simp: arena_ok_def arena_pages_def split: option.splits)

lemma apart_pages: "arena_ok a \<Longrightarrow> arena_ok b \<Longrightarrow> apart a b \<Longrightarrow> arena_pages a \<inter> arena_pages b = {}"
proof (rule ccontr)
  assume ok: "arena_ok a" "arena_ok b" "apart a b" and "arena_pages a \<inter> arena_pages b \<noteq> {}"
  then obtain x where x: "x \<in> arena_pages a" "x \<in> arena_pages b" by blast
  from arena_pages_range [OF ok(1) x(1)] arena_pages_range [OF ok(2) x(2)] ok(3) show False
    by (fastforce simp: apart_def)
qed

lemma apart_memory: "pa_memory a' = pa_memory a \<Longrightarrow> apart a' b = apart a b \<and> apart b a' = apart b a"
  by (simp add: apart_def)

definition other_pages :: "horizon_page_pool \<Rightarrow> nat \<Rightarrow> nat set" where
  "other_pages pool i = (\<Union>j\<in>{j. j < length (pp_arenas pool) \<and> j \<noteq> i}. arena_pages (pp_arenas pool ! j))"

lemma pool_pages_at:
  "i < length (pp_arenas pool) \<Longrightarrow> pool_pages pool = other_pages pool i \<union> arena_pages (pp_arenas pool ! i)"
  by (auto simp: pool_pages_def other_pages_def set_conv_nth)

lemma pool_pages_update:
  "i < length (pp_arenas pool) \<Longrightarrow> pp_arenas pool' = (pp_arenas pool)[i := a] \<Longrightarrow>
   pool_pages pool' = other_pages pool i \<union> arena_pages a"
  by (auto simp: pool_pages_at [of i pool'] other_pages_def)

lemma pool_others_apart:
  assumes "pool_inv pool" "i < length (pp_arenas pool)"
  shows "other_pages pool i \<inter> arena_pages (pp_arenas pool ! i) = {}"
proof -
  have "arena_pages (pp_arenas pool ! j) \<inter> arena_pages (pp_arenas pool ! i) = {}"
    if "j < length (pp_arenas pool)" "j \<noteq> i" for j
    using assms that by (intro apart_pages) (auto simp: pool_inv_def)
  then show ?thesis by (auto simp: other_pages_def)
qed

lemma filter_count_update:
  assumes "i < length xs"
  shows "length (filter P (xs[i := x])) + (if P (xs ! i) then 1 else 0) = length (filter P xs) + (if P x then 1 else 0)"
proof -
  have xs: "xs = take i xs @ xs ! i # drop (Suc i) xs" using assms by (rule id_take_nth_drop)
  have "length (filter P xs) = length (filter P (take i xs)) + (if P (xs ! i) then 1 else 0) + length (filter P (drop (Suc i) xs))"
    by (subst xs) simp
  then show ?thesis using assms by (simp add: upd_conv_take_nth_drop)
qed

lemma pool_inv_update:
  assumes inv: "pool_inv pool" and i: "i < length (pp_arenas pool)" and a: "arena_ok a"
    and ap: "\<And>j. j < length (pp_arenas pool) \<Longrightarrow> j \<noteq> i \<Longrightarrow> apart a (pp_arenas pool ! j)"
    and p': "pp_arenas pool' = (pp_arenas pool)[i := a]"
    and n: "pp_active_arenas pool' + (if pa_memory (pp_arenas pool ! i) \<noteq> None then 1 else 0) =
      pp_active_arenas pool + (if pa_memory a \<noteq> None then 1 else 0)"
  shows "pool_inv pool'"
proof -
  have sym: "apart x y \<Longrightarrow> apart y x" for x y by (auto simp: apart_def)
  have "\<forall>x\<in>set (pp_arenas pool'). arena_ok x"
    using inv a set_update_subset_insert [of "pp_arenas pool" i a] by (auto simp: pool_inv_def p')
  moreover have "apart (pp_arenas pool' ! j) (pp_arenas pool' ! k)"
    if "j < length (pp_arenas pool')" "k < length (pp_arenas pool')" "j \<noteq> k" for j k
  proof -
    have old: "apart (pp_arenas pool ! j) (pp_arenas pool ! k)" using that inv by (simp add: pool_inv_def p')
    show ?thesis using that old ap [of j] ap [of k] sym i by (auto simp: p' nth_list_update)
  qed
  moreover have "pp_active_arenas pool' = length (filter (\<lambda>a. pa_memory a \<noteq> None) (pp_arenas pool'))"
    using inv n filter_count_update [OF i, of "\<lambda>a. pa_memory a \<noteq> None" a] by (auto simp: pool_inv_def p' split: if_splits)
  ultimately show ?thesis by (simp add: pool_inv_def)
qed

lemma arena_pages_mark:
  assumes "pa_memory a = Some m" "k + n \<le> length (pa_used a)"
  shows "arena_pages (a\<lparr>pa_used := mark k n b (pa_used a), pa_free_pages := f\<rparr>) =
    (if b then arena_pages a \<union> block_pages (m + k * 4096) (n * 4096) else arena_pages a - block_pages (m + k * 4096) (n * 4096))"
proof -
  have run: "x \<in> block_pages (m + k * 4096) (n * 4096) \<longleftrightarrow> (\<exists>j. k \<le> j \<and> j < k + n \<and> x = m + j * 4096)" for x
  proof
    assume "x \<in> block_pages (m + k * 4096) (n * 4096)"
    then obtain j where "j < n" "x = m + k * 4096 + j * 4096" by (auto simp: block_pages_def)
    then show "\<exists>j. k \<le> j \<and> j < k + n \<and> x = m + j * 4096" by (intro exI [of _ "k + j"]) simp
  next
    assume "\<exists>j. k \<le> j \<and> j < k + n \<and> x = m + j * 4096"
    then obtain j where "k \<le> j" "j < k + n" "x = m + j * 4096" by auto
    then show "x \<in> block_pages (m + k * 4096) (n * 4096)" by (auto simp: block_pages_def intro!: exI [of _ "j - k"])
  qed
  show ?thesis
    using assms by (auto simp: arena_pages_def run split: if_splits)
qed

section \<open>What the operations do to the pages in use\<close>

definition alloc_result :: "horizon_page_pool \<Rightarrow> nat \<Rightarrow> ptr option \<Rightarrow> horizon_page_pool \<Rightarrow> bool" where
  "alloc_result pool sz r pool' \<longleftrightarrow> pool_inv pool' \<and>
     (case r of
        None \<Rightarrow> pool_pages pool' = pool_pages pool
      | Some p \<Rightarrow> 0 < p \<and> 0 < sz \<and> sz mod 4096 = 0 \<and> block_pages p sz \<inter> pool_pages pool = {} \<and>
          pool_pages pool' = pool_pages pool \<union> block_pages p sz \<and> (\<exists>a\<in>set (pp_arenas pool'). in_arena p sz a))"

lemma arena_take_pages:
  assumes inv: "pool_inv pool" and f: "find_arena pages 0 (pp_arenas pool) = Some (i, k)" and n: "0 < pages"
  defines "arena \<equiv> pp_arenas pool ! i"
  shows "\<exists>m. i < length (pp_arenas pool) \<and> pa_memory arena = Some m \<and> 0 < m \<and> k + pages \<le> 512 \<and>
    length (pa_used arena) = 512 \<and>
    arena_ok (arena\<lparr>pa_used := mark k pages True (pa_used arena), pa_free_pages := pa_free_pages arena - pages\<rparr>) \<and>
    block_pages (m + k * 4096) (pages * 4096) \<inter> arena_pages arena = {}"
proof -
  from find_arena_Some [OF f] obtain m where i: "i < length (pp_arenas pool)" "pa_memory arena = Some m"
    "find_run pages 0 0 (pa_used arena) = Some k" by (auto simp: arena_def)
  have ok: "arena_ok arena" using inv i(1) by (simp add: pool_inv_def arena_def)
  then have l: "length (pa_used arena) = 512" "0 < m" "pa_free_pages arena = length (filter Not (pa_used arena))"
    using i(2) by (simp_all add: arena_ok_def)
  note r = find_run_free [OF i(3) n]
  have "arena_ok (arena\<lparr>pa_used := mark k pages True (pa_used arena), pa_free_pages := pa_free_pages arena - pages\<rparr>)"
    using i(2) l mark_True_count(1) [OF r(1) r(2)] by (simp add: arena_ok_def)
  moreover have "block_pages (m + k * 4096) (pages * 4096) \<inter> arena_pages arena = {}"
    using r(2) i(2) by (fastforce simp: block_pages_def arena_pages_def)
  ultimately show ?thesis using i(1,2) l r(1) by auto
qed

lemma block_in_arena:
  assumes "x \<in> block_pages (m + k * 4096) (n * 4096)" "k + n \<le> 512"
  shows "m \<le> x" "x < m + HORIZON_POOL_ARENA"
  using assms by (auto simp: block_pages_def)

lemma others_disjoint:
  assumes inv: "pool_inv pool" and i: "i < length (pp_arenas pool)"
    and m: "\<And>j. j < length (pp_arenas pool) \<Longrightarrow> j \<noteq> i \<Longrightarrow>
      apart \<lparr>pa_memory = Some m, pa_free_pages = 0, pa_used = []\<rparr> (pp_arenas pool ! j)"
    and x: "\<And>x. x \<in> B \<Longrightarrow> m \<le> x \<and> x < m + HORIZON_POOL_ARENA"
  shows "B \<inter> other_pages pool i = {}"
proof (rule ccontr)
  assume "B \<inter> other_pages pool i \<noteq> {}"
  then obtain y j where y: "y \<in> B" "j < length (pp_arenas pool)" "j \<noteq> i" "y \<in> arena_pages (pp_arenas pool ! j)"
    by (auto simp: other_pages_def)
  have "arena_ok (pp_arenas pool ! j)" using inv y(2) by (simp add: pool_inv_def)
  from arena_pages_range [OF this y(4)] m [OF y(2,3)] x [OF y(1)] show False by (auto simp: apart_def)
qed

lemma alloc_new_arena:
  fixes pk :: nat and ms hs :: u64
  assumes inv: "pool_inv pool" and i: "i < length (pp_arenas pool)" "pa_memory (pp_arenas pool ! i) = None"
    and m: "fresh_block pool (Some m)" and n: "0 < pages" "pages \<le> 512"
  defines "pool' \<equiv> pool\<lparr>pp_arenas := (pp_arenas pool)[i := \<lparr>pa_memory = Some m, pa_free_pages = 512 - pages,
      pa_used = mark 0 pages True (pa_used (pp_arenas pool ! i))\<rparr>], pp_active_arenas := pp_active_arenas pool + 1,
      pp_peak_arenas := pk, pp_misses := ms, pp_hits := hs\<rparr>"
  shows "alloc_result pool (pages * 4096) (Some m) pool'"
proof -
  let ?a = "\<lparr>pa_memory = Some m, pa_free_pages = 512 - pages, pa_used = mark 0 pages True (pa_used (pp_arenas pool ! i))\<rparr>"
  have "arena_ok (pp_arenas pool ! i)" using inv i(1) by (simp add: pool_inv_def)
  then have e: "pp_arenas pool ! i = empty_arena" using i(2) by (simp add: arena_ok_def)
  have c: "length (filter Not (mark 0 pages True (replicate 512 False))) = 512 - pages"
    using n(2) by (subst mark_True_count) simp_all
  have ok: "arena_ok ?a" using m c by (simp add: arena_ok_def e fresh_block_def empty_arena_def)
  have ap: "apart ?a (pp_arenas pool ! j)" if "j < length (pp_arenas pool)" for j
    using m nth_mem [OF that] by (fastforce simp: fresh_block_def apart_def)
  have p': "pp_arenas pool' = (pp_arenas pool)[i := ?a]" by (simp add: pool'_def)
  have inv': "pool_inv pool'"
    by (rule pool_inv_update [OF inv i(1) ok ap p']) (simp_all add: i(2) pool'_def)
  have pg: "arena_pages ?a = block_pages m (pages * 4096)"
    using n(2) by (auto simp: arena_pages_def block_pages_def e empty_arena_def split: if_splits)
  have none: "arena_pages (pp_arenas pool ! i) = {}" using i(2) by (simp add: arena_pages_def)
  have "block_pages m (pages * 4096) \<inter> other_pages pool i = {}"
    using m block_in_arena [of _ m 0 pages] n(2)
    by (intro others_disjoint [OF inv i(1), of m]) (auto simp: fresh_block_def)
  then have dj: "block_pages m (pages * 4096) \<inter> pool_pages pool = {}" using pool_pages_at [OF i(1)] none by simp
  have "pool_pages pool' = pool_pages pool \<union> block_pages m (pages * 4096)"
    using pool_pages_update [OF i(1) p'] pool_pages_at [OF i(1)] none pg by simp
  moreover have "?a \<in> set (pp_arenas pool')" using i(1) by (simp add: p' set_update_memI)
  moreover have "in_arena m (pages * 4096) ?a" using n(2) by (simp add: in_arena_def)
  ultimately show ?thesis using inv' dj n(1) m by (auto simp: alloc_result_def fresh_block_def)
qed

lemma pool_grow:
  fixes n :: nat
  assumes inv: "pool_inv pool"
  defines "pool' \<equiv> pool\<lparr>pp_arenas := pp_arenas pool @ replicate n empty_arena\<rparr>"
  shows "pool_inv pool'" "pool_pages pool' = pool_pages pool"
    "fresh_block pool b \<Longrightarrow> fresh_block pool' b"
proof -
  have e: "pa_memory empty_arena = None" "arena_ok empty_arena" by (simp_all add: empty_arena_def arena_ok_def)
  show "pool_pages pool' = pool_pages pool"
    using e by (auto simp: pool_pages_def pool'_def arena_pages_def)
  have ap: "apart empty_arena x" "apart x empty_arena" for x by (simp_all add: apart_def e)
  show "fresh_block pool b \<Longrightarrow> fresh_block pool' b"
    using ap by (auto simp: fresh_block_def pool'_def split: option.splits)
  have "apart (pp_arenas pool' ! i) (pp_arenas pool' ! j)"
    if "i < length (pp_arenas pool')" "j < length (pp_arenas pool')" "i \<noteq> j" for i j
    using that inv ap by (auto simp: pool'_def pool_inv_def nth_append)
  then show "pool_inv pool'"
    using inv e by (auto simp: pool_inv_def pool'_def)
qed

text \<open>A block from an arena that has room.\<close>

lemma alloc_from_arena:
  assumes inv: "pool_inv pool" and found: "find_arena pages 0 (pp_arenas pool) = Some (i, k)" and sz: "sz = pages * 4096" "0 < pages"
  defines "arena \<equiv> pp_arenas pool ! i"
  defines "arena' \<equiv> arena\<lparr>pa_used := mark k pages True (pa_used arena), pa_free_pages := pa_free_pages arena - pages\<rparr>"
  assumes mm: "pa_memory arena = Some m" and res: "pool' = pool\<lparr>pp_arenas := (pp_arenas pool)[i := arena'], pp_hits := pp_hits pool + 1\<rparr>"
  shows "alloc_result pool sz (Some (m + k * 4096)) pool'"
proof -
  from arena_take_pages [OF inv found sz(2)] mm have m: "i < length (pp_arenas pool)"
    "pa_memory arena = Some m" "0 < m" "k + pages \<le> 512" "length (pa_used arena) = 512" "arena_ok arena'"
    "block_pages (m + k * 4096) sz \<inter> arena_pages arena = {}" by (auto simp: arena_def arena'_def sz(1))
  have p': "pp_arenas pool' = (pp_arenas pool)[i := arena']" by (simp add: res)
  have mem: "pa_memory arena' = pa_memory (pp_arenas pool ! i)" by (simp add: arena'_def arena_def)
  have "apart arena' (pp_arenas pool ! j)" if "j < length (pp_arenas pool)" "j \<noteq> i" for j
    using inv m(1) that apart_memory [OF mem] by (simp add: pool_inv_def)
  note ap = this
  have inv': "pool_inv pool'"
    by (rule pool_inv_update [OF inv m(1,6) ap p']) (simp_all add: mem res)
  have ap': "apart \<lparr>pa_memory = Some m, pa_free_pages = 0, pa_used = []\<rparr> (pp_arenas pool ! j)"
    if "j < length (pp_arenas pool)" "j \<noteq> i" for j
    using ap [OF that] m(2) mem by (simp add: apart_def arena_def)
  have "block_pages (m + k * 4096) sz \<inter> other_pages pool i = {}"
    using block_in_arena [OF _ m(4)] by (intro others_disjoint [OF inv m(1) ap']) (auto simp: sz(1))
  then have dj: "block_pages (m + k * 4096) sz \<inter> pool_pages pool = {}"
    using pool_pages_at [OF m(1)] m(7) by (auto simp: arena_def)
  have "arena_pages arena' = arena_pages arena \<union> block_pages (m + k * 4096) sz"
    unfolding arena'_def sz(1) by (subst arena_pages_mark [OF m(2)]) (use m(4,5) in simp_all)
  then have "pool_pages pool' = pool_pages pool \<union> block_pages (m + k * 4096) sz"
    using pool_pages_update [OF m(1) p'] pool_pages_at [OF m(1)] by (auto simp: arena_def)
  moreover have "arena' \<in> set (pp_arenas pool')" using m(1) by (simp add: p' set_update_memI)
  moreover have "in_arena (m + k * 4096) sz arena'" using m(2,4) sz by (simp add: in_arena_def arena'_def)
  ultimately show ?thesis using inv' dj m(3) sz by (auto simp: alloc_result_def)
qed

text \<open>A block from a new arena, in an entry that is free or in a table that has grown.\<close>

lemma alloc_from_new:
  assumes inv: "pool_inv pool" and b: "fresh_block pool block" and sz: "sz = pages * 4096" "0 < pages" "pages \<le> 512"
    and none: "find_arena pages 0 (pp_arenas pool) = None" and a: "horizon_pages_alloc realloc_ok block pool sz = (r, pool')"
  shows "alloc_result pool sz r pool'"
proof -
  have pages: "sz div 4096 = pages" "\<not> (sz = 0 \<or> sz mod 4096 \<noteq> 0 \<or> pages > 512)" using sz by simp_all
  have same: "alloc_result pool sz None pool" using inv by (simp add: alloc_result_def)
  define old where "old = length (pp_arenas pool)"
  define cap where "cap = (if old \<noteq> 0 then old * 2 else 32)"
  define grown where "grown = pool\<lparr>pp_arenas := pp_arenas pool @ replicate (cap - old) empty_arena\<rparr>"
  have capold: "old < cap" by (simp add: cap_def)
  note g = pool_grow [OF inv, where n = "cap - old", folded grown_def]
  have glen: "old < length (pp_arenas grown)" "pa_memory (pp_arenas grown ! old) = None"
    using capold by (simp_all add: grown_def old_def nth_append empty_arena_def)
  note new = alloc_new_arena [OF _ _ _ _ sz(2,3), folded sz(1)]
  consider (free) i where "index_of (\<lambda>a. pa_memory a = None) (pp_arenas pool) = Some i"
    | (no) "index_of (\<lambda>a. pa_memory a = None) (pp_arenas pool) = None" "\<not> (realloc_ok \<and> cap \<le> SIZE_MAX div arena_struct_size)"
    | (yes) "index_of (\<lambda>a. pa_memory a = None) (pp_arenas pool) = None" "realloc_ok \<and> cap \<le> SIZE_MAX div arena_struct_size"
    by (cases "index_of (\<lambda>a. pa_memory a = None) (pp_arenas pool)") auto
  then show ?thesis
  proof cases
    case free
    have i: "i < length (pp_arenas pool)" "pa_memory (pp_arenas pool ! i) = None"
      using index_of_bound [OF free] index_of_sat [OF free] by simp_all
    show ?thesis using a pages none free same new [OF inv i] b by (cases block) (auto simp: horizon_pages_alloc_def Let_def)
  next
    case no
    have "(None, pool) = (r, pool')"
      using a pages none no by (auto simp: horizon_pages_alloc_def Let_def cap_def old_def split: if_splits)
    with same show ?thesis by simp
  next
    case yes
    have al: "horizon_pages_alloc realloc_ok block pool sz =
        (case block of None \<Rightarrow> (None, grown)
         | Some mm \<Rightarrow> (Some mm, grown\<lparr>pp_arenas := (pp_arenas grown)[old := \<lparr>pa_memory = Some mm, pa_free_pages = 512 - pages,
             pa_used = mark 0 pages True (pa_used (pp_arenas grown ! old))\<rparr>], pp_active_arenas := pp_active_arenas grown + 1,
             pp_peak_arenas := max (pp_peak_arenas grown) (pp_active_arenas grown + 1), pp_misses := pp_misses grown + 1,
             pp_hits := pp_hits grown + 1\<rparr>))"
      using pages none yes capold
      by (cases "pp_arenas pool = []") (simp_all add: horizon_pages_alloc_def Let_def grown_def cap_def old_def split: option.splits)
    have "alloc_result grown sz None grown" using g(1) by (simp add: alloc_result_def)
    then have "alloc_result grown sz r pool'" using new [OF g(1) glen] a al g(3) b by (cases block) auto
    then show ?thesis using g(2) by (simp add: alloc_result_def split: option.splits)
  qed
qed

lemma pages_alloc_spec:
  assumes inv: "pool_inv pool" and b: "fresh_block pool block"
    and a: "horizon_pages_alloc realloc_ok block pool sz = (r, pool')"
  shows "alloc_result pool sz r pool'"
proof -
  define pages where "pages = sz div 4096"
  show ?thesis
  proof (cases "sz = 0 \<or> sz mod 4096 \<noteq> 0 \<or> pages > 512")
    case True
    with a inv show ?thesis by (auto simp: horizon_pages_alloc_def pages_def alloc_result_def)
  next
    case False
    then have sz: "sz = pages * 4096" "0 < pages" "pages \<le> 512" by (auto simp: pages_def)
    show ?thesis
    proof (cases "find_arena pages 0 (pp_arenas pool)")
      case (Some ik)
      obtain i k where ik: "ik = (i, k)" by fastforce
      from arena_take_pages [OF inv Some [unfolded ik] sz(2)] obtain m where m: "pa_memory (pp_arenas pool ! i) = Some m" by auto
      show ?thesis
        using a False Some ik m alloc_from_arena [OF inv Some [unfolded ik] sz(1,2) m refl]
        by (auto simp: horizon_pages_alloc_def pages_def [symmetric] Let_def)
    next
      case None
      then show ?thesis by (rule alloc_from_new [OF inv b sz(1-3) _ a])
    qed
  qed
qed

lemma in_arena_pages:
  assumes inv: "pool_inv pool" and i: "i < length (pp_arenas pool)" and a: "in_arena p sz (pp_arenas pool ! i)"
    and sz: "sz mod 4096 = 0" and sub: "block_pages p sz \<subseteq> pool_pages pool"
  obtains m k n where "pa_memory (pp_arenas pool ! i) = Some m" "p = m + k * 4096" "sz = n * 4096" "k + n \<le> 512"
    "block_pages p sz \<subseteq> arena_pages (pp_arenas pool ! i)"
proof -
  from a obtain m where m: "pa_memory (pp_arenas pool ! i) = Some m" "m \<le> p" "p - m < HORIZON_POOL_ARENA"
    "(p - m) mod 4096 = 0" "sz \<le> HORIZON_POOL_ARENA - (p - m)" by (auto simp: in_arena_def split: option.splits)
  define k n where "k = (p - m) div 4096" and "n = sz div 4096"
  have e: "p = m + k * 4096" "sz = n * 4096" using m(2,4) sz by (auto simp: k_def n_def)
  have l: "k + n \<le> 512" using m(3,5) e by simp
  have ok: "arena_ok (pp_arenas pool ! i)" using inv i by (simp add: pool_inv_def)
  have "apart \<lparr>pa_memory = Some m, pa_free_pages = 0, pa_used = []\<rparr> (pp_arenas pool ! j)"
    if "j < length (pp_arenas pool)" "j \<noteq> i" for j
    using inv i that m(1) unfolding pool_inv_def apart_def by fastforce
  then have "block_pages p sz \<inter> other_pages pool i = {}"
    using block_in_arena [OF _ l] by (intro others_disjoint [OF inv i]) (auto simp: e)
  then have "block_pages p sz \<subseteq> arena_pages (pp_arenas pool ! i)" using sub pool_pages_at [OF i] by auto
  with that m(1) e l show ?thesis by blast
qed

lemma arena_return_pages:
  assumes ok: "arena_ok arena" and m: "pa_memory arena = Some m" "k + n \<le> 512" "block_pages (m + k * 4096) (n * 4096) \<subseteq> arena_pages arena"
  defines "arena' \<equiv> arena\<lparr>pa_used := mark k n False (pa_used arena), pa_free_pages := pa_free_pages arena + n\<rparr>"
  shows "arena_ok arena'" "arena_pages arena' = arena_pages arena - block_pages (m + k * 4096) (n * 4096)"
    "pa_free_pages arena' = 512 \<Longrightarrow> arena_pages arena' = {}"
proof -
  have l: "length (pa_used arena) = 512" "pa_free_pages arena = length (filter Not (pa_used arena))" "0 < m"
    using ok m(1) by (simp_all add: arena_ok_def)
  have used: "pa_used arena ! j" if "k \<le> j" "j < k + n" for j
  proof -
    have "m + j * 4096 \<in> block_pages (m + k * 4096) (n * 4096)"
      using that by (auto simp: block_pages_def intro!: exI [of _ "j - k"])
    then show ?thesis using m(1,3) by (auto simp: arena_pages_def)
  qed
  show ok': "arena_ok arena'"
    using mark_False_count [of k n "pa_used arena"] used l m(1,2) by (simp add: arena'_def arena_ok_def)
  show "arena_pages arena' = arena_pages arena - block_pages (m + k * 4096) (n * 4096)"
    unfolding arena'_def by (subst arena_pages_mark [OF m(1)]) (use m(2) l(1) in simp_all)
  assume "pa_free_pages arena' = 512"
  then have "length (filter Not (pa_used arena')) = 512" using ok' m(1) by (simp add: arena_ok_def arena'_def)
  then have "card {j. j < 512 \<and> \<not> pa_used arena' ! j} = card {..<512 :: nat}"
    using ok' by (simp add: free_count arena_ok_def)
  then have "{j. j < 512 \<and> \<not> pa_used arena' ! j} = {..<512}" by (intro card_subset_eq) auto
  then show "arena_pages arena' = {}" using ok' by (auto simp: arena_pages_def arena_ok_def split: option.splits)
qed

lemma pages_free_spec:
  assumes inv: "pool_inv pool" and p: "0 < p" "0 < sz" "sz mod 4096 = 0"
    and a: "\<exists>a\<in>set (pp_arenas pool). in_arena p sz a" and sub: "block_pages p sz \<subseteq> pool_pages pool"
    and f: "horizon_pages_free pool p sz = (b, pool')"
  shows "b" "pool_inv pool'" "pool_pages pool' = pool_pages pool - block_pages p sz"
    "\<And>x. x \<in> set (pp_arenas pool') \<Longrightarrow> pa_memory x = None \<or> pa_memory x \<in> pa_memory ` set (pp_arenas pool)"
proof -
  from a obtain i where ix: "index_of (in_arena p sz) (pp_arenas pool) = Some i" using index_of_exists by metis
  have i: "i < length (pp_arenas pool)" "in_arena p sz (pp_arenas pool ! i)"
    using index_of_bound [OF ix] index_of_sat [OF ix] by simp_all
  define arena where "arena = pp_arenas pool ! i"
  from in_arena_pages [OF inv i p(3) sub] obtain m k n where m: "pa_memory arena = Some m" "p = m + k * 4096"
    "sz = n * 4096" "k + n \<le> 512" "block_pages p sz \<subseteq> arena_pages arena" unfolding arena_def by metis
  have ok: "arena_ok arena" using inv i(1) by (simp add: pool_inv_def arena_def)
  define arena' where "arena' = arena\<lparr>pa_used := mark k n False (pa_used arena), pa_free_pages := pa_free_pages arena + n\<rparr>"
  note ret = arena_return_pages [OF ok m(1,4) m(5) [unfolded m(2,3)], folded arena'_def m(2,3)]
  have oth: "other_pages pool i \<inter> arena_pages arena = {}" using pool_others_apart [OF inv i(1)] by (simp add: arena_def)
  have minus: "pool_pages pool - block_pages p sz = other_pages pool i \<union> (arena_pages arena - block_pages p sz)"
    using pool_pages_at [OF i(1)] oth m(5) by (auto simp: arena_def)
  have n: "(p - m) div 4096 = k" "sz div 4096 = n" using m(2,3) by simp_all
  let ?new = "if pa_free_pages arena' = 512 \<and> pp_active_arenas pool > 8 then empty_arena else arena'"
  have fr: "b" "pp_arenas pool' = (pp_arenas pool)[i := ?new]"
    "pp_active_arenas pool' = (if pa_free_pages arena' = 512 \<and> pp_active_arenas pool > 8 then pp_active_arenas pool - 1 else pp_active_arenas pool)"
    using f p ix n m(1) by (auto simp: horizon_pages_free_def arena_def [symmetric] arena'_def Let_def split: if_splits)
  show "b" by (rule fr(1))
  have em: "pa_memory empty_arena = None" "arena_ok empty_arena" "arena_pages empty_arena = {}"
    by (simp_all add: empty_arena_def arena_ok_def arena_pages_def)
  have "arena_pages ?new = arena_pages arena - block_pages p sz" using ret(2,3) em by auto
  then show "pool_pages pool' = pool_pages pool - block_pages p sz"
    using pool_pages_update [OF i(1) fr(2)] minus by simp
  have mem: "pa_memory arena' = pa_memory (pp_arenas pool ! i)" by (simp add: arena'_def arena_def)
  have "apart ?new (pp_arenas pool ! j)" if "j < length (pp_arenas pool)" "j \<noteq> i" for j
  proof -
    have "apart (pp_arenas pool ! i) (pp_arenas pool ! j)" using inv i(1) that by (simp add: pool_inv_def)
    then have "apart arena' (pp_arenas pool ! j)" using mem by (simp add: apart_def)
    moreover have "apart empty_arena (pp_arenas pool ! j)" using em(1) by (simp add: apart_def)
    ultimately show ?thesis by simp
  qed
  moreover have "arena_ok ?new" using ret(1) em by simp
  moreover have "0 < pp_active_arenas pool"
    using inv i(1) m(1) by (auto simp: pool_inv_def arena_def filter_empty_conv intro!: bexI [of _ "pp_arenas pool ! i"])
  ultimately show "pool_inv pool'"
    using m(1) em(1) by (intro pool_inv_update [OF inv i(1) _ _ fr(2)]) (simp_all add: fr(3) mem arena_def [symmetric])
  fix x
  assume "x \<in> set (pp_arenas pool')"
  then have "x = ?new \<or> x \<in> set (pp_arenas pool)" using set_update_subset_insert [of "pp_arenas pool" i ?new] fr(2) by auto
  then show "pa_memory x = None \<or> pa_memory x \<in> pa_memory ` set (pp_arenas pool)"
    using em(1) mem i(1) by (auto split: if_splits)
qed

lemma filter_trim:
  "length (filter (\<lambda>a. pa_memory a \<noteq> None) (map (\<lambda>a. if trimmed a then empty_arena else a) as)) + length (filter trimmed as) =
   length (filter (\<lambda>a. pa_memory a \<noteq> None) as)"
  by (induction as) (auto simp: trimmed_def empty_arena_def)

lemma trimmed_pages:
  assumes "arena_ok a" "trimmed a"
  shows "arena_pages a = {}"
proof -
  from assms have "length (filter Not (pa_used a)) = 512" "length (pa_used a) = 512"
    by (auto simp: arena_ok_def trimmed_def split: option.splits)
  then have "card {j. j < 512 \<and> \<not> pa_used a ! j} = card {..<512 :: nat}" by (simp add: free_count)
  then have "{j. j < 512 \<and> \<not> pa_used a ! j} = {..<512}" by (intro card_subset_eq) auto
  then show ?thesis using assms(1) by (auto simp: arena_pages_def arena_ok_def split: option.splits)
qed

lemma pages_trim_spec:
  assumes inv: "pool_inv pool" and t: "horizon_pages_trim pool = (freed, pool')"
  shows "pool_inv pool'" "pool_pages pool' = pool_pages pool"
    "\<And>x. x \<in> set (pp_arenas pool') \<Longrightarrow> pa_memory x = None \<or> pa_memory x \<in> pa_memory ` set (pp_arenas pool)"
proof -
  define as where "as = map (\<lambda>a. if trimmed a then empty_arena else a) (pp_arenas pool)"
  have em: "pa_memory empty_arena = None" "arena_ok empty_arena" "arena_pages empty_arena = {}"
    by (simp_all add: empty_arena_def arena_ok_def arena_pages_def)
  have act: "pp_active_arenas pool' = length (filter (\<lambda>a. pa_memory a \<noteq> None) as)"
    using inv t filter_trim [of "pp_arenas pool"]
    by (auto simp: horizon_pages_trim_def pool_inv_def as_def Let_def)
  have arr: "pp_arenas pool' = (if pp_active_arenas pool' = 0 then [] else as)"
    using t by (auto simp: horizon_pages_trim_def as_def Let_def)
  have none: "pa_memory a = None" if "pp_active_arenas pool' = 0" "a \<in> set as" for a
    using that act by (auto simp: filter_empty_conv)
  have "(\<Union>a\<in>set as. arena_pages a) = pool_pages pool"
    using inv trimmed_pages em(3) by (fastforce simp: as_def pool_pages_def pool_inv_def)
  moreover have "(\<Union>a\<in>set as. arena_pages a) = {}" if "pp_active_arenas pool' = 0"
    using none [OF that] by (auto simp: arena_pages_def)
  ultimately show "pool_pages pool' = pool_pages pool" by (auto simp: pool_pages_def arr)
  have ap: "apart (as ! i) (as ! j)" if "i < length as" "j < length as" "i \<noteq> j" for i j
    using that inv em(1) by (auto simp: as_def pool_inv_def apart_def)
  have ok: "\<forall>a\<in>set as. arena_ok a" using inv em(2) by (auto simp: as_def pool_inv_def)
  show "pool_inv pool'" using ap ok act by (auto simp: pool_inv_def arr)
  show "\<And>x. x \<in> set (pp_arenas pool') \<Longrightarrow> pa_memory x = None \<or> pa_memory x \<in> pa_memory ` set (pp_arenas pool)"
    using em(1) by (auto simp: arr as_def split: if_splits)
qed

section \<open>The pool and the blocks its clients hold\<close>

text \<open>
  \<open>pc_blocks\<close> are the blocks handed out and not given back. The kernel gives \<open>aligned_alloc\<close> a block that
  overlaps no arena; a client gives back a block it holds, with the size it asked for.
\<close>

record page_clients =
  pc_pool :: horizon_page_pool
  pc_blocks :: "(ptr \<times> nat) list"

datatype page_op = Pages_alloc bool "ptr option" nat | Pages_free nat | Pages_trim

fun pages_step :: "page_clients \<Rightarrow> page_op \<Rightarrow> page_clients" where
  "pages_step s (Pages_alloc realloc_ok block sz) =
     (case horizon_pages_alloc realloc_ok block (pc_pool s) sz of
        (None, pool) \<Rightarrow> s\<lparr>pc_pool := pool\<rparr>
      | (Some p, pool) \<Rightarrow> \<lparr>pc_pool = pool, pc_blocks = (p, sz) # pc_blocks s\<rparr>)"
| "pages_step s (Pages_free i) =
     (case pc_blocks s ! i of
        (p, sz) \<Rightarrow> \<lparr>pc_pool = snd (horizon_pages_free (pc_pool s) p sz), pc_blocks = remove_at i (pc_blocks s)\<rparr>)"
| "pages_step s Pages_trim = s\<lparr>pc_pool := snd (horizon_pages_trim (pc_pool s))\<rparr>"

fun pages_ok :: "page_clients \<Rightarrow> page_op \<Rightarrow> bool" where
  "pages_ok s (Pages_alloc realloc_ok block sz) = fresh_block (pc_pool s) block"
| "pages_ok s (Pages_free i) = (i < length (pc_blocks s))"
| "pages_ok s Pages_trim = True"

definition disjoint_blocks :: "(ptr \<times> nat) list \<Rightarrow> bool" where
  "disjoint_blocks bs \<longleftrightarrow> (\<forall>i j. i < j \<and> j < length bs \<longrightarrow>
     block_pages (fst (bs ! i)) (snd (bs ! i)) \<inter> block_pages (fst (bs ! j)) (snd (bs ! j)) = {})"

definition held_pages :: "(ptr \<times> nat) list \<Rightarrow> nat set" where
  "held_pages bs = (\<Union>(p, sz)\<in>set bs. block_pages p sz)"

definition block_ok :: "horizon_page_pool \<Rightarrow> ptr \<times> nat \<Rightarrow> bool" where
  "block_ok pool b \<longleftrightarrow> 0 < fst b \<and> 0 < snd b \<and> snd b mod 4096 = 0 \<and>
     (\<exists>a\<in>set (pp_arenas pool). in_arena (fst b) (snd b) a)"

definition clients_inv :: "page_clients \<Rightarrow> bool" where
  "clients_inv s \<longleftrightarrow> pool_inv (pc_pool s) \<and> (\<forall>b\<in>set (pc_blocks s). block_ok (pc_pool s) b) \<and>
     disjoint_blocks (pc_blocks s) \<and> pool_pages (pc_pool s) = held_pages (pc_blocks s)"

definition no_pages :: page_clients where
  "no_pages = \<lparr>pc_pool = \<lparr>pp_arenas = [], pp_active_arenas = 0, pp_peak_arenas = 0, pp_hits = 0, pp_misses = 0,
     pp_reclaims = 0, pp_blocks = 0, pp_shared = 0\<rparr>, pc_blocks = []\<rparr>"

definition new_memory :: "horizon_page_pool \<Rightarrow> ptr option \<Rightarrow> horizon_page_pool \<Rightarrow> bool" where
  "new_memory pool block pool' \<longleftrightarrow>
     (\<forall>a\<in>set (pp_arenas pool'). pa_memory a = None \<or> pa_memory a = block \<or> pa_memory a \<in> pa_memory ` set (pp_arenas pool))"

lemma find_arena_at:
  "find_arena pages 0 as = Some (i, k) \<Longrightarrow> i < length as"
  using find_arena_Some [of pages 0 as i k] by simp

lemma new_memory_update:
  assumes "pp_arenas pool' = xs[i := a]" "set xs \<subseteq> set (pp_arenas pool) \<union> {empty_arena}"
    "pa_memory a = block \<or> pa_memory a \<in> pa_memory ` set (pp_arenas pool) \<or> pa_memory a = None"
  shows "new_memory pool block pool'"
proof -
  have "set (xs[i := a]) \<subseteq> insert a (set (pp_arenas pool) \<union> {empty_arena})"
    using set_update_subset_insert [of xs i a] assms(2) by blast
  then have sub: "set (pp_arenas pool') \<subseteq> insert a (set (pp_arenas pool) \<union> {empty_arena})" using assms(1) by simp
  show ?thesis unfolding new_memory_def
  proof
    fix x
    assume "x \<in> set (pp_arenas pool')"
    with sub consider "x = a" | "x \<in> set (pp_arenas pool)" | "x = empty_arena" by blast
    then show "pa_memory x = None \<or> pa_memory x = block \<or> pa_memory x \<in> pa_memory ` set (pp_arenas pool)"
      using assms(3) by cases (auto simp: empty_arena_def)
  qed
qed

lemma pages_alloc_memory:
  assumes "horizon_pages_alloc realloc_ok block pool sz = (r, pool')"
  shows "new_memory pool block pool'"
proof -
  have refl: "new_memory pool block pool" by (simp add: new_memory_def)
  have grown: "new_memory pool block (pool\<lparr>pp_arenas := pp_arenas pool @ replicate n empty_arena\<rparr>)" for n
    by (auto simp: new_memory_def empty_arena_def)
  show ?thesis
  proof (cases "sz = 0 \<or> sz mod 4096 \<noteq> 0 \<or> sz div 4096 > 512")
    case True
    with assms refl show ?thesis by (auto simp: horizon_pages_alloc_def)
  next
    case False
    show ?thesis
    proof (cases "find_arena (sz div 4096) 0 (pp_arenas pool)")
      case (Some ik)
      obtain i k where ik: "ik = (i, k)" by fastforce
      then have i: "i < length (pp_arenas pool)" using Some find_arena_at by blast
      have "pa_memory (pp_arenas pool ! i) \<in> pa_memory ` set (pp_arenas pool)" using i by simp
      then have new: "new_memory pool block q"
        if "pp_arenas q = (pp_arenas pool)[i := a]" "pa_memory a = pa_memory (pp_arenas pool ! i)" for q a
        using that by (intro new_memory_update [where xs = "pp_arenas pool"]) auto
      show ?thesis
        using assms False Some ik by (auto simp: horizon_pages_alloc_def Let_def intro!: new)
    next
      case None
      have upd: "new_memory pool (Some m) q" if "pp_arenas q = xs[i := \<lparr>pa_memory = Some m, pa_free_pages = f, pa_used = u\<rparr>]"
        "set xs \<subseteq> set (pp_arenas pool) \<union> {empty_arena}" for q xs i m f u
        by (rule new_memory_update [OF that]) simp
      have one: "pp_arenas pool = xs \<Longrightarrow> set xs \<subseteq> set (pp_arenas pool) \<union> {empty_arena}" for xs by auto
      show ?thesis
        using assms False None refl grown
        by (auto simp: horizon_pages_alloc_def Let_def split: option.splits if_splits intro!: upd)
    qed
  qed
qed

text \<open>A block of the pool stays in an arena as long as its first page is in use.\<close>

lemma block_ok_kept:
  assumes inv: "pool_inv pool" "pool_inv pool'" and mem: "new_memory pool block pool'" and fr: "fresh_block pool block"
    and b: "block_ok pool b" and sub: "block_pages (fst b) (snd b) \<subseteq> pool_pages pool'"
  shows "block_ok pool' b"
proof -
  obtain p sz where bb: "b = (p, sz)" by fastforce
  with b obtain a where a: "a \<in> set (pp_arenas pool)" "in_arena p sz a" and sz: "0 < p" "0 < sz" "sz mod 4096 = 0"
    by (auto simp: block_ok_def)
  from a obtain m where m: "pa_memory a = Some m" "m \<le> p" "p - m < HORIZON_POOL_ARENA"
    by (auto simp: in_arena_def split: option.splits)
  have "0 < sz div 4096" using sz by (auto simp: div_greater_zero_iff dest: dvd_imp_le)
  then have "p \<in> block_pages p sz" by (auto simp: block_pages_def intro: exI [of _ 0])
  then obtain a' where a': "a' \<in> set (pp_arenas pool')" "p \<in> arena_pages a'" using sub bb by (auto simp: pool_pages_def)
  have ok': "arena_ok a'" using inv(2) a'(1) by (simp add: pool_inv_def)
  from arena_pages_range [OF this a'(2)] obtain m' where m': "pa_memory a' = Some m'" "m' \<le> p" "p < m' + HORIZON_POOL_ARENA"
    by auto
  have "m' = m"
  proof (cases "block = Some m'")
    case True
    then show ?thesis using fr a(1) m m' by (auto simp: fresh_block_def apart_def)
  next
    case False
    then obtain a2 where a2: "a2 \<in> set (pp_arenas pool)" "pa_memory a2 = Some m'"
      using mem a'(1) m'(1) by (auto simp: new_memory_def image_iff)
    obtain i j where ij: "i < length (pp_arenas pool)" "j < length (pp_arenas pool)" "pp_arenas pool ! i = a" "pp_arenas pool ! j = a2"
      using a(1) a2(1) by (auto simp: in_set_conv_nth)
    have "i = j"
    proof (rule ccontr)
      assume "i \<noteq> j"
      then have "apart a a2" using inv(1) ij by (auto simp: pool_inv_def)
      then show False using m m' a2(2) by (auto simp: apart_def)
    qed
    then show ?thesis using ij m(1) a2(2) by simp
  qed
  with m(1) m'(1) have "pa_memory a' = pa_memory a" by simp
  with a(2) have "in_arena p sz a'" unfolding in_arena_def by (simp only:)
  then show ?thesis using a'(1) sz bb by (auto simp: block_ok_def)
qed

lemma held_pages_Cons [simp]: "held_pages ((p, sz) # bs) = block_pages p sz \<union> held_pages bs"
  by (simp add: held_pages_def)

lemma held_block: "b \<in> set bs \<Longrightarrow> block_pages (fst b) (snd b) \<subseteq> held_pages bs"
  by (auto simp: held_pages_def case_prod_beta)

lemma held_pages_remove:
  assumes "i < length bs" "disjoint_blocks bs"
  shows "held_pages (remove_at i bs) = held_pages bs - block_pages (fst (bs ! i)) (snd (bs ! i))"
proof -
  have dj: "block_pages (fst (bs ! j)) (snd (bs ! j)) \<inter> block_pages (fst (bs ! i)) (snd (bs ! i)) = {}"
    if "j < length bs" "j \<noteq> i" for j
    using assms that unfolding disjoint_blocks_def by (cases "i < j") (auto dest: linorder_neqE_nat)
  have "bs = take i bs @ bs ! i # drop (Suc i) bs" using assms(1) by (rule id_take_nth_drop)
  then have "set bs = set (remove_at i bs) \<union> {bs ! i}" unfolding remove_at_def by (metis Un_insert_right list.simps(15) set_append sup_bot_right)
  then have all: "held_pages bs = held_pages (remove_at i bs) \<union> block_pages (fst (bs ! i)) (snd (bs ! i))"
    by (auto simp: held_pages_def case_prod_beta)
  have "block_pages (fst b) (snd b) \<inter> block_pages (fst (bs ! i)) (snd (bs ! i)) = {}" if "b \<in> set (remove_at i bs)" for b
  proof -
    from that obtain j where "j < length bs" "j \<noteq> i" "b = bs ! j"
      using assms(1) by (rule in_remove_at_nth)
    then show ?thesis using dj by simp
  qed
  then have "held_pages (remove_at i bs) \<inter> block_pages (fst (bs ! i)) (snd (bs ! i)) = {}"
    by (fastforce simp: held_pages_def case_prod_beta)
  with all show ?thesis by blast
qed

lemma disjoint_blocks_remove:
  assumes "disjoint_blocks bs" "i < length bs"
  shows "disjoint_blocks (remove_at i bs)"
  unfolding disjoint_blocks_def
proof (intro allI impI)
  fix j k
  assume jk: "j < k \<and> k < length (remove_at i bs)"
  define j' k' where "j' = (if j < i then j else Suc j)" and "k' = (if k < i then k else Suc k)"
  have "j' < k'" "k' < length bs" using jk assms(2) by (auto simp: j'_def k'_def length_remove_at)
  moreover have "remove_at i bs ! j = bs ! j'" "remove_at i bs ! k = bs ! k'"
    using jk assms(2) by (simp_all add: nth_remove_at length_remove_at j'_def k'_def)
  ultimately show "block_pages (fst (remove_at i bs ! j)) (snd (remove_at i bs ! j)) \<inter>
      block_pages (fst (remove_at i bs ! k)) (snd (remove_at i bs ! k)) = {}"
    using assms(1) by (simp add: disjoint_blocks_def)
qed

lemma disjoint_blocks_Cons:
  assumes "disjoint_blocks bs" "block_pages p sz \<inter> held_pages bs = {}"
  shows "disjoint_blocks ((p, sz) # bs)"
  unfolding disjoint_blocks_def
proof (intro allI impI)
  fix i j
  assume ij: "i < j \<and> j < length ((p, sz) # bs)"
  then obtain k where k: "j = Suc k" "k < length bs" by (cases j) auto
  have "block_pages (fst (bs ! k)) (snd (bs ! k)) \<subseteq> held_pages bs" using k(2) by (intro held_block) simp
  then show "block_pages (fst (((p, sz) # bs) ! i)) (snd (((p, sz) # bs) ! i)) \<inter>
      block_pages (fst (((p, sz) # bs) ! j)) (snd (((p, sz) # bs) ! j)) = {}"
    using assms ij k by (cases i) (auto simp: disjoint_blocks_def)
qed

lemma blocks_kept:
  assumes "pool_inv pool" "pool_inv pool'" "new_memory pool block pool'" "fresh_block pool block"
    "\<forall>b\<in>set bs. block_ok pool b" "held_pages bs \<subseteq> pool_pages pool'"
  shows "\<forall>b\<in>set bs. block_ok pool' b"
  using block_ok_kept [OF assms(1-4)] assms(5,6) held_block by (meson subset_trans)

lemma pages_step_inv:
  assumes inv: "clients_inv s" and ok: "pages_ok s op"
  shows "clients_inv (pages_step s op)"
proof (cases op)
  case (Pages_alloc realloc_ok block sz)
  obtain r pool where a: "horizon_pages_alloc realloc_ok block (pc_pool s) sz = (r, pool)" by fastforce
  have i: "pool_inv (pc_pool s)" and fr: "fresh_block (pc_pool s) block" and h: "pool_pages (pc_pool s) = held_pages (pc_blocks s)"
    using inv ok Pages_alloc by (simp_all add: clients_inv_def)
  have res: "alloc_result (pc_pool s) sz r pool" by (rule pages_alloc_spec [OF i fr a])
  then have i': "pool_inv pool" by (simp add: alloc_result_def)
  have "held_pages (pc_blocks s) \<subseteq> pool_pages pool" using res h by (auto simp: alloc_result_def split: option.splits)
  then have kept: "\<forall>b\<in>set (pc_blocks s). block_ok pool b"
    by (intro blocks_kept [OF i i' pages_alloc_memory [OF a] fr]) (use inv in \<open>simp_all add: clients_inv_def\<close>)
  show ?thesis
  proof (cases r)
    case None
    with res a Pages_alloc inv kept h i' show ?thesis by (simp add: clients_inv_def alloc_result_def)
  next
    case (Some p)
    then have p: "0 < p" "0 < sz" "sz mod 4096 = 0" "block_pages p sz \<inter> held_pages (pc_blocks s) = {}"
      "pool_pages pool = held_pages (pc_blocks s) \<union> block_pages p sz" "\<exists>a\<in>set (pp_arenas pool). in_arena p sz a"
      using res h by (simp_all add: alloc_result_def)
    have "block_ok pool (p, sz)" using p by (simp add: block_ok_def)
    moreover have "disjoint_blocks ((p, sz) # pc_blocks s)"
      using inv p(4) by (intro disjoint_blocks_Cons) (simp_all add: clients_inv_def)
    ultimately show ?thesis using a Pages_alloc Some i' kept p(5) by (simp add: clients_inv_def Un_commute)
  qed
next
  case (Pages_free i)
  obtain p sz where b: "pc_blocks s ! i = (p, sz)" by fastforce
  obtain r pool where f: "horizon_pages_free (pc_pool s) p sz = (r, pool)" by fastforce
  have i: "i < length (pc_blocks s)" using ok Pages_free by simp
  then have "(p, sz) \<in> set (pc_blocks s)" using b nth_mem by fastforce
  then have bok: "block_ok (pc_pool s) (p, sz)" and sub: "block_pages p sz \<subseteq> pool_pages (pc_pool s)"
    using inv held_block [of "(p, sz)"] by (auto simp: clients_inv_def)
  have pi: "pool_inv (pc_pool s)" and h: "pool_pages (pc_pool s) = held_pages (pc_blocks s)" using inv by (simp_all add: clients_inv_def)
  note spec = pages_free_spec [OF pi _ _ _ _ sub f]
  have sp: "pool_inv pool" "pool_pages pool = pool_pages (pc_pool s) - block_pages p sz" "new_memory (pc_pool s) None pool"
    using spec bok by (auto simp: block_ok_def new_memory_def)
  have held: "pool_pages pool = held_pages (remove_at i (pc_blocks s))"
    using held_pages_remove [OF i] inv sp(2) b h by (simp add: clients_inv_def)
  have "\<forall>b\<in>set (remove_at i (pc_blocks s)). block_ok (pc_pool s) b" using inv in_remove_at by (fastforce simp: clients_inv_def)
  then have "\<forall>b\<in>set (remove_at i (pc_blocks s)). block_ok pool b"
    using blocks_kept [OF pi sp(1,3)] held by (simp add: fresh_block_def)
  then show ?thesis
    using Pages_free b f sp(1) held disjoint_blocks_remove [OF _ i] inv by (simp add: clients_inv_def)
next
  case Pages_trim
  obtain r pool where t: "horizon_pages_trim (pc_pool s) = (r, pool)" by fastforce
  have pi: "pool_inv (pc_pool s)" and h: "pool_pages (pc_pool s) = held_pages (pc_blocks s)" using inv by (simp_all add: clients_inv_def)
  have sp: "pool_inv pool" "pool_pages pool = pool_pages (pc_pool s)" "new_memory (pc_pool s) None pool"
    using pages_trim_spec [OF pi t] by (auto simp: new_memory_def)
  have "\<forall>b\<in>set (pc_blocks s). block_ok pool b"
    by (intro blocks_kept [OF pi sp(1,3)]) (use inv h sp(2) in \<open>simp_all add: fresh_block_def clients_inv_def\<close>)
  then show ?thesis using Pages_trim t sp h inv by (simp add: clients_inv_def)
qed

interpretation pages: invariant_machine pages_step pages_ok clients_inv
  by unfold_locales (rule pages_step_inv)

lemma no_pages_inv: "clients_inv no_pages"
  by (simp add: clients_inv_def no_pages_def pool_inv_def disjoint_blocks_def pool_pages_def held_pages_def)

text \<open>
  C16. Whatever sequence of allocations, frees and trims the page pool serves, the blocks its clients
  hold never share a page, the pages it has marked as used are exactly theirs (so nothing leaks), the free
  count of every arena is the number of its unmarked pages, and every block can be given back: the pool
  recognises it as its own.
\<close>

theorem pages_exact:
  assumes "admissible pages_step pages_ok no_pages ops"
  defines "s \<equiv> foldl pages_step no_pages ops"
  shows "disjoint_blocks (pc_blocks s) \<and> pool_pages (pc_pool s) = held_pages (pc_blocks s) \<and>
    (\<forall>a\<in>set (pp_arenas (pc_pool s)). pa_memory a \<noteq> None \<longrightarrow> pa_free_pages a = length (filter Not (pa_used a))) \<and>
    (\<forall>(p, sz)\<in>set (pc_blocks s). fst (horizon_pages_free (pc_pool s) p sz))"
proof -
  have inv: "clients_inv s" unfolding s_def by (rule pages.run_inv [OF no_pages_inv assms(1)])
  have fr: "fst (horizon_pages_free (pc_pool s) p sz)" if "(p, sz) \<in> set (pc_blocks s)" for p sz
  proof -
    obtain r pool where f: "horizon_pages_free (pc_pool s) p sz = (r, pool)" by fastforce
    have "block_ok (pc_pool s) (p, sz)" "block_pages p sz \<subseteq> pool_pages (pc_pool s)"
      using inv that held_block [of "(p, sz)"] by (auto simp: clients_inv_def)
    then have r using inv by (intro pages_free_spec(1) [OF _ _ _ _ _ _ f]) (auto simp: clients_inv_def block_ok_def)
    then show ?thesis using f by simp
  qed
  have "\<forall>a\<in>set (pp_arenas (pc_pool s)). pa_memory a \<noteq> None \<longrightarrow> pa_free_pages a = length (filter Not (pa_used a))"
    using inv by (auto simp: clients_inv_def pool_inv_def arena_ok_def)
  then show ?thesis using inv fr by (auto simp: clients_inv_def)
qed

theorem pages_exact_witness:
  "disjoint_blocks (pc_blocks (foldl pages_step no_pages [Pages_alloc True (Some 0x200000) 8192, Pages_free 0, Pages_alloc True None 4096]))"
proof -
  have "admissible pages_step pages_ok no_pages [Pages_alloc True (Some 0x200000) 8192, Pages_free 0, Pages_alloc True None 4096]"
    by (simp add: no_pages_def fresh_block_def horizon_pages_alloc_def)
  from pages_exact [OF this] show ?thesis by blast
qed

section \<open>The pool of mapping objects\<close>

text \<open>
  Objects of one size, cut from one block. A freed object is chained to the others through its own first
  word, so the free list lives in memory that its clients wrote and will write again. \<open>om_mem\<close> is the first
  word of each object. \<open>calloc_result\<close> is what \<open>calloc\<close> answers when the block is used up.
\<close>

record horizon_object_pool =
  op_storage :: ptr
  op_free :: ptr
  op_size :: nat
  op_count :: nat
  op_used :: nat

record object_memory =
  om_pool :: horizon_object_pool
  om_mem :: "ptr \<Rightarrow> ptr"

definition horizon_object_alloc :: "ptr option \<Rightarrow> object_memory \<Rightarrow> ptr option \<times> object_memory" where
  "horizon_object_alloc calloc_result s =
     (let pool = om_pool s; mem = om_mem s
      in if op_free pool \<noteq> 0
         then (Some (op_free pool), \<lparr>om_pool = pool\<lparr>op_free := mem (op_free pool)\<rparr>, om_mem = mem(op_free pool := 0)\<rparr>)
         else if op_used pool < op_count pool
         then (let p = op_storage pool + op_size pool * op_used pool
               in (Some p, \<lparr>om_pool = pool\<lparr>op_used := op_used pool + 1\<rparr>, om_mem = mem(p := 0)\<rparr>))
         else (calloc_result, s\<lparr>om_mem := (case calloc_result of None \<Rightarrow> mem | Some p \<Rightarrow> mem(p := 0))\<rparr>))"

definition in_storage :: "horizon_object_pool \<Rightarrow> ptr \<Rightarrow> bool" where
  "in_storage pool p \<longleftrightarrow> op_storage pool \<le> p \<and> p - op_storage pool < op_size pool * op_count pool \<and>
     (p - op_storage pool) mod op_size pool = 0"

definition horizon_object_free :: "object_memory \<Rightarrow> ptr \<Rightarrow> object_memory" where
  "horizon_object_free s p =
     (if p = 0 then s
      else if in_storage (om_pool s) p
      then \<lparr>om_pool = (om_pool s)\<lparr>op_free := p\<rparr>, om_mem = (om_mem s)(p := op_free (om_pool s))\<rparr>
      else s)"

text \<open>The clients: they hold objects, write to them and give them back.\<close>

record object_clients =
  oc_memory :: object_memory
  oc_held :: "ptr list"

datatype object_op = Object_alloc "ptr option" | Object_write nat ptr | Object_free nat

fun object_step :: "object_clients \<Rightarrow> object_op \<Rightarrow> object_clients" where
  "object_step s (Object_alloc calloc_result) =
     (case horizon_object_alloc calloc_result (oc_memory s) of
        (None, m) \<Rightarrow> s\<lparr>oc_memory := m\<rparr>
      | (Some p, m) \<Rightarrow> \<lparr>oc_memory = m, oc_held = p # oc_held s\<rparr>)"
| "object_step s (Object_write i v) =
     s\<lparr>oc_memory := (oc_memory s)\<lparr>om_mem := (om_mem (oc_memory s))(oc_held s ! i := v)\<rparr>\<rparr>"
| "object_step s (Object_free i) =
     \<lparr>oc_memory = horizon_object_free (oc_memory s) (oc_held s ! i), oc_held = remove_at i (oc_held s)\<rparr>"

fun object_ok :: "object_clients \<Rightarrow> object_op \<Rightarrow> bool" where
  "object_ok s (Object_alloc calloc_result) =
     (case calloc_result of None \<Rightarrow> True
      | Some p \<Rightarrow> p \<noteq> 0 \<and> p \<notin> set (oc_held s) \<and> \<not> in_storage (om_pool (oc_memory s)) p)"
| "object_ok s (Object_write i v) = (i < length (oc_held s))"
| "object_ok s (Object_free i) = (i < length (oc_held s))"

fun linked :: "(ptr \<Rightarrow> ptr) \<Rightarrow> ptr \<Rightarrow> ptr list \<Rightarrow> bool" where
  "linked mem p [] \<longleftrightarrow> p = 0"
| "linked mem p (x # xs) \<longleftrightarrow> p = x \<and> x \<noteq> 0 \<and> linked mem (mem x) xs"

definition slots :: "horizon_object_pool \<Rightarrow> ptr set" where
  "slots pool = {op_storage pool + op_size pool * k | k. k < op_used pool}"

definition free_chain :: "object_clients \<Rightarrow> ptr list \<Rightarrow> bool" where
  "free_chain s chain \<longleftrightarrow>
     linked (om_mem (oc_memory s)) (op_free (om_pool (oc_memory s))) chain \<and>
     distinct (chain @ oc_held s) \<and>
     set chain \<union> {p \<in> set (oc_held s). in_storage (om_pool (oc_memory s)) p} = slots (om_pool (oc_memory s))"

definition objects_inv :: "object_clients \<Rightarrow> bool" where
  "objects_inv s \<longleftrightarrow>
     0 < op_storage (om_pool (oc_memory s)) \<and> 0 < op_size (om_pool (oc_memory s)) \<and>
     op_used (om_pool (oc_memory s)) \<le> op_count (om_pool (oc_memory s)) \<and> (\<exists>chain. free_chain s chain)"

lemma linked_update: "p \<notin> set chain \<Longrightarrow> linked (mem(p := v)) q chain = linked mem q chain"
  by (induction chain arbitrary: q) auto

lemma slots_storage:
  assumes "p \<in> slots pool" "0 < op_size pool" "op_used pool \<le> op_count pool"
  shows "in_storage pool p"
  using assms by (auto simp: slots_def in_storage_def)

lemma slots_Suc: "slots (pool\<lparr>op_used := op_used pool + 1\<rparr>) = insert (op_storage pool + op_size pool * op_used pool) (slots pool)"
  by (auto simp: slots_def less_Suc_eq)

lemma slot_fresh: "0 < op_size pool \<Longrightarrow> op_storage pool + op_size pool * op_used pool \<notin> slots pool"
  by (auto simp: slots_def)

lemma object_alloc_inv:
  assumes inv: "objects_inv s" and ok: "object_ok s (Object_alloc c)"
  shows "objects_inv (object_step s (Object_alloc c))"
proof -
  define pool mem where "pool = om_pool (oc_memory s)" and "mem = om_mem (oc_memory s)"
  from inv obtain chain where c: "free_chain s chain" by (auto simp: objects_inv_def)
  have pos: "0 < op_storage pool" "0 < op_size pool" "op_used pool \<le> op_count pool" using inv by (simp_all add: objects_inv_def pool_def)
  have ch: "linked mem (op_free pool) chain" "distinct (chain @ oc_held s)" "set chain \<union> {p \<in> set (oc_held s). in_storage pool p} = slots pool"
    using c by (simp_all add: free_chain_def pool_def mem_def)
  have stored: "\<And>x. x \<in> slots pool \<Longrightarrow> in_storage pool x" using slots_storage pos by blast
  show ?thesis
  proof (cases "op_free pool = 0")
    case False
    then obtain rest where r: "chain = op_free pool # rest" using ch(1) by (cases chain) auto
    have st: "object_step s (Object_alloc c) =
        \<lparr>oc_memory = \<lparr>om_pool = pool\<lparr>op_free := mem (op_free pool)\<rparr>, om_mem = mem(op_free pool := 0)\<rparr>, oc_held = op_free pool # oc_held s\<rparr>"
      using False by (simp add: horizon_object_alloc_def pool_def mem_def Let_def)
    have "in_storage pool (op_free pool)" using ch(3) r pos by (intro slots_storage) auto
    moreover have same: "in_storage (pool\<lparr>op_free := q\<rparr>) = in_storage pool" "slots (pool\<lparr>op_free := q\<rparr>) = slots pool" for q
      by (auto simp: in_storage_def slots_def fun_eq_iff)
    ultimately have "free_chain (object_step s (Object_alloc c)) rest"
      using ch r stored unfolding st by (auto simp: free_chain_def linked_update same dest: equalityD2 [THEN subsetD])
    then show ?thesis using pos unfolding st by (auto simp: objects_inv_def)
  next
    case free: True
    then have nil: "chain = []" using ch(1) by (cases chain) auto
    show ?thesis
    proof (cases "op_used pool < op_count pool")
      case True
      define p where "p = op_storage pool + op_size pool * op_used pool"
      have st: "object_step s (Object_alloc c) =
          \<lparr>oc_memory = \<lparr>om_pool = pool\<lparr>op_used := op_used pool + 1\<rparr>, om_mem = mem(p := 0)\<rparr>, oc_held = p # oc_held s\<rparr>"
        using free True by (simp add: horizon_object_alloc_def pool_def mem_def p_def Let_def)
      have ip: "in_storage pool p" using True pos by (simp add: p_def in_storage_def)
      have "p \<notin> slots pool" using slot_fresh pos by (simp add: p_def)
      then have np: "p \<notin> set (oc_held s)" using ch(3) ip by auto
      have same: "in_storage (pool\<lparr>op_used := Suc (op_used pool)\<rparr>) = in_storage pool" by (auto simp: in_storage_def fun_eq_iff)
      have "free_chain (object_step s (Object_alloc c)) []"
        using ch nil np ip stored slots_Suc [of pool] unfolding st by (auto simp: free_chain_def same p_def [symmetric] free)
      then show ?thesis using pos True unfolding st by (auto simp: objects_inv_def)
    next
      case False
      have "free_chain (object_step s (Object_alloc c)) []"
        using ch nil free False ok
        by (auto simp: horizon_object_alloc_def pool_def [symmetric] mem_def [symmetric] Let_def free_chain_def split: option.splits)
      moreover have "om_pool (oc_memory (object_step s (Object_alloc c))) = pool"
        using free False by (simp add: horizon_object_alloc_def pool_def [symmetric] Let_def split: option.splits)
      ultimately show ?thesis using pos by (auto simp: objects_inv_def)
    qed
  qed
qed

lemma object_write_inv:
  assumes inv: "objects_inv s" and ok: "object_ok s (Object_write i v)"
  shows "objects_inv (object_step s (Object_write i v))"
proof -
  from inv obtain chain where c: "free_chain s chain" by (auto simp: objects_inv_def)
  have "oc_held s ! i \<notin> set chain" using c ok by (auto simp: free_chain_def)
  then have "free_chain (object_step s (Object_write i v)) chain" using c by (simp add: free_chain_def linked_update)
  with inv show ?thesis by (auto simp: objects_inv_def)
qed

lemma object_free_inv:
  assumes inv: "objects_inv s" and ok: "object_ok s (Object_free i)"
  shows "objects_inv (object_step s (Object_free i))"
proof -
  define pool mem p where "pool = om_pool (oc_memory s)" and "mem = om_mem (oc_memory s)" and "p = oc_held s ! i"
  from inv obtain chain where c: "free_chain s chain" by (auto simp: objects_inv_def)
  have pos: "0 < op_storage pool" "0 < op_size pool" "op_used pool \<le> op_count pool" using inv by (simp_all add: objects_inv_def pool_def)
  have ch: "linked mem (op_free pool) chain" "distinct (chain @ oc_held s)" "set chain \<union> {p \<in> set (oc_held s). in_storage pool p} = slots pool"
    using c by (simp_all add: free_chain_def pool_def mem_def)
  have i: "i < length (oc_held s)" using ok by simp
  have held: "set (remove_at i (oc_held s)) = set (oc_held s) - {p}" "distinct (remove_at i (oc_held s))"
    using ch(2) i set_remove_at_distinct [of "oc_held s" i] distinct_remove_at [of "oc_held s" i] by (simp_all add: p_def)
  have p: "p \<in> set (oc_held s)" "p \<notin> set chain" using ch(2) i by (auto simp: p_def)
  show ?thesis
  proof (cases "p \<noteq> 0 \<and> in_storage pool p")
    case True
    have st: "object_step s (Object_free i) =
        \<lparr>oc_memory = \<lparr>om_pool = pool\<lparr>op_free := p\<rparr>, om_mem = mem(p := op_free pool)\<rparr>, oc_held = remove_at i (oc_held s)\<rparr>"
      using True by (simp add: horizon_object_free_def pool_def mem_def p_def)
    have same: "in_storage (pool\<lparr>op_free := p\<rparr>) = in_storage pool" "slots (pool\<lparr>op_free := p\<rparr>) = slots pool"
      by (auto simp: in_storage_def slots_def fun_eq_iff)
    have "free_chain (object_step s (Object_free i)) (p # chain)"
      using ch p held True unfolding st by (auto simp: free_chain_def linked_update same)
    then show ?thesis using pos unfolding st by (auto simp: objects_inv_def)
  next
    case False
    then have ns: "\<not> in_storage pool p" using pos(1) by (auto simp: in_storage_def)
    have st: "object_step s (Object_free i) = \<lparr>oc_memory = oc_memory s, oc_held = remove_at i (oc_held s)\<rparr>"
      using ns by (simp add: horizon_object_free_def pool_def p_def)
    have "free_chain (object_step s (Object_free i)) chain"
      using ch p held ns unfolding st by (auto simp: free_chain_def pool_def [symmetric] mem_def [symmetric])
    then show ?thesis using inv unfolding st by (auto simp: objects_inv_def)
  qed
qed

lemma object_step_inv: "objects_inv s \<Longrightarrow> object_ok s op \<Longrightarrow> objects_inv (object_step s op)"
  using object_alloc_inv object_write_inv object_free_inv by (cases op) blast+

interpretation objects: invariant_machine object_step object_ok objects_inv
  by unfold_locales (rule object_step_inv)

definition no_objects :: "ptr \<Rightarrow> nat \<Rightarrow> nat \<Rightarrow> object_clients" where
  "no_objects storage sz n = \<lparr>oc_memory = \<lparr>om_pool = \<lparr>op_storage = storage, op_free = 0, op_size = sz, op_count = n, op_used = 0\<rparr>,
     om_mem = (\<lambda>_. 0)\<rparr>, oc_held = []\<rparr>"

lemma no_objects_inv: "0 < storage \<Longrightarrow> 0 < sz \<Longrightarrow> objects_inv (no_objects storage sz n)"
  by (auto simp: objects_inv_def no_objects_def free_chain_def slots_def intro!: exI [of _ "[]"])

text \<open>
  C33. Whatever its clients write into the objects they hold, the free list of the object pool, which is
  threaded through the objects themselves, stays a chain of objects nobody holds: the next allocation
  never returns an object that is in use, and each object of the pool is either held or on the free list.
\<close>

theorem object_pool_exact:
  assumes "0 < storage" "0 < sz" "admissible object_step object_ok (no_objects storage sz n) (ops @ [Object_alloc c])"
  defines "s \<equiv> foldl object_step (no_objects storage sz n) ops"
  shows "(\<exists>chain. free_chain s chain) \<and>
    (\<forall>p. fst (horizon_object_alloc c (oc_memory s)) = Some p \<longrightarrow> p \<notin> set (oc_held s))"
proof -
  have inv: "objects_inv s" unfolding s_def
    by (rule objects.run_inv_append [OF no_objects_inv [OF assms(1,2)] assms(3)])
  have "objects_inv (foldl object_step (no_objects storage sz n) (ops @ [Object_alloc c]))"
    by (rule objects.run_inv [OF no_objects_inv [OF assms(1,2)] assms(3)])
  then obtain chain where "free_chain (object_step s (Object_alloc c)) chain" by (auto simp: objects_inv_def s_def)
  then have "distinct (oc_held (object_step s (Object_alloc c)))" by (simp add: free_chain_def)
  then show ?thesis using inv by (auto simp: objects_inv_def split: prod.splits)
qed

theorem object_pool_exact_witness:
  "let s = foldl object_step (no_objects 4096 16 2) [Object_alloc None, Object_alloc None, Object_write 0 77, Object_free 0, Object_write 0 5]
   in fst (horizon_object_alloc None (oc_memory s)) = Some 4112 \<and> 4112 \<notin> set (oc_held s)"
proof -
  have a: "admissible object_step object_ok (no_objects 4096 16 2)
      ([Object_alloc None, Object_alloc None, Object_write 0 77, Object_free 0, Object_write 0 5] @ [Object_alloc None])"
    by (simp add: no_objects_def horizon_object_alloc_def horizon_object_free_def in_storage_def remove_at_def)
  have "fst (horizon_object_alloc None (oc_memory (foldl object_step (no_objects 4096 16 2)
      [Object_alloc None, Object_alloc None, Object_write 0 77, Object_free 0, Object_write 0 5]))) = Some 4112"
    by (simp add: no_objects_def horizon_object_alloc_def horizon_object_free_def in_storage_def remove_at_def)
  with object_pool_exact [OF _ _ a] show ?thesis unfolding Let_def by simp
qed

end
