(* ===== verification/HzFiles.thy ===== *)
theory HzFiles
  imports HzPrelude
begin

text \<open>
  Files: the rules of \<open>dlls/ntdll/unix/horizon_file_access.h\<close> (access masks, sharing, renaming, directory
  entries, equality of names) and the handlers of \<open>horizon.c\<close> that open, rename, delete and close files with
  them. The file system itself is outside: what \<open>open\<close>, \<open>mkdir\<close>, \<open>stat\<close> and the like answer comes with each
  request, in a record of answers.

  A C string is a \<open>string\<close> without the terminating zero; what the code reads at the end of a string (\<open>!a[1]\<close>)
  is the end of the list. The flags of \<open>open\<close> are a record of the choices they encode.
\<close>

section \<open>Access masks and sharing\<close>

definition horizon_file_map_access :: "u32 \<Rightarrow> u32" where
  "horizon_file_map_access access =
     (let mapped = access AND NOT 0xf0000000;
          mapped = (if access AND 0x80000000 \<noteq> 0 then mapped OR 0x00120089 else mapped);
          mapped = (if access AND 0x40000000 \<noteq> 0 then mapped OR 0x00120116 else mapped);
          mapped = (if access AND 0x20000000 \<noteq> 0 then mapped OR 0x001200a0 else mapped)
      in if access AND 0x10000000 \<noteq> 0 then mapped OR 0x001f01ff else mapped)"

definition horizon_file_sharing_violation :: "u32 \<Rightarrow> u32 \<Rightarrow> u32 \<Rightarrow> u32 \<Rightarrow> bool" where
  "horizon_file_sharing_violation existing_access existing_sharing access sharing =
     (let rd = 0x0021; wr = 0x0006; del = 0x00010000
      in if access AND rd \<noteq> 0 \<and> existing_sharing AND 1 = 0 \<or>
            access AND wr \<noteq> 0 \<and> existing_sharing AND 2 = 0 \<or>
            access AND del \<noteq> 0 \<and> existing_sharing AND 4 = 0 then True
         else if access AND (rd OR wr OR del) = 0 then False
         else existing_access AND rd \<noteq> 0 \<and> sharing AND 1 = 0 \<or>
              existing_access AND wr \<noteq> 0 \<and> sharing AND 2 = 0 \<or>
              existing_access AND del \<noteq> 0 \<and> sharing AND 4 = 0)"

datatype open_mode = O_RDONLY | O_WRONLY | O_RDWR

record open_flags =
  of_mode :: open_mode
  of_append :: bool
  of_creat :: bool
  of_excl :: bool
  of_trunc :: bool

definition horizon_file_access_mode :: "u32 \<Rightarrow> open_flags" where
  "horizon_file_access_mode access =
     (let mapped = horizon_file_map_access access;
          rd = mapped AND 1 \<noteq> 0;
          wr = mapped AND 6 \<noteq> 0
      in \<lparr>of_mode = (if rd \<and> wr then O_RDWR else if wr then O_WRONLY else O_RDONLY),
          of_append = (mapped AND 4 \<noteq> 0 \<and> mapped AND 2 = 0),
          of_creat = False, of_excl = False, of_trunc = False\<rparr>)"

definition horizon_directory_open_status :: "u32 \<Rightarrow> open_flags \<Rightarrow> u32" where
  "horizon_directory_open_status options flags =
     (if options AND 0x40 \<noteq> 0 then 0xc00000ba
      else if of_excl flags \<or> of_trunc flags then 0xc0000035
      else 0)"

text \<open>The new options, and whether the file goes at its last close.\<close>

definition horizon_disposition_update :: "u32 \<Rightarrow> u32 \<Rightarrow> bool \<times> u32" where
  "horizon_disposition_update options flags =
     (let options = (if flags AND 8 \<noteq> 0 then options AND NOT 0x1000 else options)
      in (flags AND 1 \<noteq> 0 \<or> options AND 0x1000 \<noteq> 0, options))"

datatype horizon_rename_action = HORIZON_RENAME_MOVE | HORIZON_RENAME_REPLACE | HORIZON_RENAME_NOTHING

definition horizon_rename_check ::
    "bool \<Rightarrow> bool \<Rightarrow> bool \<Rightarrow> bool \<Rightarrow> u32 \<Rightarrow> u32 \<times> horizon_rename_action" where
  "horizon_rename_check target_exists same_file target_is_dir target_open flags =
     (if \<not> target_exists then (0, HORIZON_RENAME_MOVE)
      else if same_file then (0, HORIZON_RENAME_NOTHING)
      else if flags AND 1 = 0 then (0xc0000035, HORIZON_RENAME_MOVE)
      else if target_is_dir \<or> target_open then (0xc0000022, HORIZON_RENAME_MOVE)
      else (0, HORIZON_RENAME_REPLACE))"

definition horizon_dir_scan_end_status :: "bool \<Rightarrow> u32" where
  "horizon_dir_scan_end_status first_query = (if first_query then 0xc000000f else 0x80000006)"

section \<open>Names\<close>

text \<open>\<open>while (len > 1 && dir[len - 1] == '/' && dir[len - 2] != ':') len--;\<close> the length that is left.\<close>

fun strip_slashes :: "string \<Rightarrow> nat \<Rightarrow> nat" where
  "strip_slashes dir (Suc (Suc n)) =
     (if dir ! Suc n = CHR ''/'' \<and> dir ! n \<noteq> CHR '':'' then strip_slashes dir (Suc n) else Suc (Suc n))"
| "strip_slashes dir n = n"

text \<open>\<open>while (parent && dir[parent - 1] != '/') parent--;\<close>\<close>

fun strip_name :: "string \<Rightarrow> nat \<Rightarrow> nat" where
  "strip_name dir (Suc n) = (if dir ! n \<noteq> CHR ''/'' then strip_name dir n else Suc n)"
| "strip_name dir 0 = 0"

definition horizon_dir_entry_path :: "string \<Rightarrow> string \<Rightarrow> string" where
  "horizon_dir_entry_path dir name =
     (let dir_len = strip_slashes dir (length dir);
          (dir_len, name_len) =
            (if name = ''..''
             then (let parent = strip_slashes dir (strip_name dir dir_len)
                   in (if parent \<noteq> 0 then parent else dir_len, 0))
             else if name = ''.'' then (dir_len, 0)
             else (dir_len, length name));
          path = take dir_len dir;
          path = (if name_len \<noteq> 0 \<and> dir_len \<noteq> 0 \<and> dir ! (dir_len - 1) \<noteq> CHR ''/'' then path @ ''/'' else path)
      in path @ take name_len name)"

definition ascii_lower :: "char \<Rightarrow> char" where
  "ascii_lower c = (if (65 :: nat) \<le> of_char c \<and> of_char c \<le> (90 :: nat) then char_of (of_char c + 32 :: nat) else c)"

text \<open>\<open>while (a[0] == '/' && (a[1] == '/' || !a[1])) a++;\<close>\<close>

fun skip_slashes :: "string \<Rightarrow> string" where
  "skip_slashes [] = []"
| "skip_slashes (c # cs) = (if c = CHR ''/'' \<and> (cs = [] \<or> hd cs = CHR ''/'') then skip_slashes cs else c # cs)"

lemma length_skip_slashes: "length (skip_slashes cs) \<le> length cs"
  by (induction cs) auto

function horizon_unix_path_equal :: "string \<Rightarrow> string \<Rightarrow> bool" where
  "horizon_unix_path_equal a b =
     (case (skip_slashes a, skip_slashes b) of
        ([], []) \<Rightarrow> True
      | (ca # a', cb # b') \<Rightarrow> ascii_lower ca = ascii_lower cb \<and> horizon_unix_path_equal a' b'
      | _ \<Rightarrow> False)"
  by pat_completeness auto
termination
proof (relation "measure (\<lambda>(a, b). length a)", goal_cases)
  case (2 a b x y ca a')
  then have "skip_slashes a = ca # a'" by simp
  then have "length a' < length (skip_slashes a)" by simp
  also have "\<dots> \<le> length a" by (rule length_skip_slashes)
  finally show ?case by simp
qed simp

declare horizon_unix_path_equal.simps [simp del]

text \<open>The name two equal paths share: no slash before another or at the end, and no capitals.\<close>

fun path_norm :: "string \<Rightarrow> string" where
  "path_norm [] = []"
| "path_norm (c # cs) =
     (if c = CHR ''/'' \<and> (cs = [] \<or> hd cs = CHR ''/'') then path_norm cs else ascii_lower c # path_norm cs)"

lemma path_norm_skip:
  "path_norm a = (case skip_slashes a of [] \<Rightarrow> [] | c # cs \<Rightarrow> ascii_lower c # path_norm cs)"
  by (induction a) (auto split: list.splits)

lemma path_equal_norm: "horizon_unix_path_equal a b \<longleftrightarrow> path_norm a = path_norm b"
proof (induction a b rule: horizon_unix_path_equal.induct)
  case (1 a b)
  show ?case
    by (subst horizon_unix_path_equal.simps, subst path_norm_skip [of a], subst path_norm_skip [of b])
      (auto split: list.splits simp: 1)
qed

text \<open>
  Two unix names are the same file for the server exactly when they have the same normal form: ASCII case,
  repeated slashes and trailing slashes do not count, everything else does. The walk ends on all names, and
  sameness is an equivalence.
\<close>

theorem unix_path_equal_exact:
  "horizon_unix_path_equal a b \<longleftrightarrow> path_norm a = path_norm b"
  by (rule path_equal_norm)

section \<open>A directory entry and its parent\<close>

lemma strip_slashes_le: "strip_slashes dir n \<le> n"
  by (induction dir n rule: strip_slashes.induct) (auto intro: le_SucI)

lemma strip_slashes_pos: "0 < n \<Longrightarrow> 0 < strip_slashes dir n"
  by (induction dir n rule: strip_slashes.induct) auto

lemma strip_slashes_idem: "strip_slashes dir (strip_slashes dir n) = strip_slashes dir n"
  by (induction dir n rule: strip_slashes.induct) auto

lemma strip_slashes_stop:
  assumes "dir \<noteq> []" "last dir \<noteq> CHR ''/''"
  shows "strip_slashes dir (length dir) = length dir"
  using assms by (cases "(dir, length dir)" rule: strip_slashes.cases) (auto simp: last_conv_nth)

lemma strip_slashes_last: "strip_slashes dir n < n \<Longrightarrow> dir ! (strip_slashes dir n - 1) \<noteq> CHR '':''"
proof (induction dir n rule: strip_slashes.induct)
  case (1 dir n)
  show ?case
  proof (cases "strip_slashes dir (Suc n) < Suc n")
    case False
    then have "strip_slashes dir (Suc n) = Suc n" using strip_slashes_le [of dir "Suc n"] by simp
    with 1 show ?thesis by (auto split: if_splits)
  qed (use 1 in \<open>auto split: if_splits\<close>)
qed simp_all

lemma strip_slashes_prefix: "n \<le> length d1 \<Longrightarrow> strip_slashes (d1 @ d2) n = strip_slashes d1 n"
  by (induction d1 n rule: strip_slashes.induct) (auto simp: nth_append)

lemma strip_slashes_take: "n \<le> k \<Longrightarrow> k \<le> length dir \<Longrightarrow> strip_slashes (take k dir) n = strip_slashes dir n"
  using strip_slashes_prefix [of n "take k dir" "drop k dir"] by simp

text \<open>The walk back over a name without slashes stops where the name began.\<close>

lemma strip_name_over:
  assumes "CHR ''/'' \<notin> set name" "d \<noteq> [] \<Longrightarrow> last d = CHR ''/''"
  shows "k \<le> length name \<Longrightarrow> strip_name (d @ name @ rest) (length d + k) = length d"
proof (induction k)
  case 0
  show ?case
  proof (cases d rule: rev_cases)
    case (snoc xs x)
    with assms(2) show ?thesis by (simp add: nth_append)
  qed simp
next
  case (Suc k)
  then have "name ! k \<in> set name" by simp
  with assms(1) have "name ! k \<noteq> CHR ''/''" by metis
  with Suc show ?case by (simp add: nth_append)
qed

text \<open>
  Stepping from a directory to an entry and from there to \<open>".."\<close> leads back to the directory, written
  without its trailing slashes: for every name that is not itself \<open>"."\<close> or \<open>".."\<close> and has no slash, and for
  every directory, device roots such as \<open>"sdmc:/"\<close> included, but a bare device such as \<open>"sdmc:"\<close>.
\<close>

theorem dir_entry_parent:
  assumes n: "name \<noteq> []" "name \<noteq> ''.''" "name \<noteq> ''..''" "CHR ''/'' \<notin> set name"
    and d: "dir \<noteq> []" "last dir \<noteq> CHR '':''"
  shows "horizon_dir_entry_path (horizon_dir_entry_path dir name) ''..'' = take (strip_slashes dir (length dir)) dir"
proof -
  define k where "k = strip_slashes dir (length dir)"
  define base where "base = take k dir"
  have k: "0 < k" "k \<le> length dir"
    using d(1) strip_slashes_pos [of "length dir" dir] strip_slashes_le [of dir "length dir"] by (simp_all add: k_def)
  have lb: "length base = k" using k by (simp add: base_def)
  have last: "last base = dir ! (k - 1)" using k by (cases k) (auto simp: base_def take_Suc_conv_app_nth)
  have colon: "last base \<noteq> CHR '':''"
    using strip_slashes_last [of dir "length dir"] d k last by (cases "k = length dir") (auto simp: k_def last_conv_nth)
  define pre where "pre = (if last base = CHR ''/'' then base else base @ ''/'')"
  have path: "horizon_dir_entry_path dir name = pre @ name"
    using n k last by (auto simp: horizon_dir_entry_path_def k_def [symmetric] base_def [symmetric] pre_def Let_def)
  have e: "strip_slashes (pre @ name) (length (pre @ name)) = length (pre @ name)"
  proof -
    have "last name \<noteq> CHR ''/''" using n(1,4) last_in_set by metis
    then show ?thesis using n(1) strip_slashes_stop [of "pre @ name"] by simp
  qed
  have pl: "last pre = CHR ''/''" "pre \<noteq> []" using k lb by (auto simp: pre_def)
  have parent: "strip_name (pre @ name) (length (pre @ name)) = length pre"
    using strip_name_over [of name pre "length name" "[]"] n(4) pl by simp
  have keep: "strip_slashes (base @ x) k = k" for x
    using strip_slashes_prefix [of k base x] strip_slashes_take [of k k dir] strip_slashes_idem [of dir "length dir"] k
    by (simp add: lb base_def k_def [symmetric])
  have up: "strip_slashes (pre @ name) (length pre) = k"
  proof (cases "last base = CHR ''/''")
    case True
    then show ?thesis using keep [of name] lb by (simp add: pre_def)
  next
    case False
    obtain j where j: "k = Suc j" using k(1) by (cases k) auto
    have "base ! j \<noteq> CHR '':''" using colon last j k by (simp add: base_def)
    then show ?thesis using keep [of "''/'' @ name"] lb False j by (simp add: pre_def nth_append)
  qed
  have "horizon_dir_entry_path (pre @ name) ''..'' = take k (pre @ name)"
    using e parent up k by (simp add: horizon_dir_entry_path_def Let_def)
  also have "\<dots> = base" using lb by (auto simp: pre_def)
  finally show ?thesis by (simp add: path base_def k_def)
qed

theorem dir_entry_parent_witness:
  "horizon_dir_entry_path ''sdmc:/games//'' ''save.dat'' = ''sdmc:/games/save.dat'' \<and>
   horizon_dir_entry_path (horizon_dir_entry_path ''sdmc:/games//'' ''save.dat'') ''..'' = ''sdmc:/games''"
proof -
  have "strip_slashes ''sdmc:/games//'' (length ''sdmc:/games//'') = 11" by code_simp
  then have "horizon_dir_entry_path (horizon_dir_entry_path ''sdmc:/games//'' ''save.dat'') ''..'' = ''sdmc:/games''"
    using dir_entry_parent [of "''save.dat''" "''sdmc:/games//''"] by (simp add: numeral_eq_Suc)
  moreover have "horizon_dir_entry_path ''sdmc:/games//'' ''save.dat'' = ''sdmc:/games/save.dat''" by code_simp
  ultimately show ?thesis by simp
qed

section \<open>Sharing\<close>

text \<open>
  The handles a file has open are folded into what any of them uses and what all of them share, and the
  new handle is checked once against the result. The fold starts at no use and full sharing.
\<close>

definition combine_modes :: "u32 \<times> u32 \<Rightarrow> u32 \<times> u32 \<Rightarrow> u32 \<times> u32" where
  "combine_modes e h = (fst e OR fst h, snd e AND snd h)"

definition data_access :: "u32 \<Rightarrow> bool" where
  "data_access access \<longleftrightarrow> access AND (0x0021 OR 0x0006 OR 0x00010000) \<noteq> 0"

text \<open>\<open>grants sharing access\<close>: a handle that shares \<open>sharing\<close> lets another use \<open>access\<close>.\<close>

definition grants :: "u32 \<Rightarrow> u32 \<Rightarrow> bool" where
  "grants sharing access \<longleftrightarrow>
     (access AND 0x0021 \<noteq> 0 \<longrightarrow> sharing AND 1 \<noteq> 0) \<and> (access AND 0x0006 \<noteq> 0 \<longrightarrow> sharing AND 2 \<noteq> 0) \<and>
     (access AND 0x00010000 \<noteq> 0 \<longrightarrow> sharing AND 4 \<noteq> 0)"

lemma data_access_parts: "data_access a \<longleftrightarrow> a AND 0x0021 \<noteq> 0 \<or> a AND 0x0006 \<noteq> 0 \<or> a AND 0x00010000 \<noteq> 0"
  unfolding data_access_def bit.conj_disj_distrib or_eq_0_iff by blast

lemma violation_grants:
  "horizon_file_sharing_violation ea es a sh \<longleftrightarrow> \<not> (grants es a \<and> (data_access a \<longrightarrow> grants sh ea))"
  by (auto simp: horizon_file_sharing_violation_def grants_def data_access_def Let_def)

lemma and_single_bit:
  fixes x y :: u32
  shows "(x AND y) AND 1 \<noteq> 0 \<longleftrightarrow> x AND 1 \<noteq> 0 \<and> y AND 1 \<noteq> 0"
    "(x AND y) AND 2 \<noteq> 0 \<longleftrightarrow> x AND 2 \<noteq> 0 \<and> y AND 2 \<noteq> 0"
    "(x AND y) AND 4 \<noteq> 0 \<longleftrightarrow> x AND 4 \<noteq> 0 \<and> y AND 4 \<noteq> 0"
proof -
  have bit: "z AND 2 ^ n \<noteq> 0 \<longleftrightarrow> bit z n" for z :: u32 and n
    by (metis and_exp_eq_0_iff_not_bit)
  show "(x AND y) AND 1 \<noteq> 0 \<longleftrightarrow> x AND 1 \<noteq> 0 \<and> y AND 1 \<noteq> 0"
    using bit [of _ 0] by (simp add: bit_and_iff)
  show "(x AND y) AND 2 \<noteq> 0 \<longleftrightarrow> x AND 2 \<noteq> 0 \<and> y AND 2 \<noteq> 0"
    using bit [of _ 1] by (simp add: bit_and_iff)
  show "(x AND y) AND 4 \<noteq> 0 \<longleftrightarrow> x AND 4 \<noteq> 0 \<and> y AND 4 \<noteq> 0"
    using bit [of _ 2] by (simp add: bit_and_iff)
qed

lemma or_mask:
  fixes x y m :: u32
  shows "(x OR y) AND m \<noteq> 0 \<longleftrightarrow> x AND m \<noteq> 0 \<or> y AND m \<noteq> 0"
  by (simp add: bit.conj_disj_distrib2 or_eq_0_iff)

lemma grants_combine:
  "grants (x AND y) a \<longleftrightarrow> grants x a \<and> grants y a" "grants sh (a OR b) \<longleftrightarrow> grants sh a \<and> grants sh b"
  by (auto simp: grants_def and_single_bit or_mask)

lemma fold_modes:
  "(\<forall>h\<in>set hs. grants (snd h) a) \<and> grants (snd e) a \<longleftrightarrow> grants (snd (foldl combine_modes e hs)) a"
  "(\<forall>h\<in>set hs. grants sh (fst h)) \<and> grants sh (fst e) \<longleftrightarrow> grants sh (fst (foldl combine_modes e hs))"
  by (induction hs arbitrary: e) (auto simp: combine_modes_def grants_combine)

lemma violation_fold:
  "horizon_file_sharing_violation (fst (foldl combine_modes (0, 7) hs)) (snd (foldl combine_modes (0, 7) hs)) access sharing \<longleftrightarrow>
   (\<exists>h\<in>set hs. \<not> grants (snd h) access \<or> data_access access \<and> \<not> grants sharing (fst h))"
proof -
  have full: "grants 7 access" "grants sharing 0" by (simp_all add: grants_def)
  show ?thesis
    using fold_modes [of hs access "(0, 7)"] fold_modes(2) [of hs sharing "(0, 7)"] full
    by (auto simp: violation_grants)
qed

text \<open>
  Checking a new handle against the folded modes of all handles the file has open is checking it against
  each of them: it is refused exactly when some handle does not share what it uses or, when it uses data at
  all, it does not share what some handle uses.
\<close>

theorem sharing_violation_exact:
  "(case foldl combine_modes (0, 7) hs of (ea, es) \<Rightarrow> horizon_file_sharing_violation ea es access sharing) \<longleftrightarrow>
   (\<exists>h\<in>set hs. \<not> grants (snd h) access \<or> data_access access \<and> \<not> grants sharing (fst h))"
  by (simp add: case_prod_beta violation_fold)

theorem sharing_violation_exact_witness:
  "case foldl combine_modes (0, 7) [(1, 1), (2, 3)] of (ea, es) \<Rightarrow> horizon_file_sharing_violation ea es 2 7"
  by (subst sharing_violation_exact) (simp add: grants_def)

end
