(* ===== verification/HzFileServer.thy ===== *)
theory HzFileServer
  imports HzServer HzFiles
begin

text \<open>
  The requests of \<open>dlls/ntdll/unix/horizon.c\<close> that open, rename, mark for deletion and size files, over the
  server state of \<open>HzObjects\<close> and with the rules of \<open>HzFiles\<close>.

  Each definition is one handler: the reply (a status, and a handle where the request returns one), the calls
  it makes to the file system in their order, and the new state. What the file system and the allocator answer
  is a record of answers. \<open>fsdevGetLastResult() == 0xe02\<close> (the SD card refuses what is open) is a boolean.
\<close>

abbreviation (input) HORIZON_STATUS_SHARING_VIOLATION :: u32 where "HORIZON_STATUS_SHARING_VIOLATION \<equiv> 0xc0000043"
abbreviation (input) HORIZON_STATUS_NOT_SUPPORTED :: u32 where "HORIZON_STATUS_NOT_SUPPORTED \<equiv> 0xc00000bb"
abbreviation (input) HORIZON_STATUS_FILE_IS_A_DIRECTORY :: u32 where "HORIZON_STATUS_FILE_IS_A_DIRECTORY \<equiv> 0xc00000ba"
abbreviation (input) HORIZON_STATUS_DIRECTORY_NOT_EMPTY :: u32 where "HORIZON_STATUS_DIRECTORY_NOT_EMPTY \<equiv> 0xc0000101"
abbreviation (input) HORIZON_STATUS_OBJECT_PATH_SYNTAX_BAD :: u32 where
  "HORIZON_STATUS_OBJECT_PATH_SYNTAX_BAD \<equiv> 0xc000003b"
abbreviation (input) HORIZON_STATUS_BUFFER_OVERFLOW :: u32 where "HORIZON_STATUS_BUFFER_OVERFLOW \<equiv> 0x80000005"

datatype file_call =
    F_mkdir string | F_opendir string | F_open string open_flags | F_close int
  | F_stat string | F_unlink string | F_rename string string | F_truncate int u64 | F_seek int int

section \<open>Reading the request\<close>

definition le32 :: "u8 list \<Rightarrow> nat \<Rightarrow> u32" where
  "le32 bs i = ucast (bs ! i) OR push_bit 8 (ucast (bs ! (i + 1))) OR push_bit 16 (ucast (bs ! (i + 2))) OR
     push_bit 24 (ucast (bs ! (i + 3)))"

text \<open>The status, or the size of the attributes. \<open>data_size\<close> is the length of \<open>data\<close>, an \<open>unsigned int\<close>.\<close>

definition horizon_server_object_attributes_size :: "u8 list \<Rightarrow> u32 \<Rightarrow> u32 + u32" where
  "horizon_server_object_attributes_size data data_size =
     (if data_size = 0 then Inr 0
      else if data_size < 16 then Inl HORIZON_STATUS_INVALID_PARAMETER
      else (let sd_len = le32 data 8; name_len = le32 data 12
            in if sd_len > data_size - 16 then Inl HORIZON_STATUS_INVALID_PARAMETER
               else (let sz = 16 + sd_len
                     in if name_len > data_size - sz then Inl HORIZON_STATUS_INVALID_PARAMETER
                        else (let sz = (sz + name_len + 3) AND NOT 3
                              in if sz > data_size then Inl HORIZON_STATUS_INVALID_PARAMETER else Inr sz))))"

text \<open>The bytes of a request as a C string.\<close>

definition c_string :: "u8 list \<Rightarrow> string" where
  "c_string bs = map (\<lambda>b. char_of (unat b)) (takeWhile (\<lambda>b. b \<noteq> 0) bs)"

record create_file_request =
  cf_access :: u32
  cf_sharing :: u32
  cf_create :: u32
  cf_options :: u32

text \<open>\<open>FILE_SUPERSEDE\<close>, \<open>FILE_OPEN\<close>, \<open>FILE_CREATE\<close>, \<open>FILE_OPEN_IF\<close>, \<open>FILE_OVERWRITE\<close>, \<open>FILE_OVERWRITE_IF\<close> are 0 to 5.\<close>

definition horizon_server_file_open_flags :: "create_file_request \<Rightarrow> u32 + open_flags" where
  "horizon_server_file_open_flags request =
     (let flags = horizon_file_access_mode (cf_access request)
      in if cf_create request = 2 then Inr (flags\<lparr>of_creat := True, of_excl := True\<rparr>)
         else if cf_create request = 1 then Inr flags
         else if cf_create request = 3 then Inr (flags\<lparr>of_creat := True\<rparr>)
         else if cf_create request = 4 then Inr (flags\<lparr>of_trunc := True\<rparr>)
         else if cf_create request = 5 \<or> cf_create request = 0 then Inr (flags\<lparr>of_creat := True, of_trunc := True\<rparr>)
         else Inl HORIZON_STATUS_INVALID_PARAMETER)"

section \<open>Opening\<close>

record create_file_answers =
  ca_name_alloc :: bool
  ca_mkdir :: errno
  ca_opendir :: errno
  ca_open :: "errno + int"
  ca_busy :: bool
  ca_strdup :: bool
  ca_alloc :: "ptr option \<times> ptr option"

definition shares_name :: "horizon_server_object \<Rightarrow> string \<Rightarrow> bool" where
  "shares_name ob filename \<longleftrightarrow> \<not> (so_type ob \<noteq> OBJECT_FILE \<or> \<not> so_file_shared ob \<or> so_file_fd ob = -1 \<or>
     (case so_file_name ob of None \<Rightarrow> True | Some n \<Rightarrow> \<not> horizon_unix_path_equal n filename))"

definition existing_modes :: "server \<Rightarrow> string \<Rightarrow> u32 \<times> u32" where
  "existing_modes s filename =
     foldl (\<lambda>(existing_access, existing_sharing) entry.
              case object_at s (he_object entry) of
                None \<Rightarrow> (existing_access, existing_sharing)
              | Some ob \<Rightarrow>
                  if shares_name ob filename
                  then (existing_access OR so_file_access ob, existing_sharing AND so_file_sharing ob)
                  else (existing_access, existing_sharing))
       (0, 7) (sv_handles s)"

text \<open>The directory branch: the status, and the calls.\<close>

definition create_directory :: "create_file_answers \<Rightarrow> string \<Rightarrow> open_flags \<Rightarrow> u32 \<times> file_call list" where
  "create_directory ans filename flags =
     (let made = (if of_creat flags then [F_mkdir filename] else [])
      in if of_creat flags \<and> ca_mkdir ans \<noteq> EOK \<and> (ca_mkdir ans \<noteq> EEXIST \<or> of_excl flags)
         then (horizon_server_errno_status (ca_mkdir ans), made)
         else if ca_opendir ans \<noteq> EOK then (horizon_server_errno_status (ca_opendir ans), made @ [F_opendir filename])
         else (if ca_strdup ans then HORIZON_STATUS_SUCCESS else HORIZON_STATUS_NO_MEMORY, made @ [F_opendir filename]))"

text \<open>The file branch: the status, the descriptor (-1 when there is none), whether it is a directory after all.\<close>

definition open_regular ::
    "create_file_answers \<Rightarrow> create_file_request \<Rightarrow> string \<Rightarrow> open_flags \<Rightarrow> u32 \<times> int \<times> bool \<times> file_call list" where
  "open_regular ans request filename flags =
     (case ca_open ans of
        Inr fd \<Rightarrow> (if ca_strdup ans then HORIZON_STATUS_SUCCESS else HORIZON_STATUS_NO_MEMORY, fd, False, [F_open filename flags])
      | Inl err \<Rightarrow>
          if err \<noteq> EEXIST \<and> ca_opendir ans = EOK
          then (let status = horizon_directory_open_status (cf_options request) flags
                in if status \<noteq> 0 then (status, -1, False, [F_open filename flags, F_opendir filename])
                   else (if ca_strdup ans then HORIZON_STATUS_SUCCESS else HORIZON_STATUS_NO_MEMORY, -1, True,
                         [F_open filename flags, F_opendir filename]))
          else (if err = EIO \<and> ca_busy ans then HORIZON_STATUS_SHARING_VIOLATION else horizon_server_errno_status err,
                -1, False, [F_open filename flags] @ (if err \<noteq> EEXIST then [F_opendir filename] else [])))"

definition new_file :: "create_file_request \<Rightarrow> string \<Rightarrow> int \<Rightarrow> bool \<Rightarrow> horizon_server_object \<Rightarrow> horizon_server_object" where
  "new_file request filename fd is_dir ob =
     ob\<lparr>so_file_fd := fd, so_file_name := Some filename, so_file_access := horizon_file_map_access (cf_access request),
        so_file_options := cf_options request, so_file_is_dir := is_dir, so_file_sharing := cf_sharing request,
        so_file_shared := \<not> is_dir\<rparr>"

text \<open>The handle of a file that is open, or the descriptor closed again.\<close>

definition finish_create ::
    "create_file_answers \<Rightarrow> create_file_request \<Rightarrow> string \<Rightarrow> u32 \<times> int \<times> bool \<times> file_call list \<Rightarrow> server \<Rightarrow>
     u32 \<times> u32 \<times> file_call list \<times> server" where
  "finish_create ans request filename opened s =
     (case opened of (status, fd, is_dir, calls) \<Rightarrow>
        let closing = (if fd \<noteq> -1 then [F_close fd] else [])
        in if status \<noteq> 0 then (status, 0, calls @ closing, s)
           else (case horizon_server_create_handle_locked (ca_alloc ans) OBJECT_FILE s of
                   None \<Rightarrow> (HORIZON_STATUS_NO_MEMORY, 0, calls @ closing, s)
                 | Some (entry, s1) \<Rightarrow>
                     (HORIZON_STATUS_SUCCESS, he_handle entry, calls,
                      update_object (he_object entry) (new_file request filename fd is_dir) s1)))"

definition horizon_server_handle_create_file ::
    "create_file_answers \<Rightarrow> create_file_request \<Rightarrow> u8 list \<Rightarrow> server \<Rightarrow> u32 \<times> u32 \<times> file_call list \<times> server" where
  "horizon_server_handle_create_file ans request data s =
     (if cf_options request AND 0x1000 \<noteq> 0 \<and> horizon_file_map_access (cf_access request) AND 0x00010000 = 0
      then (HORIZON_STATUS_ACCESS_DENIED, 0, [], s)
      else case horizon_server_object_attributes_size data (of_nat (length data)) of
        Inl status \<Rightarrow> (status, 0, [], s)
      | Inr attr_size \<Rightarrow>
          if length data - unat attr_size = 0 then (HORIZON_STATUS_INVALID_PARAMETER, 0, [], s)
          else if \<not> ca_name_alloc ans then (HORIZON_STATUS_NO_MEMORY, 0, [], s)
          else (let filename = c_string (drop (unat attr_size) data);
                    is_dir = cf_options request AND 1 \<noteq> 0
                in if is_dir \<and> cf_options request AND 0x40 \<noteq> 0 then (HORIZON_STATUS_INVALID_PARAMETER, 0, [], s)
                   else case horizon_server_file_open_flags request of
                     Inl status \<Rightarrow> (status, 0, [], s)
                   | Inr flags \<Rightarrow>
                       if is_dir
                       then (case create_directory ans filename flags of
                               (status, calls) \<Rightarrow> finish_create ans request filename (status, -1, True, calls) s)
                       else (case existing_modes s filename of (existing_access, existing_sharing) \<Rightarrow>
                               if horizon_file_sharing_violation existing_access existing_sharing
                                    (horizon_file_map_access (cf_access request)) (cf_sharing request)
                               then (HORIZON_STATUS_SHARING_VIOLATION, 0, [], s)
                               else finish_create ans request filename (open_regular ans request filename flags) s)))"

section \<open>Marking for deletion, sizing, naming\<close>

text \<open>\<open>entries\<close> is what \<open>horizon_server_dir_is_empty\<close> lists: an error, or the names.\<close>

definition horizon_server_dir_is_empty :: "errno + string list \<Rightarrow> errno + bool" where
  "horizon_server_dir_is_empty entries =
     (case entries of Inl e \<Rightarrow> Inl e | Inr names \<Rightarrow> Inr (\<not> list_ex (\<lambda>n. n \<noteq> ''.'' \<and> n \<noteq> ''..'') names))"

definition horizon_server_handle_set_fd_disp_info ::
    "(string \<Rightarrow> errno + string list) \<Rightarrow> u32 \<Rightarrow> u32 \<Rightarrow> server \<Rightarrow> u32 \<times> server" where
  "horizon_server_handle_set_fd_disp_info listing handle flags s =
     (case horizon_server_find_handle_locked s handle of
        None \<Rightarrow> (HORIZON_STATUS_INVALID_HANDLE, s)
      | Some entry \<Rightarrow>
          (case object_at s (he_object entry) of
             None \<Rightarrow> (HORIZON_STATUS_INVALID_HANDLE, s)
           | Some ob \<Rightarrow>
               (case so_file_name ob of
                  None \<Rightarrow> (HORIZON_STATUS_OBJECT_TYPE_MISMATCH, s)
                | Some name \<Rightarrow>
                    if so_type ob \<noteq> OBJECT_FILE then (HORIZON_STATUS_OBJECT_TYPE_MISMATCH, s)
                    else if so_file_access ob AND 0x00010000 = 0 then (HORIZON_STATUS_ACCESS_DENIED, s)
                    else (let status = (if flags AND 1 \<noteq> 0 \<and> so_file_is_dir ob
                                        then (case horizon_server_dir_is_empty (listing name) of
                                                Inl e \<Rightarrow> horizon_server_errno_status e
                                              | Inr none \<Rightarrow> if none then HORIZON_STATUS_SUCCESS else HORIZON_STATUS_DIRECTORY_NOT_EMPTY)
                                        else HORIZON_STATUS_SUCCESS)
                          in if status \<noteq> 0 then (status, s)
                             else (status,
                                   (case horizon_disposition_update (so_file_options ob) flags of
                                      (del, options) \<Rightarrow>
                                        update_object (he_object entry) (\<lambda>ob. ob\<lparr>so_file_delete := del, so_file_options := options\<rparr>) s))))))"

definition horizon_server_handle_set_fd_eof_info ::
    "errno \<Rightarrow> u32 \<Rightarrow> u64 \<Rightarrow> server \<Rightarrow> u32 \<times> file_call list" where
  "horizon_server_handle_set_fd_eof_info truncated handle eof s =
     (case horizon_server_find_handle_locked s handle of
        None \<Rightarrow> (HORIZON_STATUS_INVALID_HANDLE, [])
      | Some entry \<Rightarrow>
          (case object_at s (he_object entry) of
             None \<Rightarrow> (HORIZON_STATUS_INVALID_HANDLE, [])
           | Some ob \<Rightarrow>
               if so_type ob \<noteq> OBJECT_FILE then (HORIZON_STATUS_OBJECT_TYPE_MISMATCH, [])
               else if so_file_is_dir ob then (HORIZON_STATUS_FILE_IS_A_DIRECTORY, [])
               else if so_file_fd ob = -1 then (HORIZON_STATUS_INVALID_HANDLE, [])
               else if eof > 0x7fffffffffffffff then (HORIZON_STATUS_INVALID_PARAMETER, [])
               else (horizon_server_errno_status truncated, [F_truncate (so_file_fd ob) eof])))"

definition horizon_server_handle_get_handle_unix_name :: "bool \<Rightarrow> u32 \<Rightarrow> u32 \<Rightarrow> server \<Rightarrow> u32 \<times> nat \<times> string" where
  "horizon_server_handle_get_handle_unix_name strdup_ok handle reply_size s =
     (case horizon_server_find_handle_locked s handle of
        None \<Rightarrow> (HORIZON_STATUS_INVALID_HANDLE, 0, [])
      | Some entry \<Rightarrow>
          (case object_at s (he_object entry) of
             None \<Rightarrow> (HORIZON_STATUS_INVALID_HANDLE, 0, [])
           | Some ob \<Rightarrow>
               (case so_file_name ob of
                  None \<Rightarrow> (HORIZON_STATUS_OBJECT_TYPE_MISMATCH, 0, [])
                | Some name \<Rightarrow>
                    if so_type ob \<noteq> OBJECT_FILE then (HORIZON_STATUS_OBJECT_TYPE_MISMATCH, 0, [])
                    else if length name > unat reply_size then (HORIZON_STATUS_BUFFER_OVERFLOW, length name, [])
                    else if \<not> strdup_ok then (HORIZON_STATUS_NO_MEMORY, length name, [])
                    else (HORIZON_STATUS_SUCCESS, length name, name))))"

section \<open>Renaming\<close>

record rename_request =
  rn_handle :: u32
  rn_rootdir :: u32
  rn_namelen :: u32
  rn_flags :: u32
  rn_link :: bool

record rename_answers =
  ra_name_alloc :: bool
  ra_join_alloc :: bool
  ra_stat :: "errno + bool"
  ra_unlink :: errno
  ra_rename :: errno
  ra_busy :: bool
  ra_strdup :: bool
  ra_position :: int
  ra_open :: int

text \<open>The walk over the handles: a sharing violation, or whether another handle has the target open.\<close>

fun rename_conflicts :: "server \<Rightarrow> ptr \<Rightarrow> string \<Rightarrow> string \<Rightarrow> bool \<Rightarrow> horizon_server_handle_entry list \<Rightarrow> u32 + bool" where
  "rename_conflicts s object name target target_open [] = Inr target_open"
| "rename_conflicts s object name target target_open (entry # entries) =
     (case object_at s (he_object entry) of
        None \<Rightarrow> rename_conflicts s object name target target_open entries
      | Some other \<Rightarrow>
          if he_object entry = object \<or> so_type other \<noteq> OBJECT_FILE \<or> so_file_name other = None \<or> so_file_fd other = -1
          then rename_conflicts s object name target target_open entries
          else if horizon_unix_path_equal (the (so_file_name other)) name then Inl HORIZON_STATUS_SHARING_VIOLATION
          else rename_conflicts s object name target
                 (target_open \<or> horizon_unix_path_equal (the (so_file_name other)) target) entries)"

definition horizon_server_rename_errno_status :: "bool \<Rightarrow> errno \<Rightarrow> u32" where
  "horizon_server_rename_errno_status busy e =
     (if e = EIO \<and> busy then HORIZON_STATUS_SHARING_VIOLATION else horizon_server_errno_status e)"

text \<open>The target of the request, relative to the root directory handle when it has one.\<close>

definition rename_target :: "rename_answers \<Rightarrow> rename_request \<Rightarrow> string \<Rightarrow> server \<Rightarrow> u32 + string" where
  "rename_target ans request target s =
     (if rn_rootdir request \<noteq> 0 \<and> CHR '':'' \<notin> set target
      then (case horizon_server_find_handle_locked s (rn_rootdir request) of
              None \<Rightarrow> Inl HORIZON_STATUS_INVALID_HANDLE
            | Some entry \<Rightarrow>
                (case object_at s (he_object entry) of
                   None \<Rightarrow> Inl HORIZON_STATUS_INVALID_HANDLE
                 | Some root \<Rightarrow>
                     if so_type root \<noteq> OBJECT_FILE \<or> \<not> so_file_is_dir root then Inl HORIZON_STATUS_INVALID_HANDLE
                     else (case so_file_name root of
                             None \<Rightarrow> Inl HORIZON_STATUS_INVALID_HANDLE
                           | Some dir \<Rightarrow> if \<not> ra_join_alloc ans then Inl HORIZON_STATUS_NO_MEMORY
                                         else Inr (horizon_dir_entry_path dir target))))
      else Inr target)"

text \<open>The rename itself: the descriptor is given up for it and opened again under the name it has then.\<close>

definition rename_object ::
    "rename_answers \<Rightarrow> horizon_rename_action \<Rightarrow> ptr \<Rightarrow> horizon_server_object \<Rightarrow> string \<Rightarrow> string \<Rightarrow> server \<Rightarrow>
     u32 \<times> file_call list \<times> server" where
  "rename_object ans action p ob name target s =
     (let reopen = so_file_fd ob \<noteq> -1;
          closing = (if reopen then [F_close (so_file_fd ob)] else []);
          replacing = (if action = HORIZON_RENAME_REPLACE then [F_unlink target] else []);
          (status, calls, name') =
            (if action = HORIZON_RENAME_REPLACE \<and> ra_unlink ans \<noteq> EOK \<and> ra_unlink ans \<noteq> ENOENT
             then (horizon_server_errno_status (ra_unlink ans), replacing, name)
             else if ra_rename ans \<noteq> EOK
             then (horizon_server_rename_errno_status (ra_busy ans) (ra_rename ans), replacing @ [F_rename name target], name)
             else if \<not> ra_strdup ans then (HORIZON_STATUS_NO_MEMORY, replacing @ [F_rename name target], name)
             else (HORIZON_STATUS_SUCCESS, replacing @ [F_rename name target], target));
          fd = (if reopen then ra_open ans else -1);
          opening = (if reopen
                     then F_open name' (horizon_file_access_mode (so_file_access ob)) #
                          (if ra_open ans \<noteq> -1 \<and> ra_position ans > 0 then [F_seek (ra_open ans) (ra_position ans)] else [])
                     else [])
      in (status, closing @ calls @ opening,
          update_object p (\<lambda>ob. ob\<lparr>so_file_fd := fd, so_file_name := Some name'\<rparr>) s))"

definition horizon_server_handle_set_fd_name_info ::
    "rename_answers \<Rightarrow> rename_request \<Rightarrow> u8 list \<Rightarrow> server \<Rightarrow> u32 \<times> file_call list \<times> server" where
  "horizon_server_handle_set_fd_name_info ans request data s =
     (if unat (rn_namelen request) > length data then (HORIZON_STATUS_INVALID_PARAMETER, [], s)
      else if length data - unat (rn_namelen request) = 0 then (HORIZON_STATUS_OBJECT_PATH_SYNTAX_BAD, [], s)
      else if rn_link request then (HORIZON_STATUS_NOT_SUPPORTED, [], s)
      else if \<not> ra_name_alloc ans then (HORIZON_STATUS_NO_MEMORY, [], s)
      else case horizon_server_find_handle_locked s (rn_handle request) of
        None \<Rightarrow> (HORIZON_STATUS_INVALID_HANDLE, [], s)
      | Some entry \<Rightarrow>
          (case object_at s (he_object entry) of
             None \<Rightarrow> (HORIZON_STATUS_INVALID_HANDLE, [], s)
           | Some ob \<Rightarrow>
               (case so_file_name ob of
                  None \<Rightarrow> (HORIZON_STATUS_OBJECT_TYPE_MISMATCH, [], s)
                | Some name \<Rightarrow>
                    if so_type ob \<noteq> OBJECT_FILE then (HORIZON_STATUS_OBJECT_TYPE_MISMATCH, [], s)
                    else (case rename_target ans request (c_string (drop (unat (rn_namelen request)) data)) s of
                            Inl status \<Rightarrow> (status, [], s)
                          | Inr target \<Rightarrow>
                              (case rename_conflicts s (he_object entry) name target False (sv_handles s) of
                                 Inl status \<Rightarrow> (status, [], s)
                               | Inr target_open \<Rightarrow>
                                   (let (exists, target_is_dir, target_open) =
                                          (case ra_stat ans of
                                             Inr is_dir \<Rightarrow> (True, is_dir, target_open)
                                           | Inl e \<Rightarrow> if e = EIO then (True, False, True) else (False, False, target_open));
                                        (status, action) =
                                          horizon_rename_check exists (horizon_unix_path_equal name target)
                                            target_is_dir target_open (rn_flags request)
                                    in if status \<noteq> 0 then (status, [F_stat target], s)
                                       else if action = HORIZON_RENAME_NOTHING then (status, [F_stat target], s)
                                       else (case rename_object ans action (he_object entry) ob name target s of
                                               (st, calls, s') \<Rightarrow> (st, F_stat target # calls, s'))))))))"

section \<open>Opening\<close>





definition file_alloc_ok :: "create_file_answers \<Rightarrow> server \<Rightarrow> bool" where
  "file_alloc_ok ans s \<longleftrightarrow>
     (case fst (ca_alloc ans) of None \<Rightarrow> True | Some p \<Rightarrow> fresh_object p s) \<and>
     (case snd (ca_alloc ans) of None \<Rightarrow> True | Some q \<Rightarrow> fresh_entry q s)"

lemma finish_create_cases:
  assumes "finish_create ans request filename (st, fd, is_dir, calls) s = (status, h, calls', s')"
  shows "status \<noteq> 0 \<and> h = 0 \<and> s' = s \<and> calls' = calls @ (if fd \<noteq> -1 then [F_close fd] else []) \<or>
    status = 0 \<and> st = 0 \<and> calls' = calls \<and> (\<exists>p q. ca_alloc ans = (Some p, Some q) \<and> h = sv_next_handle s + 4 \<and>
      s' = put_object p (new_file request filename fd is_dir (new_object OBJECT_FILE)) (add_entry q 0 p s))"
proof (cases "st \<noteq> 0 \<or> fst (ca_alloc ans) = None \<or> snd (ca_alloc ans) = None")
  case True
  with assms show ?thesis
    by (cases "ca_alloc ans") (auto simp: finish_create_def horizon_server_create_handle_locked_def Let_def split: if_splits option.splits)
next
  case False
  then obtain p q where "ca_alloc ans = (Some p, Some q)" by (cases "ca_alloc ans") auto
  with False assms show ?thesis
    by (auto simp: finish_create_def create_handle_eq update_object_def put_object_def Let_def)
qed

lemma new_file_shape [simp]:
  "shape (new_file request filename fd is_dir ob) = shape ob" "so_refs (new_file request filename fd is_dir ob) = so_refs ob"
  "so_timer_when (new_file request filename fd is_dir ob) = so_timer_when ob"
  by (simp_all add: new_file_def shape_def)

lemma finish_create_inv:
  assumes inv: "server_inv s" and ok: "file_alloc_ok ans s"
    and f: "finish_create ans request filename opened s = (status, h, calls', s')"
  shows "server_inv s'"
proof -
  obtain st fd is_dir calls where o: "opened = (st, fd, is_dir, calls)" by (cases opened) auto
  show ?thesis
  proof (cases "s' = s")
    case False
    with finish_create_cases [OF f [unfolded o]] obtain p q where pq: "ca_alloc ans = (Some p, Some q)"
      "s' = put_object p (new_file request filename fd is_dir (new_object OBJECT_FILE)) (add_entry q 0 p s)" by blast
    have "fresh_object p s" "fresh_entry q s" using ok pq(1) by (simp_all add: file_alloc_ok_def)
    then have i: "server_inv (put_object p (new_object OBJECT_FILE) (add_entry q 0 p s))" by (rule create_handle_server_inv [OF inv])
    let ?t = "put_object p (new_object OBJECT_FILE) (add_entry q 0 p s)"
    have "object_at ?t p = Some (new_object OBJECT_FILE)" by (simp add: put_object_def)
    then have "skeleton (put_object p (new_file request filename fd is_dir (new_object OBJECT_FILE)) ?t) = skeleton ?t"
      by (rule skeleton_put) simp_all
    then have "server_inv (put_object p (new_file request filename fd is_dir (new_object OBJECT_FILE)) ?t)"
      by (rule server_inv_skeleton [OF i])
    then show ?thesis unfolding pq(2) by (simp add: put_object_def)
  qed (use inv in simp)
qed

text \<open>
  What a \<open>create_file\<close> request can come to: an error that leaves the server as it was and no descriptor open,
  a directory, or a file that was checked against every other that is open.
\<close>

lemma errno_status_nonzero: "e \<noteq> EOK \<Longrightarrow> horizon_server_errno_status e \<noteq> 0"
  by (cases e) (simp_all add: horizon_server_errno_status_def)

lemma attributes_size_error: "horizon_server_object_attributes_size data n = Inl status \<Longrightarrow> status \<noteq> 0"
  by (auto simp: horizon_server_object_attributes_size_def Let_def split: if_splits)

lemma open_flags_error: "horizon_server_file_open_flags request = Inl status \<Longrightarrow> status \<noteq> 0"
  by (auto simp: horizon_server_file_open_flags_def Let_def split: if_splits)

lemma open_regular_cases:
  assumes "open_regular ans request filename flags = (st, fd, is_dir, calls)"
  shows "ca_open ans = Inr fd' \<Longrightarrow> fd = fd'"
  using assms by (auto simp: open_regular_def Let_def split: sum.splits if_splits)

definition checked :: "create_file_request \<Rightarrow> server \<Rightarrow> string \<Rightarrow> bool" where
  "checked request s filename \<longleftrightarrow>
     \<not> horizon_file_sharing_violation (fst (existing_modes s filename)) (snd (existing_modes s filename))
         (horizon_file_map_access (cf_access request)) (cf_sharing request)"

definition file_opened :: "create_file_answers \<Rightarrow> create_file_request \<Rightarrow> string \<Rightarrow> server \<Rightarrow>
    u32 \<times> int \<times> bool \<times> file_call list \<Rightarrow> bool" where
  "file_opened ans request filename s opened \<longleftrightarrow>
     (case opened of (st, fd, is_dir, calls) \<Rightarrow>
        (\<forall>f flags. F_open f flags \<in> set calls \<longrightarrow> (\<forall>fd'. ca_open ans = Inr fd' \<longrightarrow> fd = fd')) \<and>
        (is_dir \<or> checked request s filename))"

lemma create_file_cases:
  assumes "horizon_server_handle_create_file ans request data s = (status, h, calls, s')"
  shows "status \<noteq> 0 \<and> h = 0 \<and> s' = s \<and> calls = [] \<or>
    (\<exists>filename opened. finish_create ans request filename opened s = (status, h, calls, s') \<and>
       file_opened ans request filename s opened)"
proof -
  define filename where "filename a = c_string (drop (unat a) data)" for a :: u32
  have dir: ?thesis if "finish_create ans request f (st, -1, True, cs) s = (status, h, calls, s')"
    "create_directory ans f flags = (st, cs)" for f st cs flags
    using that by (force simp: file_opened_def create_directory_def Let_def split: if_splits)
  have reg: ?thesis if "finish_create ans request f (open_regular ans request f flags) s = (status, h, calls, s')"
    "checked request s f" for f flags
    using that open_regular_cases [of ans request f flags]
    by (intro disjI2 exI [of _ f] exI [of _ "open_regular ans request f flags"]) (auto simp: file_opened_def)
  show ?thesis
    using assms attributes_size_error [of data] open_flags_error [of request] dir reg
    unfolding horizon_server_handle_create_file_def Let_def filename_def [symmetric]
    by (auto simp: checked_def split: if_splits sum.splits prod.splits)
qed


definition example_answers :: "int \<Rightarrow> ptr \<Rightarrow> ptr \<Rightarrow> create_file_answers" where
  "example_answers fd p q = \<lparr>ca_name_alloc = True, ca_mkdir = EOK, ca_opendir = EOTHER, ca_open = Inr fd, ca_busy = False,
     ca_strdup = True, ca_alloc = (Some p, Some q)\<rparr>"

definition example_read :: create_file_request where
  "example_read = \<lparr>cf_access = 0x80000000, cf_sharing = 1, cf_create = 1, cf_options = 0x40\<rparr>"

text \<open>Sixteen bytes of attributes, none given, and a name of one letter.\<close>

definition example_data :: "u8 \<Rightarrow> u8 list" where
  "example_data c = replicate 16 0 @ [c]"

definition example_open :: server where
  "example_open = snd (snd (snd (horizon_server_handle_create_file (example_answers 5 11 21) example_read (example_data 97) server_init)))"

lemma example_open_inv: "server_inv example_open"
proof -
  obtain st h c where e: "horizon_server_handle_create_file (example_answers 5 11 21) example_read (example_data 97) server_init =
      (st, h, c, example_open)"
    unfolding example_open_def by (metis prod.collapse)
  have ok: "file_alloc_ok (example_answers 5 11 21) server_init" by code_simp
  from create_file_cases [OF e] show ?thesis
  proof
    assume "st \<noteq> 0 \<and> h = 0 \<and> example_open = server_init \<and> c = []"
    then show ?thesis using server_init_inv by simp
  next
    assume "\<exists>filename opened. finish_create (example_answers 5 11 21) example_read filename opened server_init = (st, h, c, example_open) \<and>
        file_opened (example_answers 5 11 21) example_read filename server_init opened"
    then show ?thesis using finish_create_inv [OF server_init_inv ok] by metis
  qed
qed





section \<open>Renaming\<close>

definition file_busy :: "server \<Rightarrow> ptr \<Rightarrow> string \<Rightarrow> bool" where
  "file_busy s p name \<longleftrightarrow> (\<exists>e\<in>set (sv_handles s). \<exists>ob n. he_object e \<noteq> p \<and> object_at s (he_object e) = Some ob \<and>
     so_type ob = OBJECT_FILE \<and> so_file_fd ob \<noteq> -1 \<and> so_file_name ob = Some n \<and> horizon_unix_path_equal n name)"

lemma rename_conflicts_Inr:
  assumes "rename_conflicts s p name target open0 es = Inr r" "e \<in> set es" "he_object e \<noteq> p"
    "object_at s (he_object e) = Some ob" "so_type ob = OBJECT_FILE" "so_file_fd ob \<noteq> -1" "so_file_name ob = Some n"
  shows "\<not> horizon_unix_path_equal n name \<and> (horizon_unix_path_equal n target \<longrightarrow> r)"
proof -
  have keep: "rename_conflicts s p name target True es = Inr r \<Longrightarrow> r" for es
    by (induction es) (auto split: option.splits if_splits)
  show ?thesis using assms
  proof (induction es arbitrary: open0)
    case (Cons x xs)
    show ?case
    proof (cases "x = e")
      case True
      with Cons.prems keep [of xs] show ?thesis by (auto split: if_splits)
    next
      case False
      with Cons.prems obtain o1 where "rename_conflicts s p name target o1 xs = Inr r"
        by (auto split: option.splits if_splits)
      with Cons.IH [OF this] Cons.prems False show ?thesis by auto
    qed
  qed simp
qed

lemma rename_conflicts_free:
  assumes "rename_conflicts s p name target False (sv_handles s) = Inr r"
  shows "\<not> file_busy s p name" "file_busy s p target \<Longrightarrow> r"
  using rename_conflicts_Inr [OF assms] unfolding file_busy_def by blast+

lemma rename_check_move:
  assumes "horizon_rename_check exists same is_dir is_open flags = (0, action)" "action \<noteq> HORIZON_RENAME_NOTHING"
  shows "exists \<longrightarrow> \<not> is_open"
  using assms by (auto simp: horizon_rename_check_def split: if_splits)

lemma split_at_unique:
  assumes "pre @ x # post = xs @ y # ys" "P y" "\<forall>z\<in>set pre. \<not> P z" "\<forall>z\<in>set post. \<not> P z"
  shows "xs = pre \<and> y = x"
  using assms
proof (induction pre arbitrary: xs)
  case Nil
  then show ?case by (cases xs) auto
next
  case (Cons z zs)
  then show ?case by (cases xs) auto
qed

definition renames :: "file_call \<Rightarrow> bool" where
  "renames c = (case c of F_rename a b \<Rightarrow> True | _ \<Rightarrow> False)"

lemma rename_object_calls:
  assumes "rename_object ans action p ob name target s = (status, calls, s')" "F_stat target # calls = xs @ F_rename a b # ys"
  shows "a = name \<and> b = target \<and> (so_file_fd ob \<noteq> -1 \<longrightarrow> F_close (so_file_fd ob) \<in> set xs)"
proof -
  define pre where "pre = F_stat target # (if so_file_fd ob \<noteq> -1 then [F_close (so_file_fd ob)] else []) @
    (if action = HORIZON_RENAME_REPLACE then [F_unlink target] else [])"
  have "\<exists>post. (\<forall>z\<in>set post. \<not> renames z) \<and> (F_stat target # calls = pre @ post \<or> F_stat target # calls = pre @ F_rename name target # post)"
    using assms(1) by (auto simp: rename_object_def Let_def pre_def renames_def conj_disj_distribL ex_disj_distrib split: if_splits)
  then obtain post where post: "\<forall>z\<in>set post. \<not> renames z"
    "F_stat target # calls = pre @ post \<or> F_stat target # calls = pre @ F_rename name target # post" by blast
  have np: "\<forall>z\<in>set pre. \<not> renames z" by (auto simp: pre_def renames_def split: if_splits)
  have r: "renames (F_rename a b)" by (simp add: renames_def)
  from post(2) show ?thesis
  proof
    assume "F_stat target # calls = pre @ post"
    then have "F_rename a b \<in> set pre \<union> set post" using assms(2) by (metis in_set_conv_decomp set_append)
    then show ?thesis using np post(1) r by blast
  next
    assume "F_stat target # calls = pre @ F_rename name target # post"
    with assms(2) split_at_unique [OF _ r np post(1)] have "xs = pre \<and> F_rename a b = F_rename name target" by metis
    then show ?thesis by (auto simp: pre_def)
  qed
qed

lemma rename_object_inv:
  assumes "server_inv s" "rename_object ans action p ob name target s = (status, calls, s')"
  shows "server_inv s'"
proof -
  obtain fd n where s': "s' = update_object p (\<lambda>ob. ob\<lparr>so_file_fd := fd, so_file_name := Some n\<rparr>) s"
    using assms(2) by (auto simp: rename_object_def Let_def split: if_splits)
  have "skeleton s' = skeleton s"
  proof (cases "object_at s p")
    case (Some x)
    then show ?thesis unfolding s' update_object_def by (simp, intro skeleton_put) (auto simp: shape_def)
  qed (simp add: s' update_object_def)
  then show ?thesis by (rule server_inv_skeleton [OF assms(1)])
qed

text \<open>What a rename request can come to: refused, nothing to do, or the rename of an object nobody else has open.\<close>

lemma rename_cases:
  assumes "horizon_server_handle_set_fd_name_info ans request data s = (status, calls, s')"
  shows "(calls = [] \<or> (\<exists>t. calls = [F_stat t])) \<and> s' = s \<or>
    (\<exists>e ob name target action r calls0. horizon_server_find_handle_locked s (rn_handle request) = Some e \<and>
       object_at s (he_object e) = Some ob \<and> so_file_name ob = Some name \<and>
       rename_conflicts s (he_object e) name target False (sv_handles s) = Inr r \<and>
       ((\<exists>d. ra_stat ans = Inr d) \<or> ra_stat ans = Inl EIO \<longrightarrow> \<not> r) \<and>
       rename_object ans action (he_object e) ob name target s = (status, calls0, s') \<and> calls = F_stat target # calls0)"
proof -
  have go: ?thesis
    if "horizon_server_find_handle_locked s (rn_handle request) = Some e" "object_at s (he_object e) = Some ob" "so_file_name ob = Some name"
      "rename_conflicts s (he_object e) name target False (sv_handles s) = Inr r"
      "horizon_rename_check ex same is_dir is_open flags = (0, action)" "action \<noteq> HORIZON_RENAME_NOTHING"
      "(\<exists>d. ra_stat ans = Inr d) \<or> ra_stat ans = Inl EIO \<longrightarrow> ex \<and> (r \<longrightarrow> is_open)"
      "rename_object ans action (he_object e) ob name target s = (status, calls0, s')" "calls = F_stat target # calls0"
    for e ob name target r ex same is_dir is_open flags action calls0
    using that rename_check_move [OF that(5,6)] by blast
  show ?thesis
    using assms unfolding horizon_server_handle_set_fd_name_info_def Let_def
    by (auto split: if_splits option.splits sum.splits prod.splits intro: go dest: rename_check_move)
qed

text \<open>
  C32. The server renames a file only while nobody has it open, which is what the SD card asks: when a rename
  request comes to the call of \<open>rename\<close>, the handle's own descriptor has been closed before, no other handle has
  a file of the old name open, and none has one of the new name open unless the file system said there is none.
  A request that is refused makes no such call and changes nothing, and the server's invariant is kept.
\<close>

theorem rename_when_closed:
  assumes inv: "server_inv s" and r: "horizon_server_handle_set_fd_name_info ans request data s = (status, calls, s')"
  shows "server_inv s' \<and>
    (\<forall>xs a b ys. calls = xs @ F_rename a b # ys \<longrightarrow>
      (\<exists>e ob. horizon_server_find_handle_locked s (rn_handle request) = Some e \<and> object_at s (he_object e) = Some ob \<and>
         so_file_name ob = Some a \<and> (so_file_fd ob \<noteq> -1 \<longrightarrow> F_close (so_file_fd ob) \<in> set xs) \<and>
         \<not> file_busy s (he_object e) a \<and>
         (file_busy s (he_object e) b \<longrightarrow> (\<exists>err. ra_stat ans = Inl err \<and> err \<noteq> EIO)))) \<and>
    (calls = [] \<or> (\<exists>target. calls = [F_stat target]) \<longrightarrow> s' = s)"
proof -
  from rename_cases [OF r] show ?thesis
  proof
    assume "(calls = [] \<or> (\<exists>t. calls = [F_stat t])) \<and> s' = s"
    then show ?thesis using inv by (auto simp: Cons_eq_append_conv append_eq_Cons_conv)
  next
    assume "\<exists>e ob name target action r calls0. horizon_server_find_handle_locked s (rn_handle request) = Some e \<and>
       object_at s (he_object e) = Some ob \<and> so_file_name ob = Some name \<and>
       rename_conflicts s (he_object e) name target False (sv_handles s) = Inr r \<and>
       ((\<exists>d. ra_stat ans = Inr d) \<or> ra_stat ans = Inl EIO \<longrightarrow> \<not> r) \<and>
       rename_object ans action (he_object e) ob name target s = (status, calls0, s') \<and> calls = F_stat target # calls0"
    then obtain e ob name target action r calls0 where x: "horizon_server_find_handle_locked s (rn_handle request) = Some e"
       "object_at s (he_object e) = Some ob" "so_file_name ob = Some name"
       "rename_conflicts s (he_object e) name target False (sv_handles s) = Inr r"
       "(\<exists>d. ra_stat ans = Inr d) \<or> ra_stat ans = Inl EIO \<longrightarrow> \<not> r"
       "rename_object ans action (he_object e) ob name target s = (status, calls0, s')" "calls = F_stat target # calls0" by blast
    have i: "server_inv s'" by (rule rename_object_inv [OF inv x(6)])
    have c: "a = name \<and> b = target \<and> (so_file_fd ob \<noteq> -1 \<longrightarrow> F_close (so_file_fd ob) \<in> set xs)"
      if "calls = xs @ F_rename a b # ys" for xs a b ys
      by (rule rename_object_calls [OF x(6)]) (use that x(7) in simp)
    have t: "\<exists>err. ra_stat ans = Inl err \<and> err \<noteq> EIO" if "file_busy s (he_object e) target"
      using rename_conflicts_free(2) [OF x(4) that] x(5) by (cases "ra_stat ans") auto
    have same: "s' = s" if "calls = [] \<or> (\<exists>t. calls = [F_stat t])"
      using x(2,3,6,7) that
      by (auto simp: rename_object_def Let_def update_object_def put_object_def split: if_splits)
    show ?thesis using i c t same x(1-3) rename_conflicts_free(1) [OF x(4)] by blast
  qed
qed

definition example_rename_answers :: rename_answers where
  "example_rename_answers = \<lparr>ra_name_alloc = True, ra_join_alloc = True, ra_stat = Inl ENOENT, ra_unlink = EOK, ra_rename = EOK,
     ra_busy = False, ra_strdup = True, ra_position = 0, ra_open = 7\<rparr>"

definition example_rename :: rename_request where
  "example_rename = \<lparr>rn_handle = sv_next_handle example_open, rn_rootdir = 0, rn_namelen = 0, rn_flags = 0, rn_link = False\<rparr>"

theorem rename_when_closed_witness:
  "\<exists>s'. horizon_server_handle_set_fd_name_info example_rename_answers example_rename [98] example_open =
      (0, [F_stat ''b'', F_close 5, F_rename ''a'' ''b'', F_open ''b'' (horizon_file_access_mode 0x120089)], s') \<and> server_inv s' \<and>
      \<not> file_busy example_open 11 ''a''"
proof -
  define result where "result = horizon_server_handle_set_fd_name_info example_rename_answers example_rename [98] example_open"
  have st: "fst result = 0" unfolding result_def by code_simp
  have calls: "fst (snd result) = [F_stat ''b'', F_close 5, F_rename ''a'' ''b'', F_open ''b'' (horizon_file_access_mode 0x120089)]"
    unfolding result_def by code_simp
  obtain s' where r: "result = (0, [F_stat ''b'', F_close 5, F_rename ''a'' ''b'', F_open ''b'' (horizon_file_access_mode 0x120089)], s')"
    using st calls by (metis prod.collapse)
  have h: "map_option he_object (horizon_server_find_handle_locked example_open (rn_handle example_rename)) = Some 11" by code_simp
  have split: "[F_stat ''b'', F_close 5, F_rename ''a'' ''b'', F_open ''b'' (horizon_file_access_mode 0x120089)] =
      [F_stat ''b'', F_close 5] @ F_rename ''a'' ''b'' # [F_open ''b'' (horizon_file_access_mode 0x120089)]" by simp
  note rn = rename_when_closed [OF example_open_inv r [unfolded result_def]]
  from rn [THEN conjunct2, THEN conjunct1, rule_format, OF split] obtain e where "horizon_server_find_handle_locked example_open (rn_handle example_rename) = Some e"
    "\<not> file_busy example_open (he_object e) ''a''" by blast
  then have "\<not> file_busy example_open 11 ''a''" using h by simp
  with rn [THEN conjunct1] r show ?thesis unfolding result_def by blast
qed

end
