(* ===== verification/HzRedirect.thy ===== *)
theory HzRedirect
  imports HzPrelude
begin

text \<open>
  Emulated loads (\<open>dlls/ntdll/unix/horizon_read_redirect.h\<close>): a read of the page that Windows programs expect
  at \<open>0x7ffe0000\<close> faults, and the fault handler carries the load out on the page where it really is.

  Registers and addresses are words of their width, so every sum of the code wraps as it does there. The backing
  memory is the list of its bytes. A load that is not carried out is \<open>None\<close>: the code returns 0 before it writes
  anything. The decoding, which in the code sets local variables, gives a record of them.
\<close>

type_synonym u128 = "128 word"

record horizon_read_regs =
  rr_x :: "u64 list"
  rr_sp :: u64
  rr_pc :: u64
  rr_v :: "u128 list"

definition horizon_read_sext :: "u64 \<Rightarrow> nat \<Rightarrow> u64" where
  "horizon_read_sext value bits = signed_drop_bit (64 - bits) (push_bit (64 - bits) value)"

text \<open>\<open>(insn >> k) & (2^w - 1)\<close>, and a register as the base of an address.\<close>

definition field :: "u32 \<Rightarrow> nat \<Rightarrow> nat \<Rightarrow> nat" where
  "field insn k w = unat (drop_bit k insn) mod 2 ^ w"

definition base_reg :: "horizon_read_regs \<Rightarrow> nat \<Rightarrow> u64" where
  "base_reg regs n = (if n = 31 then rr_sp regs else rr_x regs ! n)"

record load =
  ld_simd :: bool
  ld_count :: nat
  ld_bytes :: nat
  ld_sign :: nat
  ld_imm :: u64
  ld_address :: u64
  ld_writeback :: bool

section \<open>Decoding\<close>

definition decode_pair :: "horizon_read_regs \<Rightarrow> u32 \<Rightarrow> load option" where
  "decode_pair regs insn =
     (let t = field insn 0 5; n = field insn 5 5; t2 = field insn 10 5; simd = field insn 26 1 = 1;
          base = base_reg regs n;
          kind = field insn 30 2; index = field insn 23 2;
          bytes = (if simd then 4 * 2 ^ kind else if kind = 2 then 8 else 4);
          imm = horizon_read_sext (of_nat (field insn 15 7)) 7 * of_nat bytes;
          writeback = index \<noteq> 2
      in if kind = 3 \<or> index = 0 \<or> t = t2 then None
         else if writeback \<and> \<not> simd \<and> n \<noteq> 31 \<and> (n = t \<or> n = t2) then None
         else Some \<lparr>ld_simd = simd, ld_count = 2, ld_bytes = bytes, ld_sign = (if \<not> simd \<and> kind = 1 then 64 else 0),
                    ld_imm = imm, ld_address = (if index = 1 then base else base + imm), ld_writeback = writeback\<rparr>)"

text \<open>The width and the sign extension of a single load; \<open>None\<close> for a store, a prefetch or no instruction.\<close>

definition single_width :: "u32 \<Rightarrow> (nat \<times> nat) option" where
  "single_width insn =
     (let simd = field insn 26 1 = 1; opc = field insn 22 2; log2 = field insn 30 2
      in if simd
         then (if opc = 1 then Some (2 ^ log2, 0) else if opc = 3 \<and> log2 = 0 then Some (16, 0) else None)
         else if opc = 0 \<or> opc = 2 \<and> log2 = 3 \<or> opc = 3 \<and> log2 \<ge> 2 then None
         else Some (2 ^ log2, if opc = 2 then 64 else if opc = 3 then 32 else 0))"

definition decode_single :: "horizon_read_regs \<Rightarrow> u32 \<Rightarrow> load option" where
  "decode_single regs insn =
     (case single_width insn of
        None \<Rightarrow> None
      | Some (bytes, sign) \<Rightarrow>
          (let t = field insn 0 5; n = field insn 5 5; simd = field insn 26 1 = 1; base = base_reg regs n;
               ld = \<lparr>ld_simd = simd, ld_count = 1, ld_bytes = bytes, ld_sign = sign, ld_imm = 0, ld_address = base,
                     ld_writeback = False\<rparr>
           in if field insn 24 1 = 1
              then Some (ld\<lparr>ld_address := base + of_nat (field insn 10 12) * of_nat bytes\<rparr>)
              else if field insn 21 1 = 0
              then (let mode = field insn 10 2;
                        imm = horizon_read_sext (of_nat (field insn 12 9)) 9;
                        writeback = mode = 1 \<or> mode = 3
                    in if simd \<and> mode = 2 then None
                       else if writeback \<and> \<not> simd \<and> n \<noteq> 31 \<and> n = t then None
                       else Some (ld\<lparr>ld_imm := imm, ld_address := (if mode = 1 then base else base + imm),
                                     ld_writeback := writeback\<rparr>))
              else if field insn 10 2 = 2
              then (let m = field insn 16 5; option = field insn 13 3;
                        index = (if m = 31 then 0 else rr_x regs ! m);
                        scale = (\<lambda>index. Some (ld\<lparr>ld_address := base + (if field insn 12 1 = 1 then index * of_nat bytes else index)\<rparr>))
                    in if option = 2 then scale (ucast (ucast index :: u32))
                       else if option = 6 then scale (horizon_read_sext index 32)
                       else if option \<noteq> 3 \<and> option \<noteq> 7 then None
                       else scale index)
              else None))"

definition decode_load :: "horizon_read_regs \<Rightarrow> u32 \<Rightarrow> load option" where
  "decode_load regs insn =
     (if insn AND 0x3a400000 = 0x28400000 then decode_pair regs insn
      else if insn AND 0x3a000000 = 0x38000000 then decode_single regs insn
      else None)"

section \<open>Carrying out\<close>

text \<open>\<open>memcpy( &value, src, bytes )\<close> into a value that was zero, little-endian.\<close>

fun le_value :: "u8 list \<Rightarrow> u128" where
  "le_value [] = 0"
| "le_value (b # bs) = ucast b OR push_bit 8 (le_value bs)"

definition put_target :: "load \<Rightarrow> u8 list \<Rightarrow> nat \<Rightarrow> horizon_read_regs \<Rightarrow> horizon_read_regs" where
  "put_target ld src target regs =
     (if ld_simd ld then regs\<lparr>rr_v := (rr_v regs)[target := le_value src]\<rparr>
      else (let value = ucast (le_value src) :: u64;
                value = (if ld_sign ld \<noteq> 0 then horizon_read_sext value (ld_bytes ld * 8) else value);
                value = (if ld_sign ld = 32 then ucast (ucast value :: u32) else value)
            in if target \<noteq> 31 then regs\<lparr>rr_x := (rr_x regs)[target := value]\<rparr> else regs))"

definition src_bytes :: "u8 list \<Rightarrow> nat \<Rightarrow> nat \<Rightarrow> u8 list" where
  "src_bytes backing offset bytes = take bytes (drop offset backing)"

definition horizon_redirect_read ::
    "horizon_read_regs \<Rightarrow> u32 \<Rightarrow> u64 \<Rightarrow> u8 list \<Rightarrow> u64 \<Rightarrow> horizon_read_regs option" where
  "horizon_redirect_read regs insn window backing sz =
     (case decode_load regs insn of
        None \<Rightarrow> None
      | Some ld \<Rightarrow>
          (let t = field insn 0 5; n = field insn 5 5; t2 = field insn 10 5;
               base = base_reg regs n;
               offset = ld_address ld - window
           in if offset \<ge> sz \<or> sz - offset < of_nat (ld_bytes ld) * of_nat (ld_count ld) then None
              else (let regs1 = put_target ld (src_bytes backing (unat offset) (ld_bytes ld)) t regs;
                        regs2 = (if ld_count ld = 2
                                 then put_target ld (src_bytes backing (unat offset + ld_bytes ld) (ld_bytes ld)) t2 regs1
                                 else regs1);
                        regs3 = (if ld_writeback ld
                                 then (if n = 31 then regs2\<lparr>rr_sp := base + ld_imm ld\<rparr>
                                       else regs2\<lparr>rr_x := (rr_x regs2)[n := base + ld_imm ld]\<rparr>)
                                 else regs2)
                    in Some (regs3\<lparr>rr_pc := rr_pc regs + 4\<rparr>))))"

section \<open>What it reads and writes\<close>


lemma small_cases: "n < 4 \<Longrightarrow> n = 0 \<or> n = 1 \<or> n = 2 \<or> n = (3 :: nat)"
  by arith





lemma put_target_keeps [simp]:
  "rr_sp (put_target ld src r regs) = rr_sp regs" "length (rr_x (put_target ld src r regs)) = length (rr_x regs)"
  "r \<noteq> i \<or> ld_simd ld \<Longrightarrow> rr_x (put_target ld src r regs) ! i = rr_x regs ! i"
  "\<not> ld_simd ld \<Longrightarrow> rr_v (put_target ld src r regs) = rr_v regs"
  by (auto simp: put_target_def Let_def)


section \<open>Loads with a scaled offset\<close>

text \<open>The encoding of \<open>LDRB\<close>, \<open>LDRH\<close>, \<open>LDR W\<close> and \<open>LDR X\<close> (\<open>log2\<close> 0 to 3) with an unsigned scaled offset.\<close>

definition encode_ldr :: "nat \<Rightarrow> nat \<Rightarrow> nat \<Rightarrow> nat \<Rightarrow> u32" where
  "encode_ldr log2 imm n t = of_nat (log2 * 2 ^ 30 + 0x39400000 + imm * 1024 + n * 32 + t)"

lemma field_of_nat: "N < 2 ^ 32 \<Longrightarrow> field (of_nat N) k w = N div 2 ^ k mod 2 ^ w"
  by (simp only: field_def unsigned_drop_bit_eq) (simp add: drop_bit_eq_div unat_of_nat take_bit_nat_eq_self)

lemma encode_ldr_fields:
  assumes "log2 < 4" "imm < 4096" "n < 32" "t < 32"
  defines "insn \<equiv> encode_ldr log2 imm n t"
  shows "field insn 0 5 = t" "field insn 5 5 = n" "field insn 10 12 = imm" "field insn 30 2 = log2"
    "field insn 26 1 = 0" "field insn 22 2 = 1" "field insn 24 1 = 1"
proof -
  define N where "N = log2 * 2 ^ 30 + 0x39400000 + imm * 1024 + n * 32 + t"
  have N: "N < 2 ^ 32" using assms(1-4) by (simp add: N_def)
  note f = field_of_nat [OF N, unfolded N_def, folded encode_ldr_def [of log2 imm n t], folded insn_def]
  have a: "(log2 * 1073741824 + 960495616 + imm * 1024 + n * 32 + t) div 32 = log2 * 33554432 + 30015488 + imm * 32 + n"
    "(log2 * 1073741824 + 960495616 + imm * 1024 + n * 32 + t) div 1024 = log2 * 1048576 + 937984 + imm"
    using assms(3,4) by simp_all
  have b: "(log2 * 1073741824 + 960495616 + imm * 1024 + n * 32 + t) div 4194304 = log2 * 256 + 229"
    using assms(2-4) by simp
  have low: "(x :: nat) < b \<Longrightarrow> y = x + b * z \<Longrightarrow> y mod b = x" for x y z b by simp
  have m1: "(log2 * 1073741824 + 960495616 + imm * 1024 + n * 32 + t) mod 32 = t"
    by (rule low [where z = "log2 * 33554432 + 30015488 + imm * 32 + n"]) (use assms(4) in simp_all)
  have m2: "(log2 * 33554432 + 30015488 + imm * 32 + n) mod 32 = n"
    by (rule low [where z = "log2 * 1048576 + 937984 + imm"]) (use assms(3) in simp_all)
  have m3: "(log2 * 1048576 + 937984 + imm) mod 4096 = imm"
    by (rule low [where z = "log2 * 256 + 229"]) (use assms(2) in simp_all)
  show "field insn 0 5 = t" using m1 by (simp add: f)
  show "field insn 5 5 = n" using m2 a(1) by (simp add: f)
  show "field insn 10 12 = imm" using m3 a(2) by (simp add: f)
  have c: "field insn k 2 = (log2 * 256 + 229) div 2 ^ (k - 22) mod 2 ^ 2" "field insn k 1 = (log2 * 256 + 229) div 2 ^ (k - 22) mod 2"
    if "22 \<le> k" for k
  proof -
    have "(2 :: nat) ^ k = 4194304 * 2 ^ (k - 22)" using that power_add [of "2 :: nat" 22 "k - 22"] by simp
    then show "field insn k 2 = (log2 * 256 + 229) div 2 ^ (k - 22) mod 2 ^ 2" "field insn k 1 = (log2 * 256 + 229) div 2 ^ (k - 22) mod 2"
      using b by (simp_all add: f div_mult2_eq)
  qed
  show "field insn 30 2 = log2" "field insn 26 1 = 0" "field insn 22 2 = 1" "field insn 24 1 = 1"
    using small_cases [OF assms(1)] by (auto simp: c c(2) [simplified])
qed

lemma and_high: "(x :: u32) AND push_bit 22 m = push_bit 22 (drop_bit 22 x AND m)"
  by (rule bit_eqI) (auto simp: bit_simps)

lemma encode_ldr_class:
  assumes "log2 < 4" "imm < 4096" "n < 32" "t < 32"
  shows "encode_ldr log2 imm n t AND 0x3a400000 \<noteq> 0x28400000" "encode_ldr log2 imm n t AND 0x3a000000 = 0x38000000"
proof -
  define N where "N = log2 * 2 ^ 30 + 0x39400000 + imm * 1024 + n * 32 + t"
  have N32: "N < 2 ^ 32" using assms by (simp add: N_def)
  then have "unat (encode_ldr log2 imm n t) = N"
    by (simp only: encode_ldr_def N_def [symmetric] unat_of_nat) (simp add: take_bit_nat_eq_self)
  then have "unat (drop_bit 22 (encode_ldr log2 imm n t)) = log2 * 256 + 229"
    using assms N32 by (simp only: unsigned_drop_bit_eq) (simp add: take_bit_nat_eq_self drop_bit_eq_div, simp add: N_def)
  from arg_cong [OF this, of "of_nat :: nat \<Rightarrow> u32"]
  have d: "drop_bit 22 (encode_ldr log2 imm n t) = of_nat (log2 * 256 + 229)" by simp
  have "encode_ldr log2 imm n t AND push_bit 22 0xe9 \<noteq> 0x28400000" "encode_ldr log2 imm n t AND push_bit 22 0xe8 = 0x38000000"
    unfolding and_high d using small_cases [OF assms(1)] by auto
  then show "encode_ldr log2 imm n t AND 0x3a400000 \<noteq> 0x28400000" "encode_ldr log2 imm n t AND 0x3a000000 = 0x38000000" by simp_all
qed

lemma ldr_result:
  assumes e: "log2 < 4" "imm < 4096" "n < 32" "t < 31"
    and off: "offset = base_reg regs n + of_nat imm * 2 ^ log2 - window"
    and win: "unat offset + 2 ^ log2 \<le> unat sz"
  shows "horizon_redirect_read regs (encode_ldr log2 imm n t) window backing sz =
    Some (regs\<lparr>rr_x := (rr_x regs)[t := ucast (le_value (take (2 ^ log2) (drop (unat offset) backing)))], rr_pc := rr_pc regs + 4\<rparr>)"
proof -
  define insn where "insn = encode_ldr log2 imm n t"
  have t: "t < 32" using e(4) by simp
  note f = encode_ldr_fields [OF e(1-3) t, folded insn_def] and cl = encode_ldr_class [OF e(1-3) t, folded insn_def]
  have w: "single_width insn = Some (2 ^ log2, 0)" using f by (simp add: single_width_def)
  have d: "decode_load regs insn = Some \<lparr>ld_simd = False, ld_count = 1, ld_bytes = 2 ^ log2, ld_sign = 0, ld_imm = 0,
      ld_address = base_reg regs n + of_nat imm * 2 ^ log2, ld_writeback = False\<rparr>"
    using cl w f by (simp add: decode_load_def decode_single_def)
  have l: "(2 :: nat) ^ log2 \<le> 8" using small_cases [OF e(1)] by auto
  have "0 < (2 :: nat) ^ log2" by simp
  with win have "unat offset < unat sz" by linarith
  then have in1: "offset < sz" by (simp add: word_less_nat_alt)
  have "unat (2 ^ log2 :: u64) = 2 ^ log2" using small_cases [OF e(1)] by auto
  moreover have "unat (sz - offset) = unat sz - unat offset" using in1 by (simp add: unat_sub less_imp_le)
  ultimately have in2: "\<not> sz - offset < 2 ^ log2" using win by (simp add: word_less_nat_alt)
  show ?thesis
    unfolding insn_def [symmetric] using in1 in2 e(4)
    by (simp add: horizon_redirect_read_def d f off [symmetric] put_target_def src_bytes_def not_le Let_def)
qed

text \<open>
  A program's \<open>LDRB\<close>, \<open>LDRH\<close>, \<open>LDR W\<close> or \<open>LDR X\<close> with an offset, from any base register into any other
  register but the zero register, is carried out as the processor would on a window that were mapped: when the
  bytes lie in the window, the target holds the little-endian value of exactly those bytes, zero extended, and
  execution goes on behind the instruction.
\<close>

theorem redirect_ldr:
  assumes e: "log2 < 4" "imm < 4096" "n < 32" "t < 31"
    and off: "offset = base_reg regs n + of_nat imm * 2 ^ log2 - window"
    and win: "unat offset + 2 ^ log2 \<le> unat sz"
  shows "horizon_redirect_read regs (encode_ldr log2 imm n t) window backing sz =
    Some (regs\<lparr>rr_x := (rr_x regs)[t := ucast (le_value (take (2 ^ log2) (drop (unat offset) backing)))], rr_pc := rr_pc regs + 4\<rparr>)"
  using assms by (rule ldr_result)

definition example_regs :: horizon_read_regs where
  "example_regs = \<lparr>rr_x = (replicate 31 0)[2 := 0x7ffe0000], rr_sp = 0, rr_pc = 0x1000, rr_v = replicate 32 0\<rparr>"

lemma example_offset: "(4 :: u64) = base_reg example_regs 2 + of_nat 2 * 2 ^ 1 - 0x7ffe0000"
  by (simp add: example_regs_def base_reg_def)

lemma example_value: "(ucast (le_value (take (2 ^ 1) (drop (unat (4 :: u64)) [0, 0, 0, 0, 0x34, 0x12]))) :: u64) = 0x1234"
  by code_simp

theorem redirect_ldr_witness:
  "horizon_redirect_read example_regs (encode_ldr 1 2 2 0) 0x7ffe0000 [0, 0, 0, 0, 0x34, 0x12] 6 =
     Some (example_regs\<lparr>rr_x := (rr_x example_regs)[0 := 0x1234], rr_pc := rr_pc example_regs + 4\<rparr>)"
  using redirect_ldr [OF _ _ _ _ example_offset, of 0 6 "[0, 0, 0, 0, 0x34, 0x12]"] unfolding example_value by simp


end
