(* ===== verification/HzNames.thy ===== *)
theory HzNames
  imports HzPrelude
begin

text \<open>
  Names the server answers for and addresses it translates: the object directories of
  \<open>dlls/ntdll/unix/horizon_object_dirs.h\<close> (which paths name them, how their entries are written into a reply)
  and the socket addresses of \<open>dlls/ntdll/unix/horizon_sockaddr.h\<close> (IPv6 addresses on a system that has IPv4).

  Buffers are lists of bytes. The position the code keeps in a name is what is left of the list. The sums of the
  entry sizes stay below a few hundred bytes and are natural numbers.
\<close>

section \<open>Paths of object directories\<close>

definition unit16 :: "u8 \<Rightarrow> u8 \<Rightarrow> nat" where
  "unit16 lo hi = unat lo + 256 * unat hi"

definition upper_unit :: "nat \<Rightarrow> nat" where
  "upper_unit c = (if 97 \<le> c \<and> c \<le> 122 then c - 32 else c)"

text \<open>\<open>while (pos < len && !name[pos + 1] && name[pos] >= '0' && name[pos] <= '9') pos += 2;\<close>\<close>

fun skip_digits :: "u8 list \<Rightarrow> u8 list" where
  "skip_digits (lo # hi # rest) = (if hi = 0 \<and> 48 \<le> lo \<and> lo \<le> 57 then skip_digits rest else lo # hi # rest)"
| "skip_digits bs = bs"

fun path_walk :: "u8 list \<Rightarrow> string \<Rightarrow> bool" where
  "path_walk bs [] \<longleftrightarrow> bs = []"
| "path_walk bs (want # path) \<longleftrightarrow>
     (if want = CHR ''#'' then skip_digits bs \<noteq> bs \<and> path_walk (skip_digits bs) path
      else (case bs of
              lo # hi # rest \<Rightarrow> upper_unit (unit16 lo hi) = upper_unit (of_char want) \<and> path_walk rest path
            | _ \<Rightarrow> False))"

definition horizon_object_dir_path_is :: "u8 list \<Rightarrow> string \<Rightarrow> bool" where
  "horizon_object_dir_path_is name path \<longleftrightarrow> length name mod 2 = 0 \<and> path_walk name path"

datatype horizon_object_dir = HORIZON_OBJECT_DIR_NONE | HORIZON_OBJECT_DIR_DOS_DEVICES | HORIZON_OBJECT_DIR_NAMED_OBJECTS

definition horizon_object_dir_from_path :: "u8 list \<Rightarrow> horizon_object_dir" where
  "horizon_object_dir_from_path name =
     (if horizon_object_dir_path_is name (CHR 0x5c # ''??'') \<or>
         horizon_object_dir_path_is name (CHR 0x5c # ''DosDevices'') \<or>
         horizon_object_dir_path_is name (CHR 0x5c # ''GLOBAL??'') then HORIZON_OBJECT_DIR_DOS_DEVICES
      else if horizon_object_dir_path_is name (CHR 0x5c # ''BaseNamedObjects'') \<or>
         horizon_object_dir_path_is name (CHR 0x5c # ''Sessions'' @ CHR 0x5c # ''#'' @ CHR 0x5c # ''BaseNamedObjects'')
      then HORIZON_OBJECT_DIR_NAMED_OBJECTS
      else HORIZON_OBJECT_DIR_NONE)"

text \<open>The 16-bit units of a name.\<close>

fun units :: "u8 list \<Rightarrow> nat list" where
  "units (lo # hi # rest) = unit16 lo hi # units rest"
| "units bs = []"

definition digit_units :: "nat list \<Rightarrow> bool" where
  "digit_units ds \<longleftrightarrow> (\<forall>d\<in>set ds. 48 \<le> d \<and> d \<le> 57)"

definition upper_path :: "string \<Rightarrow> nat list" where
  "upper_path path = map (\<lambda>c. upper_unit (of_char c)) path"

lemma unit16_digit: "hi = 0 \<and> 48 \<le> lo \<and> lo \<le> 57 \<longleftrightarrow> 48 \<le> unit16 lo hi \<and> unit16 lo hi \<le> 57"
proof -
  have "hi = 0 \<longleftrightarrow> unat hi = 0" by (simp add: unat_eq_0)
  moreover have "48 \<le> lo \<longleftrightarrow> 48 \<le> unat lo" "lo \<le> 57 \<longleftrightarrow> unat lo \<le> 57" by (simp_all add: word_le_nat_alt)
  moreover have "256 * unat hi \<le> 57 \<longleftrightarrow> unat hi = 0" by auto
  ultimately show ?thesis by (cases "unat hi = 0") (auto simp: unit16_def)
qed

lemma digit_units_nil [simp]: "digit_units []"
  by (simp add: digit_units_def)

lemma even_pairs: "even (length (bs :: u8 list)) \<Longrightarrow> bs = [] \<or> (\<exists>lo hi rest. bs = lo # hi # rest \<and> even (length rest))"
  by (cases bs rule: units.cases) auto

lemma units_nil: "even (length bs) \<Longrightarrow> units bs = [] \<longleftrightarrow> bs = []"
  using even_pairs [of bs] by auto

lemma length_units: "even (length bs) \<Longrightarrow> length bs = 2 * length (units bs)"
  by (induction bs rule: units.induct) auto

lemma units_drop: "units (drop (2 * n) bs) = drop n (units bs)"
  by (induction bs arbitrary: n rule: units.induct) (auto simp: drop_Cons split: nat.splits)

lemma skip_digits_split:
  "even (length bs) \<Longrightarrow> \<exists>ds. units bs = ds @ units (skip_digits bs) \<and> digit_units ds \<and> even (length (skip_digits bs)) \<and>
     (skip_digits bs = bs \<longleftrightarrow> ds = []) \<and> (\<forall>u us. units (skip_digits bs) = u # us \<longrightarrow> \<not> digit_units [u])"
proof (induction bs rule: skip_digits.induct)
  case (1 lo hi rest)
  show ?case
  proof (cases "hi = 0 \<and> 48 \<le> lo \<and> lo \<le> 57")
    case True
    then obtain ds where ds: "units rest = ds @ units (skip_digits rest)" "digit_units ds" "even (length (skip_digits rest))"
      "\<forall>u us. units (skip_digits rest) = u # us \<longrightarrow> \<not> digit_units [u]" using 1 by auto
    have "digit_units (unit16 lo hi # ds)" using ds(2) True unit16_digit [of hi lo] by (auto simp: digit_units_def)
    moreover have "skip_digits rest \<noteq> lo # hi # rest"
      using length_units [of rest] length_units [OF ds(3)] ds(1) 1(2) by (metis even_Suc length_Cons length_append less_add_same_cancel1 list.size(4) mult_le_mono2 not_less_eq_eq le_add2 Suc_n_not_le_n le_SucI)
    ultimately show ?thesis using ds True by (intro exI [of _ "unit16 lo hi # ds"]) auto
  next
    case False
    then have "\<not> digit_units [unit16 lo hi]" using unit16_digit [of hi lo] by (auto simp: digit_units_def)
    then show ?thesis using False 1(2) by auto
  qed
qed auto

lemma path_walk_append:
  "CHR ''#'' \<notin> set p \<Longrightarrow> even (length bs) \<Longrightarrow>
   path_walk bs (p @ q) \<longleftrightarrow> length p \<le> length (units bs) \<and> map upper_unit (take (length p) (units bs)) = upper_path p \<and>
     path_walk (drop (2 * length p) bs) q"
proof (induction p arbitrary: bs)
  case (Cons c p)
  from even_pairs [OF Cons.prems(2)] show ?case using Cons by (auto simp: upper_path_def)
qed (simp add: upper_path_def)

lemma path_walk_plain:
  assumes "CHR ''#'' \<notin> set p" "even (length bs)"
  shows "path_walk bs p \<longleftrightarrow> map upper_unit (units bs) = upper_path p"
proof -
  have "drop (2 * length p) bs = [] \<longleftrightarrow> length (units bs) \<le> length p" using length_units [OF assms(2)] by simp
  moreover have "length (upper_path p) = length p" by (simp add: upper_path_def)
  moreover have "map upper_unit (units bs) = upper_path p \<Longrightarrow> length (units bs) = length p"
    using calculation(2) by (metis length_map)
  ultimately show ?thesis using path_walk_append [OF assms, of "[]"] by auto
qed

lemma upper_digit: "digit_units ds \<Longrightarrow> map upper_unit ds = ds"
  by (auto simp: digit_units_def upper_unit_def intro!: map_idI)

lemma upper_is_digit: "digit_units [upper_unit u] \<Longrightarrow> digit_units [u]"
  by (auto simp: digit_units_def upper_unit_def split: if_splits)

lemma path_walk_number:
  assumes p: "CHR ''#'' \<notin> set p" "CHR ''#'' \<notin> set q" and q: "q \<noteq> []" "\<not> digit_units [hd (upper_path q)]"
    and bs: "even (length bs)"
  shows "path_walk bs (p @ CHR ''#'' # q) \<longleftrightarrow>
    (\<exists>ds. ds \<noteq> [] \<and> digit_units ds \<and> map upper_unit (units bs) = upper_path p @ ds @ upper_path q)" (is "?l \<longleftrightarrow> ?r")
proof -
  define us where "us = units bs"
  define bs1 where "bs1 = drop (2 * length p) bs"
  have e1: "even (length bs1)" using bs by (simp add: bs1_def)
  have u1: "units bs1 = drop (length p) us" by (simp add: bs1_def us_def units_drop)
  from skip_digits_split [OF e1] obtain ds where ds: "units bs1 = ds @ units (skip_digits bs1)" "digit_units ds"
    "even (length (skip_digits bs1))" "skip_digits bs1 = bs1 \<longleftrightarrow> ds = []"
    "\<forall>u us. units (skip_digits bs1) = u # us \<longrightarrow> \<not> digit_units [u]" by blast
  have walk: "?l \<longleftrightarrow> length p \<le> length us \<and> map upper_unit (take (length p) us) = upper_path p \<and> ds \<noteq> [] \<and>
      map upper_unit (units (skip_digits bs1)) = upper_path q"
    using path_walk_append [OF p(1) bs, of "CHR ''#'' # q"] path_walk_plain [OF p(2) ds(3)] ds(4)
    by (simp add: us_def bs1_def)
  have lp: "length (upper_path p) = length p" by (simp add: upper_path_def)
  have drop1: "map upper_unit (drop (length p) us) = ds @ map upper_unit (units (skip_digits bs1))"
    using ds(1,2) u1 upper_digit by simp
  have split: "map upper_unit us = map upper_unit (take (length p) us) @ map upper_unit (drop (length p) us)"
    by (metis append_take_drop_id map_append)
  let ?D = "\<lambda>d. 48 \<le> d \<and> d \<le> (57 :: nat)"
  have tw: "takeWhile ?D (xs @ ys) = xs" if "digit_units xs" "ys \<noteq> [] \<longrightarrow> \<not> digit_units [hd ys]" for xs ys
    using that by (cases ys) (auto simp: digit_units_def takeWhile_append2)
  show ?thesis
  proof
    assume ?l
    then have "map upper_unit us = upper_path p @ ds @ upper_path q" "ds \<noteq> []" using walk split drop1 by simp_all
    then show ?r using ds(2) by (auto simp: us_def)
  next
    assume ?r
    then obtain es where es: "es \<noteq> []" "digit_units es" "map upper_unit us = upper_path p @ es @ upper_path q" by (auto simp: us_def)
    then have "length (map upper_unit us) = length p + length es + length q" by (simp add: upper_path_def)
    then have l: "length p \<le> length us" by simp
    have t: "map upper_unit (take (length p) us) = upper_path p" using es(3) lp by (metis append_eq_conv_conj take_map)
    have d: "ds @ map upper_unit (units (skip_digits bs1)) = es @ upper_path q"
      using es(3) split t drop1 by simp
    have "takeWhile ?D (ds @ map upper_unit (units (skip_digits bs1))) = ds"
      using ds(2,5) upper_is_digit by (intro tw) (auto simp: hd_map neq_Nil_conv)
    moreover have "takeWhile ?D (es @ upper_path q) = es" using es(2) q by (intro tw) auto
    ultimately have "ds = es" using d by simp
    then show ?l using walk l t d es(1) by simp
  qed
qed

text \<open>
  The server takes a path for the directory of named objects exactly when, case aside, it is
  \<open>\BaseNamedObjects\<close> or \<open>\Sessions\\<open>n\<close>\BaseNamedObjects\<close> for a decimal number of any length, and for the directory of
  DOS devices exactly when it is \<open>\??\<close>, \<open>\DosDevices\<close> or \<open>\GLOBAL??\<close>: a name of an odd number of bytes, a longer or
  a shorter name is neither.
\<close>

theorem object_dir_exact:
  "horizon_object_dir_from_path name =
     (let us = map upper_unit (units name); bs = upper_path [CHR 0x5c]
      in if odd (length name) then HORIZON_OBJECT_DIR_NONE
         else if us = bs @ upper_path ''??'' \<or> us = bs @ upper_path ''DOSDEVICES'' \<or> us = bs @ upper_path ''GLOBAL??''
         then HORIZON_OBJECT_DIR_DOS_DEVICES
         else if us = bs @ upper_path ''BASENAMEDOBJECTS'' \<or>
             (\<exists>ds. ds \<noteq> [] \<and> digit_units ds \<and> us = bs @ upper_path ''SESSIONS'' @ bs @ ds @ bs @ upper_path ''BASENAMEDOBJECTS'')
         then HORIZON_OBJECT_DIR_NAMED_OBJECTS
         else HORIZON_OBJECT_DIR_NONE)"
proof (cases "odd (length name)")
  case True
  then have "\<not> horizon_object_dir_path_is name p" for p by (simp add: horizon_object_dir_path_is_def odd_iff_mod_2_eq_one)
  then show ?thesis using True by (simp add: horizon_object_dir_from_path_def)
next
  case False
  then have e: "even (length name)" by simp
  then have path: "horizon_object_dir_path_is name p = path_walk name p" for p
    by (simp add: horizon_object_dir_path_is_def even_iff_mod_2_eq_zero)
  have num: "path_walk name ((CHR 0x5c # ''Sessions'' @ [CHR 0x5c]) @ CHR ''#'' # CHR 0x5c # ''BaseNamedObjects'') \<longleftrightarrow>
    (\<exists>ds. ds \<noteq> [] \<and> digit_units ds \<and> map upper_unit (units name) =
       upper_path (CHR 0x5c # ''Sessions'' @ [CHR 0x5c]) @ ds @ upper_path (CHR 0x5c # ''BaseNamedObjects''))"
    by (rule path_walk_number) (use e in \<open>simp_all add: upper_path_def upper_unit_def digit_units_def\<close>)
  have plain: "path_walk name p \<longleftrightarrow> map upper_unit (units name) = upper_path p" if "CHR ''#'' \<notin> set p" for p
    using that e by (rule path_walk_plain)
  have same: "upper_path (CHR 0x5c # ''DosDevices'') = upper_path [CHR 0x5c] @ upper_path ''DOSDEVICES''"
    "upper_path (CHR 0x5c # ''??'') = upper_path [CHR 0x5c] @ upper_path ''??''"
    "upper_path (CHR 0x5c # ''GLOBAL??'') = upper_path [CHR 0x5c] @ upper_path ''GLOBAL??''"
    "upper_path (CHR 0x5c # ''BaseNamedObjects'') = upper_path [CHR 0x5c] @ upper_path ''BASENAMEDOBJECTS''"
    "upper_path (CHR 0x5c # ''Sessions'' @ [CHR 0x5c]) = upper_path [CHR 0x5c] @ upper_path ''SESSIONS'' @ upper_path [CHR 0x5c]"
    by (simp_all add: upper_path_def upper_unit_def)
  have dos: "path_walk name (CHR 0x5c # ''??'') \<longleftrightarrow> map upper_unit (units name) = upper_path [CHR 0x5c] @ upper_path ''??''"
    "path_walk name (CHR 0x5c # ''DosDevices'') \<longleftrightarrow> map upper_unit (units name) = upper_path [CHR 0x5c] @ upper_path ''DOSDEVICES''"
    "path_walk name (CHR 0x5c # ''GLOBAL??'') \<longleftrightarrow> map upper_unit (units name) = upper_path [CHR 0x5c] @ upper_path ''GLOBAL??''"
    "path_walk name (CHR 0x5c # ''BaseNamedObjects'') \<longleftrightarrow> map upper_unit (units name) = upper_path [CHR 0x5c] @ upper_path ''BASENAMEDOBJECTS''"
    unfolding same [symmetric] by (rule plain, simp)+
  have sess: "CHR 0x5c # ''Sessions'' @ CHR 0x5c # ''#'' @ CHR 0x5c # ''BaseNamedObjects'' =
      (CHR 0x5c # ''Sessions'' @ [CHR 0x5c]) @ CHR ''#'' # CHR 0x5c # ''BaseNamedObjects''" by simp
  show ?thesis
    unfolding horizon_object_dir_from_path_def path dos sess num same Let_def by (simp only: False append_assoc if_False)
qed

section \<open>Entries of object directories\<close>

record horizon_object_dir_entry =
  de_name :: string
  de_type :: string

definition horizon_object_dir_dos_devices :: "horizon_object_dir_entry list" where
  "horizon_object_dir_dos_devices =
     map (\<lambda>n. \<lparr>de_name = n, de_type = ''SymbolicLink''\<rparr>) [''C:'', ''D:'', ''E:'', ''F:'', ''G:'', ''H:'', ''Z:'']"

abbreviation (input) HORIZON_OBJECT_DIR_STATUS_MORE_ENTRIES :: u32 where "HORIZON_OBJECT_DIR_STATUS_MORE_ENTRIES \<equiv> 0x105"
abbreviation (input) HORIZON_OBJECT_DIR_STATUS_NO_MORE_ENTRIES :: u32 where
  "HORIZON_OBJECT_DIR_STATUS_NO_MORE_ENTRIES \<equiv> 0x8000001a"

definition wide_bytes :: "string \<Rightarrow> u8 list" where
  "wide_bytes cs = concat (map (\<lambda>c. [of_char c, 0]) cs)"

definition le_bytes32 :: "nat \<Rightarrow> u8 list" where
  "le_bytes32 n = [of_nat n, of_nat (n div 256), of_nat (n div 65536), of_nat (n div 16777216)]"

definition entry_size :: "horizon_object_dir_entry \<Rightarrow> nat" where
  "entry_size entry = (8 + 2 * length (de_name entry) + 2 * length (de_type entry) + 3) div 4 * 4"

text \<open>The record of one entry: the lengths, the name, the type, zeroes up to the entry's size.\<close>

definition entry_bytes :: "horizon_object_dir_entry \<Rightarrow> u8 list" where
  "entry_bytes entry =
     (let body = le_bytes32 (2 * length (de_name entry)) @ le_bytes32 (2 * length (de_type entry)) @
                 wide_bytes (de_name entry) @ wide_bytes (de_type entry)
      in body @ replicate (entry_size entry - length body) 0)"

record dir_scan =
  ds_status :: u32
  ds_out :: "u8 list"
  ds_count :: nat
  ds_total :: nat
  ds_ordinal :: nat

definition entry_drive :: "horizon_object_dir_entry \<Rightarrow> u32 \<Rightarrow> bool" where
  "entry_drive entry drive_mask \<longleftrightarrow> bit drive_mask (of_char (hd (de_name entry)) - 65)"

fun entries_loop :: "u32 \<Rightarrow> nat \<Rightarrow> nat \<Rightarrow> nat \<Rightarrow> horizon_object_dir_entry list \<Rightarrow> dir_scan \<Rightarrow> dir_scan" where
  "entries_loop drive_mask index max_count reply_max [] s = s"
| "entries_loop drive_mask index max_count reply_max (entry # entries) s =
     (if ds_count s \<ge> max_count then s
      else if \<not> entry_drive entry drive_mask then entries_loop drive_mask index max_count reply_max entries s
      else if ds_ordinal s < index
      then entries_loop drive_mask index max_count reply_max entries (s\<lparr>ds_ordinal := ds_ordinal s + 1\<rparr>)
      else (let s1 = s\<lparr>ds_ordinal := ds_ordinal s + 1,
                       ds_total := ds_total s + 2 * length (de_name entry) + 2 * length (de_type entry)\<rparr>
            in if length (ds_out s) + entry_size entry > reply_max
               then s1\<lparr>ds_status := HORIZON_OBJECT_DIR_STATUS_MORE_ENTRIES\<rparr>
               else entries_loop drive_mask index max_count reply_max entries
                      (s1\<lparr>ds_out := ds_out s @ entry_bytes entry, ds_count := ds_count s + 1, ds_status := 0\<rparr>)))"

definition horizon_object_dir_entries :: "horizon_object_dir \<Rightarrow> u32 \<Rightarrow> nat \<Rightarrow> nat \<Rightarrow> nat \<Rightarrow> dir_scan" where
  "horizon_object_dir_entries dir drive_mask index max_count reply_max =
     entries_loop drive_mask index max_count reply_max
       (if dir = HORIZON_OBJECT_DIR_DOS_DEVICES then horizon_object_dir_dos_devices else [])
       \<lparr>ds_status = HORIZON_OBJECT_DIR_STATUS_NO_MORE_ENTRIES, ds_out = [], ds_count = 0, ds_total = 0, ds_ordinal = 0\<rparr>"

lemma length_wide_bytes [simp]: "length (wide_bytes cs) = 2 * length cs"
  by (induction cs) (simp_all add: wide_bytes_def)

lemma length_entry_bytes: "length (entry_bytes entry) = entry_size entry"
  by (simp add: entry_bytes_def entry_size_def le_bytes32_def Let_def)

text \<open>How many entries of one size still fit.\<close>

definition fitting :: "nat \<Rightarrow> nat \<Rightarrow> nat \<Rightarrow> nat \<Rightarrow> nat" where
  "fitting sz left space n = min n (min left (space div sz))"

text \<open>\<open>scan_result\<close> says what a scan that stood at \<open>s\<close> and had the entries \<open>sel\<close> still to send comes to.\<close>

definition scan_result :: "nat \<Rightarrow> nat \<Rightarrow> nat \<Rightarrow> horizon_object_dir_entry list \<Rightarrow> dir_scan \<Rightarrow> dir_scan \<Rightarrow> bool" where
  "scan_result sz max_count reply_max sel s r \<longleftrightarrow>
     (let k = fitting sz (max_count - ds_count s) (reply_max - length (ds_out s)) (length sel)
      in ds_out r = ds_out s @ concat (map entry_bytes (take k sel)) \<and> ds_count r = ds_count s + k \<and>
         ds_status r = (if k < length sel \<and> k < max_count - ds_count s then HORIZON_OBJECT_DIR_STATUS_MORE_ENTRIES
                        else if 0 < k then 0 else ds_status s))"

lemma scan_result_ordinal [simp]: "scan_result sz mc rm sel (s\<lparr>ds_ordinal := n\<rparr>) r = scan_result sz mc rm sel s r"
  by (simp add: scan_result_def)

lemma scan_result_fits:
  assumes "0 < sz" "entry_size e = sz" "ds_count s < max_count" "length (ds_out s) + sz \<le> reply_max"
    and s': "ds_out s' = ds_out s @ entry_bytes e" "ds_count s' = ds_count s + 1" "ds_status s' = 0"
    and r: "scan_result sz max_count reply_max sel s' r"
  shows "scan_result sz max_count reply_max (e # sel) s r"
proof -
  have "reply_max - length (ds_out s) = (reply_max - length (ds_out s')) + sz"
    using assms(2,4) s'(1) by (simp add: length_entry_bytes)
  then have space: "(reply_max - length (ds_out s)) div sz = Suc ((reply_max - length (ds_out s')) div sz)"
    using assms(1) by (simp add: div_add_self2)
  have left: "max_count - ds_count s = Suc (max_count - ds_count s')" using assms(3) s'(2) by simp
  have k: "fitting sz (max_count - ds_count s) (reply_max - length (ds_out s)) (length (e # sel)) =
      Suc (fitting sz (max_count - ds_count s') (reply_max - length (ds_out s')) (length sel))"
    unfolding fitting_def space left by simp
  show ?thesis using r unfolding scan_result_def k Let_def by (simp add: s' left)
qed

lemma entries_loop_spec:
  fixes drive_mask :: u32
  assumes "\<forall>e\<in>set entries. entry_size e = sz" "0 < sz" "length (ds_out s) \<le> reply_max"
  shows "scan_result sz max_count reply_max (drop (index - ds_ordinal s) (filter (\<lambda>e. entry_drive e drive_mask) entries)) s
    (entries_loop drive_mask index max_count reply_max entries s)"
  using assms(1,3)
proof (induction entries arbitrary: s)
  case Nil
  then show ?case by (simp add: scan_result_def fitting_def)
next
  case (Cons e es)
  have sz: "entry_size e = sz" using Cons.prems(1) by simp
  note ih = Cons.IH [OF ballI]
  consider (full) "ds_count s \<ge> max_count" | (other) "ds_count s < max_count" "\<not> entry_drive e drive_mask"
    | (skipped) "ds_count s < max_count" "entry_drive e drive_mask" "ds_ordinal s < index"
    | (nofit) "ds_count s < max_count" "entry_drive e drive_mask" "\<not> ds_ordinal s < index" "length (ds_out s) + sz > reply_max"
    | (fits) "ds_count s < max_count" "entry_drive e drive_mask" "\<not> ds_ordinal s < index" "length (ds_out s) + sz \<le> reply_max"
    by linarith
  then show ?case
  proof cases
    case full
    then show ?thesis by (simp add: scan_result_def fitting_def)
  next
    case other
    then show ?thesis using Cons by simp
  next
    case skipped
    have "index - ds_ordinal s = Suc (index - Suc (ds_ordinal s))" using skipped(3) by simp
    then show ?thesis using skipped Cons.prems Cons.IH [of "s\<lparr>ds_ordinal := ds_ordinal s + 1\<rparr>"] by simp
  next
    case nofit
    then have "(reply_max - length (ds_out s)) div sz = 0" using Cons.prems(2) by simp
    then show ?thesis using nofit sz by (simp add: scan_result_def fitting_def Let_def)
  next
    case fits
    let ?s = "s\<lparr>ds_ordinal := ds_ordinal s + 1, ds_total := ds_total s + 2 * length (de_name e) + 2 * length (de_type e),
      ds_out := ds_out s @ entry_bytes e, ds_count := ds_count s + 1, ds_status := 0\<rparr>"
    have "length (ds_out ?s) \<le> reply_max" using fits(4) sz by (simp add: length_entry_bytes)
    then have "scan_result sz max_count reply_max (drop (index - ds_ordinal ?s) (filter (\<lambda>e. entry_drive e drive_mask) es)) ?s
        (entries_loop drive_mask index max_count reply_max es ?s)" using Cons.IH [of ?s] Cons.prems(1) by simp
    moreover have "index - ds_ordinal s = 0" "index - ds_ordinal ?s = 0" using fits(3) by simp_all
    moreover have "entries_loop drive_mask index max_count reply_max (e # es) s = entries_loop drive_mask index max_count reply_max es ?s"
      using fits sz by (simp add: Let_def)
    ultimately show ?thesis using fits by (auto intro!: scan_result_fits [OF assms(2) sz fits(1,4), where s' = ?s])
  qed
qed

text \<open>
  Listing the DOS devices: the reply holds the records of the drives that are there, from the index asked
  for on and in their order, as many as the count and the room in the reply allow, never a byte more than the
  room. The status is that there are more exactly when only the room ended the listing, and that there are none
  exactly when nothing was written otherwise; every other directory is empty.
\<close>

theorem object_dir_entries_exact:
  fixes drive_mask :: u32
  defines "drives \<equiv> filter (\<lambda>e. entry_drive e drive_mask) horizon_object_dir_dos_devices"
  shows "(let r = horizon_object_dir_entries HORIZON_OBJECT_DIR_DOS_DEVICES drive_mask index max_count reply_max;
           n = min (length drives - index) (min max_count (reply_max div 36))
       in ds_count r = n \<and> ds_out r = concat (map entry_bytes (take n (drop index drives))) \<and> length (ds_out r) = 36 * n \<and>
          length (ds_out r) \<le> reply_max \<and>
          ds_status r = (if n < length drives - index \<and> n < max_count then HORIZON_OBJECT_DIR_STATUS_MORE_ENTRIES
                         else if 0 < n then 0 else HORIZON_OBJECT_DIR_STATUS_NO_MORE_ENTRIES)) \<and>
    ds_status (horizon_object_dir_entries HORIZON_OBJECT_DIR_NAMED_OBJECTS drive_mask index max_count reply_max) =
      HORIZON_OBJECT_DIR_STATUS_NO_MORE_ENTRIES"
proof -
  have sz: "\<forall>e\<in>set horizon_object_dir_dos_devices. entry_size e = 36"
    by (simp add: horizon_object_dir_dos_devices_def entry_size_def)
  define s0 where "s0 = \<lparr>ds_status = HORIZON_OBJECT_DIR_STATUS_NO_MORE_ENTRIES, ds_out = [], ds_count = 0, ds_total = 0, ds_ordinal = 0\<rparr>"
  define n where "n = min (length drives - index) (min max_count (reply_max div 36))"
  have fit: "fitting 36 (max_count - ds_count s0) (reply_max - length (ds_out s0)) (length (drop (index - ds_ordinal s0) drives)) = n"
    by (simp add: fitting_def n_def s0_def)
  have spec: "scan_result 36 max_count reply_max (drop (index - ds_ordinal s0) drives) s0
      (entries_loop drive_mask index max_count reply_max horizon_object_dir_dos_devices s0)"
    unfolding drives_def by (rule entries_loop_spec [OF sz]) (simp_all add: s0_def)
  have lens: "length (concat (map entry_bytes es)) = 36 * length es" if "set es \<subseteq> set horizon_object_dir_dos_devices" for es
    using that sz by (induction es) (auto simp: length_entry_bytes)
  have sub: "set (take n (drop index drives)) \<subseteq> set horizon_object_dir_dos_devices"
    using set_take_subset [of n "drop index drives"] set_drop_subset [of index drives] by (auto simp: drives_def)
  have len: "length (concat (map entry_bytes (take n (drop index drives)))) = 36 * n"
    using lens [OF sub] by (simp add: n_def)
  have "36 * n \<le> reply_max" by (simp add: n_def min_def) linarith
  then show ?thesis
    using spec [unfolded scan_result_def fit] len
    by (auto simp: horizon_object_dir_entries_def s0_def n_def [symmetric] Let_def)
qed

section \<open>Socket addresses\<close>

abbreviation (input) HORIZON_SOCKADDR_IN6_SIZE :: nat where "HORIZON_SOCKADDR_IN6_SIZE \<equiv> 28"
abbreviation (input) HORIZON_SOCKADDR_IN6_MIN :: nat where "HORIZON_SOCKADDR_IN6_MIN \<equiv> 24"

definition mapped_prefix :: "u8 list" where
  "mapped_prefix = [0, 0, 0, 0, 0, 0, 0, 0, 0, 0, 0xff, 0xff]"

definition horizon_in6_to_v4 :: "u8 list \<Rightarrow> u8 list option" where
  "horizon_in6_to_v4 in6 =
     (if take 16 in6 = replicate 16 0 then Some [0, 0, 0, 0]
      else if take 12 in6 = mapped_prefix then Some (take 4 (drop 12 in6))
      else if take 15 in6 = replicate 15 0 \<and> in6 ! 15 = 1 then Some [127, 0, 0, 1]
      else None)"

definition horizon_in6_is_mapped :: "u8 list \<Rightarrow> bool" where
  "horizon_in6_is_mapped in6 \<longleftrightarrow> take 12 in6 = mapped_prefix"

definition horizon_v4_to_in6 :: "u8 list \<Rightarrow> u8 list" where
  "horizon_v4_to_in6 v4 =
     (if v4 ! 0 = 0 \<and> v4 ! 1 = 0 \<and> v4 ! 2 = 0 \<and> v4 ! 3 = 0 then replicate 16 0
      else replicate 10 0 @ [0xff, 0xff] @ take 4 v4)"

text \<open>The bytes of the \<open>sockaddr_in6\<close>; nothing when it does not fit. The rest of the buffer is not touched.\<close>

definition horizon_ws_in6_from_v4 :: "u8 list \<Rightarrow> u8 list \<Rightarrow> nat \<Rightarrow> u8 list option" where
  "horizon_ws_in6_from_v4 port v4 len =
     (if len < HORIZON_SOCKADDR_IN6_SIZE then None
      else Some ([23, 0] @ take 2 port @ [0, 0, 0, 0] @ horizon_v4_to_in6 v4 @ [0, 0, 0, 0]))"

datatype ws_address = Too_short | No_ipv4 "u8 list" | Ipv4 "u8 list" "u8 list"

definition horizon_ws_in6_to_v4 :: "u8 list \<Rightarrow> nat \<Rightarrow> ws_address" where
  "horizon_ws_in6_to_v4 ws len =
     (if len < HORIZON_SOCKADDR_IN6_MIN then Too_short
      else (case horizon_in6_to_v4 (take 16 (drop 8 ws)) of
              None \<Rightarrow> No_ipv4 (take 2 (drop 2 ws))
            | Some v4 \<Rightarrow> Ipv4 (take 2 (drop 2 ws)) v4))"

lemma length_4: "length xs = 4 \<Longrightarrow> \<exists>a b c d. xs = [a, b, c, d]"
  by (auto simp: numeral_eq_Suc length_Suc_conv)

lemma v4_in6_v4:
  assumes "length v4 = 4"
  shows "horizon_in6_to_v4 (horizon_v4_to_in6 v4) = Some v4"
proof -
  from length_4 [OF assms] obtain a b c d where "v4 = [a, b, c, d]" by blast
  then show ?thesis
    by (auto simp: horizon_in6_to_v4_def horizon_v4_to_in6_def mapped_prefix_def numeral_eq_Suc)
qed

lemma in6_v4_in6:
  assumes "length in6 = 16" "horizon_in6_to_v4 in6 = Some v4"
  shows "horizon_v4_to_in6 v4 = in6 \<or> in6 = replicate 15 0 @ [1] \<or> in6 = mapped_prefix @ [0, 0, 0, 0]"
proof -
  consider (any) "take 16 in6 = replicate 16 0" "v4 = [0, 0, 0, 0]" | (mapped) "take 12 in6 = mapped_prefix" "v4 = take 4 (drop 12 in6)"
    | (loopback) "take 15 in6 = replicate 15 0" "in6 ! 15 = 1"
    using assms(2) by (auto simp: horizon_in6_to_v4_def split: if_splits)
  then show ?thesis
  proof cases
    case any
    then show ?thesis using assms(1) by (simp add: horizon_v4_to_in6_def)
  next
    case mapped
    have v4: "v4 = drop 12 in6" "length v4 = 4" using mapped(2) assms(1) by simp_all
    then have in6: "in6 = mapped_prefix @ v4" using mapped(1) append_take_drop_id [of 12 in6] by simp
    from length_4 [OF v4(2)] obtain a b c d where abcd: "v4 = [a, b, c, d]" by blast
    show ?thesis
    proof (cases "a = 0 \<and> b = 0 \<and> c = 0 \<and> d = 0")
      case True
      then show ?thesis using in6 abcd by simp
    next
      case False
      then have "horizon_v4_to_in6 v4 = replicate 10 0 @ [0xff, 0xff] @ v4" using abcd by (auto simp: horizon_v4_to_in6_def)
      then show ?thesis using in6 by (simp add: mapped_prefix_def numeral_eq_Suc)
    qed
  next
    case loopback
    have "in6 = take 15 in6 @ [in6 ! 15]" using assms(1) take_Suc_conv_app_nth [of 15 in6] by simp
    then show ?thesis using loopback by simp
  qed
qed

text \<open>
  What an IPv6 socket reports of an IPv4 peer names that peer: writing an IPv4 port and address the IPv6 way
  and reading the result gives them back, always. Of the IPv6 addresses that stand for an IPv4 one, only the
  loopback and the mapped form of the zero address are written differently when they come back.
\<close>

theorem sockaddr_roundtrip:
  assumes "length port = 2" "length v4 = 4" "28 \<le> len" "length in6 = 16" "horizon_in6_to_v4 in6 = Some peer"
  shows "(\<exists>ws. horizon_ws_in6_from_v4 port v4 len = Some ws \<and> length ws = 28 \<and>
      horizon_ws_in6_to_v4 ws (length ws) = Ipv4 port v4) \<and>
    (horizon_v4_to_in6 peer = in6 \<or> in6 = replicate 15 0 @ [1] \<or> in6 = mapped_prefix @ [0, 0, 0, 0])"
proof
  define ws where "ws = [23, 0] @ port @ [0, 0, 0, 0] @ horizon_v4_to_in6 v4 @ [0, 0, 0, 0]"
  have l: "length (horizon_v4_to_in6 v4) = 16" using assms(2) by (simp add: horizon_v4_to_in6_def)
  have "horizon_ws_in6_from_v4 port v4 len = Some ws" using assms(1,3) by (simp add: horizon_ws_in6_from_v4_def ws_def)
  moreover have "length ws = 28" using assms(1) l by (simp add: ws_def)
  moreover have "drop 8 ws = horizon_v4_to_in6 v4 @ [0, 0, 0, 0]" "take 2 (drop 2 ws) = port"
    using assms(1) by (auto simp: ws_def numeral_eq_Suc length_Suc_conv)
  ultimately show "\<exists>ws. horizon_ws_in6_from_v4 port v4 len = Some ws \<and> length ws = 28 \<and> horizon_ws_in6_to_v4 ws (length ws) = Ipv4 port v4"
    using l v4_in6_v4 [OF assms(2)] by (intro exI [of _ ws]) (simp add: horizon_ws_in6_to_v4_def)
  show "horizon_v4_to_in6 peer = in6 \<or> in6 = replicate 15 0 @ [1] \<or> in6 = mapped_prefix @ [0, 0, 0, 0]"
    by (rule in6_v4_in6 [OF assms(4,5)])
qed

theorem sockaddr_roundtrip_witness:
  "\<exists>ws. horizon_ws_in6_from_v4 [0x1f, 0x90] [192, 168, 0, 7] 64 = Some ws \<and> horizon_ws_in6_to_v4 ws (length ws) = Ipv4 [0x1f, 0x90] [192, 168, 0, 7]"
proof -
  have "horizon_in6_to_v4 (replicate 15 0 @ [1]) = Some [127, 0, 0, 1]" by code_simp
  from sockaddr_roundtrip [OF _ _ _ _ this, of "[0x1f, 0x90]" "[192, 168, 0, 7]" 64] show ?thesis by auto
qed

end
