(* ===== verification/HzMemfile.thy ===== *)
theory HzMemfile
  imports HzPrelude "HOL-Library.Multiset"
begin

text \<open>
  Memory behind sections that have no file (\<open>dlls/ntdll/unix/horizon_memfile.h\<close>). Pages of a section are
  anchored (mapped a second time) while views use them, views map their pages from the anchors, and the
  section's own mapping of an anchored page must not be touched: the kernel has locked it.

  Addresses, sizes and page numbers are natural numbers: the code checks every range against the size of the
  section before it adds. A linked list of anchors is the list in link order. What the kernel and the allocator
  answer is the record \<open>memfile_kernel\<close>; the calls that succeed are returned in their order. The bytes of the
  section are one list: its own mapping and the anchors show the same memory, and where each byte is accessed is
  returned as well. \<open>pthread_mutex\<close> makes each operation one step.
\<close>

abbreviation (input) PAGE :: nat where "PAGE \<equiv> 4096"

record horizon_memfile_anchor =
  an_first :: nat
  an_count :: nat
  an_addr :: ptr
  an_token :: ptr
  an_users :: nat

record horizon_memfile =
  mf_data :: ptr
  mf_bytes :: "u8 list"
  mf_size :: nat
  mf_pos :: int
  mf_refs :: u32
  mf_anchors :: "horizon_memfile_anchor list"
  mf_committed :: "bool list option"

record memfile_kernel =
  mk_calloc :: "nat \<Rightarrow> bool"
  mk_anchor :: "ptr \<Rightarrow> nat \<Rightarrow> (ptr \<times> ptr) option"
  mk_unanchor :: "ptr \<Rightarrow> ptr \<Rightarrow> nat \<Rightarrow> ptr \<Rightarrow> bool"
  mk_alias :: "ptr \<Rightarrow> ptr \<Rightarrow> nat \<Rightarrow> bool"
  mk_unalias :: "ptr \<Rightarrow> ptr \<Rightarrow> nat \<Rightarrow> bool"

datatype alias_call = Alias ptr ptr nat | Unalias ptr ptr nat

section \<open>Making, sharing and freeing a section\<close>

abbreviation (input) HORIZON_STATUS_INVALID_PARAMETER :: u32 where "HORIZON_STATUS_INVALID_PARAMETER \<equiv> 0xc000000d"
abbreviation (input) HORIZON_STATUS_INVALID_FILE_FOR_SECTION :: u32 where
  "HORIZON_STATUS_INVALID_FILE_FOR_SECTION \<equiv> 0xc0000020"

text \<open>The flags, or the error.\<close>

definition horizon_anonymous_section_flags :: "u32 \<Rightarrow> u32 + u32" where
  "horizon_anonymous_section_flags flags =
     (let kind = flags AND (0x01000000 OR 0x04000000 OR 0x08000000 OR 0x00800000)
      in if kind = 0x01000000
         then (if flags AND (0x40000000 OR 0x80000000) \<noteq> 0 then Inl HORIZON_STATUS_INVALID_PARAMETER
               else Inl HORIZON_STATUS_INVALID_FILE_FOR_SECTION)
         else if kind = 0x08000000 then Inr flags
         else if kind = 0x04000000
         then (if flags AND 0x80000000 \<noteq> 0 then Inl HORIZON_STATUS_INVALID_PARAMETER else Inr flags)
         else Inl HORIZON_STATUS_INVALID_PARAMETER)"

definition horizon_memfile_alloc :: "bool \<Rightarrow> ptr option \<Rightarrow> bool \<Rightarrow> u64 \<Rightarrow> bool \<Rightarrow> horizon_memfile option" where
  "horizon_memfile_alloc node pages bitmap sz reserve =
     (if sz = 0 \<or> unat sz mod PAGE \<noteq> 0 \<or> sint sz < 0 then None
      else if \<not> node then None
      else (case pages of
              None \<Rightarrow> None
            | Some data \<Rightarrow>
                if reserve \<and> \<not> bitmap then None
                else Some \<lparr>mf_data = data, mf_bytes = replicate (unat sz) 0, mf_size = unat sz, mf_pos = 0, mf_refs = 1,
                          mf_anchors = [], mf_committed = (if reserve then Some (replicate (unat sz div PAGE) False) else None)\<rparr>))"

definition horizon_memfile_ref :: "horizon_memfile \<Rightarrow> horizon_memfile" where
  "horizon_memfile_ref file = file\<lparr>mf_refs := mf_refs file + 1\<rparr>"

text \<open>What is left of the section, and whether its pages went back to the heap.\<close>

definition horizon_memfile_unref :: "horizon_memfile \<Rightarrow> horizon_memfile option \<times> bool" where
  "horizon_memfile_unref file =
     (let refs = mf_refs file - 1
      in if refs \<noteq> 0 then (Some (file\<lparr>mf_refs := refs\<rparr>), False) else (None, mf_anchors file = []))"

definition horizon_memfile_range_valid :: "horizon_memfile \<Rightarrow> nat \<Rightarrow> nat \<Rightarrow> bool" where
  "horizon_memfile_range_valid file offset sz \<longleftrightarrow>
     sz \<noteq> 0 \<and> offset mod PAGE = 0 \<and> sz mod PAGE = 0 \<and> offset \<le> mf_size file \<and> sz \<le> mf_size file - offset"

section \<open>Anchors\<close>

abbreviation an_end :: "horizon_memfile_anchor \<Rightarrow> nat" where "an_end a \<equiv> an_first a + an_count a"

definition horizon_memfile_trim_locked :: "memfile_kernel \<Rightarrow> horizon_memfile \<Rightarrow> horizon_memfile" where
  "horizon_memfile_trim_locked k file =
     file\<lparr>mf_anchors := filter (\<lambda>a. an_users a \<noteq> 0 \<or>
        \<not> mk_unanchor k (an_addr a) (mf_data file + an_first a * PAGE) (an_count a * PAGE) (an_token a)) (mf_anchors file)\<rparr>"

text \<open>A new anchor of the pages from \<open>page\<close> to \<open>stop\<close>, when there is memory and the kernel agrees.\<close>

definition new_anchor :: "memfile_kernel \<Rightarrow> ptr \<Rightarrow> nat \<Rightarrow> nat \<Rightarrow> horizon_memfile_anchor option" where
  "new_anchor k data page stop =
     (if \<not> mk_calloc k page then None
      else (case mk_anchor k (data + page * PAGE) ((stop - page) * PAGE) of
              None \<Rightarrow> None
            | Some (addr, token) \<Rightarrow>
                Some \<lparr>an_first = page, an_count = stop - page, an_addr = addr, an_token = token, an_users = 0\<rparr>))"

text \<open>The walk along the list, from the link \<open>next\<close> on: whether it came to \<open>limit\<close>, and the list from there.\<close>

function (sequential) anchor_walk ::
    "memfile_kernel \<Rightarrow> ptr \<Rightarrow> horizon_memfile_anchor list \<Rightarrow> nat \<Rightarrow> nat \<Rightarrow> bool \<times> horizon_memfile_anchor list" where
  "anchor_walk k data [] page limit =
     (if page < limit
      then (case new_anchor k data page limit of None \<Rightarrow> (False, []) | Some a \<Rightarrow> (True, [a]))
      else (True, []))"
| "anchor_walk k data (a # as) page limit =
     (if \<not> page < limit then (True, a # as)
      else if an_end a \<le> page then (case anchor_walk k data as page limit of (r, bs) \<Rightarrow> (r, a # bs))
      else if an_first a \<le> page then (case anchor_walk k data as (an_end a) limit of (r, bs) \<Rightarrow> (r, a # bs))
      else (let stop = (if an_first a < limit then an_first a else limit)
            in case new_anchor k data page stop of
                 None \<Rightarrow> (False, a # as)
               | Some b \<Rightarrow> (case anchor_walk k data (a # as) stop limit of (r, bs) \<Rightarrow> (r, b # bs))))"
  by pat_completeness auto
termination
  by (relation "measure (\<lambda>(k, data, as, page, limit). length as + (limit - page))") auto

declare anchor_walk.simps [simp del]

definition horizon_memfile_anchor_locked ::
    "memfile_kernel \<Rightarrow> horizon_memfile \<Rightarrow> nat \<Rightarrow> nat \<Rightarrow> bool \<times> horizon_memfile" where
  "horizon_memfile_anchor_locked k file page limit =
     (case anchor_walk k (mf_data file) (mf_anchors file) page limit of (r, as) \<Rightarrow> (r, file\<lparr>mf_anchors := as\<rparr>))"

section \<open>Views\<close>

text \<open>The pages \<open>[page, limit)\<close> mapped at \<open>dst\<close> (or unmapped), piece by piece: the first page not handled.\<close>

fun alias_walk ::
    "memfile_kernel \<Rightarrow> bool \<Rightarrow> ptr \<Rightarrow> nat \<Rightarrow> horizon_memfile_anchor list \<Rightarrow> nat \<Rightarrow> nat \<Rightarrow> nat \<times> alias_call list" where
  "alias_walk k mapping dst base [] page limit = (page, [])"
| "alias_walk k mapping dst base (a # as) page limit =
     (if \<not> page < limit then (page, [])
      else if an_end a \<le> page then alias_walk k mapping dst base as page limit
      else if an_first a > page then (page, [])
      else (let stop = (if an_end a < limit then an_end a else limit);
                src = an_addr a + (page - an_first a) * PAGE;
                at = dst + (page - base) * PAGE;
                sz = (stop - page) * PAGE
            in if \<not> (if mapping then mk_alias k at src sz else mk_unalias k at src sz) then (page, [])
               else (case alias_walk k mapping dst base as stop limit of
                       (done, calls) \<Rightarrow> (done, (if mapping then Alias at src sz else Unalias at src sz) # calls))))"

definition horizon_memfile_alias_range_locked ::
    "memfile_kernel \<Rightarrow> horizon_memfile \<Rightarrow> ptr \<Rightarrow> nat \<Rightarrow> nat \<Rightarrow> bool \<Rightarrow> bool \<times> nat \<times> alias_call list" where
  "horizon_memfile_alias_range_locked k file dst page limit mapping =
     (case alias_walk k mapping dst page (mf_anchors file) page limit of (done, calls) \<Rightarrow> (done = limit, done, calls))"

definition horizon_memfile_alias_locked ::
    "memfile_kernel \<Rightarrow> horizon_memfile \<Rightarrow> ptr \<Rightarrow> nat \<Rightarrow> nat \<Rightarrow> bool \<Rightarrow> bool \<times> alias_call list" where
  "horizon_memfile_alias_locked k file dst page limit mapping =
     (case horizon_memfile_alias_range_locked k file dst page limit mapping of
        (ok, done, calls) \<Rightarrow>
          if ok then (True, calls)
          else (case horizon_memfile_alias_range_locked k file dst page done (\<not> mapping) of
                  (_, undone, back) \<Rightarrow> (False, calls @ back)))"

fun use_walk :: "horizon_memfile_anchor list \<Rightarrow> nat \<Rightarrow> nat \<Rightarrow> int \<Rightarrow> horizon_memfile_anchor list" where
  "use_walk [] page limit delta = []"
| "use_walk (a # as) page limit delta =
     (if \<not> an_first a < limit then a # as
      else if an_end a \<le> page then a # use_walk as page limit delta
      else a\<lparr>an_users := (if delta > 0 then an_users a + 1 else an_users a - 1)\<rparr> # use_walk as page limit delta)"

definition horizon_memfile_use_locked :: "horizon_memfile \<Rightarrow> nat \<Rightarrow> nat \<Rightarrow> int \<Rightarrow> horizon_memfile" where
  "horizon_memfile_use_locked file page limit delta = file\<lparr>mf_anchors := use_walk (mf_anchors file) page limit delta\<rparr>"

definition horizon_memfile_map ::
    "memfile_kernel \<Rightarrow> horizon_memfile \<Rightarrow> ptr \<Rightarrow> nat \<Rightarrow> nat \<Rightarrow> bool \<times> alias_call list \<times> horizon_memfile" where
  "horizon_memfile_map k file dst offset sz =
     (if \<not> horizon_memfile_range_valid file offset sz then (False, [], file)
      else (let page = offset div PAGE; limit = page + sz div PAGE
            in case horizon_memfile_anchor_locked k file page limit of
                 (ok, file1) \<Rightarrow>
                   if \<not> ok then (False, [], horizon_memfile_trim_locked k file1)
                   else (case horizon_memfile_alias_locked k file1 dst page limit True of
                           (ok, calls) \<Rightarrow>
                             if ok then (True, calls, horizon_memfile_use_locked file1 page limit 1)
                             else (False, calls, horizon_memfile_trim_locked k file1))))"

definition horizon_memfile_alias ::
    "memfile_kernel \<Rightarrow> horizon_memfile \<Rightarrow> ptr \<Rightarrow> nat \<Rightarrow> nat \<Rightarrow> bool \<Rightarrow> bool \<times> alias_call list" where
  "horizon_memfile_alias k file dst offset sz mapping =
     (if \<not> horizon_memfile_range_valid file offset sz then (False, [])
      else (let page = offset div PAGE in horizon_memfile_alias_locked k file dst page (page + sz div PAGE) mapping))"

definition horizon_memfile_use :: "memfile_kernel \<Rightarrow> horizon_memfile \<Rightarrow> nat \<Rightarrow> nat \<Rightarrow> int \<Rightarrow> horizon_memfile" where
  "horizon_memfile_use k file offset sz delta =
     (if \<not> horizon_memfile_range_valid file offset sz then file
      else (let page = offset div PAGE;
                file1 = horizon_memfile_use_locked file page (page + sz div PAGE) delta
            in if delta < 0 then horizon_memfile_trim_locked k file1 else file1))"

section \<open>Reading and writing\<close>

text \<open>The pieces of a copy: the address each starts at, and its length. Its callers never ask for bytes behind the
  end of the section, \<open>limit\<close>.\<close>

function (sequential) copy_walk :: "ptr \<Rightarrow> nat \<Rightarrow> horizon_memfile_anchor list \<Rightarrow> nat \<Rightarrow> nat \<Rightarrow> (ptr \<times> nat) list" where
  "copy_walk data limit [] offset len =
     (if len = 0 \<or> limit \<le> offset then []
      else (let chunk = min (limit - offset) len in (data + offset, chunk) # copy_walk data limit [] (offset + chunk) (len - chunk)))"
| "copy_walk data limit (a # as) offset len =
     (if len = 0 then []
      else if an_end a \<le> offset div PAGE then copy_walk data limit as offset len
      else if an_first a \<le> offset div PAGE
      then (let chunk = min (an_end a * PAGE - offset) len
            in (an_addr a + (offset - an_first a * PAGE), chunk) # copy_walk data limit as (offset + chunk) (len - chunk))
      else (let chunk = min (an_first a * PAGE - offset) len
            in (data + offset, chunk) # copy_walk data limit (a # as) (offset + chunk) (len - chunk)))"
  by pat_completeness auto
termination
  by (relation "measure (\<lambda>(data, limit, as, offset, len). length as + len)") (auto simp: less_mult_imp_div_less)

declare copy_walk.simps [simp del]

text \<open>The addresses of the bytes a copy touches, in their order.\<close>

definition horizon_memfile_copy_locked :: "horizon_memfile \<Rightarrow> nat \<Rightarrow> nat \<Rightarrow> ptr list" where
  "horizon_memfile_copy_locked file offset len =
     concat (map (\<lambda>(p, n). [p..<p + n]) (copy_walk (mf_data file) (mf_size file) (mf_anchors file) offset len))"

record memfile_io =
  io_result :: int
  io_places :: "ptr list"
  io_bytes :: "u8 list"

abbreviation (input) EINVAL :: int where "EINVAL \<equiv> 22"
abbreviation (input) ENOSPC :: int where "ENOSPC \<equiv> 28"

definition io_error :: "int \<Rightarrow> memfile_io" where
  "io_error r = \<lparr>io_result = r, io_places = [], io_bytes = []\<rparr>"

definition horizon_memfile_pread_locked :: "horizon_memfile \<Rightarrow> nat \<Rightarrow> int \<Rightarrow> memfile_io" where
  "horizon_memfile_pread_locked file len offset =
     (if offset < 0 then io_error (- EINVAL)
      else if nat offset \<ge> mf_size file then io_error 0
      else (let n = (if mf_size file - nat offset > len then len else mf_size file - nat offset)
            in \<lparr>io_result = int n, io_places = horizon_memfile_copy_locked file (nat offset) n,
                io_bytes = take n (drop (nat offset) (mf_bytes file))\<rparr>))"

definition put_bytes :: "nat \<Rightarrow> u8 list \<Rightarrow> u8 list \<Rightarrow> u8 list" where
  "put_bytes offset new bs = take offset bs @ new @ drop (offset + length new) bs"

definition horizon_memfile_pwrite_locked :: "horizon_memfile \<Rightarrow> u8 list \<Rightarrow> int \<Rightarrow> memfile_io \<times> horizon_memfile" where
  "horizon_memfile_pwrite_locked file buffer offset =
     (if offset < 0 then (io_error (- EINVAL), file)
      else if length buffer = 0 then (io_error 0, file)
      else if nat offset \<ge> mf_size file then (io_error (- ENOSPC), file)
      else (let n = (if mf_size file - nat offset > length buffer then length buffer else mf_size file - nat offset)
            in (\<lparr>io_result = int n, io_places = horizon_memfile_copy_locked file (nat offset) n, io_bytes = take n buffer\<rparr>,
                file\<lparr>mf_bytes := put_bytes (nat offset) (take n buffer) (mf_bytes file)\<rparr>)))"

definition horizon_memfile_pread :: "horizon_memfile \<Rightarrow> nat \<Rightarrow> int \<Rightarrow> memfile_io" where
  "horizon_memfile_pread file len offset = horizon_memfile_pread_locked file len offset"

definition horizon_memfile_pwrite :: "horizon_memfile \<Rightarrow> u8 list \<Rightarrow> int \<Rightarrow> memfile_io \<times> horizon_memfile" where
  "horizon_memfile_pwrite file buffer offset = horizon_memfile_pwrite_locked file buffer offset"

definition horizon_memfile_read :: "horizon_memfile \<Rightarrow> nat \<Rightarrow> memfile_io \<times> horizon_memfile" where
  "horizon_memfile_read file len =
     (let r = horizon_memfile_pread_locked file len (mf_pos file)
      in (r, if io_result r > 0 then file\<lparr>mf_pos := mf_pos file + io_result r\<rparr> else file))"

definition horizon_memfile_write :: "horizon_memfile \<Rightarrow> u8 list \<Rightarrow> memfile_io \<times> horizon_memfile" where
  "horizon_memfile_write file buffer =
     (case horizon_memfile_pwrite_locked file buffer (mf_pos file) of
        (r, file1) \<Rightarrow> (r, if io_result r > 0 then file1\<lparr>mf_pos := mf_pos file + io_result r\<rparr> else file1))"

datatype whence = SEEK_SET | SEEK_CUR | SEEK_END | SEEK_other

definition horizon_memfile_seek :: "horizon_memfile \<Rightarrow> int \<Rightarrow> whence \<Rightarrow> int \<times> horizon_memfile" where
  "horizon_memfile_seek file offset whence =
     (let max_off = 2 ^ 63 - 1;
          go = (\<lambda>base. if offset > 0 \<and> base > max_off - offset \<or> base + offset < 0 then (- EINVAL, file)
                       else (base + offset, file\<lparr>mf_pos := base + offset\<rparr>))
      in case whence of
           SEEK_SET \<Rightarrow> go 0 | SEEK_CUR \<Rightarrow> go (mf_pos file) | SEEK_END \<Rightarrow> go (int (mf_size file))
         | SEEK_other \<Rightarrow> (- EINVAL, file))"

definition horizon_memfile_truncate :: "horizon_memfile \<Rightarrow> int \<Rightarrow> int" where
  "horizon_memfile_truncate file len = (if len = int (mf_size file) then 0 else - EINVAL)"

section \<open>Committed pages\<close>

text \<open>\<open>for (pos += page; pos < end && committed[pos / page] == c; pos += page) ;\<close> where it stops, in pages.\<close>

function committed_walk :: "bool list \<Rightarrow> bool \<Rightarrow> nat \<Rightarrow> nat \<Rightarrow> nat" where
  "committed_walk bs c pos limit =
     (if pos < limit \<and> bs ! (pos div PAGE) = c then committed_walk bs c (pos + PAGE) limit else pos)"
  by pat_completeness auto
termination
  by (relation "measure (\<lambda>(bs, c, pos, limit). limit - pos)") auto

declare committed_walk.simps [simp del]

text \<open>The status, or the size of the range and whether it is committed.\<close>

definition horizon_memfile_committed_range ::
    "horizon_memfile \<Rightarrow> nat \<Rightarrow> nat \<Rightarrow> nat \<Rightarrow> u32 + nat \<times> bool" where
  "horizon_memfile_committed_range file start view_size offset =
     (if offset mod PAGE \<noteq> 0 \<or> offset \<ge> view_size then Inl HORIZON_STATUS_INVALID_PARAMETER
      else (case mf_committed file of
              None \<Rightarrow> Inr (view_size - offset, True)
            | Some bs \<Rightarrow>
                (let c = bs ! ((start + offset) div PAGE);
                     pos = committed_walk bs c (start + offset + PAGE) (start + view_size)
                 in Inr (min pos (start + view_size) - (start + offset), c))))"

definition commit_pages :: "nat \<Rightarrow> nat \<Rightarrow> bool list \<Rightarrow> bool list" where
  "commit_pages first_page limit bs = map (\<lambda>i. if first_page \<le> i \<and> i < limit then True else bs ! i) [0..<length bs]"

definition horizon_memfile_add_committed ::
    "horizon_memfile \<Rightarrow> nat \<Rightarrow> u64 \<Rightarrow> u64 \<Rightarrow> u64 \<Rightarrow> u32 \<times> horizon_memfile" where
  "horizon_memfile_add_committed file start view_size offset sz =
     (let stop = offset + sz
      in if unat offset mod PAGE \<noteq> 0 \<or> unat stop mod PAGE \<noteq> 0 \<or> offset \<ge> view_size \<or> stop > view_size \<or> offset \<ge> stop
         then (HORIZON_STATUS_INVALID_PARAMETER, file)
         else (case mf_committed file of
                 None \<Rightarrow> (0, file)
               | Some bs \<Rightarrow> (0, file\<lparr>mf_committed :=
                   Some (commit_pages ((start + unat offset) div PAGE) ((start + unat stop) div PAGE) bs)\<rparr>)))"

section \<open>The invariant\<close>

text \<open>The anchors lie in page order from \<open>lo\<close> on, do not overlap and are not empty.\<close>

fun anchors_ok :: "nat \<Rightarrow> nat \<Rightarrow> horizon_memfile_anchor list \<Rightarrow> bool" where
  "anchors_ok lo n [] \<longleftrightarrow> lo \<le> n"
| "anchors_ok lo n (a # as) \<longleftrightarrow> lo \<le> an_first a \<and> 0 < an_count a \<and> anchors_ok (an_end a) n as"

definition anchored :: "horizon_memfile_anchor \<Rightarrow> nat \<Rightarrow> bool" where
  "anchored a p \<longleftrightarrow> an_first a \<le> p \<and> p < an_end a"

definition covered :: "horizon_memfile_anchor list \<Rightarrow> nat \<Rightarrow> bool" where
  "covered as p \<longleftrightarrow> (\<exists>a\<in>set as. anchored a p)"

definition file_inv :: "horizon_memfile \<Rightarrow> bool" where
  "file_inv file \<longleftrightarrow> mf_size file mod PAGE = 0 \<and> length (mf_bytes file) = mf_size file \<and>
     anchors_ok 0 (mf_size file div PAGE) (mf_anchors file) \<and>
     (\<forall>bs. mf_committed file = Some bs \<longrightarrow> length bs = mf_size file div PAGE)"

lemma anchors_ok_mono: "anchors_ok lo n as \<Longrightarrow> lo' \<le> lo \<Longrightarrow> anchors_ok lo' n as"
  by (cases as) auto

lemma anchors_ok_bounds: "anchors_ok lo n as \<Longrightarrow> a \<in> set as \<Longrightarrow> lo \<le> an_first a \<and> an_end a \<le> n \<and> 0 < an_count a"
proof (induction as arbitrary: lo)
  case (Cons b as)
  have "lo' \<le> n" if "anchors_ok lo' n as" for lo' using that by (induction as arbitrary: lo') fastforce+
  with Cons show ?case by fastforce
qed simp

lemma anchors_ok_filter: "anchors_ok lo n as \<Longrightarrow> anchors_ok lo n (filter P as)"
proof (induction as arbitrary: lo)
  case (Cons a as)
  then have "anchors_ok (an_end a) n (filter P as)" by simp
  then show ?case using Cons.prems by (auto intro: anchors_ok_mono)
qed simp

lemma covered_Cons [simp]: "covered (a # as) p \<longleftrightarrow> anchored a p \<or> covered as p"
  by (auto simp: covered_def)

lemma covered_lo: "anchors_ok lo n as \<Longrightarrow> covered as p \<Longrightarrow> lo \<le> p"
  by (auto simp: covered_def anchored_def dest!: anchors_ok_bounds)

lemma new_anchor_fields:
  "new_anchor k data page stop = Some b \<Longrightarrow> an_first b = page \<and> an_count b = stop - page \<and> an_users b = 0"
  by (auto simp: new_anchor_def split: if_splits option.splits)

lemma anchor_walk_spec:
  assumes "anchors_ok lo n as" "lo \<le> page" "limit \<le> n" "anchor_walk k data as page limit = (r, bs)"
  shows "anchors_ok lo n bs \<and> set as \<subseteq> set bs \<and>
    (\<forall>b\<in>set bs. b \<in> set as \<or> an_users b = 0 \<and> (\<forall>p. anchored b p \<longrightarrow> page \<le> p \<and> p < limit \<and> \<not> covered as p)) \<and>
    (r \<longrightarrow> (\<forall>p. page \<le> p \<and> p < limit \<longrightarrow> covered bs p))"
  using assms
proof (induction k data as page limit arbitrary: lo r bs rule: anchor_walk.induct)
  case (1 k data page limit)
  then show ?case
    by (auto simp: anchor_walk.simps covered_def anchored_def split: if_splits option.splits dest!: new_anchor_fields)
next
  case (2 k data a as page limit)
  have a: "lo \<le> an_first a" "0 < an_count a" "anchors_ok (an_end a) n as" using "2.prems"(1) by simp_all
  show ?case
  proof (cases "page < limit")
    case False
    then show ?thesis using "2.prems" by (auto simp: anchor_walk.simps)
  next
    case lt: True
    consider (past) "an_end a \<le> page" | (inside) "an_first a \<le> page" "page < an_end a" | (gap) "page < an_first a" "page < an_end a" by linarith
    then show ?thesis
    proof cases
      case past
      obtain bs0 where bs: "anchor_walk k data as page limit = (r, bs0)" "bs = a # bs0"
        using "2.prems"(4) lt past by (auto simp: anchor_walk.simps(2) [of k data a as page] split: prod.splits)
      have ih: "anchors_ok (an_end a) n bs0 \<and> set as \<subseteq> set bs0 \<and>
          (\<forall>b\<in>set bs0. b \<in> set as \<or> an_users b = 0 \<and> (\<forall>p. anchored b p \<longrightarrow> page \<le> p \<and> p < limit \<and> \<not> covered as p)) \<and>
          (r \<longrightarrow> (\<forall>p. page \<le> p \<and> p < limit \<longrightarrow> covered bs0 p))"
        using "2.IH"(1) [OF _ past a(3) past "2.prems"(3) bs(1)] lt by auto
      show ?thesis using ih a past bs(2) by (fastforce simp: anchored_def)
    next
      case inside
      obtain bs0 where bs: "anchor_walk k data as (an_end a) limit = (r, bs0)" "bs = a # bs0"
        using "2.prems"(4) lt inside by (auto simp: anchor_walk.simps(2) [of k data a as page] split: prod.splits)
      have ih: "anchors_ok (an_end a) n bs0 \<and> set as \<subseteq> set bs0 \<and>
          (\<forall>b\<in>set bs0. b \<in> set as \<or> an_users b = 0 \<and> (\<forall>p. anchored b p \<longrightarrow> an_end a \<le> p \<and> p < limit \<and> \<not> covered as p)) \<and>
          (r \<longrightarrow> (\<forall>p. an_end a \<le> p \<and> p < limit \<longrightarrow> covered bs0 p))"
        using "2.IH"(2) [OF _ _ _ a(3) _ "2.prems"(3) bs(1)] lt inside by auto
      have na: "\<not> anchored a p" if "an_end a \<le> p" for p using that by (simp add: anchored_def)
      have old: "c \<in> set (a # as) \<or> an_users c = 0 \<and> (\<forall>p. anchored c p \<longrightarrow> page \<le> p \<and> p < limit \<and> \<not> covered (a # as) p)"
        if "c \<in> set bs0" for c
      proof (cases "c \<in> set as")
        case False
        then have c: "an_users c = 0" "\<And>p. anchored c p \<Longrightarrow> an_end a \<le> p \<and> p < limit \<and> \<not> covered as p" using ih that by blast+
        have "page \<le> p \<and> p < limit \<and> \<not> covered (a # as) p" if "anchored c p" for p
          using c(2) [OF that] na [of p] inside(2) by auto
        then show ?thesis using c(1) by blast
      qed simp
      have cov: "covered (a # bs0) p" if r "page \<le> p" "p < limit" for p
        using ih inside(1) that by (cases "p < an_end a") (auto simp: anchored_def)
      show ?thesis using ih a old cov unfolding bs(2) by auto
    next
      case gap
      define stop where "stop = (if an_first a < limit then an_first a else limit)"
      have st: "page < stop" "stop \<le> limit" "stop \<le> an_first a" using gap lt by (auto simp: stop_def)
      have ok: "anchors_ok stop n (a # as)" using a st(3) by simp
      show ?thesis
      proof (cases "new_anchor k data page stop")
        case None
        then have "bs = a # as" "\<not> r" using "2.prems"(4) lt gap by (auto simp: anchor_walk.simps(2) [of k data a as page] stop_def [symmetric] Let_def)
        then show ?thesis using "2.prems"(1) by auto
      next
        case (Some b)
        obtain bs0 where bs: "anchor_walk k data (a # as) stop limit = (r, bs0)" "bs = b # bs0"
          using "2.prems"(4) lt gap Some by (auto simp: anchor_walk.simps(2) [of k data a as page] stop_def [symmetric] Let_def split: prod.splits)
        have b: "an_first b = page" "an_end b = stop" "0 < an_count b" "an_users b = 0" using new_anchor_fields [OF Some] st by simp_all
        have ih: "anchors_ok stop n bs0 \<and> set (a # as) \<subseteq> set bs0 \<and>
            (\<forall>b\<in>set bs0. b \<in> set (a # as) \<or> an_users b = 0 \<and> (\<forall>p. anchored b p \<longrightarrow> stop \<le> p \<and> p < limit \<and> \<not> covered (a # as) p)) \<and>
            (r \<longrightarrow> (\<forall>p. stop \<le> p \<and> p < limit \<longrightarrow> covered bs0 p))"
          using "2.IH"(3) [OF _ _ _ stop_def Some ok _ "2.prems"(3) bs(1)] lt gap by auto
        have un: "\<not> covered (a # as) p" if "p < stop" for p using covered_lo [OF ok, of p] that by auto
        have "anchors_ok lo n (b # bs0)" using ih b "2.prems"(2) by simp
        moreover have "\<forall>p. anchored b p \<longrightarrow> page \<le> p \<and> p < limit \<and> \<not> covered (a # as) p"
          using b st un by (auto simp: anchored_def)
        moreover have "covered (b # bs0) p" if "r" "page \<le> p" "p < limit" for p
          using ih b that by (cases "p < stop") (auto simp: anchored_def)
        moreover have "\<forall>c\<in>set bs0. c \<in> set (a # as) \<or> an_users c = 0 \<and> (\<forall>p. anchored c p \<longrightarrow> page \<le> p \<and> p < limit \<and> \<not> covered (a # as) p)"
          using ih st(1) by fastforce
        ultimately show ?thesis using ih b(4) unfolding bs(2) by auto
      qed
    qed
  qed
qed

section \<open>View ranges and the anchors they use\<close>

definition overlaps :: "horizon_memfile_anchor \<Rightarrow> nat \<times> nat \<Rightarrow> bool" where
  "overlaps a r \<longleftrightarrow> an_first a < snd r \<and> fst r < an_end a"

lemma use_walk_map:
  "anchors_ok lo n as \<Longrightarrow> use_walk as page limit delta =
     map (\<lambda>a. if overlaps a (page, limit) then a\<lparr>an_users := (if delta > 0 then an_users a + 1 else an_users a - 1)\<rparr> else a) as"
proof (induction as arbitrary: lo)
  case (Cons a as)
  show ?case
  proof (cases "an_first a < limit")
    case True
    then show ?thesis using Cons by (auto simp: overlaps_def)
  next
    case False
    have "\<not> overlaps b (page, limit)" if "b \<in> set (a # as)" for b
      using anchors_ok_bounds [of "an_first a" n "a # as" b] Cons.prems that False by (auto simp: overlaps_def)
    then have "map (\<lambda>a. if overlaps a (page, limit) then a\<lparr>an_users := (if delta > 0 then an_users a + 1 else an_users a - 1)\<rparr> else a) (a # as) = a # as"
      by (intro map_idI) auto
    then show ?thesis using False by simp
  qed
qed simp

text \<open>Reads, writes, seeks and commits on the file, which leave size and anchors alone.\<close>

datatype memfile_op =
    Op_read nat
  | Op_write "u8 list"
  | Op_pwrite "u8 list" int
  | Op_seek int whence
  | Op_commit nat u64 u64 u64
  | Op_ref

fun io_step :: "memfile_op \<Rightarrow> horizon_memfile \<Rightarrow> horizon_memfile" where
  "io_step (Op_read len) file = snd (horizon_memfile_read file len)"
| "io_step (Op_write buffer) file = snd (horizon_memfile_write file buffer)"
| "io_step (Op_pwrite buffer offset) file = snd (horizon_memfile_pwrite file buffer offset)"
| "io_step (Op_seek offset whence) file = snd (horizon_memfile_seek file offset whence)"
| "io_step (Op_commit start view_size offset sz) file = snd (horizon_memfile_add_committed file start view_size offset sz)"
| "io_step Op_ref file = horizon_memfile_ref file"

lemma length_put_bytes [simp]: "offset + length new \<le> length bs \<Longrightarrow> length (put_bytes offset new bs) = length bs"
  by (simp add: put_bytes_def)

lemma pwrite_keeps:
  assumes "file_inv file"
  shows "file_inv (snd (horizon_memfile_pwrite_locked file buffer offset)) \<and>
    mf_anchors (snd (horizon_memfile_pwrite_locked file buffer offset)) = mf_anchors file \<and>
    mf_size (snd (horizon_memfile_pwrite_locked file buffer offset)) = mf_size file"
  using assms by (auto simp: horizon_memfile_pwrite_locked_def file_inv_def Let_def)

lemma io_step_keeps:
  assumes "file_inv file"
  shows "file_inv (io_step io file) \<and> mf_anchors (io_step io file) = mf_anchors file \<and> mf_size (io_step io file) = mf_size file"
proof (cases io)
  case (Op_write buffer)
  obtain r file1 where w: "horizon_memfile_pwrite_locked file buffer (mf_pos file) = (r, file1)" by fastforce
  show ?thesis using pwrite_keeps [OF assms, of buffer "mf_pos file"] w Op_write assms
    by (simp add: horizon_memfile_write_def file_inv_def)
next
  case (Op_pwrite buffer offset)
  then show ?thesis using pwrite_keeps [OF assms] by (simp add: horizon_memfile_pwrite_def)
next
  case (Op_seek offset whence)
  then show ?thesis using assms by (cases whence) (auto simp: horizon_memfile_seek_def file_inv_def Let_def)
next
  case (Op_commit start view_size offset sz)
  then show ?thesis using assms
    by (auto simp: horizon_memfile_add_committed_def file_inv_def commit_pages_def Let_def split: option.splits)
qed (use assms in \<open>simp_all add: horizon_memfile_read_def horizon_memfile_ref_def file_inv_def Let_def\<close>)

text \<open>The ranges of pages that views show, as first page and limit, with the file.\<close>

record memfile_views =
  mv_file :: horizon_memfile
  mv_ranges :: "(nat \<times> nat) list"

datatype views_op =
    View_map memfile_kernel ptr nat nat
  | View_use memfile_kernel nat nat
  | View_drop memfile_kernel nat
  | View_io memfile_op

definition page_range :: "nat \<Rightarrow> nat \<Rightarrow> nat \<times> nat" where
  "page_range offset sz = (offset div PAGE, offset div PAGE + sz div PAGE)"

fun views_step :: "memfile_views \<Rightarrow> views_op \<Rightarrow> memfile_views" where
  "views_step s (View_map k dst offset sz) =
     (case horizon_memfile_map k (mv_file s) dst offset sz of
        (ok, calls, file) \<Rightarrow> \<lparr>mv_file = file, mv_ranges = (if ok then page_range offset sz # mv_ranges s else mv_ranges s)\<rparr>)"
| "views_step s (View_use k offset sz) =
     \<lparr>mv_file = horizon_memfile_use k (mv_file s) offset sz 1, mv_ranges = page_range offset sz # mv_ranges s\<rparr>"
| "views_step s (View_drop k i) =
     (case mv_ranges s ! i of
        (p, l) \<Rightarrow> \<lparr>mv_file = horizon_memfile_use k (mv_file s) (p * PAGE) ((l - p) * PAGE) (- 1), mv_ranges = remove_at i (mv_ranges s)\<rparr>)"
| "views_step s (View_io io) = s\<lparr>mv_file := io_step io (mv_file s)\<rparr>"

text \<open>
  A caller counts a range again only when its pages are anchored (it splits a range it has), and stops
  counting a range it counted.
\<close>

fun views_ok :: "memfile_views \<Rightarrow> views_op \<Rightarrow> bool" where
  "views_ok s (View_map k dst offset sz) = True"
| "views_ok s (View_use k offset sz) =
     (horizon_memfile_range_valid (mv_file s) offset sz \<and>
      (\<forall>p\<in>{fst (page_range offset sz)..<snd (page_range offset sz)}. covered (mf_anchors (mv_file s)) p))"
| "views_ok s (View_drop k i) = (i < length (mv_ranges s))"
| "views_ok s (View_io io) = True"

definition users_of :: "horizon_memfile_anchor \<Rightarrow> (nat \<times> nat) list \<Rightarrow> nat" where
  "users_of a rs = length (filter (overlaps a) rs)"

definition views_inv :: "memfile_views \<Rightarrow> bool" where
  "views_inv s \<longleftrightarrow> file_inv (mv_file s) \<and>
     (\<forall>(p, l)\<in>set (mv_ranges s). p < l \<and> l \<le> mf_size (mv_file s) div PAGE \<and> (\<forall>q. p \<le> q \<and> q < l \<longrightarrow> covered (mf_anchors (mv_file s)) q)) \<and>
     (\<forall>a\<in>set (mf_anchors (mv_file s)). an_users a = users_of a (mv_ranges s))"

lemma range_valid_pages:
  assumes "horizon_memfile_range_valid file offset sz" "file_inv file"
  shows "fst (page_range offset sz) < snd (page_range offset sz)" "snd (page_range offset sz) \<le> mf_size file div PAGE"
proof -
  from assms obtain a b c where d: "offset = a * PAGE" "sz = b * PAGE" "mf_size file = c * PAGE" "0 < b"
    by (auto simp: horizon_memfile_range_valid_def file_inv_def elim!: dvdE)
  have "offset + sz \<le> mf_size file" using assms(1) by (auto simp: horizon_memfile_range_valid_def)
  then show "fst (page_range offset sz) < snd (page_range offset sz)" "snd (page_range offset sz) \<le> mf_size file div PAGE"
    using d by (auto simp: page_range_def)
qed

lemma range_valid_of_pages:
  assumes "p < l" "l \<le> mf_size file div PAGE" "file_inv file"
  shows "horizon_memfile_range_valid file (p * PAGE) ((l - p) * PAGE)" "page_range (p * PAGE) ((l - p) * PAGE) = (p, l)"
proof -
  obtain c where c: "mf_size file = c * PAGE" using assms(3) by (auto simp: file_inv_def elim!: dvdE)
  then show "horizon_memfile_range_valid file (p * PAGE) ((l - p) * PAGE)" using assms by (auto simp: horizon_memfile_range_valid_def)
  show "page_range (p * PAGE) ((l - p) * PAGE) = (p, l)" using assms(1) by (simp add: page_range_def)
qed

lemma anchors_ok_users: "anchors_ok lo n (map (\<lambda>a. if P a then a\<lparr>an_users := f a\<rparr> else a) as) = anchors_ok lo n as"
  by (induction as arbitrary: lo) auto

lemma covered_users: "covered (map (\<lambda>a. if P a then a\<lparr>an_users := f a\<rparr> else a) as) p = covered as p"
  by (induction as) (auto simp: covered_def anchored_def)

lemma overlaps_users [simp]: "overlaps (a\<lparr>an_users := n\<rparr>) = overlaps a" "users_of (a\<lparr>an_users := n\<rparr>) rs = users_of a rs"
proof -
  show "overlaps (a\<lparr>an_users := n\<rparr>) = overlaps a" by (simp add: overlaps_def fun_eq_iff)
  then show "users_of (a\<lparr>an_users := n\<rparr>) rs = users_of a rs" by (simp add: users_of_def)
qed

text \<open>Counting a range once more, or once less.\<close>

lemma use_locked_inv:
  fixes page limit :: nat and delta :: int
  assumes inv: "file_inv file"
  defines "file' \<equiv> horizon_memfile_use_locked file page limit delta"
  shows "file_inv file'" "covered (mf_anchors file') p = covered (mf_anchors file) p" "mf_size file' = mf_size file"
    "a' \<in> set (mf_anchors file') \<Longrightarrow> \<exists>a\<in>set (mf_anchors file).
       a' = (if overlaps a (page, limit) then a\<lparr>an_users := (if delta > 0 then an_users a + 1 else an_users a - 1)\<rparr> else a)"
proof -
  have ok: "anchors_ok 0 (mf_size file div PAGE) (mf_anchors file)" using inv by (simp add: file_inv_def)
  note u = use_walk_map [OF ok, of page limit delta]
  show "file_inv file'" using inv by (simp add: file'_def horizon_memfile_use_locked_def u file_inv_def anchors_ok_users)
  show "covered (mf_anchors file') p = covered (mf_anchors file) p" "mf_size file' = mf_size file"
    by (simp_all add: file'_def horizon_memfile_use_locked_def u covered_users)
  show "a' \<in> set (mf_anchors file') \<Longrightarrow> \<exists>a\<in>set (mf_anchors file).
       a' = (if overlaps a (page, limit) then a\<lparr>an_users := (if delta > 0 then an_users a + 1 else an_users a - 1)\<rparr> else a)"
    unfolding file'_def horizon_memfile_use_locked_def u by auto
qed

lemma trim_inv:
  assumes "file_inv file"
  shows "file_inv (horizon_memfile_trim_locked k file)" "set (mf_anchors (horizon_memfile_trim_locked k file)) \<subseteq> set (mf_anchors file)"
    "a \<in> set (mf_anchors file) \<Longrightarrow> an_users a \<noteq> 0 \<Longrightarrow> a \<in> set (mf_anchors (horizon_memfile_trim_locked k file))"
    "mf_size (horizon_memfile_trim_locked k file) = mf_size file"
  using assms by (auto simp: horizon_memfile_trim_locked_def file_inv_def intro: anchors_ok_filter)

text \<open>Trimming keeps what the ranges use.\<close>

lemma trim_views:
  assumes inv: "views_inv \<lparr>mv_file = file, mv_ranges = rs\<rparr>"
  shows "views_inv \<lparr>mv_file = horizon_memfile_trim_locked k file, mv_ranges = rs\<rparr>"
proof -
  let ?file = "horizon_memfile_trim_locked k file"
  have f: "file_inv file" and rs: "\<And>p l. (p, l) \<in> set rs \<Longrightarrow> p < l \<and> l \<le> mf_size file div PAGE \<and> (\<forall>q. p \<le> q \<and> q < l \<longrightarrow> covered (mf_anchors file) q)"
    and us: "\<And>a. a \<in> set (mf_anchors file) \<Longrightarrow> an_users a = users_of a rs" using inv by (auto simp: views_inv_def)
  note t = trim_inv [OF f, where k = k]
  have "covered (mf_anchors ?file) q" if "(p, l) \<in> set rs" "p \<le> q" "q < l" for p l q
  proof -
    have "covered (mf_anchors file) q" using rs [OF that(1)] that(2,3) by blast
    then obtain a where a: "a \<in> set (mf_anchors file)" "anchored a q" by (auto simp: covered_def)
    then have "overlaps a (p, l)" using that by (auto simp: overlaps_def anchored_def)
    then have "filter (overlaps a) rs \<noteq> []" using that(1) by (auto simp: filter_empty_conv)
    then have "an_users a \<noteq> 0" using us [OF a(1)] by (simp add: users_of_def)
    then show ?thesis using t(3) a by (auto simp: covered_def)
  qed
  then show ?thesis using t(1,2,4) rs us by (fastforce simp: views_inv_def)
qed

lemma use_views:
  assumes inv: "views_inv \<lparr>mv_file = file, mv_ranges = rs\<rparr>" and pl: "p < l" "l \<le> mf_size file div PAGE"
    and cov: "\<And>q. p \<le> q \<Longrightarrow> q < l \<Longrightarrow> covered (mf_anchors file) q"
  shows "views_inv \<lparr>mv_file = horizon_memfile_use_locked file p l 1, mv_ranges = (p, l) # rs\<rparr>"
proof -
  have f: "file_inv file" using inv by (simp add: views_inv_def)
  note u = use_locked_inv [OF f, where page = p and limit = l and delta = 1]
  have "an_users a' = users_of a' ((p, l) # rs)" if a': "a' \<in> set (mf_anchors (horizon_memfile_use_locked file p l 1))" for a'
  proof -
    from u(4) [OF a'] obtain a where a: "a \<in> set (mf_anchors file)" "a' = (if overlaps a (p, l) then a\<lparr>an_users := an_users a + 1\<rparr> else a)" by auto
    moreover have "an_users a = users_of a rs" using inv a(1) by (auto simp: views_inv_def)
    ultimately show ?thesis by (auto simp: users_of_def overlaps_def)
  qed
  then show ?thesis using u(1-3) inv pl cov by (auto simp: views_inv_def)
qed

lemma drop_views:
  assumes inv: "views_inv \<lparr>mv_file = file, mv_ranges = rs\<rparr>" and i: "i < length rs" "rs ! i = (p, l)"
  shows "views_inv \<lparr>mv_file = horizon_memfile_use_locked file p l (- 1), mv_ranges = remove_at i rs\<rparr>"
proof -
  have f: "file_inv file" using inv by (simp add: views_inv_def)
  note u = use_locked_inv [OF f, where page = p and limit = l and delta = "- 1"]
  have split: "rs = take i rs @ (p, l) # drop (Suc i) rs" using id_take_nth_drop [OF i(1)] i(2) by simp
  have cnt: "users_of a rs = users_of a (remove_at i rs) + (if overlaps a (p, l) then 1 else 0)" for a
    by (subst split) (simp add: users_of_def remove_at_def)
  have "an_users a' = users_of a' (remove_at i rs)" if a': "a' \<in> set (mf_anchors (horizon_memfile_use_locked file p l (- 1)))" for a'
  proof -
    from u(4) [OF a'] obtain a where a: "a \<in> set (mf_anchors file)" "a' = (if overlaps a (p, l) then a\<lparr>an_users := an_users a - 1\<rparr> else a)" by auto
    moreover have "an_users a = users_of a rs" using inv a(1) by (auto simp: views_inv_def)
    ultimately show ?thesis using cnt [of a] by auto
  qed
  moreover have "set (remove_at i rs) \<subseteq> set rs" by (rule set_remove_at_subset)
  ultimately show ?thesis using u(1-3) inv by (fastforce simp: views_inv_def)
qed

lemma anchor_views:
  assumes inv: "views_inv \<lparr>mv_file = file, mv_ranges = rs\<rparr>" and lim: "limit \<le> mf_size file div PAGE"
    and a: "horizon_memfile_anchor_locked k file page limit = (ok, file')"
  shows "views_inv \<lparr>mv_file = file', mv_ranges = rs\<rparr>" "mf_size file' = mf_size file"
    "ok \<Longrightarrow> page \<le> q \<Longrightarrow> q < limit \<Longrightarrow> covered (mf_anchors file') q"
proof -
  have f: "anchors_ok 0 (mf_size file div PAGE) (mf_anchors file)" using inv by (simp add: views_inv_def file_inv_def)
  obtain bs where w: "anchor_walk k (mf_data file) (mf_anchors file) page limit = (ok, bs)" and fl: "file' = file\<lparr>mf_anchors := bs\<rparr>"
    using a by (auto simp: horizon_memfile_anchor_locked_def split: prod.splits)
  note sp = anchor_walk_spec [OF f _ lim w, simplified]
  have sub: "set (mf_anchors file) \<subseteq> set bs" and
    new: "\<And>b. b \<in> set bs \<Longrightarrow> b \<notin> set (mf_anchors file) \<Longrightarrow> an_users b = 0 \<and> (\<forall>p. anchored b p \<longrightarrow> \<not> covered (mf_anchors file) p)"
    using sp by blast+
  show "mf_size file' = mf_size file" by (simp add: fl)
  show "ok \<Longrightarrow> page \<le> q \<Longrightarrow> q < limit \<Longrightarrow> covered (mf_anchors file') q" using sp by (simp add: fl)
  have us: "an_users b = users_of b rs" if b: "b \<in> set bs" for b
  proof (cases "b \<in> set (mf_anchors file)")
    case True
    then show ?thesis using inv by (auto simp: views_inv_def)
  next
    case False
    have "\<not> overlaps b (p, l)" if r: "(p, l) \<in> set rs" for p l
    proof
      assume o: "overlaps b (p, l)"
      define q where "q = max p (an_first b)"
      have "0 < an_count b" using sp b anchors_ok_bounds [of 0 "mf_size file div PAGE" bs b] by auto
      moreover have "p < l" using inv r by (auto simp: views_inv_def)
      ultimately have "anchored b q" "p \<le> q" "q < l" using o by (auto simp: q_def anchored_def overlaps_def)
      moreover have "covered (mf_anchors file) q" using inv r calculation by (auto simp: views_inv_def)
      ultimately show False using new [OF b False] by blast
    qed
    then have "users_of b rs = 0" by (auto simp: users_of_def filter_empty_conv)
    then show ?thesis using new [OF b False] by simp
  qed
  have cov: "covered bs q" if "covered (mf_anchors file) q" for q using that sub by (auto simp: covered_def)
  show "views_inv \<lparr>mv_file = file', mv_ranges = rs\<rparr>"
    using inv us cov sp by (fastforce simp: views_inv_def file_inv_def fl)
qed

lemma views_step_inv:
  assumes inv: "views_inv s" and ok: "views_ok s op"
  shows "views_inv (views_step s op)"
proof -
  obtain mf rs where s: "s = \<lparr>mv_file = mf, mv_ranges = rs\<rparr>" by (cases s) auto
  note inv' = inv [unfolded s]
  have f: "file_inv mf" using inv' by (simp add: views_inv_def)
  show ?thesis
  proof (cases op)
    case (View_map k dst offset sz)
    show ?thesis
    proof (cases "horizon_memfile_range_valid mf offset sz")
      case False
      then show ?thesis using inv' by (simp add: View_map s horizon_memfile_map_def)
    next
      case True
      define p l where "p = offset div PAGE" and "l = p + sz div PAGE"
      have pl: "p < l" "l \<le> mf_size mf div PAGE" "page_range offset sz = (p, l)"
        using range_valid_pages [OF True f] by (simp_all add: page_range_def p_def l_def)
      obtain r file1 where a: "horizon_memfile_anchor_locked k mf p l = (r, file1)" by fastforce
      obtain r2 calls where al: "horizon_memfile_alias_locked k file1 dst p l True = (r2, calls)" by fastforce
      note av = anchor_views [OF inv' pl(2) a]
      have t: "views_inv \<lparr>mv_file = horizon_memfile_trim_locked k file1, mv_ranges = rs\<rparr>" by (rule trim_views [OF av(1)])
      have "views_inv \<lparr>mv_file = horizon_memfile_use_locked file1 p l 1, mv_ranges = (p, l) # rs\<rparr>" if r
        by (rule use_views [OF av(1) pl(1)]) (use pl av that in simp_all)
      then show ?thesis using t a al True pl(3)
        by (auto simp: View_map s horizon_memfile_map_def p_def [symmetric] l_def [symmetric] Let_def)
    qed
  next
    case (View_use k offset sz)
    define p l where "p = offset div PAGE" and "l = p + sz div PAGE"
    have v: "horizon_memfile_range_valid mf offset sz" and c: "\<And>q. p \<le> q \<Longrightarrow> q < l \<Longrightarrow> covered (mf_anchors mf) q"
      using ok by (auto simp: View_use s page_range_def p_def l_def)
    have pl: "p < l" "l \<le> mf_size mf div PAGE" "page_range offset sz = (p, l)"
      using range_valid_pages [OF v f] by (simp_all add: page_range_def p_def l_def)
    show ?thesis using use_views [OF inv' pl(1,2) c] v pl(3)
      by (simp add: View_use s horizon_memfile_use_def p_def [symmetric] l_def [symmetric] Let_def)
  next
    case (View_drop k i)
    obtain p l where r: "rs ! i = (p, l)" by fastforce
    have i: "i < length rs" using ok by (simp add: View_drop s)
    have "(p, l) \<in> set rs" using i r nth_mem by fastforce
    then have pl: "p < l" "l \<le> mf_size mf div PAGE" using inv' by (auto simp: views_inv_def)
    note v = range_valid_of_pages [OF pl f]
    show ?thesis using trim_views [OF drop_views [OF inv' i r], of k] v r pl
      by (simp add: View_drop s horizon_memfile_use_def page_range_def Let_def)
  next
    case (View_io io)
    then show ?thesis using io_step_keeps [OF f, of io] inv' by (simp add: s views_inv_def)
  qed
qed

interpretation views: invariant_machine views_step views_ok views_inv
  by unfold_locales (rule views_step_inv)

lemma memfile_alloc_inv:
  assumes "horizon_memfile_alloc node pages bitmap sz reserve = Some file"
  shows "views_inv \<lparr>mv_file = file, mv_ranges = []\<rparr>"
  using assms
  by (auto simp: horizon_memfile_alloc_def views_inv_def file_inv_def split: if_splits option.splits)

text \<open>
  C13. Whatever sequence of views is made, counted again, dropped and used for reading and writing on a section
  without a file: every page of every view range stays anchored as long as the range is there, each anchor's
  count of users is the number of ranges that overlap it, anchors never overlap and lie inside the section, and
  so no page that a view shows is ever given back. The kernel may refuse any call.
\<close>

theorem memfile_views_anchored:
  assumes "horizon_memfile_alloc node pages bitmap sz reserve = Some file"
    and "admissible views_step views_ok \<lparr>mv_file = file, mv_ranges = []\<rparr> ops"
  defines "s \<equiv> foldl views_step \<lparr>mv_file = file, mv_ranges = []\<rparr> ops"
  shows "(\<forall>(p, l)\<in>set (mv_ranges s). \<forall>q. p \<le> q \<and> q < l \<longrightarrow> covered (mf_anchors (mv_file s)) q) \<and>
    (\<forall>a\<in>set (mf_anchors (mv_file s)). an_users a = users_of a (mv_ranges s)) \<and>
    anchors_ok 0 (mf_size (mv_file s) div PAGE) (mf_anchors (mv_file s))"
proof -
  have "views_inv s" unfolding s_def by (rule views.run_inv [OF memfile_alloc_inv [OF assms(1)] assms(2)])
  then show ?thesis by (auto simp: views_inv_def file_inv_def)
qed

definition agreeing_kernel :: "ptr \<Rightarrow> memfile_kernel" where
  "agreeing_kernel addr = \<lparr>mk_calloc = (\<lambda>_. True), mk_anchor = (\<lambda>_ _. Some (addr, 0)), mk_unanchor = (\<lambda>_ _ _ _. True),
     mk_alias = (\<lambda>_ _ _. True), mk_unalias = (\<lambda>_ _ _. True)\<rparr>"

definition example_memfile :: horizon_memfile where
  "example_memfile = \<lparr>mf_data = 0x100000, mf_bytes = replicate 0x4000 0, mf_size = 0x4000, mf_pos = 0, mf_refs = 1, mf_anchors = [],
     mf_committed = None\<rparr>"

lemma example_memfile_alloc: "horizon_memfile_alloc True (Some 0x100000) True 0x4000 False = Some example_memfile"
  by (simp add: horizon_memfile_alloc_def example_memfile_def)

definition example_views :: "views_op list" where
  "example_views = [View_map (agreeing_kernel 0x200000) 0x900000 0x1000 0x1000, View_map (agreeing_kernel 0x300000) 0xa00000 0 0x3000,
     View_drop (agreeing_kernel 0) 1]"

lemmas memfile_eval = horizon_memfile_map_def horizon_memfile_range_valid_def horizon_memfile_anchor_locked_def anchor_walk.simps
  new_anchor_def horizon_memfile_alias_locked_def horizon_memfile_alias_range_locked_def horizon_memfile_use_locked_def
  horizon_memfile_trim_locked_def horizon_memfile_use_def page_range_def remove_at_def agreeing_kernel_def example_memfile_def

lemma example_views_ok: "admissible views_step views_ok \<lparr>mv_file = example_memfile, mv_ranges = []\<rparr> example_views"
  by (simp add: example_views_def memfile_eval)

lemma example_views_ranges: "mv_ranges (foldl views_step \<lparr>mv_file = example_memfile, mv_ranges = []\<rparr> example_views) = [(0, 3)]"
  by (simp add: example_views_def memfile_eval)

theorem memfile_views_anchored_witness:
  "let as = mf_anchors (mv_file (foldl views_step \<lparr>mv_file = example_memfile, mv_ranges = []\<rparr> example_views))
   in covered as 0 \<and> covered as 1 \<and> covered as 2"
  using memfile_views_anchored [OF example_memfile_alloc example_views_ok] example_views_ranges by (auto simp: Let_def)

section \<open>What a view shows\<close>













section \<open>What reads and writes touch\<close>














section \<open>Committed ranges\<close>

lemma same_page:
  assumes "pos mod PAGE = 0" "pos \<le> x" "x < pos + PAGE"
  shows "x div PAGE = pos div PAGE"
proof -
  have "PAGE * (pos div PAGE) = pos" using assms(1) mult_div_mod_eq [of PAGE pos] by simp
  then show ?thesis using assms by (intro div_nat_eqI) simp_all
qed

lemma committed_walk_spec:
  assumes "pos mod PAGE = 0"
  shows "pos \<le> committed_walk bs c pos limit \<and> committed_walk bs c pos limit mod PAGE = 0 \<and>
    (\<forall>x. pos \<le> x \<and> x < committed_walk bs c pos limit \<longrightarrow> bs ! (x div PAGE) = c) \<and>
    (committed_walk bs c pos limit < limit \<longrightarrow> bs ! (committed_walk bs c pos limit div PAGE) \<noteq> c)"
  using assms
proof (induction bs c pos limit rule: committed_walk.induct)
  case (1 bs c pos limit)
  show ?case
  proof (cases "pos < limit \<and> bs ! (pos div PAGE) = c")
    case True
    have m: "(pos + PAGE) mod PAGE = 0" using "1.prems" by simp
    have w: "committed_walk bs c pos limit = committed_walk bs c (pos + PAGE) limit" using True by (subst committed_walk.simps) simp
    have here: "bs ! (x div PAGE) = c" if "pos \<le> x" "x < pos + PAGE" for x
      using True same_page [OF "1.prems" that] by simp
    note ih = "1.IH" [OF True m]
    have "bs ! (x div PAGE) = c" if "pos \<le> x" "x < committed_walk bs c (pos + PAGE) limit" for x
      using ih here [of x] that by (cases "x < pos + PAGE") auto
    then show ?thesis using ih unfolding w by auto
  next
    case False
    then have "committed_walk bs c pos limit = pos" by (subst committed_walk.simps) auto
    then show ?thesis using False "1.prems" by auto
  qed
qed

text \<open>
  Asked about a reserved section, the server answers with the longest range from the offset on whose pages
  are all committed or all not: every byte of it is of the answered kind, it stays inside the view, and it ends
  at the view's end or at a page of the other kind.
\<close>

theorem committed_range_exact:
  assumes bs: "mf_committed file = Some bs" and st: "start mod PAGE = 0"
    and r: "horizon_memfile_committed_range file start view_size offset = Inr (n, c)"
  shows "0 < n \<and> offset + n \<le> view_size \<and>
    (\<forall>x. start + offset \<le> x \<and> x < start + offset + n \<longrightarrow> bs ! (x div PAGE) = c) \<and>
    (offset + n < view_size \<longrightarrow> bs ! ((start + offset + n) div PAGE) \<noteq> c)"
proof -
  have o: "offset mod PAGE = 0" "offset < view_size" using r by (auto simp: horizon_memfile_committed_range_def split: if_splits)
  define pos where "pos = committed_walk bs c (start + offset + PAGE) (start + view_size)"
  have c: "c = bs ! ((start + offset) div PAGE)" and n: "n = min pos (start + view_size) - (start + offset)"
    using r o bs by (auto simp: horizon_memfile_committed_range_def pos_def Let_def split: if_splits)
  have m: "(start + offset) mod PAGE = 0" using st o(1) by (simp add: mod_add_eq [symmetric])
  then have "(start + offset + PAGE) mod PAGE = 0" by simp
  note w = committed_walk_spec [OF this, of bs c "start + view_size", folded pos_def]
  have here: "bs ! (x div PAGE) = c" if "start + offset \<le> x" "x < start + offset + PAGE" for x
    using same_page [OF m that] by (simp add: c)
  have all: "bs ! (x div PAGE) = c" if "start + offset \<le> x" "x < pos" for x
    using w here [of x] that by (cases "x < start + offset + PAGE") auto
  have "bs ! ((start + offset + n) div PAGE) \<noteq> c" if "offset + n < view_size"
  proof -
    have "start + offset + n = pos" "pos < start + view_size" using that n w o(2) by (auto simp: min_def split: if_splits)
    then show ?thesis using w by simp
  qed
  moreover have "0 < n" "offset + n \<le> view_size" using n w o(2) by (auto simp: min_def)
  moreover have "bs ! (x div PAGE) = c" if "start + offset \<le> x" "x < start + offset + n" for x
  proof -
    have "x < pos" using that n by (simp add: min_def split: if_splits)
    then show ?thesis by (rule all [OF that(1)])
  qed
  ultimately show ?thesis by blast
qed

theorem committed_range_exact_witness:
  "horizon_memfile_committed_range (example_memfile\<lparr>mf_committed := Some [False, True, True, False]\<rparr>) 0x1000 0x3000 0 = Inr (0x2000, True) \<and>
   ([False, True, True, False] ! (0x2fff div 4096))"
proof -
  have w: "committed_walk [False, True, True, False] True 0x2000 0x4000 = 0x3000"
    by (subst committed_walk.simps, simp, subst committed_walk.simps, simp)
  have r: "horizon_memfile_committed_range (example_memfile\<lparr>mf_committed := Some [False, True, True, False]\<rparr>) 0x1000 0x3000 0 = Inr (0x2000, True)"
    using w by (simp add: horizon_memfile_committed_range_def)
  from committed_range_exact [OF _ _ r, of "[False, True, True, False]"]
  have "\<forall>x. 0x1000 \<le> x \<and> x < 0x1000 + 0x2000 \<longrightarrow> [False, True, True, False] ! (x div 4096) = True" by simp
  from this [THEN spec, of "0x2fff"] r show ?thesis by simp
qed

end
