(* ===== verification/HzMsgQueue.thy ===== *)
theory HzMsgQueue
  imports HzPrelude "HOL-Library.Monad_Syntax"
begin

text \<open>
  Messages sent between threads (\<open>dlls/ntdll/unix/horizon_msg_queue.h\<close>): each thread has a queue of messages
  other threads sent it, a stack of those it is answering, and lists of the results it waits for itself. A result
  is shared by its sender and its receiver and is freed by the one that lets go of it last.

  The heap is part of the state: \<open>qs_result\<close> maps the address of every result that is allocated to it, and
  \<open>qs_queue\<close> the thread id of every queue (one queue per thread id) to it. An operation that would follow a
  pointer to memory that was freed, or a null pointer, is \<open>None\<close>. The linked lists of results are lists of addresses in link
  order; a queued message carries its address, since the code looks messages up by it. \<open>sent_tail\<close> is the end of
  the list. A buffer and its size are one list. What the allocator answers is a parameter.
\<close>

abbreviation (input) HORIZON_MSGQ_QS_KEY :: u32 where "HORIZON_MSGQ_QS_KEY \<equiv> 0x0001"
abbreviation (input) HORIZON_MSGQ_QS_POSTMESSAGE :: u32 where "HORIZON_MSGQ_QS_POSTMESSAGE \<equiv> 0x0008"
abbreviation (input) HORIZON_MSGQ_QS_TIMER :: u32 where "HORIZON_MSGQ_QS_TIMER \<equiv> 0x0010"
abbreviation (input) HORIZON_MSGQ_QS_PAINT :: u32 where "HORIZON_MSGQ_QS_PAINT \<equiv> 0x0020"
abbreviation (input) HORIZON_MSGQ_QS_SENDMESSAGE :: u32 where "HORIZON_MSGQ_QS_SENDMESSAGE \<equiv> 0x0040"
abbreviation (input) HORIZON_MSGQ_QS_HOTKEY :: u32 where "HORIZON_MSGQ_QS_HOTKEY \<equiv> 0x0080"
abbreviation (input) HORIZON_MSGQ_QS_ALLPOSTMESSAGE :: u32 where "HORIZON_MSGQ_QS_ALLPOSTMESSAGE \<equiv> 0x0100"
abbreviation (input) HORIZON_MSGQ_QS_INPUT :: u32 where "HORIZON_MSGQ_QS_INPUT \<equiv> 0x0407"
abbreviation (input) HORIZON_MSGQ_QS_SMRESULT :: u32 where "HORIZON_MSGQ_QS_SMRESULT \<equiv> 0x8000"

abbreviation (input) HORIZON_MSGQ_MSG_NOTIFY :: int where "HORIZON_MSGQ_MSG_NOTIFY \<equiv> 2"
abbreviation (input) HORIZON_MSGQ_MSG_CALLBACK :: int where "HORIZON_MSGQ_MSG_CALLBACK \<equiv> 3"
abbreviation (input) HORIZON_MSGQ_MSG_CALLBACK_RESULT :: int where "HORIZON_MSGQ_MSG_CALLBACK_RESULT \<equiv> 4"
abbreviation (input) HORIZON_MSGQ_MSG_OTHER_PROCESS :: int where "HORIZON_MSGQ_MSG_OTHER_PROCESS \<equiv> 5"

abbreviation (input) HORIZON_MSGQ_STATUS_TIMEOUT :: u32 where "HORIZON_MSGQ_STATUS_TIMEOUT \<equiv> 0x102"
abbreviation (input) HORIZON_MSGQ_STATUS_PENDING :: u32 where "HORIZON_MSGQ_STATUS_PENDING \<equiv> 0x103"
abbreviation (input) HORIZON_MSGQ_STATUS_INVALID_PARAMETER :: u32 where "HORIZON_MSGQ_STATUS_INVALID_PARAMETER \<equiv> 0xc000000d"
abbreviation (input) HORIZON_MSGQ_STATUS_NO_MEMORY :: u32 where "HORIZON_MSGQ_STATUS_NO_MEMORY \<equiv> 0xc0000017"
abbreviation (input) HORIZON_MSGQ_STATUS_ACCESS_DENIED :: u32 where "HORIZON_MSGQ_STATUS_ACCESS_DENIED \<equiv> 0xc0000022"

abbreviation (input) HORIZON_MSGQ_CALLBACK_RESULT_OFFSET :: nat where "HORIZON_MSGQ_CALLBACK_RESULT_OFFSET \<equiv> 16"

type_synonym tid = u32

section \<open>Data\<close>

record horizon_msgq_sent =
  sm_addr :: ptr
  sm_type :: int
  sm_win :: u32
  sm_msg :: u32
  sm_wparam :: u64
  sm_lparam :: u64
  sm_x :: u32
  sm_y :: u32
  sm_time :: u32
  sm_data :: "u8 list"
  sm_result :: "ptr option"

record horizon_msgq_result =
  rs_msg :: "ptr option"
  rs_sender :: "tid option"
  rs_receiver :: "tid option"
  rs_callback_msg :: "horizon_msgq_sent option"
  rs_replied :: bool
  rs_error :: u32
  rs_result :: u64
  rs_data :: "u8 list"
  rs_has_deadline :: bool
  rs_deadline :: u64

record horizon_msgq =
  mq_wake_bits :: u32
  mq_changed_bits :: u32
  mq_wake_mask :: u32
  mq_changed_mask :: u32
  mq_quit_message :: bool
  mq_exit_code :: int
  mq_sent :: "horizon_msgq_sent list"
  mq_send_results :: "ptr list"
  mq_callback_results :: "ptr list"
  mq_recv_result :: "ptr list"

record horizon_msgqs =
  qs_order :: "tid list"
  qs_queue :: "tid \<Rightarrow> horizon_msgq option"
  qs_result :: "ptr \<Rightarrow> horizon_msgq_result option"

definition no_queues :: horizon_msgqs where
  "no_queues = \<lparr>qs_order = [], qs_queue = (\<lambda>_. None), qs_result = (\<lambda>_. None)\<rparr>"

text \<open>Writing through a pointer.\<close>

definition upd_queue :: "tid \<Rightarrow> (horizon_msgq \<Rightarrow> horizon_msgq) \<Rightarrow> horizon_msgqs \<Rightarrow> horizon_msgqs option" where
  "upd_queue t f s = (case qs_queue s t of None \<Rightarrow> None | Some q \<Rightarrow> Some (s\<lparr>qs_queue := (qs_queue s)(t \<mapsto> f q)\<rparr>))"

definition upd_result ::
    "ptr \<Rightarrow> (horizon_msgq_result \<Rightarrow> horizon_msgq_result) \<Rightarrow> horizon_msgqs \<Rightarrow> horizon_msgqs option" where
  "upd_result r f s = (case qs_result s r of None \<Rightarrow> None | Some R \<Rightarrow> Some (s\<lparr>qs_result := (qs_result s)(r \<mapsto> f R)\<rparr>))"

section \<open>Queues and their bits\<close>

definition horizon_msgq_find :: "horizon_msgqs \<Rightarrow> tid \<Rightarrow> tid option" where
  "horizon_msgq_find s tid = List.find (\<lambda>t. t = tid) (qs_order s)"

definition new_queue :: horizon_msgq where
  "new_queue = \<lparr>mq_wake_bits = 0, mq_changed_bits = 0, mq_wake_mask = 0, mq_changed_mask = 0, mq_quit_message = False,
     mq_exit_code = 0, mq_sent = [], mq_send_results = [], mq_callback_results = [], mq_recv_result = []\<rparr>"

text \<open>The queue, whether it is new, and the state.\<close>

definition horizon_msgq_get :: "bool \<Rightarrow> horizon_msgqs \<Rightarrow> tid \<Rightarrow> tid option \<times> bool \<times> horizon_msgqs" where
  "horizon_msgq_get memory s tid =
     (case horizon_msgq_find s tid of
        Some t \<Rightarrow> (Some t, False, s)
      | None \<Rightarrow>
          if tid = 0 \<or> \<not> memory then (None, False, s)
          else (Some tid, True, s\<lparr>qs_order := tid # qs_order s, qs_queue := (qs_queue s)(tid \<mapsto> new_queue)\<rparr>))"

definition horizon_msgq_touch :: "u32 \<Rightarrow> horizon_msgq \<Rightarrow> horizon_msgq" where
  "horizon_msgq_touch bits q = q\<lparr>mq_wake_bits := mq_wake_bits q OR bits, mq_changed_bits := mq_changed_bits q OR bits\<rparr>"

text \<open>\<open>queue->send_results && queue->send_results->replied\<close>\<close>

definition head_replied :: "horizon_msgqs \<Rightarrow> horizon_msgq \<Rightarrow> bool option" where
  "head_replied s q =
     (case mq_send_results q of
        [] \<Rightarrow> Some False
      | r # _ \<Rightarrow> do { R \<leftarrow> qs_result s r; Some (rs_replied R) })"

definition horizon_msgq_own_bits :: "horizon_msgqs \<Rightarrow> horizon_msgq \<Rightarrow> u32 option" where
  "horizon_msgq_own_bits s q =
     do { replied \<leftarrow> head_replied s q;
          Some ((if mq_sent q \<noteq> [] then HORIZON_MSGQ_QS_SENDMESSAGE else 0) OR
                (if mq_quit_message q then HORIZON_MSGQ_QS_POSTMESSAGE OR HORIZON_MSGQ_QS_ALLPOSTMESSAGE else 0) OR
                (if replied then HORIZON_MSGQ_QS_SMRESULT else 0)) }"

definition horizon_msgq_update :: "tid \<Rightarrow> u32 \<Rightarrow> horizon_msgqs \<Rightarrow> horizon_msgqs option" where
  "horizon_msgq_update t external s =
     do { q \<leftarrow> qs_queue s t;
          own \<leftarrow> horizon_msgq_own_bits s q;
          let wake = external OR own;
          upd_queue t (\<lambda>q. q\<lparr>mq_changed_bits := (mq_changed_bits q AND NOT (mq_wake_bits q AND NOT wake)) OR
                                                (wake AND NOT (mq_wake_bits q)),
                            mq_wake_bits := wake\<rparr>) s }"

definition horizon_msgq_signaled :: "horizon_msgq \<Rightarrow> bool" where
  "horizon_msgq_signaled q \<longleftrightarrow>
     mq_wake_bits q AND mq_wake_mask q \<noteq> 0 \<or> mq_changed_bits q AND mq_changed_mask q \<noteq> 0"

definition horizon_msgq_begin_get :: "u32 \<Rightarrow> u32 \<Rightarrow> u32 \<Rightarrow> horizon_msgq \<Rightarrow> horizon_msgq" where
  "horizon_msgq_begin_get filt first_msg last_msg q =
     (let q1 = (if filt AND HORIZON_MSGQ_QS_POSTMESSAGE \<noteq> 0
                then (let c = mq_changed_bits q AND
                              NOT (HORIZON_MSGQ_QS_POSTMESSAGE OR HORIZON_MSGQ_QS_HOTKEY OR HORIZON_MSGQ_QS_TIMER)
                      in q\<lparr>mq_changed_bits := (if first_msg = 0 \<and> last_msg = NOT 0 then c AND NOT HORIZON_MSGQ_QS_ALLPOSTMESSAGE else c)\<rparr>)
                else q);
          q2 = (if filt AND HORIZON_MSGQ_QS_INPUT \<noteq> 0 then q1\<lparr>mq_changed_bits := mq_changed_bits q1 AND NOT HORIZON_MSGQ_QS_INPUT\<rparr> else q1)
      in if filt AND HORIZON_MSGQ_QS_PAINT \<noteq> 0 then q2\<lparr>mq_changed_bits := mq_changed_bits q2 AND NOT HORIZON_MSGQ_QS_PAINT\<rparr> else q2)"

definition horizon_msgq_post_quit :: "int \<Rightarrow> horizon_msgq \<Rightarrow> horizon_msgq" where
  "horizon_msgq_post_quit exit_code q =
     horizon_msgq_touch (HORIZON_MSGQ_QS_POSTMESSAGE OR HORIZON_MSGQ_QS_ALLPOSTMESSAGE)
       (q\<lparr>mq_quit_message := True, mq_exit_code := exit_code\<rparr>)"

section \<open>Results\<close>

definition horizon_msgq_free_result :: "ptr \<Rightarrow> horizon_msgqs \<Rightarrow> horizon_msgqs option" where
  "horizon_msgq_free_result r s =
     do { R \<leftarrow> qs_result s r; Some (s\<lparr>qs_result := (qs_result s)(r := None)\<rparr>) }"

definition horizon_msgq_unlink_result :: "ptr \<Rightarrow> ptr list \<Rightarrow> ptr list" where
  "horizon_msgq_unlink_result r rs = remove1 r rs"

definition horizon_msgq_remove_result_from_sender :: "ptr \<Rightarrow> horizon_msgqs \<Rightarrow> horizon_msgqs option" where
  "horizon_msgq_remove_result_from_sender r s =
     do { R \<leftarrow> qs_result s r;
          t \<leftarrow> rs_sender R;
          s \<leftarrow> upd_queue t (\<lambda>q. q\<lparr>mq_send_results := horizon_msgq_unlink_result r (mq_send_results q),
                                  mq_callback_results := horizon_msgq_unlink_result r (mq_callback_results q)\<rparr>) s;
          s \<leftarrow> upd_result r (\<lambda>R. R\<lparr>rs_sender := None\<rparr>) s;
          if rs_receiver R = None then horizon_msgq_free_result r s else Some s }"

definition le_bytes64 :: "u64 \<Rightarrow> u8 list" where
  "le_bytes64 v = map (\<lambda>i. ucast (drop_bit (8 * i) v)) [0..<8]"

definition put_value :: "u64 \<Rightarrow> horizon_msgq_sent \<Rightarrow> horizon_msgq_sent" where
  "put_value val callback =
     (if HORIZON_MSGQ_CALLBACK_RESULT_OFFSET + 8 \<le> length (sm_data callback)
      then callback\<lparr>sm_data := take HORIZON_MSGQ_CALLBACK_RESULT_OFFSET (sm_data callback) @ le_bytes64 val @
                              drop (HORIZON_MSGQ_CALLBACK_RESULT_OFFSET + 8) (sm_data callback)\<rparr>
      else callback)"

text \<open>\<open>*queue->sent_tail = msg; queue->sent_tail = &msg->next; horizon_msgq_touch( queue, QS_SENDMESSAGE );\<close>\<close>

definition queue_sent :: "tid \<Rightarrow> horizon_msgq_sent \<Rightarrow> horizon_msgqs \<Rightarrow> horizon_msgqs option" where
  "queue_sent t msg s = upd_queue t (\<lambda>q. horizon_msgq_touch HORIZON_MSGQ_QS_SENDMESSAGE (q\<lparr>mq_sent := mq_sent q @ [msg]\<rparr>)) s"

definition horizon_msgq_store_result :: "ptr \<Rightarrow> u64 \<Rightarrow> u32 \<Rightarrow> horizon_msgqs \<Rightarrow> horizon_msgqs option" where
  "horizon_msgq_store_result r val error s =
     do { R \<leftarrow> qs_result s r;
          s \<leftarrow> upd_result r (\<lambda>R. R\<lparr>rs_result := val, rs_error := error, rs_replied := True, rs_has_deadline := False\<rparr>) s;
          case rs_sender R of
            Some sender \<Rightarrow>
              (case rs_callback_msg R of
                 Some callback \<Rightarrow>
                   do { s \<leftarrow> queue_sent sender (put_value val callback) s;
                        s \<leftarrow> upd_result r (\<lambda>R. R\<lparr>rs_callback_msg := None\<rparr>) s;
                        horizon_msgq_remove_result_from_sender r s }
               | None \<Rightarrow>
                   do { q \<leftarrow> qs_queue s sender;
                        if mq_send_results q \<noteq> [] \<and> hd (mq_send_results q) = r
                        then upd_queue sender (horizon_msgq_touch HORIZON_MSGQ_QS_SMRESULT) s
                        else Some s })
          | None \<Rightarrow> if rs_receiver R = None then horizon_msgq_free_result r s else Some s }"

definition horizon_msgq_free_sent :: "horizon_msgq_sent \<Rightarrow> horizon_msgqs \<Rightarrow> horizon_msgqs option" where
  "horizon_msgq_free_sent msg s =
     (case sm_result msg of
        None \<Rightarrow> Some s
      | Some r \<Rightarrow>
          do { s \<leftarrow> upd_result r (\<lambda>R. R\<lparr>rs_msg := None, rs_receiver := None\<rparr>) s;
               horizon_msgq_store_result r 0 HORIZON_MSGQ_STATUS_ACCESS_DENIED s })"

fun horizon_msgq_unlink_sent :: "ptr \<Rightarrow> horizon_msgq_sent list \<Rightarrow> horizon_msgq_sent list" where
  "horizon_msgq_unlink_sent m [] = []"
| "horizon_msgq_unlink_sent m (M # Ms) = (if sm_addr M = m then Ms else M # horizon_msgq_unlink_sent m Ms)"

section \<open>Sending, receiving, answering\<close>

text \<open>What the allocator answers: the addresses of the message, the result and the callback message.\<close>

record msgq_memory =
  mm_msg :: "ptr option"
  mm_data :: bool
  mm_result :: "ptr option"
  mm_callback :: "ptr option"

definition new_result :: "tid option \<Rightarrow> tid \<Rightarrow> ptr \<Rightarrow> bool \<Rightarrow> u64 \<Rightarrow> horizon_msgq_result" where
  "new_result sender receiver msg has_deadline deadline =
     \<lparr>rs_msg = Some msg, rs_sender = sender, rs_receiver = Some receiver, rs_callback_msg = None, rs_replied = False,
      rs_error = 0, rs_result = 0, rs_data = [], rs_has_deadline = has_deadline, rs_deadline = deadline\<rparr>"

definition callback_for :: "ptr \<Rightarrow> horizon_msgq_sent \<Rightarrow> horizon_msgq_sent" where
  "callback_for c msg =
     \<lparr>sm_addr = c, sm_type = HORIZON_MSGQ_MSG_CALLBACK_RESULT, sm_win = sm_win msg, sm_msg = sm_msg msg, sm_wparam = 0,
      sm_lparam = 0, sm_x = sm_x msg, sm_y = sm_y msg, sm_time = sm_time msg, sm_data = sm_data msg, sm_result = None\<rparr>"

text \<open>Allocating a result and linking it into the sender's list that \<open>link\<close> extends.\<close>

definition link_result ::
    "tid option \<Rightarrow> (horizon_msgq \<Rightarrow> horizon_msgq) \<Rightarrow> ptr \<Rightarrow> horizon_msgq_result \<Rightarrow> horizon_msgqs \<Rightarrow> horizon_msgqs option" where
  "link_result sender link r R s =
     (let s1 = s\<lparr>qs_result := (qs_result s)(r \<mapsto> R)\<rparr>
      in case sender of None \<Rightarrow> Some s1 | Some t \<Rightarrow> upd_queue t link s1)"

definition horizon_msgq_send ::
    "msgq_memory \<Rightarrow> tid option \<Rightarrow> tid \<Rightarrow> horizon_msgq_sent \<Rightarrow> u8 list \<Rightarrow> bool \<Rightarrow> u64 \<Rightarrow> horizon_msgqs \<Rightarrow> (u32 \<times> horizon_msgqs) option" where
  "horizon_msgq_send mem sender receiver flds data has_deadline deadline s =
     (if sm_type flds \<notin> {0, 1, HORIZON_MSGQ_MSG_NOTIFY, HORIZON_MSGQ_MSG_CALLBACK, HORIZON_MSGQ_MSG_OTHER_PROCESS}
      then Some (HORIZON_MSGQ_STATUS_INVALID_PARAMETER, s)
      else (case mm_msg mem of
              None \<Rightarrow> Some (HORIZON_MSGQ_STATUS_NO_MEMORY, s)
            | Some m \<Rightarrow>
                let msg = flds\<lparr>sm_addr := m, sm_data := data, sm_result := None\<rparr>
                in if data \<noteq> [] \<and> \<not> mm_data mem then Some (HORIZON_MSGQ_STATUS_NO_MEMORY, s)
                   else if sm_type flds = HORIZON_MSGQ_MSG_NOTIFY
                   then do { s \<leftarrow> queue_sent receiver msg s; Some (0, s) }
                   else (case mm_result mem of
                           None \<Rightarrow> Some (HORIZON_MSGQ_STATUS_NO_MEMORY, s)
                         | Some r \<Rightarrow>
                             let R = new_result sender receiver m has_deadline deadline
                             in if sm_type flds = HORIZON_MSGQ_MSG_CALLBACK
                                then (case mm_callback mem of
                                        None \<Rightarrow> Some (HORIZON_MSGQ_STATUS_NO_MEMORY, s)
                                      | Some c \<Rightarrow>
                                          do { s \<leftarrow> link_result sender (\<lambda>q. q\<lparr>mq_callback_results := r # mq_callback_results q\<rparr>) r
                                                      (R\<lparr>rs_callback_msg := Some (callback_for c msg)\<rparr>) s;
                                               s \<leftarrow> queue_sent receiver (msg\<lparr>sm_data := [], sm_result := Some r\<rparr>) s;
                                               Some (0, s) })
                                else do { s \<leftarrow> link_result sender (\<lambda>q. q\<lparr>mq_send_results := r # mq_send_results q\<rparr>) r R s;
                                          s \<leftarrow> queue_sent receiver (msg\<lparr>sm_result := Some r\<rparr>) s;
                                          Some (0, s) })))"

definition horizon_msgq_receive :: "tid \<Rightarrow> horizon_msgqs \<Rightarrow> (horizon_msgq_sent option \<times> horizon_msgqs) option" where
  "horizon_msgq_receive t s =
     do { q \<leftarrow> qs_queue s t;
          case mq_sent q of
            [] \<Rightarrow> Some (None, s)
          | msg # _ \<Rightarrow>
              do { s \<leftarrow> upd_queue t (\<lambda>q. q\<lparr>mq_sent := horizon_msgq_unlink_sent (sm_addr msg) (mq_sent q)\<rparr>) s;
                   case sm_result msg of
                     None \<Rightarrow> Some (Some msg, s)
                   | Some r \<Rightarrow>
                       do { s \<leftarrow> upd_result r (\<lambda>R. R\<lparr>rs_msg := None\<rparr>) s;
                            s \<leftarrow> upd_queue t (\<lambda>q. q\<lparr>mq_recv_result := r # mq_recv_result q\<rparr>) s;
                            Some (Some (msg\<lparr>sm_result := None\<rparr>), s) } } }"

definition horizon_msgq_reply ::
    "tid \<Rightarrow> u64 \<Rightarrow> u32 \<Rightarrow> bool \<Rightarrow> u8 list \<Rightarrow> bool \<Rightarrow> horizon_msgqs \<Rightarrow> horizon_msgqs option" where
  "horizon_msgq_reply t val error remove data memory s =
     do { q \<leftarrow> qs_queue s t;
          case mq_recv_result q of
            [] \<Rightarrow> Some s
          | r # rest \<Rightarrow>
              do { R \<leftarrow> qs_result s r;
                   s \<leftarrow> (if remove
                         then do { s \<leftarrow> upd_queue t (\<lambda>q. q\<lparr>mq_recv_result := rest\<rparr>) s;
                                   upd_result r (\<lambda>R. R\<lparr>rs_receiver := None\<rparr>) s }
                         else Some s);
                   if remove \<and> rs_sender R = None then horizon_msgq_free_result r s
                   else if \<not> rs_replied R
                   then do { s \<leftarrow> (if data \<noteq> [] \<and> memory then upd_result r (\<lambda>R. R\<lparr>rs_data := data\<rparr>) s else Some s);
                             horizon_msgq_store_result r val error s }
                   else Some s } }"

record msgq_answer =
  ma_status :: u32
  ma_value :: u64
  ma_data :: "u8 list"

abbreviation (input) no_answer :: msgq_answer where
  "no_answer \<equiv> \<lparr>ma_status = HORIZON_MSGQ_STATUS_PENDING, ma_value = 0, ma_data = []\<rparr>"

definition horizon_msgq_get_reply :: "tid \<Rightarrow> bool \<Rightarrow> horizon_msgqs \<Rightarrow> (msgq_answer \<times> horizon_msgqs) option" where
  "horizon_msgq_get_reply t cancel s =
     do { q \<leftarrow> qs_queue s t;
          case mq_send_results q of
            [] \<Rightarrow> Some (no_answer, s)
          | r # _ \<Rightarrow>
              do { R \<leftarrow> qs_result s r;
                   if \<not> rs_replied R \<and> \<not> cancel then Some (no_answer, s)
                   else do { s \<leftarrow> (if rs_replied R then upd_result r (\<lambda>R. R\<lparr>rs_data := []\<rparr>) s else Some s);
                             s \<leftarrow> horizon_msgq_remove_result_from_sender r s;
                             q \<leftarrow> qs_queue s t;
                             replied \<leftarrow> head_replied s q;
                             s \<leftarrow> (if replied then upd_queue t (horizon_msgq_touch HORIZON_MSGQ_QS_SMRESULT) s else Some s);
                             Some (if rs_replied R then \<lparr>ma_status = rs_error R, ma_value = rs_result R, ma_data = rs_data R\<rparr>
                                   else no_answer, s) } } }"

section \<open>Deadlines\<close>

definition past_deadline :: "u64 \<Rightarrow> horizon_msgq_result \<Rightarrow> bool" where
  "past_deadline now R \<longleftrightarrow> \<not> (rs_replied R \<or> \<not> rs_has_deadline R \<or> rs_deadline R > now)"

text \<open>The first result of a list that is past its deadline.\<close>

fun scan_results :: "u64 \<Rightarrow> horizon_msgqs \<Rightarrow> ptr list \<Rightarrow> ptr option option" where
  "scan_results now s [] = Some None"
| "scan_results now s (r # rs) =
     do { R \<leftarrow> qs_result s r; if past_deadline now R then Some (Some r) else scan_results now s rs }"

fun scan_queues :: "u64 \<Rightarrow> horizon_msgqs \<Rightarrow> tid list \<Rightarrow> ptr option option" where
  "scan_queues now s [] = Some None"
| "scan_queues now s (t # ts) =
     do { q \<leftarrow> qs_queue s t;
          found \<leftarrow> scan_results now s (mq_send_results q @ mq_callback_results q);
          case found of Some r \<Rightarrow> Some (Some r) | None \<Rightarrow> scan_queues now s ts }"

definition expire_one :: "ptr \<Rightarrow> horizon_msgqs \<Rightarrow> horizon_msgqs option" where
  "expire_one r s =
     do { R \<leftarrow> qs_result s r;
          s \<leftarrow> upd_result r (\<lambda>R. R\<lparr>rs_has_deadline := False\<rparr>) s;
          s \<leftarrow> (case (rs_msg R, rs_receiver R) of
                 (Some m, Some t) \<Rightarrow>
                   do { q \<leftarrow> qs_queue s t;
                        s \<leftarrow> (if m \<in> sm_addr ` set (mq_sent q)
                              then upd_queue t (\<lambda>q. q\<lparr>mq_sent := horizon_msgq_unlink_sent m (mq_sent q)\<rparr>) s
                              else None);
                        upd_result r (\<lambda>R. R\<lparr>rs_msg := None, rs_receiver := None\<rparr>) s }
               | _ \<Rightarrow> Some s);
          horizon_msgq_store_result r 0 HORIZON_MSGQ_STATUS_TIMEOUT s }"

text \<open>
  The loop starts again after each result that timed out. It ends: every round takes one deadline away, and
  nothing it calls adds one.
\<close>

definition waiting_list :: "horizon_msgqs \<Rightarrow> tid \<Rightarrow> ptr list" where
  "waiting_list s t = (case qs_queue s t of None \<Rightarrow> [] | Some q \<Rightarrow> mq_send_results q @ mq_callback_results q)"

definition timed :: "horizon_msgqs \<Rightarrow> ptr \<Rightarrow> bool" where
  "timed s r \<longleftrightarrow> (case qs_result s r of None \<Rightarrow> False | Some R \<Rightarrow> rs_has_deadline R)"

definition pending :: "horizon_msgqs \<Rightarrow> nat" where
  "pending s = (\<Sum>t\<leftarrow>qs_order s. length (filter (timed s) (waiting_list s t)))"

definition shrinks :: "horizon_msgqs \<Rightarrow> horizon_msgqs \<Rightarrow> bool" where
  "shrinks s s' \<longleftrightarrow> qs_order s' = qs_order s \<and> (\<forall>r. timed s' r \<longrightarrow> timed s r) \<and>
     (\<forall>P t. length (filter P (waiting_list s' t)) \<le> length (filter P (waiting_list s t)))"

lemma shrinks_refl [simp]: "shrinks s s"
  by (simp add: shrinks_def)

lemma shrinks_trans: "shrinks s s' \<Longrightarrow> shrinks s' s'' \<Longrightarrow> shrinks s s''"
  by (auto simp: shrinks_def) (meson order_trans)+

lemma upd_queue_shrinks:
  assumes "upd_queue t f s = Some s'"
    and "\<And>q P. length (filter P (mq_send_results (f q) @ mq_callback_results (f q))) \<le>
                length (filter P (mq_send_results q @ mq_callback_results q))"
  shows "shrinks s s'"
  using assms by (auto simp: upd_queue_def shrinks_def waiting_list_def timed_def split: option.splits if_splits)

lemma upd_result_shrinks:
  assumes "upd_result r f s = Some s'" "\<And>R. rs_has_deadline (f R) \<Longrightarrow> rs_has_deadline R"
  shows "shrinks s s'"
  using assms by (auto simp: upd_result_def shrinks_def waiting_list_def timed_def split: option.splits if_splits)

lemma free_result_shrinks: "horizon_msgq_free_result r s = Some s' \<Longrightarrow> shrinks s s'"
  by (auto simp: horizon_msgq_free_result_def shrinks_def waiting_list_def timed_def bind_eq_Some_conv split: option.splits if_splits)

lemma remove_from_sender_shrinks: "horizon_msgq_remove_result_from_sender r s = Some s' \<Longrightarrow> shrinks s s'"
  by (auto simp: horizon_msgq_remove_result_from_sender_def bind_eq_Some_conv horizon_msgq_unlink_result_def filter_remove1
    length_remove1 intro: add_mono shrinks_trans dest!: upd_queue_shrinks upd_result_shrinks free_result_shrinks split: if_splits)

lemma queue_sent_shrinks: "queue_sent t msg s = Some s' \<Longrightarrow> shrinks s s'"
  unfolding queue_sent_def by (erule upd_queue_shrinks) (simp add: horizon_msgq_touch_def)

lemma store_result_shrinks:
  assumes "horizon_msgq_store_result r val e s = Some s'"
  shows "shrinks s s'"
proof -
  from assms obtain R s1 where R: "qs_result s r = Some R"
    and s1: "upd_result r (\<lambda>R. R\<lparr>rs_result := val, rs_error := e, rs_replied := True, rs_has_deadline := False\<rparr>) s = Some s1"
    by (auto simp: horizon_msgq_store_result_def bind_eq_Some_conv)
  have a: "shrinks s s1" by (rule upd_result_shrinks [OF s1]) simp
  have "shrinks s1 s'"
  proof (cases "rs_sender R")
    case None
    then show ?thesis using assms R s1
      by (auto simp: horizon_msgq_store_result_def dest: free_result_shrinks split: if_splits)
  next
    case (Some t)
    show ?thesis
    proof (cases "rs_callback_msg R")
      case None
      with Some assms R s1 obtain q where q: "qs_queue s1 t = Some q"
        and "(if mq_send_results q \<noteq> [] \<and> hd (mq_send_results q) = r
              then upd_queue t (horizon_msgq_touch HORIZON_MSGQ_QS_SMRESULT) s1 else Some s1) = Some s'"
        by (auto simp: horizon_msgq_store_result_def bind_eq_Some_conv)
      then show ?thesis by (auto simp: horizon_msgq_touch_def dest!: upd_queue_shrinks split: if_splits)
    next
      case (Some c)
      with \<open>rs_sender R = Some t\<close> assms R s1 obtain s2 s3 where "queue_sent t (put_value val c) s1 = Some s2"
        "upd_result r (\<lambda>R. R\<lparr>rs_callback_msg := None\<rparr>) s2 = Some s3" "horizon_msgq_remove_result_from_sender r s3 = Some s'"
        by (auto simp: horizon_msgq_store_result_def bind_eq_Some_conv)
      then have "shrinks s1 s2" "shrinks s2 s3" "shrinks s3 s'"
        by (auto dest: queue_sent_shrinks upd_result_shrinks remove_from_sender_shrinks)
      then show ?thesis by (blast intro: shrinks_trans)
    qed
  qed
  with a show ?thesis by (rule shrinks_trans)
qed

lemma length_filter_le: "(\<And>x. P x \<Longrightarrow> Q x) \<Longrightarrow> length (filter P xs) \<le> length (filter Q xs)"
  by (induction xs) (auto simp: le_SucI)

lemma length_filter_less:
  "(\<And>x. P x \<Longrightarrow> Q x) \<Longrightarrow> y \<in> set xs \<Longrightarrow> Q y \<Longrightarrow> \<not> P y \<Longrightarrow> length (filter P xs) < length (filter Q xs)"
  by (induction xs) (auto simp: less_Suc_eq_le length_filter_le)

lemma sum_list_less:
  fixes f g :: "'a \<Rightarrow> nat"
  assumes "\<And>x. f x \<le> g x" "y \<in> set xs" "f y < g y"
  shows "(\<Sum>x\<leftarrow>xs. f x) < (\<Sum>x\<leftarrow>xs. g x)"
  using assms(2,3)
proof (induction xs)
  case (Cons x xs)
  have le: "(\<Sum>x\<leftarrow>xs. f x) \<le> (\<Sum>x\<leftarrow>xs. g x)" using assms(1) by (intro sum_list_mono)
  show ?case
  proof (cases "y = x")
    case True
    then show ?thesis using le Cons.prems(2) by simp
  next
    case False
    then show ?thesis using Cons assms(1) [of x] by simp
  qed
qed simp

lemma shrinks_pending:
  assumes "shrinks s s'"
  shows "pending s' \<le> pending s"
proof -
  have "length (filter (timed s') (waiting_list s' t)) \<le> length (filter (timed s) (waiting_list s t))" for t
  proof -
    have "length (filter (timed s') (waiting_list s' t)) \<le> length (filter (timed s) (waiting_list s' t))"
      using assms by (intro length_filter_le) (simp add: shrinks_def)
    then show ?thesis using assms by (auto simp: shrinks_def intro: order_trans)
  qed
  then show ?thesis using assms by (auto simp: pending_def shrinks_def intro: sum_list_mono)
qed

lemma scan_results_found:
  "scan_results now s rs = Some (Some r) \<Longrightarrow> r \<in> set rs \<and> (\<exists>R. qs_result s r = Some R \<and> past_deadline now R)"
  by (induction rs) (auto simp: bind_eq_Some_conv split: if_splits)

lemma scan_queues_found:
  "scan_queues now s ts = Some (Some r) \<Longrightarrow>
     (\<exists>t\<in>set ts. r \<in> set (waiting_list s t)) \<and> (\<exists>R. qs_result s r = Some R \<and> past_deadline now R)"
  by (induction ts) (auto simp: bind_eq_Some_conv waiting_list_def dest!: scan_results_found split: option.splits)



lemma expire_one_steps:
  assumes "expire_one r s = Some s'"
  obtains s1 where "upd_result r (\<lambda>R. R\<lparr>rs_has_deadline := False\<rparr>) s = Some s1" "shrinks s1 s'"
proof -
  from assms obtain R s1 s2 where R: "qs_result s r = Some R" and s1: "upd_result r (\<lambda>R. R\<lparr>rs_has_deadline := False\<rparr>) s = Some s1"
    and s2: "(case (rs_msg R, rs_receiver R) of
        (Some m, Some t) \<Rightarrow>
          do { q \<leftarrow> qs_queue s1 t;
               s \<leftarrow> (if m \<in> sm_addr ` set (mq_sent q)
                     then upd_queue t (\<lambda>q. q\<lparr>mq_sent := horizon_msgq_unlink_sent m (mq_sent q)\<rparr>) s1 else None);
               upd_result r (\<lambda>R. R\<lparr>rs_msg := None, rs_receiver := None\<rparr>) s }
      | _ \<Rightarrow> Some s1) = Some s2"
    and s': "horizon_msgq_store_result r 0 HORIZON_MSGQ_STATUS_TIMEOUT s2 = Some s'"
    by (auto simp: expire_one_def bind_eq_Some_conv)
  have "shrinks s1 s2" using s2
    by (auto simp: bind_eq_Some_conv split: option.splits if_splits intro: shrinks_trans dest!: upd_queue_shrinks upd_result_shrinks)
  then have "shrinks s1 s'" using store_result_shrinks [OF s'] by (rule shrinks_trans)
  with s1 that show thesis by blast
qed

lemma expire_one_pending:
  assumes "scan_queues now s (qs_order s) = Some (Some r)" "expire_one r s = Some s'"
  shows "pending s' < pending s"
proof -
  from scan_queues_found [OF assms(1)] obtain t R where t: "t \<in> set (qs_order s)" "r \<in> set (waiting_list s t)"
    and R: "qs_result s r = Some R" "rs_has_deadline R" by (auto simp: past_deadline_def)
  obtain s1 where s1: "upd_result r (\<lambda>R. R\<lparr>rs_has_deadline := False\<rparr>) s = Some s1" and le: "shrinks s1 s'"
    by (rule expire_one_steps [OF assms(2)])
  have timed1: "timed s1 x \<longleftrightarrow> timed s x \<and> x \<noteq> r" for x using s1 R by (auto simp: upd_result_def timed_def split: if_splits)
  have tr: "timed s r" using R by (simp add: timed_def)
  have w: "waiting_list s1 = waiting_list s" "qs_order s1 = qs_order s"
    using s1 R by (auto simp: upd_result_def waiting_list_def fun_eq_iff)
  have "pending s1 < pending s" unfolding pending_def w
  proof (rule sum_list_less [OF _ t(1)])
    show "length (filter (timed s1) (waiting_list s x)) \<le> length (filter (timed s) (waiting_list s x))" for x
      by (rule length_filter_le) (simp add: timed1)
    show "length (filter (timed s1) (waiting_list s t)) < length (filter (timed s) (waiting_list s t))"
      by (rule length_filter_less [OF _ t(2)]) (use tr in \<open>simp_all add: timed1\<close>)
  qed
  with shrinks_pending [OF le] show ?thesis by simp
qed

function horizon_msgq_expire :: "u64 \<Rightarrow> horizon_msgqs \<Rightarrow> (bool \<times> horizon_msgqs) option" where
  "horizon_msgq_expire now s =
     (case scan_queues now s (qs_order s) of
        None \<Rightarrow> None
      | Some None \<Rightarrow> Some (False, s)
      | Some (Some r) \<Rightarrow>
          (case expire_one r s of
             None \<Rightarrow> None
           | Some s' \<Rightarrow> map_option (\<lambda>(_, s''). (True, s'')) (horizon_msgq_expire now s')))"
  by pat_completeness auto
termination
  by (relation "measure (\<lambda>(now, s). pending s)") (auto dest: expire_one_pending)

declare horizon_msgq_expire.simps [simp del]

section \<open>A thread is gone\<close>

text \<open>
  The loops of \<open>horizon_msgq_destroy\<close>. Each takes the head of a list as long as there is one: that it ends is a
  fact about the heap, so a loop that does not end is \<open>None\<close> as well.
\<close>

partial_function (option) drop_send_results :: "tid \<Rightarrow> horizon_msgqs \<Rightarrow> horizon_msgqs option" where
  "drop_send_results t s =
     (case qs_queue s t of
        None \<Rightarrow> None
      | Some q \<Rightarrow>
          (case mq_send_results q of
             [] \<Rightarrow> Some s
           | r # _ \<Rightarrow> Option.bind (horizon_msgq_remove_result_from_sender r s) (drop_send_results t)))"

partial_function (option) drop_callback_results :: "tid \<Rightarrow> horizon_msgqs \<Rightarrow> horizon_msgqs option" where
  "drop_callback_results t s =
     (case qs_queue s t of
        None \<Rightarrow> None
      | Some q \<Rightarrow>
          (case mq_callback_results q of
             [] \<Rightarrow> Some s
           | r # _ \<Rightarrow> Option.bind (horizon_msgq_remove_result_from_sender r s) (drop_callback_results t)))"

partial_function (option) refuse_received :: "tid \<Rightarrow> horizon_msgqs \<Rightarrow> horizon_msgqs option" where
  "refuse_received t s =
     (case qs_queue s t of
        None \<Rightarrow> None
      | Some q \<Rightarrow>
          (case mq_recv_result q of
             [] \<Rightarrow> Some s
           | _ \<Rightarrow> Option.bind (horizon_msgq_reply t 0 HORIZON_MSGQ_STATUS_ACCESS_DENIED True [] True s) (refuse_received t)))"

partial_function (option) refuse_sent :: "tid \<Rightarrow> horizon_msgqs \<Rightarrow> horizon_msgqs option" where
  "refuse_sent t s =
     (case qs_queue s t of
        None \<Rightarrow> None
      | Some q \<Rightarrow>
          (case mq_sent q of
             [] \<Rightarrow> Some s
           | msg # _ \<Rightarrow>
               Option.bind (upd_queue t (\<lambda>q. q\<lparr>mq_sent := horizon_msgq_unlink_sent (sm_addr msg) (mq_sent q)\<rparr>) s)
                 (\<lambda>s. Option.bind (horizon_msgq_free_sent msg s) (refuse_sent t))))"

definition horizon_msgq_destroy :: "tid \<Rightarrow> horizon_msgqs \<Rightarrow> horizon_msgqs option" where
  "horizon_msgq_destroy t s =
     do { s \<leftarrow> drop_send_results t s;
          s \<leftarrow> drop_callback_results t s;
          s \<leftarrow> refuse_received t s;
          s \<leftarrow> refuse_sent t s;
          Some (s\<lparr>qs_order := remove1 t (qs_order s), qs_queue := (qs_queue s)(t := None)\<rparr>) }"

section \<open>The invariant\<close>

type_synonym lists = "tid \<Rightarrow> ptr list"
type_synonym results = "ptr \<Rightarrow> horizon_msgq_result option"

definition send_of :: "(tid \<Rightarrow> horizon_msgq option) \<Rightarrow> lists" where
  "send_of Q t = (case Q t of None \<Rightarrow> [] | Some q \<Rightarrow> mq_send_results q)"

definition back_of :: "(tid \<Rightarrow> horizon_msgq option) \<Rightarrow> lists" where
  "back_of Q t = (case Q t of None \<Rightarrow> [] | Some q \<Rightarrow> mq_callback_results q)"

definition recv_of :: "(tid \<Rightarrow> horizon_msgq option) \<Rightarrow> lists" where
  "recv_of Q t = (case Q t of None \<Rightarrow> [] | Some q \<Rightarrow> mq_recv_result q)"

definition sent_of :: "(tid \<Rightarrow> horizon_msgq option) \<Rightarrow> tid \<Rightarrow> horizon_msgq_sent list" where
  "sent_of Q t = (case Q t of None \<Rightarrow> [] | Some q \<Rightarrow> mq_sent q)"

lemmas of_defs = send_of_def back_of_def recv_of_def sent_of_def

lemma of_upd [simp]:
  "send_of (Q(t \<mapsto> q)) = (send_of Q)(t := mq_send_results q)"
  "back_of (Q(t \<mapsto> q)) = (back_of Q)(t := mq_callback_results q)"
  "recv_of (Q(t \<mapsto> q)) = (recv_of Q)(t := mq_recv_result q)"
  "sent_of (Q(t \<mapsto> q)) = (sent_of Q)(t := mq_sent q)"
  by (auto simp: of_defs fun_eq_iff)

lemma of_free [simp]:
  "send_of (Q(t := None)) = (send_of Q)(t := [])"
  "back_of (Q(t := None)) = (back_of Q)(t := [])"
  "recv_of (Q(t := None)) = (recv_of Q)(t := [])"
  "sent_of (Q(t := None)) = (sent_of Q)(t := [])"
  by (auto simp: of_defs fun_eq_iff)

lemma of_queue:
  assumes "Q t = Some q"
  shows "mq_send_results q = send_of Q t" "mq_callback_results q = back_of Q t" "mq_recv_result q = recv_of Q t" "mq_sent q = sent_of Q t"
  using assms by (simp_all add: of_defs)

text \<open>A result is in a list of its sender, in the one its kind asks for, and in no other list, as long as it has a sender.\<close>

definition senders_ok :: "lists \<Rightarrow> lists \<Rightarrow> results \<Rightarrow> bool" where
  "senders_ok A B H \<longleftrightarrow> (\<forall>t. distinct (A t) \<and> distinct (B t)) \<and>
     (\<forall>t r. r \<in> set (A t) \<longleftrightarrow> (\<exists>R. H r = Some R \<and> rs_sender R = Some t \<and> rs_callback_msg R = None)) \<and>
     (\<forall>t r. r \<in> set (B t) \<longleftrightarrow> (\<exists>R. H r = Some R \<and> rs_sender R = Some t \<and> rs_callback_msg R \<noteq> None))"

text \<open>A result that has a receiver and whose message was received is on the stack of the receiver.\<close>

definition receivers_ok :: "lists \<Rightarrow> results \<Rightarrow> bool" where
  "receivers_ok V H \<longleftrightarrow> (\<forall>t. distinct (V t)) \<and>
     (\<forall>t r. r \<in> set (V t) \<longleftrightarrow> (\<exists>R. H r = Some R \<and> rs_receiver R = Some t \<and> rs_msg R = None))"

text \<open>A result and its message that is not yet received point at each other, and the message is in the queue of the receiver.\<close>

definition messages_ok :: "(tid \<Rightarrow> horizon_msgq_sent list) \<Rightarrow> results \<Rightarrow> bool" where
  "messages_ok M H \<longleftrightarrow> (\<forall>t. distinct (map sm_addr (M t))) \<and>
     (\<forall>r R m. H r = Some R \<and> rs_msg R = Some m \<longrightarrow>
        (\<exists>t msg. rs_receiver R = Some t \<and> msg \<in> set (M t) \<and> sm_addr msg = m \<and> sm_result msg = Some r)) \<and>
     (\<forall>t msg r. msg \<in> set (M t) \<and> sm_result msg = Some r \<longrightarrow>
        (\<exists>R. H r = Some R \<and> rs_msg R = Some (sm_addr msg) \<and> rs_receiver R = Some t))"

text \<open>A callback message waits outside every queue until the result is there.\<close>

definition callbacks_ok :: "(tid \<Rightarrow> horizon_msgq_sent list) \<Rightarrow> results \<Rightarrow> bool" where
  "callbacks_ok M H \<longleftrightarrow>
     (\<forall>r R c. H r = Some R \<and> rs_callback_msg R = Some c \<longrightarrow>
        sm_result c = None \<and> (\<forall>t. sm_addr c \<notin> sm_addr ` set (M t)) \<and> (rs_sender R \<noteq> None \<longrightarrow> \<not> rs_replied R)) \<and>
     (\<forall>r R c r' R' c'. H r = Some R \<and> rs_callback_msg R = Some c \<and> H r' = Some R' \<and> rs_callback_msg R' = Some c' \<and>
        sm_addr c = sm_addr c' \<longrightarrow> r = r')"

text \<open>
  Somebody holds every result, and somebody will answer it when it has no answer; the results in \<open>X\<close> are being
  handled. A message that was not received has no answer.
\<close>

definition owned_ok :: "ptr set \<Rightarrow> results \<Rightarrow> bool" where
  "owned_ok X H \<longleftrightarrow> (\<forall>r R. H r = Some R \<longrightarrow> (rs_replied R \<longrightarrow> rs_msg R = None)) \<and>
     (\<forall>r R. H r = Some R \<and> r \<notin> X \<longrightarrow>
        (rs_sender R \<noteq> None \<or> rs_receiver R \<noteq> None) \<and> (rs_replied R \<or> rs_receiver R \<noteq> None))"

definition heap_ok ::
    "ptr set \<Rightarrow> lists \<Rightarrow> lists \<Rightarrow> lists \<Rightarrow> (tid \<Rightarrow> horizon_msgq_sent list) \<Rightarrow> results \<Rightarrow> bool" where
  "heap_ok X A B V M H \<longleftrightarrow> senders_ok A B H \<and> receivers_ok V H \<and> messages_ok M H \<and> callbacks_ok M H \<and> owned_ok X H"

definition msgq_ok :: "ptr set \<Rightarrow> horizon_msgqs \<Rightarrow> bool" where
  "msgq_ok X s \<longleftrightarrow> distinct (qs_order s) \<and> set (qs_order s) = dom (qs_queue s) \<and>
     heap_ok X (send_of (qs_queue s)) (back_of (qs_queue s)) (recv_of (qs_queue s)) (sent_of (qs_queue s)) (qs_result s)"

subsection \<open>Steps on the heap\<close>

lemma unlinked:
  assumes "senders_ok A B H" "H r = Some R" "rs_sender R = Some t"
  shows "senders_ok (A(t := remove1 r (A t))) (B(t := remove1 r (B t))) (H(r \<mapsto> R\<lparr>rs_sender := None, rs_callback_msg := c\<rparr>))"
  using assms unfolding senders_ok_def by (auto split: if_splits)

lemma heap_drop_sender:
  assumes ok: "heap_ok X A B V M H" and R: "H r = Some R" "rs_sender R = Some t"
  shows "heap_ok (if rs_receiver R = None then insert r X else X) (A(t := remove1 r (A t))) (B(t := remove1 r (B t))) V M (H(r \<mapsto> R\<lparr>rs_sender := None\<rparr>))"
proof -
  have "senders_ok (A(t := remove1 r (A t))) (B(t := remove1 r (B t))) (H(r \<mapsto> R\<lparr>rs_sender := None\<rparr>))"
    using unlinked [of A B H r R t "rs_callback_msg R"] R ok by (simp add: heap_ok_def)
  moreover have "receivers_ok V (H(r \<mapsto> R\<lparr>rs_sender := None\<rparr>))" using ok R by (auto simp: heap_ok_def receivers_ok_def)
  moreover have "messages_ok M (H(r \<mapsto> R\<lparr>rs_sender := None\<rparr>))" using ok R by (fastforce simp: heap_ok_def messages_ok_def)
  moreover have "callbacks_ok M (H(r \<mapsto> R\<lparr>rs_sender := None\<rparr>))" using ok R unfolding heap_ok_def callbacks_ok_def by (auto split: if_splits)
  moreover have "owned_ok (if rs_receiver R = None then insert r X else X) (H(r \<mapsto> R\<lparr>rs_sender := None\<rparr>))" using ok R by (auto simp: heap_ok_def owned_ok_def)
  ultimately show ?thesis by (simp add: heap_ok_def)
qed

lemma no_receiver:
  assumes "heap_ok X A B V M H" "H r = Some R" "rs_receiver R = None"
  shows "rs_msg R = None"
  using assms unfolding heap_ok_def messages_ok_def by (metis not_None_eq option.distinct(1))

lemma heap_free:
  assumes ok: "heap_ok X A B V M H" and R: "H r = Some R" "rs_sender R = None" "rs_receiver R = None"
  shows "heap_ok (X - {r}) A B V M (H(r := None))"
proof -
  have m: "rs_msg R = None" by (rule no_receiver [OF ok R(1,3)])
  have "senders_ok A B (H(r := None))" using ok R by (auto simp: heap_ok_def senders_ok_def)
  moreover have "receivers_ok V (H(r := None))" using ok R by (auto simp: heap_ok_def receivers_ok_def)
  moreover have "messages_ok M (H(r := None))" using ok R m by (fastforce simp: heap_ok_def messages_ok_def)
  moreover have "callbacks_ok M (H(r := None))" using ok R unfolding heap_ok_def callbacks_ok_def by (auto split: if_splits)
  moreover have "owned_ok (X - {r}) (H(r := None))" using ok by (auto simp: heap_ok_def owned_ok_def)
  ultimately show ?thesis by (simp add: heap_ok_def)
qed

lemma owned_upd:
  assumes "owned_ok X H" "rs_replied R' \<Longrightarrow> rs_msg R' = None" "X - {r} \<subseteq> Y"
    "r \<notin> Y \<Longrightarrow> (rs_sender R' \<noteq> None \<or> rs_receiver R' \<noteq> None) \<and> (rs_replied R' \<or> rs_receiver R' \<noteq> None)"
  shows "owned_ok Y (H(r \<mapsto> R'))"
proof -
  have "r' \<notin> X" if "r' \<noteq> r" "r' \<notin> Y" for r' using assms(3) that by auto
  then show ?thesis using assms(1,2,4) unfolding owned_ok_def by (metis fun_upd_other fun_upd_same option.inject)
qed

lemma heap_ok_mono: "heap_ok X A B V M H \<Longrightarrow> X \<subseteq> Y \<Longrightarrow> heap_ok Y A B V M H"
  unfolding heap_ok_def owned_ok_def by blast

text \<open>A change of one result that keeps its links, and when it answers it, is no answer to a callback still due.\<close>

lemma heap_result:
  assumes ok: "heap_ok X A B V M H" and R: "H r = Some R"
    and R': "rs_msg R' = rs_msg R" "rs_sender R' = rs_sender R" "rs_receiver R' = rs_receiver R" "rs_callback_msg R' = rs_callback_msg R"
      "rs_replied R \<Longrightarrow> rs_replied R'" "rs_replied R' \<Longrightarrow> rs_replied R \<or> rs_msg R = None \<and> (rs_sender R = None \<or> rs_callback_msg R = None)"
    and X: "r \<notin> Y \<Longrightarrow> (rs_sender R \<noteq> None \<or> rs_receiver R \<noteq> None) \<and> (rs_replied R' \<or> rs_receiver R \<noteq> None)" "X - {r} \<subseteq> Y"
  shows "heap_ok Y A B V M (H(r \<mapsto> R'))"
proof -
  have "senders_ok A B (H(r \<mapsto> R'))" using ok R R' by (auto simp: heap_ok_def senders_ok_def)
  moreover have "receivers_ok V (H(r \<mapsto> R'))" using ok R R' by (auto simp: heap_ok_def receivers_ok_def)
  moreover have "messages_ok M (H(r \<mapsto> R'))" using ok R R' by (fastforce simp: heap_ok_def messages_ok_def)
  moreover have "callbacks_ok M (H(r \<mapsto> R'))" using ok R R' unfolding heap_ok_def callbacks_ok_def
    by (auto split: if_splits)
  moreover have "owned_ok Y (H(r \<mapsto> R'))"
  proof (rule owned_upd [of X H])
    show "rs_replied R' \<Longrightarrow> rs_msg R' = None" using ok R R' by (auto simp: heap_ok_def owned_ok_def)
  qed (use ok R' X in \<open>auto simp: heap_ok_def\<close>)
  ultimately show ?thesis by (simp add: heap_ok_def)
qed

lemma put_value_same [simp]: "sm_addr (put_value val c) = sm_addr c" "sm_result (put_value val c) = sm_result c"
  by (simp_all add: put_value_def)

lemma heap_callback:
  assumes ok: "heap_ok {r} A B V M H" and R: "H r = Some R" "rs_sender R = Some t" "rs_callback_msg R = Some c" "rs_msg R = None"
    and c': "sm_addr c' = sm_addr c" "sm_result c' = sm_result c"
    and R': "rs_msg R' = rs_msg R" "rs_sender R' = None" "rs_receiver R' = rs_receiver R" "rs_callback_msg R' = None" "rs_replied R'"
  shows "heap_ok (if rs_receiver R = None then {r} else {}) (A(t := remove1 r (A t))) (B(t := remove1 r (B t))) V
    (M(t := M t @ [c'])) (H(r \<mapsto> R'))"
proof -
  have c: "sm_result c = None" "\<forall>t. sm_addr c \<notin> sm_addr ` set (M t)"
    using ok R unfolding heap_ok_def callbacks_ok_def by blast+
  have "senders_ok (A(t := remove1 r (A t))) (B(t := remove1 r (B t))) (H(r \<mapsto> R'))"
    using ok R R' unfolding heap_ok_def senders_ok_def by (auto split: if_splits)
  moreover have "receivers_ok V (H(r \<mapsto> R'))" using ok R R' by (auto simp: heap_ok_def receivers_ok_def)
  moreover have "messages_ok (M(t := M t @ [c'])) (H(r \<mapsto> R'))" using ok R R' c c'
    by (fastforce simp: heap_ok_def messages_ok_def)
  moreover have "callbacks_ok (M(t := M t @ [c'])) (H(r \<mapsto> R'))" using ok R R' c c' unfolding heap_ok_def callbacks_ok_def
    by (auto split: if_splits)
  moreover have "owned_ok (if rs_receiver R = None then {r} else {}) (H(r \<mapsto> R'))" using ok R R' by (auto simp: heap_ok_def owned_ok_def)
  ultimately show ?thesis by (simp add: heap_ok_def)
qed

lemma message_result:
  assumes "heap_ok X A B V M H" "msg \<in> set (M t)" "sm_result msg = Some r"
  shows "\<exists>R. H r = Some R \<and> rs_msg R = Some (sm_addr msg) \<and> rs_receiver R = Some t"
  using assms unfolding heap_ok_def messages_ok_def by blast

lemma messages_ok_swap:
  assumes ok: "messages_ok M (H(r \<mapsto> R1))" and none: "rs_msg R1 = None" "rs_msg R2 = None"
  shows "messages_ok M (H(r \<mapsto> R2))"
  unfolding messages_ok_def
proof (intro conjI allI impI)
  fix t show "distinct (map sm_addr (M t))" using ok by (simp add: messages_ok_def)
next
  fix x R m assume "(H(r \<mapsto> R2)) x = Some R \<and> rs_msg R = Some m"
  then have "(H(r \<mapsto> R1)) x = Some R \<and> rs_msg R = Some m" using none by (auto split: if_splits)
  then show "\<exists>t msg. rs_receiver R = Some t \<and> msg \<in> set (M t) \<and> sm_addr msg = m \<and> sm_result msg = Some x"
    using ok unfolding messages_ok_def by blast
next
  fix t msg x assume "msg \<in> set (M t) \<and> sm_result msg = Some x"
  then obtain R where "(H(r \<mapsto> R1)) x = Some R" "rs_msg R = Some (sm_addr msg)" "rs_receiver R = Some t"
    using ok unfolding messages_ok_def by blast
  then show "\<exists>R. (H(r \<mapsto> R2)) x = Some R \<and> rs_msg R = Some (sm_addr msg) \<and> rs_receiver R = Some t"
    using none by (auto split: if_splits)
qed

lemma callbacks_ok_sub:
  assumes "callbacks_ok M H" "\<And>t. set (M' t) \<subseteq> set (M t)"
  shows "callbacks_ok M' H"
proof -
  have "x \<notin> sm_addr ` set (M' t)" if "x \<notin> sm_addr ` set (M t)" for x t using assms(2) [of t] that by auto
  then show ?thesis using assms(1) unfolding callbacks_ok_def by blast
qed

lemma callbacks_ok_less:
  assumes "callbacks_ok M H" "\<And>t. set (M' t) \<subseteq> set (M t)" "H r = Some R"
    "rs_callback_msg R' = rs_callback_msg R" "rs_sender R' = rs_sender R" "rs_replied R' = rs_replied R"
  shows "callbacks_ok M' (H(r \<mapsto> R'))"
proof (rule callbacks_ok_sub [OF _ assms(2)])
  show "callbacks_ok M (H(r \<mapsto> R'))" using assms(1,3-) unfolding callbacks_ok_def by (auto split: if_splits)
qed

lemma unlink_sent_set:
  "distinct (map sm_addr Ms) \<Longrightarrow> set (horizon_msgq_unlink_sent m Ms) = {msg \<in> set Ms. sm_addr msg \<noteq> m}"
  by (induction Ms) (auto simp: image_iff)

lemma unlink_sent_distinct: "distinct (map sm_addr Ms) \<Longrightarrow> distinct (map sm_addr (horizon_msgq_unlink_sent m Ms))"
  by (induction Ms) (auto simp: unlink_sent_set)

lemma heap_unlink_sent:
  assumes ok: "heap_ok X A B V M H" and R: "H r = Some R" "rs_msg R = Some m" "rs_receiver R = Some t"
  shows "heap_ok (insert r X) A B V (M(t := horizon_msgq_unlink_sent m (M t))) (H(r \<mapsto> R\<lparr>rs_msg := None, rs_receiver := None\<rparr>))"
proof -
  let ?R = "R\<lparr>rs_msg := None, rs_receiver := None\<rparr>"
  have d: "distinct (map sm_addr (M t))" using ok by (simp add: heap_ok_def messages_ok_def)
  have "senders_ok A B (H(r \<mapsto> ?R))" using ok R by (auto simp: heap_ok_def senders_ok_def)
  moreover have "receivers_ok V (H(r \<mapsto> ?R))" using ok R by (auto simp: heap_ok_def receivers_ok_def)
  moreover have "messages_ok (M(t := horizon_msgq_unlink_sent m (M t))) (H(r \<mapsto> ?R))" unfolding messages_ok_def
  proof (intro conjI allI impI)
    fix x show "distinct (map sm_addr ((M(t := horizon_msgq_unlink_sent m (M t))) x))"
      using ok d by (simp add: heap_ok_def messages_ok_def unlink_sent_distinct)
  next
    fix r' R' m' assume a: "(H(r \<mapsto> ?R)) r' = Some R' \<and> rs_msg R' = Some m'"
    then have "r' \<noteq> r" "H r' = Some R'" by (auto split: if_splits)
    then obtain t' msg where b: "rs_receiver R' = Some t'" "msg \<in> set (M t')" "sm_addr msg = m'" "sm_result msg = Some r'"
      using ok a unfolding heap_ok_def messages_ok_def by blast
    have "sm_addr msg \<noteq> m" if "t' = t"
    proof
      assume "sm_addr msg = m"
      moreover obtain msg2 where "msg2 \<in> set (M t)" "sm_addr msg2 = m" "sm_result msg2 = Some r"
        using ok R unfolding heap_ok_def messages_ok_def by (metis option.inject)
      ultimately have "msg2 = msg" using d b(2) that by (auto simp: distinct_map inj_on_def)
      with \<open>sm_result msg2 = Some r\<close> b(4) \<open>r' \<noteq> r\<close> show False by simp
    qed
    then show "\<exists>t' msg. rs_receiver R' = Some t' \<and> msg \<in> set ((M(t := horizon_msgq_unlink_sent m (M t))) t') \<and> sm_addr msg = m' \<and> sm_result msg = Some r'"
      using b d by (auto simp: unlink_sent_set)
  next
    fix t' msg r' assume a: "msg \<in> set ((M(t := horizon_msgq_unlink_sent m (M t))) t') \<and> sm_result msg = Some r'"
    then have b: "msg \<in> set (M t')" "t' = t \<Longrightarrow> sm_addr msg \<noteq> m" using d by (auto simp: unlink_sent_set split: if_splits)
    then obtain R' where c: "H r' = Some R'" "rs_msg R' = Some (sm_addr msg)" "rs_receiver R' = Some t'"
      using ok a unfolding heap_ok_def messages_ok_def by blast
    then have "r' \<noteq> r" using R b(2) by auto
    then show "\<exists>R'. (H(r \<mapsto> ?R)) r' = Some R' \<and> rs_msg R' = Some (sm_addr msg) \<and> rs_receiver R' = Some t'" using c by simp
  qed
  moreover have "callbacks_ok (M(t := horizon_msgq_unlink_sent m (M t))) (H(r \<mapsto> ?R))"
    using ok R by (intro callbacks_ok_less [of M H]) (auto simp: heap_ok_def unlink_sent_set [OF d])
  moreover have "owned_ok (insert r X) (H(r \<mapsto> ?R))" using ok R by (auto simp: heap_ok_def owned_ok_def)
  ultimately show ?thesis by (simp add: heap_ok_def)
qed

lemma heap_receive:
  assumes ok: "heap_ok X A B V M H" and msg: "M t = msg # rest" "sm_result msg = Some r" and R: "H r = Some R"
  shows "heap_ok X A B (V(t := r # V t)) (M(t := rest)) (H(r \<mapsto> R\<lparr>rs_msg := None\<rparr>))"
proof -
  let ?R = "R\<lparr>rs_msg := None\<rparr>"
  have r: "rs_msg R = Some (sm_addr msg)" "rs_receiver R = Some t" using message_result [OF ok, of msg t r] msg R by auto
  have v: "r \<notin> set (V t)" using ok R r by (auto simp: heap_ok_def receivers_ok_def)
  have "senders_ok A B (H(r \<mapsto> ?R))" using ok R by (auto simp: heap_ok_def senders_ok_def)
  moreover have "receivers_ok (V(t := r # V t)) (H(r \<mapsto> ?R))" using ok R r v by (auto simp: heap_ok_def receivers_ok_def)
  moreover have "messages_ok (M(t := rest)) (H(r \<mapsto> ?R))"
  proof -
    have u: "horizon_msgq_unlink_sent (sm_addr msg) (M t) = rest" using msg by simp
    have "messages_ok (M(t := rest)) (H(r \<mapsto> R\<lparr>rs_msg := None, rs_receiver := None\<rparr>))"
      using heap_unlink_sent [OF ok R r] unfolding u by (simp add: heap_ok_def)
    then show ?thesis by (rule messages_ok_swap) simp_all
  qed
  moreover have "callbacks_ok (M(t := rest)) (H(r \<mapsto> ?R))"
    using ok R by (intro callbacks_ok_less [of M H]) (auto simp: heap_ok_def msg)
  moreover have "owned_ok X (H(r \<mapsto> ?R))" using ok R by (auto simp: heap_ok_def owned_ok_def)
  ultimately show ?thesis by (simp add: heap_ok_def)
qed

lemma heap_take_plain:
  assumes ok: "heap_ok X A B V M H" and msg: "M t = msg # rest" "sm_result msg = None"
  shows "heap_ok X A B V (M(t := rest)) H"
proof -
  have m: "messages_ok M H" using ok by (simp add: heap_ok_def)
  have "messages_ok (M(t := rest)) H" unfolding messages_ok_def
  proof (intro conjI allI impI)
    fix x show "distinct (map sm_addr ((M(t := rest)) x))" using m msg by (auto simp: messages_ok_def dest: spec [of _ t])
  next
    fix r R m' assume "H r = Some R \<and> rs_msg R = Some m'"
    then obtain t' msg' where "rs_receiver R = Some t'" "msg' \<in> set (M t')" "sm_addr msg' = m'" "sm_result msg' = Some r"
      using m unfolding messages_ok_def by blast
    then show "\<exists>t' msg'. rs_receiver R = Some t' \<and> msg' \<in> set ((M(t := rest)) t') \<and> sm_addr msg' = m' \<and> sm_result msg' = Some r"
      using msg by (intro exI [of _ t'] exI [of _ msg']) auto
  next
    fix t' msg' r assume "msg' \<in> set ((M(t := rest)) t') \<and> sm_result msg' = Some r"
    then have "msg' \<in> set (M t') \<and> sm_result msg' = Some r" using msg by (auto split: if_splits)
    then show "\<exists>R. H r = Some R \<and> rs_msg R = Some (sm_addr msg') \<and> rs_receiver R = Some t'" using m unfolding messages_ok_def by blast
  qed
  moreover have "callbacks_ok (M(t := rest)) H"
    by (rule callbacks_ok_sub [of M H]) (use ok msg in \<open>auto simp: heap_ok_def\<close>)
  ultimately show ?thesis using ok by (simp add: heap_ok_def)
qed

lemma heap_unstack:
  assumes ok: "heap_ok X A B V M H" and R: "V t = r # rest" "H r = Some R"
  shows "heap_ok (insert r X) A B (V(t := rest)) M (H(r \<mapsto> R\<lparr>rs_receiver := None\<rparr>))"
proof -
  let ?R = "R\<lparr>rs_receiver := None\<rparr>"
  have v: "receivers_ok V H" using ok by (simp add: heap_ok_def)
  have "r \<in> set (V t)" using R by simp
  with v have r: "rs_msg R = None" "rs_receiver R = Some t" using R(2) unfolding receivers_ok_def by auto
  have d: "r \<notin> set rest" "distinct rest" using v R(1) unfolding receivers_ok_def by (metis distinct.simps(2))+
  have "senders_ok A B (H(r \<mapsto> ?R))" using ok R by (auto simp: heap_ok_def senders_ok_def)
  moreover have "receivers_ok (V(t := rest)) (H(r \<mapsto> ?R))" unfolding receivers_ok_def
  proof (intro conjI allI)
    fix x show "distinct ((V(t := rest)) x)" using v d by (simp add: receivers_ok_def)
  next
    fix x y
    have "y \<in> set ((V(t := rest)) x) \<longleftrightarrow> y \<in> set (V x) \<and> y \<noteq> r"
    proof -
      have "r \<notin> set (V x)" if "x \<noteq> t" using v R(2) r that unfolding receivers_ok_def by auto
      then show ?thesis using R(1) d by auto
    qed
    then show "y \<in> set ((V(t := rest)) x) \<longleftrightarrow> (\<exists>R'. (H(r \<mapsto> ?R)) y = Some R' \<and> rs_receiver R' = Some x \<and> rs_msg R' = None)"
      using v unfolding receivers_ok_def by auto
  qed
  moreover have "messages_ok M (H(r \<mapsto> ?R))" using ok R r by (fastforce simp: heap_ok_def messages_ok_def)
  moreover have "callbacks_ok M (H(r \<mapsto> ?R))" using ok R by (intro callbacks_ok_less [of M H]) (auto simp: heap_ok_def)
  moreover have "owned_ok (insert r X) (H(r \<mapsto> ?R))" using ok R by (auto simp: heap_ok_def owned_ok_def)
  ultimately show ?thesis by (simp add: heap_ok_def)
qed

text \<open>An address at which no message is.\<close>

definition fresh_addr :: "(tid \<Rightarrow> horizon_msgq_sent list) \<Rightarrow> results \<Rightarrow> ptr \<Rightarrow> bool" where
  "fresh_addr M H m \<longleftrightarrow> (\<forall>t. m \<notin> sm_addr ` set (M t)) \<and>
     (\<forall>r R c. H r = Some R \<and> rs_callback_msg R = Some c \<longrightarrow> sm_addr c \<noteq> m)"

lemma callbacks_ok_add:
  assumes "callbacks_ok M H" "\<And>r R c. H r = Some R \<Longrightarrow> rs_callback_msg R = Some c \<Longrightarrow> sm_addr c \<noteq> sm_addr msg"
  shows "callbacks_ok (M(t := M t @ [msg])) H"
  using assms unfolding callbacks_ok_def by (auto split: if_splits)

lemma callbacks_ok_new:
  assumes ok: "callbacks_ok M H" and "\<not> rs_replied R"
    and c: "\<And>c. rs_callback_msg R = Some c \<Longrightarrow> fresh_addr M H (sm_addr c) \<and> sm_result c = None"
  shows "callbacks_ok M (H(r \<mapsto> R))"
  unfolding callbacks_ok_def
proof (intro conjI allI impI)
  fix x R' c' assume "(H(r \<mapsto> R)) x = Some R' \<and> rs_callback_msg R' = Some c'"
  then show "sm_result c' = None" "\<And>t. sm_addr c' \<notin> sm_addr ` set (M t)" "rs_sender R' \<noteq> None \<Longrightarrow> \<not> rs_replied R'"
    using ok c [of c'] assms(2) by (auto simp: callbacks_ok_def fresh_addr_def split: if_splits)
next
  fix x R1 c1 y R2 c2
  assume a: "(H(r \<mapsto> R)) x = Some R1 \<and> rs_callback_msg R1 = Some c1 \<and> (H(r \<mapsto> R)) y = Some R2 \<and> rs_callback_msg R2 = Some c2 \<and>
    sm_addr c1 = sm_addr c2"
  consider "x = y" | "x = r" "y \<noteq> r" | "x \<noteq> r" "y = r" | "x \<noteq> r" "y \<noteq> r" by auto
  then show "x = y"
  proof cases
    case 2
    then have "rs_callback_msg R = Some c1" "H y = Some R2" using a by auto
    then show ?thesis using c [of c1] a unfolding fresh_addr_def by metis
  next
    case 3
    then have "rs_callback_msg R = Some c2" "H x = Some R1" using a by auto
    then show ?thesis using c [of c2] a unfolding fresh_addr_def by metis
  next
    case 4
    then have "H x = Some R1" "H y = Some R2" using a by auto
    then show ?thesis using ok a unfolding callbacks_ok_def by blast
  qed
qed

lemma heap_queue_plain:
  assumes ok: "heap_ok X A B V M H" and msg: "fresh_addr M H (sm_addr msg)" "sm_result msg = None"
  shows "heap_ok X A B V (M(t := M t @ [msg])) H"
proof -
  have "messages_ok (M(t := M t @ [msg])) H" using ok msg by (fastforce simp: heap_ok_def messages_ok_def fresh_addr_def)
  moreover have "callbacks_ok (M(t := M t @ [msg])) H" using ok msg unfolding heap_ok_def callbacks_ok_def fresh_addr_def
    by (auto split: if_splits)
  ultimately show ?thesis using ok by (simp add: heap_ok_def)
qed

lemma heap_send:
  assumes ok: "heap_ok X A B V M H" and r: "H r = None"
    and msg: "fresh_addr M H (sm_addr msg)" "sm_result msg = Some r"
    and R: "rs_msg R = Some (sm_addr msg)" "rs_receiver R = Some t" "\<not> rs_replied R"
    and c: "\<And>c. rs_callback_msg R = Some c \<Longrightarrow> fresh_addr M H (sm_addr c) \<and> sm_addr c \<noteq> sm_addr msg \<and> sm_result c = None"
  shows "heap_ok X (\<lambda>x. if rs_sender R = Some x \<and> rs_callback_msg R = None then r # A x else A x)
    (\<lambda>x. if rs_sender R = Some x \<and> rs_callback_msg R \<noteq> None then r # B x else B x) V (M(t := M t @ [msg])) (H(r \<mapsto> R))"
proof -
  have no: "r \<notin> set (A x)" "r \<notin> set (B x)" "r \<notin> set (V x)" for x using ok r by (auto simp: heap_ok_def senders_ok_def receivers_ok_def)
  have nm: "sm_result m \<noteq> Some r" if "m \<in> set (M x)" for m x using message_result [OF ok that] r by auto
  have "senders_ok (\<lambda>x. if rs_sender R = Some x \<and> rs_callback_msg R = None then r # A x else A x)
    (\<lambda>x. if rs_sender R = Some x \<and> rs_callback_msg R \<noteq> None then r # B x else B x) (H(r \<mapsto> R))"
    using ok r no by (auto simp: heap_ok_def senders_ok_def)
  moreover have "receivers_ok V (H(r \<mapsto> R))" using ok no R by (auto simp: heap_ok_def receivers_ok_def)
  moreover have "messages_ok (M(t := M t @ [msg])) (H(r \<mapsto> R))" unfolding messages_ok_def
  proof (intro conjI allI impI)
    fix x show "distinct (map sm_addr ((M(t := M t @ [msg])) x))"
      using ok msg(1) by (auto simp: heap_ok_def messages_ok_def fresh_addr_def)
  next
    fix x R' m assume a: "(H(r \<mapsto> R)) x = Some R' \<and> rs_msg R' = Some m"
    show "\<exists>t' m'. rs_receiver R' = Some t' \<and> m' \<in> set ((M(t := M t @ [msg])) t') \<and> sm_addr m' = m \<and> sm_result m' = Some x"
    proof (cases "x = r")
      case True
      then show ?thesis using a R msg(2) by (intro exI [of _ t] exI [of _ msg]) auto
    next
      case False
      then obtain t' m' where "rs_receiver R' = Some t'" "m' \<in> set (M t')" "sm_addr m' = m" "sm_result m' = Some x"
        using ok a unfolding heap_ok_def messages_ok_def by (metis fun_upd_other)
      then show ?thesis by (intro exI [of _ t'] exI [of _ m']) auto
    qed
  next
    fix t' m' x assume a: "m' \<in> set ((M(t := M t @ [msg])) t') \<and> sm_result m' = Some x"
    show "\<exists>R'. (H(r \<mapsto> R)) x = Some R' \<and> rs_msg R' = Some (sm_addr m') \<and> rs_receiver R' = Some t'"
    proof (cases "m' \<in> set (M t')")
      case True
      then show ?thesis using message_result [OF ok True, of x] a nm [OF True] by auto
    next
      case False
      then show ?thesis using a R msg(2) by (auto split: if_splits)
    qed
  qed
  moreover have "callbacks_ok (M(t := M t @ [msg])) (H(r \<mapsto> R))"
  proof (rule callbacks_ok_add)
    show "callbacks_ok M (H(r \<mapsto> R))" using ok R(3) c by (intro callbacks_ok_new) (auto simp: heap_ok_def)
    show "sm_addr c' \<noteq> sm_addr msg" if "(H(r \<mapsto> R)) x = Some R'" "rs_callback_msg R' = Some c'" for x R' c'
      using that c msg(1) by (auto simp: fresh_addr_def split: if_splits)
  qed
  moreover have "owned_ok X (H(r \<mapsto> R))" using ok R by (auto simp: heap_ok_def owned_ok_def)
  ultimately show ?thesis by (simp add: heap_ok_def)
qed

subsection \<open>Operations\<close>

definition answered :: "u64 \<Rightarrow> u32 \<Rightarrow> horizon_msgq_result \<Rightarrow> horizon_msgq_result" where
  "answered val e R = R\<lparr>rs_result := val, rs_error := e, rs_replied := True, rs_has_deadline := False\<rparr>"

lemma answered_simps [simp]:
  "rs_msg (answered val e R) = rs_msg R" "rs_sender (answered val e R) = rs_sender R" "rs_receiver (answered val e R) = rs_receiver R"
  "rs_callback_msg (answered val e R) = rs_callback_msg R" "rs_replied (answered val e R)" "rs_error (answered val e R) = e"
  "rs_result (answered val e R) = val" "rs_data (answered val e R) = rs_data R"
  by (simp_all add: answered_def)

lemma touch_simps [simp]:
  "mq_sent (horizon_msgq_touch b q) = mq_sent q" "mq_send_results (horizon_msgq_touch b q) = mq_send_results q"
  "mq_callback_results (horizon_msgq_touch b q) = mq_callback_results q" "mq_recv_result (horizon_msgq_touch b q) = mq_recv_result q"
  by (simp_all add: horizon_msgq_touch_def)

lemma msgq_sender_live:
  assumes "msgq_ok X s" "qs_result s r = Some R" "rs_sender R = Some t"
  obtains q where "qs_queue s t = Some q" "r \<in> set (if rs_callback_msg R = None then mq_send_results q else mq_callback_results q)"
proof -
  have "r \<in> set (if rs_callback_msg R = None then send_of (qs_queue s) t else back_of (qs_queue s) t)"
    using assms by (auto simp: msgq_ok_def heap_ok_def senders_ok_def)
  then show thesis using that by (cases "qs_queue s t") (auto simp: of_defs split: if_splits)
qed

lemma msgq_receiver_live:
  assumes ok: "msgq_ok X s" and R: "qs_result s r = Some R" "rs_receiver R = Some t"
  obtains q where "qs_queue s t = Some q" "case rs_msg R of None \<Rightarrow> r \<in> set (mq_recv_result q)
    | Some m \<Rightarrow> \<exists>msg\<in>set (mq_sent q). sm_addr msg = m \<and> sm_result msg = Some r"
proof (cases "rs_msg R")
  case None
  then have "r \<in> set (recv_of (qs_queue s) t)" using ok R by (auto simp: msgq_ok_def heap_ok_def receivers_ok_def)
  then show thesis using that None by (cases "qs_queue s t") (auto simp: of_defs)
next
  case (Some m)
  then obtain msg where "msg \<in> set (sent_of (qs_queue s) t)" "sm_addr msg = m" "sm_result msg = Some r"
    using ok R unfolding msgq_ok_def heap_ok_def messages_ok_def by (metis option.inject)
  then show thesis using that Some by (cases "qs_queue s t") (auto simp: of_defs)
qed

lemma msgq_live:
  assumes ok: "msgq_ok X s" and R: "qs_result s r = Some R" "rs_sender R = Some t \<or> rs_receiver R = Some t"
  shows "t \<in> dom (qs_queue s)"
  using R(2)
proof
  assume "rs_sender R = Some t"
  then obtain q where "qs_queue s t = Some q" by (rule msgq_sender_live [OF ok R(1)])
  then show ?thesis by blast
next
  assume "rs_receiver R = Some t"
  then obtain q where "qs_queue s t = Some q" by (rule msgq_receiver_live [OF ok R(1)])
  then show ?thesis by blast
qed

lemma store_unsent:
  assumes "qs_result s r = Some R" "rs_sender R = None"
  shows "horizon_msgq_store_result r val e s =
    Some (s\<lparr>qs_result := (qs_result s)(r := if rs_receiver R = None then None else Some (answered val e R))\<rparr>)"
  using assms by (simp add: horizon_msgq_store_result_def upd_result_def horizon_msgq_free_result_def answered_def)

lemma store_plain:
  assumes "qs_result s r = Some R" "rs_sender R = Some t" "rs_callback_msg R = None" "qs_queue s t = Some q"
  shows "horizon_msgq_store_result r val e s =
    Some (s\<lparr>qs_result := (qs_result s)(r \<mapsto> answered val e R),
            qs_queue := (qs_queue s)(t \<mapsto> if mq_send_results q \<noteq> [] \<and> hd (mq_send_results q) = r
              then horizon_msgq_touch HORIZON_MSGQ_QS_SMRESULT q else q)\<rparr>)"
  using assms by (simp add: horizon_msgq_store_result_def upd_result_def upd_queue_def answered_def fun_upd_idem)

lemma store_callback:
  assumes "qs_result s r = Some R" "rs_sender R = Some t" "rs_callback_msg R = Some c" "qs_queue s t = Some q"
  shows "horizon_msgq_store_result r val e s =
    Some (s\<lparr>qs_queue := (qs_queue s)(t \<mapsto>
              (horizon_msgq_touch HORIZON_MSGQ_QS_SENDMESSAGE (q\<lparr>mq_sent := mq_sent q @ [put_value val c]\<rparr>))
                \<lparr>mq_send_results := remove1 r (mq_send_results q), mq_callback_results := remove1 r (mq_callback_results q)\<rparr>),
            qs_result := (qs_result s)(r := if rs_receiver R = None then None
              else Some (answered val e R\<lparr>rs_callback_msg := None, rs_sender := None\<rparr>))\<rparr>)"
  using assms by (simp add: horizon_msgq_store_result_def upd_result_def upd_queue_def queue_sent_def answered_def
    horizon_msgq_remove_result_from_sender_def horizon_msgq_free_result_def horizon_msgq_unlink_result_def)

lemma msgq_okI:
  assumes "msgq_ok X s" "qs_order s' = qs_order s" "dom (qs_queue s') = dom (qs_queue s)"
    "heap_ok Y (send_of (qs_queue s')) (back_of (qs_queue s')) (recv_of (qs_queue s')) (sent_of (qs_queue s')) (qs_result s')"
  shows "msgq_ok Y s'"
  using assms by (simp add: msgq_ok_def)

lemma of_idem:
  fixes s :: horizon_msgqs
  assumes "qs_queue s t = Some q"
  shows "(send_of (qs_queue s))(t := mq_send_results q) = send_of (qs_queue s)" "send_of (qs_queue s) t = mq_send_results q"
    "(back_of (qs_queue s))(t := mq_callback_results q) = back_of (qs_queue s)" "back_of (qs_queue s) t = mq_callback_results q"
    "(recv_of (qs_queue s))(t := mq_recv_result q) = recv_of (qs_queue s)" "recv_of (qs_queue s) t = mq_recv_result q"
    "(sent_of (qs_queue s))(t := mq_sent q) = sent_of (qs_queue s)" "sent_of (qs_queue s) t = mq_sent q"
  using assms by (auto simp: of_defs fun_eq_iff)

lemma some_ok: "P s \<Longrightarrow> \<exists>s'. Some s = Some s' \<and> P s'"
  by simp

lemma msgq_ok_upd:
  assumes "msgq_ok X s" "qs_queue s t = Some q" "qs_order s' = qs_order s" "qs_queue s' = (qs_queue s)(t \<mapsto> q')"
    "heap_ok Y ((send_of (qs_queue s))(t := mq_send_results q')) ((back_of (qs_queue s))(t := mq_callback_results q'))
       ((recv_of (qs_queue s))(t := mq_recv_result q')) ((sent_of (qs_queue s))(t := mq_sent q')) (qs_result s')"
  shows "msgq_ok Y s'"
  by (rule msgq_okI [OF assms(1)]) (use assms in auto)

lemma store_result_ok:
  assumes ok: "msgq_ok {r} s" and R: "qs_result s r = Some R" and m: "rs_msg R = None"
  shows "\<exists>s'. horizon_msgq_store_result r val e s = Some s' \<and> msgq_ok {} s'"
proof -
  note h = ok [unfolded msgq_ok_def, THEN conjunct2, THEN conjunct2]
  show ?thesis
  proof (cases "rs_sender R")
    case None
    have "heap_ok {} (send_of (qs_queue s)) (back_of (qs_queue s)) (recv_of (qs_queue s)) (sent_of (qs_queue s))
        ((qs_result s)(r := if rs_receiver R = None then None else Some (answered val e R)))"
      using heap_free [OF h R None] heap_result [OF h R, of "answered val e R" "{}"] None m by auto
    then show ?thesis using ok by (auto simp: store_unsent [OF R None] msgq_ok_def)
  next
    case t: (Some t)
    obtain q where q: "qs_queue s t = Some q" by (rule msgq_sender_live [OF ok R t])
    show ?thesis
    proof (cases "rs_callback_msg R")
      case None
      have "heap_ok {} (send_of (qs_queue s)) (back_of (qs_queue s)) (recv_of (qs_queue s)) (sent_of (qs_queue s))
          ((qs_result s)(r \<mapsto> answered val e R))"
        by (rule heap_result [OF h R]) (use t None m in simp_all)
      then show ?thesis unfolding store_plain [OF R t None q]
        by - (rule some_ok, rule msgq_ok_upd [OF ok q], auto simp: of_idem [OF q])
    next
      case c: (Some c)
      let ?R = "answered val e R\<lparr>rs_callback_msg := None, rs_sender := None\<rparr>"
      have cb: "heap_ok (if rs_receiver R = None then {r} else {}) ((send_of (qs_queue s))(t := remove1 r (send_of (qs_queue s) t)))
          ((back_of (qs_queue s))(t := remove1 r (back_of (qs_queue s) t))) (recv_of (qs_queue s))
          ((sent_of (qs_queue s))(t := sent_of (qs_queue s) t @ [put_value val c])) ((qs_result s)(r \<mapsto> ?R))"
        by (rule heap_callback [OF h R t c m]) simp_all
      have "heap_ok {} ((send_of (qs_queue s))(t := remove1 r (send_of (qs_queue s) t)))
          ((back_of (qs_queue s))(t := remove1 r (back_of (qs_queue s) t))) (recv_of (qs_queue s))
          ((sent_of (qs_queue s))(t := sent_of (qs_queue s) t @ [put_value val c]))
          ((qs_result s)(r := if rs_receiver R = None then None else Some ?R))"
        using cb heap_free [OF cb, of r ?R] by (auto split: if_splits)
      moreover have "(recv_of (qs_queue s))(t := recv_of (qs_queue s) t) = recv_of (qs_queue s)" by simp
      ultimately show ?thesis unfolding store_callback [OF R t c q]
        by - (rule some_ok, rule msgq_ok_upd [OF ok q], auto simp: of_idem [OF q])
    qed
  qed
qed

lemma remove_from_sender_eq:
  assumes "qs_result s r = Some R" "rs_sender R = Some t" "qs_queue s t = Some q"
  shows "horizon_msgq_remove_result_from_sender r s =
    Some (s\<lparr>qs_queue := (qs_queue s)(t \<mapsto> q\<lparr>mq_send_results := remove1 r (mq_send_results q),
              mq_callback_results := remove1 r (mq_callback_results q)\<rparr>),
            qs_result := (qs_result s)(r := if rs_receiver R = None then None else Some (R\<lparr>rs_sender := None\<rparr>))\<rparr>)"
  using assms by (simp add: horizon_msgq_remove_result_from_sender_def upd_queue_def upd_result_def horizon_msgq_free_result_def
    horizon_msgq_unlink_result_def)

lemma remove_from_sender_ok:
  assumes ok: "msgq_ok {} s" and R: "qs_result s r = Some R" "rs_sender R = Some t"
  shows "\<exists>s'. horizon_msgq_remove_result_from_sender r s = Some s' \<and> msgq_ok {} s'"
proof -
  note h = ok [unfolded msgq_ok_def, THEN conjunct2, THEN conjunct2]
  obtain q where q: "qs_queue s t = Some q" by (rule msgq_sender_live [OF ok R])
  note d = heap_drop_sender [OF h R]
  have "heap_ok {} ((send_of (qs_queue s))(t := remove1 r (send_of (qs_queue s) t)))
      ((back_of (qs_queue s))(t := remove1 r (back_of (qs_queue s) t))) (recv_of (qs_queue s)) (sent_of (qs_queue s))
      ((qs_result s)(r := if rs_receiver R = None then None else Some (R\<lparr>rs_sender := None\<rparr>)))"
    using d heap_free [OF d, of r "R\<lparr>rs_sender := None\<rparr>"] by (auto split: if_splits)
  then show ?thesis unfolding remove_from_sender_eq [OF R q]
    by - (rule some_ok, rule msgq_ok_upd [OF ok q], auto simp: of_idem [OF q])
qed

lemma queue_sent_of:
  assumes "qs_queue s t = Some q"
  obtains s' where "queue_sent t msg s = Some s'" "qs_order s' = qs_order s" "qs_result s' = qs_result s" "dom (qs_queue s') = dom (qs_queue s)"
    "send_of (qs_queue s') = send_of (qs_queue s)" "back_of (qs_queue s') = back_of (qs_queue s)"
    "recv_of (qs_queue s') = recv_of (qs_queue s)" "sent_of (qs_queue s') = (sent_of (qs_queue s))(t := sent_of (qs_queue s) t @ [msg])"
  using assms that by (auto simp: queue_sent_def upd_queue_def of_idem [OF assms])

lemma link_and_queue:
  assumes ok: "msgq_ok {} s" and r: "qs_result s r = None"
    and msg: "fresh_addr (sent_of (qs_queue s)) (qs_result s) (sm_addr msg)" "sm_result msg = Some r"
    and R: "rs_msg R = Some (sm_addr msg)" "rs_receiver R = Some t" "\<not> rs_replied R" "rs_sender R = sender"
    and c: "\<And>c. rs_callback_msg R = Some c \<Longrightarrow>
      fresh_addr (sent_of (qs_queue s)) (qs_result s) (sm_addr c) \<and> sm_addr c \<noteq> sm_addr msg \<and> sm_result c = None"
    and live: "t \<in> dom (qs_queue s)" "\<And>p. sender = Some p \<Longrightarrow> p \<in> dom (qs_queue s)"
    and link: "\<And>q. mq_send_results (link q) = (if rs_callback_msg R = None then r # mq_send_results q else mq_send_results q)"
      "\<And>q. mq_callback_results (link q) = (if rs_callback_msg R = None then mq_callback_results q else r # mq_callback_results q)"
      "\<And>q. mq_recv_result (link q) = mq_recv_result q" "\<And>q. mq_sent (link q) = mq_sent q"
  shows "\<exists>s1 s'. link_result sender link r R s = Some s1 \<and> queue_sent t msg s1 = Some s' \<and> msgq_ok {} s'"
proof -
  note h = ok [unfolded msgq_ok_def, THEN conjunct2, THEN conjunct2]
  obtain s1 where s1: "link_result sender link r R s = Some s1" "qs_order s1 = qs_order s" "qs_result s1 = (qs_result s)(r \<mapsto> R)"
    "dom (qs_queue s1) = dom (qs_queue s)" "recv_of (qs_queue s1) = recv_of (qs_queue s)" "sent_of (qs_queue s1) = sent_of (qs_queue s)"
    "send_of (qs_queue s1) = (\<lambda>x. if rs_sender R = Some x \<and> rs_callback_msg R = None then r # send_of (qs_queue s) x else send_of (qs_queue s) x)"
    "back_of (qs_queue s1) = (\<lambda>x. if rs_sender R = Some x \<and> rs_callback_msg R \<noteq> None then r # back_of (qs_queue s) x else back_of (qs_queue s) x)"
  proof (cases sender)
    case None
    then show thesis using R(4) by (intro that [of "s\<lparr>qs_result := (qs_result s)(r \<mapsto> R)\<rparr>"]) (auto simp: link_result_def)
  next
    case (Some p)
    then obtain q where q: "qs_queue s p = Some q" using live(2) by blast
    show thesis using Some R(4) q
      by (intro that [of "s\<lparr>qs_result := (qs_result s)(r \<mapsto> R), qs_queue := (qs_queue s)(p \<mapsto> link q)\<rparr>"])
        (auto simp: link_result_def upd_queue_def link fun_eq_iff of_idem [OF q])
  qed
  obtain q where "qs_queue s1 t = Some q" using live(1) s1(4) by blast
  then obtain s' where s': "queue_sent t msg s1 = Some s'" "qs_order s' = qs_order s1" "qs_result s' = qs_result s1" "dom (qs_queue s') = dom (qs_queue s1)"
    "send_of (qs_queue s') = send_of (qs_queue s1)" "back_of (qs_queue s') = back_of (qs_queue s1)"
    "recv_of (qs_queue s') = recv_of (qs_queue s1)" "sent_of (qs_queue s') = (sent_of (qs_queue s1))(t := sent_of (qs_queue s1) t @ [msg])"
    by (rule queue_sent_of)
  have "msgq_ok {} s'"
    by (rule msgq_okI [OF ok]) (use s1 s' heap_send [OF h r msg R(1-3) c] in simp_all)
  with s1(1) s'(1) show ?thesis by blast
qed

lemma queue_plain_ok:
  assumes ok: "msgq_ok {} s" and q: "qs_queue s t = Some q"
    and msg: "fresh_addr (sent_of (qs_queue s)) (qs_result s) (sm_addr msg)" "sm_result msg = None"
  obtains s' where "queue_sent t msg s = Some s'" "msgq_ok {} s'"
proof -
  note h = ok [unfolded msgq_ok_def, THEN conjunct2, THEN conjunct2]
  obtain s' where s': "queue_sent t msg s = Some s'" "qs_order s' = qs_order s" "qs_result s' = qs_result s" "dom (qs_queue s') = dom (qs_queue s)"
    "send_of (qs_queue s') = send_of (qs_queue s)" "back_of (qs_queue s') = back_of (qs_queue s)"
    "recv_of (qs_queue s') = recv_of (qs_queue s)" "sent_of (qs_queue s') = (sent_of (qs_queue s))(t := sent_of (qs_queue s) t @ [msg])"
    by (rule queue_sent_of [OF q])
  have "msgq_ok {} s'" by (rule msgq_okI [OF ok]) (use s' heap_queue_plain [OF h msg, of t] in simp_all)
  with s'(1) show thesis by (rule that)
qed

definition fresh_memory :: "msgq_memory \<Rightarrow> horizon_msgqs \<Rightarrow> bool" where
  "fresh_memory mem s \<longleftrightarrow>
     (\<forall>m. mm_msg mem = Some m \<longrightarrow> fresh_addr (sent_of (qs_queue s)) (qs_result s) m) \<and>
     (\<forall>r. mm_result mem = Some r \<longrightarrow> qs_result s r = None) \<and>
     (\<forall>c. mm_callback mem = Some c \<longrightarrow> fresh_addr (sent_of (qs_queue s)) (qs_result s) c \<and> mm_msg mem \<noteq> Some c)"

lemma send_ok:
  assumes ok: "msgq_ok {} s" and fresh: "fresh_memory mem s"
    and live: "t \<in> dom (qs_queue s)" "\<And>p. sender = Some p \<Longrightarrow> p \<in> dom (qs_queue s)"
  shows "\<exists>st s'. horizon_msgq_send mem sender t flds data has_deadline deadline s = Some (st, s') \<and> msgq_ok {} s'"
proof -
  note h = ok [unfolded msgq_ok_def, THEN conjunct2, THEN conjunct2]
  show ?thesis
  proof (cases "mm_msg mem")
    case None
    then show ?thesis using ok by (simp add: horizon_msgq_send_def)
  next
    case (Some m)
    then have m: "fresh_addr (sent_of (qs_queue s)) (qs_result s) m" using fresh by (simp add: fresh_memory_def)
    define msg where "msg = flds\<lparr>sm_addr := m, sm_data := data, sm_result := None\<rparr>"
    obtain q where q: "qs_queue s t = Some q" using live(1) by blast
    obtain s1 where s1: "queue_sent t msg s = Some s1" "msgq_ok {} s1" by (rule queue_plain_ok [OF ok q]) (use m in \<open>auto simp: msg_def\<close>)
    consider (bad) "sm_type flds \<notin> {0, 1, HORIZON_MSGQ_MSG_NOTIFY, HORIZON_MSGQ_MSG_CALLBACK, HORIZON_MSGQ_MSG_OTHER_PROCESS} \<or>
        (data \<noteq> [] \<and> \<not> mm_data mem)"
      | (notify) "sm_type flds = HORIZON_MSGQ_MSG_NOTIFY" "data = [] \<or> mm_data mem"
      | (callback) "sm_type flds = HORIZON_MSGQ_MSG_CALLBACK" "data = [] \<or> mm_data mem"
      | (plain) "sm_type flds \<in> {0, 1, HORIZON_MSGQ_MSG_OTHER_PROCESS}" "data = [] \<or> mm_data mem" by auto
    then show ?thesis
    proof cases
      case bad
      then show ?thesis using ok Some by (auto simp: horizon_msgq_send_def Let_def)
    next
      case notify
      then show ?thesis using s1 Some by (auto simp: horizon_msgq_send_def msg_def)
    next
      case callback
      show ?thesis
      proof (cases "mm_result mem = None \<or> mm_callback mem = None")
        case True
        then show ?thesis using ok Some callback by (cases "mm_result mem") (auto simp: horizon_msgq_send_def Let_def)
      next
        case False
        then obtain r c where rc: "mm_result mem = Some r" "mm_callback mem = Some c" by auto
        then have f: "qs_result s r = None" "fresh_addr (sent_of (qs_queue s)) (qs_result s) c" "c \<noteq> m"
          using fresh Some by (auto simp: fresh_memory_def)
        have "\<exists>s1 s'. link_result sender (\<lambda>q. q\<lparr>mq_callback_results := r # mq_callback_results q\<rparr>) r
            (new_result sender t m has_deadline deadline\<lparr>rs_callback_msg := Some (callback_for c msg)\<rparr>) s = Some s1 \<and>
            queue_sent t (msg\<lparr>sm_data := [], sm_result := Some r\<rparr>) s1 = Some s' \<and> msgq_ok {} s'"
          by (rule link_and_queue [OF ok f(1)]) (use m f live in \<open>auto simp: msg_def new_result_def callback_for_def\<close>)
        then show ?thesis using Some rc callback by (auto simp: horizon_msgq_send_def msg_def)
      qed
    next
      case plain
      show ?thesis
      proof (cases "mm_result mem")
        case None
        then show ?thesis using ok Some plain by (auto simp: horizon_msgq_send_def)
      next
        case r: (Some r)
        then have f: "qs_result s r = None" using fresh by (auto simp: fresh_memory_def)
        have "\<exists>s1 s'. link_result sender (\<lambda>q. q\<lparr>mq_send_results := r # mq_send_results q\<rparr>) r
            (new_result sender t m has_deadline deadline) s = Some s1 \<and>
            queue_sent t (msg\<lparr>sm_result := Some r\<rparr>) s1 = Some s' \<and> msgq_ok {} s'"
          by (rule link_and_queue [OF ok f(1)]) (use m live in \<open>auto simp: msg_def new_result_def\<close>)
        then show ?thesis using Some r plain by (auto simp: horizon_msgq_send_def msg_def)
      qed
    qed
  qed
qed

lemma receive_ok:
  assumes ok: "msgq_ok {} s" and live: "t \<in> dom (qs_queue s)"
  shows "\<exists>msg s'. horizon_msgq_receive t s = Some (msg, s') \<and> msgq_ok {} s'"
proof -
  note h = ok [unfolded msgq_ok_def, THEN conjunct2, THEN conjunct2]
  obtain q where q: "qs_queue s t = Some q" using live by blast
  show ?thesis
  proof (cases "mq_sent q")
    case Nil
    then show ?thesis using ok q by (simp add: horizon_msgq_receive_def)
  next
    case (Cons msg rest)
    then have M: "sent_of (qs_queue s) t = msg # rest" by (simp add: of_idem [OF q])
    show ?thesis
    proof (cases "sm_result msg")
      case None
      have "msgq_ok {} (s\<lparr>qs_queue := (qs_queue s)(t \<mapsto> q\<lparr>mq_sent := rest\<rparr>)\<rparr>)"
        by (rule msgq_ok_upd [OF ok q]) (use heap_take_plain [where M = "sent_of (qs_queue s)", OF h M None] in \<open>auto simp: of_idem [OF q]\<close>)
      then show ?thesis using q Cons None by (simp add: horizon_msgq_receive_def upd_queue_def)
    next
      case (Some r)
      then obtain R where R: "qs_result s r = Some R" using message_result [OF h, of msg t r] M by auto
      have "msgq_ok {} (s\<lparr>qs_result := (qs_result s)(r \<mapsto> R\<lparr>rs_msg := None\<rparr>),
          qs_queue := (qs_queue s)(t \<mapsto> q\<lparr>mq_sent := rest, mq_recv_result := r # mq_recv_result q\<rparr>)\<rparr>)"
        by (rule msgq_ok_upd [OF ok q])
          (use heap_receive [where M = "sent_of (qs_queue s)", OF h M Some R] in \<open>auto simp: of_idem [OF q]\<close>)
      then show ?thesis using q Cons Some R by (simp add: horizon_msgq_receive_def upd_queue_def upd_result_def)
    qed
  qed
qed

lemma reply_ok:
  assumes ok: "msgq_ok {} s" and live: "t \<in> dom (qs_queue s)"
  shows "\<exists>s'. horizon_msgq_reply t val e remove data memory s = Some s' \<and> msgq_ok {} s'"
proof -
  note h = ok [unfolded msgq_ok_def, THEN conjunct2, THEN conjunct2]
  obtain q where q: "qs_queue s t = Some q" using live by blast
  show ?thesis
  proof (cases "mq_recv_result q")
    case Nil
    then show ?thesis using ok q by (simp add: horizon_msgq_reply_def)
  next
    case (Cons r rest)
    then have V: "recv_of (qs_queue s) t = r # rest" by (simp add: of_idem [OF q])
    then have "r \<in> set (recv_of (qs_queue s) t)" by simp
    then obtain R where R: "qs_result s r = Some R" "rs_msg R = None" using h unfolding heap_ok_def receivers_ok_def by blast
    define s1 R1 where "s1 = (if remove then s\<lparr>qs_queue := (qs_queue s)(t \<mapsto> q\<lparr>mq_recv_result := rest\<rparr>),
        qs_result := (qs_result s)(r \<mapsto> R\<lparr>rs_receiver := None\<rparr>)\<rparr> else s)"
      and "R1 = (if remove then R\<lparr>rs_receiver := None\<rparr> else R)"
    have R1: "qs_result s1 r = Some R1" by (simp add: s1_def R1_def R)
    have ok1: "msgq_ok {r} s1"
    proof (cases remove)
      case True
      show ?thesis unfolding s1_def using True
        by (simp, intro msgq_ok_upd [OF ok q]) (use heap_unstack [where V = "recv_of (qs_queue s)", OF h V R(1)] in \<open>auto simp: of_idem [OF q]\<close>)
    next
      case False
      then show ?thesis using ok by (auto simp: s1_def msgq_ok_def intro: heap_ok_mono)
    qed
    have go: "horizon_msgq_reply t val e remove data memory s =
      (if remove \<and> rs_sender R = None then horizon_msgq_free_result r s1
       else if \<not> rs_replied R
       then do { s \<leftarrow> (if data \<noteq> [] \<and> memory then upd_result r (\<lambda>R. R\<lparr>rs_data := data\<rparr>) s1 else Some s1); horizon_msgq_store_result r val e s }
       else Some s1)"
      using q Cons R by (simp add: horizon_msgq_reply_def upd_queue_def upd_result_def s1_def)
    show ?thesis
    proof (cases "remove \<and> rs_sender R = None")
      case True
      note f = heap_free [where H = "qs_result s1", OF ok1 [unfolded msgq_ok_def, THEN conjunct2, THEN conjunct2] R1]
      have "msgq_ok {} (s1\<lparr>qs_result := (qs_result s1)(r := None)\<rparr>)"
        by (rule msgq_okI [OF ok1]) (use f True in \<open>simp_all add: R1_def\<close>)
      then show ?thesis unfolding go using True R1 by (simp add: horizon_msgq_free_result_def)
    next
      case False
      show ?thesis
      proof (cases "rs_replied R")
        case True
        have "msgq_ok {} s1"
        proof (cases remove)
          case rem: True
          have "owned_ok {} ((qs_result s)(r \<mapsto> R\<lparr>rs_receiver := None\<rparr>))"
            by (rule owned_upd [of "{}" "qs_result s"]) (use h R True False rem in \<open>auto simp: heap_ok_def\<close>)
          then have "owned_ok {} (qs_result s1)" using rem by (simp add: s1_def)
          then show ?thesis using ok1 by (simp add: msgq_ok_def heap_ok_def)
        qed (use ok in \<open>simp add: s1_def\<close>)
        then show ?thesis unfolding go using True False by auto
      next
        case nr: False
        define R2 where "R2 = (if data \<noteq> [] \<and> memory then R1\<lparr>rs_data := data\<rparr> else R1)"
        have ok2: "msgq_ok {r} (s1\<lparr>qs_result := (qs_result s1)(r \<mapsto> R2)\<rparr>)"
          by (rule msgq_okI [OF ok1], simp_all, rule heap_result [OF ok1 [unfolded msgq_ok_def, THEN conjunct2, THEN conjunct2] R1])
            (auto simp: R2_def split: if_splits)
        have "(if data \<noteq> [] \<and> memory then upd_result r (\<lambda>R. R\<lparr>rs_data := data\<rparr>) s1 else Some s1) =
            Some (s1\<lparr>qs_result := (qs_result s1)(r \<mapsto> R2)\<rparr>)"
          using R1 by (simp add: upd_result_def R2_def fun_upd_idem)
        then show ?thesis unfolding go using False nr store_result_ok [OF ok2, of R2 val e] R(2) by (auto simp: R2_def R1_def)
      qed
    qed
  qed
qed

lemma touch_ok:
  assumes ok: "msgq_ok X s" and q: "qs_queue s t = Some q"
    and f: "mq_sent q' = mq_sent q" "mq_send_results q' = mq_send_results q" "mq_callback_results q' = mq_callback_results q"
      "mq_recv_result q' = mq_recv_result q"
  shows "msgq_ok X (s\<lparr>qs_queue := (qs_queue s)(t \<mapsto> q')\<rparr>)"
  by (rule msgq_ok_upd [OF ok q]) (use ok in \<open>auto simp: of_idem [OF q] f msgq_ok_def\<close>)

lemma head_replied_ok:
  assumes ok: "msgq_ok X s" and q: "qs_queue s t = Some q"
  shows "\<exists>b. head_replied s q = Some b"
proof (cases "mq_send_results q")
  case (Cons r rs)
  then have "r \<in> set (send_of (qs_queue s) t)" by (simp add: of_idem [OF q])
  then obtain R where "qs_result s r = Some R" using ok unfolding msgq_ok_def heap_ok_def senders_ok_def by blast
  then show ?thesis using Cons by (simp add: head_replied_def)
qed (auto simp: head_replied_def)

lemma remove_from_sender_dom:
  assumes "horizon_msgq_remove_result_from_sender r s = Some s'"
  shows "dom (qs_queue s') = dom (qs_queue s)"
  using assms by (auto simp: horizon_msgq_remove_result_from_sender_def upd_queue_def upd_result_def horizon_msgq_free_result_def
    bind_eq_Some_conv split: option.splits if_splits)

lemma get_reply_ok:
  assumes ok: "msgq_ok {} s" and live: "t \<in> dom (qs_queue s)"
  shows "\<exists>a s'. horizon_msgq_get_reply t cancel s = Some (a, s') \<and> msgq_ok {} s'"
proof -
  note h = ok [unfolded msgq_ok_def, THEN conjunct2, THEN conjunct2]
  obtain q where q: "qs_queue s t = Some q" using live by blast
  show ?thesis
  proof (cases "mq_send_results q")
    case Nil
    then show ?thesis using ok q by (simp add: horizon_msgq_get_reply_def)
  next
    case (Cons r rs)
    then have "r \<in> set (send_of (qs_queue s) t)" by (simp add: of_idem [OF q])
    then obtain R where R: "qs_result s r = Some R" "rs_sender R = Some t"
      using ok unfolding msgq_ok_def heap_ok_def senders_ok_def by blast
    show ?thesis
    proof (cases "\<not> rs_replied R \<and> \<not> cancel")
      case True
      then show ?thesis using ok q Cons R by (simp add: horizon_msgq_get_reply_def)
    next
      case False
      define R1 where "R1 = (if rs_replied R then R\<lparr>rs_data := []\<rparr> else R)"
      define s1 where "s1 = s\<lparr>qs_result := (qs_result s)(r \<mapsto> R1)\<rparr>"
      have e1: "(if rs_replied R then upd_result r (\<lambda>R. R\<lparr>rs_data := []\<rparr>) s else Some s) = Some s1"
        using R by (simp add: upd_result_def s1_def R1_def fun_upd_idem)
      have ok1: "msgq_ok {} s1" unfolding s1_def
        by (rule msgq_okI [OF ok], simp_all, rule heap_result [OF h R(1)]) (use h R in \<open>auto simp: R1_def heap_ok_def owned_ok_def split: if_splits\<close>)
      have R1: "qs_result s1 r = Some R1" "rs_sender R1 = Some t" using R by (simp_all add: s1_def R1_def)
      obtain s2 where s2: "horizon_msgq_remove_result_from_sender r s1 = Some s2" "msgq_ok {} s2"
        using remove_from_sender_ok [OF ok1 R1] by blast
      have "t \<in> dom (qs_queue s2)" using remove_from_sender_dom [OF s2(1)] live by (simp add: s1_def)
      then obtain q2 where q2: "qs_queue s2 t = Some q2" by blast
      obtain b where b: "head_replied s2 q2 = Some b" using head_replied_ok [OF s2(2) q2] by blast
      have "msgq_ok {} (s2\<lparr>qs_queue := (qs_queue s2)(t \<mapsto> horizon_msgq_touch HORIZON_MSGQ_QS_SMRESULT q2)\<rparr>)"
        by (rule touch_ok [OF s2(2) q2]) simp_all
      then show ?thesis using q Cons R(1) False e1 s2 q2 b
        by (cases b) (auto simp: horizon_msgq_get_reply_def upd_queue_def)
    qed
  qed
qed

lemma scan_results_ok:
  assumes "\<And>r. r \<in> set rs \<Longrightarrow> \<exists>R. qs_result s r = Some R"
  shows "\<exists>x. scan_results now s rs = Some x"
  using assms
proof (induction rs)
  case (Cons r rs)
  then obtain R x where "qs_result s r = Some R" "scan_results now s rs = Some x" by (metis list.set_intros)
  then show ?case by simp
qed simp

lemma waiting_live:
  assumes "msgq_ok X s" "r \<in> set (waiting_list s t)"
  shows "\<exists>R. qs_result s r = Some R \<and> rs_sender R = Some t"
proof -
  have "r \<in> set (send_of (qs_queue s) t) \<or> r \<in> set (back_of (qs_queue s) t)"
    using assms(2) by (auto simp: waiting_list_def of_defs split: option.splits)
  then show ?thesis using assms(1) unfolding msgq_ok_def heap_ok_def senders_ok_def by blast
qed

lemma scan_queues_ok:
  assumes ok: "msgq_ok X s" and "set ts \<subseteq> dom (qs_queue s)"
  shows "\<exists>x. scan_queues now s ts = Some x"
  using assms(2)
proof (induction ts)
  case (Cons t ts)
  then obtain q where q: "qs_queue s t = Some q" by auto
  have "\<exists>x. scan_results now s (mq_send_results q @ mq_callback_results q) = Some x"
  proof (rule scan_results_ok)
    fix r assume "r \<in> set (mq_send_results q @ mq_callback_results q)"
    then have "r \<in> set (waiting_list s t)" using q by (simp add: waiting_list_def)
    then show "\<exists>R. qs_result s r = Some R" using waiting_live [OF ok] by blast
  qed
  then obtain x where x: "scan_results now s (mq_send_results q @ mq_callback_results q) = Some x" by blast
  then show ?case using q Cons by (cases x) auto
qed simp

lemma expire_one_ok:
  assumes ok: "msgq_ok {} s" and R: "qs_result s r = Some R"
  shows "\<exists>s'. expire_one r s = Some s' \<and> msgq_ok {} s'"
proof -
  note h = ok [unfolded msgq_ok_def, THEN conjunct2, THEN conjunct2]
  define R1 where "R1 = R\<lparr>rs_has_deadline := False\<rparr>"
  define s1 where "s1 = s\<lparr>qs_result := (qs_result s)(r \<mapsto> R1)\<rparr>"
  have h1: "heap_ok {r} (send_of (qs_queue s)) (back_of (qs_queue s)) (recv_of (qs_queue s)) (sent_of (qs_queue s)) ((qs_result s)(r \<mapsto> R1))"
    by (rule heap_result [OF h R]) (simp_all add: R1_def)
  have ok1: "msgq_ok {r} s1" unfolding s1_def by (rule msgq_okI [OF ok]) (use h1 in simp_all)
  show ?thesis
  proof (cases "rs_msg R = None \<or> rs_receiver R = None")
    case True
    then have "expire_one r s = horizon_msgq_store_result r 0 HORIZON_MSGQ_STATUS_TIMEOUT s1"
      using R by (auto simp: expire_one_def upd_result_def s1_def R1_def split: option.splits)
    moreover have "qs_result s1 r = Some R1" by (simp add: s1_def)
    moreover have "rs_msg R1 = None" using True no_receiver [OF h R] by (auto simp: R1_def)
    ultimately show ?thesis using store_result_ok [OF ok1] by simp
  next
    case False
    then obtain m t where mt: "rs_msg R = Some m" "rs_receiver R = Some t" by auto
    obtain q where q: "qs_queue s t = Some q" "\<exists>msg\<in>set (mq_sent q). sm_addr msg = m \<and> sm_result msg = Some r"
      by (rule msgq_receiver_live [OF ok R mt(2)]) (use mt in simp)
    define s2 where "s2 = s\<lparr>qs_queue := (qs_queue s)(t \<mapsto> q\<lparr>mq_sent := horizon_msgq_unlink_sent m (mq_sent q)\<rparr>),
      qs_result := (qs_result s)(r \<mapsto> R1\<lparr>rs_msg := None, rs_receiver := None\<rparr>)\<rparr>"
    have u: "heap_ok {r} (send_of (qs_queue s)) (back_of (qs_queue s)) (recv_of (qs_queue s))
        ((sent_of (qs_queue s))(t := horizon_msgq_unlink_sent m (sent_of (qs_queue s) t)))
        ((qs_result s)(r \<mapsto> R1\<lparr>rs_msg := None, rs_receiver := None\<rparr>))"
      using heap_unlink_sent [OF h1, of r R1 m t] mt by (simp add: R1_def)
    have ok2: "msgq_ok {r} s2" unfolding s2_def
      by (rule msgq_ok_upd [OF ok q(1)]) (use u in \<open>auto simp: of_idem [OF q(1)]\<close>)
    have "m \<in> sm_addr ` set (mq_sent q)" using q(2) by auto
    then have "expire_one r s = horizon_msgq_store_result r 0 HORIZON_MSGQ_STATUS_TIMEOUT s2"
      using R mt q(1) by (simp add: expire_one_def upd_result_def upd_queue_def s2_def R1_def)
    moreover have "qs_result s2 r = Some (R1\<lparr>rs_msg := None, rs_receiver := None\<rparr>)" by (simp add: s2_def)
    ultimately show ?thesis using store_result_ok [OF ok2] by simp
  qed
qed

lemma expire_ok:
  assumes "msgq_ok {} s"
  shows "\<exists>b s'. horizon_msgq_expire now s = Some (b, s') \<and> msgq_ok {} s' \<and> scan_queues now s' (qs_order s') = Some None"
  using assms
proof (induction now s rule: horizon_msgq_expire.induct)
  case (1 now s)
  have "set (qs_order s) \<subseteq> dom (qs_queue s)" using "1.prems" by (simp add: msgq_ok_def)
  then obtain x where x: "scan_queues now s (qs_order s) = Some x" using scan_queues_ok [OF "1.prems"] by blast
  show ?case
  proof (cases x)
    case None
    then show ?thesis using x "1.prems" by (subst horizon_msgq_expire.simps) auto
  next
    case (Some r)
    then obtain R where "qs_result s r = Some R" using scan_queues_found x by blast
    then obtain s1 where s1: "expire_one r s = Some s1" "msgq_ok {} s1" using expire_one_ok [OF "1.prems"] by blast
    from "1.IH" [OF x Some s1] obtain b s' where "horizon_msgq_expire now s1 = Some (b, s')" "msgq_ok {} s'" "scan_queues now s' (qs_order s') = Some None"
      by blast
    then show ?thesis using x Some s1 by (subst horizon_msgq_expire.simps) auto
  qed
qed

lemma store_result_frame:
  assumes ok: "msgq_ok {r} s" and R: "qs_result s r = Some R" and s': "horizon_msgq_store_result r val e s = Some s'"
  shows "x \<noteq> r \<Longrightarrow> qs_result s' x = qs_result s x" "rs_sender R \<noteq> Some t \<Longrightarrow> qs_queue s' t = qs_queue s t"
    "dom (qs_queue s') = dom (qs_queue s)" "qs_order s' = qs_order s"
    "rs_sender R \<noteq> None \<Longrightarrow> rs_callback_msg R = None \<Longrightarrow> qs_result s' r = Some (answered val e R)"
proof -
  have "(x \<noteq> r \<longrightarrow> qs_result s' x = qs_result s x) \<and> (rs_sender R \<noteq> Some t \<longrightarrow> qs_queue s' t = qs_queue s t) \<and>
    dom (qs_queue s') = dom (qs_queue s) \<and> qs_order s' = qs_order s \<and>
    (rs_sender R \<noteq> None \<and> rs_callback_msg R = None \<longrightarrow> qs_result s' r = Some (answered val e R))"
  proof (cases "rs_sender R")
    case None
    then show ?thesis using s' unfolding store_unsent [OF R None] by auto
  next
    case p: (Some p)
    obtain q where q: "qs_queue s p = Some q" by (rule msgq_sender_live [OF ok R p])
    show ?thesis
    proof (cases "rs_callback_msg R")
      case None
      then show ?thesis using s' q p unfolding store_plain [OF R p None q] by (auto split: if_splits)
    next
      case (Some c)
      then show ?thesis using s' q p unfolding store_callback [OF R p Some q] by (auto split: if_splits)
    qed
  qed
  then show "x \<noteq> r \<Longrightarrow> qs_result s' x = qs_result s x" "rs_sender R \<noteq> Some t \<Longrightarrow> qs_queue s' t = qs_queue s t"
    "dom (qs_queue s') = dom (qs_queue s)" "qs_order s' = qs_order s"
    "rs_sender R \<noteq> None \<Longrightarrow> rs_callback_msg R = None \<Longrightarrow> qs_result s' r = Some (answered val e R)"
    by blast+
qed

text \<open>What the end of thread \<open>t\<close> does to a result another thread waits for: if anything, it is answered with an error.\<close>

definition outcome :: "horizon_msgq_result \<Rightarrow> horizon_msgq_result \<Rightarrow> bool" where
  "outcome R R' \<longleftrightarrow> rs_sender R' = rs_sender R \<and> rs_callback_msg R' = None \<and>
     (rs_receiver R' = rs_receiver R \<or> rs_receiver R' = None) \<and>
     (if rs_replied R then rs_replied R' \<and> rs_error R' = rs_error R \<and> rs_result R' = rs_result R
      else rs_replied R' \<longrightarrow> rs_error R' = HORIZON_MSGQ_STATUS_ACCESS_DENIED \<and> rs_result R' = 0)"

definition kept :: "tid \<Rightarrow> horizon_msgqs \<Rightarrow> horizon_msgqs \<Rightarrow> bool" where
  "kept t s s' \<longleftrightarrow> (\<forall>x R p. qs_result s x = Some R \<and> rs_sender R = Some p \<and> p \<noteq> t \<and> rs_callback_msg R = None \<longrightarrow>
     (\<exists>R'. qs_result s' x = Some R' \<and> outcome R R'))"

lemma outcome_refl: "rs_callback_msg R = None \<Longrightarrow> outcome R R"
  by (simp add: outcome_def)

lemma outcome_trans: "outcome R R' \<Longrightarrow> outcome R' R'' \<Longrightarrow> outcome R R''"
  by (auto simp: outcome_def split: if_splits)

lemma kept_refl: "kept t s s"
  by (auto simp: kept_def intro: outcome_refl)

lemma kept_trans:
  assumes "kept t s s'" "kept t s' s''"
  shows "kept t s s''"
  unfolding kept_def
proof (intro allI impI)
  fix x R p assume a: "qs_result s x = Some R \<and> rs_sender R = Some p \<and> p \<noteq> t \<and> rs_callback_msg R = None"
  then obtain R' where R': "qs_result s' x = Some R'" "outcome R R'" using assms(1) unfolding kept_def by blast
  then have "rs_sender R' = Some p \<and> p \<noteq> t \<and> rs_callback_msg R' = None" using a by (simp add: outcome_def)
  then obtain R'' where "qs_result s'' x = Some R''" "outcome R' R''" using assms(2) R'(1) unfolding kept_def by blast
  then show "\<exists>R'. qs_result s'' x = Some R' \<and> outcome R R'" using R'(2) by (blast intro: outcome_trans)
qed

lemma remove_from_sender_kept:
  assumes ok: "msgq_ok {} s" and R: "qs_result s r = Some R" "rs_sender R = Some t"
    and s': "horizon_msgq_remove_result_from_sender r s = Some s'" and q: "qs_queue s t = Some q"
  shows "kept t s s'" "qs_queue s' t = Some (q\<lparr>mq_send_results := remove1 r (mq_send_results q),
    mq_callback_results := remove1 r (mq_callback_results q)\<rparr>)" "qs_order s' = qs_order s" "dom (qs_queue s') = dom (qs_queue s)"
  using s' R q unfolding remove_from_sender_eq [OF R q] by (auto simp: kept_def intro: outcome_refl split: if_splits)

lemma drop_send_results_ok:
  assumes "msgq_ok {} s" "qs_queue s t = Some q"
  shows "\<exists>s'. drop_send_results t s = Some s' \<and> msgq_ok {} s' \<and> kept t s s' \<and>
    dom (qs_queue s') = dom (qs_queue s) \<and> qs_order s' = qs_order s \<and> (\<exists>q'. qs_queue s' t = Some q' \<and> mq_send_results q' = [])"
  using assms
proof (induction "length (mq_send_results q)" arbitrary: s q rule: less_induct)
  case less
  show ?case
  proof (cases "mq_send_results q")
    case Nil
    then show ?thesis using less.prems by (subst drop_send_results.simps) (auto simp: kept_refl)
  next
    case (Cons r rs)
    then have "r \<in> set (waiting_list s t)" using less.prems(2) by (simp add: waiting_list_def)
    then obtain R where R: "qs_result s r = Some R" "rs_sender R = Some t" using waiting_live [OF less.prems(1)] by blast
    obtain s1 where s1: "horizon_msgq_remove_result_from_sender r s = Some s1" "msgq_ok {} s1"
      using remove_from_sender_ok [OF less.prems(1) R] by blast
    note k = remove_from_sender_kept [OF less.prems(1) R s1(1) less.prems(2)]
    from less.hyps [OF _ s1(2) k(2)] Cons obtain s' where
      "drop_send_results t s1 = Some s' \<and> msgq_ok {} s' \<and> kept t s1 s' \<and> dom (qs_queue s') = dom (qs_queue s1) \<and>
        qs_order s' = qs_order s1 \<and> (\<exists>q'. qs_queue s' t = Some q' \<and> mq_send_results q' = [])" by auto
    then show ?thesis using less.prems(2) Cons s1(1) k(1,3,4)
      by (subst drop_send_results.simps) (auto intro: kept_trans)
  qed
qed

lemma drop_callback_results_ok:
  assumes "msgq_ok {} s" "qs_queue s t = Some q" "mq_send_results q = []"
  shows "\<exists>s'. drop_callback_results t s = Some s' \<and> msgq_ok {} s' \<and> kept t s s' \<and> dom (qs_queue s') = dom (qs_queue s) \<and>
    qs_order s' = qs_order s \<and> (\<exists>q'. qs_queue s' t = Some q' \<and> mq_send_results q' = [] \<and> mq_callback_results q' = [])"
  using assms
proof (induction "length (mq_callback_results q)" arbitrary: s q rule: less_induct)
  case less
  show ?case
  proof (cases "mq_callback_results q")
    case Nil
    then show ?thesis using less.prems by (subst drop_callback_results.simps) (auto simp: kept_refl)
  next
    case (Cons r rs)
    then have "r \<in> set (waiting_list s t)" using less.prems(2) by (simp add: waiting_list_def)
    then obtain R where R: "qs_result s r = Some R" "rs_sender R = Some t" using waiting_live [OF less.prems(1)] by blast
    obtain s1 where s1: "horizon_msgq_remove_result_from_sender r s = Some s1" "msgq_ok {} s1"
      using remove_from_sender_ok [OF less.prems(1) R] by blast
    note k = remove_from_sender_kept [OF less.prems(1) R s1(1) less.prems(2)]
    from less.hyps [OF _ s1(2) k(2)] Cons less.prems(3) obtain s' where
      "drop_callback_results t s1 = Some s' \<and> msgq_ok {} s' \<and> kept t s1 s' \<and> dom (qs_queue s') = dom (qs_queue s1) \<and>
        qs_order s' = qs_order s1 \<and> (\<exists>q'. qs_queue s' t = Some q' \<and> mq_send_results q' = [] \<and> mq_callback_results q' = [])" by auto
    then show ?thesis using less.prems(2) Cons s1(1) k(1,3,4)
      by (subst drop_callback_results.simps) (auto intro: kept_trans)
  qed
qed

text \<open>Refusing one result: it has no receiver any more, and its sender is not the thread that ends.\<close>

lemma refuse_ok:
  assumes ok: "msgq_ok {r} s" and R: "qs_result s r = Some R" "rs_sender R \<noteq> Some t" and m: "rs_msg R = None"
    and s0: "qs_result s0 r = Some R0" "rs_sender R0 = rs_sender R" "rs_callback_msg R0 = rs_callback_msg R" "\<not> rs_replied R0"
      "rs_receiver R = None" "\<And>x. x \<noteq> r \<Longrightarrow> qs_result s0 x = qs_result s x"
  obtains s' where "horizon_msgq_store_result r 0 HORIZON_MSGQ_STATUS_ACCESS_DENIED s = Some s'" "msgq_ok {} s'" "kept t s0 s'"
    "qs_queue s' t = qs_queue s t" "dom (qs_queue s') = dom (qs_queue s)" "qs_order s' = qs_order s"
proof -
  obtain s' where s': "horizon_msgq_store_result r 0 HORIZON_MSGQ_STATUS_ACCESS_DENIED s = Some s'" "msgq_ok {} s'"
    using store_result_ok [OF ok R(1) m] by blast
  note f = store_result_frame [OF ok R(1) s'(1)]
  have "kept t s0 s'" unfolding kept_def
  proof (intro allI impI)
    fix x Rx p assume a: "qs_result s0 x = Some Rx \<and> rs_sender Rx = Some p \<and> p \<noteq> t \<and> rs_callback_msg Rx = None"
    show "\<exists>R'. qs_result s' x = Some R' \<and> outcome Rx R'"
    proof (cases "x = r")
      case True
      then have e: "Rx = R0" using a s0(1) by simp
      then have "rs_sender R = Some p" "rs_callback_msg R = None" using a s0(2,3) by simp_all
      then show ?thesis using f(5) True s0 a e by (auto simp: outcome_def)
    next
      case False
      then show ?thesis using f(1) [OF False] a s0(6) [OF False] by (auto intro: outcome_refl)
    qed
  qed
  with s' f(2) [OF R(2)] f(3,4) that show thesis by blast
qed

lemma no_sender:
  assumes "msgq_ok X s" "qs_queue s t = Some q" "mq_send_results q = []" "mq_callback_results q = []" "qs_result s r = Some R"
  shows "rs_sender R \<noteq> Some t"
proof
  assume "rs_sender R = Some t"
  then obtain q' where "qs_queue s t = Some q'" "r \<in> set (if rs_callback_msg R = None then mq_send_results q' else mq_callback_results q')"
    by (rule msgq_sender_live [OF assms(1,5)])
  then show False using assms(2-4) by (auto split: if_splits)
qed

lemma reply_refuse_ok:
  assumes ok: "msgq_ok {} s" and q: "qs_queue s t = Some q" "mq_send_results q = []" "mq_callback_results q = []" "mq_recv_result q = r # rest"
  obtains s' where "horizon_msgq_reply t 0 HORIZON_MSGQ_STATUS_ACCESS_DENIED True [] True s = Some s'" "msgq_ok {} s'" "kept t s s'"
    "qs_queue s' t = Some (q\<lparr>mq_recv_result := rest\<rparr>)" "dom (qs_queue s') = dom (qs_queue s)" "qs_order s' = qs_order s"
proof -
  note h = ok [unfolded msgq_ok_def, THEN conjunct2, THEN conjunct2]
  have V: "recv_of (qs_queue s) t = r # rest" by (simp add: of_idem [OF q(1)] q)
  then have "r \<in> set (recv_of (qs_queue s) t)" by simp
  then obtain R where R: "qs_result s r = Some R" "rs_receiver R = Some t" "rs_msg R = None" using h unfolding heap_ok_def receivers_ok_def by blast
  have ns: "rs_sender R \<noteq> Some t" by (rule no_sender [OF ok q(1-3) R(1)])
  define s1 where "s1 = s\<lparr>qs_queue := (qs_queue s)(t \<mapsto> q\<lparr>mq_recv_result := rest\<rparr>),
      qs_result := (qs_result s)(r \<mapsto> R\<lparr>rs_receiver := None\<rparr>)\<rparr>"
  have ok1: "msgq_ok {r} s1" unfolding s1_def
    by (rule msgq_ok_upd [OF ok q(1)]) (use heap_unstack [where V = "recv_of (qs_queue s)", OF h V R(1)] in \<open>auto simp: of_idem [OF q(1)]\<close>)
  have d: "dom (qs_queue s1) = dom (qs_queue s)" "qs_order s1 = qs_order s" using q(1) by (auto simp: s1_def split: if_splits)
  obtain s' where s': "horizon_msgq_reply t 0 HORIZON_MSGQ_STATUS_ACCESS_DENIED True [] True s = Some s'" "msgq_ok {} s'"
    using reply_ok [OF ok] q(1) by blast
  have go: "horizon_msgq_reply t 0 HORIZON_MSGQ_STATUS_ACCESS_DENIED True [] True s =
    (if rs_sender R = None then horizon_msgq_free_result r s1
     else if \<not> rs_replied R then horizon_msgq_store_result r 0 HORIZON_MSGQ_STATUS_ACCESS_DENIED s1 else Some s1)"
    using q R by (simp add: horizon_msgq_reply_def upd_queue_def upd_result_def s1_def)
  have "kept t s s' \<and> qs_queue s' t = Some (q\<lparr>mq_recv_result := rest\<rparr>) \<and> dom (qs_queue s') = dom (qs_queue s) \<and> qs_order s' = qs_order s"
  proof (cases "rs_sender R = None")
    case True
    then have "s' = s1\<lparr>qs_result := (qs_result s1)(r := None)\<rparr>" using s'(1) go by (simp add: horizon_msgq_free_result_def s1_def)
    moreover from this have "kept t s s'" using True R by (auto simp: kept_def s1_def intro: outcome_refl split: if_splits)
    ultimately show ?thesis using d by (simp add: s1_def)
  next
    case False
    show ?thesis
    proof (cases "rs_replied R")
      case True
      then have "s' = s1" using s'(1) go False by simp
      moreover have "kept t s s1" using True R by (auto simp: kept_def s1_def outcome_def)
      ultimately show ?thesis using d by (simp add: s1_def)
    next
      case nr: False
      obtain s2 where "horizon_msgq_store_result r 0 HORIZON_MSGQ_STATUS_ACCESS_DENIED s1 = Some s2" "kept t s s2"
        "qs_queue s2 t = qs_queue s1 t" "dom (qs_queue s2) = dom (qs_queue s1)" "qs_order s2 = qs_order s1"
        by (rule refuse_ok [OF ok1, of "R\<lparr>rs_receiver := None\<rparr>" t s R]) (use R ns nr in \<open>auto simp: s1_def\<close>)
      then show ?thesis using s'(1) go False nr d by (auto simp: s1_def)
    qed
  qed
  with s' that show thesis by blast
qed

lemma refuse_received_ok:
  assumes "msgq_ok {} s" "qs_queue s t = Some q" "mq_send_results q = []" "mq_callback_results q = []"
  shows "\<exists>s'. refuse_received t s = Some s' \<and> msgq_ok {} s' \<and> kept t s s' \<and> dom (qs_queue s') = dom (qs_queue s) \<and>
    qs_order s' = qs_order s \<and> qs_queue s' t = Some (q\<lparr>mq_recv_result := []\<rparr>)"
  using assms
proof (induction "mq_recv_result q" arbitrary: s q)
  case Nil
  then show ?case by (subst refuse_received.simps) (auto simp: kept_refl)
next
  case (Cons r rs)
  obtain s1 where s1: "horizon_msgq_reply t 0 HORIZON_MSGQ_STATUS_ACCESS_DENIED True [] True s = Some s1" "msgq_ok {} s1" "kept t s s1"
    "qs_queue s1 t = Some (q\<lparr>mq_recv_result := rs\<rparr>)" "dom (qs_queue s1) = dom (qs_queue s)" "qs_order s1 = qs_order s"
    by (rule reply_refuse_ok [OF Cons.prems Cons.hyps(2) [symmetric]])
  from Cons.hyps(1) [OF _ s1(2,4)] Cons.prems obtain s' where
    "refuse_received t s1 = Some s' \<and> msgq_ok {} s' \<and> kept t s1 s' \<and> dom (qs_queue s') = dom (qs_queue s1) \<and>
      qs_order s' = qs_order s1 \<and> qs_queue s' t = Some (q\<lparr>mq_recv_result := []\<rparr>)" by auto
  then show ?case using Cons.prems(2) Cons.hyps(2) [symmetric] s1 by (subst refuse_received.simps) (auto intro: kept_trans)
qed

lemma refuse_one_ok:
  assumes ok: "msgq_ok {} s" and q: "qs_queue s t = Some q" "mq_send_results q = []" "mq_callback_results q = []" "mq_sent q = msg # rest"
  obtains s1 s' where "upd_queue t (\<lambda>q. q\<lparr>mq_sent := horizon_msgq_unlink_sent (sm_addr msg) (mq_sent q)\<rparr>) s = Some s1"
    "horizon_msgq_free_sent msg s1 = Some s'" "msgq_ok {} s'" "kept t s s'"
    "qs_queue s' t = Some (q\<lparr>mq_sent := rest\<rparr>)" "dom (qs_queue s') = dom (qs_queue s)" "qs_order s' = qs_order s"
proof -
  note h = ok [unfolded msgq_ok_def, THEN conjunct2, THEN conjunct2]
  have M: "sent_of (qs_queue s) t = msg # rest" by (simp add: of_idem [OF q(1)] q)
  define s1 where "s1 = s\<lparr>qs_queue := (qs_queue s)(t \<mapsto> q\<lparr>mq_sent := rest\<rparr>)\<rparr>"
  have s1: "upd_queue t (\<lambda>q. q\<lparr>mq_sent := horizon_msgq_unlink_sent (sm_addr msg) (mq_sent q)\<rparr>) s = Some s1"
    using q by (simp add: upd_queue_def s1_def)
  have d: "dom (qs_queue s1) = dom (qs_queue s)" "qs_order s1 = qs_order s" "qs_queue s1 t = Some (q\<lparr>mq_sent := rest\<rparr>)"
    using q(1) by (auto simp: s1_def split: if_splits)
  show thesis
  proof (cases "sm_result msg")
    case None
    have "msgq_ok {} s1" unfolding s1_def
      by (rule msgq_ok_upd [OF ok q(1)]) (use heap_take_plain [where M = "sent_of (qs_queue s)", OF h M None] in \<open>auto simp: of_idem [OF q(1)]\<close>)
    moreover have "kept t s s1" by (auto simp: kept_def s1_def intro: outcome_refl)
    ultimately show thesis using that [OF s1, of s1] None d by (simp add: horizon_msgq_free_sent_def)
  next
    case (Some r)
    then obtain R where R: "qs_result s r = Some R" "rs_msg R = Some (sm_addr msg)" "rs_receiver R = Some t"
      using message_result [OF h, of msg t r] M by auto
    define R2 where "R2 = R\<lparr>rs_msg := None, rs_receiver := None\<rparr>"
    define s2 where "s2 = s\<lparr>qs_queue := (qs_queue s)(t \<mapsto> q\<lparr>mq_sent := rest\<rparr>), qs_result := (qs_result s)(r \<mapsto> R2)\<rparr>"
    have u: "horizon_msgq_unlink_sent (sm_addr msg) (sent_of (qs_queue s) t) = rest" by (simp add: M)
    have ok2: "msgq_ok {r} s2" unfolding s2_def
      by (rule msgq_ok_upd [OF ok q(1)]) (use heap_unlink_sent [OF h R, unfolded u] in \<open>auto simp: of_idem [OF q(1)] R2_def\<close>)
    have R2: "qs_result s2 r = Some R2" by (simp add: s2_def)
    have ns: "rs_sender R2 \<noteq> Some t" using no_sender [OF ok q(1-3) R(1)] by (simp add: R2_def)
    have go: "horizon_msgq_free_sent msg s1 = horizon_msgq_store_result r 0 HORIZON_MSGQ_STATUS_ACCESS_DENIED s2"
      using Some R(1) by (simp add: horizon_msgq_free_sent_def upd_result_def s1_def s2_def R2_def)
    obtain s' where s': "horizon_msgq_store_result r 0 HORIZON_MSGQ_STATUS_ACCESS_DENIED s2 = Some s'" "msgq_ok {} s'" "kept t s s'"
      "qs_queue s' t = qs_queue s2 t" "dom (qs_queue s') = dom (qs_queue s2)" "qs_order s' = qs_order s2"
    proof (rule refuse_ok [OF ok2 R2 ns, of s R])
      show "\<not> rs_replied R" using h R(1,2) unfolding heap_ok_def owned_ok_def by force
    qed (use R in \<open>auto simp: s2_def R2_def\<close>)
    show thesis using that [OF s1, of s'] s' go d by (simp add: s1_def s2_def)
  qed
qed

lemma refuse_sent_ok:
  assumes "msgq_ok {} s" "qs_queue s t = Some q" "mq_send_results q = []" "mq_callback_results q = []"
  shows "\<exists>s'. refuse_sent t s = Some s' \<and> msgq_ok {} s' \<and> kept t s s' \<and> dom (qs_queue s') = dom (qs_queue s) \<and>
    qs_order s' = qs_order s \<and> qs_queue s' t = Some (q\<lparr>mq_sent := []\<rparr>)"
  using assms
proof (induction "mq_sent q" arbitrary: s q)
  case Nil
  then show ?case by (subst refuse_sent.simps) (auto simp: kept_refl)
next
  case (Cons msg rest)
  obtain s0 s1 where s1: "upd_queue t (\<lambda>q. q\<lparr>mq_sent := horizon_msgq_unlink_sent (sm_addr msg) (mq_sent q)\<rparr>) s = Some s0"
    "horizon_msgq_free_sent msg s0 = Some s1" "msgq_ok {} s1" "kept t s s1"
    "qs_queue s1 t = Some (q\<lparr>mq_sent := rest\<rparr>)" "dom (qs_queue s1) = dom (qs_queue s)" "qs_order s1 = qs_order s"
    by (rule refuse_one_ok [OF Cons.prems Cons.hyps(2) [symmetric]])
  from Cons.hyps(1) [OF _ s1(3,5)] Cons.prems obtain s' where
    "refuse_sent t s1 = Some s' \<and> msgq_ok {} s' \<and> kept t s1 s' \<and> dom (qs_queue s') = dom (qs_queue s1) \<and>
      qs_order s' = qs_order s1 \<and> qs_queue s' t = Some (q\<lparr>mq_sent := []\<rparr>)" by auto
  then show ?case using Cons.prems(2) Cons.hyps(2) [symmetric] s1 by (subst refuse_sent.simps) (auto intro: kept_trans)
qed

lemma destroy_ok:
  assumes ok: "msgq_ok {} s" and live: "t \<in> dom (qs_queue s)"
  shows "\<exists>s'. horizon_msgq_destroy t s = Some s' \<and> msgq_ok {} s' \<and> kept t s s' \<and> dom (qs_queue s') = dom (qs_queue s) - {t}"
proof -
  obtain q where q: "qs_queue s t = Some q" using live by blast
  from drop_send_results_ok [OF ok q] obtain s1 q1 where s1: "drop_send_results t s = Some s1" "msgq_ok {} s1" "kept t s s1"
    "dom (qs_queue s1) = dom (qs_queue s)" "qs_order s1 = qs_order s" "qs_queue s1 t = Some q1" "mq_send_results q1 = []" by blast
  from drop_callback_results_ok [OF s1(2,6,7)] obtain s2 q2 where s2: "drop_callback_results t s1 = Some s2" "msgq_ok {} s2" "kept t s1 s2"
    "dom (qs_queue s2) = dom (qs_queue s1)" "qs_order s2 = qs_order s1" "qs_queue s2 t = Some q2" "mq_send_results q2 = []" "mq_callback_results q2 = []"
    by blast
  from refuse_received_ok [OF s2(2,6-8)] obtain s3 where s3: "refuse_received t s2 = Some s3" "msgq_ok {} s3" "kept t s2 s3"
    "dom (qs_queue s3) = dom (qs_queue s2)" "qs_order s3 = qs_order s2" "qs_queue s3 t = Some (q2\<lparr>mq_recv_result := []\<rparr>)" by blast
  from refuse_sent_ok [OF s3(2,6)] s2(7,8) obtain s4 where s4: "refuse_sent t s3 = Some s4" "msgq_ok {} s4" "kept t s3 s4"
    "dom (qs_queue s4) = dom (qs_queue s3)" "qs_order s4 = qs_order s3" "qs_queue s4 t = Some (q2\<lparr>mq_recv_result := [], mq_sent := []\<rparr>)" by auto
  define s' where "s' = s4\<lparr>qs_order := remove1 t (qs_order s4), qs_queue := (qs_queue s4)(t := None)\<rparr>"
  have "(send_of (qs_queue s4))(t := []) = send_of (qs_queue s4)" "(back_of (qs_queue s4))(t := []) = back_of (qs_queue s4)"
    "(recv_of (qs_queue s4))(t := []) = recv_of (qs_queue s4)" "(sent_of (qs_queue s4))(t := []) = sent_of (qs_queue s4)"
    using of_idem [OF s4(6)] s2(7,8) by (simp_all add: fun_upd_idem)
  then have "msgq_ok {} s'" using s4(2) by (auto simp: msgq_ok_def s'_def)
  moreover have "kept t s s4" using s1(3) s2(3) s3(3) s4(3) by (blast intro: kept_trans)
  then have "kept t s s'" by (simp add: kept_def s'_def)
  moreover have "dom (qs_queue s') = dom (qs_queue s) - {t}" using s1(4) s2(4) s3(4) s4(4) by (auto simp: s'_def)
  moreover have "horizon_msgq_destroy t s = Some s'"
    using s1(1) s2(1) s3(1) s4(1) by (simp add: horizon_msgq_destroy_def s'_def)
  ultimately show ?thesis by blast
qed

section \<open>What the server does with the queues\<close>

text \<open>\<open>horizon_server_refresh_queue_locked\<close>: what is pending for the thread elsewhere, as bits, and the update of its queue.\<close>

record input_message =
  im_tid :: tid
  im_msg :: u32

abbreviation (input) HORIZON_WM_MOUSEMOVE :: u32 where "HORIZON_WM_MOUSEMOVE \<equiv> 0x200"
abbreviation (input) HORIZON_WM_KEYDOWN :: u32 where "HORIZON_WM_KEYDOWN \<equiv> 0x100"

fun input_bits :: "tid \<Rightarrow> input_message list \<Rightarrow> u32" where
  "input_bits t [] = 0"
| "input_bits t (i # is) =
     (if im_tid i = t then (if im_msg i = HORIZON_WM_MOUSEMOVE then 0x0002 else 0x0004) else 0) OR input_bits t is"

definition external_bits :: "bool \<Rightarrow> input_message list \<Rightarrow> bool \<Rightarrow> bool \<Rightarrow> tid \<Rightarrow> u32" where
  "external_bits posted inputs paint timer t =
     (if posted then HORIZON_MSGQ_QS_POSTMESSAGE OR HORIZON_MSGQ_QS_ALLPOSTMESSAGE else 0) OR input_bits t inputs OR
     (if paint then HORIZON_MSGQ_QS_PAINT else 0) OR (if timer then HORIZON_MSGQ_QS_TIMER else 0)"

datatype msgq_op =
    Op_get bool tid
  | Op_send msgq_memory "tid option" tid horizon_msgq_sent "u8 list" bool u64
  | Op_receive tid
  | Op_reply tid u64 u32 bool "u8 list" bool
  | Op_get_reply tid bool
  | Op_expire u64
  | Op_destroy tid
  | Op_update tid u32
  | Op_touch tid u32
  | Op_quit tid int
  | Op_begin_get tid u32 u32 u32

text \<open>The handlers look the queue of a thread up before they use it, and do nothing without one.\<close>

definition with_queue :: "horizon_msgqs \<Rightarrow> tid \<Rightarrow> (tid \<Rightarrow> horizon_msgqs option) \<Rightarrow> horizon_msgqs option" where
  "with_queue s t f = (case horizon_msgq_find s t of None \<Rightarrow> Some s | Some t \<Rightarrow> f t)"

fun msgq_step :: "horizon_msgqs option \<Rightarrow> msgq_op \<Rightarrow> horizon_msgqs option" where
  "msgq_step None op = None"
| "msgq_step (Some s) (Op_get memory t) = Some (snd (snd (horizon_msgq_get memory s t)))"
| "msgq_step (Some s) (Op_send mem sender t flds data has_deadline deadline) =
     with_queue s t (\<lambda>t. case sender of
        None \<Rightarrow> map_option snd (horizon_msgq_send mem None t flds data has_deadline deadline s)
      | Some p \<Rightarrow> with_queue s p (\<lambda>p. map_option snd (horizon_msgq_send mem (Some p) t flds data has_deadline deadline s)))"
| "msgq_step (Some s) (Op_receive t) = with_queue s t (\<lambda>t. map_option snd (horizon_msgq_receive t s))"
| "msgq_step (Some s) (Op_reply t val e remove data memory) = with_queue s t (\<lambda>t. horizon_msgq_reply t val e remove data memory s)"
| "msgq_step (Some s) (Op_get_reply t cancel) = with_queue s t (\<lambda>t. map_option snd (horizon_msgq_get_reply t cancel s))"
| "msgq_step (Some s) (Op_expire now) = map_option snd (horizon_msgq_expire now s)"
| "msgq_step (Some s) (Op_destroy t) = with_queue s t (\<lambda>t. horizon_msgq_destroy t s)"
| "msgq_step (Some s) (Op_update t external) = with_queue s t (\<lambda>t. horizon_msgq_update t external s)"
| "msgq_step (Some s) (Op_touch t bits) = with_queue s t (\<lambda>t. upd_queue t (horizon_msgq_touch bits) s)"
| "msgq_step (Some s) (Op_quit t code) = with_queue s t (\<lambda>t. upd_queue t (horizon_msgq_post_quit code) s)"
| "msgq_step (Some s) (Op_begin_get t filt a b) = with_queue s t (\<lambda>t. upd_queue t (horizon_msgq_begin_get filt a b) s)"

text \<open>The allocator hands out memory that is free.\<close>

fun msgq_op_ok :: "horizon_msgqs option \<Rightarrow> msgq_op \<Rightarrow> bool" where
  "msgq_op_ok (Some s) (Op_send mem sender t flds data has_deadline deadline) = fresh_memory mem s"
| "msgq_op_ok s op = True"

definition msgq_inv :: "horizon_msgqs option \<Rightarrow> bool" where
  "msgq_inv st \<longleftrightarrow> (case st of None \<Rightarrow> False | Some s \<Rightarrow> msgq_ok {} s)"

lemma find_eq: "List.find (\<lambda>x. x = t) xs = (if t \<in> set xs then Some t else None)"
  by (induction xs) auto

lemma find_live:
  assumes "msgq_ok X s"
  shows "horizon_msgq_find s t = (if t \<in> dom (qs_queue s) then Some t else None)"
  using assms by (simp add: horizon_msgq_find_def msgq_ok_def find_eq)

lemma get_ok:
  assumes ok: "msgq_ok {} s"
  shows "msgq_ok {} (snd (snd (horizon_msgq_get memory s t)))"
proof (cases "t \<in> dom (qs_queue s)")
  case True
  then show ?thesis using ok by (simp add: horizon_msgq_get_def find_live [OF ok])
next
  case False
  then have n: "qs_queue s t = None" by blast
  have e: "(send_of (qs_queue s))(t := []) = send_of (qs_queue s)" "(back_of (qs_queue s))(t := []) = back_of (qs_queue s)"
    "(recv_of (qs_queue s))(t := []) = recv_of (qs_queue s)" "(sent_of (qs_queue s))(t := []) = sent_of (qs_queue s)"
    using n by (simp_all add: fun_upd_idem of_defs)
  show ?thesis using ok False by (auto simp: horizon_msgq_get_def find_live [OF ok] msgq_ok_def new_queue_def e)
qed

lemma upd_queue_ok:
  assumes ok: "msgq_ok {} s" and live: "t \<in> dom (qs_queue s)"
    and f: "\<And>q. mq_sent (f q) = mq_sent q \<and> mq_send_results (f q) = mq_send_results q \<and> mq_callback_results (f q) = mq_callback_results q \<and>
      mq_recv_result (f q) = mq_recv_result q"
  shows "\<exists>s'. upd_queue t f s = Some s' \<and> msgq_ok {} s'"
proof -
  obtain q where q: "qs_queue s t = Some q" using live by blast
  have "msgq_ok {} (s\<lparr>qs_queue := (qs_queue s)(t \<mapsto> f q)\<rparr>)" by (rule touch_ok [OF ok q]) (simp_all add: f)
  then show ?thesis using q by (simp add: upd_queue_def)
qed

lemma update_ok:
  assumes ok: "msgq_ok {} s" and live: "t \<in> dom (qs_queue s)"
  shows "\<exists>s'. horizon_msgq_update t external s = Some s' \<and> msgq_ok {} s'"
proof -
  obtain q where q: "qs_queue s t = Some q" using live by blast
  obtain b where b: "head_replied s q = Some b" using head_replied_ok [OF ok q] by blast
  then obtain own where own: "horizon_msgq_own_bits s q = Some own" by (simp add: horizon_msgq_own_bits_def)
  show ?thesis unfolding horizon_msgq_update_def Let_def q own bind.bind_lunit by (rule upd_queue_ok [OF ok live]) simp
qed

lemma msgq_step_inv: "msgq_inv st \<Longrightarrow> msgq_op_ok st op \<Longrightarrow> msgq_inv (msgq_step st op)"
proof -
  assume inv: "msgq_inv st" and okop: "msgq_op_ok st op"
  then obtain s where s: "st = Some s" and ok: "msgq_ok {} s" by (auto simp: msgq_inv_def split: option.splits)
  have wq: "msgq_inv (with_queue s t f)" if "t \<in> dom (qs_queue s) \<Longrightarrow> \<exists>s'. f t = Some s' \<and> msgq_ok {} s'" for t f
  proof (cases "t \<in> dom (qs_queue s)")
    case True
    from that [OF True] obtain s' where "f t = Some s'" "msgq_ok {} s'" by blast
    then show ?thesis using True by (simp add: with_queue_def find_live [OF ok] msgq_inv_def)
  qed (use ok in \<open>simp add: with_queue_def find_live [OF ok] msgq_inv_def\<close>)
  show ?thesis unfolding s
  proof (cases op)
    case (Op_send mem sender t flds data has_deadline deadline)
    then have fresh: "fresh_memory mem s" using okop s by simp
    show "msgq_inv (msgq_step (Some s) op)"
    proof (cases sender)
      case None
      have "\<exists>s'. map_option snd (horizon_msgq_send mem None t flds data has_deadline deadline s) = Some s' \<and> msgq_ok {} s'"
        if "t \<in> dom (qs_queue s)" using send_ok [OF ok fresh that, of None flds data has_deadline deadline] by auto
      then show ?thesis unfolding Op_send None msgq_step.simps option.case by (rule wq)
    next
      case (Some p)
      have sp: "\<exists>s'. map_option snd (horizon_msgq_send mem (Some p) t flds data has_deadline deadline s) = Some s' \<and> msgq_ok {} s'"
        if "t \<in> dom (qs_queue s)" "p \<in> dom (qs_queue s)"
        using send_ok [OF ok fresh that(1), of "Some p" flds data has_deadline deadline] that by auto
      show ?thesis unfolding Op_send Some msgq_step.simps option.case
      proof (rule wq)
        assume "t \<in> dom (qs_queue s)"
        then show "\<exists>s'. with_queue s p (\<lambda>p. map_option snd (horizon_msgq_send mem (Some p) t flds data has_deadline deadline s)) = Some s' \<and>
            msgq_ok {} s'"
          using sp ok by (cases "p \<in> dom (qs_queue s)") (simp_all add: with_queue_def find_live [OF ok])
      qed
    qed
  next
    case (Op_get memory t)
    then show "msgq_inv (msgq_step (Some s) op)" using get_ok [OF ok] by (simp add: msgq_inv_def)
  next
    case (Op_receive t)
    show "msgq_inv (msgq_step (Some s) op)" unfolding Op_receive msgq_step.simps
      by (rule wq) (use receive_ok [OF ok] in fastforce)
  next
    case (Op_reply t val e remove data memory)
    show "msgq_inv (msgq_step (Some s) op)" unfolding Op_reply msgq_step.simps by (rule wq) (use reply_ok [OF ok] in blast)
  next
    case (Op_get_reply t cancel)
    show "msgq_inv (msgq_step (Some s) op)" unfolding Op_get_reply msgq_step.simps
      by (rule wq) (use get_reply_ok [OF ok] in fastforce)
  next
    case (Op_expire now)
    then show "msgq_inv (msgq_step (Some s) op)" using expire_ok [OF ok, of now] by (auto simp: msgq_inv_def)
  next
    case (Op_destroy t)
    show "msgq_inv (msgq_step (Some s) op)" unfolding Op_destroy msgq_step.simps by (rule wq) (use destroy_ok [OF ok] in blast)
  next
    case (Op_update t external)
    show "msgq_inv (msgq_step (Some s) op)" unfolding Op_update msgq_step.simps by (rule wq) (use update_ok [OF ok] in blast)
  next
    case (Op_touch t bits)
    show "msgq_inv (msgq_step (Some s) op)" unfolding Op_touch msgq_step.simps
      by (rule wq) (rule upd_queue_ok [OF ok], simp_all)
  next
    case (Op_quit t code)
    show "msgq_inv (msgq_step (Some s) op)" unfolding Op_quit msgq_step.simps
      by (rule wq) (rule upd_queue_ok [OF ok], simp_all add: horizon_msgq_post_quit_def)
  next
    case (Op_begin_get t filt a b)
    show "msgq_inv (msgq_step (Some s) op)" unfolding Op_begin_get msgq_step.simps
      by (rule wq) (rule upd_queue_ok [OF ok], simp_all add: horizon_msgq_begin_get_def Let_def)
  qed
qed

interpretation msgqs: invariant_machine msgq_step msgq_op_ok msgq_inv
  by unfold_locales (rule msgq_step_inv)

lemma no_queues_inv: "msgq_inv (Some no_queues)"
  by (simp add: msgq_inv_def msgq_ok_def no_queues_def heap_ok_def senders_ok_def receivers_ok_def messages_ok_def callbacks_ok_def
    owned_ok_def of_defs)

section \<open>Properties\<close>


text \<open>
  C6. No answer is lost and no result leaks: after every sequence of operations, each result that is allocated is still held
  by its sender or by its receiver, and each result without an answer is with a thread that exists, either in a message
  of its queue or on its stack, so that thread's reply or its end answers it.
\<close>

theorem msgq_answer_due:
  assumes "admissible msgq_step msgq_op_ok (Some no_queues) ops" "foldl msgq_step (Some no_queues) ops = Some s" "qs_result s r = Some R"
  shows "(rs_sender R \<noteq> None \<or> rs_receiver R \<noteq> None) \<and>
    (\<not> rs_replied R \<longrightarrow> (\<exists>t q. rs_receiver R = Some t \<and> qs_queue s t = Some q \<and>
       (r \<in> set (mq_recv_result q) \<or> (\<exists>msg\<in>set (mq_sent q). sm_result msg = Some r))))"
proof -
  have "msgq_inv (foldl msgq_step (Some no_queues) ops)" by (rule msgqs.run_inv [OF no_queues_inv assms(1)])
  then have ok: "msgq_ok {} s" using assms(2) by (simp add: msgq_inv_def)
  then have own: "(rs_sender R \<noteq> None \<or> rs_receiver R \<noteq> None) \<and> (rs_replied R \<or> rs_receiver R \<noteq> None)"
    using assms(3) unfolding msgq_ok_def heap_ok_def owned_ok_def by blast
  moreover have "\<exists>t q. rs_receiver R = Some t \<and> qs_queue s t = Some q \<and>
       (r \<in> set (mq_recv_result q) \<or> (\<exists>msg\<in>set (mq_sent q). sm_result msg = Some r))" if nr: "\<not> rs_replied R"
  proof -
    obtain t where t: "rs_receiver R = Some t" using own nr by auto
    obtain q where "qs_queue s t = Some q" "case rs_msg R of None \<Rightarrow> r \<in> set (mq_recv_result q)
      | Some m \<Rightarrow> \<exists>msg\<in>set (mq_sent q). sm_addr msg = m \<and> sm_result msg = Some r"
      by (rule msgq_receiver_live [OF ok assms(3) t])
    then show ?thesis using t by (auto split: option.splits)
  qed
  ultimately show ?thesis by blast
qed

text \<open>
  C22. When a thread ends, whoever waits for it learns that: the queue goes away, nothing that is left names it, and
  every result another thread waits for that was with the thread is answered with the error that says so. Results that had an
  answer keep it.
\<close>

theorem msgq_end_refuses:
  assumes ok: "msgq_ok {} s" and live: "t \<in> dom (qs_queue s)"
  shows "\<exists>s'. horizon_msgq_destroy t s = Some s' \<and> dom (qs_queue s') = dom (qs_queue s) - {t} \<and>
    (\<forall>r R. qs_result s' r = Some R \<longrightarrow> rs_sender R \<noteq> Some t \<and> rs_receiver R \<noteq> Some t) \<and>
    (\<forall>r R p. qs_result s r = Some R \<and> rs_receiver R = Some t \<and> rs_sender R = Some p \<and> p \<noteq> t \<and> rs_callback_msg R = None \<longrightarrow>
       (\<exists>R'. qs_result s' r = Some R' \<and> rs_sender R' = Some p \<and> rs_replied R' \<and>
          rs_error R' = (if rs_replied R then rs_error R else HORIZON_MSGQ_STATUS_ACCESS_DENIED)))"
proof -
  obtain s' where s': "horizon_msgq_destroy t s = Some s'" "msgq_ok {} s'" "kept t s s'" "dom (qs_queue s') = dom (qs_queue s) - {t}"
    using destroy_ok [OF ok live] by blast
  have gone: "rs_sender R \<noteq> Some t \<and> rs_receiver R \<noteq> Some t" if "qs_result s' r = Some R" for r R
    using msgq_live [OF s'(2) that, of t] s'(4) by blast
  have res: "\<exists>R'. qs_result s' r = Some R' \<and> rs_sender R' = Some p \<and> rs_replied R' \<and>
      rs_error R' = (if rs_replied R then rs_error R else HORIZON_MSGQ_STATUS_ACCESS_DENIED)"
    if a: "qs_result s r = Some R" "rs_receiver R = Some t" "rs_sender R = Some p" "p \<noteq> t" "rs_callback_msg R = None" for r R p
  proof -
    obtain R' where R': "qs_result s' r = Some R'" "outcome R R'" using s'(3) a unfolding kept_def by blast
    have "rs_receiver R' = None" using R' gone [OF R'(1)] a(2) by (auto simp: outcome_def)
    then have "rs_replied R'" using s'(2) R'(1) unfolding msgq_ok_def heap_ok_def owned_ok_def by blast
    then show ?thesis using R' a(3) by (auto simp: outcome_def)
  qed
  show ?thesis
  proof (intro exI [of _ s'] conjI allI impI)
    show "horizon_msgq_destroy t s = Some s'" "dom (qs_queue s') = dom (qs_queue s) - {t}" by (rule s')+
  next
    fix r R assume "qs_result s' r = Some R"
    then show "rs_sender R \<noteq> Some t" "rs_receiver R \<noteq> Some t" using gone by auto
  next
    fix r R p assume "qs_result s r = Some R \<and> rs_receiver R = Some t \<and> rs_sender R = Some p \<and> p \<noteq> t \<and> rs_callback_msg R = None"
    then show "\<exists>R'. qs_result s' r = Some R' \<and> rs_sender R' = Some p \<and> rs_replied R' \<and>
      rs_error R' = (if rs_replied R then rs_error R else HORIZON_MSGQ_STATUS_ACCESS_DENIED)" by (elim conjE) (rule res)
  qed
qed


subsection \<open>A message and its answer\<close>

lemma touch_twice: "horizon_msgq_touch b q\<lparr>mq_sent := a\<rparr> = horizon_msgq_touch b (q\<lparr>mq_sent := a\<rparr>)"
  by (simp add: horizon_msgq_touch_def)

text \<open>
  C7. \<open>SendMessage\<close>: a thread sends a message to another thread that has none waiting, that thread receives it and answers,
  and the sender collects the answer. The receiver gets exactly the message with its data; the sender's queue is
  woken for the answer; the sender gets exactly the value, the status and the data of the answer. Nothing is left
  behind: the results that are allocated and the lists of all queues are as they were before.
\<close>

theorem sendmessage_answered:
  assumes ok: "msgq_ok {} s" and pt: "p \<noteq> t" and q: "qs_queue s p = Some qp" "qs_queue s t = Some qt" "mq_sent qt = []"
    and r: "qs_result s r = None" and type: "sm_type flds \<in> {0, 1, HORIZON_MSGQ_MSG_OTHER_PROCESS}"
    and mem: "mm_msg mem = Some m" "mm_data mem" "mm_result mem = Some r"
  shows "\<exists>s1 s2 s3 s4. horizon_msgq_send mem (Some p) t flds data has_deadline deadline s = Some (0, s1) \<and>
    horizon_msgq_receive t s1 = Some (Some (flds\<lparr>sm_addr := m, sm_data := data, sm_result := None\<rparr>), s2) \<and>
    horizon_msgq_reply t val e True answer True s2 = Some s3 \<and>
    (\<exists>q. qs_queue s3 p = Some q \<and> mq_wake_bits q AND HORIZON_MSGQ_QS_SMRESULT \<noteq> 0) \<and>
    horizon_msgq_get_reply p False s3 = Some (\<lparr>ma_status = e, ma_value = val, ma_data = answer\<rparr>, s4) \<and>
    qs_result s4 = qs_result s \<and> send_of (qs_queue s4) = send_of (qs_queue s) \<and> back_of (qs_queue s4) = back_of (qs_queue s) \<and>
    recv_of (qs_queue s4) = recv_of (qs_queue s) \<and> sent_of (qs_queue s4) = sent_of (qs_queue s)"
proof -
  define msg where "msg = flds\<lparr>sm_addr := m, sm_data := data, sm_result := None\<rparr>"
  define R where "R = new_result (Some p) t m has_deadline deadline"
  define qp1 where "qp1 = qp\<lparr>mq_send_results := r # mq_send_results qp\<rparr>"
  define qt1 where "qt1 = horizon_msgq_touch HORIZON_MSGQ_QS_SENDMESSAGE (qt\<lparr>mq_sent := [msg\<lparr>sm_result := Some r\<rparr>]\<rparr>)"
  define s1 where "s1 = s\<lparr>qs_result := (qs_result s)(r \<mapsto> R), qs_queue := (qs_queue s)(p \<mapsto> qp1, t \<mapsto> qt1)\<rparr>"
  have send: "horizon_msgq_send mem (Some p) t flds data has_deadline deadline s = Some (0, s1)"
    using q pt type mem by (auto simp: horizon_msgq_send_def link_result_def queue_sent_def upd_queue_def s1_def R_def qp1_def qt1_def msg_def Let_def)
  define qt2 where "qt2 = qt1\<lparr>mq_sent := [], mq_recv_result := r # mq_recv_result qt\<rparr>"
  define s2 where "s2 = s\<lparr>qs_result := (qs_result s)(r \<mapsto> R\<lparr>rs_msg := None\<rparr>), qs_queue := (qs_queue s)(p \<mapsto> qp1, t \<mapsto> qt2)\<rparr>"
  have receive: "horizon_msgq_receive t s1 = Some (Some msg, s2)"
    using pt by (simp add: horizon_msgq_receive_def upd_queue_def upd_result_def s1_def s2_def qt2_def qt1_def msg_def)
  define R3 where "R3 = (if answer = [] then R else R\<lparr>rs_data := answer\<rparr>)\<lparr>rs_msg := None, rs_receiver := None, rs_result := val, rs_error := e,
    rs_replied := True, rs_has_deadline := False\<rparr>"
  define qt3 where "qt3 = qt2\<lparr>mq_recv_result := mq_recv_result qt\<rparr>"
  define s3 where "s3 = s\<lparr>qs_result := (qs_result s)(r \<mapsto> R3),
    qs_queue := (qs_queue s)(p \<mapsto> horizon_msgq_touch HORIZON_MSGQ_QS_SMRESULT qp1, t \<mapsto> qt3)\<rparr>"
  have reply: "horizon_msgq_reply t val e True answer True s2 = Some s3"
    using pt by (simp add: horizon_msgq_reply_def horizon_msgq_store_result_def upd_queue_def upd_result_def s2_def s3_def qt3_def qt2_def
      R_def R3_def new_result_def qp1_def fun_upd_twist)
  have wake: "mq_wake_bits (horizon_msgq_touch HORIZON_MSGQ_QS_SMRESULT qp1) AND HORIZON_MSGQ_QS_SMRESULT \<noteq> 0"
    by (simp add: horizon_msgq_touch_def bit.conj_disj_distrib2)
  have nb: "r \<notin> set (mq_callback_results qp)"
  proof
    assume "r \<in> set (mq_callback_results qp)"
    then have "r \<in> set (waiting_list s p)" using q(1) by (simp add: waiting_list_def)
    then show False using waiting_live [OF ok] r by fastforce
  qed
  define qp4 where "qp4 = horizon_msgq_touch HORIZON_MSGQ_QS_SMRESULT qp1\<lparr>mq_send_results := mq_send_results qp, mq_callback_results := mq_callback_results qp\<rparr>"
  define s4 where "s4 = s\<lparr>qs_result := qs_result s, qs_queue := (qs_queue s)(p \<mapsto> qp4, t \<mapsto> qt3)\<rparr>"
  have idem: "(qs_result s)(r := None) = qs_result s" using r by (simp add: fun_upd_idem)
  have remove: "horizon_msgq_remove_result_from_sender r (s3\<lparr>qs_result := (qs_result s)(r \<mapsto> R3\<lparr>rs_data := []\<rparr>)\<rparr>) = Some s4"
    using pt nb by (simp add: horizon_msgq_remove_result_from_sender_def horizon_msgq_free_result_def upd_queue_def upd_result_def s3_def s4_def
      R3_def R_def new_result_def horizon_msgq_unlink_result_def qp4_def qp1_def fun_upd_twist idem remove1_idem)
  obtain b where b: "head_replied s qp = Some b" using head_replied_ok [OF ok q(1)] by blast
  have b4: "head_replied s4 qp4 = Some b" using b by (cases "mq_send_results qp") (simp_all add: head_replied_def s4_def qp4_def)
  define s5 where "s5 = (if b then s4\<lparr>qs_queue := (qs_queue s4)(p \<mapsto> horizon_msgq_touch HORIZON_MSGQ_QS_SMRESULT qp4)\<rparr> else s4)"
  have q3: "qs_queue s3 p = Some (horizon_msgq_touch HORIZON_MSGQ_QS_SMRESULT qp1)" "qs_result s3 = (qs_result s)(r \<mapsto> R3)"
    "mq_send_results qp1 = r # mq_send_results qp" "qs_queue s4 p = Some qp4"
    using pt by (simp_all add: s3_def s4_def qp1_def)
  have R3: "rs_replied R3" "rs_error R3 = e" "rs_result R3 = val" "rs_data R3 = answer" by (simp_all add: R3_def R_def new_result_def)
  have get: "horizon_msgq_get_reply p False s3 = Some (\<lparr>ma_status = e, ma_value = val, ma_data = answer\<rparr>, s5)"
    using remove b4 by (simp add: horizon_msgq_get_reply_def q3 R3 upd_result_def upd_queue_def s5_def)
  have "(send_of (qs_queue s))(p := mq_send_results qp, t := mq_send_results qt) = send_of (qs_queue s)"
    "(back_of (qs_queue s))(p := mq_callback_results qp, t := mq_callback_results qt) = back_of (qs_queue s)"
    "(recv_of (qs_queue s))(p := mq_recv_result qp, t := mq_recv_result qt) = recv_of (qs_queue s)"
    "(sent_of (qs_queue s))(p := mq_sent qp, t := []) = sent_of (qs_queue s)"
    using of_idem [OF q(1)] of_idem [OF q(2)] q(3) by (simp_all add: fun_upd_idem)
  then have "qs_result s5 = qs_result s \<and> send_of (qs_queue s5) = send_of (qs_queue s) \<and> back_of (qs_queue s5) = back_of (qs_queue s) \<and>
    recv_of (qs_queue s5) = recv_of (qs_queue s) \<and> sent_of (qs_queue s5) = sent_of (qs_queue s)"
    using pt by (auto simp: s5_def s4_def qp4_def qp1_def qt3_def qt2_def qt1_def fun_upd_twist)
  then show ?thesis using send receive [unfolded msg_def] reply wake get q3(1) by blast
qed

lemma input_bits_key: "input_bits t is AND HORIZON_MSGQ_QS_KEY = 0"
  by (induction "is") (auto simp: bit.conj_disj_distrib2)

lemma external_bits_key: "\<not> bit (external_bits posted inputs paint timer t) 0"
proof -
  have "\<not> bit (input_bits t inputs) 0" using input_bits_key [of t inputs] by (metis bit_and_iff bit_1_iff bit_0_eq bot_apply bot_bool_def)
  then show ?thesis by (simp add: external_bits_def bit_or_iff)
qed

text \<open>
  C39. A key press wakes nobody who waits for keys: the request that queues it marks the queue of the thread for \<open>QS_KEY\<close>,
  and the refresh of the queues with which the request ends, which counts the queued key message with the mouse buttons, takes
  the mark back from both the wake and the changed bits, whatever else is pending.
\<close>

theorem key_wake_lost:
  assumes "qs_queue s t = Some q" "head_replied s q = Some b"
  shows "\<exists>s1 s2 q'. upd_queue t (horizon_msgq_touch HORIZON_MSGQ_QS_KEY) s = Some s1 \<and>
    horizon_msgq_update t (external_bits posted (inputs @ [\<lparr>im_tid = t, im_msg = HORIZON_WM_KEYDOWN\<rparr>]) paint timer t) s1 = Some s2 \<and>
    qs_queue s2 t = Some q' \<and> \<not> bit (mq_wake_bits q') 0 \<and> \<not> bit (mq_changed_bits q') 0"
proof -
  define ext where "ext = external_bits posted (inputs @ [\<lparr>im_tid = t, im_msg = HORIZON_WM_KEYDOWN\<rparr>]) paint timer t"
  have e: "\<not> bit ext 0" unfolding ext_def by (rule external_bits_key)
  define q1 where "q1 = horizon_msgq_touch HORIZON_MSGQ_QS_KEY q"
  define s1 where "s1 = s\<lparr>qs_queue := (qs_queue s)(t \<mapsto> q1)\<rparr>"
  have hr: "head_replied s1 q1 = Some b"
    using assms(2) by (cases "mq_send_results q") (simp_all add: head_replied_def s1_def q1_def)
  obtain own where own: "horizon_msgq_own_bits s1 q1 = Some own" "\<not> bit own 0"
  proof
    show "horizon_msgq_own_bits s1 q1 = Some ((if mq_sent q \<noteq> [] then HORIZON_MSGQ_QS_SENDMESSAGE else 0) OR
        (if mq_quit_message q then HORIZON_MSGQ_QS_POSTMESSAGE OR HORIZON_MSGQ_QS_ALLPOSTMESSAGE else 0) OR (if b then HORIZON_MSGQ_QS_SMRESULT else 0))"
      by (simp add: horizon_msgq_own_bits_def hr) (simp add: q1_def horizon_msgq_touch_def)
  qed (simp add: bit_or_iff)
  have w: "\<not> bit (ext OR own) 0" "bit (mq_wake_bits q1) 0" using e own(2) by (simp_all add: bit_or_iff q1_def horizon_msgq_touch_def)
  show ?thesis unfolding ext_def [symmetric]
    using w own(1) assms(1) by (simp add: upd_queue_def q1_def [symmetric] s1_def [symmetric] horizon_msgq_update_def Let_def)
      (simp add: s1_def bit_simps)
qed

section \<open>An example\<close>

text \<open>Thread 1 sends a message to thread 2, which receives it.\<close>

definition example_msg :: horizon_msgq_sent where
  "example_msg = \<lparr>sm_addr = 0, sm_type = 1, sm_win = 0x10020, sm_msg = 0x111, sm_wparam = 7, sm_lparam = 0, sm_x = 0, sm_y = 0,
     sm_time = 0, sm_data = [], sm_result = None\<rparr>"

definition example_memory :: msgq_memory where
  "example_memory = \<lparr>mm_msg = Some 10, mm_data = True, mm_result = Some 20, mm_callback = None\<rparr>"

definition two_queues :: horizon_msgqs where
  "two_queues = \<lparr>qs_order = [2, 1], qs_queue = (\<lambda>_. None)(1 \<mapsto> new_queue, 2 \<mapsto> new_queue), qs_result = (\<lambda>_. None)\<rparr>"

definition example_state :: horizon_msgqs where
  "example_state = two_queues\<lparr>qs_result := (\<lambda>_. None)(20 \<mapsto> new_result (Some 1) 2 10 True 5\<lparr>rs_msg := None\<rparr>),
     qs_queue := (\<lambda>_. None)(1 \<mapsto> new_queue\<lparr>mq_send_results := [20]\<rparr>,
       2 \<mapsto> horizon_msgq_touch HORIZON_MSGQ_QS_SENDMESSAGE new_queue\<lparr>mq_recv_result := [20]\<rparr>)\<rparr>"

definition example_ops :: "msgq_op list" where
  "example_ops = [Op_get True 1, Op_get True 2, Op_send example_memory (Some 1) 2 example_msg [] True 5, Op_receive 2]"

lemma example_get: "snd (snd (horizon_msgq_get True (snd (snd (horizon_msgq_get True no_queues 1))) 2)) = two_queues"
  by (simp add: horizon_msgq_get_def horizon_msgq_find_def no_queues_def two_queues_def)

lemma example_send_receive:
  "msgq_step (msgq_step (Some two_queues) (Op_send example_memory (Some 1) 2 example_msg [] True 5)) (Op_receive 2) = Some example_state"
  by (simp add: with_queue_def horizon_msgq_find_def two_queues_def horizon_msgq_send_def example_memory_def example_msg_def link_result_def
    queue_sent_def upd_queue_def upd_result_def horizon_msgq_receive_def new_queue_def new_result_def horizon_msgq_touch_def example_state_def
    fun_upd_twist Let_def)

lemma example_fresh: "fresh_memory example_memory two_queues"
  by (simp add: fresh_memory_def example_memory_def fresh_addr_def two_queues_def new_queue_def of_defs)

lemma example_run: "foldl msgq_step (Some no_queues) example_ops = Some example_state"
  using example_send_receive by (simp add: example_ops_def example_get)

lemma example_admissible: "admissible msgq_step msgq_op_ok (Some no_queues) example_ops"
  using example_fresh by (simp add: example_ops_def example_get)

lemma example_ok: "msgq_ok {} example_state" "msgq_ok {} two_queues"
proof -
  have "msgq_inv (foldl msgq_step (Some no_queues) example_ops)" by (rule msgqs.run_inv [OF no_queues_inv example_admissible])
  then show "msgq_ok {} example_state" by (simp add: example_run msgq_inv_def)
  have "msgq_inv (foldl msgq_step (Some no_queues) [Op_get True 1, Op_get True 2])" by (rule msgqs.run_inv [OF no_queues_inv]) simp
  then show "msgq_ok {} two_queues" by (simp add: msgq_inv_def example_get)
qed


theorem msgq_answer_due_witness:
  "\<exists>q. qs_queue example_state 2 = Some q \<and> (20 \<in> set (mq_recv_result q) \<or> (\<exists>msg\<in>set (mq_sent q). sm_result msg = Some 20))"
proof -
  have R: "qs_result example_state 20 = Some (new_result (Some 1) 2 10 True 5\<lparr>rs_msg := None\<rparr>)" by (simp add: example_state_def)
  from msgq_answer_due [OF example_admissible example_run R] show ?thesis by (simp add: new_result_def)
qed

theorem msgq_end_refuses_witness:
  "\<exists>s' R'. horizon_msgq_destroy 2 example_state = Some s' \<and> qs_result s' 20 = Some R' \<and> rs_replied R' \<and>
     rs_error R' = HORIZON_MSGQ_STATUS_ACCESS_DENIED"
proof -
  have "2 \<in> dom (qs_queue example_state)" by (simp add: example_state_def)
  from msgq_end_refuses [OF example_ok(1) this] obtain s' where s': "horizon_msgq_destroy 2 example_state = Some s'"
    "\<forall>r R p. qs_result example_state r = Some R \<and> rs_receiver R = Some 2 \<and> rs_sender R = Some p \<and> p \<noteq> 2 \<and> rs_callback_msg R = None \<longrightarrow>
       (\<exists>R'. qs_result s' r = Some R' \<and> rs_sender R' = Some p \<and> rs_replied R' \<and>
          rs_error R' = (if rs_replied R then rs_error R else HORIZON_MSGQ_STATUS_ACCESS_DENIED))" by blast
  have R: "qs_result example_state 20 = Some (new_result (Some 1) 2 10 True 5\<lparr>rs_msg := None\<rparr>)" by (simp add: example_state_def)
  show ?thesis using s'(1) s'(2) [rule_format, of 20, OF conjI [OF R]] by (auto simp: new_result_def)
qed


theorem key_wake_lost_witness:
  "\<exists>s1 s2 q'. upd_queue 1 (horizon_msgq_touch HORIZON_MSGQ_QS_KEY) two_queues = Some s1 \<and>
     horizon_msgq_update 1 (external_bits False ([] @ [\<lparr>im_tid = 1, im_msg = HORIZON_WM_KEYDOWN\<rparr>]) False False 1) s1 = Some s2 \<and>
     qs_queue s2 1 = Some q' \<and> \<not> bit (mq_wake_bits q') 0 \<and> \<not> bit (mq_changed_bits q') 0"
  by (rule key_wake_lost [of _ _ new_queue False]) (simp_all add: two_queues_def head_replied_def new_queue_def)

theorem sendmessage_answered_witness:
  "\<exists>s1 s2 s3 s4. horizon_msgq_send example_memory (Some 1) 2 example_msg [] True 5 two_queues = Some (0, s1) \<and>
     horizon_msgq_receive 2 s1 = Some (Some (example_msg\<lparr>sm_addr := 10\<rparr>), s2) \<and>
     horizon_msgq_reply 2 42 0 True [1, 2] True s2 = Some s3 \<and>
     horizon_msgq_get_reply 1 False s3 = Some (\<lparr>ma_status = 0, ma_value = 42, ma_data = [1, 2]\<rparr>, s4) \<and> qs_result s4 20 = None"
proof -
  have q: "qs_queue two_queues 1 = Some new_queue" "qs_queue two_queues 2 = Some new_queue" "mq_sent new_queue = []" "qs_result two_queues 20 = None"
    by (simp_all add: two_queues_def new_queue_def)
  have m: "example_msg\<lparr>sm_addr := 10, sm_data := [], sm_result := None\<rparr> = example_msg\<lparr>sm_addr := 10\<rparr>" by (simp add: example_msg_def)
  have "sm_type example_msg \<in> {0, 1, HORIZON_MSGQ_MSG_OTHER_PROCESS}" by (simp add: example_msg_def)
  from sendmessage_answered [OF example_ok(2) _ q this, of example_memory 10 "[]" True 5 42 0 "[1, 2]", unfolded m]
  show ?thesis using q(4) by (auto simp: example_memory_def)
qed

end
