(* ===== verification/HzRegTables.thy ===== *)
theory HzRegTables
  imports HzPrelude "HOL-Library.List_Lexorder"
begin

text \<open>
  Names of the registry and the sorted tables they are kept in (\<open>dlls/ntdll/unix/horizon_registry.h\<close>): the
  comparison without ASCII case, and the binary search that \<open>horizon_reg_find_subkey\<close> and
  \<open>horizon_reg_find_value\<close> both are.

  A name is the list of its 16-bit units; the length in bytes the code keeps beside it is twice the length of the
  list, since every name that is stored has an even number of bytes. The reference definitions compare folded
  names with the lexicographic order of lists.
\<close>

section \<open>Comparing names\<close>

abbreviation (input) BACKSLASH :: u16 where "BACKSLASH \<equiv> 0x5c"

definition fold_unit :: "u16 \<Rightarrow> u16" where
  "fold_unit c = (if 97 \<le> c \<and> c \<le> 122 then c - 32 else c)"

fun horizon_reg_compare :: "u16 list \<Rightarrow> u16 list \<Rightarrow> int" where
  "horizon_reg_compare (a # as) (b # bs) =
     (if fold_unit a \<noteq> fold_unit b then if fold_unit a < fold_unit b then -1 else 1 else horizon_reg_compare as bs)"
| "horizon_reg_compare as bs = (if length as = length bs then 0 else if length as < length bs then -1 else 1)"

definition fold_name :: "u16 list \<Rightarrow> u16 list" where
  "fold_name = map fold_unit"

lemma fold_unit_idem [simp]: "fold_unit (fold_unit c) = fold_unit c"
  by (auto simp: fold_unit_def word_le_nat_alt unat_sub_if')

lemma fold_name_simps [simp]:
  "fold_name [] = []" "fold_name (c # cs) = fold_unit c # fold_name cs"
  "fold_name (as @ bs) = fold_name as @ fold_name bs" "fold_name a = [] \<longleftrightarrow> a = []"
  "length (fold_name a) = length a"
  by (simp_all add: fold_name_def)

lemma compare_exact:
  "horizon_reg_compare a b = (if fold_name a = fold_name b then 0 else if fold_name a < fold_name b then -1 else 1)"
proof (induction a arbitrary: b)
  case Nil
  then show ?case by (cases b) auto
next
  case (Cons x xs)
  then show ?case by (cases b) auto
qed

lemma compare_zero [simp]: "horizon_reg_compare a b = 0 \<longleftrightarrow> fold_name a = fold_name b"
  by (simp add: compare_exact)

lemma compare_pos [simp]: "0 < horizon_reg_compare a b \<longleftrightarrow> fold_name b < fold_name a"
  by (auto simp: compare_exact)

section \<open>Binary search\<close>

text \<open>
  The loop of both searches; \<open>name_at i\<close> is the name of the \<open>i\<close>th entry, which for subkeys follows a pointer.
  The result is whether an entry has the name, and the index of the entry or the one to insert it at.
\<close>

function reg_search :: "(nat \<Rightarrow> u16 list option) \<Rightarrow> u16 list \<Rightarrow> nat \<Rightarrow> nat \<Rightarrow> (bool \<times> nat) option" where
  "reg_search name_at name lo hi =
     (if lo < hi
      then let i = (lo + hi) div 2
           in case name_at i of
                None \<Rightarrow> None
              | Some n \<Rightarrow>
                  let res = horizon_reg_compare n name
                  in if res = 0 then Some (True, i)
                     else if res > 0 then reg_search name_at name lo i
                     else reg_search name_at name (i + 1) hi
      else Some (False, lo))"
  by auto
termination
  by (relation "measure (\<lambda>(_, _, lo, hi). hi - lo)") auto

declare reg_search.simps [simp del]

text \<open>What the search is to find: a linear look at the whole table.\<close>

definition sorted_names :: "u16 list list \<Rightarrow> bool" where
  "sorted_names ns \<longleftrightarrow> sorted_wrt (<) (map fold_name ns)"

definition has_name :: "u16 list list \<Rightarrow> u16 list \<Rightarrow> bool" where
  "has_name ns n \<longleftrightarrow> (\<exists>m\<in>set ns. fold_name m = fold_name n)"

definition name_place :: "u16 list list \<Rightarrow> u16 list \<Rightarrow> nat" where
  "name_place ns n = length (takeWhile (\<lambda>m. fold_name m < fold_name n) ns)"

lemma sorted_names_nth: "sorted_names ns \<Longrightarrow> i < j \<Longrightarrow> j < length ns \<Longrightarrow> fold_name (ns ! i) < fold_name (ns ! j)"
  by (simp add: sorted_names_def sorted_wrt_iff_nth_less)

lemma sorted_names_le:
  assumes "sorted_names ns" "i \<le> j" "j < length ns"
  shows "fold_name (ns ! i) \<le> fold_name (ns ! j)"
  using assms sorted_names_nth [of ns i j] by (cases "i = j") auto

lemma name_place_le: "name_place ns n \<le> length ns"
  by (simp add: name_place_def length_takeWhile_le)

lemma name_place_less: "i < name_place ns n \<Longrightarrow> fold_name (ns ! i) < fold_name n"
  unfolding name_place_def
  by (metis nth_mem set_takeWhileD takeWhile_nth)

lemma name_place_stop: "name_place ns n < length ns \<Longrightarrow> \<not> fold_name (ns ! name_place ns n) < fold_name n"
  unfolding name_place_def using nth_length_takeWhile [of _ ns] by blast

lemma name_place_unique:
  assumes "sorted_names ns" and "i \<le> length ns"
    and "\<And>j. j < i \<Longrightarrow> fold_name (ns ! j) < fold_name n"
    and "\<And>j. i \<le> j \<Longrightarrow> j < length ns \<Longrightarrow> \<not> fold_name (ns ! j) < fold_name n"
  shows "name_place ns n = i"
proof (rule antisym)
  show "name_place ns n \<le> i"
  proof (rule ccontr)
    assume "\<not> name_place ns n \<le> i"
    then have "i < name_place ns n" by simp
    with name_place_less [OF this] assms(4) [of i] name_place_le [of ns n] show False by simp
  qed
  show "i \<le> name_place ns n"
  proof (rule ccontr)
    assume "\<not> i \<le> name_place ns n"
    then have "name_place ns n < i" by simp
    with name_place_stop [of ns n] assms(2) assms(3) [of "name_place ns n"] show False by simp
  qed
qed

lemma search_exact:
  assumes ns: "sorted_names ns" and names: "\<And>i. i < length ns \<Longrightarrow> name_at i = Some (ns ! i)"
  shows "lo \<le> hi \<Longrightarrow> hi \<le> length ns \<Longrightarrow>
    (\<forall>j<lo. fold_name (ns ! j) < fold_name n) \<Longrightarrow>
    (\<forall>j. hi \<le> j \<longrightarrow> j < length ns \<longrightarrow> fold_name n < fold_name (ns ! j)) \<Longrightarrow>
    reg_search name_at n lo hi = Some (has_name ns n, name_place ns n)"
proof (induction "hi - lo" arbitrary: lo hi rule: less_induct)
  case less
  show ?case
  proof (cases "lo < hi")
    case False
    with less.prems have "lo = hi" by simp
    have "\<not> fold_name (ns ! j) = fold_name n" if "j < length ns" for j
      using less.prems(3,4) \<open>lo = hi\<close> that by (cases "j < lo") (auto simp: not_less dest: less_imp_neq)
    then have "\<not> has_name ns n" by (auto simp: has_name_def in_set_conv_nth)
    moreover have "name_place ns n = lo"
      by (rule name_place_unique [OF ns]) (use less.prems \<open>lo = hi\<close> in \<open>auto dest: less_not_sym\<close>)
    ultimately show ?thesis using False by (simp add: reg_search.simps)
  next
    case True
    define i where "i = (lo + hi) div 2"
    have i: "lo \<le> i" "i < hi" "i < length ns" using True less.prems by (auto simp: i_def)
    consider (eq) "fold_name (ns ! i) = fold_name n" | (above) "fold_name n < fold_name (ns ! i)"
      | (below) "fold_name (ns ! i) < fold_name n" by (rule linorder_cases)
    then show ?thesis
    proof cases
      case eq
      have "name_place ns n = i"
        by (rule name_place_unique [OF ns])
          (use i eq sorted_names_nth [OF ns] sorted_names_le [OF ns] in \<open>force simp: not_less\<close>)+
      moreover have "has_name ns n" using eq i(3) by (auto simp: has_name_def)
      ultimately show ?thesis using True names [OF i(3)] eq by (subst reg_search.simps) (simp add: Let_def flip: i_def)
    next
      case above
      have "reg_search name_at n lo i = Some (has_name ns n, name_place ns n)"
        using less.prems i above sorted_names_le [OF ns, of i] by (intro less.hyps) (auto intro: less_le_trans)
      moreover have "fold_name (ns ! i) \<noteq> fold_name n" using above by auto
      ultimately show ?thesis using True names [OF i(3)] above
        by (subst reg_search.simps) (simp add: Let_def flip: i_def)
    next
      case below
      have "reg_search name_at n (i + 1) hi = Some (has_name ns n, name_place ns n)"
        using less.prems i below le_less_trans [OF sorted_names_le [OF ns, of _ i] below]
        by (intro less.hyps) (auto simp: less_Suc_eq_le)
      moreover have "fold_name (ns ! i) \<noteq> fold_name n" "\<not> fold_name n < fold_name (ns ! i)" using below by auto
      ultimately show ?thesis using True names [OF i(3)]
        by (subst reg_search.simps) (simp add: Let_def flip: i_def)
    qed
  qed
qed

section \<open>Changing a sorted table\<close>

text \<open>\<open>memmove(table + i + 1, table + i, ...)\<close> and the store at \<open>i\<close>.\<close>

definition insert_at :: "nat \<Rightarrow> 'a \<Rightarrow> 'a list \<Rightarrow> 'a list" where
  "insert_at i x xs = take i xs @ x # drop i xs"

lemma set_take_drop: "set (take i xs) \<union> set (drop i xs) = set xs"
  by (metis append_take_drop_id set_append)

lemma insert_at_simps [simp]:
  "set (insert_at i x xs) = insert x (set xs)" "length (insert_at i x xs) = Suc (length xs)"
  "map f (insert_at i x xs) = insert_at i (f x) (map f xs)"
  by (simp_all add: insert_at_def take_map drop_map set_take_drop)

lemma distinct_insert_at: "distinct (insert_at i x xs) \<longleftrightarrow> distinct xs \<and> x \<notin> set xs"
proof -
  have "distinct (insert_at i x xs) \<longleftrightarrow> distinct (x # take i xs @ drop i xs)"
    by (auto simp only: insert_at_def distinct_append distinct.simps set_append set_simps)
  then show ?thesis by (simp add: conj_commute)
qed

lemma sorted_names_split:
  "sorted_names ns \<longleftrightarrow> sorted_names (take i ns) \<and> sorted_names (drop i ns) \<and>
     (\<forall>a\<in>set (take i ns). \<forall>b\<in>set (drop i ns). fold_name a < fold_name b)"
proof -
  have "sorted_names ns \<longleftrightarrow> sorted_wrt (<) (map fold_name (take i ns) @ map fold_name (drop i ns))"
    by (simp add: sorted_names_def flip: map_append)
  then show ?thesis by (simp add: sorted_names_def sorted_wrt_append)
qed

lemma sorted_insert_at:
  assumes ns: "sorted_names ns" and new: "\<not> has_name ns n"
  shows "sorted_names (insert_at (name_place ns n) n ns)"
proof -
  have lower: "\<forall>m\<in>set (take (name_place ns n) ns). fold_name m < fold_name n"
    by (auto simp: name_place_def dest: set_takeWhileD simp flip: takeWhile_eq_take)
  have upper: "\<forall>m\<in>set (drop (name_place ns n) ns). fold_name n < fold_name m"
  proof
    fix m assume "m \<in> set (drop (name_place ns n) ns)"
    then obtain k where "k < length ns - name_place ns n" "m = ns ! (name_place ns n + k)"
      by (auto simp: in_set_conv_nth)
    then obtain j where j: "name_place ns n \<le> j" "j < length ns" "m = ns ! j"
      by (intro that [of "name_place ns n + k"]) auto
    then have "\<not> fold_name m < fold_name n"
      using name_place_stop [of ns n] sorted_names_le [OF ns j(1,2)] by (auto dest: order.strict_trans1)
    moreover have "fold_name m \<noteq> fold_name n" using new j by (auto simp: has_name_def)
    ultimately show "fold_name n < fold_name m" by auto
  qed
  from ns [unfolded sorted_names_split [of ns "name_place ns n"]] lower upper show ?thesis
    by (simp add: sorted_names_def insert_at_def sorted_wrt_append)
qed

lemma sorted_remove_at:
  assumes "sorted_names ns"
  shows "sorted_names (remove_at i ns)"
proof -
  have sub: "set (drop (Suc i) ns) \<subseteq> set (drop i ns)" by (rule set_drop_subset_set_drop) simp
  have "sorted_names (take i ns)" and cross: "\<forall>a\<in>set (take i ns). \<forall>b\<in>set (drop i ns). fold_name a < fold_name b"
    using assms sorted_names_split [of ns i] by simp_all
  moreover have "sorted_names (drop (Suc i) ns)" using assms sorted_names_split [of ns "Suc i"] by simp
  ultimately show ?thesis using sub by (auto simp: sorted_names_def remove_at_def sorted_wrt_append)
qed

lemma name_place_hit:
  assumes "sorted_names ns" "has_name ns n"
  shows "name_place ns n < length ns" "fold_name (ns ! name_place ns n) = fold_name n"
proof -
  obtain i where i: "i < length ns" "fold_name (ns ! i) = fold_name n"
    using assms(2) by (auto simp: has_name_def in_set_conv_nth)
  have "name_place ns n = i"
    by (rule name_place_unique [OF assms(1)])
      (use i sorted_names_nth [OF assms(1)] sorted_names_le [OF assms(1)] in \<open>force simp: not_less\<close>)+
  with i show "name_place ns n < length ns" "fold_name (ns ! name_place ns n) = fold_name n" by simp_all
qed

lemma sorted_names_inj:
  assumes "sorted_names ns" "i < length ns" "j < length ns" "fold_name (ns ! i) = fold_name (ns ! j)"
  shows "i = j"
  using assms sorted_names_nth [of ns i j] sorted_names_nth [of ns j i] by (cases i j rule: linorder_cases) auto

lemma sorted_names_distinct: "sorted_names ns \<Longrightarrow> distinct (map fold_name ns)"
  by (simp add: sorted_names_def strict_sorted_iff)

lemma name_place_count:
  assumes "sorted_names ns"
  shows "name_place ns n = length (filter (\<lambda>m. fold_name m < fold_name n) ns)"
  using assms
proof (induction ns)
  case (Cons m ns)
  then have ns: "sorted_names ns" "\<forall>x\<in>set ns. fold_name m < fold_name x" by (auto simp: sorted_names_def)
  show ?case
  proof (cases "fold_name m < fold_name n")
    case True
    then show ?thesis using Cons.IH [OF ns(1)] by (simp add: name_place_def)
  next
    case False
    with ns(2) have "filter (\<lambda>m. fold_name m < fold_name n) ns = []" by (auto simp: filter_empty_conv)
    with False show ?thesis by (simp add: name_place_def)
  qed
qed (simp add: name_place_def)

end
