(* ===== verification/HzRegistry.thy ===== *)
theory HzRegistry
  imports HzRegTables "HOL-Library.Monad_Syntax"
begin

text \<open>
  The registry (\<open>dlls/ntdll/unix/horizon_registry.h\<close>): keys below \<open>\Registry\<close> with sorted subkeys and values,
  symbolic links and change notifications.

  The heap is part of the state: \<open>rg_keys\<close> maps the address of every allocated key to it, and an operation that
  would follow a null pointer or one to a freed key is \<open>None\<close>. Loops that follow parents or symbolic links are
  partial functions, \<open>None\<close> when they do not end. A table and its count are one list, its capacity is kept. The
  notifications of a key are a list in link order. \<open>rg_signals\<close> collects the events the \<open>signal\<close> callback was
  called with, \<open>rg_watched\<close> says that the \<open>changed\<close> callback, \<open>horizon_registry_changed\<close> of
  \<open>horizon_registry_server.h\<close>, is installed. The time and what the allocator answers are parameters: \<open>mem\<close> says
  which allocations of a call succeed, and a new key gets the address \<open>p\<close>. Names of a call are given as 16-bit
  units, which drops an odd last byte as \<open>len &= ~1u\<close> does.
\<close>

abbreviation (input) HORIZON_REG_SUCCESS :: u32 where "HORIZON_REG_SUCCESS \<equiv> 0x00000000"
abbreviation (input) HORIZON_REG_NAME_EXISTS :: u32 where "HORIZON_REG_NAME_EXISTS \<equiv> 0x40000000"
abbreviation (input) HORIZON_REG_PENDING :: u32 where "HORIZON_REG_PENDING \<equiv> 0x00000103"
abbreviation (input) HORIZON_REG_NO_MORE_ENTRIES :: u32 where "HORIZON_REG_NO_MORE_ENTRIES \<equiv> 0x8000001a"
abbreviation (input) HORIZON_REG_INVALID_PARAMETER :: u32 where "HORIZON_REG_INVALID_PARAMETER \<equiv> 0xc000000d"
abbreviation (input) HORIZON_REG_NO_MEMORY :: u32 where "HORIZON_REG_NO_MEMORY \<equiv> 0xc0000017"
abbreviation (input) HORIZON_REG_ACCESS_DENIED :: u32 where "HORIZON_REG_ACCESS_DENIED \<equiv> 0xc0000022"
abbreviation (input) HORIZON_REG_NAME_NOT_FOUND :: u32 where "HORIZON_REG_NAME_NOT_FOUND \<equiv> 0xc0000034"
abbreviation (input) HORIZON_REG_NAME_COLLISION :: u32 where "HORIZON_REG_NAME_COLLISION \<equiv> 0xc0000035"
abbreviation (input) HORIZON_REG_PATH_SYNTAX_BAD :: u32 where "HORIZON_REG_PATH_SYNTAX_BAD \<equiv> 0xc000003b"
abbreviation (input) HORIZON_REG_NAME_TOO_LONG :: u32 where "HORIZON_REG_NAME_TOO_LONG \<equiv> 0xc0000106"
abbreviation (input) HORIZON_REG_CANNOT_DELETE :: u32 where "HORIZON_REG_CANNOT_DELETE \<equiv> 0xc0000121"
abbreviation (input) HORIZON_REG_KEY_DELETED :: u32 where "HORIZON_REG_KEY_DELETED \<equiv> 0xc000017c"
abbreviation (input) HORIZON_REG_CHILD_MUST_BE_VOLATILE :: u32 where "HORIZON_REG_CHILD_MUST_BE_VOLATILE \<equiv> 0xc0000181"

abbreviation (input) HORIZON_REG_OPTION_VOLATILE :: u32 where "HORIZON_REG_OPTION_VOLATILE \<equiv> 0x0001"
abbreviation (input) HORIZON_REG_OPTION_CREATE_LINK :: u32 where "HORIZON_REG_OPTION_CREATE_LINK \<equiv> 0x0002"
abbreviation (input) HORIZON_REG_OBJ_OPENLINK :: u32 where "HORIZON_REG_OBJ_OPENLINK \<equiv> 0x0100"

abbreviation (input) HORIZON_REG_NONE :: u32 where "HORIZON_REG_NONE \<equiv> 0"
abbreviation (input) HORIZON_REG_LINK :: u32 where "HORIZON_REG_LINK \<equiv> 6"

abbreviation (input) HORIZON_REG_CHANGE_NAME :: u32 where "HORIZON_REG_CHANGE_NAME \<equiv> 0x1"
abbreviation (input) HORIZON_REG_CHANGE_LAST_SET :: u32 where "HORIZON_REG_CHANGE_LAST_SET \<equiv> 0x4"

text \<open>In 16-bit units; the code has the sizes in bytes.\<close>

abbreviation (input) HORIZON_REG_MAX_NAME :: nat where "HORIZON_REG_MAX_NAME \<equiv> 256"
abbreviation (input) HORIZON_REG_MAX_VALUE :: nat where "HORIZON_REG_MAX_VALUE \<equiv> 16383"
abbreviation (input) HORIZON_REG_MAX_LINKS :: nat where "HORIZON_REG_MAX_LINKS \<equiv> 16"

abbreviation (input) HORIZON_REG_FLAG_VOLATILE :: u32 where "HORIZON_REG_FLAG_VOLATILE \<equiv> 0x1"
abbreviation (input) HORIZON_REG_FLAG_DELETED :: u32 where "HORIZON_REG_FLAG_DELETED \<equiv> 0x2"
abbreviation (input) HORIZON_REG_FLAG_SYMLINK :: u32 where "HORIZON_REG_FLAG_SYMLINK \<equiv> 0x4"

section \<open>Data\<close>

record horizon_reg_value =
  rv_name :: "u16 list"
  rv_type :: u32
  rv_data :: "u8 list"

record reg_notification =
  rn_hkey :: u32
  rn_event :: ptr
  rn_filter :: u32
  rn_subtree :: bool

record horizon_reg_key =
  rk_name :: "u16 list"
  rk_class :: "u16 list"
  rk_parent :: "ptr option"
  rk_subkeys :: "ptr list"
  rk_subkey_max :: nat
  rk_values :: "horizon_reg_value list"
  rk_value_max :: nat
  rk_flags :: u32
  rk_modif :: u64
  rk_refs :: u32
  rk_notify :: "reg_notification list"

record horizon_reg =
  rg_root :: "ptr option"
  rg_keys :: "ptr \<Rightarrow> horizon_reg_key option"
  rg_signals :: "ptr list"
  rg_watched :: bool
  rg_hives :: "ptr option \<times> ptr option"
  rg_generation :: "u64 \<times> u64"

datatype reg_alloc = Alloc_class | Alloc_key | Alloc_name | Alloc_table | Alloc_data | Alloc_notify | Alloc_line | Alloc_tmp

type_synonym reg_memory = "reg_alloc \<Rightarrow> bool"

definition ascii_name :: "string \<Rightarrow> u16 list" where
  "ascii_name s = map of_char s"

definition horizon_reg_symlink_value :: "u16 list" where
  "horizon_reg_symlink_value = ascii_name ''SymbolicLinkValue''"

definition root_name :: "u16 list" where
  "root_name = ascii_name ''Registry''"

definition reg_prefix :: "u16 list" where
  "reg_prefix = BACKSLASH # root_name"

text \<open>An array of bytes read as 16-bit units, and back.\<close>

fun units16 :: "u8 list \<Rightarrow> u16 list" where
  "units16 (lo # hi # rest) = (ucast lo OR push_bit 8 (ucast hi)) # units16 rest"
| "units16 bs = []"

fun bytes16 :: "u16 list \<Rightarrow> u8 list" where
  "bytes16 [] = []"
| "bytes16 (c # cs) = ucast c # ucast (drop_bit 8 c) # bytes16 cs"

text \<open>Writing through a pointer.\<close>

definition upd_key :: "ptr \<Rightarrow> (horizon_reg_key \<Rightarrow> horizon_reg_key) \<Rightarrow> horizon_reg \<Rightarrow> horizon_reg option" where
  "upd_key p f reg = (case rg_keys reg p of None \<Rightarrow> None | Some k \<Rightarrow> Some (reg\<lparr>rg_keys := (rg_keys reg)(p \<mapsto> f k)\<rparr>))"

definition flagged :: "horizon_reg_key \<Rightarrow> u32 \<Rightarrow> bool" where
  "flagged k flag \<longleftrightarrow> rk_flags k AND flag \<noteq> 0"

section \<open>Searching a key\<close>

definition horizon_reg_find_subkey :: "horizon_reg \<Rightarrow> horizon_reg_key \<Rightarrow> u16 list \<Rightarrow> (ptr option \<times> nat) option" where
  "horizon_reg_find_subkey reg key name =
     do { (found, i) \<leftarrow> reg_search (\<lambda>i. map_option rk_name (rg_keys reg (rk_subkeys key ! i))) name
                          0 (length (rk_subkeys key));
          Some (if found then Some (rk_subkeys key ! i) else None, i) }"

definition horizon_reg_find_value :: "horizon_reg_key \<Rightarrow> u16 list \<Rightarrow> horizon_reg_value option \<times> nat" where
  "horizon_reg_find_value key name =
     (case reg_search (\<lambda>i. Some (rv_name (rk_values key ! i))) name 0 (length (rk_values key)) of
        Some (found, i) \<Rightarrow> (if found then Some (rk_values key ! i) else None, i)
      | None \<Rightarrow> (None, 0))"

section \<open>Notifications\<close>

text \<open>The walk over the notifications of a key: those that stay and the events that are signaled, in link order.\<close>

fun notify_walk :: "(reg_notification \<Rightarrow> bool) \<Rightarrow> reg_notification list \<Rightarrow> reg_notification list \<times> ptr list" where
  "notify_walk hit [] = ([], [])"
| "notify_walk hit (n # ns) =
     (let (kept, events) = notify_walk hit ns
      in if hit n then (kept, rn_event n # events) else (n # kept, events))"

definition signal_notify :: "ptr \<Rightarrow> (reg_notification \<Rightarrow> bool) \<Rightarrow> horizon_reg \<Rightarrow> horizon_reg option" where
  "signal_notify p hit reg =
     do { k \<leftarrow> rg_keys reg p;
          let (kept, events) = notify_walk hit (rk_notify k);
          upd_key p (rk_notify_update (\<lambda>_. kept)) (reg\<lparr>rg_signals := rg_signals reg @ events\<rparr>) }"

definition horizon_reg_check_notify :: "ptr \<Rightarrow> u32 \<Rightarrow> bool \<Rightarrow> horizon_reg \<Rightarrow> horizon_reg option" where
  "horizon_reg_check_notify p change not_subtree reg =
     signal_notify p (\<lambda>n. (rn_subtree n \<or> not_subtree) \<and> change AND rn_filter n \<noteq> 0) reg"

text \<open>\<open>for (key = key->parent; key; key = key->parent) horizon_reg_check_notify( reg, key, change, 0 );\<close>\<close>

partial_function (option) touch_parents :: "ptr option \<Rightarrow> u32 \<Rightarrow> horizon_reg \<Rightarrow> horizon_reg option" where
  "touch_parents key change reg =
     (case key of
        None \<Rightarrow> Some reg
      | Some p \<Rightarrow>
          do { reg' \<leftarrow> horizon_reg_check_notify p change False reg;
               k \<leftarrow> rg_keys reg' p;
               touch_parents (rk_parent k) change reg' })"

text \<open>\<open>horizon_registry_changed\<close>: the first hive on the way to the root is marked as changed.\<close>

partial_function (option) horizon_registry_changed :: "ptr option \<Rightarrow> horizon_reg \<Rightarrow> horizon_reg option" where
  "horizon_registry_changed key reg =
     (case key of
        None \<Rightarrow> Some reg
      | Some p \<Rightarrow>
          if fst (rg_hives reg) = Some p
          then Some (reg\<lparr>rg_generation := (fst (rg_generation reg) + 1, snd (rg_generation reg))\<rparr>)
          else if snd (rg_hives reg) = Some p
          then Some (reg\<lparr>rg_generation := (fst (rg_generation reg), snd (rg_generation reg) + 1)\<rparr>)
          else do { k \<leftarrow> rg_keys reg p; horizon_registry_changed (rk_parent k) reg })"

definition horizon_reg_touch :: "u64 \<Rightarrow> ptr \<Rightarrow> u32 \<Rightarrow> horizon_reg \<Rightarrow> horizon_reg option" where
  "horizon_reg_touch now p change reg =
     do { reg \<leftarrow> upd_key p (rk_modif_update (\<lambda>_. now)) reg;
          reg \<leftarrow> (if rg_watched reg then horizon_registry_changed (Some p) reg else Some reg);
          reg \<leftarrow> horizon_reg_check_notify p change True reg;
          k \<leftarrow> rg_keys reg p;
          touch_parents (rk_parent k) change reg }"

section \<open>Allocating, releasing and linking keys\<close>

definition horizon_reg_alloc_key :: "reg_memory \<Rightarrow> u16 list \<Rightarrow> u64 \<Rightarrow> horizon_reg_key option" where
  "horizon_reg_alloc_key mem name modif =
     (if \<not> mem Alloc_key then None
      else if name \<noteq> [] \<and> \<not> mem Alloc_name then None
      else Some \<lparr>rk_name = name, rk_class = [], rk_parent = None, rk_subkeys = [], rk_subkey_max = 0, rk_values = [],
             rk_value_max = 0, rk_flags = 0, rk_modif = modif, rk_refs = 1, rk_notify = []\<rparr>)"

text \<open>What \<open>horizon_reg_release\<close> still has to do; its calls to itself put their work first.\<close>

datatype release_work = Release_key ptr | Detach_key ptr | Free_key ptr

partial_function (option) release_keys :: "release_work list \<Rightarrow> horizon_reg \<Rightarrow> horizon_reg option" where
  "release_keys ws reg =
     (case ws of
        [] \<Rightarrow> Some reg
      | Release_key p # ws \<Rightarrow>
          do { k \<leftarrow> rg_keys reg p;
               reg \<leftarrow> upd_key p (rk_refs_update (\<lambda>r. r - 1)) reg;
               if rk_refs k - 1 \<noteq> 0 then release_keys ws reg
               else do { reg \<leftarrow> signal_notify p (\<lambda>_. True) reg;
                         release_keys (map Detach_key (rk_subkeys k) @ Free_key p # ws) reg } }
      | Detach_key p # ws \<Rightarrow>
          do { reg \<leftarrow> upd_key p (\<lambda>k. k\<lparr>rk_parent := None, rk_flags := rk_flags k OR HORIZON_REG_FLAG_DELETED\<rparr>) reg;
               release_keys (Release_key p # ws) reg }
      | Free_key p # ws \<Rightarrow> release_keys ws (reg\<lparr>rg_keys := (rg_keys reg)(p := None)\<rparr>))"

definition horizon_reg_release :: "ptr \<Rightarrow> horizon_reg \<Rightarrow> horizon_reg option" where
  "horizon_reg_release p reg = release_keys [Release_key p] reg"

definition grown :: "nat \<Rightarrow> nat" where
  "grown n = (if n \<noteq> 0 then n + n div 2 else 8)"

definition horizon_reg_link :: "reg_memory \<Rightarrow> ptr \<Rightarrow> ptr \<Rightarrow> nat \<Rightarrow> horizon_reg \<Rightarrow> (u32 \<times> horizon_reg) option" where
  "horizon_reg_link mem parent p index reg =
     do { k \<leftarrow> rg_keys reg parent;
          if length (rk_subkeys k) = rk_subkey_max k \<and> \<not> mem Alloc_table then Some (HORIZON_REG_NO_MEMORY, reg)
          else do {
            reg \<leftarrow> upd_key parent (\<lambda>k. k\<lparr>rk_subkey_max := if length (rk_subkeys k) = rk_subkey_max k
                                                          then grown (rk_subkey_max k) else rk_subkey_max k,
                                       rk_subkeys := insert_at index p (rk_subkeys k)\<rparr>) reg;
            reg \<leftarrow> upd_key p (rk_parent_update (\<lambda>_. Some parent)) reg;
            Some (HORIZON_REG_SUCCESS, reg) } }"

definition horizon_reg_init :: "reg_memory \<Rightarrow> ptr \<Rightarrow> u64 \<Rightarrow> horizon_reg option" where
  "horizon_reg_init mem p now =
     (case horizon_reg_alloc_key mem root_name now of
        None \<Rightarrow> None
      | Some k \<Rightarrow> Some \<lparr>rg_root = Some p, rg_keys = [p \<mapsto> k], rg_signals = [], rg_watched = False,
                     rg_hives = (None, None), rg_generation = (0, 0)\<rparr>)"

section \<open>Finding keys\<close>

definition horizon_reg_element :: "u16 list \<Rightarrow> nat" where
  "horizon_reg_element name = length (takeWhile (\<lambda>c. c \<noteq> BACKSLASH) name)"

definition skip_backslashes :: "u16 list \<Rightarrow> u16 list" where
  "skip_backslashes name = dropWhile (\<lambda>c. c = BACKSLASH) name"

text \<open>The key named, or the parent of the missing last element.\<close>

record horizon_reg_path =
  rp_key :: ptr
  rp_last :: "u16 list option"

text \<open>Where a lookup starts.\<close>

definition lookup_start :: "horizon_reg \<Rightarrow> ptr option \<Rightarrow> u16 list \<Rightarrow> (u32 + ptr \<times> u16 list) option" where
  "lookup_start reg base name =
     (case base of
        None \<Rightarrow>
          if name = [] \<or> hd name \<noteq> BACKSLASH then Some (Inl HORIZON_REG_PATH_SYNTAX_BAD)
          else if length name < length reg_prefix \<or> horizon_reg_compare (take (length reg_prefix) name) reg_prefix \<noteq> 0 \<or>
             (length name > length reg_prefix \<and> name ! length reg_prefix \<noteq> BACKSLASH)
          then Some (Inl HORIZON_REG_NAME_NOT_FOUND)
          else do { root \<leftarrow> rg_root reg; Some (Inr (root, drop (length reg_prefix) name)) }
      | Some p \<Rightarrow>
          if name \<noteq> [] \<and> hd name = BACKSLASH then Some (Inl HORIZON_REG_PATH_SYNTAX_BAD)
          else Some (Inr (p, name)))"

text \<open>The path a symbolic link holds, when it can be followed.\<close>

definition link_target :: "horizon_reg_key \<Rightarrow> nat \<Rightarrow> u16 list option" where
  "link_target k links =
     (case fst (horizon_reg_find_value k horizon_reg_symlink_value) of
        None \<Rightarrow> None
      | Some v \<Rightarrow>
          if length (rv_data v) < 2 \<or> links \<ge> HORIZON_REG_MAX_LINKS \<or> hd (units16 (rv_data v)) \<noteq> BACKSLASH then None
          else Some (units16 (rv_data v)))"

text \<open>The loop of \<open>horizon_reg_lookup\<close> and its call to itself for a symbolic link.\<close>

partial_function (option) lookup_walk ::
    "horizon_reg \<Rightarrow> u32 \<Rightarrow> nat \<Rightarrow> ptr \<Rightarrow> u16 list \<Rightarrow> (u32 + horizon_reg_path) option" where
  "lookup_walk reg attributes links p nm =
     do { k \<leftarrow> rg_keys reg p;
          if flagged k HORIZON_REG_FLAG_DELETED then Some (Inl HORIZON_REG_KEY_DELETED)
          else let name = skip_backslashes nm
          in if flagged k HORIZON_REG_FLAG_SYMLINK \<and> (name \<noteq> [] \<or> attributes AND HORIZON_REG_OBJ_OPENLINK = 0)
          then (case link_target k links of
                  None \<Rightarrow> Some (Inl HORIZON_REG_NAME_NOT_FOUND)
                | Some target \<Rightarrow>
                    do { start \<leftarrow> lookup_start reg None target;
                         (case start of
                            Inl status \<Rightarrow> Some (Inl status)
                          | Inr (q, rest) \<Rightarrow>
                              do { found \<leftarrow> lookup_walk reg 0 (links + 1) q rest;
                                   (case found of
                                      Inl status \<Rightarrow> Some (Inl status)
                                    | Inr path \<Rightarrow>
                                        if rp_last path \<noteq> None then Some (Inl HORIZON_REG_NAME_NOT_FOUND)
                                        else lookup_walk reg attributes links (rp_key path) name) }) })
          else if name = [] then Some (Inr \<lparr>rp_key = p, rp_last = None\<rparr>)
          else let elem = horizon_reg_element name; rest = skip_backslashes (drop elem name)
          in if elem > HORIZON_REG_MAX_NAME then Some (Inl HORIZON_REG_INVALID_PARAMETER)
          else do { (found, index) \<leftarrow> horizon_reg_find_subkey reg k (take elem name);
                    (case found of
                       None \<Rightarrow>
                         if rest \<noteq> [] then Some (Inl HORIZON_REG_NAME_NOT_FOUND)
                         else Some (Inr \<lparr>rp_key = p, rp_last = Some (take elem name)\<rparr>)
                     | Some sub \<Rightarrow> lookup_walk reg attributes links sub rest) } }"

definition horizon_reg_lookup ::
    "horizon_reg \<Rightarrow> ptr option \<Rightarrow> u16 list \<Rightarrow> u32 \<Rightarrow> nat \<Rightarrow> (u32 + horizon_reg_path) option" where
  "horizon_reg_lookup reg base name attributes links =
     do { start \<leftarrow> lookup_start reg base name;
          (case start of
             Inl status \<Rightarrow> Some (Inl status)
           | Inr (p, rest) \<Rightarrow> lookup_walk reg attributes links p rest) }"

section \<open>Opening, creating, deleting and renaming\<close>

definition take_ref :: "ptr \<Rightarrow> horizon_reg \<Rightarrow> horizon_reg option" where
  "take_ref p reg = upd_key p (rk_refs_update (\<lambda>r. r + 1)) reg"

definition horizon_reg_open ::
    "horizon_reg \<Rightarrow> ptr option \<Rightarrow> u16 list \<Rightarrow> u32 \<Rightarrow> (u32 \<times> ptr option \<times> horizon_reg) option" where
  "horizon_reg_open reg base name attributes =
     do { found \<leftarrow> horizon_reg_lookup reg base name attributes 0;
          (case found of
             Inl status \<Rightarrow> Some (status, None, reg)
           | Inr path \<Rightarrow>
               if rp_last path \<noteq> None then Some (HORIZON_REG_NAME_NOT_FOUND, None, reg)
               else do { reg \<leftarrow> take_ref (rp_key path) reg;
                         Some (HORIZON_REG_SUCCESS, Some (rp_key path), reg) }) }"

text \<open>The class the caller gives replaces the key's, and the caller gets a reference.\<close>

definition finish_key :: "ptr \<Rightarrow> u16 list \<Rightarrow> u32 \<Rightarrow> horizon_reg \<Rightarrow> (u32 \<times> ptr option \<times> horizon_reg) option" where
  "finish_key p class status reg =
     do { reg \<leftarrow> (if class \<noteq> [] then upd_key p (rk_class_update (\<lambda>_. class)) reg else Some reg);
          reg \<leftarrow> take_ref p reg;
          Some (status, Some p, reg) }"

text \<open>The branch of \<open>horizon_reg_create\<close> for a missing last element.\<close>

definition create_missing ::
    "reg_memory \<Rightarrow> ptr \<Rightarrow> u64 \<Rightarrow> ptr \<Rightarrow> u16 list \<Rightarrow> u32 \<Rightarrow> horizon_reg \<Rightarrow> (u32 \<times> horizon_reg) option" where
  "create_missing mem p now parent name options reg =
     (case horizon_reg_alloc_key mem name now of
        None \<Rightarrow> Some (HORIZON_REG_NO_MEMORY, reg)
      | Some k \<Rightarrow>
          do { reg \<leftarrow> Some (reg\<lparr>rg_keys := (rg_keys reg)(p \<mapsto> k)\<rparr>);
               pk \<leftarrow> rg_keys reg parent;
               (_, index) \<leftarrow> horizon_reg_find_subkey reg pk name;
               (failed, reg) \<leftarrow> horizon_reg_link mem parent p index reg;
               if failed \<noteq> 0 then do { reg \<leftarrow> horizon_reg_release p reg; Some (HORIZON_REG_NO_MEMORY, reg) }
               else do {
                 reg \<leftarrow> upd_key p (\<lambda>k. k\<lparr>rk_flags := rk_flags k OR
                    (if options AND HORIZON_REG_OPTION_VOLATILE \<noteq> 0 then HORIZON_REG_FLAG_VOLATILE else 0) OR
                    (if options AND HORIZON_REG_OPTION_CREATE_LINK \<noteq> 0 then HORIZON_REG_FLAG_SYMLINK else 0)\<rparr>) reg;
                 reg \<leftarrow> horizon_reg_touch now parent HORIZON_REG_CHANGE_NAME reg;
                 Some (HORIZON_REG_SUCCESS, reg) } })"

definition horizon_reg_create ::
    "reg_memory \<Rightarrow> ptr \<Rightarrow> u64 \<Rightarrow> horizon_reg \<Rightarrow> ptr option \<Rightarrow> u16 list \<Rightarrow> u32 \<Rightarrow> u32 \<Rightarrow> u16 list \<Rightarrow>
       (u32 \<times> ptr option \<times> horizon_reg) option" where
  "horizon_reg_create mem p now reg base name attributes options class =
     do { found \<leftarrow> horizon_reg_lookup reg base name
            (if options AND HORIZON_REG_OPTION_CREATE_LINK \<noteq> 0 then attributes OR HORIZON_REG_OBJ_OPENLINK
             else attributes) 0;
          (case found of
             Inl status \<Rightarrow> Some (status, None, reg)
           | Inr path \<Rightarrow>
               do { k \<leftarrow> rg_keys reg (rp_key path);
                    if rp_last path = None \<and> options AND HORIZON_REG_OPTION_CREATE_LINK \<noteq> 0
                    then Some (HORIZON_REG_NAME_COLLISION, None, reg)
                    else if rp_last path \<noteq> None \<and> options AND HORIZON_REG_OPTION_VOLATILE = 0 \<and>
                            flagged k HORIZON_REG_FLAG_VOLATILE
                    then Some (HORIZON_REG_CHILD_MUST_BE_VOLATILE, None, reg)
                    else if class \<noteq> [] \<and> \<not> mem Alloc_class then Some (HORIZON_REG_NO_MEMORY, None, reg)
                    else (case rp_last path of
                            None \<Rightarrow> finish_key (rp_key path) class HORIZON_REG_NAME_EXISTS reg
                          | Some elem \<Rightarrow>
                              do { (status, reg) \<leftarrow> create_missing mem p now (rp_key path) elem options reg;
                                   if status \<noteq> 0 then Some (status, None, reg)
                                   else finish_key p class HORIZON_REG_SUCCESS reg }) }) }"

definition horizon_reg_delete :: "u64 \<Rightarrow> ptr \<Rightarrow> horizon_reg \<Rightarrow> (u32 \<times> horizon_reg) option" where
  "horizon_reg_delete now p reg =
     do { k \<leftarrow> rg_keys reg p;
          if flagged k HORIZON_REG_FLAG_DELETED then Some (HORIZON_REG_SUCCESS, reg)
          else (case rk_parent k of
                  None \<Rightarrow> Some (HORIZON_REG_ACCESS_DENIED, reg)
                | Some parent \<Rightarrow>
                    if rk_subkeys k \<noteq> [] then Some (HORIZON_REG_ACCESS_DENIED, reg)
                    else do {
                      pk \<leftarrow> rg_keys reg parent;
                      i \<leftarrow> index_of (\<lambda>c. c = p) (rk_subkeys pk);
                      reg \<leftarrow> upd_key parent (\<lambda>k. k\<lparr>rk_subkeys := remove_at i (rk_subkeys k)\<rparr>) reg;
                      reg \<leftarrow> upd_key p (\<lambda>k. k\<lparr>rk_parent := None, rk_flags := rk_flags k OR HORIZON_REG_FLAG_DELETED\<rparr>) reg;
                      reg \<leftarrow> horizon_reg_touch now parent HORIZON_REG_CHANGE_NAME reg;
                      reg \<leftarrow> horizon_reg_release p reg;
                      Some (HORIZON_REG_SUCCESS, reg) }) }"

text \<open>
  The two moves of \<open>horizon_reg_rename\<close> between the place \<open>current\<close> of the key and the place \<open>index\<close> its new
  name belongs at, and the store of the key there.
\<close>

definition move_entry :: "nat \<Rightarrow> nat \<Rightarrow> 'a \<Rightarrow> 'a list \<Rightarrow> 'a list" where
  "move_entry current index x xs =
     (if current < index
      then let index = index - 1
           in (take current xs @ take (index - current) (drop (current + 1) xs) @ drop index xs)[index := x]
      else if current > index
      then (take (index + 1) xs @ take (current - index) (drop index xs) @ drop (current + 1) xs)[index := x]
      else xs[index := x])"

definition horizon_reg_rename :: "reg_memory \<Rightarrow> u64 \<Rightarrow> ptr \<Rightarrow> u16 list \<Rightarrow> horizon_reg \<Rightarrow> (u32 \<times> horizon_reg) option" where
  "horizon_reg_rename mem now p name reg =
     do { k \<leftarrow> rg_keys reg p;
          if name = [] \<or> horizon_reg_element name \<noteq> length name \<or> length name > HORIZON_REG_MAX_NAME
          then Some (HORIZON_REG_INVALID_PARAMETER, reg)
          else (case rk_parent k of
                  None \<Rightarrow> Some (HORIZON_REG_CANNOT_DELETE, reg)
                | Some parent \<Rightarrow>
                    do { pk \<leftarrow> rg_keys reg parent;
                         (found, index) \<leftarrow> horizon_reg_find_subkey reg pk name;
                         if found \<noteq> None then Some (HORIZON_REG_CANNOT_DELETE, reg)
                         else if \<not> mem Alloc_name then Some (HORIZON_REG_NO_MEMORY, reg)
                         else do {
                           current \<leftarrow> index_of (\<lambda>c. c = p) (rk_subkeys pk);
                           reg \<leftarrow> upd_key parent (\<lambda>k. k\<lparr>rk_subkeys := move_entry current index p (rk_subkeys k)\<rparr>) reg;
                           reg \<leftarrow> upd_key p (rk_name_update (\<lambda>_. name)) reg;
                           reg \<leftarrow> horizon_reg_touch now p HORIZON_REG_CHANGE_NAME reg;
                           Some (HORIZON_REG_SUCCESS, reg) } }) }"

text \<open>The path of a key, built from its end.\<close>

partial_function (option) full_name_walk :: "horizon_reg \<Rightarrow> ptr option \<Rightarrow> u16 list \<Rightarrow> u16 list option" where
  "full_name_walk reg key tail =
     (case key of
        None \<Rightarrow> Some tail
      | Some p \<Rightarrow> do { k \<leftarrow> rg_keys reg p; full_name_walk reg (rk_parent k) (BACKSLASH # rk_name k @ tail) })"

definition horizon_reg_full_name :: "horizon_reg \<Rightarrow> ptr \<Rightarrow> u16 list option" where
  "horizon_reg_full_name reg p = full_name_walk reg (Some p) []"

section \<open>Values\<close>

text \<open>The key with room for a value of the name and an empty value in it, or a status.\<close>

definition horizon_reg_insert_value ::
    "reg_memory \<Rightarrow> horizon_reg_key \<Rightarrow> u16 list \<Rightarrow> nat \<Rightarrow> u32 \<times> horizon_reg_key" where
  "horizon_reg_insert_value mem key name index =
     (if length name > HORIZON_REG_MAX_VALUE then (HORIZON_REG_NAME_TOO_LONG, key)
      else if length (rk_values key) = rk_value_max key \<and> \<not> mem Alloc_table then (HORIZON_REG_NO_MEMORY, key)
      else let key = key\<lparr>rk_value_max := if length (rk_values key) = rk_value_max key then grown (rk_value_max key)
                                         else rk_value_max key\<rparr>
      in if name \<noteq> [] \<and> \<not> mem Alloc_name then (HORIZON_REG_NO_MEMORY, key)
      else (HORIZON_REG_SUCCESS,
            key\<lparr>rk_values := insert_at index \<lparr>rv_name = name, rv_type = HORIZON_REG_NONE, rv_data = []\<rparr> (rk_values key)\<rparr>))"

definition store_value :: "nat \<Rightarrow> u32 \<Rightarrow> u8 list \<Rightarrow> horizon_reg_key \<Rightarrow> horizon_reg_key" where
  "store_value i ty data key =
     key\<lparr>rk_values := (rk_values key)[i := (rk_values key ! i)\<lparr>rv_type := ty, rv_data := data\<rparr>]\<rparr>"

definition horizon_reg_set_value ::
    "reg_memory \<Rightarrow> u64 \<Rightarrow> ptr \<Rightarrow> u16 list \<Rightarrow> u32 \<Rightarrow> u8 list \<Rightarrow> horizon_reg \<Rightarrow> (u32 \<times> horizon_reg) option" where
  "horizon_reg_set_value mem now p name ty data reg =
     do { k \<leftarrow> rg_keys reg p;
          (case horizon_reg_find_value k name of
             (value, index) \<Rightarrow>
               if (case value of None \<Rightarrow> False | Some v \<Rightarrow> rv_type v = ty \<and> rv_data v = data)
               then Some (HORIZON_REG_SUCCESS, reg)
               else if flagged k HORIZON_REG_FLAG_SYMLINK \<and>
                       (ty \<noteq> HORIZON_REG_LINK \<or> horizon_reg_compare name horizon_reg_symlink_value \<noteq> 0)
               then Some (HORIZON_REG_ACCESS_DENIED, reg)
               else if data \<noteq> [] \<and> \<not> mem Alloc_data then Some (HORIZON_REG_NO_MEMORY, reg)
               else (case (if value = None then horizon_reg_insert_value mem k name index else (0, k)) of
                       (status, k) \<Rightarrow>
                         do { reg \<leftarrow> upd_key p (\<lambda>_. k) reg;
                              if status \<noteq> 0 then Some (status, reg)
                              else do { reg \<leftarrow> upd_key p (store_value index ty data) reg;
                                        reg \<leftarrow> horizon_reg_touch now p HORIZON_REG_CHANGE_LAST_SET reg;
                                        Some (HORIZON_REG_SUCCESS, reg) } })) }"

text \<open>Type, full length and up to \<open>max\<close> bytes of the data.\<close>

definition horizon_reg_get_value :: "horizon_reg_key \<Rightarrow> u16 list \<Rightarrow> nat \<Rightarrow> u32 + u32 \<times> nat \<times> u8 list" where
  "horizon_reg_get_value key name max_bytes =
     (case fst (horizon_reg_find_value key name) of
        None \<Rightarrow> Inl HORIZON_REG_NAME_NOT_FOUND
      | Some v \<Rightarrow> Inr (rv_type v, length (rv_data v), take max_bytes (rv_data v)))"

definition horizon_reg_delete_value :: "u64 \<Rightarrow> ptr \<Rightarrow> u16 list \<Rightarrow> horizon_reg \<Rightarrow> (u32 \<times> horizon_reg) option" where
  "horizon_reg_delete_value now p name reg =
     do { k \<leftarrow> rg_keys reg p;
          (case horizon_reg_find_value k name of
             (None, _) \<Rightarrow> Some (HORIZON_REG_NAME_NOT_FOUND, reg)
           | (Some _, index) \<Rightarrow>
               do { reg \<leftarrow> upd_key p (\<lambda>k. k\<lparr>rk_values := remove_at index (rk_values k)\<rparr>) reg;
                    reg \<leftarrow> horizon_reg_touch now p HORIZON_REG_CHANGE_LAST_SET reg;
                    Some (HORIZON_REG_SUCCESS, reg) }) }"

section \<open>Enumerations\<close>

datatype key_info_class = HORIZON_REG_KEY_BASIC | HORIZON_REG_KEY_NODE | HORIZON_REG_KEY_FULL | HORIZON_REG_KEY_NAME
  | HORIZON_REG_KEY_CACHED | Other_key_info

datatype value_info_class = HORIZON_REG_VALUE_BASIC | HORIZON_REG_VALUE_FULL | HORIZON_REG_VALUE_PARTIAL
  | Other_value_info

record horizon_reg_key_info =
  ki_subkeys :: nat
  ki_max_subkey :: nat
  ki_max_class :: nat
  ki_values :: nat
  ki_max_value :: nat
  ki_max_data :: nat
  ki_modif :: u64
  ki_total :: nat
  ki_namelen :: nat

definition no_key_info :: horizon_reg_key_info where
  "no_key_info = \<lparr>ki_subkeys = 0, ki_max_subkey = 0, ki_max_class = 0, ki_values = 0, ki_max_value = 0,
     ki_max_data = 0, ki_modif = 0, ki_total = 0, ki_namelen = 0\<rparr>"

text \<open>\<open>if (x > info->max) info->max = x\<close> over a table.\<close>

definition max_over :: "('a \<Rightarrow> nat) \<Rightarrow> 'a list \<Rightarrow> nat" where
  "max_over f xs = foldl (\<lambda>m x. if f x > m then f x else m) 0 xs"

text \<open>The subkeys the maxima are taken over, read through the pointers of the table.\<close>

definition subkeys_of :: "horizon_reg \<Rightarrow> horizon_reg_key \<Rightarrow> horizon_reg_key list option" where
  "subkeys_of reg k = those (map (rg_keys reg) (rk_subkeys k))"

definition horizon_reg_enum_key ::
    "horizon_reg \<Rightarrow> ptr \<Rightarrow> int \<Rightarrow> key_info_class \<Rightarrow> nat \<Rightarrow> bool \<Rightarrow> (u32 \<times> horizon_reg_key_info \<times> u8 list) option" where
  "horizon_reg_enum_key reg p index info_class max_bytes memory =
     do { k0 \<leftarrow> rg_keys reg p;
          if index \<noteq> -1 \<and> (index < 0 \<or> nat index \<ge> length (rk_subkeys k0))
          then Some (HORIZON_REG_NO_MORE_ENTRIES, no_key_info, [])
          else do {
            let q = (if index = -1 then p else rk_subkeys k0 ! nat index);
            k \<leftarrow> rg_keys reg q;
            let info = (case info_class of
                HORIZON_REG_KEY_FULL \<Rightarrow> True | HORIZON_REG_KEY_CACHED \<Rightarrow> True | _ \<Rightarrow> False);
            fullname \<leftarrow> (if info_class = HORIZON_REG_KEY_NAME then horizon_reg_full_name reg q else Some []);
            subkeys \<leftarrow> (if info then subkeys_of reg k else Some []);
            let name = (if info_class = HORIZON_REG_KEY_NAME then bytes16 fullname
                        else if info then [] else bytes16 (rk_name k));
            let class = (if info_class = HORIZON_REG_KEY_NODE \<or> info_class = HORIZON_REG_KEY_FULL
                         then bytes16 (rk_class k) else []);
            let len = min (length name + length class) max_bytes;
            if info_class = HORIZON_REG_KEY_NAME \<and> \<not> memory then Some (HORIZON_REG_NO_MEMORY, no_key_info, [])
            else if info_class = Other_key_info then Some (HORIZON_REG_INVALID_PARAMETER, no_key_info, [])
            else Some (HORIZON_REG_SUCCESS,
              \<lparr>ki_subkeys = length (rk_subkeys k),
               ki_max_subkey = (if info then max_over (\<lambda>s. 2 * length (rk_name s)) subkeys else 0),
               ki_max_class = (if info then max_over (\<lambda>s. 2 * length (rk_class s)) subkeys else 0),
               ki_values = length (rk_values k),
               ki_max_value = (if info then max_over (\<lambda>v. 2 * length (rv_name v)) (rk_values k) else 0),
               ki_max_data = (if info then max_over (\<lambda>v. length (rv_data v)) (rk_values k) else 0),
               ki_modif = rk_modif k,
               ki_total = length name + length class,
               ki_namelen = (if len > length name then length name
                             else if len \<noteq> 0 then if info_class = HORIZON_REG_KEY_NAME then length name else len
                             else if info then 2 * length (rk_name k) else 0)\<rparr>,
              take len (name @ class)) } }"

text \<open>Type, full length, the length of the name (\<open>None\<close> when it is left alone) and the bytes.\<close>

definition horizon_reg_enum_value ::
    "horizon_reg_key \<Rightarrow> int \<Rightarrow> value_info_class \<Rightarrow> nat \<Rightarrow> u32 + u32 \<times> nat \<times> nat option \<times> u8 list" where
  "horizon_reg_enum_value key index info_class max_bytes =
     (if index < 0 \<or> nat index \<ge> length (rk_values key) then Inl HORIZON_REG_NO_MORE_ENTRIES
      else let v = rk_values key ! nat index
      in if info_class = Other_value_info then Inl HORIZON_REG_INVALID_PARAMETER
      else let name = (if info_class = HORIZON_REG_VALUE_PARTIAL then [] else bytes16 (rv_name v));
               total = (case info_class of
                   HORIZON_REG_VALUE_BASIC \<Rightarrow> length name
                 | HORIZON_REG_VALUE_FULL \<Rightarrow> length name + length (rv_data v)
                 | _ \<Rightarrow> length (rv_data v));
               len = min total max_bytes
      in Inr (rv_type v, total,
              if len > length name then Some (length name) else if len \<noteq> 0 then Some len else None,
              take len (name @ rv_data v)))"

section \<open>Watching keys\<close>

definition horizon_reg_notify :: "reg_memory \<Rightarrow> ptr \<Rightarrow> u32 \<Rightarrow> ptr \<Rightarrow> bool \<Rightarrow> u32 \<Rightarrow> horizon_reg \<Rightarrow> (u32 \<times> horizon_reg) option" where
  "horizon_reg_notify mem p hkey event subtree filt reg =
     (if \<not> mem Alloc_notify then Some (HORIZON_REG_NO_MEMORY, reg)
      else do { reg \<leftarrow> upd_key p (rk_notify_update (\<lambda>ns.
                    \<lparr>rn_hkey = hkey, rn_event = event, rn_filter = filt, rn_subtree = subtree\<rparr> # ns)) reg;
                Some (HORIZON_REG_PENDING, reg) })"

definition horizon_reg_handle_closed :: "ptr \<Rightarrow> u32 \<Rightarrow> horizon_reg \<Rightarrow> horizon_reg option" where
  "horizon_reg_handle_closed p hkey reg = signal_notify p (\<lambda>n. rn_hkey n = hkey) reg"

section \<open>The root keys\<close>

text \<open>The characters of the next element of an ASCII path, at most 256 of them.\<close>

definition ascii_element :: "string \<Rightarrow> string" where
  "ascii_element path = take 256 (takeWhile (\<lambda>c. c \<noteq> CHR 0x5c) path)"

text \<open>What follows it, without the backslash between them.\<close>

definition ascii_rest :: "string \<Rightarrow> string" where
  "ascii_rest path =
     (let rest = drop (length (ascii_element path)) path
      in if rest \<noteq> [] \<and> hd rest = CHR 0x5c then tl rest else rest)"

lemma ascii_rest_shorter: "path \<noteq> [] \<Longrightarrow> length (ascii_rest path) < length path"
  by (cases path) (auto simp: ascii_rest_def ascii_element_def Let_def)

text \<open>The allocator answers each new key with the next of \<open>ps\<close>.\<close>

function horizon_reg_create_ascii ::
    "reg_memory \<Rightarrow> u64 \<Rightarrow> ptr list \<Rightarrow> ptr \<Rightarrow> string \<Rightarrow> horizon_reg \<Rightarrow> (ptr option \<times> ptr list \<times> horizon_reg) option" where
  "horizon_reg_create_ascii mem now ps key path reg =
     (if path = [] then Some (Some key, ps, reg)
      else do {
        let name = ascii_name (ascii_element path);
        k \<leftarrow> rg_keys reg key;
        (found, index) \<leftarrow> horizon_reg_find_subkey reg k name;
        (case found of
           Some sub \<Rightarrow> horizon_reg_create_ascii mem now ps sub (ascii_rest path) reg
         | None \<Rightarrow>
             (case horizon_reg_alloc_key mem name now of
                None \<Rightarrow> Some (None, ps, reg)
              | Some sk \<Rightarrow>
                  do { let p = hd ps;
                       reg \<leftarrow> Some (reg\<lparr>rg_keys := (rg_keys reg)(p \<mapsto> sk)\<rparr>);
                       (failed, reg) \<leftarrow> horizon_reg_link mem key p index reg;
                       if failed \<noteq> 0 then do { reg \<leftarrow> horizon_reg_release p reg; Some (None, tl ps, reg) }
                       else horizon_reg_create_ascii mem now (tl ps) p (ascii_rest path) reg })) })"
  by auto
termination
  by (relation "measure (\<lambda>(_, _, _, _, path, _). length path)") (auto intro: ascii_rest_shorter)

declare horizon_reg_create_ascii.simps [simp del]

section \<open>Searches find what is there\<close>

text \<open>
  A table whose entries have the names \<open>names t\<close>, and the search the code does in it. The subkeys and the values
  of a key are such tables.
\<close>

locale name_table =
  fixes good :: "'t \<Rightarrow> bool"
    and names :: "'t \<Rightarrow> u16 list list"
    and find_in :: "'t \<Rightarrow> u16 list \<Rightarrow> ('e option \<times> nat) option"
    and entry :: "'t \<Rightarrow> nat \<Rightarrow> 'e"
  assumes good_sorted: "good t \<Longrightarrow> sorted_names (names t)"
    and find_law: "good t \<Longrightarrow>
      find_in t n = Some (if has_name (names t) n then Some (entry t (name_place (names t) n)) else None,
                          name_place (names t) n)"
begin

lemma find_hit:
  assumes "good t" "i < length (names t)" "fold_name (names t ! i) = fold_name n"
  shows "find_in t n = Some (Some (entry t i), i)"
proof -
  have has: "has_name (names t) n" using assms(2,3) by (auto simp: has_name_def)
  have "name_place (names t) n = i"
    by (rule sorted_names_inj [OF good_sorted [OF assms(1)]])
      (use name_place_hit [OF good_sorted [OF assms(1)] has] assms in auto)
  with has show ?thesis by (simp add: find_law [OF assms(1)])
qed

lemma found_entry:
  assumes "good t" "find_in t n = Some (Some e, i)"
  shows "i < length (names t)" "fold_name (names t ! i) = fold_name n" "e = entry t i"
  using assms name_place_hit [OF good_sorted [OF assms(1)]] by (auto simp: find_law split: if_splits)

lemma found_none:
  assumes "good t" "find_in t n = Some (None, i)"
  shows "\<not> has_name (names t) n" "i = name_place (names t) n"
  using assms by (auto simp: find_law split: if_splits)

end

definition value_names :: "horizon_reg_key \<Rightarrow> u16 list list" where
  "value_names k = map rv_name (rk_values k)"

definition name_of :: "(ptr \<Rightarrow> horizon_reg_key option) \<Rightarrow> ptr \<Rightarrow> u16 list" where
  "name_of K p = (case K p of None \<Rightarrow> [] | Some k \<Rightarrow> rk_name k)"

definition live_subkeys :: "(ptr \<Rightarrow> horizon_reg_key option) \<Rightarrow> horizon_reg_key \<Rightarrow> bool" where
  "live_subkeys K k \<longleftrightarrow> (\<forall>c\<in>set (rk_subkeys k). K c \<noteq> None)"

definition subkey_names :: "(ptr \<Rightarrow> horizon_reg_key option) \<Rightarrow> horizon_reg_key \<Rightarrow> u16 list list" where
  "subkey_names K k = map (name_of K) (rk_subkeys k)"

lemma find_value_law:
  assumes "sorted_names (value_names k)"
  shows "horizon_reg_find_value k n =
    (if has_name (value_names k) n then Some (rk_values k ! name_place (value_names k) n) else None,
     name_place (value_names k) n)"
proof -
  have "reg_search (\<lambda>i. Some (rv_name (rk_values k ! i))) n 0 (length (rk_values k)) =
      Some (has_name (value_names k) n, name_place (value_names k) n)"
    by (rule search_exact [OF assms]) (simp_all add: value_names_def)
  then show ?thesis by (simp add: horizon_reg_find_value_def)
qed

lemma find_subkey_law:
  assumes sorted: "sorted_names (subkey_names (rg_keys reg) k)" and live: "live_subkeys (rg_keys reg) k"
  shows "horizon_reg_find_subkey reg k n =
    Some (if has_name (subkey_names (rg_keys reg) k) n
          then Some (rk_subkeys k ! name_place (subkey_names (rg_keys reg) k) n) else None,
          name_place (subkey_names (rg_keys reg) k) n)"
proof -
  have "reg_search (\<lambda>i. map_option rk_name (rg_keys reg (rk_subkeys k ! i))) n 0 (length (rk_subkeys k)) =
      Some (has_name (subkey_names (rg_keys reg) k) n, name_place (subkey_names (rg_keys reg) k) n)"
    by (rule search_exact [OF sorted])
      (use live in \<open>force simp: subkey_names_def name_of_def live_subkeys_def\<close>)+
  then show ?thesis by (simp add: horizon_reg_find_subkey_def)
qed

definition subkeys_good :: "horizon_reg \<times> horizon_reg_key \<Rightarrow> bool" where
  "subkeys_good t \<longleftrightarrow> sorted_names (subkey_names (rg_keys (fst t)) (snd t)) \<and> live_subkeys (rg_keys (fst t)) (snd t)"

interpretation vals: name_table "\<lambda>k. sorted_names (value_names k)" value_names
    "\<lambda>k n. Some (horizon_reg_find_value k n)" "\<lambda>k i. rk_values k ! i"
  by unfold_locales (simp_all add: find_value_law)

interpretation subs: name_table subkeys_good "\<lambda>(reg, k). subkey_names (rg_keys reg) k"
    "\<lambda>(reg, k) n. horizon_reg_find_subkey reg k n" "\<lambda>(reg, k) i. rk_subkeys k ! i"
  by unfold_locales (auto simp: subkeys_good_def find_subkey_law)

section \<open>The way to the root\<close>

inductive reg_chain :: "(ptr \<Rightarrow> horizon_reg_key option) \<Rightarrow> ptr \<Rightarrow> ptr list \<Rightarrow> bool" for K where
  top: "K p = Some k \<Longrightarrow> rk_parent k = None \<Longrightarrow> reg_chain K p [p]"
| up: "K p = Some k \<Longrightarrow> rk_parent k = Some q \<Longrightarrow> reg_chain K q qs \<Longrightarrow> reg_chain K p (p # qs)"

inductive_cases reg_chainE: "reg_chain K p xs"

lemma reg_chain_head: "reg_chain K p xs \<Longrightarrow> \<exists>qs. xs = p # qs"
  by (auto elim: reg_chain.cases)

lemma reg_chain_fun: "reg_chain K p xs \<Longrightarrow> reg_chain K p ys \<Longrightarrow> ys = xs"
proof (induction arbitrary: ys rule: reg_chain.induct)
  case (top p k)
  from top.prems top.hyps show ?case by (cases rule: reg_chain.cases) auto
next
  case (up p k q qs)
  from up.prems up.hyps show ?case by (cases rule: reg_chain.cases) (auto dest: up.IH)
qed

lemma reg_chain_suffix:
  "reg_chain K p xs \<Longrightarrow> q \<in> set xs \<Longrightarrow> \<exists>ys. reg_chain K q ys \<and> length ys \<le> length xs \<and> set ys \<subseteq> set xs"
proof (induction rule: reg_chain.induct)
  case (top p k)
  then show ?case by (auto intro: reg_chain.top)
next
  case (up p k r qs)
  show ?case
  proof (cases "q = p")
    case True
    then show ?thesis using up.hyps by (intro exI [of _ "p # qs"]) (auto intro: reg_chain.up)
  next
    case False
    with up show ?thesis by fastforce
  qed
qed

lemma reg_chain_distinct: "reg_chain K p xs \<Longrightarrow> distinct xs"
proof (induction rule: reg_chain.induct)
  case (up p k q qs)
  have "p \<notin> set qs"
  proof
    assume "p \<in> set qs"
    with up.hyps(3) obtain ys where "reg_chain K p ys" "length ys \<le> length qs" by (auto dest: reg_chain_suffix)
    moreover have "reg_chain K p (p # qs)" using up.hyps by (rule reg_chain.up)
    ultimately show False by (auto dest: reg_chain_fun)
  qed
  with up.IH show ?case by simp
qed simp

lemma reg_chain_live: "reg_chain K p xs \<Longrightarrow> q \<in> set xs \<Longrightarrow> \<exists>k. K q = Some k"
  by (induction rule: reg_chain.induct) auto

text \<open>A chain only depends on the parents of the keys on it.\<close>

lemma reg_chain_cong:
  "reg_chain K p xs \<Longrightarrow> (\<And>q. q \<in> set xs \<Longrightarrow> map_option rk_parent (K' q) = map_option rk_parent (K q)) \<Longrightarrow> reg_chain K' p xs"
proof (induction rule: reg_chain.induct)
  case (top p k)
  then show ?case by (auto simp: map_option_case split: option.splits intro: reg_chain.top)
next
  case (up p k q qs)
  from up.prems [of p] up.hyps(1,2) obtain k' where "K' p = Some k'" "rk_parent k' = Some q" by auto
  moreover have "reg_chain K' q qs" using up by auto
  ultimately show ?case by (rule reg_chain.up)
qed

section \<open>What a touch does\<close>

text \<open>Everything but the time and the notifications.\<close>

definition key_shape :: "horizon_reg_key \<Rightarrow> horizon_reg_key" where
  "key_shape k = k\<lparr>rk_modif := 0, rk_notify := []\<rparr>"

definition same_shape :: "(ptr \<Rightarrow> horizon_reg_key option) \<Rightarrow> (ptr \<Rightarrow> horizon_reg_key option) \<Rightarrow> bool" where
  "same_shape K K' \<longleftrightarrow> (\<forall>p. map_option key_shape (K' p) = map_option key_shape (K p))"

lemma key_shape_simps [simp]:
  "rk_name (key_shape k) = rk_name k" "rk_parent (key_shape k) = rk_parent k" "rk_subkeys (key_shape k) = rk_subkeys k"
  "rk_subkey_max (key_shape k) = rk_subkey_max k" "rk_values (key_shape k) = rk_values k"
  "rk_value_max (key_shape k) = rk_value_max k" "rk_flags (key_shape k) = rk_flags k" "rk_refs (key_shape k) = rk_refs k"
  "rk_class (key_shape k) = rk_class k" "key_shape (rk_modif_update f k) = key_shape k"
  "key_shape (rk_notify_update g k) = key_shape k"
  by (simp_all add: key_shape_def)

lemma same_shape_refl [simp]: "same_shape K K"
  by (simp add: same_shape_def)

lemma same_shape_trans: "same_shape K L \<Longrightarrow> same_shape L M \<Longrightarrow> same_shape K M"
  by (simp add: same_shape_def)

lemma same_shape_sym: "same_shape K L \<Longrightarrow> same_shape L K"
  by (simp add: same_shape_def)

lemma same_shape_Some:
  assumes "same_shape K K'" "K p = Some k"
  obtains k' where "K' p = Some k'" "key_shape k' = key_shape k"
  using assms unfolding same_shape_def by (metis map_option_eq_Some option.simps(9))

lemma same_shape_None: "same_shape K K' \<Longrightarrow> K' p = None \<longleftrightarrow> K p = None"
  unfolding same_shape_def by (metis option.map_disc_iff)

lemma same_shape_parent: "same_shape K K' \<Longrightarrow> map_option rk_parent (K' q) = map_option rk_parent (K q)"
  by (cases "K q") (auto simp: same_shape_None elim!: same_shape_Some [of K K' q] dest: arg_cong [of _ _ rk_parent])

lemma same_shape_chain: "same_shape K K' \<Longrightarrow> reg_chain K p xs \<Longrightarrow> reg_chain K' p xs"
  by (erule reg_chain_cong) (rule same_shape_parent)

lemma same_shape_upd: "same_shape K K' \<Longrightarrow> key_shape k = key_shape k' \<Longrightarrow> same_shape (K(p \<mapsto> k)) (K'(p \<mapsto> k'))"
  by (simp add: same_shape_def)

lemma same_shape_upd1: "K p = Some k \<Longrightarrow> key_shape k' = key_shape k \<Longrightarrow> same_shape K (K(p \<mapsto> k'))"
  by (simp add: same_shape_def)

lemma same_shape_drop: "same_shape K K' \<Longrightarrow> same_shape (K(p := None)) (K'(p := None))"
  by (simp add: same_shape_def)

lemma notify_walk_filter: "notify_walk hit ns = (filter (\<lambda>n. \<not> hit n) ns, map rn_event (filter hit ns))"
  by (induction ns) auto

lemma signal_notify_eq:
  "rg_keys reg p = Some k \<Longrightarrow> signal_notify p hit reg =
     Some (reg\<lparr>rg_keys := (rg_keys reg)(p \<mapsto> k\<lparr>rk_notify := filter (\<lambda>n. \<not> hit n) (rk_notify k)\<rparr>),
              rg_signals := rg_signals reg @ map rn_event (filter hit (rk_notify k))\<rparr>)"
  by (simp add: signal_notify_def notify_walk_filter upd_key_def)

text \<open>The notifications of a key that a change ends.\<close>

definition notify_hit :: "u32 \<Rightarrow> bool \<Rightarrow> reg_notification \<Rightarrow> bool" where
  "notify_hit change not_subtree n \<longleftrightarrow> (rn_subtree n \<or> not_subtree) \<and> change AND rn_filter n \<noteq> 0"

definition key_notify :: "(ptr \<Rightarrow> horizon_reg_key option) \<Rightarrow> ptr \<Rightarrow> reg_notification list" where
  "key_notify K p = (case K p of None \<Rightarrow> [] | Some k \<Rightarrow> rk_notify k)"

definition hit_events :: "u32 \<Rightarrow> bool \<Rightarrow> (ptr \<Rightarrow> horizon_reg_key option) \<Rightarrow> ptr \<Rightarrow> ptr list" where
  "hit_events change not_subtree K p = map rn_event (filter (notify_hit change not_subtree) (key_notify K p))"

definition unhit :: "u32 \<Rightarrow> bool \<Rightarrow> horizon_reg_key \<Rightarrow> horizon_reg_key" where
  "unhit change not_subtree k = k\<lparr>rk_notify := filter (\<lambda>n. \<not> notify_hit change not_subtree n) (rk_notify k)\<rparr>"

lemma unhit_simps [simp]: "key_shape (unhit c b k) = key_shape k" "rk_parent (unhit c b k) = rk_parent k"
  by (simp_all add: unhit_def)

lemma check_notify_eq:
  "rg_keys reg p = Some k \<Longrightarrow> horizon_reg_check_notify p change b reg =
     Some (reg\<lparr>rg_keys := (rg_keys reg)(p \<mapsto> unhit change b k),
              rg_signals := rg_signals reg @ hit_events change b (rg_keys reg) p\<rparr>)"
  by (simp add: horizon_reg_check_notify_def signal_notify_eq unhit_def hit_events_def key_notify_def
      notify_hit_def [abs_def])

lemma touch_parents_eq:
  "reg_chain (rg_keys reg) p xs \<Longrightarrow> touch_parents (Some p) change reg =
     Some (reg\<lparr>rg_keys := (\<lambda>q. if q \<in> set xs then map_option (unhit change False) (rg_keys reg q) else rg_keys reg q),
              rg_signals := rg_signals reg @ concat (map (hit_events change False (rg_keys reg)) xs)\<rparr>)"
proof (induction xs arbitrary: p reg)
  case Nil
  then show ?case by (auto dest: reg_chain_head)
next
  case (Cons x qs)
  from reg_chain_head [OF Cons.prems] have x: "x = p" by simp
  obtain k where k: "rg_keys reg p = Some k" using reg_chain_live [OF Cons.prems, of p] x by auto
  let ?r = "reg\<lparr>rg_keys := (rg_keys reg)(p \<mapsto> unhit change False k),
              rg_signals := rg_signals reg @ hit_events change False (rg_keys reg) p\<rparr>"
  have step: "touch_parents (Some p) change reg = touch_parents (rk_parent k) change ?r"
    by (subst touch_parents.simps) (simp add: check_notify_eq [OF k])
  show ?case
  proof (cases "rk_parent k")
    case None
    with Cons.prems k have "qs = []" by (auto elim: reg_chain.cases)
    then show ?thesis unfolding step None using x k
      by (subst touch_parents.simps) (auto simp: fun_eq_iff intro!: arg_cong2 [where f = "\<lambda>a b. reg\<lparr>rg_keys := a, rg_signals := b\<rparr>"])
  next
    case (Some q)
    with Cons.prems k x have qs: "reg_chain (rg_keys reg) q qs" by (auto elim: reg_chain.cases)
    have p: "p \<notin> set qs" using reg_chain_distinct [OF Cons.prems] x by simp
    have "reg_chain (rg_keys ?r) q qs" by (rule reg_chain_cong [OF qs]) (use p in auto)
    note IH = Cons.IH [OF this]
    have ev: "map (hit_events change False ((rg_keys reg)(p \<mapsto> unhit change False k))) qs =
        map (hit_events change False (rg_keys reg)) qs"
      using p by (auto simp: hit_events_def key_notify_def)
    show ?thesis unfolding step Some IH using x k p
      by (auto simp: fun_eq_iff ev intro!: arg_cong2 [where f = "\<lambda>a b. reg\<lparr>rg_keys := a, rg_signals := b\<rparr>"])
  qed
qed

text \<open>The hive a chain of keys meets first.\<close>

definition bumped :: "ptr option \<times> ptr option \<Rightarrow> ptr list \<Rightarrow> u64 \<times> u64 \<Rightarrow> u64 \<times> u64" where
  "bumped hives xs g =
     (case List.find (\<lambda>q. fst hives = Some q \<or> snd hives = Some q) xs of
        None \<Rightarrow> g
      | Some q \<Rightarrow> if fst hives = Some q then (fst g + 1, snd g) else (fst g, snd g + 1))"

lemma changed_eq:
  "reg_chain (rg_keys reg) p xs \<Longrightarrow>
     horizon_registry_changed (Some p) reg = Some (reg\<lparr>rg_generation := bumped (rg_hives reg) xs (rg_generation reg)\<rparr>)"
proof (induction rule: reg_chain.induct)
  case (top p k)
  then show ?case
    by (subst horizon_registry_changed.simps) (simp add: horizon_registry_changed.simps [of None] bumped_def)
next
  case (up p k q qs)
  then show ?case by (subst horizon_registry_changed.simps) (simp add: bumped_def)
qed

definition touched_keys ::
    "u64 \<Rightarrow> u32 \<Rightarrow> ptr \<Rightarrow> ptr list \<Rightarrow> (ptr \<Rightarrow> horizon_reg_key option) \<Rightarrow> ptr \<Rightarrow> horizon_reg_key option" where
  "touched_keys now change p qs K q =
     (if q = p then map_option (\<lambda>k. unhit change True (k\<lparr>rk_modif := now\<rparr>)) (K q)
      else if q \<in> set qs then map_option (unhit change False) (K q) else K q)"

definition touched :: "u64 \<Rightarrow> u32 \<Rightarrow> ptr \<Rightarrow> ptr list \<Rightarrow> horizon_reg \<Rightarrow> horizon_reg" where
  "touched now change p qs reg = reg\<lparr>
     rg_keys := touched_keys now change p qs (rg_keys reg),
     rg_signals := rg_signals reg @ hit_events change True (rg_keys reg) p @
       concat (map (hit_events change False (rg_keys reg)) qs),
     rg_generation := if rg_watched reg then bumped (rg_hives reg) (p # qs) (rg_generation reg) else rg_generation reg\<rparr>"

lemma touched_shape: "same_shape K (touched_keys now change p qs K)"
  by (simp add: same_shape_def touched_keys_def option.map_comp o_def)

lemma touched_simps [simp]:
  "rg_root (touched now change p qs reg) = rg_root reg" "rg_hives (touched now change p qs reg) = rg_hives reg"
  "rg_watched (touched now change p qs reg) = rg_watched reg"
  "rg_keys (touched now change p qs reg) = touched_keys now change p qs (rg_keys reg)"
  by (simp_all add: touched_def)

lemma touch_eq:
  assumes "reg_chain (rg_keys reg) p (p # qs)"
  shows "horizon_reg_touch now p change reg = Some (touched now change p qs reg)"
proof -
  obtain k where k: "rg_keys reg p = Some k" using reg_chain_live [OF assms, of p] by auto
  let ?k = "k\<lparr>rk_modif := now\<rparr>"
  let ?r = "reg\<lparr>rg_keys := (rg_keys reg)(p \<mapsto> ?k)\<rparr>"
  let ?g = "if rg_watched reg then bumped (rg_hives reg) (p # qs) (rg_generation reg) else rg_generation reg"
  have chain: "reg_chain (rg_keys ?r) p (p # qs)"
    by (rule reg_chain_cong [OF assms]) (use k in auto)
  have 1: "(if rg_watched ?r then horizon_registry_changed (Some p) ?r else Some ?r) = Some (?r\<lparr>rg_generation := ?g\<rparr>)"
    using changed_eq [OF chain] by simp
  let ?r2 = "?r\<lparr>rg_generation := ?g, rg_keys := (rg_keys reg)(p \<mapsto> unhit change True ?k),
      rg_signals := rg_signals reg @ hit_events change True (rg_keys reg) p\<rparr>"
  have 2: "horizon_reg_check_notify p change True (?r\<lparr>rg_generation := ?g\<rparr>) = Some ?r2"
    using check_notify_eq [of "?r\<lparr>rg_generation := ?g\<rparr>" p ?k] k by (simp add: hit_events_def key_notify_def)
  have 3: "horizon_reg_touch now p change reg = touch_parents (rk_parent k) change ?r2"
    unfolding horizon_reg_touch_def upd_key_def using k 1 2 by simp
  have p: "p \<notin> set qs" using reg_chain_distinct [OF assms] by simp
  show ?thesis
  proof (cases "rk_parent k")
    case None
    with assms k have "qs = []" by (auto elim: reg_chain.cases)
    then have keys: "(rg_keys reg)(p \<mapsto> unhit change True ?k) = touched_keys now change p qs (rg_keys reg)"
      by (auto simp: touched_keys_def fun_eq_iff k)
    have parents_end: "touch_parents None change r = Some r" for r by (simp add: touch_parents.simps)
    show ?thesis unfolding 3 None parents_end keys
      by (rule arg_cong [where f = Some], rule horizon_reg.equality) (simp_all add: touched_def \<open>qs = []\<close>)
  next
    case (Some q)
    with assms k have qs: "reg_chain (rg_keys reg) q qs" by (auto elim: reg_chain.cases)
    have "reg_chain (rg_keys ?r2) q qs" by (rule reg_chain_cong [OF qs]) (use p in auto)
    note 4 = touch_parents_eq [OF this, of change]
    have ev: "map (hit_events change False ((rg_keys reg)(p \<mapsto> unhit change True ?k))) qs =
        map (hit_events change False (rg_keys reg)) qs"
      using p by (auto simp: hit_events_def key_notify_def)
    have keys: "(if x \<in> set qs then map_option (unhit change False) (rg_keys ?r2 x) else rg_keys ?r2 x) =
        touched_keys now change p qs (rg_keys reg) x" for x
      using p by (simp add: touched_keys_def k)
    show ?thesis unfolding 3 Some 4 keys
      by (rule arg_cong [where f = Some], rule horizon_reg.equality) (simp_all add: touched_def ev)
  qed
qed

section \<open>What a release does\<close>

lemma release_kept:
  assumes "rg_keys reg p = Some k" "rk_refs k \<noteq> 1"
  shows "horizon_reg_release p reg = Some (reg\<lparr>rg_keys := (rg_keys reg)(p \<mapsto> rk_refs_update (\<lambda>r. r - 1) k)\<rparr>)"
  using assms unfolding horizon_reg_release_def
  by (subst release_keys.simps) (simp add: upd_key_def release_keys.simps [of "[]"])

lemma release_last:
  assumes "rg_keys reg p = Some k" "rk_refs k = 1" "rk_subkeys k = []"
  shows "horizon_reg_release p reg = Some (reg\<lparr>rg_keys := (rg_keys reg)(p := None),
           rg_signals := rg_signals reg @ map rn_event (rk_notify k)\<rparr>)"
  using assms unfolding horizon_reg_release_def
  by (subst release_keys.simps)
    (simp add: upd_key_def signal_notify_eq release_keys.simps [of "[]"] release_keys.simps [of "[Free_key p]"])

end
