(* ===== verification/HzRegTree.thy ===== *)
theory HzRegTree
  imports HzRegistry
begin

text \<open>
  The registry's tree: the invariant of the heap of keys, that every operation of
  \<open>dlls/ntdll/unix/horizon_registry.h\<close> keeps it and never follows a bad pointer, that every lookup ends, and what
  the operations do to the keys, values and notifications.
\<close>

section \<open>The invariant\<close>

definition name_ok :: "u16 list \<Rightarrow> bool" where
  "name_ok n \<longleftrightarrow> n \<noteq> [] \<and> BACKSLASH \<notin> set n \<and> length n \<le> HORIZON_REG_MAX_NAME"

definition capacity_ok :: "nat \<Rightarrow> nat \<Rightarrow> bool" where
  "capacity_ok n room \<longleftrightarrow> n \<le> room \<and> (room = 0 \<or> 8 \<le> room)"

definition values_ok :: "horizon_reg_key \<Rightarrow> bool" where
  "values_ok k \<longleftrightarrow> sorted_names (value_names k) \<and> capacity_ok (length (rk_values k)) (rk_value_max k) \<and>
     (\<forall>v\<in>set (rk_values k). length (rv_name v) \<le> HORIZON_REG_MAX_VALUE)"

text \<open>A key and its neighbours in the tree.\<close>

definition linked_ok :: "(ptr \<Rightarrow> horizon_reg_key option) \<Rightarrow> ptr \<Rightarrow> horizon_reg_key \<Rightarrow> bool" where
  "linked_ok K p k \<longleftrightarrow>
     distinct (rk_subkeys k) \<and> capacity_ok (length (rk_subkeys k)) (rk_subkey_max k) \<and>
     (\<forall>c\<in>set (rk_subkeys k). \<exists>ck. K c = Some ck \<and> rk_parent ck = Some p) \<and>
     sorted_names (subkey_names K k) \<and>
     (\<forall>q. rk_parent k = Some q \<longrightarrow> (\<exists>qk. K q = Some qk \<and> p \<in> set (rk_subkeys qk)))"

text \<open>\<open>held\<close> are the references callers have.\<close>

definition key_ok :: "ptr \<Rightarrow> ptr list \<Rightarrow> ptr \<Rightarrow> horizon_reg_key \<Rightarrow> bool" where
  "key_ok root held p k \<longleftrightarrow>
     name_ok (rk_name k) \<and> values_ok k \<and>
     (flagged k HORIZON_REG_FLAG_DELETED \<longleftrightarrow> rk_parent k = None \<and> p \<noteq> root) \<and>
     (flagged k HORIZON_REG_FLAG_DELETED \<longrightarrow> rk_subkeys k = []) \<and>
     (p = root \<longrightarrow> rk_parent k = None \<and> rk_name k = root_name) \<and>
     rk_refs k \<noteq> 0 \<and>
     unat (rk_refs k) = count_list held p + (if flagged k HORIZON_REG_FLAG_DELETED then 0 else 1)"

definition keys_ok :: "ptr \<Rightarrow> ptr list \<Rightarrow> (ptr \<Rightarrow> horizon_reg_key option) \<Rightarrow> bool" where
  "keys_ok root held K \<longleftrightarrow>
     K root \<noteq> None \<and> (\<forall>p\<in>set held. K p \<noteq> None) \<and>
     (\<forall>p k. K p = Some k \<longrightarrow> linked_ok K p k \<and> key_ok root held p k \<and> (\<exists>xs. reg_chain K p xs))"

definition reg_ok :: "horizon_reg \<Rightarrow> ptr list \<Rightarrow> bool" where
  "reg_ok reg held \<longleftrightarrow> (\<exists>root. rg_root reg = Some root \<and> keys_ok root held (rg_keys reg))"

lemma shape_cong:
  assumes "key_shape k' = key_shape k"
  shows "rk_name k' = rk_name k" "rk_parent k' = rk_parent k" "rk_subkeys k' = rk_subkeys k"
    "rk_subkey_max k' = rk_subkey_max k" "rk_values k' = rk_values k" "rk_value_max k' = rk_value_max k"
    "rk_flags k' = rk_flags k" "rk_refs k' = rk_refs k" "rk_class k' = rk_class k"
  using arg_cong [OF assms, of rk_name] arg_cong [OF assms, of rk_parent] arg_cong [OF assms, of rk_subkeys]
    arg_cong [OF assms, of rk_subkey_max] arg_cong [OF assms, of rk_values] arg_cong [OF assms, of rk_value_max]
    arg_cong [OF assms, of rk_flags] arg_cong [OF assms, of rk_refs] arg_cong [OF assms, of rk_class] by simp_all

lemma name_of_shape: "same_shape K K' \<Longrightarrow> name_of K' = name_of K"
proof
  fix p assume sh: "same_shape K K'"
  show "name_of K' p = name_of K p"
  proof (cases "K p")
    case None
    then show ?thesis using same_shape_None [OF sh, of p] by (simp add: name_of_def)
  next
    case (Some k)
    from same_shape_Some [OF sh Some] obtain k' where "K' p = Some k'" "key_shape k' = key_shape k" .
    then show ?thesis using Some shape_cong(1) [of k' k] by (simp add: name_of_def)
  qed
qed

lemma linked_ok_shape:
  assumes "same_shape K K'" "key_shape k' = key_shape k" "linked_ok K p k"
  shows "linked_ok K' p k'"
proof -
  have ch: "\<exists>ck. K' c = Some ck \<and> rk_parent ck = Some p" if "K c = Some ck" "rk_parent ck = Some p" for c ck
    using same_shape_Some [OF assms(1) that(1)] that(2) by (metis shape_cong(2))
  have pa: "\<exists>qk. K' q = Some qk \<and> p \<in> set (rk_subkeys qk)" if "K q = Some qk" "p \<in> set (rk_subkeys qk)" for q qk
    using same_shape_Some [OF assms(1) that(1)] that(2) by (metis shape_cong(3))
  show ?thesis using assms(3) ch pa
    unfolding linked_ok_def subkey_names_def shape_cong [OF assms(2)] name_of_shape [OF assms(1)] by blast
qed

lemma key_ok_shape: "key_shape k' = key_shape k \<Longrightarrow> key_ok root held p k' \<longleftrightarrow> key_ok root held p k"
  using shape_cong [of k' k]
  by (simp add: key_ok_def values_ok_def value_names_def flagged_def)

lemma keys_ok_shape:
  assumes "same_shape K K'" "keys_ok root held K"
  shows "keys_ok root held K'"
proof -
  have "linked_ok K' p k' \<and> key_ok root held p k' \<and> (\<exists>xs. reg_chain K' p xs)" if k': "K' p = Some k'" for p k'
  proof -
    from same_shape_Some [OF same_shape_sym [OF assms(1)] k'] obtain k where
      k: "K p = Some k" "key_shape k' = key_shape k" by (metis)
    then have "linked_ok K p k" "key_ok root held p k" "\<exists>xs. reg_chain K p xs" using assms(2) by (auto simp: keys_ok_def)
    then show ?thesis
      using linked_ok_shape [OF assms(1) k(2)] key_ok_shape [OF k(2)] same_shape_chain [OF assms(1)] by blast
  qed
  then show ?thesis using assms(2) by (auto simp: keys_ok_def same_shape_None [OF assms(1)])
qed

section \<open>Changes of the heap that keep the invariant\<close>

lemma keys_okD:
  assumes "keys_ok root held K" "K p = Some k"
  shows "linked_ok K p k" "key_ok root held p k" "\<exists>xs. reg_chain K p xs"
  using assms by (auto simp: keys_ok_def)

lemma linked_ok_frame:
  assumes "linked_ok K r rk"
    and "\<And>c. c \<in> set (rk_subkeys rk) \<Longrightarrow> \<exists>ck. K' c = Some ck \<and> rk_parent ck = Some r \<and> rk_name ck = name_of K c"
    and "\<And>q. rk_parent rk = Some q \<Longrightarrow> \<exists>qk. K' q = Some qk \<and> r \<in> set (rk_subkeys qk)"
  shows "linked_ok K' r rk"
proof -
  have "subkey_names K' rk = subkey_names K rk"
    unfolding subkey_names_def by (rule map_cong) (use assms(2) in \<open>force simp: name_of_def\<close>)+
  then show ?thesis using assms unfolding linked_ok_def by (metis (no_types, opaque_lifting))
qed

lemma subkey_live:
  assumes "linked_ok K p k" "c \<in> set (rk_subkeys k)"
  obtains ck where "K c = Some ck" "rk_parent ck = Some p" "rk_name ck = name_of K c"
proof -
  obtain ck where "K c = Some ck" "rk_parent ck = Some p" using assms by (auto simp: linked_ok_def)
  then show thesis using that by (simp add: name_of_def)
qed

lemma parent_live:
  assumes "linked_ok K p k" "rk_parent k = Some q"
  obtains qk where "K q = Some qk" "p \<in> set (rk_subkeys qk)"
  using assms by (auto simp: linked_ok_def)

lemma chain_through:
  "reg_chain K r xs \<Longrightarrow> p \<in> set xs \<Longrightarrow> r \<noteq> p \<Longrightarrow> \<exists>c ck. K c = Some ck \<and> rk_parent ck = Some p"
proof (induction rule: reg_chain.induct)
  case (up r k q qs)
  then show ?case by (cases "q = p") auto
qed simp

lemma leaf_not_above:
  assumes "keys_ok root held K" "K p = Some k" "rk_subkeys k = []" "reg_chain K r xs" "r \<noteq> p"
  shows "p \<notin> set xs"
proof
  assume "p \<in> set xs"
  from chain_through [OF assms(4) this assms(5)] obtain c ck where "K c = Some ck" "rk_parent ck = Some p" by auto
  with keys_okD(1) [OF assms(1)] assms(2,3) show False by (metis parent_live empty_iff list.set(1) option.inject)
qed

lemma not_own_parent:
  assumes "keys_ok root held K" "K p = Some k"
  shows "rk_parent k \<noteq> Some p"
proof
  assume pp: "rk_parent k = Some p"
  obtain xs where xs: "reg_chain K p xs" using keys_okD(3) [OF assms] by blast
  from xs obtain qs where "xs = p # qs" "reg_chain K p qs" using assms(2) pp by (cases rule: reg_chain.cases) auto
  with reg_chain_fun [OF xs] show False by fastforce
qed

text \<open>Only a key's references, flags, class or values change.\<close>

lemma keys_ok_local:
  assumes ok: "keys_ok root held K" and k: "K p = Some k"
    and same: "rk_name k' = rk_name k" "rk_parent k' = rk_parent k" "rk_subkeys k' = rk_subkeys k"
      "rk_subkey_max k' = rk_subkey_max k"
    and k': "key_ok root held' p k'"
    and counts: "\<And>q. q \<noteq> p \<Longrightarrow> count_list held' q = count_list held q" and "set held' \<subseteq> insert p (set held)"
  shows "keys_ok root held' (K(p \<mapsto> k'))"
proof -
  let ?K = "K(p \<mapsto> k')"
  have nm: "name_of ?K = name_of K" using k same by (auto simp: name_of_def fun_eq_iff)
  have fr: "linked_ok ?K r rk" if r: "linked_ok K r rk" for r rk
  proof (rule linked_ok_frame [OF r])
    fix c assume "c \<in> set (rk_subkeys rk)"
    from subkey_live [OF r this] obtain ck where "K c = Some ck" "rk_parent ck = Some r" "rk_name ck = name_of K c" .
    then show "\<exists>ck. ?K c = Some ck \<and> rk_parent ck = Some r \<and> rk_name ck = name_of K c"
      using k same by (cases "c = p") auto
  next
    fix q assume "rk_parent rk = Some q"
    from parent_live [OF r this] obtain qk where "K q = Some qk" "r \<in> set (rk_subkeys qk)" .
    then show "\<exists>qk. ?K q = Some qk \<and> r \<in> set (rk_subkeys qk)" using k same by (cases "q = p") auto
  qed
  have chain: "\<exists>xs. reg_chain ?K r xs" if "reg_chain K r xs" for r xs
    by (rule exI [of _ xs], rule reg_chain_cong [OF that]) (use k same in auto)
  have "linked_ok ?K r rk \<and> key_ok root held' r rk \<and> (\<exists>xs. reg_chain ?K r xs)" if "?K r = Some rk" for r rk
  proof (cases "r = p")
    case True
    then have "linked_ok ?K p k" using fr keys_okD(1) [OF ok k] by blast
    then have "linked_ok ?K p k'" using same by (simp add: linked_ok_def subkey_names_def)
    then show ?thesis using True that k' chain keys_okD(3) [OF ok k] by auto
  next
    case False
    with that have rk: "K r = Some rk" by simp
    show ?thesis using fr keys_okD [OF ok rk] chain counts [OF False] by (auto simp: key_ok_def)
  qed
  then show ?thesis using ok k assms(9) by (auto simp: keys_ok_def)
qed

text \<open>A new key without subkeys is put in its place below another.\<close>

lemma keys_ok_link:
  assumes ok: "keys_ok root held K" and pk: "K q = Some pk" and fresh: "K p = None"
    and live: "\<not> flagged pk HORIZON_REG_FLAG_DELETED" and new: "\<not> has_name (subkey_names K pk) (rk_name nk)"
    and nk: "rk_parent nk = Some q" "rk_subkeys nk = []" "key_ok root held p nk"
      "capacity_ok 0 (rk_subkey_max nk)"
    and room: "capacity_ok (Suc (length (rk_subkeys pk))) room"
  shows "keys_ok root held (K(q \<mapsto> pk\<lparr>rk_subkey_max := room,
      rk_subkeys := insert_at (name_place (subkey_names K pk) (rk_name nk)) p (rk_subkeys pk)\<rparr>, p \<mapsto> nk))"
    (is "keys_ok root held ?K")
proof -
  let ?i = "name_place (subkey_names K pk) (rk_name nk)"
  let ?pk = "pk\<lparr>rk_subkey_max := room, rk_subkeys := insert_at ?i p (rk_subkeys pk)\<rparr>"
  have qp: "q \<noteq> p" using pk fresh by auto
  have nm: "name_of ?K c = name_of K c" if "c \<noteq> p" for c using that pk by (simp add: name_of_def)
  have fr: "linked_ok ?K r rk" if r: "linked_ok K r rk" for r rk
  proof (rule linked_ok_frame [OF r])
    fix c assume "c \<in> set (rk_subkeys rk)"
    from subkey_live [OF r this] obtain ck where "K c = Some ck" "rk_parent ck = Some r" "rk_name ck = name_of K c" .
    then show "\<exists>ck. ?K c = Some ck \<and> rk_parent ck = Some r \<and> rk_name ck = name_of K c"
      using pk fresh by (cases "c = q") auto
  next
    fix s assume "rk_parent rk = Some s"
    from parent_live [OF r this] obtain qk where "K s = Some qk" "r \<in> set (rk_subkeys qk)" .
    then show "\<exists>qk. ?K s = Some qk \<and> r \<in> set (rk_subkeys qk)" using pk fresh by (cases "s = q") auto
  qed
  have chain: "reg_chain ?K r xs" if "reg_chain K r xs" for r xs
    by (rule reg_chain_cong [OF that]) (use reg_chain_live [OF that] pk fresh in force)
  obtain qs where qs: "reg_chain K q qs" using keys_okD(3) [OF ok pk] by blast
  have pq: "linked_ok ?K q ?pk"
  proof -
    have l: "linked_ok ?K q pk" using fr keys_okD(1) [OF ok pk] by blast
    have new_in: "p \<notin> set (rk_subkeys pk)" using keys_okD(1) [OF ok pk] fresh by (force elim: subkey_live)
    have names: "subkey_names ?K ?pk = insert_at ?i (rk_name nk) (subkey_names K pk)"
    proof -
      have 1: "map (name_of ?K) (rk_subkeys pk) = map (name_of K) (rk_subkeys pk)"
        by (rule map_cong [OF refl], rule nm) (use new_in in auto)
      have 2: "name_of ?K p = rk_name nk" by (simp add: name_of_def)
      have "subkey_names ?K ?pk = map (name_of ?K) (insert_at ?i p (rk_subkeys pk))" by (simp add: subkey_names_def)
      also have "\<dots> = insert_at ?i (name_of ?K p) (map (name_of ?K) (rk_subkeys pk))" by (rule insert_at_simps(3))
      also have "\<dots> = insert_at ?i (rk_name nk) (map (name_of K) (rk_subkeys pk))" unfolding 1 2 ..
      finally show ?thesis by (simp only: subkey_names_def)
    qed
    have "sorted_names (subkey_names ?K ?pk)" unfolding names
      using keys_okD(1) [OF ok pk] new by (auto simp: linked_ok_def intro: sorted_insert_at)
    then show ?thesis using l new_in room nk(1) qp by (auto simp: linked_ok_def distinct_insert_at)
  qed
  have pp: "linked_ok ?K p nk" using nk qp by (auto simp: linked_ok_def subkey_names_def sorted_names_def)
  have "linked_ok ?K r rk \<and> key_ok root held r rk \<and> (\<exists>xs. reg_chain ?K r xs)" if rk: "?K r = Some rk" for r rk
  proof -
    consider "r = p" | "r = q" "r \<noteq> p" | "r \<noteq> q" "r \<noteq> p" by blast
    then show ?thesis
    proof cases
      case 1
      then have "reg_chain ?K p (p # qs)" by (intro reg_chain.up [OF _ nk(1) chain [OF qs]]) simp
      with 1 rk pp nk(3) show ?thesis by auto
    next
      case 2
      have "key_ok root held q ?pk" using keys_okD(2) [OF ok pk] live
        by (auto simp: key_ok_def values_ok_def value_names_def flagged_def)
      with 2 rk pq chain [OF qs] qp show ?thesis by auto
    next
      case 3
      with rk have "K r = Some rk" by simp
      with keys_okD [OF ok this] fr chain show ?thesis by blast
    qed
  qed
  then show ?thesis using ok pk by (auto simp: keys_ok_def)
qed

text \<open>A key without subkeys goes: it is no longer in its parent's table and not in the heap.\<close>

lemma sorted_subtable: "sorted_names (map f xs) \<Longrightarrow> sorted_names (map f (remove_at i xs))"
  using sorted_remove_at [of "map f xs" i] by (simp add: map_remove_at)

lemma keys_ok_drop:
  assumes ok: "keys_ok root held K" and k: "K p = Some k" "rk_parent k = None" "p \<noteq> root"
    and held': "p \<notin> set held'" "\<And>q. q \<noteq> p \<Longrightarrow> count_list held' q = count_list held q" "set held' \<subseteq> set held"
  shows "keys_ok root held' (K(p := None))"
proof -
  let ?K = "K(p := None)"
  have leaf: "rk_subkeys k = []" using keys_okD(2) [OF ok k(1)] k by (simp add: key_ok_def)
  have "linked_ok ?K r rk \<and> key_ok root held' r rk \<and> (\<exists>xs. reg_chain ?K r xs)" if rk: "?K r = Some rk" for r rk
  proof -
    from rk have r: "K r = Some rk" "r \<noteq> p" by (auto split: if_splits)
    have l: "linked_ok K r rk" using keys_okD [OF ok r(1)] by blast
    have "linked_ok ?K r rk"
    proof (rule linked_ok_frame [OF l])
      fix c assume "c \<in> set (rk_subkeys rk)"
      from subkey_live [OF l this] obtain ck where "K c = Some ck" "rk_parent ck = Some r" "rk_name ck = name_of K c" .
      then show "\<exists>ck. ?K c = Some ck \<and> rk_parent ck = Some r \<and> rk_name ck = name_of K c" using k by auto
    next
      fix s assume "rk_parent rk = Some s"
      from parent_live [OF l this] obtain qk where "K s = Some qk" "r \<in> set (rk_subkeys qk)" .
      then show "\<exists>qk. ?K s = Some qk \<and> r \<in> set (rk_subkeys qk)" using k leaf by auto
    qed
    moreover have "key_ok root held' r rk" using keys_okD(2) [OF ok r(1)] held'(2) [OF r(2)] by (simp add: key_ok_def)
    moreover obtain xs where xs: "reg_chain K r xs" using keys_okD(3) [OF ok r(1)] by blast
    moreover have "reg_chain ?K r xs"
      by (rule reg_chain_cong [OF xs]) (use leaf_not_above [OF ok k(1) leaf xs r(2)] in auto)
    ultimately show ?thesis by blast
  qed
  then show ?thesis using ok k held' by (auto simp: keys_ok_def)
qed

lemma keys_ok_unlink:
  assumes ok: "keys_ok root held K" and k: "K p = Some k" "rk_parent k = Some q" "rk_subkeys k = []"
    and qk: "K q = Some qk" "index_of (\<lambda>c. c = p) (rk_subkeys qk) = Some i"
    and gone: "case left of None \<Rightarrow> p \<notin> set held
      | Some k' \<Rightarrow> key_ok root held p k' \<and> rk_parent k' = None \<and> rk_subkeys k' = [] \<and> capacity_ok 0 (rk_subkey_max k')"
  shows "keys_ok root held ((K(q \<mapsto> qk\<lparr>rk_subkeys := remove_at i (rk_subkeys qk)\<rparr>))(p := left))"
    (is "keys_ok root held ?K")
proof -
  have qp: "q \<noteq> p" using not_own_parent [OF ok k(1)] k(2) by auto
  have root: "p \<noteq> root" using keys_okD(2) [OF ok k(1)] k(2) by (auto simp: key_ok_def)
  have lq: "linked_ok K q qk" using keys_okD [OF ok qk(1)] by blast
  then have dist: "distinct (rk_subkeys qk)" by (simp add: linked_ok_def)
  have i: "i < length (rk_subkeys qk)" "rk_subkeys qk ! i = p"
    using index_of_bound [OF qk(2)] index_of_sat [OF qk(2)] by auto
  have rem: "set (remove_at i (rk_subkeys qk)) = set (rk_subkeys qk) - {p}"
    using set_remove_at_distinct [OF dist i(1)] i(2) by simp
  have nm: "name_of ?K c = name_of K c" if "c \<noteq> p" for c using that qk by (simp add: name_of_def)
  have child: "\<exists>ck. ?K c = Some ck \<and> rk_parent ck = Some r \<and> rk_name ck = name_of K c"
    if r: "linked_ok K r rk" and c: "c \<in> set (rk_subkeys rk)" "c \<noteq> p" for r rk c
  proof -
    from subkey_live [OF r c(1)] obtain ck where "K c = Some ck" "rk_parent ck = Some r" "rk_name ck = name_of K c" .
    then show ?thesis using qk c(2) by (cases "c = q") auto
  qed
  have above: "\<exists>sk. ?K s = Some sk \<and> r \<in> set (rk_subkeys sk)"
    if r: "linked_ok K r rk" and s: "rk_parent rk = Some s" and rp: "r \<noteq> p" for r rk s
  proof -
    from parent_live [OF r s] obtain sk where sk: "K s = Some sk" "r \<in> set (rk_subkeys sk)" .
    then show ?thesis using qk k rem rp by (cases "s = p"; cases "s = q") auto
  qed
  have only_q: "p \<in> set (rk_subkeys rk) \<longrightarrow> r = q" if "linked_ok K r rk" for r rk
    using that k(1,2) by (auto elim: subkey_live)
  have chain: "reg_chain ?K r xs" if "reg_chain K r xs" "r \<noteq> p" for r xs
    by (rule reg_chain_cong [OF that(1)]) (use leaf_not_above [OF ok k(1,3) that] qk in auto)
  have "linked_ok ?K r rk \<and> key_ok root held r rk \<and> (\<exists>xs. reg_chain ?K r xs)" if rk: "?K r = Some rk" for r rk
  proof -
    consider "r = p" | "r = q" "r \<noteq> p" | "r \<noteq> q" "r \<noteq> p" by blast
    then show ?thesis
    proof cases
      case 1
      with rk have left: "left = Some rk" by simp
      with gone have "reg_chain ?K p [p]" by (intro reg_chain.top [of ?K p rk]) auto
      then show ?thesis using 1 left gone by (auto simp: linked_ok_def subkey_names_def sorted_names_def)
    next
      case 2
      then have rk': "rk = qk\<lparr>rk_subkeys := remove_at i (rk_subkeys qk)\<rparr>" using rk by simp
      have "sorted_names (map (name_of K) (remove_at i (rk_subkeys qk)))"
        using lq by (auto simp: linked_ok_def subkey_names_def intro: sorted_subtable)
      moreover have "subkey_names ?K rk = map (name_of K) (remove_at i (rk_subkeys qk))"
        unfolding subkey_names_def by (rule map_cong) (use rem rk' nm in auto)
      ultimately have "sorted_names (subkey_names ?K rk)" by simp
      moreover have "\<forall>c\<in>set (rk_subkeys rk). \<exists>ck. ?K c = Some ck \<and> rk_parent ck = Some q"
        using rem child [OF lq] by (fastforce simp: rk')
      moreover have "capacity_ok (length (rk_subkeys rk)) (rk_subkey_max rk)"
        using lq i by (auto simp: linked_ok_def capacity_ok_def rk' length_remove_at)
      ultimately have "linked_ok ?K q rk"
        using above [OF lq _ qp] dist unfolding linked_ok_def by (simp add: rk' distinct_remove_at)
      moreover have "key_ok root held q rk" using keys_okD(2) [OF ok qk(1)]
        by (auto simp: rk' key_ok_def values_ok_def value_names_def flagged_def remove_at_def)
      ultimately show ?thesis using 2 chain keys_okD(3) [OF ok qk(1)] by blast
    next
      case 3
      with rk have r: "K r = Some rk" by simp
      have l: "linked_ok K r rk" using keys_okD [OF ok r] by blast
      have "linked_ok ?K r rk"
        by (rule linked_ok_frame [OF l child [OF l] above [OF l]]) (use 3 only_q [OF l] in auto)
      then show ?thesis using keys_okD [OF ok r] chain 3 by blast
    qed
  qed
  moreover have "?K root \<noteq> None" using ok qk root by (auto simp: keys_ok_def)
  moreover have "\<forall>r\<in>set held. ?K r \<noteq> None" using ok qk gone by (auto simp: keys_ok_def split: option.splits)
  ultimately show ?thesis by (auto simp: keys_ok_def)
qed

text \<open>A key moves to the place of its new name.\<close>

lemma name_place_remove:
  assumes ns: "sorted_names ns" and new: "\<not> has_name ns n" and c: "c < length ns"
  shows "name_place (remove_at c ns) n = (if c < name_place ns n then name_place ns n - 1 else name_place ns n)"
proof (rule name_place_unique [OF sorted_remove_at [OF ns]])
  let ?i = "if c < name_place ns n then name_place ns n - 1 else name_place ns n"
  have above: "\<not> fold_name (ns ! j) < fold_name n" if "name_place ns n \<le> j" "j < length ns" for j
    using name_place_stop [of ns n] sorted_names_le [OF ns that] that by (auto dest: order.strict_trans1)
  show "?i \<le> length (remove_at c ns)" using name_place_le [of ns n] c
    by (auto simp: length_remove_at)
  show "fold_name (remove_at c ns ! j) < fold_name n" if "j < ?i" for j
    using that c name_place_le [of ns n] name_place_less [of j ns n] name_place_less [of "Suc j" ns n]
    by (auto simp: nth_remove_at split: if_splits)
  show "\<not> fold_name (remove_at c ns ! j) < fold_name n" if "?i \<le> j" "j < length (remove_at c ns)" for j
    using that c above [of j] above [of "Suc j"] by (auto simp: nth_remove_at length_remove_at split: if_splits)
qed

lemma move_entry_up:
  "move_entry (length A) (Suc (length A + length B)) x (A @ x # B @ C) = A @ B @ x # C"
  by (cases B rule: rev_cases) (simp_all add: move_entry_def list_update_append)

lemma move_entry_down:
  "B \<noteq> [] \<Longrightarrow> move_entry (length A + length B) (length A) x (A @ B @ x # C) = A @ x # B @ C"
  by (cases B) (simp_all add: move_entry_def list_update_append)

lemma move_entry_eq:
  assumes "current < length xs" "index \<le> length xs" "xs ! current = x"
  shows "move_entry current index x xs =
    insert_at (if current < index then index - 1 else index) x (remove_at current xs)"
proof -
  consider "current < index" | "index < current" | "current = index" by linarith
  then show ?thesis
  proof cases
    case 1
    let ?A = "take current xs" and ?R = "drop (Suc current) xs"
    let ?B = "take (index - Suc current) ?R" and ?C = "drop (index - Suc current) ?R"
    have len: "length ?A = current" "Suc (length ?A + length ?B) = index" using assms 1 by simp_all
    have xs: "?A @ x # ?B @ ?C = xs" using id_take_nth_drop [OF assms(1)] assms(3) by (simp del: drop_drop)
    have "move_entry current index x xs = ?A @ ?B @ x # ?C"
      using move_entry_up [of ?A ?B x ?C] unfolding len(2) unfolding xs len(1) .
    moreover have "?A @ ?B @ x # ?C = insert_at (index - 1) x (remove_at current xs)"
      using 1 assms by (simp add: insert_at_def remove_at_def)
    ultimately show ?thesis using 1 by simp
  next
    case 2
    let ?A = "take index xs" and ?B = "take (current - index) (drop index xs)" and ?C = "drop (Suc current) xs"
    have len: "length ?A = index" "length ?A + length ?B = current" using assms 2 by simp_all
    have "take current xs = ?A @ ?B" using 2 by (simp add: take_drop [symmetric] flip: take_add)
    then have xs: "?A @ ?B @ x # ?C = xs" using id_take_nth_drop [OF assms(1)] assms(3) by simp
    have "?B \<noteq> []" using 2 assms by simp
    have "move_entry current index x xs = ?A @ x # ?B @ ?C"
      using move_entry_down [OF \<open>?B \<noteq> []\<close>, of ?A x ?C] unfolding len(2) unfolding xs len(1) .
    moreover have "?A @ x # ?B @ ?C = insert_at index x (remove_at current xs)"
      using 2 assms by (simp add: insert_at_def remove_at_def drop_take)
    ultimately show ?thesis using 2 by simp
  next
    case 3
    then show ?thesis using assms id_take_nth_drop [OF assms(1)]
      by (auto simp: move_entry_def insert_at_def remove_at_def)
  qed
qed

lemma keys_ok_rename:
  assumes ok: "keys_ok root held K" and k: "K p = Some k" "rk_parent k = Some q" and qk: "K q = Some qk"
    and i: "index_of (\<lambda>c. c = p) (rk_subkeys qk) = Some i" and n: "name_ok n" "\<not> has_name (subkey_names K qk) n"
  shows "keys_ok root held (K(q \<mapsto> qk\<lparr>rk_subkeys := move_entry i (name_place (subkey_names K qk) n) p (rk_subkeys qk)\<rparr>,
                               p \<mapsto> k\<lparr>rk_name := n\<rparr>))"
    (is "keys_ok root held ?K")
proof -
  have qp: "q \<noteq> p" using not_own_parent [OF ok k(1)] k(2) by auto
  let ?ns = "subkey_names K qk" and ?xs = "rk_subkeys qk"
  define j where "j = (if i < name_place ?ns n then name_place ?ns n - 1 else name_place ?ns n)"
  have lq: "linked_ok K q qk" using keys_okD [OF ok qk] by blast
  then have sorted: "sorted_names ?ns" and dist: "distinct ?xs" by (simp_all add: linked_ok_def)
  have ii: "i < length ?xs" "?xs ! i = p" using index_of_bound [OF i] index_of_sat [OF i] by auto
  have moved: "move_entry i (name_place ?ns n) p ?xs = insert_at j p (remove_at i ?xs)"
    unfolding j_def by (rule move_entry_eq) (use ii name_place_le [of ?ns n] in \<open>auto simp: subkey_names_def\<close>)
  have rem: "set (remove_at i ?xs) = set ?xs - {p}" using set_remove_at_distinct [OF dist ii(1)] ii(2) by simp
  have set_moved: "set (insert_at j p (remove_at i ?xs)) = set ?xs" using nth_mem [OF ii(1)] rem ii(2) by auto
  have nm: "name_of ?K c = name_of K c" if "c \<noteq> p" for c using that qk by (simp add: name_of_def)
  have place: "name_place (remove_at i ?ns) n = j"
    unfolding j_def by (rule name_place_remove [OF sorted n(2)]) (use ii in \<open>simp add: subkey_names_def\<close>)
  have "subkey_names ?K (qk\<lparr>rk_subkeys := insert_at j p (remove_at i ?xs)\<rparr>) = insert_at j n (remove_at i ?ns)"
  proof -
    have 0: "map (name_of ?K) (remove_at i ?xs) = map (name_of K) (remove_at i ?xs)"
      by (rule map_cong [OF refl], rule nm) (use rem in auto)
    have 1: "map (name_of ?K) (remove_at i ?xs) = remove_at i ?ns"
      unfolding 0 by (simp only: subkey_names_def map_remove_at)
    have 2: "name_of ?K p = n" by (simp add: name_of_def)
    show ?thesis unfolding subkey_names_def [of ?K] by (simp add: 1 2 del: fun_upd_apply)
  qed
  moreover have "\<not> has_name (remove_at i ?ns) n" using n(2) set_remove_at_subset [of i ?ns] by (auto simp: has_name_def)
  then have "sorted_names (insert_at j n (remove_at i ?ns))"
    using sorted_insert_at [OF sorted_remove_at [OF sorted]] place by metis
  ultimately have sorted': "sorted_names (subkey_names ?K (qk\<lparr>rk_subkeys := insert_at j p (remove_at i ?xs)\<rparr>))" by simp
  have child: "\<exists>ck. ?K c = Some ck \<and> rk_parent ck = Some r" if "linked_ok K r rk" "c \<in> set (rk_subkeys rk)" for r rk c
  proof -
    from subkey_live [OF that] obtain ck where "K c = Some ck" "rk_parent ck = Some r" .
    then show ?thesis using k qk by (cases "c = p"; cases "c = q") auto
  qed
  have above: "\<exists>sk. ?K s = Some sk \<and> r \<in> set (rk_subkeys sk)" if r: "linked_ok K r rk" "rk_parent rk = Some s" for r rk s
  proof -
    from parent_live [OF r] obtain sk where "K s = Some sk" "r \<in> set (rk_subkeys sk)" .
    then show ?thesis using k qk set_moved moved by (cases "s = p"; cases "s = q") auto
  qed
  have only_q: "p \<in> set (rk_subkeys rk) \<longrightarrow> r = q" if "linked_ok K r rk" for r rk
    using that k by (auto elim: subkey_live)
  have chain: "reg_chain ?K r xs" if "reg_chain K r xs" for r xs
    by (rule reg_chain_cong [OF that]) (use k qk in auto)
  have plain: "linked_ok ?K r rk" if l: "linked_ok K r rk" and "r \<noteq> q" for r rk
  proof (rule linked_ok_frame [OF l])
    fix c assume c: "c \<in> set (rk_subkeys rk)"
    with only_q [OF l] \<open>r \<noteq> q\<close> have "c \<noteq> p" by auto
    from child [OF l c] obtain ck where "?K c = Some ck" "rk_parent ck = Some r" by blast
    moreover have "name_of ?K c = name_of K c" by (rule nm [OF \<open>c \<noteq> p\<close>])
    ultimately show "\<exists>ck. ?K c = Some ck \<and> rk_parent ck = Some r \<and> rk_name ck = name_of K c"
      by (simp add: name_of_def [of ?K])
  qed (rule above [OF l])
  have "linked_ok ?K r rk \<and> key_ok root held r rk \<and> (\<exists>xs. reg_chain ?K r xs)" if rk: "?K r = Some rk" for r rk
  proof -
    consider "r = p" | "r = q" "r \<noteq> p" | "r \<noteq> q" "r \<noteq> p" by blast
    then show ?thesis
    proof cases
      case 1
      have "linked_ok ?K p k" using plain keys_okD(1) [OF ok k(1)] qp by blast
      then have "linked_ok ?K p (k\<lparr>rk_name := n\<rparr>)" by (simp add: linked_ok_def subkey_names_def)
      moreover have "key_ok root held p (k\<lparr>rk_name := n\<rparr>)" using keys_okD(2) [OF ok k(1)] n k(2)
        by (auto simp: key_ok_def values_ok_def value_names_def flagged_def)
      ultimately show ?thesis using 1 rk chain keys_okD(3) [OF ok k(1)] by auto
    next
      case 2
      then have rk': "rk = qk\<lparr>rk_subkeys := insert_at j p (remove_at i ?xs)\<rparr>" using rk moved by simp
      have "\<forall>c\<in>set (rk_subkeys rk). \<exists>ck. ?K c = Some ck \<and> rk_parent ck = Some q"
        using child [OF lq] set_moved rk' by simp
      moreover have "length (rk_subkeys rk) = length ?xs" using ii rk' by (simp add: length_remove_at)
      moreover have "distinct (rk_subkeys rk)" using dist rem rk' by (auto simp: distinct_insert_at distinct_remove_at)
      ultimately have "linked_ok ?K q rk"
        using sorted' lq above [OF lq] unfolding linked_ok_def by (simp add: rk' del: fun_upd_apply)
      moreover have "key_ok root held q rk" using keys_okD(2) [OF ok qk] ii
        by (auto simp: rk' key_ok_def values_ok_def value_names_def flagged_def)
      ultimately show ?thesis using 2 chain keys_okD(3) [OF ok qk] by blast
    next
      case 3
      with rk have "K r = Some rk" by simp
      with keys_okD [OF ok this] plain 3 chain show ?thesis by blast
    qed
  qed
  moreover have "?K root \<noteq> None" "\<forall>r\<in>set held. ?K r \<noteq> None" using ok by (auto simp: keys_ok_def)
  ultimately show ?thesis by (auto simp: keys_ok_def)
qed

section \<open>Lookups end\<close>

lemma reg_okE:
  assumes "reg_ok reg held"
  obtains root where "rg_root reg = Some root" "keys_ok root held (rg_keys reg)"
  using assms by (auto simp: reg_ok_def)

lemma reg_okI: "rg_root reg = Some root \<Longrightarrow> keys_ok root held (rg_keys reg) \<Longrightarrow> reg_ok reg held"
  by (auto simp: reg_ok_def)

lemma reg_ok_linked: "reg_ok reg held \<Longrightarrow> rg_keys reg p = Some k \<Longrightarrow> linked_ok (rg_keys reg) p k"
  by (auto elim: reg_okE dest: keys_okD)

lemma linked_good: "linked_ok (rg_keys reg) p k \<Longrightarrow> subkeys_good (reg, k)"
  by (auto simp: subkeys_good_def linked_ok_def live_subkeys_def)

lemma find_subkey_ok:
  assumes "linked_ok (rg_keys reg) p k"
  shows "horizon_reg_find_subkey reg k n =
    Some (if has_name (subkey_names (rg_keys reg) k) n
          then Some (rk_subkeys k ! name_place (subkey_names (rg_keys reg) k) n) else None,
          name_place (subkey_names (rg_keys reg) k) n)"
  using find_subkey_law [of reg k n] linked_good [OF assms] by (simp add: subkeys_good_def)

lemma find_subkey_cases:
  assumes "linked_ok (rg_keys reg) p k"
  obtains (found) c ck i where "horizon_reg_find_subkey reg k n = Some (Some c, i)" "c \<in> set (rk_subkeys k)"
      "rg_keys reg c = Some ck" "fold_name (rk_name ck) = fold_name n"
    | (missing) "horizon_reg_find_subkey reg k n = Some (None, name_place (subkey_names (rg_keys reg) k) n)"
      "\<not> has_name (subkey_names (rg_keys reg) k) n"
proof (cases "has_name (subkey_names (rg_keys reg) k) n")
  case True
  let ?i = "name_place (subkey_names (rg_keys reg) k) n"
  have "sorted_names (subkey_names (rg_keys reg) k)" using assms by (simp add: linked_ok_def)
  from name_place_hit [OF this True] have i: "?i < length (rk_subkeys k)"
    "fold_name (name_of (rg_keys reg) (rk_subkeys k ! ?i)) = fold_name n" by (simp_all add: subkey_names_def)
  have c: "rk_subkeys k ! ?i \<in> set (rk_subkeys k)" using i(1) by simp
  from subkey_live [OF assms c] i(2) obtain ck where
    "rg_keys reg (rk_subkeys k ! ?i) = Some ck" "fold_name (rk_name ck) = fold_name n" by metis
  then show ?thesis using found [OF _ c] find_subkey_ok [OF assms, of n] True by auto
next
  case False
  then show ?thesis using missing find_subkey_ok [OF assms, of n] by auto
qed

text \<open>What a lookup finds: a key that is not deleted, and a name that is missing below it.\<close>

definition path_good :: "horizon_reg \<Rightarrow> u32 \<Rightarrow> u32 + horizon_reg_path \<Rightarrow> bool" where
  "path_good reg attributes found \<longleftrightarrow>
     (case found of
        Inl status \<Rightarrow> status \<noteq> 0
      | Inr path \<Rightarrow>
          (case rg_keys reg (rp_key path) of
             None \<Rightarrow> False
           | Some k \<Rightarrow>
               \<not> flagged k HORIZON_REG_FLAG_DELETED \<and>
               (case rp_last path of
                  None \<Rightarrow> attributes AND HORIZON_REG_OBJ_OPENLINK = 0 \<longrightarrow> \<not> flagged k HORIZON_REG_FLAG_SYMLINK
                | Some n \<Rightarrow> name_ok n \<and> \<not> has_name (subkey_names (rg_keys reg) k) n)))"

lemma path_goodI: "status \<noteq> 0 \<Longrightarrow> path_good reg attributes (Inl status)"
  by (simp add: path_good_def)

lemma length_skip_backslashes: "length (skip_backslashes n) \<le> length n"
  by (simp add: skip_backslashes_def length_dropWhile_le)

lemma skip_backslashes_idem [simp]: "skip_backslashes (skip_backslashes n) = skip_backslashes n"
  by (simp add: skip_backslashes_def dropWhile_idem)

lemma skip_backslashes_head: "skip_backslashes n \<noteq> [] \<Longrightarrow> hd (skip_backslashes n) \<noteq> BACKSLASH"
  unfolding skip_backslashes_def by (rule hd_dropWhile)

lemma element_pos: "n \<noteq> [] \<Longrightarrow> hd n \<noteq> BACKSLASH \<Longrightarrow> 0 < horizon_reg_element n"
  by (cases n) (auto simp: horizon_reg_element_def)

lemma element_whole: "horizon_reg_element n = length n \<longleftrightarrow> BACKSLASH \<notin> set n"
  by (induction n) (auto simp: horizon_reg_element_def)

lemma take_element: "take (horizon_reg_element n) n = takeWhile (\<lambda>c. c \<noteq> BACKSLASH) n"
  by (simp add: horizon_reg_element_def takeWhile_eq_take [symmetric])

lemma element_name_ok:
  assumes "n \<noteq> []" "hd n \<noteq> BACKSLASH" "horizon_reg_element n \<le> HORIZON_REG_MAX_NAME"
  shows "name_ok (take (horizon_reg_element n) n)"
  using assms unfolding take_element name_ok_def
  by (cases n) (auto simp: horizon_reg_element_def dest: set_takeWhileD)

text \<open>The step at a key that is no link to be followed.\<close>

definition walk_from :: "horizon_reg \<Rightarrow> u32 \<Rightarrow> nat \<Rightarrow> ptr \<Rightarrow> horizon_reg_key \<Rightarrow> u16 list \<Rightarrow> (u32 + horizon_reg_path) option" where
  "walk_from reg attributes links p k name =
     (if name = [] then Some (Inr \<lparr>rp_key = p, rp_last = None\<rparr>)
      else if horizon_reg_element name > HORIZON_REG_MAX_NAME then Some (Inl HORIZON_REG_INVALID_PARAMETER)
      else do { (found, index) \<leftarrow> horizon_reg_find_subkey reg k (take (horizon_reg_element name) name);
                (case found of
                   None \<Rightarrow>
                     if skip_backslashes (drop (horizon_reg_element name) name) \<noteq> [] then Some (Inl HORIZON_REG_NAME_NOT_FOUND)
                     else Some (Inr \<lparr>rp_key = p, rp_last = Some (take (horizon_reg_element name) name)\<rparr>)
                 | Some sub \<Rightarrow> lookup_walk reg attributes links sub (skip_backslashes (drop (horizon_reg_element name) name))) })"

definition followed :: "horizon_reg_key \<Rightarrow> u32 \<Rightarrow> u16 list \<Rightarrow> bool" where
  "followed k attributes name \<longleftrightarrow>
     flagged k HORIZON_REG_FLAG_SYMLINK \<and> (name \<noteq> [] \<or> attributes AND HORIZON_REG_OBJ_OPENLINK = 0)"

lemma lookup_deleted:
  "rg_keys reg p = Some k \<Longrightarrow> flagged k HORIZON_REG_FLAG_DELETED \<Longrightarrow>
     lookup_walk reg attributes links p nm = Some (Inl HORIZON_REG_KEY_DELETED)"
  by (subst lookup_walk.simps) simp

lemma lookup_plain:
  "rg_keys reg p = Some k \<Longrightarrow> \<not> flagged k HORIZON_REG_FLAG_DELETED \<Longrightarrow> \<not> followed k attributes (skip_backslashes nm) \<Longrightarrow>
     lookup_walk reg attributes links p nm = walk_from reg attributes links p k (skip_backslashes nm)"
  by (subst lookup_walk.simps) (simp add: walk_from_def followed_def Let_def)

lemma lookup_link:
  "rg_keys reg p = Some k \<Longrightarrow> \<not> flagged k HORIZON_REG_FLAG_DELETED \<Longrightarrow> followed k attributes (skip_backslashes nm) \<Longrightarrow>
     lookup_walk reg attributes links p nm =
       (case link_target k links of
          None \<Rightarrow> Some (Inl HORIZON_REG_NAME_NOT_FOUND)
        | Some target \<Rightarrow>
            do { start \<leftarrow> lookup_start reg None target;
                 (case start of
                    Inl status \<Rightarrow> Some (Inl status)
                  | Inr (q, rest) \<Rightarrow>
                      do { found \<leftarrow> lookup_walk reg 0 (links + 1) q rest;
                           (case found of
                              Inl status \<Rightarrow> Some (Inl status)
                            | Inr path \<Rightarrow>
                                if rp_last path \<noteq> None then Some (Inl HORIZON_REG_NAME_NOT_FOUND)
                                else lookup_walk reg attributes links (rp_key path) (skip_backslashes nm)) }) })"
  by (subst lookup_walk.simps) (simp add: followed_def Let_def)

definition ends_well :: "horizon_reg \<Rightarrow> u32 \<Rightarrow> (u32 + horizon_reg_path) option \<Rightarrow> bool" where
  "ends_well reg attributes result \<longleftrightarrow> (case result of None \<Rightarrow> False | Some found \<Rightarrow> path_good reg attributes found)"

lemma ends_well_Some [simp]: "ends_well reg attributes (Some found) \<longleftrightarrow> path_good reg attributes found"
  by (simp add: ends_well_def)

lemma walk_from_ends:
  assumes l: "linked_ok (rg_keys reg) p k" and k: "rg_keys reg p = Some k" "\<not> flagged k HORIZON_REG_FLAG_DELETED"
    and follow: "\<not> followed k attributes name" and hd: "name \<noteq> [] \<Longrightarrow> hd name \<noteq> BACKSLASH"
    and IH: "\<And>c ck rest. rg_keys reg c = Some ck \<Longrightarrow> length rest < length name \<Longrightarrow>
      ends_well reg attributes (lookup_walk reg attributes links c rest)"
  shows "ends_well reg attributes (walk_from reg attributes links p k name)"
proof (cases "name = [] \<or> horizon_reg_element name > HORIZON_REG_MAX_NAME")
  case True
  then show ?thesis using k follow by (auto simp: walk_from_def path_good_def followed_def)
next
  case False
  let ?n = "take (horizon_reg_element name) name"
  have len: "length (skip_backslashes (drop (horizon_reg_element name) name)) < length name"
    using length_skip_backslashes [of "drop (horizon_reg_element name) name"] element_pos [of name] False hd
    by (cases name) auto
  from l show ?thesis
  proof (cases rule: find_subkey_cases [where n = ?n])
    case (found c ck i)
    with False IH [OF found(3) len] show ?thesis by (simp add: walk_from_def)
  next
    case missing
    with False element_name_ok [of name] hd k show ?thesis by (simp add: walk_from_def path_good_def)
  qed
qed

lemma lookup_start_cases:
  assumes "reg_ok reg held"
  obtains status where "lookup_start reg None target = Some (Inl status)" "status \<noteq> 0"
    | root rk rest where "lookup_start reg None target = Some (Inr (root, rest))" "rg_root reg = Some root"
      "rg_keys reg root = Some rk"
proof -
  from assms obtain root rk where "rg_root reg = Some root" "rg_keys reg root = Some rk"
    by (elim reg_okE) (auto simp: keys_ok_def)
  moreover from this have "(\<exists>status. lookup_start reg None target = Some (Inl status) \<and> status \<noteq> 0) \<or>
      (\<exists>rest. lookup_start reg None target = Some (Inr (root, rest)))"
    by (simp add: lookup_start_def)
  ultimately show thesis using that by blast
qed

lemma lookup_walk_ends:
  assumes ok: "reg_ok reg held"
  shows "rg_keys reg p = Some k \<Longrightarrow> ends_well reg attributes (lookup_walk reg attributes links p nm)"
proof (induction "16 - links" arbitrary: links attributes p k nm rule: less_induct)
  case outer: less
  note IH_links = outer.hyps
  from outer.prems show ?case
  proof (induction "length nm" arbitrary: p k nm rule: less_induct)
    case (less nm p k)
    let ?name = "skip_backslashes nm"
    have plain: "ends_well reg attributes (lookup_walk reg attributes links q n)"
      if q: "rg_keys reg q = Some qk" "\<not> flagged qk HORIZON_REG_FLAG_DELETED" "\<not> followed qk attributes (skip_backslashes n)"
        and n: "length n \<le> length nm" for q qk and n :: "u16 list"
      unfolding lookup_plain [OF q]
    proof (rule walk_from_ends [OF reg_ok_linked [OF ok q(1)] q])
      fix c ck and rest :: "u16 list" assume "rg_keys reg c = Some ck" "length rest < length (skip_backslashes n)"
      then show "ends_well reg attributes (lookup_walk reg attributes links c rest)"
        using less.hyps n length_skip_backslashes [of n] by (meson le_less_trans less_le_trans)
    qed (rule skip_backslashes_head)
    show ?case
    proof (cases "flagged k HORIZON_REG_FLAG_DELETED")
      case True
      then show ?thesis using lookup_deleted [OF less.prems] by (simp add: path_good_def)
    next
      case False
      note live = this
      show ?thesis
      proof (cases "followed k attributes ?name")
        case False
        with plain [OF less.prems live] show ?thesis by simp
      next
        case True
        note link = lookup_link [OF less.prems live True, of links]
        show ?thesis
        proof (cases "link_target k links")
          case None
          then show ?thesis unfolding link by (simp add: path_good_def)
        next
          case (Some target)
          then have links: "links < 16" by (auto simp: link_target_def split: option.splits if_splits)
          from ok show ?thesis
          proof (cases rule: lookup_start_cases [where target = target])
            case (1 status)
            then show ?thesis unfolding link using Some by (simp add: path_good_def)
          next
            case (2 root rk rest)
            have "ends_well reg 0 (lookup_walk reg 0 (links + 1) root rest)"
              by (rule IH_links [OF _ 2(3)]) (use links in simp)
            then obtain found where found: "lookup_walk reg 0 (links + 1) root rest = Some found" "path_good reg 0 found"
              by (auto simp: ends_well_def split: option.splits)
            show ?thesis
            proof (cases found)
              case (Inl status)
              then show ?thesis unfolding link using Some 2 found by (simp add: path_good_def)
            next
              case (Inr path)
              show ?thesis
              proof (cases "rp_last path")
                case (Some n)
                then show ?thesis unfolding link using \<open>link_target k links = Some target\<close> 2 found Inr
                  by (simp add: path_good_def)
              next
                case None
                with found(2) Inr obtain tk where tk: "rg_keys reg (rp_key path) = Some tk"
                  "\<not> flagged tk HORIZON_REG_FLAG_DELETED" "\<not> flagged tk HORIZON_REG_FLAG_SYMLINK"
                  by (auto simp: path_good_def split: option.splits)
                have "ends_well reg attributes (lookup_walk reg attributes links (rp_key path) ?name)"
                  by (rule plain [OF tk(1,2)]) (use tk(3) length_skip_backslashes in \<open>auto simp: followed_def\<close>)
                then show ?thesis unfolding link using Some 2 found Inr None by simp
              qed
            qed
          qed
        qed
      qed
    qed
  qed
qed

lemma lookup_ends:
  assumes ok: "reg_ok reg held" and base: "\<And>p. base = Some p \<Longrightarrow> rg_keys reg p \<noteq> None"
  shows "ends_well reg attributes (horizon_reg_lookup reg base name attributes links)"
proof (cases base)
  case None
  from ok show ?thesis
  proof (cases rule: lookup_start_cases [where target = name])
    case (1 status)
    then show ?thesis by (simp add: horizon_reg_lookup_def None path_good_def)
  next
    case (2 root rk rest)
    with lookup_walk_ends [OF ok 2(3)] show ?thesis by (simp add: horizon_reg_lookup_def None)
  qed
next
  case (Some p)
  then obtain k where "rg_keys reg p = Some k" using base by auto
  with lookup_walk_ends [OF ok this] Some show ?thesis
    by (simp add: horizon_reg_lookup_def lookup_start_def path_good_def)
qed

lemma lookup_found:
  assumes "reg_ok reg held" "\<And>p. base = Some p \<Longrightarrow> rg_keys reg p \<noteq> None"
  obtains found where "horizon_reg_lookup reg base name attributes links = Some found" "path_good reg attributes found"
proof -
  have "ends_well reg attributes (horizon_reg_lookup reg base name attributes links)"
    by (rule lookup_ends [OF assms(1)]) (rule assms(2))
  then show thesis using that by (auto simp: ends_well_def split: option.splits)
qed

section \<open>The operations keep the invariant\<close>

definition reg_refs_room :: "horizon_reg \<Rightarrow> bool" where
  "reg_refs_room reg \<longleftrightarrow> (\<forall>p k. rg_keys reg p = Some k \<longrightarrow> Suc (unat (rk_refs k)) < 2 ^ 32)"

lemma key_ok_ref:
  assumes "key_ok root held p k" "Suc (unat (rk_refs k)) < 2 ^ 32"
  shows "key_ok root (p # held) p (rk_refs_update (\<lambda>r. r + 1) k)"
proof -
  have "unat (rk_refs k + 1) = Suc (unat (rk_refs k))" using assms(2) by (simp add: unat_word_ariths)
  moreover from this have "rk_refs k + 1 \<noteq> 0" by (metis nat.distinct(1) unat_0)
  ultimately show ?thesis using assms(1) by (simp add: key_ok_def values_ok_def value_names_def flagged_def)
qed

lemma take_ref_ok:
  assumes "reg_ok reg held" "rg_keys reg p = Some k" "Suc (unat (rk_refs k)) < 2 ^ 32"
  shows "\<exists>reg'. take_ref p reg = Some reg' \<and> reg_ok reg' (p # held)"
proof -
  from assms(1) obtain root where root: "rg_root reg = Some root" "keys_ok root held (rg_keys reg)" by (rule reg_okE)
  have "keys_ok root (p # held) ((rg_keys reg)(p \<mapsto> rk_refs_update (\<lambda>r. r + 1) k))"
    by (rule keys_ok_local [OF root(2) assms(2)])
      (use key_ok_ref [OF keys_okD(2) [OF root(2) assms(2)] assms(3)] in auto)
  then show ?thesis using root(1) assms(2) by (simp add: take_ref_def upd_key_def reg_ok_def)
qed

lemma open_ok:
  assumes ok: "reg_ok reg held" and room: "reg_refs_room reg" and base: "\<And>p. base = Some p \<Longrightarrow> rg_keys reg p \<noteq> None"
  shows "\<exists>status ret reg'. horizon_reg_open reg base name attributes = Some (status, ret, reg') \<and>
    reg_ok reg' (case ret of None \<Rightarrow> held | Some p \<Rightarrow> p # held) \<and> (status = 0 \<longleftrightarrow> ret \<noteq> None)"
proof -
  obtain found where found: "horizon_reg_lookup reg base name attributes 0 = Some found" "path_good reg attributes found"
    using lookup_found [OF ok base] by metis
  show ?thesis
  proof (cases "\<exists>path. found = Inr path \<and> rp_last path = None")
    case True
    then obtain path where path: "found = Inr path" "rp_last path = None" by blast
    with found(2) obtain k where k: "rg_keys reg (rp_key path) = Some k" by (auto simp: path_good_def split: option.splits)
    from take_ref_ok [OF ok k] room k obtain reg' where "take_ref (rp_key path) reg = Some reg'" "reg_ok reg' (rp_key path # held)"
      by (auto simp: reg_refs_room_def)
    then show ?thesis using found path by (simp add: horizon_reg_open_def)
  next
    case False
    then show ?thesis using found ok by (auto simp: horizon_reg_open_def path_good_def split: sum.splits)
  qed
qed

lemma finish_key_ok:
  assumes ok: "reg_ok reg held" and k: "rg_keys reg p = Some k" "Suc (unat (rk_refs k)) < 2 ^ 32"
  shows "\<exists>reg'. finish_key p cls status reg = Some (status, Some p, reg') \<and> reg_ok reg' (p # held)"
proof (cases "cls = []")
  case True
  then show ?thesis using take_ref_ok [OF ok k] by (auto simp: finish_key_def)
next
  case False
  let ?reg = "reg\<lparr>rg_keys := (rg_keys reg)(p \<mapsto> rk_class_update (\<lambda>_. cls) k)\<rparr>"
  from ok obtain root where root: "rg_root reg = Some root" "keys_ok root held (rg_keys reg)" by (rule reg_okE)
  have "keys_ok root held ((rg_keys reg)(p \<mapsto> rk_class_update (\<lambda>_. cls) k))"
    by (rule keys_ok_local [OF root(2) k(1)])
      (use keys_okD(2) [OF root(2) k(1)] in \<open>auto simp: key_ok_def values_ok_def value_names_def flagged_def\<close>)
  then have "reg_ok ?reg held" using root(1) by (simp add: reg_ok_def)
  from take_ref_ok [OF this, of p "rk_class_update (\<lambda>_. cls) k"] k False show ?thesis
    by (auto simp: finish_key_def upd_key_def)
qed

text \<open>A touch changes nothing the invariant depends on.\<close>

lemma touch_live:
  assumes "keys_ok root held (rg_keys reg)" "rg_keys reg p = Some k"
  obtains qs where "horizon_reg_touch now p change reg = Some (touched now change p qs reg)"
    "reg_chain (rg_keys reg) p (p # qs)"
proof -
  obtain xs where xs: "reg_chain (rg_keys reg) p xs" using keys_okD(3) [OF assms] by blast
  moreover from reg_chain_head [OF this] obtain qs where "xs = p # qs" by blast
  ultimately show thesis using that [OF touch_eq] by blast
qed

lemma touched_ok: "keys_ok root held (rg_keys reg) \<Longrightarrow> keys_ok root held (rg_keys (touched now change p qs reg))"
  using keys_ok_shape [OF touched_shape] by simp

lemma capacity_grown: "capacity_ok n room \<Longrightarrow> capacity_ok (Suc n) (if n = room then grown room else room)"
  by (auto simp: capacity_ok_def grown_def)

definition new_flags :: "u32 \<Rightarrow> u32" where
  "new_flags options =
     (if options AND HORIZON_REG_OPTION_VOLATILE \<noteq> 0 then HORIZON_REG_FLAG_VOLATILE else 0) OR
     (if options AND HORIZON_REG_OPTION_CREATE_LINK \<noteq> 0 then HORIZON_REG_FLAG_SYMLINK else 0)"

definition created_key :: "u16 list \<Rightarrow> ptr \<Rightarrow> u32 \<Rightarrow> u64 \<Rightarrow> horizon_reg_key" where
  "created_key name parent options now =
     \<lparr>rk_name = name, rk_class = [], rk_parent = Some parent, rk_subkeys = [], rk_subkey_max = 0, rk_values = [],
      rk_value_max = 0, rk_flags = new_flags options, rk_modif = now, rk_refs = 1, rk_notify = []\<rparr>"

definition with_subkey :: "(ptr \<Rightarrow> horizon_reg_key option) \<Rightarrow> u16 list \<Rightarrow> ptr \<Rightarrow> horizon_reg_key \<Rightarrow> horizon_reg_key" where
  "with_subkey K name p pk = pk\<lparr>
     rk_subkey_max := if length (rk_subkeys pk) = rk_subkey_max pk then grown (rk_subkey_max pk) else rk_subkey_max pk,
     rk_subkeys := insert_at (name_place (subkey_names K pk) name) p (rk_subkeys pk)\<rparr>"

lemma created_key_ok:
  assumes "keys_ok root held K" "K p = None" "name_ok name"
  shows "key_ok root held p (created_key name parent options now)"
proof -
  have "p \<notin> set held" using assms by (auto simp: keys_ok_def)
  then have "count_list held p = 0" by (simp add: count_list_0_iff)
  moreover have "p \<noteq> root" using assms by (auto simp: keys_ok_def)
  moreover have "(new_flags options AND 2 = 0)" by (simp add: new_flags_def)
  ultimately show ?thesis using assms(3)
    by (simp add: key_ok_def created_key_def values_ok_def value_names_def sorted_names_def capacity_ok_def flagged_def)
qed

lemma create_missing_eq:
  assumes root: "keys_ok root held (rg_keys reg)" and pk: "rg_keys reg parent = Some pk"
    "\<not> flagged pk HORIZON_REG_FLAG_DELETED" and fresh: "rg_keys reg p = None"
    and name: "name_ok name" "\<not> has_name (subkey_names (rg_keys reg) pk) name"
  shows "create_missing mem p now parent name options reg = Some (HORIZON_REG_NO_MEMORY, reg) \<or>
    (\<exists>qs. let reg1 = reg\<lparr>rg_keys := (rg_keys reg)(parent \<mapsto> with_subkey (rg_keys reg) name p pk,
                                                  p \<mapsto> created_key name parent options now)\<rparr>
     in keys_ok root held (rg_keys reg1) \<and>
        create_missing mem p now parent name options reg = Some (HORIZON_REG_SUCCESS, touched now HORIZON_REG_CHANGE_NAME parent qs reg1))"
proof (cases "horizon_reg_alloc_key mem name now")
  case None
  then show ?thesis by (simp add: create_missing_def)
next
  case (Some k)
  then have k: "k = \<lparr>rk_name = name, rk_class = [], rk_parent = None, rk_subkeys = [], rk_subkey_max = 0,
      rk_values = [], rk_value_max = 0, rk_flags = 0, rk_modif = now, rk_refs = 1, rk_notify = []\<rparr>"
    by (simp add: horizon_reg_alloc_key_def split: if_splits)
  let ?K = "rg_keys reg"
  let ?reg0 = "reg\<lparr>rg_keys := ?K(p \<mapsto> k)\<rparr>"
  have pp: "parent \<noteq> p" using pk fresh by auto
  have l: "linked_ok ?K parent pk" using keys_okD [OF root pk(1)] by blast
  have notin: "p \<notin> set (rk_subkeys pk)" using l fresh by (force elim: subkey_live)
  have names: "subkey_names (?K(p \<mapsto> k)) pk = subkey_names ?K pk"
    using notin by (auto simp: subkey_names_def name_of_def)
  have "sorted_names (subkey_names ?K pk)" "live_subkeys (?K(p \<mapsto> k)) pk"
    using l by (auto simp: linked_ok_def live_subkeys_def)
  then have find: "horizon_reg_find_subkey ?reg0 pk name = Some (None, name_place (subkey_names ?K pk) name)"
    using find_subkey_law [of ?reg0 pk name] name(2) names by simp
  show ?thesis
  proof (cases "length (rk_subkeys pk) = rk_subkey_max pk \<and> \<not> mem Alloc_table")
    case True
    then have link: "horizon_reg_link mem parent p (name_place (subkey_names ?K pk) name) ?reg0 = Some (HORIZON_REG_NO_MEMORY, ?reg0)"
      using pk pp by (simp add: horizon_reg_link_def)
    have "horizon_reg_release p ?reg0 = Some reg"
      using release_last [of ?reg0 p k] k fresh by (simp add: fun_upd_idem)
    then show ?thesis using Some find link pk pp by (simp add: create_missing_def)
  next
    case False
    let ?reg1 = "reg\<lparr>rg_keys := ?K(parent \<mapsto> with_subkey ?K name p pk, p \<mapsto> created_key name parent options now)\<rparr>"
    let ?link = "reg\<lparr>rg_keys := ?K(parent \<mapsto> with_subkey ?K name p pk, p \<mapsto> k\<lparr>rk_parent := Some parent\<rparr>)\<rparr>"
    have link: "horizon_reg_link mem parent p (name_place (subkey_names ?K pk) name) ?reg0 = Some (HORIZON_REG_SUCCESS, ?link)"
      using False pk pp by (auto simp: horizon_reg_link_def upd_key_def with_subkey_def fun_upd_twist)
    have flags: "upd_key p (\<lambda>k. k\<lparr>rk_flags := rk_flags k OR
        (if options AND HORIZON_REG_OPTION_VOLATILE \<noteq> 0 then HORIZON_REG_FLAG_VOLATILE else 0) OR
        (if options AND HORIZON_REG_OPTION_CREATE_LINK \<noteq> 0 then HORIZON_REG_FLAG_SYMLINK else 0)\<rparr>) ?link = Some ?reg1"
      by (simp add: upd_key_def created_key_def k new_flags_def or.assoc)
    have ok1: "keys_ok root held (rg_keys ?reg1)"
    proof -
      have "capacity_ok (length (rk_subkeys pk)) (rk_subkey_max pk)" using l by (simp add: linked_ok_def)
      from keys_ok_link [OF root pk(1) fresh pk(2), of "created_key name parent options now",
          OF _ _ _ created_key_ok [OF root fresh name(1)] _ capacity_grown [OF this]] name(2)
      show ?thesis by (simp add: created_key_def with_subkey_def capacity_ok_def)
    qed
    obtain qs where "horizon_reg_touch now parent HORIZON_REG_CHANGE_NAME ?reg1 = Some (touched now HORIZON_REG_CHANGE_NAME parent qs ?reg1)"
      by (rule touch_live [OF ok1, of parent]) (use pp in auto)
    then have "create_missing mem p now parent name options reg = Some (HORIZON_REG_SUCCESS, touched now HORIZON_REG_CHANGE_NAME parent qs ?reg1)"
      using Some find link flags pk pp by (simp add: create_missing_def)
    then show ?thesis using ok1 by (auto simp: Let_def)
  qed
qed

lemma create_missing_ok:
  assumes ok: "reg_ok reg held" and pk: "rg_keys reg parent = Some pk" "\<not> flagged pk HORIZON_REG_FLAG_DELETED"
    and fresh: "rg_keys reg p = None" and name: "name_ok name" "\<not> has_name (subkey_names (rg_keys reg) pk) name"
  obtains (failed) "create_missing mem p now parent name options reg = Some (HORIZON_REG_NO_MEMORY, reg)"
    | (created) reg' k where "create_missing mem p now parent name options reg = Some (HORIZON_REG_SUCCESS, reg')"
      "reg_ok reg' held" "rg_keys reg' p = Some k" "rk_refs k = 1"
proof -
  from ok obtain root where root: "rg_root reg = Some root" "keys_ok root held (rg_keys reg)" by (rule reg_okE)
  from create_missing_eq [OF root(2) pk fresh name, of mem now options] consider
    "create_missing mem p now parent name options reg = Some (HORIZON_REG_NO_MEMORY, reg)"
    | qs reg1 where "reg1 = reg\<lparr>rg_keys := (rg_keys reg)(parent \<mapsto> with_subkey (rg_keys reg) name p pk,
          p \<mapsto> created_key name parent options now)\<rparr>" "keys_ok root held (rg_keys reg1)"
        "create_missing mem p now parent name options reg = Some (HORIZON_REG_SUCCESS, touched now HORIZON_REG_CHANGE_NAME parent qs reg1)"
    unfolding Let_def by blast
  then show thesis
  proof cases
    case 1
    then show thesis by (rule failed)
  next
    case (2 qs reg1)
    let ?reg' = "touched now HORIZON_REG_CHANGE_NAME parent qs reg1"
    have pp: "p \<noteq> parent" using pk fresh by auto
    have "reg_ok ?reg' held" using touched_ok [OF 2(2)] root(1) by (intro reg_okI) (auto simp: 2(1))
    have new: "rg_keys reg1 p = Some (created_key name parent options now)" by (simp add: 2(1))
    have shape: "same_shape (rg_keys reg1) (rg_keys ?reg')" by (simp add: touched_shape)
    from same_shape_Some [OF shape new] obtain k where k: "rg_keys ?reg' p = Some k"
      "key_shape k = key_shape (created_key name parent options now)" .
    from shape_cong(8) [OF k(2)] have "rk_refs k = 1" by (simp add: created_key_def)
    with k(1) \<open>reg_ok ?reg' held\<close> show thesis using created [OF 2(3)] by blast
  qed
qed

lemma create_ok:
  assumes ok: "reg_ok reg held" and room: "reg_refs_room reg" and base: "\<And>p. base = Some p \<Longrightarrow> rg_keys reg p \<noteq> None"
    and fresh: "rg_keys reg p = None"
  shows "\<exists>status ret reg'. horizon_reg_create mem p now reg base name attributes options class = Some (status, ret, reg') \<and>
    reg_ok reg' (case ret of None \<Rightarrow> held | Some p \<Rightarrow> p # held)"
proof -
  define attrs where "attrs = (if options AND HORIZON_REG_OPTION_CREATE_LINK \<noteq> 0 then attributes OR HORIZON_REG_OBJ_OPENLINK else attributes)"
  obtain found where found: "horizon_reg_lookup reg base name attrs 0 = Some found" "path_good reg attrs found"
    using lookup_found [OF ok base] by metis
  show ?thesis
  proof (cases found)
    case (Inl status)
    then show ?thesis using found ok by (simp add: horizon_reg_create_def attrs_def)
  next
    case (Inr path)
    with found(2) obtain k where k: "rg_keys reg (rp_key path) = Some k" "\<not> flagged k HORIZON_REG_FLAG_DELETED"
      by (auto simp: path_good_def split: option.splits)
    let ?denied = "(rp_last path = None \<and> options AND HORIZON_REG_OPTION_CREATE_LINK \<noteq> 0) \<or>
      (rp_last path \<noteq> None \<and> options AND HORIZON_REG_OPTION_VOLATILE = 0 \<and> flagged k HORIZON_REG_FLAG_VOLATILE) \<or>
      (class \<noteq> [] \<and> \<not> mem Alloc_class)"
    show ?thesis
    proof (cases ?denied)
      case True
      then show ?thesis using found Inr k ok by (auto simp: horizon_reg_create_def attrs_def)
    next
      case False
      show ?thesis
      proof (cases "rp_last path")
        case None
        with finish_key_ok [OF ok k(1), where cls = "class" and status = HORIZON_REG_NAME_EXISTS] room k
        obtain reg' where "finish_key (rp_key path) class HORIZON_REG_NAME_EXISTS reg = Some (HORIZON_REG_NAME_EXISTS, Some (rp_key path), reg')"
          "reg_ok reg' (rp_key path # held)" by (auto simp: reg_refs_room_def)
        then show ?thesis using found Inr k False None by (auto simp: horizon_reg_create_def attrs_def)
      next
        case (Some n)
        with found(2) Inr k have n: "name_ok n" "\<not> has_name (subkey_names (rg_keys reg) k) n"
          by (auto simp: path_good_def)
        from ok k fresh n show ?thesis
        proof (cases rule: create_missing_ok [where mem = mem and now = now and options = options])
          case failed
          then show ?thesis using found Inr k False Some ok by (auto simp: horizon_reg_create_def attrs_def)
        next
          case (created reg1 k1)
          from finish_key_ok [OF created(2,3), where cls = "class" and status = HORIZON_REG_SUCCESS] created(4)
          obtain reg' where "finish_key p class HORIZON_REG_SUCCESS reg1 = Some (HORIZON_REG_SUCCESS, Some p, reg')"
            "reg_ok reg' (p # held)" by auto
          then show ?thesis using found Inr k False Some created(1) by (auto simp: horizon_reg_create_def attrs_def)
        qed
      qed
    qed
  qed
qed

definition deleted_key :: "horizon_reg_key \<Rightarrow> horizon_reg_key" where
  "deleted_key k = k\<lparr>rk_parent := None, rk_flags := rk_flags k OR HORIZON_REG_FLAG_DELETED\<rparr>"

lemma unat_minus_1: "(x :: u32) \<noteq> 0 \<Longrightarrow> unat (x - 1) = unat x - 1"
  by (simp add: unat_sub word_le_nat_alt unat_gt_0 Suc_leI unat_eq_zero)

lemma deleted_key_flagged: "flagged (deleted_key k) HORIZON_REG_FLAG_DELETED"
  by (simp add: deleted_key_def flagged_def bit.conj_disj_distrib2)

text \<open>What is left of a key without subkeys once it is deleted.\<close>

definition left_key :: "horizon_reg_key \<Rightarrow> horizon_reg_key option" where
  "left_key k = (if rk_refs k = 1 then None else Some (rk_refs_update (\<lambda>r. r - 1) (deleted_key k)))"

lemma delete_eq:
  assumes root: "keys_ok root held (rg_keys reg)" and k: "rg_keys reg p = Some k" "\<not> flagged k HORIZON_REG_FLAG_DELETED"
    "rk_parent k = Some q" "rk_subkeys k = []"
  shows "\<exists>qk i reg'. rg_keys reg q = Some qk \<and> index_of (\<lambda>c. c = p) (rk_subkeys qk) = Some i \<and>
    horizon_reg_delete now p reg = Some (HORIZON_REG_SUCCESS, reg') \<and> rg_root reg' = rg_root reg \<and>
    same_shape ((rg_keys reg)(q \<mapsto> qk\<lparr>rk_subkeys := remove_at i (rk_subkeys qk)\<rparr>, p := left_key k)) (rg_keys reg')"
proof -
  let ?K = "rg_keys reg"
  from keys_okD(1) [OF root k(1)] obtain qk where qk: "?K q = Some qk" "p \<in> set (rk_subkeys qk)"
    using k(3) by (rule parent_live)
  from index_of_exists [OF qk(2), of "\<lambda>c. c = p"] obtain i where i: "index_of (\<lambda>c. c = p) (rk_subkeys qk) = Some i" by blast
  let ?qk = "qk\<lparr>rk_subkeys := remove_at i (rk_subkeys qk)\<rparr>"
  have qp: "q \<noteq> p" using not_own_parent [OF root k(1)] k(3) by auto
  let ?reg1 = "reg\<lparr>rg_keys := ?K(q \<mapsto> ?qk, p \<mapsto> deleted_key k)\<rparr>"
  obtain xs where xs: "reg_chain ?K q xs" using keys_okD(3) [OF root qk(1)] by blast
  have pxs: "p \<notin> set xs" by (rule leaf_not_above [OF root k(1,4) xs qp])
  obtain qs where qs: "xs = q # qs" using reg_chain_head [OF xs] by blast
  have "reg_chain (rg_keys ?reg1) q (q # qs)"
    by (rule reg_chain_cong [OF xs [unfolded qs]]) (use pxs qk qs in auto)
  note touch = touch_eq [OF this, of now HORIZON_REG_CHANGE_NAME]
  let ?reg2 = "touched now HORIZON_REG_CHANGE_NAME q qs ?reg1"
  have p2: "rg_keys ?reg2 p = Some (deleted_key k)" using qp pxs qs by (auto simp: touched_keys_def)
  have "rk_subkeys (deleted_key k) = []" "rk_refs (deleted_key k) = rk_refs k" using k by (simp_all add: deleted_key_def)
  then obtain reg' where rel: "horizon_reg_release p ?reg2 = Some reg'" "rg_root reg' = rg_root reg"
    and keys: "rg_keys reg' = (rg_keys ?reg2)(p := left_key k)"
    using release_kept [OF p2] release_last [OF p2] by (cases "rk_refs k = 1") (auto simp: left_key_def)
  have "same_shape (?K(q \<mapsto> ?qk, p := left_key k)) (rg_keys reg')"
    unfolding keys touched_simps using touched_shape [of "rg_keys ?reg1" now HORIZON_REG_CHANGE_NAME q qs]
    by (simp add: same_shape_def)
  moreover have "horizon_reg_delete now p reg = Some (HORIZON_REG_SUCCESS, reg')"
    using k qk i qp touch rel by (simp add: horizon_reg_delete_def upd_key_def deleted_key_def)
  ultimately show ?thesis using qk i rel by blast
qed

lemma delete_ok:
  assumes ok: "reg_ok reg held" and k: "rg_keys reg p = Some k"
  shows "\<exists>status reg'. horizon_reg_delete now p reg = Some (status, reg') \<and> reg_ok reg' held"
proof (cases "flagged k HORIZON_REG_FLAG_DELETED \<or> rk_parent k = None \<or> rk_subkeys k \<noteq> []")
  case True
  then show ?thesis using k ok by (auto simp: horizon_reg_delete_def split: option.splits)
next
  case False
  from ok obtain root where root: "rg_root reg = Some root" "keys_ok root held (rg_keys reg)" by (rule reg_okE)
  from False obtain q where q: "rk_parent k = Some q" by auto
  from delete_eq [OF root(2) k _ q] False obtain qk i reg' where *:
    "rg_keys reg q = Some qk" "index_of (\<lambda>c. c = p) (rk_subkeys qk) = Some i"
    "horizon_reg_delete now p reg = Some (HORIZON_REG_SUCCESS, reg')" "rg_root reg' = rg_root reg"
    "same_shape ((rg_keys reg)(q \<mapsto> qk\<lparr>rk_subkeys := remove_at i (rk_subkeys qk)\<rparr>, p := left_key k)) (rg_keys reg')"
    by blast
  have kok: "key_ok root held p k" "linked_ok (rg_keys reg) p k" using keys_okD [OF root(2) k] by blast+
  then have refs: "unat (rk_refs k) = count_list held p + 1" "rk_refs k \<noteq> 0" using False by (auto simp: key_ok_def)
  have "keys_ok root held ((rg_keys reg)(q \<mapsto> qk\<lparr>rk_subkeys := remove_at i (rk_subkeys qk)\<rparr>, p := left_key k))"
  proof (rule keys_ok_unlink [OF root(2) k q _ *(1,2)])
    show "rk_subkeys k = []" using False by simp
    show "case left_key k of None \<Rightarrow> p \<notin> set held
      | Some k' \<Rightarrow> key_ok root held p k' \<and> rk_parent k' = None \<and> rk_subkeys k' = [] \<and> capacity_ok 0 (rk_subkey_max k')"
    proof (cases "rk_refs k = 1")
      case True
      then show ?thesis using refs by (simp add: left_key_def count_list_0_iff)
    next
      case one: False
      have "unat (rk_refs k - 1) = count_list held p" using unat_minus_1 [OF refs(2)] refs(1) by simp
      moreover have "rk_refs k - 1 \<noteq> 0" using one by simp
      moreover have "flagged (rk_refs_update (\<lambda>r. r - 1) (deleted_key k)) HORIZON_REG_FLAG_DELETED"
        using deleted_key_flagged [of k] by (simp add: flagged_def)
      moreover have "p \<noteq> root" using kok q by (auto simp: key_ok_def)
      ultimately show ?thesis using one kok False
        by (auto simp: left_key_def key_ok_def deleted_key_def values_ok_def value_names_def linked_ok_def capacity_ok_def)
    qed
  qed
  from keys_ok_shape [OF *(5) this] *(3,4) root(1) show ?thesis by (auto simp: reg_ok_def)
qed

lemma rename_eq:
  assumes root: "keys_ok root held (rg_keys reg)" and k: "rg_keys reg p = Some k" "rk_parent k = Some q"
    and qk: "rg_keys reg q = Some qk" and n: "name_ok n" "\<not> has_name (subkey_names (rg_keys reg) qk) n"
    and mem: "mem Alloc_name"
  shows "\<exists>i qs. let K = rg_keys reg;
      reg1 = reg\<lparr>rg_keys := K(q \<mapsto> qk\<lparr>rk_subkeys := move_entry i (name_place (subkey_names K qk) n) p (rk_subkeys qk)\<rparr>,
                             p \<mapsto> k\<lparr>rk_name := n\<rparr>)\<rparr>
    in index_of (\<lambda>c. c = p) (rk_subkeys qk) = Some i \<and> keys_ok root held (rg_keys reg1) \<and>
       horizon_reg_rename mem now p n reg = Some (HORIZON_REG_SUCCESS, touched now HORIZON_REG_CHANGE_NAME p qs reg1)"
proof -
  let ?K = "rg_keys reg"
  have qp: "q \<noteq> p" using not_own_parent [OF root k(1)] k(2) by auto
  from keys_okD(1) [OF root k(1)] have "p \<in> set (rk_subkeys qk)" using k(2) qk by (auto elim: parent_live)
  from index_of_exists [OF this, of "\<lambda>c. c = p"] obtain i where i: "index_of (\<lambda>c. c = p) (rk_subkeys qk) = Some i" by blast
  let ?reg1 = "reg\<lparr>rg_keys := ?K(q \<mapsto> qk\<lparr>rk_subkeys := move_entry i (name_place (subkey_names ?K qk) n) p (rk_subkeys qk)\<rparr>,
                   p \<mapsto> k\<lparr>rk_name := n\<rparr>)\<rparr>"
  have ok1: "keys_ok root held (rg_keys ?reg1)" using keys_ok_rename [OF root k qk i n] by simp
  obtain qs where touch: "horizon_reg_touch now p HORIZON_REG_CHANGE_NAME ?reg1 = Some (touched now HORIZON_REG_CHANGE_NAME p qs ?reg1)"
    by (rule touch_live [OF ok1, of p]) auto
  have find: "horizon_reg_find_subkey reg qk n = Some (None, name_place (subkey_names ?K qk) n)"
    using find_subkey_ok [OF keys_okD(1) [OF root qk], of n] n(2) by simp
  have "n \<noteq> []" "horizon_reg_element n = length n" "length n \<le> HORIZON_REG_MAX_NAME"
    using n(1) by (auto simp: name_ok_def element_whole)
  then have "horizon_reg_rename mem now p n reg = Some (HORIZON_REG_SUCCESS, touched now HORIZON_REG_CHANGE_NAME p qs ?reg1)"
    using k qk qp i find mem touch by (simp add: horizon_reg_rename_def upd_key_def)
  then show ?thesis using i ok1 unfolding Let_def by blast
qed

lemma rename_ok:
  assumes ok: "reg_ok reg held" and k: "rg_keys reg p = Some k"
  shows "\<exists>status reg'. horizon_reg_rename mem now p n reg = Some (status, reg') \<and> reg_ok reg' held"
proof -
  from ok obtain root where root: "rg_root reg = Some root" "keys_ok root held (rg_keys reg)" by (rule reg_okE)
  let ?bad = "n = [] \<or> horizon_reg_element n \<noteq> length n \<or> length n > HORIZON_REG_MAX_NAME"
  show ?thesis
  proof (cases "?bad \<or> rk_parent k = None")
    case True
    then show ?thesis using k ok by (auto simp: horizon_reg_rename_def)
  next
    case False
    then obtain q where q: "rk_parent k = Some q" by auto
    from keys_okD(1) [OF root(2) k] q obtain qk where qk: "rg_keys reg q = Some qk" by (rule parent_live)
    have n: "name_ok n" using False by (simp add: name_ok_def element_whole)
    show ?thesis
    proof (cases "has_name (subkey_names (rg_keys reg) qk) n \<or> \<not> mem Alloc_name")
      case True
      then show ?thesis using False k q qk ok find_subkey_ok [OF keys_okD(1) [OF root(2) qk], of n]
        by (auto simp: horizon_reg_rename_def)
    next
      case new: False
      from rename_eq [where mem = mem and now = now, OF root(2) k q qk n] new obtain i qs reg1 where
        reg1: "reg1 = reg\<lparr>rg_keys := (rg_keys reg)(q \<mapsto> qk\<lparr>rk_subkeys :=
            move_entry i (name_place (subkey_names (rg_keys reg) qk) n) p (rk_subkeys qk)\<rparr>, p \<mapsto> k\<lparr>rk_name := n\<rparr>)\<rparr>"
        "keys_ok root held (rg_keys reg1)"
        "horizon_reg_rename mem now p n reg = Some (HORIZON_REG_SUCCESS, touched now HORIZON_REG_CHANGE_NAME p qs reg1)"
        unfolding Let_def by blast
      have "reg_ok (touched now HORIZON_REG_CHANGE_NAME p qs reg1) held"
        using touched_ok [OF reg1(2)] root(1) by (intro reg_okI) (auto simp: reg1(1))
      then show ?thesis using reg1(3) by blast
    qed
  qed
qed

section \<open>Values\<close>

text \<open>The value of a key under a name.\<close>

definition value_map :: "horizon_reg_key \<Rightarrow> u16 list \<Rightarrow> (u32 \<times> u8 list) option" where
  "value_map k n = map_option (\<lambda>v. (rv_type v, rv_data v)) (List.find (\<lambda>v. fold_name (rv_name v) = n) (rk_values k))"

lemma find_by_name:
  assumes "sorted_names (value_names k)" "i < length (rk_values k)" "fold_name (rv_name (rk_values k ! i)) = n"
  shows "List.find (\<lambda>v. fold_name (rv_name v) = n) (rk_values k) = Some (rk_values k ! i)"
proof -
  have "\<not> fold_name (rv_name (rk_values k ! j)) = n" if "j < i" for j
    using sorted_names_nth [OF assms(1) that] assms(2,3) that by (auto simp: value_names_def)
  then show ?thesis using assms(2,3) by (auto simp: find_Some_iff intro!: exI [of _ i])
qed

lemma value_map_Some:
  assumes "sorted_names (value_names k)" "i < length (rk_values k)" "fold_name (rv_name (rk_values k ! i)) = n"
  shows "value_map k n = Some (rv_type (rk_values k ! i), rv_data (rk_values k ! i))"
  using find_by_name [OF assms] by (simp add: value_map_def)

lemma value_map_None: "value_map k (fold_name n) = None \<longleftrightarrow> \<not> has_name (value_names k) n"
  by (auto simp: value_map_def find_None_iff has_name_def value_names_def)

lemma get_value_map:
  assumes "sorted_names (value_names k)"
  shows "horizon_reg_get_value k n room =
    (case value_map k (fold_name n) of
       None \<Rightarrow> Inl HORIZON_REG_NAME_NOT_FOUND
     | Some (ty, data) \<Rightarrow> Inr (ty, length data, take room data))"
proof (cases "has_name (value_names k) n")
  case True
  have "name_place (value_names k) n < length (rk_values k)"
    "fold_name (rv_name (rk_values k ! name_place (value_names k) n)) = fold_name n"
    using name_place_hit [OF assms True] by (simp_all add: value_names_def)
  from value_map_Some [OF assms this] True show ?thesis
    by (simp add: horizon_reg_get_value_def find_value_law [OF assms])
next
  case False
  then show ?thesis using value_map_None [of k n] by (simp add: horizon_reg_get_value_def find_value_law [OF assms])
qed

lemma value_map_iff:
  assumes "sorted_names (value_names k)"
  shows "value_map k n = Some x \<longleftrightarrow> (\<exists>v\<in>set (rk_values k). fold_name (rv_name v) = n \<and> x = (rv_type v, rv_data v))"
proof
  assume "value_map k n = Some x"
  then show "\<exists>v\<in>set (rk_values k). fold_name (rv_name v) = n \<and> x = (rv_type v, rv_data v)"
    by (auto simp: value_map_def dest: find_mem)
next
  assume "\<exists>v\<in>set (rk_values k). fold_name (rv_name v) = n \<and> x = (rv_type v, rv_data v)"
  then obtain i where "i < length (rk_values k)" "fold_name (rv_name (rk_values k ! i)) = n"
    "x = (rv_type (rk_values k ! i), rv_data (rk_values k ! i))" by (metis in_set_conv_nth)
  with value_map_Some [OF assms this(1,2)] show "value_map k n = Some x" by simp
qed

lemma option_eqI: "(\<And>x. a = Some x \<longleftrightarrow> b = Some x) \<Longrightarrow> a = b"
  by (metis not_Some_eq)

text \<open>The values of a sorted table other than one.\<close>

lemma other_values:
  assumes "sorted_names (value_names k)" "i < length (rk_values k)"
  shows "{v \<in> set (rk_values k). fold_name (rv_name v) \<noteq> fold_name (rv_name (rk_values k ! i))} =
    {rk_values k ! j | j. j < length (rk_values k) \<and> j \<noteq> i}"
proof -
  have "fold_name (rv_name (rk_values k ! j)) \<noteq> fold_name (rv_name (rk_values k ! i))"
    if "j < length (rk_values k)" "j \<noteq> i" for j
    using sorted_names_inj [OF assms(1), of j i] that assms(2) by (auto simp: value_names_def)
  then show ?thesis by (auto simp: in_set_conv_nth)
qed

lemma set_update_others: "i < length xs \<Longrightarrow> set (xs[i := x]) = insert x {xs ! j | j. j < length xs \<and> j \<noteq> i}"
  by (auto simp: set_conv_nth nth_list_update)

lemma set_remove_others:
  assumes "i < length xs"
  shows "set (remove_at i xs) = {xs ! j | j. j < length xs \<and> j \<noteq> i}"
proof (rule set_eqI, rule iffI)
  fix x assume "x \<in> set (remove_at i xs)"
  then obtain m where "m < length xs - 1" "x = remove_at i xs ! m"
    using assms by (auto simp: in_set_conv_nth length_remove_at)
  then have "x = xs ! (if m < i then m else Suc m)" "(if m < i then m else Suc m) < length xs"
    "(if m < i then m else Suc m) \<noteq> i"
    using assms by (auto simp: nth_remove_at)
  then show "x \<in> {xs ! j | j. j < length xs \<and> j \<noteq> i}" by blast
next
  fix x assume "x \<in> {xs ! j | j. j < length xs \<and> j \<noteq> i}"
  then obtain j where j: "j < length xs" "j \<noteq> i" "x = xs ! j" by blast
  define m where "m = (if j < i then j else j - 1)"
  have m: "m < length xs - 1" "(if m < i then m else Suc m) = j" using j assms by (auto simp: m_def)
  then have "x = remove_at i xs ! m" using nth_remove_at [OF assms m(1)] j(3) by simp
  then show "x \<in> set (remove_at i xs)" using m(1) assms by (simp add: length_remove_at)
qed

lemma value_map_update:
  assumes "sorted_names (value_names k)" "sorted_names (value_names k')"
    and "set (rk_values k') = insert v {w \<in> set (rk_values k). fold_name (rv_name w) \<noteq> fold_name (rv_name v)}"
  shows "value_map k' = (value_map k)(fold_name (rv_name v) \<mapsto> (rv_type v, rv_data v))"
  by (rule ext, rule option_eqI) (auto simp: value_map_iff [OF assms(1)] value_map_iff [OF assms(2)] assms(3))

lemma value_map_remove:
  assumes "sorted_names (value_names k)" "sorted_names (value_names k')"
    and "set (rk_values k') = {w \<in> set (rk_values k). fold_name (rv_name w) \<noteq> n}"
  shows "value_map k' = (value_map k)(n := None)"
  by (rule ext, rule option_eqI) (auto simp: value_map_iff [OF assms(1)] value_map_iff [OF assms(2)] assms(3))

text \<open>A value that is there gets new contents.\<close>

lemma store_value_ok:
  assumes k: "values_ok k" and i: "i < length (rk_values k)" "fold_name (rv_name (rk_values k ! i)) = n"
  shows "values_ok (store_value i ty data k)" "value_map (store_value i ty data k) = (value_map k)(n \<mapsto> (ty, data))"
proof -
  let ?v = "(rk_values k ! i)\<lparr>rv_type := ty, rv_data := data\<rparr>"
  have sorted: "sorted_names (value_names k)" using k by (simp add: values_ok_def)
  have "map rv_name ((rk_values k)[i := ?v]) = map rv_name (rk_values k)" using i
    by (simp add: map_update list_update_same_conv)
  then have names: "value_names (store_value i ty data k) = value_names k" by (simp add: store_value_def value_names_def)
  have vals: "set (rk_values (store_value i ty data k)) =
      insert ?v {w \<in> set (rk_values k). fold_name (rv_name w) \<noteq> fold_name (rv_name ?v)}"
    using set_update_others [OF i(1)] other_values [OF sorted i(1)] by (simp add: store_value_def)
  have "capacity_ok (length (rk_values k)) (rk_value_max k)" "\<forall>v\<in>set (rk_values k). length (rv_name v) \<le> HORIZON_REG_MAX_VALUE"
    using k by (simp_all add: values_ok_def)
  then show "values_ok (store_value i ty data k)" using sorted i(1) vals
    unfolding values_ok_def names by (auto simp: store_value_def)
  show "value_map (store_value i ty data k) = (value_map k)(n \<mapsto> (ty, data))"
    using value_map_update [OF sorted _ vals] i(2) sorted names by simp
qed

lemma insert_value_ok:
  assumes k: "values_ok k" and new: "\<not> has_name (value_names k) n"
    and ins: "horizon_reg_insert_value mem k n (name_place (value_names k) n) = (0, k')"
  shows "values_ok k'" "name_place (value_names k) n < length (rk_values k')"
    "rv_name (rk_values k' ! name_place (value_names k) n) = n"
    "value_map k' = (value_map k)(fold_name n \<mapsto> (HORIZON_REG_NONE, []))"
proof -
  let ?i = "name_place (value_names k) n" and ?v = "\<lparr>rv_name = n, rv_type = HORIZON_REG_NONE, rv_data = []\<rparr>"
  from ins have n: "length n \<le> HORIZON_REG_MAX_VALUE" and k': "rk_values k' = insert_at ?i ?v (rk_values k)"
    "rk_value_max k' = (if length (rk_values k) = rk_value_max k then grown (rk_value_max k) else rk_value_max k)"
    by (auto simp: horizon_reg_insert_value_def Let_def split: if_splits)
  have sorted: "sorted_names (value_names k)" using k by (simp add: values_ok_def)
  have "value_names k' = insert_at ?i n (value_names k)" by (simp add: k' value_names_def)
  then have sorted': "sorted_names (value_names k')" using sorted_insert_at [OF sorted new] by simp
  have "capacity_ok (length (rk_values k')) (rk_value_max k')"
    using k capacity_grown [of "length (rk_values k)" "rk_value_max k"] by (simp add: k' values_ok_def)
  moreover have "\<forall>v\<in>set (rk_values k'). length (rv_name v) \<le> HORIZON_REG_MAX_VALUE"
    using k n by (auto simp: k' values_ok_def)
  ultimately show "values_ok k'" using sorted' by (simp add: values_ok_def)
  have i: "?i \<le> length (rk_values k)" using name_place_le [of "value_names k" n] by (simp add: value_names_def)
  then show "?i < length (rk_values k')" "rv_name (rk_values k' ! ?i) = n"
    by (simp_all add: k' insert_at_def nth_append)
  have "set (rk_values k') = insert ?v {w \<in> set (rk_values k). fold_name (rv_name w) \<noteq> fold_name (rv_name ?v)}"
    using new by (auto simp: k' has_name_def value_names_def)
  from value_map_update [OF sorted sorted' this] show "value_map k' = (value_map k)(fold_name n \<mapsto> (HORIZON_REG_NONE, []))"
    by simp
qed

lemma remove_value_ok:
  assumes k: "values_ok k" and i: "i < length (rk_values k)" "fold_name (rv_name (rk_values k ! i)) = n"
  shows "values_ok (k\<lparr>rk_values := remove_at i (rk_values k)\<rparr>)"
    "value_map (k\<lparr>rk_values := remove_at i (rk_values k)\<rparr>) = (value_map k)(n := None)"
proof -
  have sorted: "sorted_names (value_names k)" using k by (simp add: values_ok_def)
  have sorted': "sorted_names (value_names (k\<lparr>rk_values := remove_at i (rk_values k)\<rparr>))"
    using sorted by (simp add: value_names_def sorted_subtable)
  show "values_ok (k\<lparr>rk_values := remove_at i (rk_values k)\<rparr>)"
    using k sorted' i(1) set_remove_at_subset [of i "rk_values k"]
    by (auto simp: values_ok_def capacity_ok_def length_remove_at)
  show "value_map (k\<lparr>rk_values := remove_at i (rk_values k)\<rparr>) = (value_map k)(n := None)"
    by (rule value_map_remove [OF sorted sorted'])
      (use set_remove_others [OF i(1)] other_values [OF sorted i(1)] i(2) in simp)
qed

text \<open>Only the table of values differs.\<close>

definition values_only :: "horizon_reg_key \<Rightarrow> horizon_reg_key \<Rightarrow> bool" where
  "values_only k k' \<longleftrightarrow> k'\<lparr>rk_values := [], rk_value_max := 0\<rparr> = k\<lparr>rk_values := [], rk_value_max := 0\<rparr>"

lemma values_onlyD:
  assumes "values_only k k'"
  shows "rk_name k' = rk_name k" "rk_parent k' = rk_parent k" "rk_subkeys k' = rk_subkeys k"
    "rk_subkey_max k' = rk_subkey_max k" "rk_flags k' = rk_flags k" "rk_refs k' = rk_refs k"
    "rk_class k' = rk_class k" "rk_notify k' = rk_notify k"
  using arg_cong [OF assms [unfolded values_only_def], of rk_name] arg_cong [OF assms [unfolded values_only_def], of rk_parent]
    arg_cong [OF assms [unfolded values_only_def], of rk_subkeys] arg_cong [OF assms [unfolded values_only_def], of rk_subkey_max]
    arg_cong [OF assms [unfolded values_only_def], of rk_flags] arg_cong [OF assms [unfolded values_only_def], of rk_refs]
    arg_cong [OF assms [unfolded values_only_def], of rk_class] arg_cong [OF assms [unfolded values_only_def], of rk_notify]
  by simp_all

lemma values_only_refl [simp]: "values_only k k"
  by (simp add: values_only_def)

lemma values_only_trans: "values_only k l \<Longrightarrow> values_only l m \<Longrightarrow> values_only k m"
  by (simp add: values_only_def)

lemma values_only_store [simp]: "values_only k (store_value i ty data k)" "values_only k (k\<lparr>rk_values := vs\<rparr>)"
  by (simp_all add: values_only_def store_value_def)

lemma insert_value_only: "horizon_reg_insert_value mem k n i = (status, k') \<Longrightarrow> values_only k k'"
  by (auto simp: horizon_reg_insert_value_def Let_def values_only_def split: if_splits)

lemma insert_value_failed:
  assumes "horizon_reg_insert_value mem k n i = (status, k')" "status \<noteq> 0" "values_ok k"
  shows "values_ok k'" "value_map k' = value_map k"
  using assms capacity_grown [of "length (rk_values k)" "rk_value_max k"]
  by (auto simp: horizon_reg_insert_value_def Let_def values_ok_def value_names_def value_map_def capacity_ok_def fun_eq_iff
      split: if_splits)

lemma keys_ok_values:
  assumes ok: "keys_ok root held K" and k: "K p = Some k" and k': "values_only k k'" "values_ok k'"
  shows "keys_ok root held (K(p \<mapsto> k'))"
  by (rule keys_ok_local [OF ok k]) (use values_onlyD [OF k'(1)] keys_okD(2) [OF ok k] k'(2) in \<open>auto simp: key_ok_def flagged_def\<close>)

text \<open>The three outcomes of setting a value: nothing to do, an error that leaves the values alone, and the change.\<close>

lemma set_value_cases:
  assumes root: "keys_ok root held (rg_keys reg)" and k: "rg_keys reg p = Some k"
  obtains (same) "horizon_reg_set_value mem now p n ty data reg = Some (HORIZON_REG_SUCCESS, reg)"
      "value_map k (fold_name n) = Some (ty, data)"
    | (failed) status k' where "horizon_reg_set_value mem now p n ty data reg =
        Some (status, reg\<lparr>rg_keys := (rg_keys reg)(p \<mapsto> k')\<rparr>)" "status \<noteq> 0" "values_only k k'" "values_ok k'"
      "value_map k' = value_map k"
    | (stored) k' qs where "horizon_reg_set_value mem now p n ty data reg =
        Some (HORIZON_REG_SUCCESS, touched now HORIZON_REG_CHANGE_LAST_SET p qs (reg\<lparr>rg_keys := (rg_keys reg)(p \<mapsto> k')\<rparr>))"
      "values_only k k'" "values_ok k'" "value_map k' = (value_map k)(fold_name n \<mapsto> (ty, data))"
      "reg_chain (rg_keys reg) p (p # qs)" "value_map k (fold_name n) \<noteq> Some (ty, data)"
proof -
  have vok: "values_ok k" using keys_okD(2) [OF root k] by (simp add: key_ok_def)
  then have sorted: "sorted_names (value_names k)" by (simp add: values_ok_def)
  let ?i = "name_place (value_names k) n"
  have store: thesis
    if k1: "values_only k k1" "values_ok k1" "?i < length (rk_values k1)" "fold_name (rv_name (rk_values k1 ! ?i)) = fold_name n"
      "\<And>x. (value_map k1)(fold_name n \<mapsto> x) = (value_map k)(fold_name n \<mapsto> x)"
    and eq: "\<And>reg'. horizon_reg_touch now p HORIZON_REG_CHANGE_LAST_SET
        (reg\<lparr>rg_keys := (rg_keys reg)(p \<mapsto> store_value ?i ty data k1)\<rparr>) = Some reg' \<Longrightarrow>
        horizon_reg_set_value mem now p n ty data reg = Some (HORIZON_REG_SUCCESS, reg')"
    and other: "value_map k (fold_name n) \<noteq> Some (ty, data)" for k1
  proof -
    let ?k = "store_value ?i ty data k1"
    have k': "values_only k ?k" "values_ok ?k" using values_only_trans [OF k1(1)] store_value_ok(1) [OF k1(2-4)] by auto
    have "keys_ok root held (rg_keys (reg\<lparr>rg_keys := (rg_keys reg)(p \<mapsto> ?k)\<rparr>))" using keys_ok_values [OF root k k'] by simp
    then obtain qs where qs: "horizon_reg_touch now p HORIZON_REG_CHANGE_LAST_SET (reg\<lparr>rg_keys := (rg_keys reg)(p \<mapsto> ?k)\<rparr>) =
        Some (touched now HORIZON_REG_CHANGE_LAST_SET p qs (reg\<lparr>rg_keys := (rg_keys reg)(p \<mapsto> ?k)\<rparr>))"
      "reg_chain (rg_keys (reg\<lparr>rg_keys := (rg_keys reg)(p \<mapsto> ?k)\<rparr>)) p (p # qs)"
      by (rule touch_live [where p = p and k = ?k]) auto
    have "reg_chain (rg_keys reg) p (p # qs)"
      by (rule reg_chain_cong [OF qs(2)]) (use values_onlyD(2) [OF k'(1)] k in auto)
    then show thesis using stored [OF eq [OF qs(1)] k'] store_value_ok(2) [OF k1(2-4)] k1(5) other by simp
  qed
  have find: "horizon_reg_find_value k n = (if has_name (value_names k) n then Some (rk_values k ! ?i) else None, ?i)"
    by (rule find_value_law [OF sorted])
  let ?denied = "flagged k HORIZON_REG_FLAG_SYMLINK \<and>
     (ty \<noteq> HORIZON_REG_LINK \<or> horizon_reg_compare n horizon_reg_symlink_value \<noteq> 0) \<or> data \<noteq> [] \<and> \<not> mem Alloc_data"
  have keep: "reg\<lparr>rg_keys := (rg_keys reg)(p \<mapsto> k)\<rparr> = reg" using k by (simp add: fun_upd_idem)
  have denied: thesis if den: "?denied"
    and other: "\<not> (has_name (value_names k) n \<and> rv_type (rk_values k ! ?i) = ty \<and> rv_data (rk_values k ! ?i) = data)"
  proof (cases "flagged k HORIZON_REG_FLAG_SYMLINK \<and>
      (ty \<noteq> HORIZON_REG_LINK \<or> horizon_reg_compare n horizon_reg_symlink_value \<noteq> 0)")
    case True
    then have "horizon_reg_set_value mem now p n ty data reg = Some (HORIZON_REG_ACCESS_DENIED, reg)"
      using k find other by (simp add: horizon_reg_set_value_def)
    then show thesis using failed [of _ k] keep vok by simp
  next
    case False
    with den have "data \<noteq> []" "\<not> mem Alloc_data" by blast+
    with False have "horizon_reg_set_value mem now p n ty data reg = Some (HORIZON_REG_NO_MEMORY, reg)"
      using k find other by (simp add: horizon_reg_set_value_def)
    then show thesis using failed [of _ k] keep vok by simp
  qed
  show thesis
  proof (cases "has_name (value_names k) n")
    case True
    have i: "?i < length (rk_values k)" "fold_name (rv_name (rk_values k ! ?i)) = fold_name n"
      using name_place_hit [OF sorted True] by (simp_all add: value_names_def)
    note val = value_map_Some [OF sorted i]
    show thesis
    proof (cases "rv_type (rk_values k ! ?i) = ty \<and> rv_data (rk_values k ! ?i) = data")
      case same_value: True
      then show thesis using same k find True val by (simp add: horizon_reg_set_value_def)
    next
      case other: False
      show thesis
      proof (cases ?denied)
        case True
        then show thesis using denied other by blast
      next
        case False
        show thesis
          by (rule store [of k])
            (use vok i False other find True k val in \<open>auto simp: horizon_reg_set_value_def upd_key_def\<close>)
      qed
    qed
  next
    case new: False
    show thesis
    proof (cases ?denied)
      case True
      then show thesis using denied new by blast
    next
      case False
      obtain status k1 where ins: "horizon_reg_insert_value mem k n ?i = (status, k1)" by fastforce
      show thesis
      proof (cases "status = 0")
        case True
        note ins0 = insert_value_ok [OF vok new ins [unfolded True]]
        show thesis
          by (rule store [of k1])
            (use ins0 insert_value_only [OF ins] False new find ins True k value_map_None [of k n]
              in \<open>auto simp: horizon_reg_set_value_def upd_key_def\<close>)
      next
        case bad: False
        have "horizon_reg_set_value mem now p n ty data reg = Some (status, reg\<lparr>rg_keys := (rg_keys reg)(p \<mapsto> k1)\<rparr>)"
          using False new find ins bad k by (auto simp: horizon_reg_set_value_def upd_key_def)
        then show thesis using failed [OF _ bad insert_value_only [OF ins] insert_value_failed [OF ins bad vok]] by blast
      qed
    qed
  qed
qed

lemma delete_value_cases:
  assumes root: "keys_ok root held (rg_keys reg)" and k: "rg_keys reg p = Some k"
  obtains (missing) "horizon_reg_delete_value now p n reg = Some (HORIZON_REG_NAME_NOT_FOUND, reg)"
      "value_map k (fold_name n) = None"
    | (removed) k' qs where "horizon_reg_delete_value now p n reg =
        Some (HORIZON_REG_SUCCESS, touched now HORIZON_REG_CHANGE_LAST_SET p qs (reg\<lparr>rg_keys := (rg_keys reg)(p \<mapsto> k')\<rparr>))"
      "values_only k k'" "values_ok k'" "value_map k' = (value_map k)(fold_name n := None)" "value_map k (fold_name n) \<noteq> None"
proof -
  have vok: "values_ok k" using keys_okD(2) [OF root k] by (simp add: key_ok_def)
  then have sorted: "sorted_names (value_names k)" by (simp add: values_ok_def)
  let ?i = "name_place (value_names k) n"
  note find = find_value_law [OF sorted, of n]
  show thesis
  proof (cases "has_name (value_names k) n")
    case False
    then show thesis using missing k find value_map_None [of k n] by (simp add: horizon_reg_delete_value_def)
  next
    case True
    have i: "?i < length (rk_values k)" "fold_name (rv_name (rk_values k ! ?i)) = fold_name n"
      using name_place_hit [OF sorted True] by (simp_all add: value_names_def)
    let ?k = "k\<lparr>rk_values := remove_at ?i (rk_values k)\<rparr>" and ?reg = "reg\<lparr>rg_keys := (rg_keys reg)(p \<mapsto> k\<lparr>rk_values := remove_at ?i (rk_values k)\<rparr>)\<rparr>"
    note rem = remove_value_ok [OF vok i]
    have "keys_ok root held (rg_keys ?reg)" using keys_ok_values [OF root k _ rem(1)] by simp
    then obtain qs where "horizon_reg_touch now p HORIZON_REG_CHANGE_LAST_SET ?reg = Some (touched now HORIZON_REG_CHANGE_LAST_SET p qs ?reg)"
      by (rule touch_live [where p = p and k = ?k]) auto
    then have "horizon_reg_delete_value now p n reg = Some (HORIZON_REG_SUCCESS, touched now HORIZON_REG_CHANGE_LAST_SET p qs ?reg)"
      using k find True by (simp add: horizon_reg_delete_value_def upd_key_def)
    then show thesis using removed rem value_map_None [of k n] True by simp
  qed
qed

lemma touched_values_ok:
  assumes "rg_root reg = Some root" "keys_ok root held (rg_keys reg)" "rg_keys reg p = Some k" "values_only k k'" "values_ok k'"
  shows "reg_ok (touched now change p qs (reg\<lparr>rg_keys := (rg_keys reg)(p \<mapsto> k')\<rparr>)) held"
  by (rule reg_okI, simp add: assms(1), rule touched_ok) (use keys_ok_values [OF assms(2-5)] in simp)

lemma set_value_ok:
  assumes ok: "reg_ok reg held" and k: "rg_keys reg p = Some k"
  shows "\<exists>status reg'. horizon_reg_set_value mem now p n ty data reg = Some (status, reg') \<and> reg_ok reg' held"
proof -
  from ok obtain root where root: "rg_root reg = Some root" "keys_ok root held (rg_keys reg)" by (rule reg_okE)
  from root(2) k show ?thesis
  proof (cases rule: set_value_cases [where mem = mem and now = now and n = n and ty = ty and data = data])
    case same
    then show ?thesis using ok by blast
  next
    case (failed status k')
    have "reg_ok (reg\<lparr>rg_keys := (rg_keys reg)(p \<mapsto> k')\<rparr>) held"
      by (rule reg_okI [of _ root]) (use root keys_ok_values [OF root(2) k failed(3,4)] in auto)
    then show ?thesis using failed(1) by blast
  next
    case (stored k' qs)
    then show ?thesis using touched_values_ok [OF root k stored(2,3)] by blast
  qed
qed

lemma delete_value_ok:
  assumes ok: "reg_ok reg held" and k: "rg_keys reg p = Some k"
  shows "\<exists>status reg'. horizon_reg_delete_value now p n reg = Some (status, reg') \<and> reg_ok reg' held"
proof -
  from ok obtain root where root: "rg_root reg = Some root" "keys_ok root held (rg_keys reg)" by (rule reg_okE)
  from root(2) k show ?thesis
  proof (cases rule: delete_value_cases [where now = now and n = n])
    case missing
    then show ?thesis using ok by blast
  next
    case (removed k' qs)
    then show ?thesis using touched_values_ok [OF root k removed(2,3)] by blast
  qed
qed

section \<open>Watching and closing\<close>

lemma shape_reg_ok: "reg_ok reg held \<Longrightarrow> rg_root reg' = rg_root reg \<Longrightarrow> same_shape (rg_keys reg) (rg_keys reg') \<Longrightarrow> reg_ok reg' held"
  by (auto simp: reg_ok_def intro: keys_ok_shape)

lemma notify_ok:
  assumes ok: "reg_ok reg held" and k: "rg_keys reg p = Some k"
  shows "\<exists>status reg'. horizon_reg_notify mem p hkey event subtree filt reg = Some (status, reg') \<and> reg_ok reg' held"
  using assms shape_reg_ok [OF ok, of "reg\<lparr>rg_keys := (rg_keys reg)(p \<mapsto> rk_notify_update f k)\<rparr>" for f]
    same_shape_upd1 [of "rg_keys reg" p k]
  by (auto simp: horizon_reg_notify_def upd_key_def)

text \<open>
  Closing a handle, as the server does: the notifications it asked for are signaled and its reference goes.
\<close>

definition close_key :: "ptr \<Rightarrow> u32 \<Rightarrow> horizon_reg \<Rightarrow> horizon_reg option" where
  "close_key p hkey reg = do { reg \<leftarrow> horizon_reg_handle_closed p hkey reg; horizon_reg_release p reg }"

lemma release_ok:
  assumes ok: "reg_ok reg held" and k: "rg_keys reg p = Some k" and held: "p \<in> set held"
  shows "\<exists>reg'. horizon_reg_release p reg = Some reg' \<and> reg_ok reg' (remove1 p held)"
proof -
  from ok obtain root where root: "rg_root reg = Some root" "keys_ok root held (rg_keys reg)" by (rule reg_okE)
  have kok: "key_ok root held p k" using keys_okD(2) [OF root(2) k] .
  have count: "count_list held p > 0" using held count_list_0_iff [of held p] by fastforce
  have counts: "count_list (remove1 p held) q = count_list held q" if "q \<noteq> p" for q
    using that by (induction held) auto
  have count': "count_list (remove1 p held) p = count_list held p - 1"
    by (induction held) auto
  have refs: "rk_refs k \<noteq> 0" using kok by (simp add: key_ok_def)
  show ?thesis
  proof (cases "rk_refs k = 1")
    case False
    have "key_ok root (remove1 p held) p (rk_refs_update (\<lambda>r. r - 1) k)"
      using kok count count' unat_minus_1 [OF refs] False
      by (auto simp: key_ok_def values_ok_def value_names_def flagged_def)
    then have "keys_ok root (remove1 p held) ((rg_keys reg)(p \<mapsto> rk_refs_update (\<lambda>r. r - 1) k))"
      by (intro keys_ok_local [OF root(2) k]) (use counts set_remove1_subset [of p held] in auto)
    then show ?thesis using release_kept [OF k False] root(1) by (simp add: reg_ok_def)
  next
    case True
    then have deleted: "flagged k HORIZON_REG_FLAG_DELETED" and one: "count_list held p = 1"
      using kok count by (auto simp: key_ok_def split: if_splits)
    then have leaf: "rk_parent k = None" "p \<noteq> root" "rk_subkeys k = []" using kok by (auto simp: key_ok_def)
    have "p \<notin> set (remove1 p held)" using count' one count_list_0_iff [of "remove1 p held" p] by simp
    then have "keys_ok root (remove1 p held) ((rg_keys reg)(p := None))"
      by (intro keys_ok_drop [OF root(2) k leaf(1,2)]) (use counts set_remove1_subset [of p held] in auto)
    then show ?thesis using release_last [OF k True leaf(3)] root(1) by (simp add: reg_ok_def)
  qed
qed

lemma close_ok:
  assumes ok: "reg_ok reg held" and held: "p \<in> set held"
  shows "\<exists>reg'. close_key p hkey reg = Some reg' \<and> reg_ok reg' (remove1 p held)"
proof -
  obtain k where k: "rg_keys reg p = Some k" using ok held by (auto simp: reg_ok_def keys_ok_def)
  let ?k = "k\<lparr>rk_notify := filter (\<lambda>n. \<not> rn_hkey n = hkey) (rk_notify k)\<rparr>"
  let ?reg = "reg\<lparr>rg_keys := (rg_keys reg)(p \<mapsto> ?k),
      rg_signals := rg_signals reg @ map rn_event (filter (\<lambda>n. rn_hkey n = hkey) (rk_notify k))\<rparr>"
  have eq: "horizon_reg_handle_closed p hkey reg = Some ?reg"
    unfolding horizon_reg_handle_closed_def by (rule signal_notify_eq [OF k])
  have "reg_ok ?reg held" by (rule shape_reg_ok [OF ok]) (use same_shape_upd1 [of "rg_keys reg" p k] k in auto)
  from release_ok [OF this, of p ?k] held eq show ?thesis by (simp add: close_key_def)
qed

section \<open>Sequences of operations\<close>

text \<open>
  The state is the registry and the references callers have; a call may only name keys it has a reference to. The
  address of a new key is one the allocator does not have in use.
\<close>

datatype reg_op =
    Reg_open "ptr option" "u16 list" u32
  | Reg_create reg_memory ptr u64 "ptr option" "u16 list" u32 u32 "u16 list"
  | Reg_delete u64 ptr
  | Reg_rename reg_memory u64 ptr "u16 list"
  | Reg_set_value reg_memory u64 ptr "u16 list" u32 "u8 list"
  | Reg_delete_value u64 ptr "u16 list"
  | Reg_notify reg_memory ptr u32 ptr bool u32
  | Reg_close ptr u32

type_synonym reg_state = "(horizon_reg \<times> ptr list) option"

definition with_ref :: "ptr list \<Rightarrow> u32 \<times> ptr option \<times> horizon_reg \<Rightarrow> horizon_reg \<times> ptr list" where
  "with_ref held r = (case r of (_, ret, reg) \<Rightarrow> (reg, case ret of None \<Rightarrow> held | Some p \<Rightarrow> p # held))"

fun reg_step :: "reg_state \<Rightarrow> reg_op \<Rightarrow> reg_state" where
  "reg_step None op = None"
| "reg_step (Some (reg, held)) (Reg_open base name attributes) =
     map_option (with_ref held) (horizon_reg_open reg base name attributes)"
| "reg_step (Some (reg, held)) (Reg_create mem p now base name attributes options class) =
     map_option (with_ref held) (horizon_reg_create mem p now reg base name attributes options class)"
| "reg_step (Some (reg, held)) (Reg_delete now p) = map_option (\<lambda>r. (snd r, held)) (horizon_reg_delete now p reg)"
| "reg_step (Some (reg, held)) (Reg_rename mem now p name) =
     map_option (\<lambda>r. (snd r, held)) (horizon_reg_rename mem now p name reg)"
| "reg_step (Some (reg, held)) (Reg_set_value mem now p name ty data) =
     map_option (\<lambda>r. (snd r, held)) (horizon_reg_set_value mem now p name ty data reg)"
| "reg_step (Some (reg, held)) (Reg_delete_value now p name) =
     map_option (\<lambda>r. (snd r, held)) (horizon_reg_delete_value now p name reg)"
| "reg_step (Some (reg, held)) (Reg_notify mem p hkey event subtree filt) =
     map_option (\<lambda>r. (snd r, held)) (horizon_reg_notify mem p hkey event subtree filt reg)"
| "reg_step (Some (reg, held)) (Reg_close p hkey) = map_option (\<lambda>reg. (reg, remove1 p held)) (close_key p hkey reg)"

fun reg_op_keys :: "reg_op \<Rightarrow> ptr list" where
  "reg_op_keys (Reg_open base name attributes) = (case base of None \<Rightarrow> [] | Some p \<Rightarrow> [p])"
| "reg_op_keys (Reg_create mem p now base name attributes options class) = (case base of None \<Rightarrow> [] | Some p \<Rightarrow> [p])"
| "reg_op_keys (Reg_delete now p) = [p]"
| "reg_op_keys (Reg_rename mem now p name) = [p]"
| "reg_op_keys (Reg_set_value mem now p name ty data) = [p]"
| "reg_op_keys (Reg_delete_value now p name) = [p]"
| "reg_op_keys (Reg_notify mem p hkey event subtree filt) = [p]"
| "reg_op_keys (Reg_close p hkey) = [p]"

fun reg_op_ok :: "reg_state \<Rightarrow> reg_op \<Rightarrow> bool" where
  "reg_op_ok None op \<longleftrightarrow> True"
| "reg_op_ok (Some (reg, held)) op \<longleftrightarrow>
     list_all (\<lambda>p. p \<in> set held) (reg_op_keys op) \<and> reg_refs_room reg \<and>
     (case op of Reg_create mem p now base name attributes options class \<Rightarrow> rg_keys reg p = None | _ \<Rightarrow> True)"

definition reg_inv :: "reg_state \<Rightarrow> bool" where
  "reg_inv st \<longleftrightarrow> (case st of None \<Rightarrow> False | Some (reg, held) \<Rightarrow> reg_ok reg held)"

lemma held_live: "reg_ok reg held \<Longrightarrow> p \<in> set held \<Longrightarrow> \<exists>k. rg_keys reg p = Some k"
  by (auto simp: reg_ok_def keys_ok_def)

lemma reg_inv_ref:
  "\<exists>status ret reg'. r = Some (status, ret, reg') \<and> reg_ok reg' (case ret of None \<Rightarrow> held | Some p \<Rightarrow> p # held) \<Longrightarrow>
     reg_inv (map_option (with_ref held) r)"
  by (auto simp: reg_inv_def with_ref_def)

lemma reg_inv_same:
  "\<exists>status reg'. r = Some (status, reg') \<and> reg_ok reg' held \<Longrightarrow> reg_inv (map_option (\<lambda>r. (snd r, held)) r)"
  by (auto simp: reg_inv_def)

lemma reg_step_inv: "reg_inv st \<Longrightarrow> reg_op_ok st op \<Longrightarrow> reg_inv (reg_step st op)"
proof -
  assume "reg_inv st" and op: "reg_op_ok st op"
  then obtain reg held where st: "st = Some (reg, held)" and ok: "reg_ok reg held"
    by (auto simp: reg_inv_def split: option.splits)
  from op st have room: "reg_refs_room reg" and keys: "\<forall>p\<in>set (reg_op_keys op). p \<in> set held"
    by (auto simp: list_all_iff)
  note live = held_live [OF ok]
  show ?thesis
  proof (cases op)
    case (Reg_open base name attributes)
    have "\<And>p. base = Some p \<Longrightarrow> rg_keys reg p \<noteq> None" using keys live by (force simp: Reg_open)
    from open_ok [OF ok room this] show ?thesis unfolding st Reg_open reg_step.simps by (intro reg_inv_ref) metis
  next
    case (Reg_create mem p now base name attributes options cls)
    have "\<And>p. base = Some p \<Longrightarrow> rg_keys reg p \<noteq> None" using keys live by (force simp: Reg_create)
    moreover have "rg_keys reg p = None" using op by (simp add: st Reg_create)
    ultimately show ?thesis unfolding st Reg_create reg_step.simps by (intro reg_inv_ref create_ok [OF ok room]) auto
  next
    case (Reg_close p hkey)
    then have "p \<in> set held" using keys by simp
    from close_ok [OF ok this, of hkey] show ?thesis unfolding st Reg_close by (auto simp: reg_inv_def)
  next
    case (Reg_delete now p)
    with keys live obtain k where k: "rg_keys reg p = Some k" by fastforce
    show ?thesis unfolding st Reg_delete reg_step.simps by (intro reg_inv_same delete_ok [OF ok k])
  next
    case (Reg_rename mem now p name)
    with keys live obtain k where k: "rg_keys reg p = Some k" by fastforce
    show ?thesis unfolding st Reg_rename reg_step.simps by (intro reg_inv_same rename_ok [OF ok k])
  next
    case (Reg_set_value mem now p name ty data)
    with keys live obtain k where k: "rg_keys reg p = Some k" by fastforce
    show ?thesis unfolding st Reg_set_value reg_step.simps by (intro reg_inv_same set_value_ok [OF ok k])
  next
    case (Reg_delete_value now p name)
    with keys live obtain k where k: "rg_keys reg p = Some k" by fastforce
    show ?thesis unfolding st Reg_delete_value reg_step.simps by (intro reg_inv_same delete_value_ok [OF ok k])
  next
    case (Reg_notify mem p hkey event subtree filt)
    with keys live obtain k where k: "rg_keys reg p = Some k" by fastforce
    show ?thesis unfolding st Reg_notify reg_step.simps by (intro reg_inv_same notify_ok [OF ok k])
  qed
qed

interpretation registry: invariant_machine reg_step reg_op_ok reg_inv
  by unfold_locales (rule reg_step_inv)

lemma init_ok:
  assumes "horizon_reg_init mem p now = Some reg"
  shows "reg_ok reg []"
proof -
  have reg: "rg_root reg = Some p" "\<exists>k. rg_keys reg = [p \<mapsto> k] \<and> rk_name k = root_name \<and> rk_parent k = None \<and>
      rk_subkeys k = [] \<and> rk_subkey_max k = 0 \<and> rk_values k = [] \<and> rk_value_max k = 0 \<and> rk_flags k = 0 \<and> rk_refs k = 1"
    using assms by (auto simp: horizon_reg_init_def horizon_reg_alloc_key_def split: option.splits if_splits)
  then obtain k where k: "rg_keys reg = [p \<mapsto> k]" "rk_name k = root_name" "rk_parent k = None" "rk_subkeys k = []"
    "rk_subkey_max k = 0" "rk_values k = []" "rk_value_max k = 0" "rk_flags k = 0" "rk_refs k = 1" by blast
  have "name_ok root_name" by (simp add: name_ok_def root_name_def ascii_name_def)
  moreover have "reg_chain [p \<mapsto> k] p [p]" by (rule reg_chain.top) (use k in auto)
  ultimately show ?thesis using reg(1) k
    by (auto simp: reg_ok_def keys_ok_def linked_ok_def key_ok_def capacity_ok_def values_ok_def value_names_def
        subkey_names_def sorted_names_def flagged_def)
qed

end
