(* ===== verification/HzRegUse.thy ===== *)
theory HzRegUse
  imports HzRegTree
begin

text \<open>
  What callers of the registry (\<open>dlls/ntdll/unix/horizon_registry.h\<close>) rely on: the path of a key opens it, values
  behave as a map from names without case, a deleted key is not found again, and a change signals exactly the
  notifications that watch for it.
\<close>

section \<open>Paths down the tree\<close>

text \<open>\<open>down K p cs\<close>: each of \<open>cs\<close> is a subkey of the one before it, the first of \<open>p\<close>.\<close>

fun down :: "(ptr \<Rightarrow> horizon_reg_key option) \<Rightarrow> ptr \<Rightarrow> ptr list \<Rightarrow> bool" where
  "down K p [] \<longleftrightarrow> True"
| "down K p (c # cs) \<longleftrightarrow> (\<exists>k. K p = Some k \<and> c \<in> set (rk_subkeys k)) \<and> down K c cs"

definition path_text :: "(ptr \<Rightarrow> horizon_reg_key option) \<Rightarrow> ptr list \<Rightarrow> u16 list" where
  "path_text K cs = concat (map (\<lambda>c. BACKSLASH # name_of K c) cs)"

lemma path_text_simps [simp]:
  "path_text K [] = []" "path_text K (c # cs) = BACKSLASH # name_of K c @ path_text K cs"
  "path_text K (as @ bs) = path_text K as @ path_text K bs"
  by (simp_all add: path_text_def)

definition plain_key :: "(ptr \<Rightarrow> horizon_reg_key option) \<Rightarrow> ptr \<Rightarrow> bool" where
  "plain_key K p \<longleftrightarrow> (case K p of None \<Rightarrow> False | Some k \<Rightarrow> \<not> flagged k HORIZON_REG_FLAG_SYMLINK)"

lemma lookup_walk_skip: "lookup_walk reg attributes links p (skip_backslashes n) = lookup_walk reg attributes links p n"
  unfolding lookup_walk.simps [of reg attributes links p "skip_backslashes n"] lookup_walk.simps [of reg attributes links p n]
  by (simp only: skip_backslashes_idem)

lemma skip_name: "name_ok n \<Longrightarrow> skip_backslashes (BACKSLASH # n @ rest) = n @ rest"
  by (cases n) (auto simp: skip_backslashes_def name_ok_def)

lemma element_name:
  "name_ok n \<Longrightarrow> rest = [] \<or> hd rest = BACKSLASH \<Longrightarrow> horizon_reg_element (n @ rest) = length n"
  unfolding horizon_reg_element_def name_ok_def by (subst takeWhile_append2) (auto, cases rest, auto)

lemma path_text_head: "path_text K cs = [] \<or> hd (path_text K cs) = BACKSLASH"
  by (cases cs) simp_all

text \<open>A search for the name of a subkey finds that subkey.\<close>

lemma find_own_name:
  assumes "linked_ok (rg_keys reg) p k" "c \<in> set (rk_subkeys k)"
  shows "\<exists>i. horizon_reg_find_subkey reg k (name_of (rg_keys reg) c) = Some (Some c, i)"
proof -
  from assms(2) obtain i where i: "i < length (rk_subkeys k)" "rk_subkeys k ! i = c" by (auto simp: in_set_conv_nth)
  from subs.find_hit [OF linked_good [OF assms(1)], of i "name_of (rg_keys reg) c"] i show ?thesis
    by (auto simp: subkey_names_def)
qed

lemma walk_down:
  assumes ok: "reg_ok reg held"
  shows "rg_keys reg p = Some k \<Longrightarrow> \<not> flagged k HORIZON_REG_FLAG_DELETED \<Longrightarrow> down (rg_keys reg) p cs \<Longrightarrow>
    \<forall>c\<in>set (p # cs). plain_key (rg_keys reg) c \<Longrightarrow>
    lookup_walk reg attributes links p (path_text (rg_keys reg) cs) =
      Some (Inr \<lparr>rp_key = last (p # cs), rp_last = None\<rparr>)"
proof (induction cs arbitrary: p k)
  case Nil
  then show ?case using lookup_plain [OF Nil.prems(1,2), of attributes "[]" links]
    by (simp add: followed_def plain_key_def skip_backslashes_def walk_from_def)
next
  case (Cons c cs)
  have l: "linked_ok (rg_keys reg) p k" by (rule reg_ok_linked [OF ok Cons.prems(1)])
  have c: "c \<in> set (rk_subkeys k)" using Cons.prems(1,3) by auto
  from subkey_live [OF l c] obtain ck where ck: "rg_keys reg c = Some ck" "rk_parent ck = Some p"
    "rk_name ck = name_of (rg_keys reg) c" .
  from ok obtain root where "keys_ok root held (rg_keys reg)" by (rule reg_okE)
  from keys_okD(2) [OF this ck(1)] ck have live: "\<not> flagged ck HORIZON_REG_FLAG_DELETED" and nm: "name_ok (name_of (rg_keys reg) c)"
    by (auto simp: key_ok_def)
  let ?n = "name_of (rg_keys reg) c" and ?rest = "path_text (rg_keys reg) cs"
  have "\<not> followed k attributes (skip_backslashes (path_text (rg_keys reg) (c # cs)))"
    using Cons.prems(1,4) by (simp add: followed_def plain_key_def)
  note step = lookup_plain [OF Cons.prems(1,2) this, of links]
  obtain i where find: "horizon_reg_find_subkey reg k ?n = Some (Some c, i)" using find_own_name [OF l c] by blast
  have elem: "horizon_reg_element (?n @ ?rest) = length ?n" by (rule element_name [OF nm path_text_head])
  have "walk_from reg attributes links p k (?n @ ?rest) = lookup_walk reg attributes links c (skip_backslashes ?rest)"
    using elem find nm by (auto simp: walk_from_def name_ok_def)
  also have "\<dots> = Some (Inr \<lparr>rp_key = last (c # cs), rp_last = None\<rparr>)"
    unfolding lookup_walk_skip by (rule Cons.IH [OF ck(1) live]) (use Cons.prems in auto)
  finally show ?case unfolding step using skip_name [OF nm] by simp
qed

text \<open>The chain of a key, read from the root, is a path down.\<close>

lemma full_name_chain:
  "reg_chain (rg_keys reg) p xs \<Longrightarrow> full_name_walk reg (Some p) rest = Some (path_text (rg_keys reg) (rev xs) @ rest)"
proof (induction arbitrary: rest rule: reg_chain.induct)
  case (top p k)
  then show ?case
    by (subst full_name_walk.simps) (simp add: full_name_walk.simps [of _ None] name_of_def)
next
  case (up p k q qs)
  then show ?case by (subst full_name_walk.simps) (simp add: name_of_def)
qed

lemma down_snoc: "down K p (cs @ [c]) \<longleftrightarrow> down K p cs \<and> (\<exists>k. K (last (p # cs)) = Some k \<and> c \<in> set (rk_subkeys k))"
  by (induction cs arbitrary: p) auto

lemma chain_down:
  assumes ok: "keys_ok root held K"
  shows "reg_chain K p xs \<Longrightarrow> \<exists>top cs. rev xs = top # cs \<and> down K top cs \<and> last (top # cs) = p \<and>
    (\<exists>k. K top = Some k \<and> rk_parent k = None)"
proof (induction rule: reg_chain.induct)
  case (top p k)
  then show ?case by (intro exI [of _ p] exI [of _ "[]"]) auto
next
  case (up p k q qs)
  then obtain t cs where t: "rev qs = t # cs" "down K t cs" "last (t # cs) = q" "\<exists>k. K t = Some k \<and> rk_parent k = None" by blast
  from keys_okD(1) [OF ok up.hyps(1)] up.hyps(2) obtain qk where "K q = Some qk" "p \<in> set (rk_subkeys qk)" by (rule parent_live)
  then have "down K t (cs @ [p])" using t by (simp add: down_snoc)
  then show ?case using t by (intro exI [of _ t] exI [of _ "cs @ [p]"]) auto
qed

lemma no_parent_root:
  assumes "keys_ok root held K" "K p = Some k" "rk_parent k = None" "\<not> flagged k HORIZON_REG_FLAG_DELETED"
  shows "p = root"
  using keys_okD(2) [OF assms(1,2)] assms(3,4) by (auto simp: key_ok_def)

lemma deleted_alone:
  assumes "keys_ok root held K" "K p = Some k" "flagged k HORIZON_REG_FLAG_DELETED"
  shows "rk_parent k = None" "rk_subkeys k = []"
  using keys_okD(2) [OF assms(1,2)] assms(3) by (auto simp: key_ok_def)

lemma chain_to_root:
  assumes ok: "keys_ok root held K" and p: "K p = Some k" "\<not> flagged k HORIZON_REG_FLAG_DELETED"
  obtains xs cs where "reg_chain K p xs" "rev xs = root # cs" "down K root cs" "last (root # cs) = p"
proof -
  obtain xs where xs: "reg_chain K p xs" using keys_okD(3) [OF ok p(1)] by blast
  from chain_down [OF ok xs] obtain t cs tk where t: "rev xs = t # cs" "down K t cs" "last (t # cs) = p"
    "K t = Some tk" "rk_parent tk = None" by blast
  have "\<not> flagged tk HORIZON_REG_FLAG_DELETED"
  proof
    assume "flagged tk HORIZON_REG_FLAG_DELETED"
    from deleted_alone [OF ok t(4) this] t have "cs = []" by (cases cs) auto
    with t p \<open>flagged tk HORIZON_REG_FLAG_DELETED\<close> show False by simp
  qed
  with no_parent_root [OF ok t(4,5)] have "t = root" by blast
  then show thesis using that [OF xs] t by blast
qed

lemma root_key:
  assumes "keys_ok root held K"
  obtains k where "K root = Some k" "rk_name k = root_name" "\<not> flagged k HORIZON_REG_FLAG_DELETED"
proof -
  obtain k where k: "K root = Some k" using assms by (auto simp: keys_ok_def)
  with keys_okD(2) [OF assms k] show thesis using that by (simp add: key_ok_def)
qed

lemma start_at_root:
  assumes "rg_root reg = Some root" "rest = [] \<or> hd rest = BACKSLASH"
  shows "lookup_start reg None (reg_prefix @ rest) = Some (Inr (root, rest))"
  using assms by (cases rest) (auto simp: lookup_start_def reg_prefix_def nth_append)

text \<open>Opening the path of a key that no symbolic link is on the way to.\<close>

lemma open_path:
  assumes ok: "reg_ok reg held" and k: "rg_keys reg p = Some k" "\<not> flagged k HORIZON_REG_FLAG_DELETED"
    and chain: "reg_chain (rg_keys reg) p xs" and plain: "\<forall>q\<in>set xs. plain_key (rg_keys reg) q"
  shows "\<exists>name. horizon_reg_full_name reg p = Some name \<and>
    horizon_reg_lookup reg None name attributes links = Some (Inr \<lparr>rp_key = p, rp_last = None\<rparr>)"
proof -
  from ok obtain root where root: "rg_root reg = Some root" "keys_ok root held (rg_keys reg)" by (rule reg_okE)
  from root(2) k obtain ys cs where ys: "reg_chain (rg_keys reg) p ys" "rev ys = root # cs" "down (rg_keys reg) root cs"
    "last (root # cs) = p" by (rule chain_to_root)
  have "ys = xs" by (rule reg_chain_fun [OF chain ys(1)])
  from root(2) obtain rk where rk: "rg_keys reg root = Some rk" "rk_name rk = root_name"
    "\<not> flagged rk HORIZON_REG_FLAG_DELETED" by (rule root_key)
  have name: "horizon_reg_full_name reg p = Some (reg_prefix @ path_text (rg_keys reg) cs)"
    using full_name_chain [OF ys(1), of "[]"] rk(1,2) by (simp add: horizon_reg_full_name_def ys(2) name_of_def [of _ root] reg_prefix_def)
  have "\<forall>c\<in>set (root # cs). plain_key (rg_keys reg) c" using plain unfolding \<open>ys = xs\<close> [symmetric] ys(2) [symmetric] by simp
  from walk_down [OF ok rk(1,3) ys(3) this] have
    "lookup_walk reg attributes links root (path_text (rg_keys reg) cs) = Some (Inr \<lparr>rp_key = p, rp_last = None\<rparr>)"
    by (simp add: ys(4) [symmetric])
  then show ?thesis using name start_at_root [OF root(1) path_text_head] by (simp add: horizon_reg_lookup_def)
qed

section \<open>What holds for callers\<close>

text \<open>C8. From a new registry, any sequence of calls on keys the callers have references to returns: no call
  follows a freed or null pointer, and afterwards every key is in its parent's sorted table exactly once, every
  parent chain ends, deleted keys have neither parent nor subkeys, tables fit their allocations, and each reference
  count is the number of references callers have plus one for the tree.\<close>

theorem registry_heap_safe:
  assumes "horizon_reg_init mem p now = Some reg"
    and "admissible reg_step reg_op_ok (Some (reg, [])) ops"
  shows "\<exists>reg' held. foldl reg_step (Some (reg, [])) ops = Some (reg', held) \<and> reg_ok reg' held"
proof -
  have "reg_inv (Some (reg, []))" using init_ok [OF assms(1)] by (simp add: reg_inv_def)
  from registry.run_inv [OF this assms(2)] show ?thesis by (auto simp: reg_inv_def split: option.splits)
qed

text \<open>C9. In every such state each lookup ends, whatever symbolic links there are: with a status, or at a key that
  is not deleted and, unless the caller asked to open links, is no link; a missing last element is a proper name
  that no subkey has.\<close>

theorem registry_lookup_ends:
  assumes "reg_ok reg held" and "\<And>p. base = Some p \<Longrightarrow> p \<in> set held"
  shows "\<exists>found. horizon_reg_lookup reg base name attributes links = Some found \<and> path_good reg attributes found"
proof -
  have "\<And>p. base = Some p \<Longrightarrow> rg_keys reg p \<noteq> None" using assms held_live by fastforce
  from lookup_found [OF assms(1) this] show ?thesis by metis
qed

text \<open>C20. The path the registry reports for a key opens that key again, when the key is not deleted and no key on
  the path is a symbolic link.\<close>

theorem registry_path_roundtrip:
  assumes "reg_ok reg held" "reg_refs_room reg" "rg_keys reg p = Some k" "\<not> flagged k HORIZON_REG_FLAG_DELETED"
    and "reg_chain (rg_keys reg) p xs" "\<forall>q\<in>set xs. plain_key (rg_keys reg) q"
  shows "\<exists>name reg'. horizon_reg_full_name reg p = Some name \<and>
    horizon_reg_open reg None name attributes = Some (HORIZON_REG_SUCCESS, Some p, reg') \<and> reg_ok reg' (p # held)"
proof -
  from open_path [OF assms(1,3-6)] obtain name where name: "horizon_reg_full_name reg p = Some name"
    "horizon_reg_lookup reg None name attributes 0 = Some (Inr \<lparr>rp_key = p, rp_last = None\<rparr>)" by metis
  have "Suc (unat (rk_refs k)) < 2 ^ 32" using assms(2,3) by (simp add: reg_refs_room_def)
  from take_ref_ok [OF assms(1,3) this] obtain reg' where "take_ref p reg = Some reg'" "reg_ok reg' (p # held)" by blast
  then show ?thesis using name by (simp add: horizon_reg_open_def)
qed

text \<open>C34. The binary search for a subkey answers as a look at the whole table would: the subkey with the name,
  without ASCII case, and how many subkeys come before it.\<close>

theorem registry_find_subkey_exact:
  assumes "reg_ok reg held" "rg_keys reg p = Some k"
  shows "horizon_reg_find_subkey reg k n =
    Some (List.find (\<lambda>c. fold_name (name_of (rg_keys reg) c) = fold_name n) (rk_subkeys k),
          length (filter (\<lambda>c. fold_name (name_of (rg_keys reg) c) < fold_name n) (rk_subkeys k)))"
proof -
  let ?ns = "subkey_names (rg_keys reg) k" and ?P = "\<lambda>c. fold_name (name_of (rg_keys reg) c) < fold_name n"
  have l: "linked_ok (rg_keys reg) p k" by (rule reg_ok_linked [OF assms])
  then have sorted: "sorted_names ?ns" by (simp add: linked_ok_def)
  have place: "name_place ?ns n = length (filter ?P (rk_subkeys k))"
    using name_place_count [OF sorted, of n] by (simp add: subkey_names_def filter_map comp_def)
  have "List.find (\<lambda>c. fold_name (name_of (rg_keys reg) c) = fold_name n) (rk_subkeys k) =
      (if has_name ?ns n then Some (rk_subkeys k ! name_place ?ns n) else None)"
  proof (cases "has_name ?ns n")
    case True
    note i = name_place_hit [OF sorted True]
    have "\<not> fold_name (name_of (rg_keys reg) (rk_subkeys k ! j)) = fold_name n" if "j < name_place ?ns n" for j
      using name_place_less [OF that] that i(1) by (auto simp: subkey_names_def)
    then show ?thesis using True i by (auto simp: find_Some_iff subkey_names_def intro!: exI [of _ "name_place ?ns n"])
  next
    case False
    then show ?thesis by (auto simp: find_None_iff has_name_def subkey_names_def)
  qed
  then show ?thesis using find_subkey_ok [OF l, of n] place by simp
qed

section \<open>Values as a map\<close>

datatype value_op = Val_set u64 "u16 list" u32 "u8 list" | Val_delete u64 "u16 list"

text \<open>Operations on the values of one key, with the memory they need.\<close>

fun value_step :: "ptr \<Rightarrow> horizon_reg option \<Rightarrow> value_op \<Rightarrow> horizon_reg option" where
  "value_step p None op = None"
| "value_step p (Some reg) (Val_set now n ty data) = map_option snd (horizon_reg_set_value (\<lambda>_. True) now p n ty data reg)"
| "value_step p (Some reg) (Val_delete now n) = map_option snd (horizon_reg_delete_value now p n reg)"

fun value_op_ok :: "horizon_reg option \<Rightarrow> value_op \<Rightarrow> bool" where
  "value_op_ok st (Val_set now n ty data) \<longleftrightarrow> length n \<le> HORIZON_REG_MAX_VALUE"
| "value_op_ok st (Val_delete now n) \<longleftrightarrow> True"

definition value_inv :: "ptr \<Rightarrow> horizon_reg option \<Rightarrow> bool" where
  "value_inv p st \<longleftrightarrow> (\<exists>reg held k. st = Some reg \<and> reg_ok reg held \<and> rg_keys reg p = Some k \<and>
     \<not> flagged k HORIZON_REG_FLAG_SYMLINK)"

definition key_values :: "ptr \<Rightarrow> horizon_reg option \<Rightarrow> u16 list \<rightharpoonup> u32 \<times> u8 list" where
  "key_values p st = (case st of None \<Rightarrow> Map.empty | Some reg \<Rightarrow>
     (case rg_keys reg p of None \<Rightarrow> Map.empty | Some k \<Rightarrow> value_map k))"

fun map_step :: "(u16 list \<rightharpoonup> u32 \<times> u8 list) \<Rightarrow> value_op \<Rightarrow> (u16 list \<rightharpoonup> u32 \<times> u8 list)" where
  "map_step m (Val_set now n ty data) = m(fold_name n \<mapsto> (ty, data))"
| "map_step m (Val_delete now n) = m(fold_name n := None)"

lemma set_value_status:
  assumes "horizon_reg_set_value (\<lambda>_. True) now p n ty data reg = Some (status, reg')" "rg_keys reg p = Some k"
    "\<not> flagged k HORIZON_REG_FLAG_SYMLINK" "length n \<le> HORIZON_REG_MAX_VALUE"
  shows "status = 0"
  using assms by (auto simp: horizon_reg_set_value_def horizon_reg_insert_value_def Let_def upd_key_def
      split: prod.splits if_splits option.splits bind_splits)

lemma touched_key:
  assumes "rg_keys reg p = Some k"
  obtains k' where "rg_keys (touched now change q qs reg) p = Some k'" "key_shape k' = key_shape k"
proof -
  have "same_shape (rg_keys reg) (rg_keys (touched now change q qs reg))" by (simp add: touched_shape)
  from same_shape_Some [OF this assms] show thesis using that by blast
qed

lemma value_map_shape: "key_shape k' = key_shape k \<Longrightarrow> value_map k' = value_map k"
  using shape_cong(5) [of k' k] by (simp add: value_map_def fun_eq_iff)

lemma touched_values:
  assumes "rg_root reg = Some root" "keys_ok root held (rg_keys reg)" "rg_keys reg p = Some k" "values_only k k'" "values_ok k'"
    "\<not> flagged k HORIZON_REG_FLAG_SYMLINK"
    and reg'_def: "reg' = touched now change p qs (reg\<lparr>rg_keys := (rg_keys reg)(p \<mapsto> k')\<rparr>)"
  shows "value_inv p (Some reg') \<and> key_values p (Some reg') = value_map k'"
proof -
  have "rg_keys (reg\<lparr>rg_keys := (rg_keys reg)(p \<mapsto> k')\<rparr>) p = Some k'" by simp
  from touched_key [OF this] obtain k2 where k2: "rg_keys reg' p = Some k2" "key_shape k2 = key_shape k'"
    unfolding reg'_def by metis
  have "rk_flags k2 = rk_flags k" using shape_cong(7) [OF k2(2)] values_onlyD(5) [OF assms(4)] by simp
  then have "\<not> flagged k2 HORIZON_REG_FLAG_SYMLINK" using assms(6) by (simp add: flagged_def)
  moreover have "reg_ok reg' held" unfolding reg'_def by (rule touched_values_ok [OF assms(1-5)])
  ultimately show ?thesis using k2 value_map_shape [OF k2(2)] by (auto simp: value_inv_def key_values_def)
qed

lemma value_step_refines:
  assumes "value_inv p st" "value_op_ok st op"
  shows "value_inv p (value_step p st op) \<and> key_values p (value_step p st op) = map_step (key_values p st) op"
proof -
  from assms(1) obtain reg held k where st: "st = Some reg" "reg_ok reg held" and k: "rg_keys reg p = Some k"
    "\<not> flagged k HORIZON_REG_FLAG_SYMLINK" by (auto simp: value_inv_def)
  from st(2) obtain root where root: "rg_root reg = Some root" "keys_ok root held (rg_keys reg)" by (rule reg_okE)
  have abs: "key_values p st = value_map k" using st k by (simp add: key_values_def)
  show ?thesis
  proof (cases op)
    case (Val_set now n ty data)
    have n: "length n \<le> HORIZON_REG_MAX_VALUE" using assms(2) Val_set by simp
    from root(2) k(1) show ?thesis
    proof (cases rule: set_value_cases [where mem = "\<lambda>_. True" and now = now and n = n and ty = ty and data = data])
      case same
      then show ?thesis using assms(1) abs st Val_set by (simp add: fun_upd_idem)
    next
      case (failed status k')
      then show ?thesis using set_value_status [OF failed(1) k n] by simp
    next
      case (stored k' qs)
      then show ?thesis using touched_values [OF root k(1) stored(2,3) k(2) refl] abs st Val_set by simp
    qed
  next
    case (Val_delete now n)
    from root(2) k(1) show ?thesis
    proof (cases rule: delete_value_cases [where now = now and n = n])
      case missing
      then show ?thesis using assms(1) abs st Val_delete by (simp add: fun_upd_idem)
    next
      case (removed k' qs)
      then show ?thesis using touched_values [OF root k(1) removed(2,3) k(2) refl] abs st Val_delete by simp
    qed
  qed
qed

interpretation key_vals: refinement_machine "value_step p" value_op_ok "value_inv p" "key_values p" map_step for p
  by unfold_locales (use value_step_refines in blast)+

text \<open>C11. Setting and deleting values of a key behaves as updating a map from names without case, and reading a
  value gives what the map has: its type, its full length and as many bytes as there is room for.\<close>

theorem registry_values_refine_map:
  assumes "reg_ok reg held" "rg_keys reg p = Some k" "\<not> flagged k HORIZON_REG_FLAG_SYMLINK"
    and "admissible (value_step p) value_op_ok (Some reg) ops"
  shows "\<exists>reg' k'. foldl (value_step p) (Some reg) ops = Some reg' \<and> rg_keys reg' p = Some k' \<and>
    (\<forall>n room. horizon_reg_get_value k' n room =
       (case foldl map_step (value_map k) ops (fold_name n) of
          None \<Rightarrow> Inl HORIZON_REG_NAME_NOT_FOUND
        | Some (ty, data) \<Rightarrow> Inr (ty, length data, take room data)))"
proof -
  have inv: "value_inv p (Some reg)" using assms by (auto simp: value_inv_def)
  from key_vals.run_inv [OF this assms(4)] obtain reg' held' k' where end_state:
    "foldl (value_step p) (Some reg) ops = Some reg'" "reg_ok reg' held'" "rg_keys reg' p = Some k'"
    by (auto simp: value_inv_def)
  have "key_values p (Some reg) = value_map k" using assms(2) by (simp add: key_values_def)
  with key_vals.run_abs [OF inv assms(4)] end_state have m: "value_map k' = foldl map_step (value_map k) ops"
    by (simp add: key_values_def)
  from end_state(2) obtain root where "keys_ok root held' (rg_keys reg')" by (rule reg_okE)
  from keys_okD(2) [OF this end_state(3)] have "sorted_names (value_names k')" by (simp add: key_ok_def values_ok_def)
  from get_value_map [OF this] m end_state show ?thesis by auto
qed

section \<open>Changes and their notifications\<close>

lemma touched_notify:
  assumes "reg_chain (rg_keys reg) p (p # qs)"
  shows "key_notify (rg_keys (touched now change p qs reg)) q =
    filter (\<lambda>n. \<not> (q \<in> set (p # qs) \<and> notify_hit change (q = p) n)) (key_notify (rg_keys reg) q)"
  using reg_chain_distinct [OF assms]
  by (cases "rg_keys reg q") (auto simp: touched_keys_def key_notify_def unhit_def)

lemma hit_events_cong: "key_notify K q = key_notify K' q \<Longrightarrow> hit_events change b K q = hit_events change b K' q"
  by (simp add: hit_events_def)

text \<open>C25. Setting a value to what it is already does nothing. A change of a value signals, in order, every
  notification on the key that watches values and every one on a key above it that also watches the subtree; these
  notifications are gone afterwards and all others stay.\<close>

theorem registry_change_signals:
  assumes "reg_ok reg held" "rg_keys reg p = Some k" "reg_chain (rg_keys reg) p (p # qs)"
    and "horizon_reg_set_value mem now p n ty data reg = Some (0, reg')"
  shows "if value_map k (fold_name n) = Some (ty, data) then reg' = reg
    else rg_signals reg' = rg_signals reg @ hit_events HORIZON_REG_CHANGE_LAST_SET True (rg_keys reg) p @
           concat (map (hit_events HORIZON_REG_CHANGE_LAST_SET False (rg_keys reg)) qs) \<and>
         (\<forall>q. key_notify (rg_keys reg') q =
            filter (\<lambda>n. \<not> (q \<in> set (p # qs) \<and> notify_hit HORIZON_REG_CHANGE_LAST_SET (q = p) n))
              (key_notify (rg_keys reg) q))"
proof -
  from assms(1) obtain root where root: "keys_ok root held (rg_keys reg)" by (rule reg_okE)
  from root assms(2) show ?thesis
  proof (cases rule: set_value_cases [where mem = mem and now = now and n = n and ty = ty and data = data])
    case same
    then show ?thesis using assms(4) by simp
  next
    case (failed status k')
    then show ?thesis using assms(4) by simp
  next
    case (stored k' rs)
    have rs: "rs = qs" using reg_chain_fun [OF assms(3) stored(5)] by simp
    let ?reg = "reg\<lparr>rg_keys := (rg_keys reg)(p \<mapsto> k')\<rparr>"
    have same: "key_notify (rg_keys ?reg) q = key_notify (rg_keys reg) q" for q
      using values_onlyD(8) [OF stored(2)] assms(2) by (simp add: key_notify_def)
    have chain: "reg_chain (rg_keys ?reg) p (p # qs)"
      by (rule reg_chain_cong [OF assms(3)]) (use values_onlyD(2) [OF stored(2)] assms(2) in auto)
    have reg': "reg' = touched now HORIZON_REG_CHANGE_LAST_SET p qs ?reg" using stored(1) assms(4) rs by simp
    have ev: "hit_events c b (rg_keys ?reg) = hit_events c b (rg_keys reg)" for c b
      by (rule ext, rule hit_events_cong, rule same)
    have "rg_signals reg' = rg_signals reg @ hit_events HORIZON_REG_CHANGE_LAST_SET True (rg_keys reg) p @
        concat (map (hit_events HORIZON_REG_CHANGE_LAST_SET False (rg_keys reg)) qs)"
      unfolding reg' touched_def ev by simp
    moreover have "key_notify (rg_keys reg') q =
        filter (\<lambda>n. \<not> (q \<in> set (p # qs) \<and> notify_hit HORIZON_REG_CHANGE_LAST_SET (q = p) n)) (key_notify (rg_keys reg) q)" for q
      unfolding reg' touched_notify [OF chain] same ..
    ultimately show ?thesis using stored(6) by simp
  qed
qed

section \<open>Deleting and renaming\<close>

lemma removed_name:
  assumes "sorted_names ns" "i < length ns"
  shows "\<not> has_name (remove_at i ns) (ns ! i)"
proof
  assume "has_name (remove_at i ns) (ns ! i)"
  then obtain m where m: "m \<in> set (remove_at i ns)" "fold_name m = fold_name (ns ! i)" by (auto simp: has_name_def)
  from m(1) obtain j where "j < length ns" "j \<noteq> i" "m = ns ! j" unfolding set_remove_others [OF assms(2)] by blast
  with m(2) sorted_names_inj [OF assms(1), of j i] assms(2) show False by simp
qed

lemma find_gone:
  assumes "linked_ok (rg_keys reg) p k" "\<not> has_name (subkey_names (rg_keys reg) k) n"
  shows "\<exists>i. horizon_reg_find_subkey reg k n = Some (None, i)"
  using find_subkey_ok [OF assms(1), of n] assms(2) by simp

text \<open>C23. The root and keys with subkeys are not deleted. Deleting another key removes it from its parent, where its
  name is not found again; while callers have references to it the key stays, marked as deleted, and otherwise it is
  freed. No other key changes but for its time and notifications.\<close>

theorem registry_delete_exact:
  assumes "reg_ok reg held" "rg_keys reg p = Some k" "\<not> flagged k HORIZON_REG_FLAG_DELETED"
  shows "if rk_parent k = None \<or> rk_subkeys k \<noteq> [] then horizon_reg_delete now p reg = Some (HORIZON_REG_ACCESS_DENIED, reg)
    else \<exists>reg' q qk. horizon_reg_delete now p reg = Some (HORIZON_REG_SUCCESS, reg') \<and> reg_ok reg' held \<and>
      rk_parent k = Some q \<and> rg_keys reg' q = Some qk \<and>
      (\<exists>i. horizon_reg_find_subkey reg' qk (rk_name k) = Some (None, i)) \<and>
      (case rg_keys reg' p of None \<Rightarrow> p \<notin> set held | Some k' \<Rightarrow> p \<in> set held \<and> flagged k' HORIZON_REG_FLAG_DELETED) \<and>
      (\<forall>r. r \<noteq> p \<and> r \<noteq> q \<longrightarrow> map_option key_shape (rg_keys reg' r) = map_option key_shape (rg_keys reg r))"
proof (cases "rk_parent k = None \<or> rk_subkeys k \<noteq> []")
  case True
  then show ?thesis using assms by (auto simp: horizon_reg_delete_def split: option.splits)
next
  case False
  then obtain q where q: "rk_parent k = Some q" by auto
  from assms(1) obtain root where root: "rg_root reg = Some root" "keys_ok root held (rg_keys reg)" by (rule reg_okE)
  from delete_eq [OF root(2) assms(2,3) q, of now] False obtain qk i reg' where *:
    "rg_keys reg q = Some qk" "index_of (\<lambda>c. c = p) (rk_subkeys qk) = Some i"
    "horizon_reg_delete now p reg = Some (HORIZON_REG_SUCCESS, reg')"
    "same_shape ((rg_keys reg)(q \<mapsto> qk\<lparr>rk_subkeys := remove_at i (rk_subkeys qk)\<rparr>, p := left_key k)) (rg_keys reg')"
    by blast
  have ok': "reg_ok reg' held" using delete_ok [OF assms(1,2), of now] *(3) by auto
  have qp: "q \<noteq> p" using not_own_parent [OF root(2) assms(2)] q by auto
  have sh: "map_option key_shape (rg_keys reg' r) =
      map_option key_shape (((rg_keys reg)(q \<mapsto> qk\<lparr>rk_subkeys := remove_at i (rk_subkeys qk)\<rparr>, p := left_key k)) r)" for r
    using *(4) by (simp add: same_shape_def)
  obtain qk' where qk': "rg_keys reg' q = Some qk'" "key_shape qk' = key_shape (qk\<lparr>rk_subkeys := remove_at i (rk_subkeys qk)\<rparr>)"
    using sh [of q] qp by auto
  have lq: "linked_ok (rg_keys reg) q qk" using keys_okD [OF root(2) *(1)] by blast
  have i: "i < length (rk_subkeys qk)" "rk_subkeys qk ! i = p" using index_of_bound [OF *(2)] index_of_sat [OF *(2)] by auto
  have names: "subkey_names (rg_keys reg') qk' = remove_at i (subkey_names (rg_keys reg) qk)"
  proof -
    have "p \<notin> set (remove_at i (rk_subkeys qk))"
      using set_remove_at_distinct [of "rk_subkeys qk" i] lq i by (auto simp: linked_ok_def)
    moreover have "name_of (rg_keys reg') c = name_of (rg_keys reg) c" if "c \<noteq> p" for c
      unfolding name_of_shape [OF *(4)] using that *(1) by (simp add: name_of_def)
    ultimately show ?thesis using shape_cong(3) [OF qk'(2)]
      by (simp add: subkey_names_def flip: map_remove_at cong: map_cong) (metis map_cong)
  qed
  have "subkey_names (rg_keys reg) qk ! i = rk_name k" using i assms(2) by (simp add: subkey_names_def name_of_def)
  then have "\<not> has_name (subkey_names (rg_keys reg') qk') (rk_name k)"
    using removed_name [of "subkey_names (rg_keys reg) qk" i] lq i names by (simp add: linked_ok_def subkey_names_def)
  then have gone: "\<exists>i. horizon_reg_find_subkey reg' qk' (rk_name k) = Some (None, i)"
    by (rule find_gone [OF reg_ok_linked [OF ok' qk'(1)]])
  have refs: "rk_refs k = 1 \<longleftrightarrow> p \<notin> set held"
    using keys_okD(2) [OF root(2) assms(2)] assms(3) count_list_0_iff [of held p]
    by (auto simp: key_ok_def word_unat_eq_iff)
  have "case rg_keys reg' p of None \<Rightarrow> p \<notin> set held | Some k' \<Rightarrow> p \<in> set held \<and> flagged k' HORIZON_REG_FLAG_DELETED"
  proof (cases "rk_refs k = 1")
    case True
    then show ?thesis using sh [of p] refs by (simp add: left_key_def)
  next
    case False
    then obtain k' where k': "rg_keys reg' p = Some k'" "key_shape k' = key_shape (rk_refs_update (\<lambda>r. r - 1) (deleted_key k))"
      using sh [of p] by (auto simp: left_key_def)
    then show ?thesis using refs False deleted_key_flagged [of k] shape_cong(7) [OF k'(2)] by (simp add: flagged_def)
  qed
  then show ?thesis using False q *(3) ok' qk'(1) gone sh by auto
qed

text \<open>A key is renamed only to a proper name its parent has no subkey of, its own included. It is then found
  under the new name and not under the old one, and its siblings are found as before.\<close>

theorem registry_rename_exact:
  assumes "reg_ok reg held" "rg_keys reg p = Some k" "rk_parent k = Some q" "rg_keys reg q = Some qk"
    and "horizon_reg_rename mem now p n reg = Some (status, reg')"
  shows "if status \<noteq> 0 then reg' = reg
    else reg_ok reg' held \<and> name_ok n \<and> \<not> has_name (subkey_names (rg_keys reg) qk) n \<and>
      (\<exists>qk'. rg_keys reg' q = Some qk' \<and> set (rk_subkeys qk') = set (rk_subkeys qk) \<and>
        (\<forall>c\<in>set (rk_subkeys qk). name_of (rg_keys reg') c = (if c = p then n else name_of (rg_keys reg) c)) \<and>
        (\<exists>i. horizon_reg_find_subkey reg' qk' n = Some (Some p, i)) \<and>
        (\<exists>i. horizon_reg_find_subkey reg' qk' (rk_name k) = Some (None, i)))"
proof -
  from assms(1) obtain root where root: "rg_root reg = Some root" "keys_ok root held (rg_keys reg)" by (rule reg_okE)
  let ?ns = "subkey_names (rg_keys reg) qk"
  have lq: "linked_ok (rg_keys reg) q qk" using keys_okD [OF root(2) assms(4)] by blast
  have p: "p \<in> set (rk_subkeys qk)" using keys_okD(1) [OF root(2) assms(2)] assms(3,4) by (auto elim: parent_live)
  show ?thesis
  proof (cases "name_ok n \<and> \<not> has_name ?ns n \<and> mem Alloc_name")
    case False
    then have "status \<noteq> 0 \<and> reg' = reg"
      using assms find_subkey_ok [OF lq, of n]
      by (auto simp: horizon_reg_rename_def name_ok_def element_whole split: if_splits)
    then show ?thesis by simp
  next
    case True
    then have n: "name_ok n" "\<not> has_name ?ns n" "mem Alloc_name" by auto
    from rename_eq [where mem = mem and now = now, OF root(2) assms(2-4) n] obtain i qs reg1 where
      i: "index_of (\<lambda>c. c = p) (rk_subkeys qk) = Some i" and
      reg1: "reg1 = reg\<lparr>rg_keys := (rg_keys reg)(q \<mapsto> qk\<lparr>rk_subkeys :=
            move_entry i (name_place ?ns n) p (rk_subkeys qk)\<rparr>, p \<mapsto> k\<lparr>rk_name := n\<rparr>)\<rparr>" and
      eq: "horizon_reg_rename mem now p n reg = Some (HORIZON_REG_SUCCESS, touched now HORIZON_REG_CHANGE_NAME p qs reg1)"
      unfolding Let_def by blast
    have reg': "status = 0" "reg' = touched now HORIZON_REG_CHANGE_NAME p qs reg1" using eq assms(5) by simp_all
    have ok': "reg_ok reg' held" using rename_ok [OF assms(1,2), of mem now n] assms(5) by auto
    have qp: "q \<noteq> p" using not_own_parent [OF root(2) assms(2)] assms(3) by auto
    have sh: "same_shape (rg_keys reg1) (rg_keys reg')" by (simp add: reg' touched_shape)
    have "rg_keys reg1 q = Some (qk\<lparr>rk_subkeys := move_entry i (name_place ?ns n) p (rk_subkeys qk)\<rparr>)" using qp by (simp add: reg1)
    from same_shape_Some [OF sh this] obtain qk' where qk': "rg_keys reg' q = Some qk'"
      "key_shape qk' = key_shape (qk\<lparr>rk_subkeys := move_entry i (name_place ?ns n) p (rk_subkeys qk)\<rparr>)" .
    have ii: "i < length (rk_subkeys qk)" "rk_subkeys qk ! i = p" using index_of_bound [OF i] index_of_sat [OF i] by auto
    have moved: "rk_subkeys qk' = insert_at (if i < name_place ?ns n then name_place ?ns n - 1 else name_place ?ns n) p (remove_at i (rk_subkeys qk))"
      using shape_cong(3) [OF qk'(2)] move_entry_eq [OF ii(1) _ ii(2), of "name_place ?ns n"] name_place_le [of ?ns n]
      by (simp add: subkey_names_def)
    have same_set: "set (rk_subkeys qk') = set (rk_subkeys qk)"
      using set_remove_at_distinct [of "rk_subkeys qk" i] lq ii nth_mem [OF ii(1)] unfolding moved by (auto simp: linked_ok_def)
    have names: "name_of (rg_keys reg') c = (if c = p then n else name_of (rg_keys reg) c)" for c
      unfolding name_of_shape [OF sh] using qp assms(4) by (auto simp: reg1 name_of_def)
    have l': "linked_ok (rg_keys reg') q qk'" by (rule reg_ok_linked [OF ok' qk'(1)])
    have found: "\<exists>i. horizon_reg_find_subkey reg' qk' n = Some (Some p, i)"
      using find_own_name [OF l', of p] same_set p names [of p] by simp
    have "\<not> has_name (subkey_names (rg_keys reg') qk') (rk_name k)"
    proof
      assume "has_name (subkey_names (rg_keys reg') qk') (rk_name k)"
      then obtain c where c: "c \<in> set (rk_subkeys qk)" "fold_name (name_of (rg_keys reg') c) = fold_name (rk_name k)"
        using same_set by (auto simp: has_name_def subkey_names_def)
      have pk: "name_of (rg_keys reg) p = rk_name k" using assms(2) by (simp add: name_of_def)
      show False
      proof (cases "c = p")
        case True
        then have "fold_name n = fold_name (name_of (rg_keys reg) p)" using c(2) names pk by simp
        then show False using n(2) p by (auto simp: has_name_def subkey_names_def)
      next
        case False
        from c(1) obtain j where j: "j < length (rk_subkeys qk)" "rk_subkeys qk ! j = c" by (auto simp: in_set_conv_nth)
        have "sorted_names ?ns" using lq by (simp add: linked_ok_def)
        from sorted_names_inj [OF this, of j i] j ii c(2) False names pk show False by (simp add: subkey_names_def)
      qed
    qed
    from find_gone [OF l' this] show ?thesis using reg'(1) ok' n qk'(1) same_set names found by auto
  qed
qed

section \<open>An example\<close>

text \<open>A registry with a key \<open>A\<close> a caller has open, two keys below it, and notifications.\<close>

definition watch :: "u32 \<Rightarrow> ptr \<Rightarrow> u32 \<Rightarrow> bool \<Rightarrow> reg_notification" where
  "watch h event filt subtree = \<lparr>rn_hkey = h, rn_event = event, rn_filter = filt, rn_subtree = subtree\<rparr>"

definition example_key :: "string \<Rightarrow> ptr option \<Rightarrow> ptr list \<Rightarrow> u32 \<Rightarrow> reg_notification list \<Rightarrow> horizon_reg_key" where
  "example_key name parent subkeys refs ns =
     \<lparr>rk_name = ascii_name name, rk_class = [], rk_parent = parent, rk_subkeys = subkeys, rk_subkey_max = 8,
      rk_values = [], rk_value_max = 0, rk_flags = 0, rk_modif = 0, rk_refs = refs, rk_notify = ns\<rparr>"

definition example_keys :: "ptr \<Rightarrow> horizon_reg_key option" where
  "example_keys = [0 \<mapsto> example_key ''Registry'' None [1] 1 [watch 4 50 5 True, watch 4 51 5 False],
     1 \<mapsto> example_key ''A'' (Some 0) [2, 3] 2 [watch 8 52 4 False, watch 8 53 1 False],
     2 \<mapsto> example_key ''b'' (Some 1) [] 1 [], 3 \<mapsto> example_key ''C'' (Some 1) [] 1 []]"

definition example_reg :: horizon_reg where
  "example_reg = \<lparr>rg_root = Some 0, rg_keys = example_keys, rg_signals = [], rg_watched = False,
     rg_hives = (None, None), rg_generation = (0, 0)\<rparr>"

lemma example_keys_cases:
  "example_keys p = Some k \<longleftrightarrow>
     p = 0 \<and> k = example_key ''Registry'' None [1] 1 [watch 4 50 5 True, watch 4 51 5 False] \<or>
     p = 1 \<and> k = example_key ''A'' (Some 0) [2, 3] 2 [watch 8 52 4 False, watch 8 53 1 False] \<or>
     p = 2 \<and> k = example_key ''b'' (Some 1) [] 1 [] \<or> p = 3 \<and> k = example_key ''C'' (Some 1) [] 1 []"
  by (auto simp: example_keys_def)

lemma example_chains:
  "reg_chain example_keys 0 [0]" "reg_chain example_keys 1 [1, 0]"
  "reg_chain example_keys 2 [2, 1, 0]" "reg_chain example_keys 3 [3, 1, 0]"
proof -
  show 0: "reg_chain example_keys 0 [0]" by (rule reg_chain.top) (auto simp: example_keys_def example_key_def)
  show 1: "reg_chain example_keys 1 [1, 0]" by (rule reg_chain.up [OF _ _ 0]) (auto simp: example_keys_def example_key_def)
  show "reg_chain example_keys 2 [2, 1, 0]" by (rule reg_chain.up [OF _ _ 1]) (auto simp: example_keys_def example_key_def)
  show "reg_chain example_keys 3 [3, 1, 0]" by (rule reg_chain.up [OF _ _ 1]) (auto simp: example_keys_def example_key_def)
qed

lemma example_names:
  "name_of example_keys 0 = root_name" "name_of example_keys 1 = [65]" "name_of example_keys 2 = [98]"
  "name_of example_keys 3 = [67]"
  by (simp_all add: name_of_def example_keys_def example_key_def ascii_name_def root_name_def)

lemma example_reg_ok: "reg_ok example_reg [1]"
proof -
  have nm: "name_ok (ascii_name ''Registry'')" "name_ok (ascii_name ''A'')" "name_ok (ascii_name ''b'')" "name_ok (ascii_name ''C'')"
    by (simp_all add: name_ok_def ascii_name_def)
  have "linked_ok example_keys p k" if "example_keys p = Some k" for p k
    using that example_names unfolding example_keys_cases
    by (elim disjE conjE) (simp_all add: linked_ok_def example_key_def capacity_ok_def subkey_names_def sorted_names_def
        fold_unit_def example_keys_def)
  moreover have "key_ok 0 [1] p k" if "example_keys p = Some k" for p k
    using that nm unfolding example_keys_cases
    by (elim disjE conjE) (simp_all add: key_ok_def example_key_def values_ok_def value_names_def sorted_names_def
        capacity_ok_def flagged_def root_name_def)
  moreover have "\<exists>xs. reg_chain example_keys p xs" if "example_keys p = Some k" for p k
    using that example_chains unfolding example_keys_cases by blast
  ultimately have "keys_ok 0 [1] example_keys" by (auto simp: keys_ok_def example_keys_def)
  then show ?thesis by (simp add: reg_ok_def example_reg_def)
qed

lemma example_room: "reg_refs_room example_reg"
  by (auto simp: reg_refs_room_def example_reg_def example_keys_cases example_key_def)

lemma example_at:
  "rg_keys example_reg 1 = Some (example_key ''A'' (Some 0) [2, 3] 2 [watch 8 52 4 False, watch 8 53 1 False])"
  "rg_keys example_reg 2 = Some (example_key ''b'' (Some 1) [] 1 [])"
  by (simp_all add: example_reg_def example_keys_def)

lemma example_plain: "\<forall>q\<in>set [2, 1, 0]. plain_key (rg_keys example_reg) q"
  by (simp add: plain_key_def example_reg_def example_keys_def example_key_def flagged_def)

theorem registry_heap_safe_witness:
  "\<exists>reg reg' held. horizon_reg_init (\<lambda>_. True) 0 5 = Some reg \<and>
     foldl reg_step (Some (reg, [])) [Reg_create (\<lambda>_. True) 7 5 None (reg_prefix @ [92, 65]) 0 0 [66]] = Some (reg', held) \<and>
     reg_ok reg' held"
proof -
  obtain reg where reg: "horizon_reg_init (\<lambda>_. True) 0 5 = Some reg" "rg_keys reg 7 = None" "reg_refs_room reg"
    by (simp add: horizon_reg_init_def horizon_reg_alloc_key_def reg_refs_room_def)
  then have "admissible reg_step reg_op_ok (Some (reg, [])) [Reg_create (\<lambda>_. True) 7 5 None (reg_prefix @ [92, 65]) 0 0 [66]]"
    by simp
  from registry_heap_safe [OF reg(1) this] reg(1) show ?thesis by blast
qed

theorem registry_lookup_ends_witness:
  "\<exists>found. horizon_reg_lookup example_reg (Some 1) [98, 92, 99] 0 0 = Some found \<and> path_good example_reg 0 found"
  by (rule registry_lookup_ends [OF example_reg_ok]) simp

theorem registry_path_roundtrip_witness:
  "\<exists>name reg'. horizon_reg_full_name example_reg 2 = Some name \<and>
     horizon_reg_open example_reg None name 0 = Some (0, Some 2, reg') \<and> reg_ok reg' [2, 1]"
proof -
  have "reg_chain (rg_keys example_reg) 2 [2, 1, 0]" using example_chains(3) by (simp add: example_reg_def)
  from registry_path_roundtrip [OF example_reg_ok example_room example_at(2) _ this example_plain, of 0]
  show ?thesis by (simp add: example_key_def flagged_def)
qed

theorem registry_find_subkey_exact_witness:
  "horizon_reg_find_subkey example_reg
     (example_key ''A'' (Some 0) [2, 3] 2 [watch 8 52 4 False, watch 8 53 1 False]) [66] = Some (Some 2, 0)"
  using registry_find_subkey_exact [OF example_reg_ok example_at(1), of "[66]"] example_names
  by (simp add: example_key_def fold_unit_def example_reg_def)

theorem registry_values_refine_map_witness:
  "\<exists>reg' k'. foldl (value_step 1) (Some example_reg) [Val_set 1 [88] 1 [7, 8], Val_set 2 [120] 3 [9], Val_delete 3 [89]] = Some reg' \<and>
     rg_keys reg' 1 = Some k' \<and> horizon_reg_get_value k' [88] 10 = Inr (3, 1, [9])"
proof -
  have "admissible (value_step 1) value_op_ok (Some example_reg) [Val_set 1 [88] 1 [7, 8], Val_set 2 [120] 3 [9], Val_delete 3 [89]]"
    by simp
  from registry_values_refine_map [OF example_reg_ok example_at(1) _ this] obtain reg' k' where *:
    "foldl (value_step 1) (Some example_reg) [Val_set 1 [88] 1 [7, 8], Val_set 2 [120] 3 [9], Val_delete 3 [89]] = Some reg'"
    "rg_keys reg' 1 = Some k'"
    "\<forall>n room. horizon_reg_get_value k' n room =
       (case foldl map_step (value_map (example_key ''A'' (Some 0) [2, 3] 2 [watch 8 52 4 False, watch 8 53 1 False]))
           [Val_set 1 [88] 1 [7, 8], Val_set 2 [120] 3 [9], Val_delete 3 [89]] (fold_name n) of
          None \<Rightarrow> Inl 0xc0000034 | Some (ty, data) \<Rightarrow> Inr (ty, length data, take room data))"
    by (auto simp: example_key_def flagged_def)
  from *(3) have "horizon_reg_get_value k' [88] 10 = Inr (3, 1, [9])" by (simp add: fold_unit_def)
  with * show ?thesis by blast
qed

theorem registry_change_signals_witness:
  "\<exists>reg'. horizon_reg_set_value (\<lambda>_. True) 9 1 [88] 1 [7] example_reg = Some (0, reg') \<and> rg_signals reg' = [52, 50]"
proof -
  obtain status reg' where set: "horizon_reg_set_value (\<lambda>_. True) 9 1 [88] 1 [7] example_reg = Some (status, reg')"
    using set_value_ok [OF example_reg_ok example_at(1)] by blast
  then have ok: "status = 0" by (rule set_value_status [OF _ example_at(1)]) (simp_all add: example_key_def flagged_def)
  have "reg_chain (rg_keys example_reg) 1 [1, 0]" using example_chains(2) by (simp add: example_reg_def)
  from registry_change_signals [OF example_reg_ok example_at(1) this set [unfolded ok]]
  have "rg_signals reg' = [52, 50]"
    by (simp add: value_map_def hit_events_def notify_hit_def key_notify_def example_reg_def example_keys_def example_key_def watch_def)
  with set ok show ?thesis by simp
qed

theorem registry_delete_exact_witness:
  "\<exists>reg'. horizon_reg_delete 9 2 example_reg = Some (0, reg') \<and> rg_keys reg' 2 = None"
  using registry_delete_exact [OF example_reg_ok example_at(2), of 9]
  by (auto simp: example_key_def flagged_def split: option.splits)

theorem registry_rename_exact_witness:
  "\<exists>reg' qk' i. horizon_reg_rename (\<lambda>_. True) 9 2 [90] example_reg = Some (0, reg') \<and> rg_keys reg' 1 = Some qk' \<and>
     horizon_reg_find_subkey reg' qk' [90] = Some (Some 2, i)"
proof -
  have parent: "rk_parent (example_key ''b'' (Some 1) [] 1 []) = Some 1" by (simp add: example_key_def)
  have new: "name_ok [90]" "\<not> has_name (subkey_names (rg_keys example_reg)
      (example_key ''A'' (Some 0) [2, 3] 2 [watch 8 52 4 False, watch 8 53 1 False])) [90]"
    using example_names by (simp_all add: name_ok_def has_name_def subkey_names_def example_reg_def, simp add: example_key_def fold_unit_def)
  have "keys_ok 0 [1] (rg_keys example_reg)" using example_reg_ok by (simp add: reg_ok_def example_reg_def)
  from rename_eq [where mem = "\<lambda>_. True" and now = 9, OF this example_at(2) parent example_at(1) new]
  obtain reg' where ren: "horizon_reg_rename (\<lambda>_. True) 9 2 [90] example_reg = Some (0, reg')" by (auto simp: Let_def)
  from registry_rename_exact [OF example_reg_ok example_at(2) parent example_at(1) ren] ren show ?thesis by auto
qed

end
