(* ===== verification/HzRegText.thy ===== *)
theory HzRegText
  imports HzRegTree
begin

text \<open>
  The text files of the registry: the parser of \<open>dlls/ntdll/unix/horizon_registry.h\<close> (\<open>horizon_reg_load\<close>) and the
  writer of \<open>dlls/ntdll/unix/horizon_registry_server.h\<close> (\<open>horizon_registry_save_subkeys\<close>).

  Text is a list of bytes; a pointer into a line is what is left of the line before its null byte. What is written
  to a \<open>FILE\<close> is the list of the bytes written. The scratch buffer of the loader is its size: its contents are
  used before the next store to it. \<open>alloc n\<close> is what the allocator answers in the \<open>n\<close>th call of a load: which
  allocations succeed, and the address of a new key.
\<close>

section \<open>Characters and numbers of the C library\<close>

definition ascii :: "string \<Rightarrow> u8 list" where
  "ascii s = map of_char s"

definition is_digit :: "u8 \<Rightarrow> bool" where
  "is_digit c \<longleftrightarrow> 48 \<le> c \<and> c \<le> 57"

definition is_xdigit :: "u8 \<Rightarrow> bool" where
  "is_xdigit c \<longleftrightarrow> is_digit c \<or> (97 \<le> c \<and> c \<le> 102) \<or> (65 \<le> c \<and> c \<le> 70)"

definition is_space :: "u8 \<Rightarrow> bool" where
  "is_space c \<longleftrightarrow> c = 32 \<or> (9 \<le> c \<and> c \<le> 13)"

definition is_octal :: "u8 \<Rightarrow> bool" where
  "is_octal c \<longleftrightarrow> 48 \<le> c \<and> c \<le> 55"

definition digit_value :: "u8 \<Rightarrow> nat" where
  "digit_value c = (if is_digit c then unat c - 48 else if 97 \<le> c then unat c - 87 else unat c - 55)"

definition digit_char :: "nat \<Rightarrow> u8" where
  "digit_char d = (if d < 10 then of_nat (48 + d) else of_nat (87 + d))"

text \<open>\<open>%x\<close>, \<open>%o\<close> and \<open>%u\<close>, and the same with leading zeros.\<close>

fun number_text :: "nat \<Rightarrow> nat \<Rightarrow> u8 list" where
  "number_text base n =
     (if base < 2 \<or> n < base then [digit_char n] else number_text base (n div base) @ [digit_char (n mod base)])"

declare number_text.simps [simp del]

definition padded :: "nat \<Rightarrow> u8 list \<Rightarrow> u8 list" where
  "padded w ds = replicate (w - length ds) 48 @ ds"

definition number_value :: "nat \<Rightarrow> u8 list \<Rightarrow> nat" where
  "number_value base ds = foldl (\<lambda>n d. n * base + digit_value d) 0 ds"

text \<open>\<open>strtoul\<close>: the value as an unsigned long and what follows the number; the whole text when there is none.\<close>

definition strtoul :: "nat \<Rightarrow> u8 list \<Rightarrow> u64 \<times> u8 list" where
  "strtoul base s =
     (let s1 = dropWhile is_space s;
          neg = (s1 \<noteq> [] \<and> hd s1 = 45);
          s2 = (if s1 \<noteq> [] \<and> (hd s1 = 45 \<or> hd s1 = 43) then tl s1 else s1);
          s3 = (if base = 16 \<and> length s2 > 2 \<and> s2 ! 0 = 48 \<and> (s2 ! 1 = 120 \<or> s2 ! 1 = 88) \<and> is_xdigit (s2 ! 2)
                then drop 2 s2 else s2);
          good = (if base = 16 then is_xdigit else is_digit);
          ds = takeWhile good s3;
          v = number_value base ds
      in if ds = [] then (0, s)
         else (if v \<ge> 2 ^ 64 then - 1 else if neg then - of_nat v else of_nat v, dropWhile good s3))"

section \<open>Writing\<close>

text \<open>\<open>escapes[]\<close>\<close>

definition escape_letter :: "u16 \<Rightarrow> u8 option" where
  "escape_letter c =
     (if c = 7 then Some 97 else if c = 8 then Some 98 else if c = 9 then Some 116 else if c = 10 then Some 110
      else if c = 11 then Some 118 else if c = 12 then Some 102 else if c = 13 then Some 114
      else if c = 27 then Some 101 else None)"

text \<open>The text of a character; \<open>follows\<close> is the character after it.\<close>

definition save_char :: "u8 \<times> u8 \<Rightarrow> u16 \<Rightarrow> u16 option \<Rightarrow> u8 list" where
  "save_char escape c follows =
     (if c > 127
      then (case follows of
              Some d \<Rightarrow> if d < 128 \<and> is_xdigit (ucast d) then ascii (CHR 0x5c # ''x'') @ padded 4 (number_text 16 (unat c))
                        else ascii (CHR 0x5c # ''x'') @ number_text 16 (unat c)
            | None \<Rightarrow> ascii (CHR 0x5c # ''x'') @ number_text 16 (unat c))
      else if c < 32
      then (case escape_letter c of
              Some l \<Rightarrow> [0x5c, l]
            | None \<Rightarrow>
                (case follows of
                   Some d \<Rightarrow> if 48 \<le> d \<and> d \<le> 55 then 0x5c # padded 3 (number_text 8 (unat c)) else 0x5c # number_text 8 (unat c)
                 | None \<Rightarrow> 0x5c # number_text 8 (unat c)))
      else if c = BACKSLASH \<or> ucast c = fst escape \<or> ucast c = snd escape then [0x5c, ucast c]
      else [ucast c])"

fun horizon_registry_save_str :: "u8 \<times> u8 \<Rightarrow> u16 list \<Rightarrow> u8 list" where
  "horizon_registry_save_str escape [] = []"
| "horizon_registry_save_str escape (c # cs) =
     save_char escape c (case cs of [] \<Rightarrow> None | d # _ \<Rightarrow> Some d) @ horizon_registry_save_str escape cs"

abbreviation (input) quotes :: "u8 \<times> u8" where "quotes \<equiv> (34, 34)"
abbreviation (input) brackets :: "u8 \<times> u8" where "brackets \<equiv> (91, 93)"

abbreviation (input) HORIZON_REG_SZ :: u32 where "HORIZON_REG_SZ \<equiv> 1"
abbreviation (input) HORIZON_REG_EXPAND_SZ :: u32 where "HORIZON_REG_EXPAND_SZ \<equiv> 2"
abbreviation (input) HORIZON_REG_BINARY :: u32 where "HORIZON_REG_BINARY \<equiv> 3"
abbreviation (input) HORIZON_REG_DWORD :: u32 where "HORIZON_REG_DWORD \<equiv> 4"
abbreviation (input) HORIZON_REG_MULTI_SZ :: u32 where "HORIZON_REG_MULTI_SZ \<equiv> 7"

text \<open>The bytes of a value; \<open>count\<close> is the width of the line so far.\<close>

fun save_hex :: "nat \<Rightarrow> u8 list \<Rightarrow> u8 list" where
  "save_hex count [] = []"
| "save_hex count [b] = padded 2 (number_text 16 (unat b))"
| "save_hex count (b # c # bs) =
     padded 2 (number_text 16 (unat b)) @ [44] @
     (if count + 3 > 76 then ascii [CHR 0x5c, CHR 0x0a, CHR '' '', CHR '' ''] @ save_hex 2 (c # bs)
      else save_hex (count + 3) (c # bs))"

text \<open>\<open>memcpy( &dword, value->data, sizeof(dword) )\<close>\<close>

definition dword_of :: "u8 list \<Rightarrow> u32" where
  "dword_of bs = ucast (bs ! 0) OR push_bit 8 (ucast (bs ! 1)) OR push_bit 16 (ucast (bs ! 2)) OR push_bit 24 (ucast (bs ! 3))"

definition string_value :: "horizon_reg_value \<Rightarrow> bool" where
  "string_value v \<longleftrightarrow>
     (rv_type v = HORIZON_REG_SZ \<or> rv_type v = HORIZON_REG_EXPAND_SZ \<or> rv_type v = HORIZON_REG_MULTI_SZ) \<and>
     \<not> (length (rv_data v) < 2 \<or> length (rv_data v) mod 2 \<noteq> 0 \<or> last (units16 (rv_data v)) \<noteq> 0)"

definition save_name :: "horizon_reg_value \<Rightarrow> u8 list" where
  "save_name v = (if rv_name v \<noteq> [] then 34 # horizon_registry_save_str quotes (rv_name v) @ [34, 61] else [64, 61])"

definition horizon_registry_save_value :: "horizon_reg_value \<Rightarrow> u8 list" where
  "horizon_registry_save_value v =
     save_name v @
     (if string_value v
      then (if rv_type v \<noteq> HORIZON_REG_SZ then ascii ''str('' @ number_text 16 (unat (rv_type v)) @ ascii ''):'' else []) @
           34 # horizon_registry_save_str quotes (butlast (units16 (rv_data v))) @ [34, 10]
      else if rv_type v = HORIZON_REG_DWORD \<and> length (rv_data v) = 4
      then ascii ''dword:'' @ padded 8 (number_text 16 (unat (dword_of (rv_data v)))) @ [10]
      else let tag = (if rv_type v = HORIZON_REG_BINARY then ascii ''hex:''
                      else ascii ''hex('' @ number_text 16 (unat (rv_type v)) @ ascii ''):'')
           in tag @ save_hex (length (save_name v) + length tag) (rv_data v) @ [10])"

section \<open>Parsing strings\<close>

text \<open>At most \<open>n\<close> digits: the number they are and what follows them.\<close>

fun read_digits :: "(u8 \<Rightarrow> bool) \<Rightarrow> nat \<Rightarrow> nat \<Rightarrow> nat \<Rightarrow> u8 list \<Rightarrow> nat \<times> u8 list" where
  "read_digits good base 0 res p = (res, p)"
| "read_digits good base (Suc n) res [] = (res, [])"
| "read_digits good base (Suc n) res (c # p) =
     (if good c then read_digits good base n (res * base + digit_value c) p else (res, c # p))"

text \<open>At most \<open>n\<close> continuation bytes of UTF-8: how many are missing, the character and what follows.\<close>

fun read_tail :: "nat \<Rightarrow> nat \<Rightarrow> u8 list \<Rightarrow> nat \<times> nat \<times> u8 list" where
  "read_tail 0 res p = (0, res, p)"
| "read_tail (Suc n) res [] = (Suc n, res, [])"
| "read_tail (Suc n) res (c # p) =
     (if c AND 0xc0 = 0x80 then read_tail n (res * 64 + unat (c AND 0x3f)) p else (Suc n, res, c # p))"

text \<open>The bits of the first byte of a character that is not ASCII, and how many bytes follow.\<close>

definition utf8_start :: "u8 \<Rightarrow> nat \<times> nat" where
  "utf8_start c = (if 0xf0 \<le> c \<and> c \<le> 0xf4 then (unat (c AND 0x07), 3)
     else if 0xe0 \<le> c then (unat (c AND 0x0f), 2) else (unat (c AND 0x1f), 1))"

text \<open>The units the character stands for, as many as there is room for, and what follows.\<close>

definition read_utf8 :: "nat \<Rightarrow> u8 \<Rightarrow> u8 list \<Rightarrow> u16 list \<times> u8 list" where
  "read_utf8 room c p =
     (if c < 0xc2 then ([], p)
      else (case read_tail (snd (utf8_start c)) (fst (utf8_start c)) p of
              (missing, res, p) \<Rightarrow>
                if missing \<noteq> 0 \<or> res > 0x10ffff then ([], p)
                else if res \<le> 0xffff then ([of_nat res], p)
                else (take room [0xd800 OR of_nat ((res - 0x10000) div 1024), 0xdc00 OR of_nat ((res - 0x10000) mod 1024)], p)))"

definition read_plain :: "nat \<Rightarrow> u8 \<Rightarrow> u8 list \<Rightarrow> u16 list \<times> u8 list" where
  "read_plain room c p = (if c < 0x80 then ([ucast c], p) else read_utf8 room c p)"

text \<open>\<open>switch (*p)\<close> after a backslash; \<open>None\<close> for an escape that is not known.\<close>

definition read_escape :: "u8 \<Rightarrow> u8 list \<Rightarrow> (u16 \<times> u8 list) option" where
  "read_escape c p =
     (if c = 97 then Some (7, p) else if c = 98 then Some (8, p) else if c = 101 then Some (0x1b, p)
      else if c = 102 then Some (12, p) else if c = 110 then Some (10, p) else if c = 114 then Some (13, p)
      else if c = 116 then Some (9, p) else if c = 118 then Some (11, p)
      else if c = 120
      then (if p = [] \<or> \<not> is_xdigit (hd p) then Some (120, p)
            else case read_digits is_xdigit 16 4 0 p of (res, p) \<Rightarrow> Some (of_nat res, p))
      else if is_octal c then (case read_digits is_octal 8 3 0 (c # p) of (res, p) \<Rightarrow> Some (of_nat res, p))
      else None)"

lemma read_digits_length: "length (snd (read_digits good base n res p)) \<le> length p"
  by (induction good base n res p rule: read_digits.induct) auto

lemma read_digits_shorter: "good c \<Longrightarrow> length (snd (read_digits good base (Suc n) res (c # p))) \<le> length p"
  using read_digits_length [of good base n] by auto

lemma read_tail_length: "length (snd (snd (read_tail n res p))) \<le> length p"
  by (induction n res p rule: read_tail.induct) auto

lemma read_plain_length: "length (snd (read_plain room c p)) \<le> length p"
proof -
  obtain m r q where t: "read_tail (snd (utf8_start c)) (fst (utf8_start c)) p = (m, r, q)" by (cases "read_tail (snd (utf8_start c)) (fst (utf8_start c)) p") auto
  then have "length q \<le> length p" using read_tail_length [of "snd (utf8_start c)" "fst (utf8_start c)" p] by simp
  then show ?thesis by (simp add: read_plain_def read_utf8_def t)
qed

lemma read_escape_length: "read_escape c p = Some (u, q) \<Longrightarrow> length q \<le> length p"
  using read_digits_length [of is_xdigit 16 4 0 p] read_digits_shorter [of is_octal c 8 2 0 p]
  by (auto simp: read_escape_def split: if_splits prod.splits)

text \<open>One round of the loop of \<open>horizon_reg_parse_str\<close>: the units stored and what follows, or the end of the text.\<close>

definition parse_item :: "nat \<Rightarrow> u8 \<Rightarrow> u8 list \<Rightarrow> (u16 list \<times> u8 list) option" where
  "parse_item room c q =
     (if c = 0x5c
      then (case q of
              [] \<Rightarrow> None
            | d # r \<Rightarrow> (case read_escape d r of Some (u, r) \<Rightarrow> Some ([u], r) | None \<Rightarrow> Some (read_plain room d r)))
      else Some (read_plain room c q))"

lemma parse_item_length: "parse_item room c q = Some (us, r) \<Longrightarrow> length r \<le> length q"
  using read_plain_length [of room c q] read_plain_length [of room "hd q" "tl q"] read_escape_length [of "hd q" "tl q"]
  by (auto simp: parse_item_def split: if_splits list.splits option.splits)

text \<open>The units stored, how much room is left, and the rest of the text when the loop is left.\<close>

function parse_loop :: "nat \<Rightarrow> u8 \<Rightarrow> u16 list \<Rightarrow> u8 list \<Rightarrow> u16 list \<times> nat \<times> u8 list" where
  "parse_loop room endchar stored p =
     (case p of
        [] \<Rightarrow> (stored, room, [])
      | c # q \<Rightarrow>
          if c = endchar \<or> room = 0 then (stored, room, p)
          else (case parse_item room c q of
                  None \<Rightarrow> (stored, room, [])
                | Some (us, r) \<Rightarrow> parse_loop (room - length us) endchar (stored @ us) r))"
  by pat_completeness auto
termination
  by (relation "measure (\<lambda>(_, _, _, p). length p)") (auto dest: parse_item_length)

declare parse_loop.simps [simp del]

text \<open>The string without its null and what follows the end character; \<open>bytes\<close> is the size of the buffer.\<close>

definition horizon_reg_parse_str :: "nat \<Rightarrow> u8 list \<Rightarrow> u8 \<Rightarrow> (u16 list \<times> u8 list) option" where
  "horizon_reg_parse_str bytes src endchar =
     (case parse_loop (bytes div 2) endchar [] src of
        (us, room, p) \<Rightarrow> if room = 0 \<or> p = [] then None else Some (us, tl p))"

section \<open>The loader\<close>

type_synonym reg_allocator = "nat \<Rightarrow> reg_memory \<times> ptr"

record horizon_reg_loader =
  ld_text :: "u8 list"
  ld_line :: "u8 list"
  ld_line_size :: nat
  ld_tmp_size :: nat
  ld_calls :: nat

text \<open>What the allocator answers next.\<close>

definition ask :: "reg_allocator \<Rightarrow> horizon_reg_loader \<Rightarrow> reg_memory \<times> ptr \<times> horizon_reg_loader" where
  "ask alloc ld = (fst (alloc (ld_calls ld)), snd (alloc (ld_calls ld)), ld\<lparr>ld_calls := Suc (ld_calls ld)\<rparr>)"

definition horizon_reg_next_line :: "reg_allocator \<Rightarrow> horizon_reg_loader \<Rightarrow> int \<times> horizon_reg_loader" where
  "horizon_reg_next_line alloc ld =
     (if ld_text ld = [] then (0, ld)
      else let eol = dropWhile (\<lambda>c. c \<noteq> 10) (ld_text ld);
               whole = takeWhile (\<lambda>c. c \<noteq> 10) (ld_text ld);
               line = (if whole \<noteq> [] \<and> last whole = 13 then butlast whole else whole)
           in case ask alloc ld of (mem, _, ld') \<Rightarrow>
                if length line + 1 > ld_line_size ld \<and> \<not> mem Alloc_line then (-1, ld')
                else (1, ld'\<lparr>ld_line := takeWhile (\<lambda>c. c \<noteq> 0) line,
                              ld_line_size := max (ld_line_size ld) (length line + 1),
                              ld_text := tl eol\<rparr>))"

definition horizon_reg_tmp_space :: "reg_allocator \<Rightarrow> nat \<Rightarrow> horizon_reg_loader \<Rightarrow> bool \<times> horizon_reg_loader" where
  "horizon_reg_tmp_space alloc n ld =
     (let bytes = (n + 1) div 2 * 2
      in if ld_tmp_size ld \<ge> bytes then (True, ld)
         else case ask alloc ld of (mem, _, ld') \<Rightarrow>
           if bytes > 0x7fffffff \<or> \<not> mem Alloc_tmp then (False, ld') else (True, ld'\<lparr>ld_tmp_size := bytes\<rparr>))"

section \<open>Keys\<close>

abbreviation (input) HORIZON_REG_TICKS_1601_TO_1970 :: u64 where "HORIZON_REG_TICKS_1601_TO_1970 \<equiv> 116444736000000000"

text \<open>\<open>sscanf( text, " %u", &mod ) == 1\<close>\<close>

definition scan_unsigned :: "u8 list \<Rightarrow> u32 option" where
  "scan_unsigned s = (case strtoul 10 s of (v, rest) \<Rightarrow> if rest = s then None else Some (ucast v))"

text \<open>The loop over the elements of a path, each created when it is missing.\<close>

lemma skip_after_element: "n \<noteq> [] \<Longrightarrow> length (skip_backslashes (drop (horizon_reg_element n) n)) < length n"
  by (cases n) (auto simp: horizon_reg_element_def skip_backslashes_def intro: le_less_trans [OF length_dropWhile_le])

lemma skip_no_element: "n \<noteq> [] \<Longrightarrow> horizon_reg_element n = 0 \<Longrightarrow> length (skip_backslashes n) < length n"
  using skip_after_element [of n] by simp

function load_path ::
    "reg_allocator \<Rightarrow> u64 \<Rightarrow> u16 list \<Rightarrow> ptr \<Rightarrow> horizon_reg_loader \<Rightarrow> horizon_reg \<Rightarrow>
       (ptr option \<times> horizon_reg_loader \<times> horizon_reg) option" where
  "load_path alloc modif name key ld reg =
     (if name = [] then Some (Some key, ld, reg)
      else let elem = horizon_reg_element name; rest = skip_backslashes (drop elem name)
      in if elem > HORIZON_REG_MAX_NAME then Some (None, ld, reg)
      else if elem = 0 then load_path alloc modif rest key ld reg
      else do {
        k \<leftarrow> rg_keys reg key;
        (found, index) \<leftarrow> horizon_reg_find_subkey reg k (take elem name);
        (case found of
           Some sub \<Rightarrow> load_path alloc modif rest sub ld reg
         | None \<Rightarrow>
             (case ask alloc ld of (mem, p, ld) \<Rightarrow>
                (case horizon_reg_alloc_key mem (take elem name) modif of
                   None \<Rightarrow> Some (None, ld, reg)
                 | Some sk \<Rightarrow>
                     do { reg \<leftarrow> Some (reg\<lparr>rg_keys := (rg_keys reg)(p \<mapsto> sk)\<rparr>);
                          (failed, reg) \<leftarrow> horizon_reg_link mem key p index reg;
                          if failed \<noteq> 0 then do { reg \<leftarrow> horizon_reg_release p reg; Some (None, ld, reg) }
                          else load_path alloc modif rest p ld reg }))) })"
  by pat_completeness auto
termination
  by (relation "measure (\<lambda>(_, _, name, _). length name)") (auto intro: skip_after_element skip_no_element)

declare load_path.simps [simp del]

definition horizon_reg_load_key ::
    "reg_allocator \<Rightarrow> u64 \<Rightarrow> ptr \<Rightarrow> u8 list \<Rightarrow> horizon_reg_loader \<Rightarrow> horizon_reg \<Rightarrow>
       (ptr option \<times> horizon_reg_loader \<times> horizon_reg) option" where
  "horizon_reg_load_key alloc now key buffer ld reg =
     (case horizon_reg_tmp_space alloc ((length buffer + 1) * 2) ld of
        (False, ld) \<Rightarrow> Some (None, ld, reg)
      | (True, ld) \<Rightarrow>
          (case horizon_reg_parse_str (ld_tmp_size ld) buffer 93 of
             None \<Rightarrow> Some (None, ld, reg)
           | Some (name, rest) \<Rightarrow>
               let modif = (case scan_unsigned rest of
                     Some t \<Rightarrow> ucast t * 10000000 + HORIZON_REG_TICKS_1601_TO_1970
                   | None \<Rightarrow> now)
               in load_path alloc modif name key ld reg))"

section \<open>Values\<close>

text \<open>Type, how to parse the data, and the text of the data.\<close>

definition data_types :: "(u8 list \<times> u32 option \<times> u32) list" where
  "data_types =
     [(ascii ''\"'', Some HORIZON_REG_SZ, HORIZON_REG_SZ), (ascii ''str:\"'', Some HORIZON_REG_SZ, HORIZON_REG_SZ),
      (ascii ''str(2):\"'', Some HORIZON_REG_EXPAND_SZ, HORIZON_REG_SZ),
      (ascii ''str(7):\"'', Some HORIZON_REG_MULTI_SZ, HORIZON_REG_SZ),
      (ascii ''hex:'', Some HORIZON_REG_BINARY, HORIZON_REG_BINARY),
      (ascii ''dword:'', Some HORIZON_REG_DWORD, HORIZON_REG_DWORD), (ascii ''hex('', None, HORIZON_REG_BINARY)]"

definition begins :: "u8 list \<Rightarrow> u8 list \<Rightarrow> bool" where
  "begins tag s \<longleftrightarrow> take (length tag) s = tag"

definition horizon_reg_data_type :: "u8 list \<Rightarrow> (u32 \<times> u32 \<times> u8 list) option" where
  "horizon_reg_data_type buffer =
     (case List.find (\<lambda>(tag, _, _). begins tag buffer) data_types of
        None \<Rightarrow> None
      | Some (tag, Some ty, parse) \<Rightarrow> Some (ty, parse, drop (length tag) buffer)
      | Some (tag, None, parse) \<Rightarrow>
          (case strtoul 16 (drop 4 buffer) of
             (v, rest) \<Rightarrow> if rest = drop 4 buffer \<or> \<not> begins (ascii ''):'') rest then None
                          else Some (ucast v, parse, drop 2 rest)))"

definition skip_spaces :: "u8 list \<Rightarrow> u8 list" where
  "skip_spaces p = dropWhile is_space p"

text \<open>After a byte: spaces, a comma and spaces.\<close>

definition skip_comma :: "u8 list \<Rightarrow> u8 list" where
  "skip_comma p = (let q = skip_spaces p in skip_spaces (if q \<noteq> [] \<and> hd q = 44 then tl q else q))"

lemma skip_spaces_length: "length (skip_spaces p) \<le> length p"
  by (simp add: skip_spaces_def length_dropWhile_le)

lemma skip_comma_length: "length (skip_comma p) \<le> length p"
  using skip_spaces_length [of p] skip_spaces_length [of "tl (skip_spaces p)"] skip_spaces_length [of "skip_spaces p"]
  by (auto simp: skip_comma_def Let_def)

text \<open>Bytes, at most \<open>room\<close> of them, and what follows them; nothing for a number that is no byte or has no room.\<close>

lemma xdigit_not_space: "is_xdigit c \<Longrightarrow> \<not> is_space c \<and> c \<noteq> 45 \<and> c \<noteq> 43"
  unfolding is_xdigit_def is_digit_def is_space_def by (auto simp: word_le_nat_alt)

lemma strtoul_shorter:
  assumes "is_xdigit c"
  shows "length (snd (strtoul 16 (c # p))) < length (c # p)"
proof -
  have s: "dropWhile is_space (c # p) = c # p" "c \<noteq> 45" "c \<noteq> 43" using xdigit_not_space [OF assms] by auto
  show ?thesis
  proof (cases "length (c # p) > 2 \<and> (c # p) ! 0 = 48 \<and> ((c # p) ! 1 = 120 \<or> (c # p) ! 1 = 88) \<and> is_xdigit ((c # p) ! 2)")
    case True
    then obtain d e q where p: "p = d # e # q" "is_xdigit e" by (cases p rule: list.exhaust [case_product list.exhaust]; cases "tl p") auto
    then show ?thesis using True s length_dropWhile_le [of is_xdigit q] by (simp add: strtoul_def Let_def)
  next
    case False
    then show ?thesis using s assms length_dropWhile_le [of is_xdigit p] by (auto simp: strtoul_def Let_def)
  qed
qed

function parse_hex :: "nat \<Rightarrow> u8 list \<Rightarrow> (u8 list \<times> u8 list) option" where
  "parse_hex room p =
     (if p \<noteq> [] \<and> is_xdigit (hd p)
      then (case strtoul 16 p of
              (v, rest) \<Rightarrow>
                if v > 0xff \<or> room = 0 then None
                else do { (bs, q) \<leftarrow> parse_hex (room - 1) (skip_comma rest); Some (ucast v # bs, q) })
      else Some ([], p))"
  by pat_completeness auto
termination
proof (relation "measure (\<lambda>(_, p). length p)", simp_all)
  fix p :: "u8 list" and v rest
  assume p: "p \<noteq> [] \<and> is_xdigit (hd p)" and r: "(v, rest) = strtoul 16 p"
  then have "length rest < length p" using strtoul_shorter [of "hd p" "tl p"] by (metis list.collapse snd_conv)
  with skip_comma_length [of rest] show "length (skip_comma rest) < length p" by simp
qed

declare parse_hex.simps [simp del]

definition horizon_reg_parse_hex :: "nat \<Rightarrow> u8 list \<Rightarrow> (u8 list \<times> u8 list) option" where
  "horizon_reg_parse_hex room buffer = parse_hex room buffer"

text \<open>
  Hex bytes, continued on the next line after a backslash: the bytes, or \<open>None\<close> for an error; \<open>bs\<close> are those read
  so far.
\<close>

lemma tl_dropWhile_shorter: "t \<noteq> [] \<Longrightarrow> length (tl (dropWhile P t)) < length t"
  using length_dropWhile_le [of P t] by (cases t) auto

lemma next_line_shorter:
  "horizon_reg_next_line alloc ld = (1, ld') \<Longrightarrow> length (ld_text ld') < length (ld_text ld)"
  using tl_dropWhile_shorter [of "ld_text ld" "\<lambda>c. c \<noteq> 10"]
  by (auto simp: horizon_reg_next_line_def Let_def ask_def split: if_splits)

lemma tmp_space_text [simp]: "ld_text (snd (horizon_reg_tmp_space alloc n ld)) = ld_text ld"
  by (simp add: horizon_reg_tmp_space_def ask_def Let_def)

lemma more_line_shorter:
  "(True, ld1) = horizon_reg_tmp_space alloc n ld \<Longrightarrow> (1, ld2) = horizon_reg_next_line alloc ld1 \<Longrightarrow>
     length (ld_text ld2) < length (ld_text ld)"
  using next_line_shorter [of alloc ld1 ld2] tmp_space_text [of alloc n ld] by (metis snd_conv)

function hex_lines ::
    "reg_allocator \<Rightarrow> u8 list \<Rightarrow> u8 list \<Rightarrow> horizon_reg_loader \<Rightarrow> u8 list option \<times> horizon_reg_loader" where
  "hex_lines alloc bs p ld =
     (let room = 1 + length p div 2
      in case horizon_reg_tmp_space alloc (length bs + room) ld of
           (False, ld1) \<Rightarrow> (None, ld1)
         | (True, ld1) \<Rightarrow>
             (case horizon_reg_parse_hex room p of
                None \<Rightarrow> (None, ld1)
              | Some (new, rest) \<Rightarrow>
                  if skip_spaces rest = [] then (Some (bs @ new), ld1)
                  else if hd (skip_spaces rest) \<noteq> 0x5c then (None, ld1)
                  else (case horizon_reg_next_line alloc ld1 of
                          (got, ld2) \<Rightarrow>
                            if got \<noteq> 1 then (None, ld2)
                            else hex_lines alloc (bs @ new) (skip_spaces (ld_line ld2)) ld2)))"
  by pat_completeness auto
termination
  by (relation "measure (\<lambda>(_, _, _, ld). length (ld_text ld))") (auto simp: Let_def intro: more_line_shorter)

declare hex_lines.simps [simp del]

text \<open>The name of a value and what follows it.\<close>

definition load_name :: "nat \<Rightarrow> u8 list \<Rightarrow> (u16 list \<times> u8 list) option" where
  "load_name bytes p = (if p \<noteq> [] \<and> hd p = 64 then Some ([], tl p) else horizon_reg_parse_str bytes (tl p) 34)"

definition dword_bytes_of :: "u32 \<Rightarrow> u8 list" where
  "dword_bytes_of w = [ucast w, ucast (drop_bit 8 w), ucast (drop_bit 16 w), ucast (drop_bit 24 w)]"

text \<open>The data of a value as its type says; \<open>None\<close> for \<open>goto error\<close>.\<close>

definition load_data :: "reg_allocator \<Rightarrow> u8 list \<Rightarrow> horizon_reg_loader \<Rightarrow> (u32 \<times> u8 list) option \<times> horizon_reg_loader" where
  "load_data alloc p ld =
     (case horizon_reg_data_type p of
        None \<Rightarrow> (None, ld)
      | Some (ty, parse, p) \<Rightarrow>
          if parse = HORIZON_REG_SZ
          then (case horizon_reg_parse_str (ld_tmp_size ld) p 34 of
                  None \<Rightarrow> (None, ld)
                | Some (us, _) \<Rightarrow> (Some (ty, bytes16 (us @ [0])), ld))
          else if parse = HORIZON_REG_DWORD then (Some (ty, dword_bytes_of (ucast (fst (strtoul 16 p)))), ld)
          else (case hex_lines alloc [] p ld of
                  (None, ld) \<Rightarrow> (None, ld)
                | (Some bs, ld) \<Rightarrow> (Some (ty, bs), ld)))"

text \<open>
  Whether the line was read. The value is there before its data is parsed, and empty when the data is not good.
\<close>

definition horizon_reg_load_value ::
    "reg_allocator \<Rightarrow> ptr \<Rightarrow> u8 list \<Rightarrow> horizon_reg_loader \<Rightarrow> horizon_reg \<Rightarrow> (bool \<times> horizon_reg_loader \<times> horizon_reg) option" where
  "horizon_reg_load_value alloc key buffer ld reg =
     (case horizon_reg_tmp_space alloc ((length buffer + 1) * 2) ld of
        (False, ld) \<Rightarrow> Some (False, ld, reg)
      | (True, ld) \<Rightarrow>
          (case load_name (ld_tmp_size ld) buffer of
             None \<Rightarrow> Some (False, ld, reg)
           | Some (name, p) \<Rightarrow>
               if skip_spaces p = [] \<or> hd (skip_spaces p) \<noteq> 61 then Some (False, ld, reg)
               else do {
                 let p = skip_spaces (tl (skip_spaces p));
                 k \<leftarrow> rg_keys reg key;
                 (case horizon_reg_find_value k name of
                    (value, index) \<Rightarrow>
                      (case ask alloc ld of (mem, _, ld) \<Rightarrow>
                        (case (if value = None then horizon_reg_insert_value mem k name index else (0, k)) of
                           (status, k) \<Rightarrow>
                             if status \<noteq> 0 then do { reg \<leftarrow> upd_key key (\<lambda>_. k) reg; Some (False, ld, reg) }
                             else (case load_data alloc p ld of
                                     (None, ld) \<Rightarrow>
                                       do { reg \<leftarrow> upd_key key (\<lambda>_. store_value index HORIZON_REG_NONE [] k) reg;
                                            Some (False, ld, reg) }
                                   | (Some (ty, data), ld) \<Rightarrow>
                                       (case ask alloc ld of (mem, _, ld) \<Rightarrow>
                                          if data \<noteq> [] \<and> \<not> mem Alloc_data
                                          then do { reg \<leftarrow> upd_key key (\<lambda>_. store_value index HORIZON_REG_NONE [] k) reg;
                                                    Some (False, ld, reg) }
                                          else do { reg \<leftarrow> upd_key key (\<lambda>_. store_value index ty data k) reg;
                                                    Some (True, ld, reg) }))))) }))"

section \<open>Options and files\<close>

definition horizon_reg_load_option ::
    "reg_allocator \<Rightarrow> ptr \<Rightarrow> u8 list \<Rightarrow> horizon_reg_loader \<Rightarrow> horizon_reg \<Rightarrow> (horizon_reg_loader \<times> horizon_reg) option" where
  "horizon_reg_load_option alloc key buffer ld reg =
     (if begins (ascii ''#time='') buffer
      then let modif = foldl (\<lambda>m c. push_bit 4 m OR of_nat (digit_value c)) 0 (takeWhile is_xdigit (drop 6 buffer))
           in do { reg \<leftarrow> upd_key key (rk_modif_update (\<lambda>_. modif)) reg; Some (ld, reg) }
      else if begins (ascii ''#class=\"'') buffer
      then (case horizon_reg_tmp_space alloc ((length buffer + 1) * 2) ld of
              (False, ld) \<Rightarrow> Some (ld, reg)
            | (True, ld) \<Rightarrow>
                (case horizon_reg_parse_str (ld_tmp_size ld) (drop 8 buffer) 34 of
                   None \<Rightarrow> Some (ld, reg)
                 | Some (us, _) \<Rightarrow>
                     (case ask alloc ld of (mem, _, ld) \<Rightarrow>
                        if \<not> mem Alloc_class then Some (ld, reg)
                        else do { reg \<leftarrow> upd_key key (rk_class_update (\<lambda>_. us @ [0])) reg; Some (ld, reg) })))
      else if begins (ascii ''#link'') buffer
      then do { reg \<leftarrow> upd_key key (\<lambda>k. k\<lparr>rk_flags := rk_flags k OR HORIZON_REG_FLAG_SYMLINK\<rparr>) reg; Some (ld, reg) }
      else Some (ld, reg))"

text \<open>What one line does; the current key, whether the line counts as an error, and the state.\<close>

definition load_line ::
    "reg_allocator \<Rightarrow> u64 \<Rightarrow> ptr \<Rightarrow> ptr option \<Rightarrow> horizon_reg_loader \<Rightarrow> horizon_reg \<Rightarrow>
       (ptr option \<times> bool \<times> horizon_reg_loader \<times> horizon_reg) option" where
  "load_line alloc now base key ld reg =
     (case skip_spaces (ld_line ld) of
        [] \<Rightarrow> Some (key, False, ld, reg)
      | c # p \<Rightarrow>
          if c = 91 then do { (key, ld, reg) \<leftarrow> horizon_reg_load_key alloc now base p ld reg; Some (key, key = None, ld, reg) }
          else if c = 64 \<or> c = 34
          then (case key of
                  None \<Rightarrow> Some (key, True, ld, reg)
                | Some q \<Rightarrow> do { (good, ld, reg) \<leftarrow> horizon_reg_load_value alloc q (c # p) ld reg; Some (key, \<not> good, ld, reg) })
          else if c = 35
          then (case key of
                  None \<Rightarrow> Some (key, False, ld, reg)
                | Some q \<Rightarrow> do { (ld, reg) \<leftarrow> horizon_reg_load_option alloc q (c # p) ld reg; Some (key, False, ld, reg) })
          else Some (key, c \<noteq> 59, ld, reg))"

text \<open>The loop over the lines: status, number of errors and the registry.\<close>

partial_function (option) load_lines ::
    "reg_allocator \<Rightarrow> u64 \<Rightarrow> ptr \<Rightarrow> ptr option \<Rightarrow> u32 \<Rightarrow> horizon_reg_loader \<Rightarrow> horizon_reg \<Rightarrow> (u32 \<times> u32 \<times> horizon_reg) option" where
  "load_lines alloc now base key errors ld reg =
     (case horizon_reg_next_line alloc ld of
        (got, ld) \<Rightarrow>
          if got = -1 then Some (HORIZON_REG_NO_MEMORY, errors, reg)
          else if got \<noteq> 1 then Some (HORIZON_REG_SUCCESS, errors, reg)
          else do { (key, bad, ld, reg) \<leftarrow> load_line alloc now base key ld reg;
                    load_lines alloc now base key (if bad then errors + 1 else errors) ld reg })"

abbreviation (input) HORIZON_REG_NOT_REGISTRY_FILE :: u32 where "HORIZON_REG_NOT_REGISTRY_FILE \<equiv> 0xc000015c"

definition new_loader :: "u8 list \<Rightarrow> horizon_reg_loader" where
  "new_loader file = \<lparr>ld_text = file, ld_line = [], ld_line_size = 0, ld_tmp_size = 0, ld_calls = 0\<rparr>"

definition horizon_reg_load ::
    "reg_allocator \<Rightarrow> u64 \<Rightarrow> ptr \<Rightarrow> u8 list \<Rightarrow> horizon_reg \<Rightarrow> (u32 \<times> u32 \<times> horizon_reg) option" where
  "horizon_reg_load alloc now base file reg =
     (case horizon_reg_next_line alloc (new_loader file) of
        (got, ld) \<Rightarrow>
          if got \<noteq> 1 \<or> ld_line ld \<noteq> ascii ''WINE REGISTRY Version 2'' then Some (HORIZON_REG_NOT_REGISTRY_FILE, 0, reg)
          else load_lines alloc now base None 0 ld reg)"

section \<open>Saving keys\<close>

fun path_names :: "horizon_reg_key list \<Rightarrow> u8 list" where
  "path_names [] = []"
| "path_names [k] = horizon_registry_save_str brackets (rk_name k)"
| "path_names (k # ks) = horizon_registry_save_str brackets (rk_name k) @ [0x5c, 0x5c] @ path_names ks"

definition horizon_registry_save_path :: "horizon_reg \<Rightarrow> ptr list \<Rightarrow> u8 list option" where
  "horizon_registry_save_path reg path = map_option path_names (those (map (rg_keys reg) path))"

text \<open>\<open>(unsigned int)((key->modif - HORIZON_REG_TICKS_1601_TO_1970) / 10000000)\<close>, a signed division\<close>

definition unix_seconds :: "u64 \<Rightarrow> u32" where
  "unix_seconds modif =
     (let ticks = sint modif - 116444736000000000
      in word_of_int (if ticks \<ge> 0 then ticks div 10000000 else - (- ticks div 10000000)))"

definition save_key :: "horizon_reg_key \<Rightarrow> u8 list \<Rightarrow> u8 list" where
  "save_key k path =
     [10, 91] @ path @ ascii ''] '' @
     number_text 10 (unat (unix_seconds (rk_modif k))) @ [10] @
     ascii ''#time='' @ number_text 16 (unat (drop_bit 32 (rk_modif k))) @
     padded 8 (number_text 16 (unat (ucast (rk_modif k) :: u32))) @ [10] @
     (if rk_class k \<noteq> [] then ascii ''#class=\"'' @ horizon_registry_save_str quotes (rk_class k) @ [34, 10] else []) @
     (if flagged k HORIZON_REG_FLAG_SYMLINK then ascii ''#link'' @ [10] else []) @
     concat (map horizon_registry_save_value (rk_values k))"

text \<open>
  \<open>horizon_registry_save_subkeys\<close>: the keys still to write, each with the keys on the path to it below the hive.
\<close>

partial_function (option) save_keys :: "horizon_reg \<Rightarrow> (ptr \<times> ptr list) list \<Rightarrow> u8 list option" where
  "save_keys reg ws =
     (case ws of
        [] \<Rightarrow> Some []
      | (p, path) # ws \<Rightarrow>
          do { k \<leftarrow> rg_keys reg p;
               if flagged k HORIZON_REG_FLAG_VOLATILE then save_keys reg ws
               else do { name \<leftarrow> horizon_registry_save_path reg path;
                         rest \<leftarrow> save_keys reg (map (\<lambda>c. (c, path @ [c])) (rk_subkeys k) @ ws);
                         Some ((if rk_values k \<noteq> [] \<or> rk_subkeys k = [] \<or> rk_class k \<noteq> [] \<or>
                                   flagged k HORIZON_REG_FLAG_SYMLINK then save_key k name else []) @ rest) } })"

definition horizon_registry_save_subkeys :: "horizon_reg \<Rightarrow> ptr \<Rightarrow> u8 list option" where
  "horizon_registry_save_subkeys reg hive = save_keys reg [(hive, [])]"

end
