(* ===== verification/HzRegLex.thy ===== *)
theory HzRegLex
  imports HzRegText
begin

text \<open>
  What the writer of registry files prints as numbers, strings and hex bytes, the parser reads back.
\<close>

section \<open>Digits and numbers\<close>

lemma digit_char_table:
  "\<forall>d\<in>{0..<16}. digit_value (digit_char d) = d \<and> is_xdigit (digit_char d) \<and> digit_char d \<notin> {0, 10, 13, 0x5c} \<and>
     (d < 10 \<longrightarrow> is_digit (digit_char d)) \<and> (d < 8 \<longrightarrow> is_octal (digit_char d))"
  by (simp add: atLeastLessThan_upt upt_rec digit_char_def digit_value_def is_xdigit_def is_digit_def is_octal_def)

lemma digit_char_value:
  assumes "d < 16"
  shows "digit_value (digit_char d) = d" "is_xdigit (digit_char d)" "d < 10 \<Longrightarrow> is_digit (digit_char d)"
    "d < 8 \<Longrightarrow> is_octal (digit_char d)" "digit_char d \<noteq> 0x5c" "digit_char d \<noteq> 10" "digit_char d \<noteq> 13" "digit_char d \<noteq> 0"
  using bspec [OF digit_char_table, of d] assms by auto

lemma number_value_snoc: "number_value base (ds @ [d]) = number_value base ds * base + digit_value d"
  by (simp add: number_value_def)

lemma number_value_Nil [simp]: "number_value base [] = 0"
  by (simp add: number_value_def)

lemma number_text_value: "2 \<le> base \<Longrightarrow> base \<le> 16 \<Longrightarrow> number_value base (number_text base n) = n"
proof (induction base n rule: number_text.induct)
  case (1 base n)
  show ?case
  proof (cases "n < base")
    case True
    then show ?thesis using "1.prems" digit_char_value(1) [of n]
      by (simp add: number_text.simps [of base n] number_value_def)
  next
    case False
    have "n mod base < base" using "1.prems"(1) by simp
    then have "n mod base < 16" using "1.prems"(2) by linarith
    from digit_char_value(1) [OF this] show ?thesis using 1 False
      by (simp add: number_text.simps [of base n] number_value_snoc)
  qed
qed

lemma number_text_digits:
  "2 \<le> base \<Longrightarrow> base \<le> 16 \<Longrightarrow> c \<in> set (number_text base n) \<Longrightarrow> \<exists>d<base. c = digit_char d"
proof (induction base n rule: number_text.induct)
  case (1 base n)
  show ?case
  proof (cases "n < base")
    case True
    then show ?thesis using "1.prems" by (auto simp: number_text.simps [of base n])
  next
    case False
    have m: "n mod base < base" using "1.prems"(1) by simp
    show ?thesis
    proof (cases "c = digit_char (n mod base)")
      case True
      with m show ?thesis by blast
    next
      case other: False
      with 1 False show ?thesis by (auto simp: number_text.simps [of base n])
    qed
  qed
qed

lemma number_text_length: "2 \<le> base \<Longrightarrow> n < base ^ w \<Longrightarrow> 0 < w \<Longrightarrow> length (number_text base n) \<le> w"
proof (induction base n arbitrary: w rule: number_text.induct)
  case (1 base n)
  show ?case
  proof (cases "n < base")
    case True
    then show ?thesis using "1.prems" by (simp add: number_text.simps [of base n])
  next
    case False
    obtain v where w: "w = Suc v" using "1.prems"(3) by (cases w) auto
    have "v \<noteq> 0" using "1.prems"(2) False w by (cases v) auto
    then have v: "w = Suc v" "0 < v" using w by auto
    have "n div base < base ^ v" using "1.prems"(1,2) v by (simp add: div_less_iff_less_mult mult.commute)
    then show ?thesis using 1 v False by (simp add: number_text.simps [of base n])
  qed
qed

lemma number_text_nonempty [simp]: "number_text base n \<noteq> []"
  by (simp add: number_text.simps)

lemma number_value_append: "number_value base (as @ bs) = number_value base as * base ^ length bs + number_value base bs"
  by (induction bs rule: rev_induct) (simp_all add: number_value_snoc algebra_simps flip: append_assoc)

lemma number_value_zeros: "number_value base (replicate n 48) = 0"
  by (induction n) (simp_all add: replicate_append_same [symmetric] number_value_snoc digit_value_def is_digit_def del: replicate_Suc add: replicate_Suc)

lemma padded_value: "number_value base (padded w ds) = number_value base ds"
  by (simp add: padded_def number_value_append number_value_zeros)

lemma padded_length: "length ds \<le> w \<Longrightarrow> length (padded w ds) = w"
  by (simp add: padded_def)

lemma padded_set: "c \<in> set (padded w ds) \<Longrightarrow> c = 48 \<or> c \<in> set ds"
  by (auto simp: padded_def)

text \<open>Reading back digits that are followed by something else, or that are as many as can be.\<close>

lemma read_digits_all:
  assumes "\<forall>c\<in>set ds. good c" "length ds \<le> n" "length ds = n \<or> rest = [] \<or> \<not> good (hd rest)"
  shows "read_digits good base n res (ds @ rest) = (foldl (\<lambda>r d. r * base + digit_value d) res ds, rest)"
  using assms
proof (induction ds arbitrary: n res)
  case Nil
  then show ?case by (cases n; cases rest) auto
next
  case (Cons d ds)
  then show ?case by (cases n) auto
qed

section \<open>Strings\<close>

lemma xdigit_of: "base = 8 \<or> base = 10 \<or> base = 16 \<Longrightarrow> c \<in> set (number_text base n) \<Longrightarrow> is_xdigit c"
  using number_text_digits [of base c n] digit_char_value(2) by auto

lemma octal_of: "c \<in> set (number_text 8 n) \<Longrightarrow> is_octal c"
  using number_text_digits [of 8 c n] digit_char_value(4) by auto

lemma octal_xdigit: "is_octal c \<Longrightarrow> is_xdigit c"
  unfolding is_octal_def is_xdigit_def is_digit_def by (auto simp: word_le_nat_alt)

lemma zero_digit [simp]: "is_xdigit 48" "is_octal 48" "is_digit 48"
  by (simp_all add: is_xdigit_def is_octal_def is_digit_def)

lemma backslash_no_digit [simp]: "\<not> is_xdigit 92" "\<not> is_octal 92"
  by (simp_all add: is_xdigit_def is_digit_def is_octal_def)

lemma read_number:
  assumes ds: "ds \<noteq> []" "\<forall>c\<in>set ds. good c" "length ds \<le> n" "length ds = n \<or> rest = [] \<or> \<not> good (hd rest)"
  shows "read_digits good base n 0 (ds @ rest) = (number_value base ds, rest)"
  using read_digits_all [of ds good n rest base 0] ds by (simp add: number_value_def)

lemma read_hex_escape:
  assumes ds: "ds \<noteq> []" "\<forall>c\<in>set ds. is_xdigit c" "length ds \<le> 4" "length ds = 4 \<or> rest = [] \<or> \<not> is_xdigit (hd rest)"
  shows "read_escape 120 (ds @ rest) = Some (of_nat (number_value 16 ds), rest)"
proof -
  have "is_xdigit (hd (ds @ rest))" using ds(1,2) by (cases ds) auto
  then show ?thesis using read_number [OF ds, of 16] ds(1) by (simp add: read_escape_def is_octal_def)
qed

lemma octal_no_letter: "is_octal c \<Longrightarrow> c \<noteq> 97 \<and> c \<noteq> 98 \<and> c \<noteq> 101 \<and> c \<noteq> 102 \<and> c \<noteq> 110 \<and> c \<noteq> 114 \<and> c \<noteq> 116 \<and> c \<noteq> 118 \<and> c \<noteq> 120"
  by (auto simp: is_octal_def)

lemma read_octal_escape:
  assumes ds: "ds = d # es" "\<forall>c\<in>set ds. is_octal c" "length ds \<le> 3" "length ds = 3 \<or> rest = [] \<or> \<not> is_octal (hd rest)"
  shows "read_escape d (es @ rest) = Some (of_nat (number_value 8 ds), rest)"
proof -
  have "read_digits is_octal 8 3 0 (d # es @ rest) = (number_value 8 ds, rest)"
    using read_number [of ds is_octal 3 rest 8] ds by simp
  moreover have "is_octal d" using ds(1,2) by simp
  ultimately show ?thesis using octal_no_letter [of d] by (simp add: read_escape_def)
qed

text \<open>The character after the text of another begins with a backslash or is itself.\<close>

definition begins_after :: "u16 option \<Rightarrow> u8 list \<Rightarrow> bool" where
  "begins_after follows rest \<longleftrightarrow>
     (case follows of
        None \<Rightarrow> rest \<noteq> [] \<and> \<not> is_xdigit (hd rest)
      | Some d \<Rightarrow> rest \<noteq> [] \<and> (hd rest = 92 \<or> (hd rest = ucast d \<and> d < 128)))"

definition escape_pair :: "u8 \<times> u8 \<Rightarrow> bool" where
  "escape_pair escape \<longleftrightarrow> escape = quotes \<or> escape = brackets"

lemma save_char_head:
  "\<exists>b q. save_char escape c follows = b # q \<and> (b = 92 \<or> (b = ucast c \<and> c < 128 \<and> b \<noteq> fst escape \<and> b \<noteq> snd escape))"
  by (auto simp: save_char_def ascii_def not_less split: option.splits) (auto simp: word_less_nat_alt word_le_nat_alt)

lemma unit_byte: "(c :: u16) < 256 \<Longrightarrow> unat (ucast c :: u8) = unat c"
  by (simp add: unsigned_ucast_eq take_bit_nat_eq_self_iff word_less_nat_alt)

lemma byte_unit: "unat (ucast (b :: u8) :: u16) = unat b"
  using unsigned_less [of b, where ?'a = nat] by (simp add: unsigned_ucast_eq take_bit_nat_eq_self_iff)

lemma small_unit:
  assumes "(c :: u16) < 128"
  shows "ucast (ucast c :: u8) = c" "(ucast c :: u8) < 128" "unat (ucast c :: u8) = unat c" "ucast c = (92 :: u8) \<longleftrightarrow> c = 92"
proof -
  have "c < 256" using assms by (simp add: word_less_nat_alt)
  note u = unit_byte [OF this]
  show "ucast (ucast c :: u8) = c" using u by (simp add: word_unat_eq_iff byte_unit)
  show "(ucast c :: u8) < 128" using u assms by (simp add: word_less_nat_alt)
  show "unat (ucast c :: u8) = unat c" by (rule u)
  show "ucast c = (92 :: u8) \<longleftrightarrow> c = 92" using u by (simp add: word_unat_eq_iff)
qed

lemma big_unit_parsed:
  assumes c: "c > 127" and f: "begins_after follows rest"
  shows "\<exists>q. save_char escape c follows @ rest = 92 # q \<and> parse_item room 92 q = Some ([c], rest)"
proof -
  let ?n = "number_text 16 (unat c)"
  have size: "unat c < 16 ^ 4" using unsigned_less [of c, where ?'a = nat] by simp
  then have len: "length ?n \<le> 4" by (rule number_text_length [rotated]) simp_all
  have val: "(of_nat (number_value 16 ?n) :: u16) = c" "(of_nat (number_value 16 (padded 4 ?n)) :: u16) = c"
    using number_text_value [of 16 "unat c"] by (simp_all add: padded_value)
  have dig: "\<forall>d\<in>set ?n. is_xdigit d" "\<forall>d\<in>set (padded 4 ?n). is_xdigit d" using xdigit_of [of 16] by (auto dest!: padded_set)
  have hex: "read_escape 120 (padded 4 ?n @ rest) = Some (c, rest)"
    using read_hex_escape [of "padded 4 ?n" rest] dig(2) val(2) padded_length [OF len] by (auto simp: padded_def)
  show ?thesis
  proof (cases "\<exists>d. follows = Some d \<and> d < 128 \<and> is_xdigit (ucast d)")
    case True
    then show ?thesis using c hex by (auto simp: save_char_def ascii_def parse_item_def)
  next
    case False
    then have "rest = [] \<or> \<not> is_xdigit (hd rest)" using f by (auto simp: begins_after_def split: option.splits)
    then have "read_escape 120 (?n @ rest) = Some (c, rest)" using read_hex_escape [of ?n rest] dig(1) len val(1) by simp
    moreover have "save_char escape c follows = ascii (CHR 0x5c # ''x'') @ ?n"
      using c False by (auto simp: save_char_def split: option.splits)
    ultimately show ?thesis by (simp add: ascii_def parse_item_def)
  qed
qed

lemma octal_unit_parsed:
  assumes c: "c < 32" "escape_letter c = None" and f: "begins_after follows rest"
  shows "\<exists>q. save_char escape c follows @ rest = 92 # q \<and> parse_item room 92 q = Some ([c], rest)"
proof -
  let ?n = "number_text 8 (unat c)"
  have size: "unat c < 8 ^ 3" using c(1) by (simp add: word_less_nat_alt)
  then have len: "length ?n \<le> 3" by (rule number_text_length [rotated]) simp_all
  have val: "(of_nat (number_value 8 ?n) :: u16) = c" "(of_nat (number_value 8 (padded 3 ?n)) :: u16) = c"
    using number_text_value [of 8 "unat c"] by (simp_all add: padded_value)
  have dig: "\<forall>d\<in>set ?n. is_octal d" "\<forall>d\<in>set (padded 3 ?n). is_octal d" using octal_of by (auto dest!: padded_set)
  have parsed: "parse_item room 92 (ds @ rest) = Some ([c], rest)"
    if "ds \<noteq> []" "\<forall>d\<in>set ds. is_octal d" "length ds \<le> 3" "length ds = 3 \<or> rest = [] \<or> \<not> is_octal (hd rest)"
      "(of_nat (number_value 8 ds) :: u16) = c" for ds
  proof -
    from that(1) obtain d es where "ds = d # es" by (cases ds) auto
    with read_octal_escape [OF this that(2-4)] that(5) show ?thesis by (simp add: parse_item_def)
  qed
  have not_big: "\<not> c > 127" using c(1) by (auto simp: word_less_nat_alt)
  show ?thesis
  proof (cases "\<exists>d. follows = Some d \<and> 48 \<le> d \<and> d \<le> 55")
    case True
    then show ?thesis using c not_big parsed [of "padded 3 ?n"] dig(2) val(2) padded_length [OF len]
      by (auto simp: save_char_def padded_def)
  next
    case False
    have "rest = [] \<or> \<not> is_octal (hd rest)"
    proof (cases follows)
      case None
      then show ?thesis using f octal_xdigit by (auto simp: begins_after_def)
    next
      case (Some d)
      show ?thesis
      proof (cases "hd rest = 92")
        case False
        then have d: "hd rest = ucast d" "d < 128" using f Some by (auto simp: begins_after_def)
        then have "unat (hd rest) = unat d" using small_unit(3) by simp
        then show ?thesis using \<open>\<nexists>d. follows = Some d \<and> 48 \<le> d \<and> d \<le> 55\<close> Some by (auto simp: is_octal_def word_le_nat_alt)
      qed simp
    qed
    then have "parse_item room 92 (?n @ rest) = Some ([c], rest)" using parsed [of ?n] dig(1) len val(1) by simp
    moreover have "save_char escape c follows = 92 # ?n"
      using c not_big False by (auto simp: save_char_def split: option.splits)
    ultimately show ?thesis by simp
  qed
qed

lemma plain_unit_parsed:
  assumes c: "\<not> c > 127" "\<not> c < 32" and e: "escape_pair escape"
  shows "\<exists>b q. save_char escape c follows @ rest = b # q \<and> parse_item room b q = Some ([c], rest)"
proof -
  have small: "c < 128" using c(1) by (simp add: word_less_nat_alt)
  note u = small_unit [OF small]
  show ?thesis
  proof (cases "c = 92 \<or> ucast c = fst escape \<or> ucast c = snd escape")
    case True
    then have "ucast c \<in> {92 :: u8, 34, 91, 93}" using e by (auto simp: escape_pair_def)
    then have "read_escape (ucast c) rest = None" by (auto simp: read_escape_def is_octal_def)
    then show ?thesis using True c u by (auto simp: save_char_def parse_item_def read_plain_def)
  next
    case False
    then have "ucast c \<noteq> (92 :: u8)" using u(4) by blast
    then show ?thesis using False c u by (auto simp: save_char_def parse_item_def read_plain_def)
  qed
qed

lemma escape_letter_read:
  "escape_letter c = Some l \<Longrightarrow> c < 32 \<and> read_escape l rest = Some (c, rest)"
  unfolding escape_letter_def
  by (simp split: if_split_asm; hypsubst_thin?; simp add: read_escape_def)

lemma letter_unit_parsed:
  assumes "escape_letter c = Some l"
  shows "\<exists>q. save_char escape c follows @ rest = 92 # q \<and> parse_item room 92 q = Some ([c], rest)"
proof -
  have l: "c < 32" "read_escape l rest = Some (c, rest)" using escape_letter_read [OF assms] by auto
  have "\<not> c > 127" using l(1) by (auto simp: word_less_nat_alt)
  then show ?thesis using assms l by (simp add: save_char_def parse_item_def)
qed

lemma unit_parsed:
  assumes "escape_pair escape" "begins_after follows rest"
  shows "\<exists>b q. save_char escape c follows @ rest = b # q \<and> parse_item room b q = Some ([c], rest)"
proof -
  consider "c > 127" | l where "escape_letter c = Some l" | "c < 32" "escape_letter c = None" | "\<not> c > 127" "\<not> c < 32" by fastforce
  then show ?thesis
  proof cases
    case 1
    then show ?thesis using big_unit_parsed [OF _ assms(2)] by blast
  next
    case (2 l)
    then show ?thesis using letter_unit_parsed by blast
  next
    case 3
    then show ?thesis using octal_unit_parsed [OF _ _ assms(2)] by blast
  next
    case 4
    then show ?thesis using plain_unit_parsed [OF _ _ assms(1)] by blast
  qed
qed

lemma save_str_begins:
  assumes "\<not> is_xdigit endchar"
  shows "begins_after (case s of [] \<Rightarrow> None | d # _ \<Rightarrow> Some d) (horizon_registry_save_str escape s @ endchar # rest)"
proof (cases s)
  case Nil
  then show ?thesis using assms by (simp add: begins_after_def)
next
  case (Cons d t)
  obtain b q where b: "save_char escape d (case t of [] \<Rightarrow> None | e # _ \<Rightarrow> Some e) = b # q"
    "b = 92 \<or> (b = ucast d \<and> d < 128 \<and> b \<noteq> fst escape \<and> b \<noteq> snd escape)"
    using save_char_head by blast
  then show ?thesis using Cons by (auto simp: begins_after_def)
qed

lemma parse_loop_saved:
  assumes e: "escape_pair escape" "endchar = fst escape \<or> endchar = snd escape"
  shows "length s < room \<Longrightarrow>
    parse_loop room endchar stored (horizon_registry_save_str escape s @ endchar # rest) =
      (stored @ s, room - length s, endchar # rest)"
proof (induction s arbitrary: room stored)
  case Nil
  then show ?case by (simp add: parse_loop.simps)
next
  case (Cons c s)
  let ?f = "case s of [] \<Rightarrow> None | d # _ \<Rightarrow> Some d" and ?rest = "horizon_registry_save_str escape s @ endchar # rest"
  have "\<not> is_xdigit endchar" using e by (auto simp: escape_pair_def is_xdigit_def is_digit_def)
  then have "begins_after ?f ?rest" by (rule save_str_begins)
  from unit_parsed [OF e(1) this, of c room] obtain b q where
    b: "save_char escape c ?f @ ?rest = b # q" "parse_item room b q = Some ([c], ?rest)" by blast
  have "b \<noteq> endchar"
    using save_char_head [of escape c ?f] b(1) e by (auto simp: escape_pair_def)
  then have "parse_loop room endchar stored (b # q) = parse_loop (room - 1) endchar (stored @ [c]) ?rest"
    using Cons.prems b(2) by (subst parse_loop.simps) simp
  then show ?case using b(1) Cons.IH [of "room - 1" "stored @ [c]"] Cons.prems by simp
qed

lemma parse_saved:
  assumes "escape_pair escape" "endchar = fst escape \<or> endchar = snd escape" "2 * (length s + 1) \<le> bytes"
  shows "horizon_reg_parse_str bytes (horizon_registry_save_str escape s @ endchar # rest) endchar = Some (s, rest)"
proof -
  have "length s < bytes div 2" using assms(3) by simp
  from parse_loop_saved [OF assms(1,2) this, of "[]" rest] this show ?thesis by (simp add: horizon_reg_parse_str_def)
qed

section \<open>Lines and space\<close>

definition plenty :: "reg_allocator \<Rightarrow> bool" where
  "plenty alloc \<longleftrightarrow> (\<forall>n a. fst (alloc n) a)"

definition line_byte :: "u8 \<Rightarrow> bool" where
  "line_byte c \<longleftrightarrow> c \<noteq> 0 \<and> c \<noteq> 10 \<and> c \<noteq> 13"

lemma tmp_space_plenty:
  assumes "plenty alloc" "n < 0x7fffffff"
  obtains ld' where "horizon_reg_tmp_space alloc n ld = (True, ld')" "n \<le> ld_tmp_size ld'" "ld_text ld' = ld_text ld"
    "ld_line ld' = ld_line ld"
proof (cases "ld_tmp_size ld \<ge> (n + 1) div 2 * 2")
  case True
  then show thesis using that [of ld] by (simp add: horizon_reg_tmp_space_def)
next
  case False
  moreover have "\<not> (n + 1) div 2 * 2 > 0x7fffffff" using assms(2) by presburger
  moreover have "n \<le> (n + 1) div 2 * 2" by presburger
  ultimately show thesis using assms(1)
      that [of "ld\<lparr>ld_calls := Suc (ld_calls ld), ld_tmp_size := (n + 1) div 2 * 2\<rparr>"]
    by (simp add: horizon_reg_tmp_space_def ask_def plenty_def Let_def)
qed

lemma next_line_plenty:
  assumes "plenty alloc" "ld_text ld = line @ 10 # later" "\<forall>c\<in>set line. line_byte c"
  obtains ld' where "horizon_reg_next_line alloc ld = (1, ld')" "ld_line ld' = line" "ld_text ld' = later"
proof -
  have "takeWhile (\<lambda>c. c \<noteq> 10) (ld_text ld) = line" "dropWhile (\<lambda>c. c \<noteq> 10) (ld_text ld) = 10 # later"
    using assms(2,3) by (simp_all add: takeWhile_append dropWhile_append line_byte_def)
  moreover have "\<not> (line \<noteq> [] \<and> last line = 13)" using assms(3) last_in_set [of line] by (auto simp: line_byte_def)
  moreover have "takeWhile (\<lambda>c. c \<noteq> 0) line = line" using assms(3) by (simp add: takeWhile_eq_all_conv line_byte_def)
  ultimately show thesis using assms(1,2) that
    by (auto simp: horizon_reg_next_line_def ask_def plenty_def Let_def)
qed

section \<open>Hex bytes\<close>

lemma strtoul_hex:
  assumes ds: "ds \<noteq> []" "\<forall>c\<in>set ds. is_xdigit c" "number_value 16 ds < 2 ^ 64"
    and rest: "rest = [] \<or> \<not> is_xdigit (hd rest) \<and> hd rest \<noteq> 120 \<and> hd rest \<noteq> 88"
  shows "strtoul 16 (ds @ rest) = (of_nat (number_value 16 ds), rest)"
proof -
  obtain d es where d: "ds = d # es" "is_xdigit d" using ds(1,2) by (cases ds) auto
  have sp: "dropWhile is_space (ds @ rest) = ds @ rest" "d \<noteq> 45" "d \<noteq> 43" using d xdigit_not_space [OF d(2)] by auto
  have no_x: "\<not> (length (ds @ rest) > 2 \<and> (ds @ rest) ! 0 = 48 \<and> ((ds @ rest) ! 1 = 120 \<or> (ds @ rest) ! 1 = 88) \<and>
      is_xdigit ((ds @ rest) ! 2))"
  proof (cases es)
    case Nil
    then show ?thesis using d rest by (cases rest) auto
  next
    case (Cons e fs)
    then have "is_xdigit e" using ds(2) d by simp
    then have "e \<noteq> 120" "e \<noteq> 88" by (auto simp: is_xdigit_def is_digit_def)
    then show ?thesis using Cons d by simp
  qed
  have split: "takeWhile is_xdigit (ds @ rest) = ds" "dropWhile is_xdigit (ds @ rest) = rest"
    using ds(2) rest by (cases rest; auto simp: takeWhile_append dropWhile_append)+
  show ?thesis using sp no_x split ds(1,3) d(1) unfolding strtoul_def Let_def sp(1) by auto
qed

abbreviation (input) byte_text :: "u8 \<Rightarrow> u8 list" where
  "byte_text b \<equiv> padded 2 (number_text 16 (unat b))"

lemma byte_text_facts: "length (byte_text b) = 2" "\<forall>c\<in>set (byte_text b). is_xdigit c" "number_value 16 (byte_text b) = unat b"
proof -
  have "unat b < 16 ^ 2" using unsigned_less [of b, where ?'a = nat] by simp
  from number_text_length [OF _ this] show "length (byte_text b) = 2" by (simp add: padded_length)
  show "\<forall>c\<in>set (byte_text b). is_xdigit c" using xdigit_of [of 16] by (auto dest!: padded_set)
  show "number_value 16 (byte_text b) = unat b" by (simp add: padded_value number_text_value)
qed

lemma byte_text_head: obtains d e where "byte_text b = [d, e]" "is_xdigit d" "is_xdigit e"
proof -
  obtain d e where "byte_text b = [d, e]" using byte_text_facts(1) [of b] by (auto simp: length_Suc_conv numeral_2_eq_2)
  with byte_text_facts(2) [of b] that show thesis by simp
qed

text \<open>The bytes of one line, and the lines.\<close>

fun hex_row :: "u8 list \<Rightarrow> u8 list" where
  "hex_row [] = []"
| "hex_row [b] = byte_text b"
| "hex_row (b # c # bs) = byte_text b @ 44 # hex_row (c # bs)"

definition row_line :: "u8 list \<Rightarrow> u8 list list \<Rightarrow> u8 list" where
  "row_line r rs = hex_row r @ (if rs = [] then [] else [44, 92])"

fun rows_text :: "u8 list list \<Rightarrow> u8 list" where
  "rows_text [] = []"
| "rows_text (r # rs) = row_line r rs @ (if rs = [] then [] else [10, 32, 32] @ rows_text rs)"

lemma save_hex_rows:
  "\<exists>r rs. save_hex count bs = rows_text (r # rs) \<and> bs = r @ concat rs \<and> (\<forall>s\<in>set rs. s \<noteq> []) \<and> (bs \<noteq> [] \<longrightarrow> r \<noteq> [])"
proof (induction count bs rule: save_hex.induct)
  case (1 count)
  then show ?case by (intro exI [of _ "[]"]) (simp add: row_line_def)
next
  case (2 count b)
  then show ?case by (intro exI [of _ "[b]"] exI [of _ "[]"]) (simp add: row_line_def)
next
  case (3 count b c bs)
  show ?case
  proof (cases "count + 3 > 76")
    case True
    with 3 obtain r rs where r: "save_hex 2 (c # bs) = rows_text (r # rs)" "c # bs = r @ concat rs" "\<forall>s\<in>set rs. s \<noteq> []" "r \<noteq> []"
      by auto
    have "save_hex count (b # c # bs) = rows_text ([b] # r # rs)" using True r(1) by (simp add: row_line_def ascii_def)
    then show ?thesis using r by (intro exI [of _ "[b]"] exI [of _ "r # rs"]) simp
  next
    case False
    with 3 obtain r rs where r: "save_hex (count + 3) (c # bs) = rows_text (r # rs)" "c # bs = r @ concat rs"
      "\<forall>s\<in>set rs. s \<noteq> []" "r \<noteq> []" by auto
    have "save_hex count (b # c # bs) = rows_text ((b # r) # rs)" using False r(1,4) by (cases r) (simp_all add: row_line_def)
    then show ?thesis using r by (intro exI [of _ "b # r"] exI [of _ rs]) simp
  qed
qed

lemma hex_row_bytes: "c \<in> set (hex_row r) \<Longrightarrow> is_xdigit c \<or> c = 44"
  by (induction r rule: hex_row.induct) (use byte_text_facts(2) in auto)

lemma hex_row_length: "3 * length r \<le> length (hex_row r) + 1"
  by (induction r rule: hex_row.induct) (simp_all add: byte_text_facts(1))

lemma row_line_bytes: "c \<in> set (row_line r rs) \<Longrightarrow> line_byte c"
  using hex_row_bytes [of c r] by (auto simp: row_line_def line_byte_def is_xdigit_def is_digit_def split: if_splits)

lemma byte_long: "unat (ucast (b :: u8) :: u64) = unat b" "ucast (ucast (b :: u8) :: u64) = b"
proof -
  show u: "unat (ucast b :: u64) = unat b"
    using unsigned_less [of b, where ?'a = nat] by (simp add: unsigned_ucast_eq take_bit_nat_eq_self_iff)
  show "ucast (ucast b :: u64) = b" by (metis u of_nat_unat ucast_id)
qed

lemma parse_hex_byte:
  assumes "q = [] \<or> hd q = 44" "0 < room"
  shows "parse_hex room (byte_text b @ q) = map_option (\<lambda>(bs, r). (b # bs, r)) (parse_hex (room - 1) (skip_comma q))"
proof -
  obtain d e where de: "byte_text b = [d, e]" "is_xdigit d" by (rule byte_text_head)
  have "number_value 16 (byte_text b) < 2 ^ 64"
    using unsigned_less [of b, where ?'a = nat] unfolding byte_text_facts(3) by simp
  moreover have "q = [] \<or> \<not> is_xdigit (hd q) \<and> hd q \<noteq> 120 \<and> hd q \<noteq> 88"
    using assms(1) by (auto simp: is_xdigit_def is_digit_def)
  ultimately have "strtoul 16 (byte_text b @ q) = (of_nat (unat b), q)"
    using strtoul_hex [of "byte_text b" q] byte_text_facts [of b] de(1) by auto
  then have "strtoul 16 (d # e # q) = (ucast b, q)" using de(1) by simp
  moreover have "\<not> (ucast b :: u64) > 0xff"
    using unsigned_less [of b, where ?'a = nat] by (simp add: word_less_nat_alt byte_long(1))
  ultimately show ?thesis using de assms(2)
    by (subst parse_hex.simps; cases "parse_hex (room - 1) (skip_comma q)") (auto simp: byte_long(2))
qed

lemma hex_row_start:
  assumes "r \<noteq> []"
  obtains d q where "hex_row r = d # q" "is_xdigit d"
proof -
  obtain b bs where r: "r = b # bs" using assms by (cases r) auto
  obtain d e where "byte_text b = [d, e]" "is_xdigit d" by (rule byte_text_head)
  with that r show thesis by (cases bs) auto
qed

lemma row_line_start: "s \<noteq> [] \<Longrightarrow> row_line s rs \<noteq> [] \<and> dropWhile is_space (row_line s rs) = row_line s rs"
  using hex_row_start [of s] xdigit_not_space by (fastforce simp: row_line_def)

lemma comma_no_space: "\<not> is_space 44"
  by (simp add: is_space_def)

lemma parse_hex_row:
  assumes "tail = [] \<or> tail = [44, 92]"
  shows "r \<noteq> [] \<Longrightarrow> length r \<le> room \<Longrightarrow> parse_hex room (hex_row r @ tail) = Some (r, drop 1 tail)"
proof (induction r arbitrary: room rule: hex_row.induct)
  case (2 b)
  have "skip_comma tail = drop 1 tail" using assms by (auto simp: skip_comma_def skip_spaces_def is_space_def)
  moreover have "parse_hex (room - 1) (drop 1 tail) = Some ([], drop 1 tail)"
    using assms by (subst parse_hex.simps) (auto simp: is_xdigit_def is_digit_def)
  ultimately show ?case using parse_hex_byte [of tail room b] 2 assms by auto
next
  case (3 b c bs)
  obtain d q where d: "hex_row (c # bs) = d # q" "is_xdigit d" by (rule hex_row_start [of "c # bs"]) simp
  then have "skip_comma (44 # hex_row (c # bs) @ tail) = hex_row (c # bs) @ tail"
    using xdigit_not_space [of d] by (simp add: skip_comma_def skip_spaces_def comma_no_space)
  then show ?case using 3 by (simp add: parse_hex_byte)
qed simp

text \<open>All lines are read, and the loader is after the last.\<close>

lemma hex_lines_rows:
  assumes alloc: "plenty alloc"
  shows "length acc + length (rows_text (r # rs)) < 0x10000000 \<Longrightarrow> (\<forall>s\<in>set rs. s \<noteq> []) \<Longrightarrow> rs \<noteq> [] \<longrightarrow> r \<noteq> [] \<Longrightarrow>
    ld_text ld = (if rs = [] then later else [32, 32] @ rows_text rs @ 10 # later) \<Longrightarrow>
    \<exists>ld'. hex_lines alloc acc (row_line r rs) ld = (Some (acc @ r @ concat rs), ld') \<and> ld_text ld' = later"
proof (induction rs arbitrary: acc r ld)
  case Nil
  let ?p = "row_line r []"
  have "length acc + (1 + length ?p div 2) < 0x7fffffff" using Nil.prems(1) by simp
  from tmp_space_plenty [OF alloc this, of ld] obtain ld1 where
    ld1: "horizon_reg_tmp_space alloc (length acc + (1 + length ?p div 2)) ld = (True, ld1)" "ld_text ld1 = ld_text ld" by blast
  have "parse_hex (1 + length ?p div 2) ?p = Some (r, [])"
  proof (cases "r = []")
    case True
    then show ?thesis by (simp add: row_line_def parse_hex.simps)
  next
    case False
    have "length r \<le> 1 + length (hex_row r) div 2" using hex_row_length [of r] by linarith
    then show ?thesis using parse_hex_row [of "[]" r] False by (simp add: row_line_def)
  qed
  then show ?case using ld1 Nil.prems(4)
    by (subst hex_lines.simps) (simp add: horizon_reg_parse_hex_def skip_spaces_def)
next
  case (Cons s rs)
  let ?p = "row_line r (s # rs)"
  have "length acc + (1 + length ?p div 2) < 0x7fffffff" using Cons.prems(1) by simp
  from tmp_space_plenty [OF alloc this, of ld] obtain ld1 where
    ld1: "horizon_reg_tmp_space alloc (length acc + (1 + length ?p div 2)) ld = (True, ld1)" "ld_text ld1 = ld_text ld" by blast
  have "length r \<le> 1 + length ?p div 2" using hex_row_length [of r] by (simp add: row_line_def)
  then have parsed: "parse_hex (1 + length ?p div 2) ?p = Some (r, [92])"
    using parse_hex_row [of "[44, 92]" r] Cons.prems(3) by (simp add: row_line_def)
  have "ld_text ld1 = ([32, 32] @ row_line s rs) @ 10 # (if rs = [] then later else [32, 32] @ rows_text rs @ 10 # later)"
    using ld1(2) Cons.prems(4) by simp
  moreover have "\<forall>c\<in>set ([32, 32] @ row_line s rs). line_byte c" using row_line_bytes by (auto simp: line_byte_def)
  ultimately obtain ld2 where ld2: "horizon_reg_next_line alloc ld1 = (1, ld2)" "ld_line ld2 = [32, 32] @ row_line s rs"
    "ld_text ld2 = (if rs = [] then later else [32, 32] @ rows_text rs @ 10 # later)" by (rule next_line_plenty [OF alloc])
  have "s \<noteq> []" using Cons.prems(2) by simp
  have "length r \<le> length (hex_row r)" using hex_row_length [of r] by linarith
  then have "length (acc @ r) + length (rows_text (s # rs)) < 0x10000000" using Cons.prems(1) by (simp add: row_line_def)
  from Cons.IH [OF this _ _ ld2(3)] Cons.prems(2) \<open>s \<noteq> []\<close> obtain ld' where
    rec: "hex_lines alloc (acc @ r) (row_line s rs) ld2 = (Some ((acc @ r) @ s @ concat rs), ld')" "ld_text ld' = later" by auto
  have "skip_spaces (ld_line ld2) = row_line s rs"
    using ld2(2) row_line_start [OF \<open>s \<noteq> []\<close>, of rs] by (simp add: skip_spaces_def is_space_def)
  then show ?case using ld1 parsed ld2 rec
    by (subst hex_lines.simps) (simp add: horizon_reg_parse_hex_def skip_spaces_def is_space_def)
qed

lemma hex_saved:
  assumes "plenty alloc" "length (save_hex count bs) < 0x10000000"
  obtains p q where "save_hex count bs @ 10 # later = p @ 10 # q" "\<forall>c\<in>set p. line_byte c" "length p \<le> length (save_hex count bs)"
    "\<And>ld. ld_text ld = q \<Longrightarrow> \<exists>ld'. hex_lines alloc [] p ld = (Some bs, ld') \<and> ld_text ld' = later"
proof -
  obtain r rs where r: "save_hex count bs = rows_text (r # rs)" "bs = r @ concat rs" "\<forall>s\<in>set rs. s \<noteq> []" "bs \<noteq> [] \<longrightarrow> r \<noteq> []"
    using save_hex_rows by blast
  show thesis
  proof (rule that [of "row_line r rs" "if rs = [] then later else [32, 32] @ rows_text rs @ 10 # later"])
    show "\<forall>c\<in>set (row_line r rs). line_byte c" using row_line_bytes by blast
    show "\<exists>ld'. hex_lines alloc [] (row_line r rs) ld = (Some bs, ld') \<and> ld_text ld' = later"
      if "ld_text ld = (if rs = [] then later else [32, 32] @ rows_text rs @ 10 # later)" for ld
      using hex_lines_rows [OF assms(1) _ r(3) _ that, of "[]" r] assms(2) r by (cases rs) auto
  qed (use r(1) in simp_all)
qed

end
