(* ===== verification/HzRegLoad.thy ===== *)
theory HzRegLoad
  imports HzRegText
begin

text \<open>
  Loading a registry file, whatever its bytes and whichever allocations fail: the load ends, follows no freed or null
  pointer and leaves the tree well formed.
\<close>

section \<open>What a load keeps\<close>

text \<open>No address is given out twice, and none that is in use.\<close>

definition fresh_from :: "reg_allocator \<Rightarrow> nat \<Rightarrow> horizon_reg \<Rightarrow> bool" where
  "fresh_from alloc n reg \<longleftrightarrow>
     (\<forall>m\<ge>n. rg_keys reg (snd (alloc m)) = None) \<and> (\<forall>m m'. n \<le> m \<and> m < m' \<longrightarrow> snd (alloc m) \<noteq> snd (alloc m'))"

lemma fresh_fromD: "fresh_from alloc n reg \<Longrightarrow> rg_keys reg (snd (alloc n)) = None"
  by (simp add: fresh_from_def)

lemma fresh_later: "fresh_from alloc n reg \<Longrightarrow> n \<le> m \<Longrightarrow> fresh_from alloc m reg"
  unfolding fresh_from_def by (meson le_trans)

lemma fresh_dom: "fresh_from alloc n reg \<Longrightarrow> dom (rg_keys reg') \<subseteq> dom (rg_keys reg) \<Longrightarrow> fresh_from alloc n reg'"
  unfolding fresh_from_def by (metis domIff subsetD)

lemma fresh_used:
  assumes "fresh_from alloc n reg" "dom (rg_keys reg') \<subseteq> insert (snd (alloc n)) (dom (rg_keys reg))"
  shows "fresh_from alloc (Suc n) reg'"
proof -
  have "rg_keys reg' (snd (alloc m)) = None" if "m \<ge> Suc n" for m
  proof -
    have "snd (alloc m) \<noteq> snd (alloc n)" "rg_keys reg (snd (alloc m)) = None"
      using assms(1) that unfolding fresh_from_def by (metis Suc_le_lessD le_refl, simp)
    then show ?thesis using assms(2) by (metis domIff insertE subsetD)
  qed
  then show ?thesis using assms(1) unfolding fresh_from_def by (meson Suc_leD)
qed

definition live_key :: "horizon_reg \<Rightarrow> ptr \<Rightarrow> bool" where
  "live_key reg q \<longleftrightarrow> (\<exists>k. rg_keys reg q = Some k \<and> \<not> flagged k HORIZON_REG_FLAG_DELETED)"

definition load_inv :: "reg_allocator \<Rightarrow> ptr list \<Rightarrow> ptr set \<Rightarrow> horizon_reg_loader \<Rightarrow> horizon_reg \<Rightarrow> bool" where
  "load_inv alloc held live ld reg \<longleftrightarrow> reg_ok reg held \<and> fresh_from alloc (ld_calls ld) reg \<and> (\<forall>q\<in>live. live_key reg q)"

text \<open>The loader moves forward.\<close>

definition ahead :: "horizon_reg_loader \<Rightarrow> horizon_reg_loader \<Rightarrow> bool" where
  "ahead ld ld' \<longleftrightarrow> ld_calls ld \<le> ld_calls ld' \<and> length (ld_text ld') \<le> length (ld_text ld)"

lemma ahead_refl [simp]: "ahead ld ld"
  by (simp add: ahead_def)

lemma ahead_trans: "ahead ld ld' \<Longrightarrow> ahead ld' ld'' \<Longrightarrow> ahead ld ld''"
  by (simp add: ahead_def)

lemma ask_ahead: "ask alloc ld = (mem, p, ld') \<Longrightarrow> ahead ld ld'"
  by (auto simp: ask_def ahead_def)

lemma tmp_space_ahead: "horizon_reg_tmp_space alloc n ld = (b, ld') \<Longrightarrow> ahead ld ld'"
  by (auto simp: horizon_reg_tmp_space_def ask_def ahead_def Let_def split: if_splits)

lemma next_line_ahead: "horizon_reg_next_line alloc ld = (got, ld') \<Longrightarrow> ahead ld ld'"
  using tl_dropWhile_shorter [of "ld_text ld" "\<lambda>c. c \<noteq> 10"]
  by (auto simp: horizon_reg_next_line_def ask_def ahead_def Let_def split: if_splits)

lemma hex_lines_ahead: "hex_lines alloc bs p ld = (r, ld') \<Longrightarrow> ahead ld ld'"
proof (induction alloc bs p ld arbitrary: r ld' rule: hex_lines.induct)
  case (1 alloc bs p ld)
  obtain got ld1 where t: "horizon_reg_tmp_space alloc (length bs + (1 + length p div 2)) ld = (got, ld1)" by fastforce
  note a1 = tmp_space_ahead [OF t]
  show ?case
  proof (cases "got \<and> (\<exists>new rest. horizon_reg_parse_hex (1 + length p div 2) p = Some (new, rest) \<and>
      skip_spaces rest \<noteq> [] \<and> hd (skip_spaces rest) = 0x5c)")
    case False
    then have "ld' = ld1" using "1.prems" t by (subst (asm) hex_lines.simps) (auto split: if_splits option.splits bool.splits)
    then show ?thesis using a1 by simp
  next
    case True
    then obtain new rest where n: "horizon_reg_parse_hex (1 + length p div 2) p = Some (new, rest)" "skip_spaces rest \<noteq> []"
      "hd (skip_spaces rest) = 0x5c" by blast
    obtain more_got ld2 where l: "horizon_reg_next_line alloc ld1 = (more_got, ld2)" by fastforce
    have a2: "ahead ld ld2" by (rule ahead_trans [OF a1 next_line_ahead [OF l]])
    show ?thesis
    proof (cases "more_got = 1")
      case False
      then have "ld' = ld2" using "1.prems" t True n l by (subst (asm) hex_lines.simps) simp
      then show ?thesis using a2 by simp
    next
      case again: True
      then have eq: "hex_lines alloc (bs @ new) (skip_spaces (ld_line ld2)) ld2 = (r, ld')"
        using "1.prems" t True n l by (subst (asm) hex_lines.simps) simp
      have "ahead ld2 ld'" by (rule "1.IH" [OF refl t [symmetric] _ n(1) _ n(2) _ l [symmetric] _ eq]) (use True n again in auto)
      with a2 show ?thesis by (rule ahead_trans)
    qed
  qed
qed

lemma load_data_ahead: "load_data alloc p ld = (r, ld') \<Longrightarrow> ahead ld ld'"
  by (auto simp: load_data_def split: option.splits prod.splits if_splits dest: hex_lines_ahead)

lemma load_inv_ahead: "load_inv alloc held live ld reg \<Longrightarrow> ahead ld ld' \<Longrightarrow> load_inv alloc held live ld' reg"
  unfolding load_inv_def ahead_def using fresh_later by blast

text \<open>One key gets other contents.\<close>

lemma load_inv_upd:
  assumes inv: "load_inv alloc held live ld reg" and k: "rg_keys reg p = Some k"
    and ok: "\<And>root. keys_ok root held (rg_keys reg) \<Longrightarrow> keys_ok root held ((rg_keys reg)(p \<mapsto> k'))"
    and flags: "flagged k' HORIZON_REG_FLAG_DELETED = flagged k HORIZON_REG_FLAG_DELETED" and ld: "ahead ld ld'"
  shows "load_inv alloc held live ld' (reg\<lparr>rg_keys := (rg_keys reg)(p \<mapsto> k')\<rparr>)"
proof -
  let ?reg = "reg\<lparr>rg_keys := (rg_keys reg)(p \<mapsto> k')\<rparr>"
  from inv have i: "reg_ok reg held" "fresh_from alloc (ld_calls ld) reg" "\<forall>q\<in>live. live_key reg q" by (auto simp: load_inv_def)
  from i(1) obtain root where "rg_root reg = Some root" "keys_ok root held (rg_keys reg)" by (rule reg_okE)
  then have "reg_ok ?reg held" using ok by (intro reg_okI) simp_all
  moreover have "fresh_from alloc (ld_calls ld) ?reg" by (rule fresh_dom [OF i(2)]) (use k in auto)
  moreover have "live_key ?reg q" if "live_key reg q" for q using that k flags by (auto simp: live_key_def)
  ultimately have "load_inv alloc held live ld ?reg" using i(3) by (simp add: load_inv_def)
  then show ?thesis using ld by (rule load_inv_ahead)
qed

lemma load_inv_values:
  assumes "load_inv alloc held live ld reg" "rg_keys reg p = Some k" "values_only k k'" "values_ok k'" "ahead ld ld'"
  shows "load_inv alloc held live ld' (reg\<lparr>rg_keys := (rg_keys reg)(p \<mapsto> k')\<rparr>)"
  by (rule load_inv_upd [OF assms(1,2)])
    (use keys_ok_values [of _ held "rg_keys reg" p k k'] assms(2-4) values_onlyD(5) [OF assms(3)] assms(5) in \<open>auto simp: flagged_def\<close>)

lemma load_inv_key:
  assumes "load_inv alloc held live ld reg" "rg_keys reg p = Some k"
  shows "values_ok k" "linked_ok (rg_keys reg) p k"
proof -
  from assms(1) have "reg_ok reg held" by (simp add: load_inv_def)
  then obtain root where "keys_ok root held (rg_keys reg)" by (rule reg_okE)
  from keys_okD [OF this assms(2)] show "values_ok k" "linked_ok (rg_keys reg) p k" by (auto simp: key_ok_def)
qed

section \<open>Values and options\<close>

text \<open>What a line leaves: a state the next line can start from.\<close>

lemma value_slot:
  assumes "values_ok k" "horizon_reg_find_value k name = (found, i)"
    and "(if found = None then horizon_reg_insert_value mem k name i else (0, k)) = (status, k1)"
  shows "values_only k k1" "values_ok k1" "status = 0 \<Longrightarrow> values_ok (store_value i ty data k1)"
proof -
  have sorted: "sorted_names (value_names k)" using assms(1) by (simp add: values_ok_def)
  note find = find_value_law [OF sorted, of name]
  have i: "i = name_place (value_names k) name" "found = None \<longleftrightarrow> \<not> has_name (value_names k) name" using find assms(2) by auto
  show only: "values_only k k1" using assms(3) insert_value_only by (auto split: if_splits)
  show "values_ok k1"
    using assms(1,3) i insert_value_ok(1) [OF assms(1), of name mem k1] insert_value_failed(1) [OF _ _ assms(1)]
    by (cases "status = 0") (auto split: if_splits)
  show "values_ok (store_value i ty data k1)" if "status = 0"
  proof (cases "found = None")
    case True
    then have "\<not> has_name (value_names k) name" "horizon_reg_insert_value mem k name i = (0, k1)" using assms(3) i that by auto
    note ins = insert_value_ok [OF assms(1) this(1) this(2) [unfolded i(1)]]
    show ?thesis unfolding i(1) by (rule store_value_ok(1) [OF ins(1,2) refl])
  next
    case False
    then have "has_name (value_names k) name" "k1 = k" using i assms(3) by auto
    with name_place_hit [OF sorted this(1)] show ?thesis unfolding i(1)
      by (intro store_value_ok(1) [OF _ _ refl]) (simp_all add: assms(1) value_names_def)
  qed
qed

lemma load_value_inv:
  assumes inv: "load_inv alloc held live ld reg" and k: "rg_keys reg p = Some k"
  shows "\<exists>good ld' reg'. horizon_reg_load_value alloc p buffer ld reg = Some (good, ld', reg') \<and>
    load_inv alloc held live ld' reg' \<and> ahead ld ld'"
proof -
  obtain got ld1 where t: "horizon_reg_tmp_space alloc ((length buffer + 1) * 2) ld = (got, ld1)" by fastforce
  note a1 = tmp_space_ahead [OF t]
  show ?thesis
  proof (cases "got \<and> (\<exists>name q. load_name (ld_tmp_size ld1) buffer = Some (name, q) \<and> skip_spaces q \<noteq> [] \<and> hd (skip_spaces q) = 61)")
    case False
    then have "horizon_reg_load_value alloc p buffer ld reg = Some (False, ld1, reg)"
      using t by (cases got) (auto simp: horizon_reg_load_value_def split: option.splits)
    then show ?thesis using a1 load_inv_ahead [OF inv a1] by blast
  next
    case True
    then obtain name q where n: "load_name (ld_tmp_size ld1) buffer = Some (name, q)" "skip_spaces q \<noteq> []" "hd (skip_spaces q) = 61" by blast
    obtain found i where f: "horizon_reg_find_value k name = (found, i)" by fastforce
    obtain mem a ld2 where ask2: "ask alloc ld1 = (mem, a, ld2)" by (cases "ask alloc ld1") auto
    obtain status k1 where ins: "(if found = None then horizon_reg_insert_value mem k name i else (0, k)) = (status, k1)" by fastforce
    note slot = value_slot [OF load_inv_key(1) [OF inv k] f ins]
    note a2 = ahead_trans [OF a1 ask_ahead [OF ask2]]
    obtain data ld3 where d: "load_data alloc (skip_spaces (tl (skip_spaces q))) ld2 = (data, ld3)" by fastforce
    note a3 = ahead_trans [OF a2 load_data_ahead [OF d]]
    obtain mem' a' ld4 where ask4: "ask alloc ld3 = (mem', a', ld4)" by (cases "ask alloc ld3") auto
    note a4 = ahead_trans [OF a3 ask_ahead [OF ask4]]
    have eq: "horizon_reg_load_value alloc p buffer ld reg =
        (if status \<noteq> 0 then Some (False, ld2, reg\<lparr>rg_keys := (rg_keys reg)(p \<mapsto> k1)\<rparr>)
         else case data of
            None \<Rightarrow> Some (False, ld3, reg\<lparr>rg_keys := (rg_keys reg)(p \<mapsto> store_value i HORIZON_REG_NONE [] k1)\<rparr>)
          | Some (ty, bytes) \<Rightarrow>
              if bytes \<noteq> [] \<and> \<not> mem' Alloc_data
              then Some (False, ld4, reg\<lparr>rg_keys := (rg_keys reg)(p \<mapsto> store_value i HORIZON_REG_NONE [] k1)\<rparr>)
              else Some (True, ld4, reg\<lparr>rg_keys := (rg_keys reg)(p \<mapsto> store_value i ty bytes k1)\<rparr>))"
      using t True n f ask2 ins d ask4 k by (simp add: horizon_reg_load_value_def upd_key_def split: option.splits)
    have stored: "load_inv alloc held live ld' (reg\<lparr>rg_keys := (rg_keys reg)(p \<mapsto> store_value i ty bytes k1)\<rparr>)"
      if "status = 0" "ahead ld ld'" for ty bytes ld'
      by (rule load_inv_values [OF inv k values_only_trans [OF slot(1) values_only_store(1)] slot(3) [OF that(1)] that(2)])
    show ?thesis using load_inv_values [OF inv k slot(1,2) a2] stored [OF _ a3] stored [OF _ a4] a2 a3 a4
      unfolding eq by (cases data) (auto split: prod.splits)
  qed
qed

lemma load_inv_option:
  assumes "load_inv alloc held live ld reg" "rg_keys reg p = Some k" "ahead ld ld'"
    and "rk_name k' = rk_name k" "rk_parent k' = rk_parent k" "rk_subkeys k' = rk_subkeys k" "rk_subkey_max k' = rk_subkey_max k"
      "rk_values k' = rk_values k" "rk_value_max k' = rk_value_max k" "rk_refs k' = rk_refs k"
      "flagged k' HORIZON_REG_FLAG_DELETED = flagged k HORIZON_REG_FLAG_DELETED"
  shows "load_inv alloc held live ld' (reg\<lparr>rg_keys := (rg_keys reg)(p \<mapsto> k')\<rparr>)"
proof (rule load_inv_upd [OF assms(1,2) _ assms(11,3)])
  fix root assume ok: "keys_ok root held (rg_keys reg)"
  from keys_okD(2) [OF ok assms(2)] assms(4-11) have "key_ok root held p k'"
    by (simp add: key_ok_def values_ok_def value_names_def)
  then show "keys_ok root held ((rg_keys reg)(p \<mapsto> k'))" using keys_ok_local [OF ok assms(2)] assms(4-7) by blast
qed

lemma load_option_inv:
  assumes inv: "load_inv alloc held live ld reg" and k: "rg_keys reg p = Some k"
  shows "\<exists>ld' reg'. horizon_reg_load_option alloc p buffer ld reg = Some (ld', reg') \<and>
    load_inv alloc held live ld' reg' \<and> ahead ld ld'"
proof -
  note upd = load_inv_option [OF inv k]
  have link: "flagged (k\<lparr>rk_flags := rk_flags k OR HORIZON_REG_FLAG_SYMLINK\<rparr>) HORIZON_REG_FLAG_DELETED = flagged k HORIZON_REG_FLAG_DELETED"
    by (simp add: flagged_def and.commute bit.conj_disj_distrib)
  obtain got ld1 where t: "horizon_reg_tmp_space alloc ((length buffer + 1) * 2) ld = (got, ld1)" by fastforce
  note a1 = tmp_space_ahead [OF t]
  obtain mem a ld2 where ask2: "ask alloc ld1 = (mem, a, ld2)" by (cases "ask alloc ld1") auto
  note a2 = ahead_trans [OF a1 ask_ahead [OF ask2]]
  consider (time) "begins (ascii ''#time='') buffer" | (cls) "\<not> begins (ascii ''#time='') buffer" "begins (ascii ''#class=\"'') buffer"
    | (symlink) "\<not> begins (ascii ''#time='') buffer" "\<not> begins (ascii ''#class=\"'') buffer" "begins (ascii ''#link'') buffer"
    | (none) "\<not> begins (ascii ''#time='') buffer" "\<not> begins (ascii ''#class=\"'') buffer" "\<not> begins (ascii ''#link'') buffer" by blast
  then show ?thesis
  proof cases
    case time
    then show ?thesis using k upd [of ld] by (auto simp: horizon_reg_load_option_def upd_key_def Let_def flagged_def)
  next
    case cls
    show ?thesis
    proof (cases "got \<and> (\<exists>us rest. horizon_reg_parse_str (ld_tmp_size ld1) (drop 8 buffer) 34 = Some (us, rest))")
      case False
      then have "horizon_reg_load_option alloc p buffer ld reg = Some (ld1, reg)"
        using cls t by (cases got) (auto simp: horizon_reg_load_option_def split: option.splits)
      then show ?thesis using a1 load_inv_ahead [OF inv a1] by blast
    next
      case True
      then obtain us rest where us: "horizon_reg_parse_str (ld_tmp_size ld1) (drop 8 buffer) 34 = Some (us, rest)" by blast
      have "horizon_reg_load_option alloc p buffer ld reg =
          Some (ld2, if mem Alloc_class then reg\<lparr>rg_keys := (rg_keys reg)(p \<mapsto> k\<lparr>rk_class := us @ [0]\<rparr>)\<rparr> else reg)"
        using cls t True us ask2 k by (simp add: horizon_reg_load_option_def upd_key_def)
      then show ?thesis using upd [OF a2, of "k\<lparr>rk_class := us @ [0]\<rparr>"] load_inv_ahead [OF inv a2] a2 by (auto simp: flagged_def)
    qed
  next
    case symlink
    then show ?thesis using k upd [of ld] link
      by (auto simp: horizon_reg_load_option_def upd_key_def)
  next
    case none
    then show ?thesis using inv by (simp add: horizon_reg_load_option_def)
  qed
qed

section \<open>Keys\<close>

text \<open>A key allocated for a path is linked below its parent, or is released and nothing has changed.\<close>

lemma link_new:
  assumes root: "keys_ok root held (rg_keys reg)" and pk: "rg_keys reg parent = Some pk"
    "\<not> flagged pk HORIZON_REG_FLAG_DELETED" and fresh: "rg_keys reg p = None"
    and name: "name_ok name" "\<not> has_name (subkey_names (rg_keys reg) pk) name"
    and sk: "horizon_reg_alloc_key mem name modif = Some sk"
  shows "let place = name_place (subkey_names (rg_keys reg) pk) name; reg0 = reg\<lparr>rg_keys := (rg_keys reg)(p \<mapsto> sk)\<rparr>;
      reg1 = reg\<lparr>rg_keys := (rg_keys reg)(parent \<mapsto> with_subkey (rg_keys reg) name p pk, p \<mapsto> created_key name parent 0 modif)\<rparr>
    in (horizon_reg_link mem parent p place reg0 = Some (HORIZON_REG_NO_MEMORY, reg0) \<and> horizon_reg_release p reg0 = Some reg \<and>
        \<not> mem Alloc_table) \<or>
       (horizon_reg_link mem parent p place reg0 = Some (HORIZON_REG_SUCCESS, reg1) \<and> keys_ok root held (rg_keys reg1))"
proof -
  from sk have k: "sk = \<lparr>rk_name = name, rk_class = [], rk_parent = None, rk_subkeys = [], rk_subkey_max = 0,
      rk_values = [], rk_value_max = 0, rk_flags = 0, rk_modif = modif, rk_refs = 1, rk_notify = []\<rparr>"
    by (simp add: horizon_reg_alloc_key_def split: if_splits)
  let ?K = "rg_keys reg"
  let ?reg0 = "reg\<lparr>rg_keys := ?K(p \<mapsto> sk)\<rparr>" and ?i = "name_place (subkey_names ?K pk) name"
  let ?reg1 = "reg\<lparr>rg_keys := ?K(parent \<mapsto> with_subkey ?K name p pk, p \<mapsto> created_key name parent 0 modif)\<rparr>"
  have pp: "parent \<noteq> p" using pk fresh by auto
  show ?thesis
  proof (cases "length (rk_subkeys pk) = rk_subkey_max pk \<and> \<not> mem Alloc_table")
    case True
    then have "horizon_reg_link mem parent p ?i ?reg0 = Some (HORIZON_REG_NO_MEMORY, ?reg0)"
      using pk pp by (simp add: horizon_reg_link_def)
    moreover have "horizon_reg_release p ?reg0 = Some reg" using release_last [of ?reg0 p sk] k fresh by (simp add: fun_upd_idem)
    ultimately show ?thesis using True by (simp add: Let_def)
  next
    case False
    have "sk\<lparr>rk_parent := Some parent\<rparr> = created_key name parent 0 modif" by (simp add: k created_key_def new_flags_def)
    then have link: "horizon_reg_link mem parent p ?i ?reg0 = Some (HORIZON_REG_SUCCESS, ?reg1)"
      using False pk pp by (auto simp: horizon_reg_link_def upd_key_def with_subkey_def fun_upd_twist)
    have "linked_ok ?K parent pk" using keys_okD [OF root pk(1)] by blast
    then have "capacity_ok (length (rk_subkeys pk)) (rk_subkey_max pk)" by (simp add: linked_ok_def)
    from keys_ok_link [OF root pk(1) fresh pk(2), of "created_key name parent 0 modif",
        OF _ _ _ created_key_ok [OF root fresh name(1)] _ capacity_grown [OF this]] name(2)
    have "keys_ok root held (rg_keys ?reg1)" by (simp add: created_key_def with_subkey_def capacity_ok_def)
    then show ?thesis using link by (simp add: Let_def)
  qed
qed

lemma load_inv_live: "load_inv alloc held live ld reg \<Longrightarrow> live' \<subseteq> live \<Longrightarrow> load_inv alloc held live' ld reg"
  unfolding load_inv_def by blast

lemma load_inv_sub:
  assumes "load_inv alloc held live ld reg" "rg_keys reg q = Some k" "c \<in> set (rk_subkeys k)"
  shows "load_inv alloc held (insert c live) ld reg"
proof -
  from assms(1) have "reg_ok reg held" by (simp add: load_inv_def)
  then obtain root where ok: "keys_ok root held (rg_keys reg)" by (rule reg_okE)
  have l: "linked_ok (rg_keys reg) q k" by (rule load_inv_key(2) [OF assms(1,2)])
  from subkey_live [OF l assms(3)] obtain ck where ck: "rg_keys reg c = Some ck" "rk_parent ck = Some q" .
  from keys_okD(2) [OF ok ck(1)] ck have "live_key reg c" by (auto simp: key_ok_def live_key_def)
  then show ?thesis using assms(1) by (simp add: load_inv_def)
qed

text \<open>The step of the loop over a path that creates a key.\<close>

lemma load_inv_link:
  assumes inv: "load_inv alloc held live ld reg" and q: "q \<in> live" "rg_keys reg q = Some k"
    and name: "name_ok name" "\<not> has_name (subkey_names (rg_keys reg) k) name"
    and ask: "ask alloc ld = (mem, p, ld')" and sk: "horizon_reg_alloc_key mem name modif = Some sk"
  obtains (failed) "horizon_reg_link mem q p (name_place (subkey_names (rg_keys reg) k) name)
        (reg\<lparr>rg_keys := (rg_keys reg)(p \<mapsto> sk)\<rparr>) = Some (HORIZON_REG_NO_MEMORY, reg\<lparr>rg_keys := (rg_keys reg)(p \<mapsto> sk)\<rparr>)"
      "horizon_reg_release p (reg\<lparr>rg_keys := (rg_keys reg)(p \<mapsto> sk)\<rparr>) = Some reg"
    | (linked) reg' where "horizon_reg_link mem q p (name_place (subkey_names (rg_keys reg) k) name)
        (reg\<lparr>rg_keys := (rg_keys reg)(p \<mapsto> sk)\<rparr>) = Some (HORIZON_REG_SUCCESS, reg')"
      "load_inv alloc held (insert p live) ld' reg'"
proof -
  from inv have i: "reg_ok reg held" "fresh_from alloc (ld_calls ld) reg" "\<forall>q\<in>live. live_key reg q" by (auto simp: load_inv_def)
  from i(1) obtain root where root: "rg_root reg = Some root" "keys_ok root held (rg_keys reg)" by (rule reg_okE)
  have p: "p = snd (alloc (ld_calls ld))" "ld_calls ld' = Suc (ld_calls ld)" using ask by (auto simp: ask_def)
  have fresh: "rg_keys reg p = None" using fresh_fromD [OF i(2)] p by simp
  have live: "\<not> flagged k HORIZON_REG_FLAG_DELETED" using i(3) q by (auto simp: live_key_def)
  let ?reg1 = "reg\<lparr>rg_keys := (rg_keys reg)(q \<mapsto> with_subkey (rg_keys reg) name p k, p \<mapsto> created_key name q 0 modif)\<rparr>"
  from link_new [OF root(2) q(2) live fresh name sk, unfolded Let_def] show thesis
  proof
    assume "horizon_reg_link mem q p (name_place (subkey_names (rg_keys reg) k) name)
        (reg\<lparr>rg_keys := (rg_keys reg)(p \<mapsto> sk)\<rparr>) = Some (HORIZON_REG_NO_MEMORY, reg\<lparr>rg_keys := (rg_keys reg)(p \<mapsto> sk)\<rparr>) \<and>
      horizon_reg_release p (reg\<lparr>rg_keys := (rg_keys reg)(p \<mapsto> sk)\<rparr>) = Some reg \<and> \<not> mem Alloc_table"
    then show thesis using failed by blast
  next
    assume l: "horizon_reg_link mem q p (name_place (subkey_names (rg_keys reg) k) name)
        (reg\<lparr>rg_keys := (rg_keys reg)(p \<mapsto> sk)\<rparr>) = Some (HORIZON_REG_SUCCESS, ?reg1) \<and> keys_ok root held (rg_keys ?reg1)"
    have "fresh_from alloc (ld_calls ld') ?reg1" unfolding p(2) by (rule fresh_used [OF i(2)]) (use p q(2) in auto)
    moreover have "live_key ?reg1 c" if "live_key reg c" for c
      using that q(2) live by (auto simp: live_key_def with_subkey_def flagged_def created_key_def new_flags_def)
    moreover have "live_key ?reg1 p" by (simp add: live_key_def flagged_def created_key_def new_flags_def)
    moreover have "reg_ok ?reg1 held" using l root(1) by (intro reg_okI) auto
    ultimately have "load_inv alloc held (insert p live) ld' ?reg1" using i(3) by (simp add: load_inv_def)
    then show thesis using linked l by blast
  qed
qed

lemma load_path_inv:
  assumes "load_inv alloc held live ld reg" "key \<in> live"
  shows "\<exists>r ld' reg'. load_path alloc modif name key ld reg = Some (r, ld', reg') \<and>
    load_inv alloc held (set_option r \<union> live) ld' reg' \<and> ahead ld ld'"
  using assms
proof (induction "length name" arbitrary: name key ld reg live rule: less_induct)
  case less
  show ?case
  proof (cases "name = [] \<or> horizon_reg_element name > HORIZON_REG_MAX_NAME")
    case True
    then show ?thesis using less.prems by (subst load_path.simps) (auto simp: Let_def insert_absorb)
  next
    case False
    let ?e = "horizon_reg_element name" and ?n = "take (horizon_reg_element name) name"
    let ?rest = "skip_backslashes (drop ?e name)"
    have short: "length ?rest < length name" using False skip_after_element by blast
    show ?thesis
    proof (cases "?e = 0")
      case True
      then have "load_path alloc modif name key ld reg = load_path alloc modif ?rest key ld reg"
        using False by (subst load_path.simps) (simp add: Let_def)
      then show ?thesis using less.hyps [OF short less.prems] by simp
    next
      case elem: False
      have "hd name \<noteq> BACKSLASH" using elem False by (cases name) (auto simp: horizon_reg_element_def)
      then have n: "name_ok ?n" using False element_name_ok [of name] by simp
      from less.prems obtain k where k: "rg_keys reg key = Some k" by (auto simp: load_inv_def live_key_def)
      note l = load_inv_key(2) [OF less.prems(1) k]
      from l show ?thesis
      proof (cases rule: find_subkey_cases [where n = ?n])
        case (found c ck i)
        then have eq: "load_path alloc modif name key ld reg = load_path alloc modif ?rest c ld reg"
          using False elem k by (subst load_path.simps) (simp add: Let_def)
        from less.hyps [OF short load_inv_sub [OF less.prems(1) k found(2)]] show ?thesis
          unfolding eq using load_inv_live by (metis Un_insert_right insertI1 subset_insertI)
      next
        case missing
        obtain mem p ld1 where ask: "ask alloc ld = (mem, p, ld1)" by (cases "ask alloc ld") auto
        note a1 = ask_ahead [OF ask]
        show ?thesis
        proof (cases "horizon_reg_alloc_key mem ?n modif")
          case None
          then have "load_path alloc modif name key ld reg = Some (None, ld1, reg)"
            using False elem k missing ask by (subst load_path.simps) (simp add: Let_def)
          then show ?thesis using load_inv_ahead [OF less.prems(1) a1] a1 by simp
        next
          case (Some sk)
          from less.prems k n missing(2) ask Some show ?thesis
          proof (cases rule: load_inv_link)
            case failed
            then have "load_path alloc modif name key ld reg = Some (None, ld1, reg)"
              using False elem k missing ask Some by (subst load_path.simps) (simp add: Let_def)
            then show ?thesis using load_inv_ahead [OF less.prems(1) a1] a1 by simp
          next
            case (linked reg1)
            then have eq: "load_path alloc modif name key ld reg = load_path alloc modif ?rest p ld1 reg1"
              using False elem k missing ask Some by (subst load_path.simps) (simp add: Let_def)
            from less.hyps [OF short linked(2)] show ?thesis
              unfolding eq using load_inv_live ahead_trans [OF a1] by (metis Un_insert_right insertI1 subset_insertI)
          qed
        qed
      qed
    qed
  qed
qed

section \<open>Files\<close>

lemma load_key_inv:
  assumes inv: "load_inv alloc held live ld reg" "key \<in> live"
  shows "\<exists>r ld' reg'. horizon_reg_load_key alloc now key buffer ld reg = Some (r, ld', reg') \<and>
    load_inv alloc held (set_option r \<union> live) ld' reg' \<and> ahead ld ld'"
proof -
  obtain got ld1 where t: "horizon_reg_tmp_space alloc ((length buffer + 1) * 2) ld = (got, ld1)" by fastforce
  note a1 = tmp_space_ahead [OF t]
  note i1 = load_inv_ahead [OF inv(1) a1]
  show ?thesis
  proof (cases "got \<and> horizon_reg_parse_str (ld_tmp_size ld1) buffer 93 \<noteq> None")
    case False
    then have "horizon_reg_load_key alloc now key buffer ld reg = Some (None, ld1, reg)"
      using t by (cases got) (auto simp: horizon_reg_load_key_def split: option.splits)
    then show ?thesis using i1 a1 by simp
  next
    case True
    then obtain name rest where "horizon_reg_parse_str (ld_tmp_size ld1) buffer 93 = Some (name, rest)" by auto
    with True t obtain modif where eq: "horizon_reg_load_key alloc now key buffer ld reg = load_path alloc modif name key ld1 reg"
      by (simp add: horizon_reg_load_key_def Let_def)
    show ?thesis unfolding eq using load_path_inv [OF i1 inv(2)] ahead_trans [OF a1] by blast
  qed
qed

lemma load_line_inv:
  assumes inv: "load_inv alloc held live ld reg" "insert base (set_option key) \<subseteq> live"
  shows "\<exists>key' bad ld' reg'. load_line alloc now base key ld reg = Some (key', bad, ld', reg') \<and>
    load_inv alloc held (set_option key' \<union> live) ld' reg' \<and> ahead ld ld'"
proof -
  have kept: "load_inv alloc held (set_option key \<union> live) ld reg" using inv by (auto simp: load_inv_def)
  have live: "\<exists>k. rg_keys reg q = Some k" "insert q live = live" if "key = Some q" for q
    using inv that by (auto simp: load_inv_def live_key_def)
  show ?thesis
  proof (cases "skip_spaces (ld_line ld)")
    case Nil
    then show ?thesis using kept by (auto simp: load_line_def)
  next
    case (Cons c p)
    show ?thesis
    proof (cases "c = 91")
      case True
      from load_key_inv [OF inv(1), of base now p] inv(2) obtain r ld' reg' where
        "horizon_reg_load_key alloc now base p ld reg = Some (r, ld', reg')" "load_inv alloc held (set_option r \<union> live) ld' reg'"
        "ahead ld ld'" by auto
      then show ?thesis using Cons True by (simp add: load_line_def)
    next
      case other: False
      show ?thesis
      proof (cases key)
        case None
        then show ?thesis using Cons other kept by (auto simp: load_line_def)
      next
        case (Some q)
        from live(1) [OF Some] obtain k where k: "rg_keys reg q = Some k" ..
        from load_value_inv [OF inv(1) k, of "c # p"] load_option_inv [OF inv(1) k, of "c # p"] show ?thesis
          using Cons other Some kept live(2) [OF Some] by (auto simp: load_line_def)
      qed
    qed
  qed
qed

lemma load_lines_inv:
  assumes "load_inv alloc held live ld reg" "insert base (set_option key) \<subseteq> live"
  shows "\<exists>status errors' reg'. load_lines alloc now base key errors ld reg = Some (status, errors', reg') \<and> reg_ok reg' held \<and>
    (status = HORIZON_REG_SUCCESS \<or> status = HORIZON_REG_NO_MEMORY)"
  using assms
proof (induction "length (ld_text ld)" arbitrary: ld reg key errors live rule: less_induct)
  case less
  obtain got ld1 where l: "horizon_reg_next_line alloc ld = (got, ld1)" by fastforce
  note i1 = load_inv_ahead [OF less.prems(1) next_line_ahead [OF l]]
  show ?case
  proof (cases "got = 1")
    case False
    then show ?thesis using l less.prems(1) by (subst load_lines.simps) (auto simp: load_inv_def)
  next
    case True
    from load_line_inv [OF i1 less.prems(2), of now] obtain key' bad ld2 reg2 where
      line: "load_line alloc now base key ld1 reg = Some (key', bad, ld2, reg2)"
      "load_inv alloc held (set_option key' \<union> live) ld2 reg2" "ahead ld1 ld2" by blast
    have "length (ld_text ld1) < length (ld_text ld)" using next_line_shorter l True by simp
    then have "length (ld_text ld2) < length (ld_text ld)" using line(3) by (simp add: ahead_def)
    from less.hyps [OF this line(2), of key'] less.prems(2) show ?thesis
      using l True line(1) by (subst load_lines.simps) auto
  qed
qed

text \<open>A file that begins as a registry file does.\<close>

definition registry_file :: "u8 list \<Rightarrow> bool" where
  "registry_file bytes \<longleftrightarrow> (\<exists>rest. bytes = ascii ''WINE REGISTRY Version 2'' @ 10 # rest)"

lemma header_line:
  assumes "registry_file bytes" "fst (alloc 0) Alloc_line"
  obtains ld where "horizon_reg_next_line alloc (new_loader bytes) = (1, ld)" "ld_line ld = ascii ''WINE REGISTRY Version 2''"
proof -
  from assms(1) obtain rest where f: "bytes = ascii ''WINE REGISTRY Version 2'' @ 10 # rest" by (auto simp: registry_file_def)
  show thesis using assms(2) that by (simp add: f horizon_reg_next_line_def new_loader_def ask_def ascii_def Let_def)
qed

lemma load_ends:
  assumes "reg_ok reg held" "live_key reg base" "fresh_from alloc 0 reg"
  shows "\<exists>status errors reg'. horizon_reg_load alloc now base bytes reg = Some (status, errors, reg') \<and> reg_ok reg' held \<and>
    (registry_file bytes \<and> fst (alloc 0) Alloc_line \<longrightarrow> status = HORIZON_REG_SUCCESS \<or> status = HORIZON_REG_NO_MEMORY)"
proof -
  have inv: "load_inv alloc held {base} (new_loader bytes) reg" using assms by (simp add: load_inv_def new_loader_def)
  obtain got ld1 where l: "horizon_reg_next_line alloc (new_loader bytes) = (got, ld1)" by fastforce
  from load_lines_inv [OF load_inv_ahead [OF inv next_line_ahead [OF l]], of base None now 0] obtain status errors reg' where
    lines: "load_lines alloc now base None 0 ld1 reg = Some (status, errors, reg')" "reg_ok reg' held"
    "status = HORIZON_REG_SUCCESS \<or> status = HORIZON_REG_NO_MEMORY" by auto
  show ?thesis
  proof (cases "got = 1 \<and> ld_line ld1 = ascii ''WINE REGISTRY Version 2''")
    case True
    then show ?thesis using l lines by (simp add: horizon_reg_load_def)
  next
    case False
    then have "\<not> (registry_file bytes \<and> fst (alloc 0) Alloc_line)" using header_line [of bytes alloc] l by force
    then show ?thesis using False l assms(1) by (auto simp: horizon_reg_load_def)
  qed
qed

end
