(* ===== verification/HzRegSave.thy ===== *)
theory HzRegSave
  imports HzRegLoad
begin

text \<open>
  The registry files on the card: \<open>horizon_registry_flush\<close>, \<open>horizon_registry_write_snapshot\<close>,
  \<open>horizon_registry_load_file\<close> and \<open>horizon_registry_load_hive\<close> of
  \<open>dlls/ntdll/unix/horizon_registry_server.h\<close>, and \<open>horizon_registry_move_hives\<close> of
  \<open>dlls/ntdll/unix/horizon_registry_paths.h\<close>.

  The card has files by name. \<open>io n\<close> is how its \<open>n\<close>th call goes: it works, it fails, or the power is lost in it, after
  which nothing on the card changes. Its number says how many bytes of a file that is being written are on the card
  by then: none need be before the file is closed. A file is not renamed over one that is there, as on Horizon.
\<close>

section \<open>The card\<close>

datatype io_result = Io_ok nat | Io_fail nat | Io_cut nat

type_synonym io_calls = "nat \<Rightarrow> io_result"

record card =
  cd_files :: "string \<Rightarrow> u8 list option"
  cd_calls :: nat
  cd_off :: bool

text \<open>Whether the next call works, and how much of a file it leaves on the card.\<close>

fun io_works :: "io_result \<Rightarrow> bool" where
  "io_works (Io_ok n) \<longleftrightarrow> True" | "io_works (Io_fail n) \<longleftrightarrow> False" | "io_works (Io_cut n) \<longleftrightarrow> False"

fun io_bytes :: "io_result \<Rightarrow> nat" where
  "io_bytes (Io_ok n) = n" | "io_bytes (Io_fail n) = n" | "io_bytes (Io_cut n) = n"

fun io_lost :: "io_result \<Rightarrow> bool" where
  "io_lost (Io_ok n) \<longleftrightarrow> False" | "io_lost (Io_fail n) \<longleftrightarrow> False" | "io_lost (Io_cut n) \<longleftrightarrow> True"

text \<open>One call: what it does to the files when it works and when it does not.\<close>

definition card_call ::
    "io_calls \<Rightarrow> (nat \<Rightarrow> (string \<Rightarrow> u8 list option) \<Rightarrow> (string \<Rightarrow> u8 list option)) \<Rightarrow>
     (nat \<Rightarrow> (string \<Rightarrow> u8 list option) \<Rightarrow> (string \<Rightarrow> u8 list option)) \<Rightarrow> card \<Rightarrow> bool \<times> card" where
  "card_call io good bad cd =
     (if cd_off cd then (False, cd)
      else let r = io (cd_calls cd)
           in (io_works r,
               cd\<lparr>cd_files := (if io_works r then good else bad) (io_bytes r) (cd_files cd),
                  cd_calls := Suc (cd_calls cd), cd_off := io_lost r\<rparr>))"

abbreviation (input) no_change :: "nat \<Rightarrow> (string \<Rightarrow> u8 list option) \<Rightarrow> (string \<Rightarrow> u8 list option)" where
  "no_change \<equiv> \<lambda>_ files. files"

text \<open>\<open>errno\<close> as far as the code looks at it.\<close>

datatype card_errno = Err_none | Err_noent | Err_exist | Err_other

definition card_access :: "io_calls \<Rightarrow> string \<Rightarrow> card \<Rightarrow> card_errno \<times> card" where
  "card_access io path cd =
     (case card_call io no_change no_change cd of
        (good, cd') \<Rightarrow> (if \<not> good then Err_other else if cd_files cd path = None then Err_noent else Err_none, cd'))"

definition card_rename :: "io_calls \<Rightarrow> string \<Rightarrow> string \<Rightarrow> card \<Rightarrow> card_errno \<times> card" where
  "card_rename io src dst cd =
     (if cd_files cd src = None then (case card_call io no_change no_change cd of (_, cd') \<Rightarrow> (Err_noent, cd'))
      else if cd_files cd dst \<noteq> None
      then (case card_call io no_change no_change cd of (good, cd') \<Rightarrow> (if good then Err_exist else Err_other, cd'))
      else (case card_call io (\<lambda>_ files. files(dst := files src, src := None)) no_change cd of
              (good, cd') \<Rightarrow> (if good then Err_none else Err_other, cd')))"

definition card_unlink :: "io_calls \<Rightarrow> string \<Rightarrow> card \<Rightarrow> bool \<times> card" where
  "card_unlink io path cd = card_call io (\<lambda>_ files. files(path := None)) no_change cd"

text \<open>\<open>fopen( path, "wb" )\<close>, \<open>fwrite\<close> and \<open>fclose\<close>.\<close>

definition card_create :: "io_calls \<Rightarrow> string \<Rightarrow> card \<Rightarrow> bool \<times> card" where
  "card_create io path cd = card_call io (\<lambda>_ files. files(path \<mapsto> [])) no_change cd"

definition card_write :: "io_calls \<Rightarrow> string \<Rightarrow> u8 list \<Rightarrow> card \<Rightarrow> bool \<times> card" where
  "card_write io path data cd =
     card_call io (\<lambda>n files. files(path \<mapsto> take n data)) (\<lambda>n files. files(path \<mapsto> take n data)) cd"

definition card_close :: "io_calls \<Rightarrow> string \<Rightarrow> u8 list \<Rightarrow> card \<Rightarrow> bool \<times> card" where
  "card_close io path data cd =
     card_call io (\<lambda>_ files. files(path \<mapsto> data)) (\<lambda>n files. files(path \<mapsto> take n data)) cd"

section \<open>Writing a file\<close>

abbreviation (input) tmp_name :: "string \<Rightarrow> string" where "tmp_name path \<equiv> path @ ''.tmp''"

text \<open>A \<open>.tmp\<close> that a save left when it had removed the file; \<open>False\<close> when it cannot be put in its place.\<close>

definition recover_snapshot :: "io_calls \<Rightarrow> string \<Rightarrow> card \<Rightarrow> bool \<times> card" where
  "recover_snapshot io path cd =
     (case card_access io (tmp_name path) cd of
        (err, cd) \<Rightarrow>
          if err \<noteq> Err_none then (True, cd)
          else (case card_access io path cd of
                  (err, cd) \<Rightarrow>
                    if err = Err_none then (True, cd)
                    else if err \<noteq> Err_noent then (False, cd)
                    else (case card_rename io (tmp_name path) path cd of (err, cd) \<Rightarrow> (err = Err_none, cd))))"

text \<open>The \<open>.tmp\<close> in place of the file.\<close>

definition replace_file :: "io_calls \<Rightarrow> string \<Rightarrow> card \<Rightarrow> bool \<times> card" where
  "replace_file io path cd =
     (case card_rename io (tmp_name path) path cd of
        (err, cd) \<Rightarrow>
          if err = Err_none then (True, cd)
          else if err \<noteq> Err_exist then (False, cd)
          else (case card_unlink io path cd of
                  (False, cd) \<Rightarrow> (False, cd)
                | (True, cd) \<Rightarrow>
                    (case card_rename io (tmp_name path) path cd of (err, cd) \<Rightarrow> (err = Err_none, cd))))"

definition horizon_registry_write_snapshot :: "io_calls \<Rightarrow> string \<Rightarrow> u8 list \<Rightarrow> card \<Rightarrow> bool \<times> card" where
  "horizon_registry_write_snapshot io path data cd =
     (case recover_snapshot io path cd of
        (False, cd) \<Rightarrow> (False, cd)
      | (True, cd) \<Rightarrow>
          (case card_create io (tmp_name path) cd of
             (False, cd) \<Rightarrow> (False, cd)
           | (True, cd) \<Rightarrow>
               (case card_write io (tmp_name path) data cd of
                  (written, cd) \<Rightarrow>
                    (case card_close io (tmp_name path) data cd of
                       (closed, cd) \<Rightarrow>
                         if \<not> written \<or> \<not> closed then (False, snd (card_unlink io (tmp_name path) cd))
                         else replace_file io path cd))))"

section \<open>Reading it back\<close>

text \<open>Whether the file was a registry file, and the registry; \<open>room\<close> says whether there is memory for its text.\<close>

definition horizon_registry_load_file ::
    "reg_allocator \<Rightarrow> u64 \<Rightarrow> bool \<Rightarrow> ptr \<Rightarrow> u8 list option \<Rightarrow> horizon_reg \<Rightarrow> (bool \<times> horizon_reg) option" where
  "horizon_registry_load_file alloc now room base file reg =
     (case file of
        None \<Rightarrow> Some (False, reg)
      | Some bytes \<Rightarrow>
          if length bytes > 16 * 1024 * 1024 \<or> \<not> room then Some (False, reg)
          else map_option (\<lambda>(status, errors, reg). (status \<noteq> HORIZON_REG_NOT_REGISTRY_FILE, reg))
                 (horizon_reg_load alloc now base bytes reg))"

definition horizon_registry_load_hive ::
    "reg_allocator \<Rightarrow> reg_allocator \<Rightarrow> u64 \<Rightarrow> bool \<Rightarrow> ptr \<Rightarrow> string \<Rightarrow> card \<Rightarrow> horizon_reg \<Rightarrow> horizon_reg option" where
  "horizon_registry_load_hive alloc alloc' now room base path cd reg =
     do { (loaded, reg) \<leftarrow> horizon_registry_load_file alloc now room base (cd_files cd path) reg;
          if loaded then Some reg
          else map_option snd (horizon_registry_load_file alloc' now room base (cd_files cd (tmp_name path)) reg) }"

section \<open>Saving the hives\<close>

definition hive_name :: "bool \<Rightarrow> string" where
  "hive_name user = (if user then ''registry/user.reg'' else ''registry/system.reg'')"

definition hive_root :: "bool \<Rightarrow> string" where
  "hive_root user = CHR 0x5c # CHR 0x5c #
     (if user then ''User'' @ [CHR 0x5c, CHR 0x5c] @ ''S-1-5-21-0-0-0-1000'' else ''Machine'')"

definition side :: "bool \<Rightarrow> 'a \<times> 'a \<Rightarrow> 'a" where
  "side user xs = (if user then snd xs else fst xs)"

definition set_side :: "bool \<Rightarrow> 'a \<Rightarrow> 'a \<times> 'a \<Rightarrow> 'a \<times> 'a" where
  "set_side user x xs = (if user then (fst xs, x) else (x, snd xs))"

definition hive_text :: "bool \<Rightarrow> horizon_reg \<Rightarrow> ptr \<Rightarrow> u8 list option" where
  "hive_text user reg hive =
     map_option (\<lambda>body. ascii ''WINE REGISTRY Version 2'' @ [10] @ ascii ('';; All keys relative to '' @ hive_root user) @ [10] @ body)
       (horizon_registry_save_subkeys reg hive)"

record reg_server =
  sv_reg :: horizon_reg
  sv_saved :: "u64 \<times> u64"
  sv_card :: card

text \<open>
  One round of the loop of \<open>horizon_registry_flush\<close>: whether the hive is not left behind. \<open>stream\<close> says whether the
  text could be made in memory, \<open>others\<close> what other threads do to the registry while the card is written.
\<close>

definition flush_hive ::
    "io_calls \<Rightarrow> bool \<Rightarrow> (horizon_reg \<Rightarrow> horizon_reg) \<Rightarrow> bool \<Rightarrow> reg_server \<Rightarrow> (bool \<times> reg_server) option" where
  "flush_hive io stream others user sv =
     (let reg = sv_reg sv; generation = side user (rg_generation reg)
      in case side user (rg_hives reg) of
           None \<Rightarrow> Some (True, sv\<lparr>sv_reg := others reg\<rparr>)
         | Some hive \<Rightarrow>
             if generation = side user (sv_saved sv) then Some (True, sv\<lparr>sv_reg := others reg\<rparr>)
             else if \<not> stream then Some (False, sv\<lparr>sv_reg := others reg\<rparr>)
             else do { data \<leftarrow> hive_text user reg hive;
                       (case horizon_registry_write_snapshot io (hive_name user) data (sv_card sv) of
                          (True, cd) \<Rightarrow> Some (True, sv\<lparr>sv_reg := others reg, sv_card := cd,
                                                        sv_saved := set_side user generation (sv_saved sv)\<rparr>)
                        | (False, cd) \<Rightarrow> Some (False, sv\<lparr>sv_reg := others reg, sv_card := cd\<rparr>)) })"

definition horizon_registry_flush ::
    "io_calls \<Rightarrow> (bool \<Rightarrow> bool) \<Rightarrow> (bool \<Rightarrow> horizon_reg \<Rightarrow> horizon_reg) \<Rightarrow> reg_server \<Rightarrow> (bool \<times> reg_server) option" where
  "horizon_registry_flush io stream others sv =
     do { (machine, sv) \<leftarrow> flush_hive io (stream False) (others False) False sv;
          (user, sv) \<leftarrow> flush_hive io (stream True) (others True) True sv;
          Some (machine \<and> user, sv) }"

section \<open>Where the hives were\<close>

text \<open>\<open>if (!access( from, F_OK )) rename( from, to );\<close>\<close>

definition move_file :: "io_calls \<Rightarrow> string \<Rightarrow> string \<Rightarrow> card \<Rightarrow> card" where
  "move_file io src dst cd =
     (case card_access io src cd of (err, cd) \<Rightarrow> if err = Err_none then snd (card_rename io src dst cd) else cd)"

definition move_hive :: "io_calls \<Rightarrow> string \<Rightarrow> card \<Rightarrow> card" where
  "move_hive io name cd =
     (case card_access io (''registry/'' @ name) cd of
        (err, cd) \<Rightarrow>
          if err = Err_none then cd
          else (case card_access io (tmp_name (''registry/'' @ name)) cd of
                  (err, cd) \<Rightarrow>
                    if err = Err_none then cd
                    else move_file io (tmp_name name) (tmp_name (''registry/'' @ name))
                           (move_file io name (''registry/'' @ name) cd)))"

definition horizon_registry_move_hives :: "io_calls \<Rightarrow> card \<Rightarrow> card" where
  "horizon_registry_move_hives io cd = move_hive io ''user.reg'' (move_hive io ''system.reg'' cd)"

section \<open>What each call does\<close>

lemma tmp_name_other [simp]: "path @ ''.tmp'' \<noteq> path" "path \<noteq> path @ ''.tmp''"
  by simp_all

lemma call_off: "cd_off cd \<Longrightarrow> card_call io good bad cd = (False, cd)"
  by (simp add: card_call_def)

lemma access_files:
  assumes "card_access io path cd = (err, cd')"
  shows "cd_files cd' = cd_files cd" "err = Err_none \<Longrightarrow> cd_files cd path \<noteq> None" "err = Err_noent \<Longrightarrow> cd_files cd path = None"
  using assms by (auto simp: card_access_def card_call_def Let_def split: if_splits)

lemma access_told:
  assumes "card_access io path cd = (err, cd')" "cd_files cd path \<noteq> None" "\<And>n. io (cd_calls cd) \<noteq> Io_fail n" "err \<noteq> Err_none"
  shows "cd_off cd'"
  using assms by (cases "io (cd_calls cd)") (auto simp: card_access_def card_call_def Let_def split: if_splits)

lemma card_rename_cases:
  assumes "card_rename io src dst cd = (err, cd')"
  obtains (moved) "err = Err_none" "cd_files cd' = (cd_files cd)(dst := cd_files cd src, src := None)"
    | (kept) "err \<noteq> Err_none" "cd_files cd' = cd_files cd" "err = Err_exist \<Longrightarrow> cd_files cd dst \<noteq> None"
  using assms by (auto simp: card_rename_def card_call_def Let_def split: if_splits)

lemma unlink_cases:
  assumes "card_unlink io path cd = (gone, cd')"
  obtains (removed) gone "cd_files cd' = (cd_files cd)(path := None)" | (kept) "\<not> gone" "cd_files cd' = cd_files cd"
  using assms by (auto simp: card_unlink_def card_call_def Let_def split: if_splits)

text \<open>Writing touches one file, and leaves it complete when it was closed.\<close>

lemma create_other: "card_create io p cd = (b, cd') \<Longrightarrow> q \<noteq> p \<Longrightarrow> cd_files cd' q = cd_files cd q"
  and write_other: "card_write io p data cd = (b, cd') \<Longrightarrow> q \<noteq> p \<Longrightarrow> cd_files cd' q = cd_files cd q"
  and close_other: "card_close io p data cd = (b, cd') \<Longrightarrow> q \<noteq> p \<Longrightarrow> cd_files cd' q = cd_files cd q"
  and close_complete: "card_close io p data cd = (True, cd') \<Longrightarrow> cd_files cd' p = Some data"
  by (auto simp: card_create_def card_write_def card_close_def card_call_def Let_def split: if_splits)

section \<open>Power loss\<close>

text \<open>The text the loader goes for: the file, or the \<open>.tmp\<close> when there is no file.\<close>

definition stored_text :: "card \<Rightarrow> string \<Rightarrow> u8 list option" where
  "stored_text cd path = (case cd_files cd path of None \<Rightarrow> cd_files cd (tmp_name path) | Some t \<Rightarrow> Some t)"

lemma stored_same: "cd_files cd' = cd_files cd \<Longrightarrow> stored_text cd' path = stored_text cd path"
  by (simp add: stored_text_def split: option.splits)

lemma recover_kept:
  assumes stored: "stored_text cd path = Some old" and told: "cd_files cd path \<noteq> None \<or> (\<forall>n. io (cd_calls cd) \<noteq> Io_fail n)"
    and rec: "recover_snapshot io path cd = (good, cd')"
  shows "stored_text cd' path = Some old" "good \<Longrightarrow> cd_files cd' path = Some old \<or> cd_off cd'"
proof -
  obtain e1 cd1 where a1: "card_access io (tmp_name path) cd = (e1, cd1)" by fastforce
  obtain e2 cd2 where a2: "card_access io path cd1 = (e2, cd2)" by fastforce
  obtain e3 cd3 where r3: "card_rename io (tmp_name path) path cd2 = (e3, cd3)" by fastforce
  note f1 = access_files [OF a1] and f2 = access_files [OF a2]
  have goal: "stored_text cd' path = Some old \<and> (good \<longrightarrow> cd_files cd' path = Some old \<or> cd_off cd')"
  proof (cases "e1 = Err_none")
    case False
    then have eq: "good" "cd' = cd1" using rec a1 by (auto simp: recover_snapshot_def)
    have "cd_files cd path = Some old \<or> cd_off cd1"
      using stored told access_told [OF a1 _ _ False] by (cases "cd_files cd path") (auto simp: stored_text_def)
    then show ?thesis using stored_same [OF f1(1), of path] stored f1(1) eq by simp
  next
    case True
    have tmp: "cd_files cd (tmp_name path) \<noteq> None" by (rule f1(2) [OF True])
    have files: "cd_files cd2 = cd_files cd" using f1(1) f2(1) by simp
    show ?thesis
    proof (cases "e2 = Err_noent")
      case False
      then have "cd' = cd2" "good \<Longrightarrow> e2 = Err_none" using rec a1 a2 True by (auto simp: recover_snapshot_def split: if_splits)
      moreover have "cd_files cd path = Some old" if "e2 = Err_none"
        using f2(2) [OF that] f1(1) stored by (auto simp: stored_text_def)
      ultimately show ?thesis using stored_same [OF files, of path] stored files by auto
    next
      case noent: True
      have none: "cd_files cd2 path = None" using f2 noent by simp
      have eq: "good = (e3 = Err_none)" "cd' = cd3" using rec a1 a2 r3 True noent by (auto simp: recover_snapshot_def)
      from r3 show ?thesis
      proof (cases rule: card_rename_cases)
        case moved
        then show ?thesis using eq stored files none by (simp add: stored_text_def)
      next
        case kept
        then show ?thesis using eq stored stored_same [of cd3 cd path] files by simp
      qed
    qed
  qed
  from goal show "stored_text cd' path = Some old" "good \<Longrightarrow> cd_files cd' path = Some old \<or> cd_off cd'" by blast+
qed

lemma replace_kept:
  assumes "cd_files cd path = Some old" "cd_files cd (tmp_name path) = Some data" "replace_file io path cd = (good, cd')"
  shows "stored_text cd' path = Some old \<or> stored_text cd' path = Some data" "good \<Longrightarrow> cd_files cd' path = Some data"
proof -
  obtain e1 cd1 where r1: "card_rename io (tmp_name path) path cd = (e1, cd1)" by fastforce
  obtain b2 cd2 where u2: "card_unlink io path cd1 = (b2, cd2)" by fastforce
  obtain e3 cd3 where r3: "card_rename io (tmp_name path) path cd2 = (e3, cd3)" by fastforce
  have goal: "(stored_text cd' path = Some old \<or> stored_text cd' path = Some data) \<and> (good \<longrightarrow> cd_files cd' path = Some data)"
    using r1
  proof (cases rule: card_rename_cases)
    case moved
    then show ?thesis using assms r1 by (auto simp: replace_file_def stored_text_def)
  next
    case kept
    show ?thesis
    proof (cases "e1 = Err_exist \<and> b2")
      case False
      then have "cd_files cd' path = Some old" "\<not> good" using assms r1 u2 kept
        by (auto simp: replace_file_def elim!: unlink_cases split: if_splits bool.splits)
      then show ?thesis by (simp add: stored_text_def)
    next
      case True
      then have files: "cd_files cd2 = (cd_files cd)(path := None)" using u2 kept(2) by (auto elim: unlink_cases)
      have eq: "good = (e3 = Err_none)" "cd' = cd3" using assms(3) r1 u2 r3 True by (auto simp: replace_file_def)
      from r3 show ?thesis
        by (cases rule: card_rename_cases) (use eq files assms(2) in \<open>auto simp: stored_text_def\<close>)
    qed
  qed
  from goal show "stored_text cd' path = Some old \<or> stored_text cd' path = Some data" "good \<Longrightarrow> cd_files cd' path = Some data"
    by blast+
qed

lemma snapshot_safe:
  assumes stored: "stored_text cd path = Some old" and told: "cd_files cd path \<noteq> None \<or> (\<forall>n. io (cd_calls cd) \<noteq> Io_fail n)"
    and snap: "horizon_registry_write_snapshot io path data cd = (good, cd')"
  shows "(stored_text cd' path = Some old \<or> stored_text cd' path = Some data) \<and> (good \<longrightarrow> cd_files cd' path = Some data)"
proof -
  obtain b1 cd1 where r1: "recover_snapshot io path cd = (b1, cd1)" by fastforce
  obtain b2 cd2 where c2: "card_create io (tmp_name path) cd1 = (b2, cd2)" by fastforce
  obtain b3 cd3 where w3: "card_write io (tmp_name path) data cd2 = (b3, cd3)" by fastforce
  obtain b4 cd4 where c4: "card_close io (tmp_name path) data cd3 = (b4, cd4)" by fastforce
  obtain b5 cd5 where u5: "card_unlink io (tmp_name path) cd4 = (b5, cd5)" by fastforce
  note rec = recover_kept [OF stored told r1]
  show ?thesis
  proof (cases "b1 \<and> b2")
    case False
    have "cd_files cd2 = cd_files cd1" if "\<not> b2" using c2 that by (auto simp: card_create_def card_call_def Let_def split: if_splits)
    then have "stored_text cd' path = Some old" "\<not> good"
      using snap r1 c2 False rec(1) stored_same [of cd2 cd1 path]
      by (auto simp: horizon_registry_write_snapshot_def split: bool.splits)
    then show ?thesis by simp
  next
    case True
    have "\<not> cd_off cd1" using c2 True by (auto simp: card_create_def call_off)
    then have "cd_files cd1 path = Some old" using rec(2) True by simp
    then have path: "cd_files cd4 path = Some old"
      using create_other [OF c2] write_other [OF w3] close_other [OF c4] by simp
    show ?thesis
    proof (cases "b3 \<and> b4")
      case False
      then have eq: "\<not> good" "cd' = cd5" using snap r1 c2 w3 c4 u5 True by (auto simp: horizon_registry_write_snapshot_def)
      from u5 have "cd_files cd5 path = Some old" by (cases rule: unlink_cases) (use path in auto)
      then show ?thesis using eq by (simp add: stored_text_def)
    next
      case closed: True
      then have "replace_file io path cd4 = (good, cd')"
        using snap r1 c2 w3 c4 True by (auto simp: horizon_registry_write_snapshot_def)
      from replace_kept [OF path _ this] close_complete [of io _ data cd3 cd4] c4 closed show ?thesis by simp
    qed
  qed
qed

section \<open>Other files\<close>

lemma rename_other: "card_rename io src dst cd = (err, cd') \<Longrightarrow> q \<noteq> src \<Longrightarrow> q \<noteq> dst \<Longrightarrow> cd_files cd' q = cd_files cd q"
  by (erule card_rename_cases) auto

lemma unlink_other: "card_unlink io p cd = (b, cd') \<Longrightarrow> q \<noteq> p \<Longrightarrow> cd_files cd' q = cd_files cd q"
  by (erule unlink_cases) auto

lemma recover_other:
  assumes "recover_snapshot io path cd = (b, cd')" "q \<noteq> path" "q \<noteq> tmp_name path"
  shows "cd_files cd' q = cd_files cd q"
proof -
  obtain e1 cd1 where a1: "card_access io (tmp_name path) cd = (e1, cd1)" by fastforce
  obtain e2 cd2 where a2: "card_access io path cd1 = (e2, cd2)" by fastforce
  obtain e3 cd3 where r3: "card_rename io (tmp_name path) path cd2 = (e3, cd3)" by fastforce
  show ?thesis using assms a1 a2 r3 access_files(1) [OF a1] access_files(1) [OF a2] rename_other [OF r3]
    by (auto simp: recover_snapshot_def split: if_splits)
qed

lemma replace_other:
  assumes "replace_file io path cd = (b, cd')" "q \<noteq> path" "q \<noteq> tmp_name path"
  shows "cd_files cd' q = cd_files cd q"
proof -
  obtain e1 cd1 where r1: "card_rename io (tmp_name path) path cd = (e1, cd1)" by fastforce
  obtain b2 cd2 where u2: "card_unlink io path cd1 = (b2, cd2)" by fastforce
  obtain e3 cd3 where r3: "card_rename io (tmp_name path) path cd2 = (e3, cd3)" by fastforce
  show ?thesis using assms r1 u2 r3 rename_other [OF r1] unlink_other [OF u2] rename_other [OF r3]
    by (auto simp: replace_file_def split: if_splits bool.splits)
qed

lemma snapshot_other:
  assumes "horizon_registry_write_snapshot io path data cd = (b, cd')" "q \<noteq> path" "q \<noteq> tmp_name path"
  shows "cd_files cd' q = cd_files cd q"
proof -
  obtain b1 cd1 where r1: "recover_snapshot io path cd = (b1, cd1)" by fastforce
  obtain b2 cd2 where c2: "card_create io (tmp_name path) cd1 = (b2, cd2)" by fastforce
  obtain b3 cd3 where w3: "card_write io (tmp_name path) data cd2 = (b3, cd3)" by fastforce
  obtain b4 cd4 where c4: "card_close io (tmp_name path) data cd3 = (b4, cd4)" by fastforce
  obtain b5 cd5 where u5: "card_unlink io (tmp_name path) cd4 = (b5, cd5)" by fastforce
  note same = recover_other [OF r1 assms(2,3)] create_other [OF c2 assms(3)] write_other [OF w3 assms(3)]
    close_other [OF c4 assms(3)] unlink_other [OF u5 assms(3)]
  show ?thesis using assms(1) r1 c2 w3 c4 u5 same replace_other [OF _ assms(2,3), of io cd4 b cd']
    by (auto simp: horizon_registry_write_snapshot_def split: if_splits bool.splits)
qed

lemma hive_names_other: "user \<noteq> user' \<Longrightarrow> hive_name user \<noteq> hive_name user' \<and> hive_name user \<noteq> tmp_name (hive_name user')"
  by (cases user; cases user') (simp_all add: hive_name_def)

text \<open>A hive that was saved has the text of the registry at the time, and counts as saved up to then.\<close>

definition hive_saved :: "bool \<Rightarrow> horizon_reg \<Rightarrow> reg_server \<Rightarrow> reg_server \<Rightarrow> bool" where
  "hive_saved user reg sv sv' \<longleftrightarrow>
     (case side user (rg_hives reg) of
        None \<Rightarrow> side user (sv_saved sv') = side user (sv_saved sv)
      | Some hive \<Rightarrow>
          side user (sv_saved sv') = side user (rg_generation reg) \<and>
          cd_files (sv_card sv') (hive_name user) =
            (if side user (rg_generation reg) = side user (sv_saved sv) then cd_files (sv_card sv) (hive_name user)
             else hive_text user reg hive))"

lemma side_simps [simp]: "side user (set_side user x xs) = x" "user \<noteq> user' \<Longrightarrow> side user (set_side user' x xs) = side user xs"
  by (cases user; cases user'; simp add: side_def set_side_def)+

lemma snapshot_done: "horizon_registry_write_snapshot io path data cd = (True, cd') \<Longrightarrow> cd_files cd' path = Some data"
proof -
  assume snap: "horizon_registry_write_snapshot io path data cd = (True, cd')"
  obtain b1 cd1 where r1: "recover_snapshot io path cd = (b1, cd1)" by fastforce
  obtain b2 cd2 where c2: "card_create io (tmp_name path) cd1 = (b2, cd2)" by fastforce
  obtain b3 cd3 where w3: "card_write io (tmp_name path) data cd2 = (b3, cd3)" by fastforce
  obtain b4 cd4 where c4: "card_close io (tmp_name path) data cd3 = (b4, cd4)" by fastforce
  have "b4" "replace_file io path cd4 = (True, cd')" using snap r1 c2 w3 c4
    by (auto simp: horizon_registry_write_snapshot_def split: bool.splits if_splits)
  then have tmp: "cd_files cd4 (tmp_name path) = Some data" using c4 close_complete [of io "tmp_name path" data cd3 cd4] by simp
  from \<open>replace_file io path cd4 = (True, cd')\<close> show ?thesis
    using tmp by (auto simp: replace_file_def split: prod.splits if_splits bool.splits elim!: card_rename_cases unlink_cases)
qed

lemma flush_hive_done:
  assumes "flush_hive io stream others user sv = Some (True, sv')"
  shows "hive_saved user (sv_reg sv) sv sv'" "sv_reg sv' = others (sv_reg sv)"
    "user \<noteq> user' \<Longrightarrow> side user' (sv_saved sv') = side user' (sv_saved sv) \<and>
       cd_files (sv_card sv') (hive_name user') = cd_files (sv_card sv) (hive_name user')"
  using assms snapshot_done [of io "hive_name user"] snapshot_other [of io "hive_name user" _ _ True _ "hive_name user'"]
    hive_names_other [of user' user]
  by (auto simp: flush_hive_def hive_saved_def Let_def split: option.splits if_splits bind_splits prod.splits bool.splits)

section \<open>Moving the hives\<close>

text \<open>Whatever fails, each file of a hive is where it was or in the new place, and none there is written over.\<close>

definition moved_file :: "string \<Rightarrow> string \<Rightarrow> card \<Rightarrow> card \<Rightarrow> bool" where
  "moved_file src dst cd cd' \<longleftrightarrow>
     (cd_files cd' src = cd_files cd src \<and> cd_files cd' dst = cd_files cd dst) \<or>
     (cd_files cd dst = None \<and> cd_files cd' dst = cd_files cd src \<and> cd_files cd' src = None)"

lemma moved_file_cong:
  assumes "moved_file src dst cd1 cd2" "cd_files cd3 src = cd_files cd1 src" "cd_files cd3 dst = cd_files cd1 dst"
    "cd_files cd4 src = cd_files cd2 src" "cd_files cd4 dst = cd_files cd2 dst"
  shows "moved_file src dst cd3 cd4"
  using assms by (simp add: moved_file_def)

lemma rename_moves: "card_rename io src dst cd = (err, cd') \<Longrightarrow> src \<noteq> dst \<Longrightarrow> moved_file src dst cd cd'"
  by (auto simp: card_rename_def card_call_def Let_def moved_file_def split: if_splits)

lemma move_file_moves: "src \<noteq> dst \<Longrightarrow> moved_file src dst cd (move_file io src dst cd)"
proof -
  assume ne: "src \<noteq> dst"
  obtain e1 cd1 where a1: "card_access io src cd = (e1, cd1)" by fastforce
  obtain e2 cd2 where r2: "card_rename io src dst cd1 = (e2, cd2)" by fastforce
  show ?thesis using access_files(1) [OF a1] rename_moves [OF r2 ne] by (simp add: move_file_def a1 r2 moved_file_def)
qed

lemma move_file_other: "q \<noteq> src \<Longrightarrow> q \<noteq> dst \<Longrightarrow> cd_files (move_file io src dst cd) q = cd_files cd q"
proof -
  assume ne: "q \<noteq> src" "q \<noteq> dst"
  obtain e1 cd1 where a1: "card_access io src cd = (e1, cd1)" by fastforce
  obtain e2 cd2 where r2: "card_rename io src dst cd1 = (e2, cd2)" by fastforce
  show ?thesis using access_files(1) [OF a1] rename_other [OF r2 ne] by (simp add: move_file_def a1 r2)
qed

theorem move_hive_keeps:
  "moved_file name (''registry/'' @ name) cd (move_hive io name cd) \<and>
    moved_file (tmp_name name) (tmp_name (''registry/'' @ name)) cd (move_hive io name cd)"
proof -
  let ?new = "''registry/'' @ name"
  have ne: "xs \<noteq> ys" if "length xs \<noteq> length ys" for xs ys :: string using that by auto
  have n: "name \<noteq> ?new" "tmp_name name \<noteq> ?new" "name \<noteq> tmp_name ?new" "tmp_name name \<noteq> tmp_name ?new"
    "?new \<noteq> tmp_name ?new" "name \<noteq> tmp_name name" by (rule ne, simp)+
  obtain e1 cd1 where a1: "card_access io ?new cd = (e1, cd1)" by fastforce
  obtain e2 cd2 where a2: "card_access io (tmp_name ?new) cd1 = (e2, cd2)" by fastforce
  have same: "cd_files cd1 = cd_files cd" "cd_files cd2 = cd_files cd" using access_files(1) [OF a1] access_files(1) [OF a2] by auto
  let ?cd3 = "move_file io name ?new cd2"
  let ?cd4 = "move_file io (tmp_name name) (tmp_name ?new) ?cd3"
  note m3 = move_file_moves [OF n(1), of cd2 io] and m4 = move_file_moves [OF n(4), of ?cd3 io]
  have "cd_files ?cd4 name = cd_files ?cd3 name" by (rule move_file_other [OF n(6,3)])
  moreover have "cd_files ?cd4 ?new = cd_files ?cd3 ?new" by (rule move_file_other [OF n(2) [symmetric] n(5)])
  ultimately have one: "moved_file name ?new cd ?cd4" using moved_file_cong [OF m3, of cd ?cd4] same(2) by simp
  have "cd_files ?cd3 (tmp_name name) = cd_files cd2 (tmp_name name)" by (rule move_file_other [OF n(6) [symmetric] n(2)])
  moreover have "cd_files ?cd3 (tmp_name ?new) = cd_files cd2 (tmp_name ?new)" by (rule move_file_other [OF n(3) [symmetric] n(5) [symmetric]])
  ultimately have two: "moved_file (tmp_name name) (tmp_name ?new) cd ?cd4" using moved_file_cong [OF m4, of cd ?cd4] same(2) by simp
  have keep: "moved_file src dst cd cd1" "moved_file src dst cd cd2" for src dst using same by (simp_all add: moved_file_def)
  have "move_hive io name cd = (if e1 = Err_none then cd1 else if e2 = Err_none then cd2 else ?cd4)"
    by (simp only: move_hive_def a1 a2 prod.case)
  then consider "move_hive io name cd = cd1" | "move_hive io name cd = cd2" | "move_hive io name cd = ?cd4" by metis
  then show ?thesis by cases (simp_all only: keep one two)
qed

text \<open>
  When the first rename fails and the second does not, the hive is in two places: the loader then reads the \<open>.tmp\<close>
  in the new place, which may be older than the file or cut short, and later starts leave the file where it was.
\<close>

theorem move_hive_split:
  "\<exists>io cd. stored_text cd ''system.reg'' = Some [1] \<and> cd_files cd ''registry/system.reg'' = None \<and>
     stored_text (move_hive io ''system.reg'' cd) ''registry/system.reg'' = Some [2]"
proof (intro exI conjI)
  let ?cd = "\<lparr>cd_files = [''system.reg'' \<mapsto> [1], ''system.reg.tmp'' \<mapsto> [2]], cd_calls = 0, cd_off = False\<rparr> :: card"
  let ?io = "\<lambda>n. if n = 3 then Io_fail 0 else Io_ok 0"
  show "stored_text ?cd ''system.reg'' = Some [1]" "cd_files ?cd ''registry/system.reg'' = None" by (simp_all add: stored_text_def)
  show "stored_text (move_hive ?io ''system.reg'' ?cd) ''registry/system.reg'' = Some [2]"
    by (simp add: move_hive_def move_file_def card_access_def card_rename_def card_call_def stored_text_def Let_def)
qed

text \<open>
  Power lost while the first file is written: there is no file, and the loader takes the part of the \<open>.tmp\<close> that is
  on the card.
\<close>

theorem first_snapshot_cut:
  "\<exists>io cd. stored_text cd path = None \<and>
     stored_text (snd (horizon_registry_write_snapshot io path [1, 2, 3] cd)) path = Some [1, 2]"
proof (intro exI conjI)
  let ?cd = "\<lparr>cd_files = Map.empty, cd_calls = 0, cd_off = False\<rparr> :: card"
  show "stored_text ?cd path = None" by (simp add: stored_text_def)
  show "stored_text (snd (horizon_registry_write_snapshot (\<lambda>n. if n = 2 then Io_cut 2 else Io_ok 0) path [1, 2, 3] ?cd)) path = Some [1, 2]"
    by (simp add: horizon_registry_write_snapshot_def recover_snapshot_def card_access_def card_create_def card_write_def
        card_close_def card_unlink_def card_call_def stored_text_def Let_def)
qed

end
