(* ===== verification/HzRegFiles.thy ===== *)
theory HzRegFiles
  imports HzRegLex HzRegSave HzRegUse
begin

text \<open>
  What is written to a registry file is read back: values and options of keys; and every load of a file ends.
\<close>

section \<open>Values\<close>

lemma digit_line_byte: "is_xdigit c \<Longrightarrow> line_byte c"
  by (auto simp: line_byte_def is_xdigit_def is_digit_def)

lemma line_byte_marks: "line_byte 34" "line_byte 61" "line_byte 64"
  by (simp_all add: line_byte_def)

lemma save_char_bytes: "b \<in> set (save_char escape c follows) \<Longrightarrow> line_byte b"
proof -
  assume b: "b \<in> set (save_char escape c follows)"
  have plain: "line_byte (ucast c)" if "\<not> c > 127" "\<not> c < 32"
  proof -
    have "c < 128" using that(1) by (simp add: word_less_nat_alt)
    from small_unit(3) [OF this] that(2) have "\<not> unat (ucast c :: u8) < 32" by (simp add: word_less_nat_alt)
    then show ?thesis by (auto simp: line_byte_def)
  qed
  have letter: "line_byte l" if "escape_letter c = Some l" for l
    using that unfolding escape_letter_def by (simp split: if_split_asm; hypsubst_thin?; simp add: line_byte_def)
  have digits: "line_byte d" if "base = 8 \<or> base = 16" "d \<in> set (number_text base n) \<or> d \<in> set (padded w (number_text base n))" for d base n w
    using that xdigit_of [of base d n] digit_line_byte [of d] by (auto dest!: padded_set simp: line_byte_def)
  show ?thesis using b plain letter digits [of 16 b] digits [of 8 b]
    by (auto simp: save_char_def ascii_def line_byte_def split: if_split_asm option.splits)
qed

lemma save_str_bytes: "b \<in> set (horizon_registry_save_str escape s) \<Longrightarrow> line_byte b"
  by (induction s) (auto dest: save_char_bytes)

lemma save_str_length: "length s \<le> length (horizon_registry_save_str escape s)"
proof (induction s)
  case (Cons c s)
  obtain b q where "save_char escape c (case s of [] \<Rightarrow> None | d # _ \<Rightarrow> Some d) = b # q" using save_char_head by blast
  with Cons show ?case by simp
qed simp

lemma units16_length: "length (units16 bs) = length bs div 2"
  by (induction bs rule: units16.induct) simp_all

lemma unit_halves: "ucast (ucast (lo :: u8) OR push_bit 8 (ucast (hi :: u8)) :: u16) = lo"
    "ucast (drop_bit 8 (ucast (lo :: u8) OR push_bit 8 (ucast (hi :: u8)) :: u16)) = hi"
  by (rule bit_word_eqI, auto simp: bit_simps dest: bit_imp_le_length)+

lemma bytes_of_units: "even (length bs) \<Longrightarrow> bytes16 (units16 bs) = bs"
  by (induction bs rule: units16.induct) (auto simp: unit_halves simp del: drop_bit_or)

lemma string_bytes:
  assumes "string_value v"
  shows "bytes16 (butlast (units16 (rv_data v)) @ [0]) = rv_data v"
proof -
  let ?u = "units16 (rv_data v)"
  have "length (rv_data v) \<ge> 2" "even (length (rv_data v))" and l: "last ?u = 0"
    using assms by (auto simp: string_value_def)
  then have "?u \<noteq> []" using units16_length [of "rv_data v"] by auto
  then have "butlast ?u @ [0] = ?u" using l append_butlast_last_id [of ?u] by simp
  then show ?thesis using bytes_of_units [OF \<open>even (length (rv_data v))\<close>] by simp
qed

lemma dword_bytes: "length bs = 4 \<Longrightarrow> dword_bytes_of (dword_of bs) = bs"
proof -
  assume "length bs = 4"
  then obtain a b c d where bs: "bs = [a, b, c, d]" by (auto simp: length_Suc_conv eval_nat_numeral)
  have "ucast (dword_of bs) = a" "ucast (drop_bit 8 (dword_of bs)) = b" "ucast (drop_bit 16 (dword_of bs)) = c" "ucast (drop_bit 24 (dword_of bs)) = d"
    unfolding bs dword_of_def by (rule bit_word_eqI, auto simp: bit_simps dest: bit_imp_le_length)+
  then show ?thesis by (simp add: dword_bytes_of_def bs)
qed

lemma long_word: "ucast (of_nat (unat (w :: u32)) :: u64) = w"
proof -
  have "unat (of_nat (unat w) :: u64) = unat w"
    using unsigned_less [of w, where ?'a = nat] by (simp add: unsigned_of_nat take_bit_nat_eq_self_iff)
  then show ?thesis by (metis of_nat_unat ucast_id)
qed

lemma word_text: "\<forall>c\<in>set (number_text 16 (unat (w :: u32))). is_xdigit c" "number_value 16 (number_text 16 (unat w)) = unat w"
    "unat w < 2 ^ 64"
  using xdigit_of [of 16] number_text_value [of 16 "unat w"] unsigned_less [of w, where ?'a = nat] by auto

text \<open>The text of the data of a value.\<close>

definition data_text :: "horizon_reg_value \<Rightarrow> u8 list" where
  "data_text v = drop (length (save_name v)) (horizon_registry_save_value v)"

lemma save_value_split: "horizon_registry_save_value v = save_name v @ data_text v"
  by (simp add: data_text_def horizon_registry_save_value_def)

definition reads_data :: "reg_allocator \<Rightarrow> horizon_reg_value \<Rightarrow> u8 list \<Rightarrow> u8 list \<Rightarrow> u8 list \<Rightarrow> bool" where
  "reads_data alloc v p q later \<longleftrightarrow> data_text v @ later = p @ 10 # q \<and> (\<forall>c\<in>set p. line_byte c) \<and>
     p \<noteq> [] \<and> \<not> is_space (hd p) \<and> length p \<le> length (data_text v) \<and>
     (\<forall>ld. ld_text ld = q \<longrightarrow> 2 * (length p + 1) \<le> ld_tmp_size ld \<longrightarrow>
        (\<exists>ld'. load_data alloc p ld = (Some (rv_type v, rv_data v), ld') \<and> ld_text ld' = later))"

lemma reads_dataD:
  assumes "reads_data alloc v p q later"
  shows "data_text v @ later = p @ 10 # q" "\<forall>c\<in>set p. line_byte c" "p \<noteq> []" "\<not> is_space (hd p)" "length p \<le> length (data_text v)"
    "ld_text ld = q \<Longrightarrow> 2 * (length p + 1) \<le> ld_tmp_size ld \<Longrightarrow>
      \<exists>ld'. load_data alloc p ld = (Some (rv_type v, rv_data v), ld') \<and> ld_text ld' = later"
  using assms unfolding reads_data_def by blast+

lemma reads_dataI:
  assumes "data_text v = p @ [10]" "\<forall>c\<in>set p. line_byte c" "p \<noteq> []" "\<not> is_space (hd p)"
    and "\<And>ld. 2 * (length p + 1) \<le> ld_tmp_size ld \<Longrightarrow> load_data alloc p ld = (Some (rv_type v, rv_data v), ld)"
  shows "\<exists>p q. reads_data alloc v p q later"
proof -
  have "reads_data alloc v p later later" using assms by (simp add: reads_data_def)
  then show ?thesis by blast
qed

lemmas tag_simps = horizon_reg_data_type_def data_types_def begins_def ascii_def

lemma small_types: "number_text 16 2 = [50]" "number_text 16 7 = [55]"
  by (subst number_text.simps, simp add: digit_char_def)+

lemma string_data_read:
  assumes "string_value v"
  shows "\<exists>p q. reads_data alloc v p q later"
proof -
  let ?s = "butlast (units16 (rv_data v))"
  let ?tag = "if rv_type v \<noteq> HORIZON_REG_SZ then ascii ''str('' @ number_text 16 (unat (rv_type v)) @ ascii ''):'' else []"
  let ?p = "?tag @ 34 # horizon_registry_save_str quotes ?s @ [34]"
  have d: "data_text v = ?p @ [10]" using assms by (simp add: data_text_def horizon_registry_save_value_def)
  have ty: "rv_type v = 1 \<or> rv_type v = 2 \<or> rv_type v = 7" using assms by (auto simp: string_value_def)
  then have tag: "horizon_reg_data_type (?tag @ 34 # t) = Some (rv_type v, HORIZON_REG_SZ, t)" "\<forall>c\<in>set ?tag. line_byte c"
    "\<not> is_space (hd (?tag @ [34]))" for t
    by (elim disjE; simp add: tag_simps small_types line_byte_def is_space_def)+
  have "load_data alloc ?p ld = (Some (rv_type v, rv_data v), ld)" if "2 * (length ?p + 1) \<le> ld_tmp_size ld" for ld
  proof -
    have "2 * (length ?s + 1) \<le> ld_tmp_size ld" using that save_str_length [of ?s quotes] by (simp split: if_split_asm)
    from parse_saved [OF _ _ this, of quotes 34 "[]"] have
      "horizon_reg_parse_str (ld_tmp_size ld) (horizon_registry_save_str quotes ?s @ [34]) 34 = Some (?s, [])"
      by (simp add: escape_pair_def)
    then show ?thesis using tag(1) [of "horizon_registry_save_str quotes ?s @ [34]"] string_bytes [OF assms]
      by (simp add: load_data_def)
  qed
  moreover have "\<forall>c\<in>set ?p. line_byte c" using tag(2) save_str_bytes by (auto simp: line_byte_marks)
  moreover have "\<not> is_space (hd ?p)" using tag(3) by (simp add: ascii_def split: if_split_asm)
  ultimately show ?thesis by (intro reads_dataI [OF d]) auto
qed

lemma dword_data_read:
  assumes "\<not> string_value v" "rv_type v = HORIZON_REG_DWORD" "length (rv_data v) = 4"
  shows "\<exists>p q. reads_data alloc v p q later"
proof -
  let ?n = "number_text 16 (unat (dword_of (rv_data v)))"
  let ?p = "ascii ''dword:'' @ padded 8 ?n"
  note w = word_text [of "dword_of (rv_data v)"]
  have d: "data_text v = ?p @ [10]" using assms by (simp add: data_text_def horizon_registry_save_value_def)
  have x: "\<forall>c\<in>set (padded 8 ?n). is_xdigit c" using w(1) by (auto dest!: padded_set)
  have "strtoul 16 (padded 8 ?n @ []) = (of_nat (number_value 16 (padded 8 ?n)), [])"
    by (rule strtoul_hex) (use x w in \<open>auto simp: padded_value, simp add: padded_def\<close>)
  then have "strtoul 16 (padded 8 ?n) = (of_nat (unat (dword_of (rv_data v))), [])" using w(2) by (simp add: padded_value)
  then have "load_data alloc ?p ld = (Some (rv_type v, rv_data v), ld)" for ld
    using dword_bytes [OF assms(3)] assms(2) long_word [of "dword_of (rv_data v)"]
    by (simp add: load_data_def tag_simps)
  moreover have "\<forall>c\<in>set ?p. line_byte c" using x digit_line_byte by (auto simp: ascii_def line_byte_def)
  moreover have "\<not> is_space (hd ?p)" by (simp add: ascii_def is_space_def)
  ultimately show ?thesis by (intro reads_dataI [OF d]) (auto simp: ascii_def)
qed

text \<open>The tag of hex bytes.\<close>

definition hex_tag :: "u32 \<Rightarrow> u8 list" where
  "hex_tag ty = (if ty = HORIZON_REG_BINARY then ascii ''hex:'' else ascii ''hex('' @ number_text 16 (unat ty) @ ascii ''):'')"

lemma hex_tag_read: "horizon_reg_data_type (hex_tag ty @ p) = Some (ty, HORIZON_REG_BINARY, p)"
proof (cases "ty = HORIZON_REG_BINARY")
  case True
  then show ?thesis by (simp add: hex_tag_def tag_simps)
next
  case False
  let ?n = "number_text 16 (unat ty)"
  have s: "strtoul 16 (?n @ [41, 58] @ p) = (of_nat (unat ty), [41, 58] @ p)"
    using strtoul_hex [of ?n "[41, 58] @ p"] word_text [of ty] by (simp add: is_xdigit_def is_digit_def)
  have "?n @ [41, 58] @ p \<noteq> [41, 58] @ p" by simp
  then show ?thesis using False s long_word [of ty] by (simp add: hex_tag_def tag_simps del: of_nat_unat)
qed

lemma hex_tag_bytes: "c \<in> set (hex_tag ty) \<Longrightarrow> line_byte c" "\<exists>q. hex_tag ty = 104 # q"
proof -
  show "line_byte c" if "c \<in> set (hex_tag ty)"
    using that word_text(1) [of ty] digit_line_byte by (auto simp: hex_tag_def ascii_def line_byte_def split: if_split_asm)
  show "\<exists>q. hex_tag ty = 104 # q" by (simp add: hex_tag_def ascii_def)
qed

lemma hex_data_read:
  assumes alloc: "plenty alloc" and len: "length (data_text v) < 0x10000000"
    and v: "\<not> string_value v" "\<not> (rv_type v = HORIZON_REG_DWORD \<and> length (rv_data v) = 4)"
  shows "\<exists>p q. reads_data alloc v p q later"
proof -
  let ?count = "length (save_name v) + length (hex_tag (rv_type v))"
  have d: "data_text v = hex_tag (rv_type v) @ save_hex ?count (rv_data v) @ [10]"
    using v by (simp only: data_text_def horizon_registry_save_value_def hex_tag_def Let_def if_False append_assoc append_eq_conv_conj) simp
  then have "length (save_hex ?count (rv_data v)) < 0x10000000" using len by simp
  from hex_saved [OF alloc this, where later = later] obtain p q where
    p: "save_hex ?count (rv_data v) @ 10 # later = p @ 10 # q" "\<forall>c\<in>set p. line_byte c"
      "length p \<le> length (save_hex ?count (rv_data v))"
    and read: "\<And>ld. ld_text ld = q \<Longrightarrow> \<exists>ld'. hex_lines alloc [] p ld = (Some (rv_data v), ld') \<and> ld_text ld' = later" by blast
  have "\<exists>ld'. load_data alloc (hex_tag (rv_type v) @ p) ld = (Some (rv_type v, rv_data v), ld') \<and> ld_text ld' = later"
    if "ld_text ld = q" for ld
    using read [OF that] by (auto simp: load_data_def hex_tag_read)
  moreover obtain t where t: "hex_tag (rv_type v) = 104 # t" using hex_tag_bytes(2) by blast
  moreover have "\<not> is_space 104" by (simp add: is_space_def)
  moreover have "\<forall>c\<in>set (hex_tag (rv_type v) @ p). line_byte c" using hex_tag_bytes(1) p(2) by auto
  ultimately have "reads_data alloc v (hex_tag (rv_type v) @ p) q later" using p(1,3) unfolding reads_data_def d by simp
  then show ?thesis by blast
qed

lemma data_read:
  assumes "plenty alloc" "length (data_text v) < 0x10000000"
  shows "\<exists>p q. reads_data alloc v p q later"
  using string_data_read [of v alloc later] dword_data_read [of v alloc later] hex_data_read [OF assms] by blast

text \<open>The name, and the value put in its place.\<close>

lemma save_name_read:
  assumes "2 * (length (save_name v) + 1) \<le> bytes"
  shows "load_name bytes (save_name v @ d) = Some (rv_name v, 61 # d)"
proof (cases "rv_name v = []")
  case True
  then show ?thesis by (simp add: load_name_def save_name_def)
next
  case False
  have "2 * (length (rv_name v) + 1) \<le> bytes" using assms save_str_length [of "rv_name v" quotes] False by (simp add: save_name_def)
  from parse_saved [OF _ _ this, of quotes 34 "61 # d"] show ?thesis using False
    by (simp add: load_name_def save_name_def escape_pair_def)
qed

definition gains_value :: "horizon_reg_key \<Rightarrow> horizon_reg_value \<Rightarrow> horizon_reg_key \<Rightarrow> bool" where
  "gains_value k v k' \<longleftrightarrow> values_only k k' \<and> values_ok k' \<and>
     value_map k' = (value_map k)(fold_name (rv_name v) \<mapsto> (rv_type v, rv_data v))"

lemma value_placed:
  assumes "values_ok k" "length (rv_name v) \<le> HORIZON_REG_MAX_VALUE" "\<And>a. mem a"
  obtains found i k1 where "horizon_reg_find_value k (rv_name v) = (found, i)"
    "(if found = None then horizon_reg_insert_value mem k (rv_name v) i else (0, k)) = (0, k1)"
    "gains_value k v (store_value i (rv_type v) (rv_data v) k1)"
proof -
  have sorted: "sorted_names (value_names k)" using assms(1) by (simp add: values_ok_def)
  let ?i = "name_place (value_names k) (rv_name v)"
  note find = find_value_law [OF sorted, of "rv_name v"]
  show thesis
  proof (cases "has_name (value_names k) (rv_name v)")
    case True
    have i: "?i < length (rk_values k)" "fold_name (rv_name (rk_values k ! ?i)) = fold_name (rv_name v)"
      using name_place_hit [OF sorted True] by (simp_all add: value_names_def)
    show thesis by (rule that [of "Some (rk_values k ! ?i)" ?i k])
      (use find True store_value_ok [OF assms(1) i] in \<open>simp_all add: gains_value_def\<close>)
  next
    case False
    obtain k1 where ins: "horizon_reg_insert_value mem k (rv_name v) ?i = (0, k1)"
      using assms(2,3) by (simp add: horizon_reg_insert_value_def Let_def)
    note k1 = insert_value_ok [OF assms(1) False ins]
    have "gains_value k v (store_value ?i (rv_type v) (rv_data v) k1)"
      using store_value_ok [OF k1(1,2), of "fold_name (rv_name v)"] k1(3,4) values_only_trans [OF insert_value_only [OF ins]]
      by (simp add: gains_value_def)
    then show thesis using that [of None ?i k1] find False ins by simp
  qed
qed

lemma load_value_saved:
  assumes alloc: "plenty alloc" and d: "reads_data alloc v d q later" "ld_text ld = q"
    and k: "rg_keys reg p = Some k" "values_ok k" and v: "length (rv_name v) \<le> HORIZON_REG_MAX_VALUE"
    and len: "length (save_name v @ d) < 0x10000000"
  shows "\<exists>ld' k'. horizon_reg_load_value alloc p (save_name v @ d) ld reg =
      Some (True, ld', reg\<lparr>rg_keys := (rg_keys reg)(p \<mapsto> k')\<rparr>) \<and> ld_text ld' = later \<and> ahead ld ld' \<and> gains_value k v k'"
proof -
  have "(length (save_name v @ d) + 1) * 2 < 0x7fffffff" using len by simp
  from tmp_space_plenty [OF alloc this, of ld] obtain ld1 where ld1:
    "horizon_reg_tmp_space alloc ((length (save_name v @ d) + 1) * 2) ld = (True, ld1)"
    "(length (save_name v @ d) + 1) * 2 \<le> ld_tmp_size ld1" "ld_text ld1 = q" using d(2) by metis
  have name: "load_name (ld_tmp_size ld1) (save_name v @ d) = Some (rv_name v, 61 # d)"
    using save_name_read [of v] ld1(2) by simp
  have sp: "skip_spaces (61 # d) = 61 # d" by (simp add: skip_spaces_def is_space_def)
  have sd: "skip_spaces d = d" using reads_dataD(3,4) [OF d(1)] by (cases d) (simp_all add: skip_spaces_def)
  obtain mem a ld2 where ask2: "ask alloc ld1 = (mem, a, ld2)" by (cases "ask alloc ld1") auto
  then have ld2: "\<And>a. mem a" "ld_text ld2 = q" "ld_tmp_size ld2 = ld_tmp_size ld1"
    using alloc ld1(3) by (auto simp: ask_def plenty_def)
  then obtain ld3 where data: "load_data alloc d ld2 = (Some (rv_type v, rv_data v), ld3)" "ld_text ld3 = later"
    using reads_dataD(6) [OF d(1), of ld2] ld1(2) by auto
  obtain mem' a' ld4 where ask4: "ask alloc ld3 = (mem', a', ld4)" by (cases "ask alloc ld3") auto
  then have ld4: "mem' Alloc_data" "ld_text ld4 = later" using alloc data(2) by (auto simp: ask_def plenty_def)
  obtain found i k1 where
    fi: "horizon_reg_find_value k (rv_name v) = (found, i)"
    "(if found = None then horizon_reg_insert_value mem k (rv_name v) i else (0, k)) = (0, k1)"
    "gains_value k v (store_value i (rv_type v) (rv_data v) k1)"
    by (rule value_placed [OF k(2) v, of mem]) (use ld2(1) in auto)
  moreover have "ahead ld ld4"
    using tmp_space_ahead [OF ld1(1)] ask_ahead [OF ask2] load_data_ahead [OF data(1)] ask_ahead [OF ask4] ahead_trans by blast
  ultimately show ?thesis using ld1(1) name sp sd ask2 data(1) ask4 ld4 k(1)
    by (intro exI [of _ ld4] exI [of _ "store_value i (rv_type v) (rv_data v) k1"])
      (simp add: horizon_reg_load_value_def upd_key_def)
qed

section \<open>The values of a key\<close>

lemma save_name_start: "\<exists>c t. save_name v = c # t \<and> (c = 64 \<or> c = 34)" "c \<in> set (save_name v) \<Longrightarrow> line_byte c"
  using save_str_bytes [of c quotes] by (auto simp: save_name_def line_byte_marks split: if_split_asm)

lemma load_lines_step:
  assumes "horizon_reg_next_line alloc ld = (1, ld1)" "load_line alloc now base key ld1 reg = Some (key', bad, ld2, reg')"
  shows "load_lines alloc now base key errors ld reg = load_lines alloc now base key' (if bad then errors + 1 else errors) ld2 reg'"
  using assms by (subst load_lines.simps) simp

lemma load_lines_value:
  assumes alloc: "plenty alloc" and ld: "ld_text ld = horizon_registry_save_value v @ later"
    and k: "rg_keys reg p = Some k" "values_ok k" and v: "length (rv_name v) \<le> HORIZON_REG_MAX_VALUE"
    and len: "length (horizon_registry_save_value v) < 0x10000000"
  shows "\<exists>ld' k'. load_lines alloc now base (Some p) errors ld reg =
      load_lines alloc now base (Some p) errors ld' (reg\<lparr>rg_keys := (rg_keys reg)(p \<mapsto> k')\<rparr>) \<and>
      ld_text ld' = later \<and> ahead ld ld' \<and> gains_value k v k'"
proof -
  have "length (data_text v) < 0x10000000" using len unfolding save_value_split by simp
  from data_read [OF alloc this] obtain d q where d: "reads_data alloc v d q later" by blast
  let ?line = "save_name v @ d"
  have "ld_text ld = ?line @ 10 # q" unfolding ld save_value_split using reads_dataD(1) [OF d] by simp
  moreover have "\<forall>c\<in>set ?line. line_byte c" using reads_dataD(2) [OF d] save_name_start(2) by auto
  ultimately obtain ld1 where ld1: "horizon_reg_next_line alloc ld = (1, ld1)" "ld_line ld1 = ?line" "ld_text ld1 = q"
    by (rule next_line_plenty [OF alloc])
  have "length ?line < 0x10000000" using len reads_dataD(5) [OF d] unfolding save_value_split by simp
  from load_value_saved [OF alloc d ld1(3) k v this] obtain ld' k' where
    val: "horizon_reg_load_value alloc p ?line ld1 reg = Some (True, ld', reg\<lparr>rg_keys := (rg_keys reg)(p \<mapsto> k')\<rparr>)"
    "ld_text ld' = later" "ahead ld1 ld'" "gains_value k v k'" by blast
  obtain c t where c: "?line = c # t" "c = 64 \<or> c = 34" using save_name_start(1) [of v] by auto
  then have "skip_spaces (ld_line ld1) = c # t" using ld1(2) by (auto simp: skip_spaces_def is_space_def)
  then have "load_line alloc now base (Some p) ld1 reg = Some (Some p, False, ld', reg\<lparr>rg_keys := (rg_keys reg)(p \<mapsto> k')\<rparr>)"
    using val(1) c by (auto simp: load_line_def)
  from load_lines_step [OF ld1(1) this] val ahead_trans [OF next_line_ahead [OF ld1(1)]] show ?thesis by auto
qed

text \<open>The values of a key, one after the other.\<close>

definition add_value :: "(u16 list \<rightharpoonup> u32 \<times> u8 list) \<Rightarrow> horizon_reg_value \<Rightarrow> (u16 list \<rightharpoonup> u32 \<times> u8 list)" where
  "add_value m v = m(fold_name (rv_name v) \<mapsto> (rv_type v, rv_data v))"

lemma load_lines_values:
  assumes alloc: "plenty alloc"
  shows "ld_text ld = concat (map horizon_registry_save_value vs) @ later \<Longrightarrow> rg_keys reg p = Some k \<Longrightarrow> values_ok k \<Longrightarrow>
    \<forall>v\<in>set vs. length (rv_name v) \<le> HORIZON_REG_MAX_VALUE \<Longrightarrow>
    length (concat (map horizon_registry_save_value vs)) < 0x10000000 \<Longrightarrow>
    \<exists>ld' k'. load_lines alloc now base (Some p) errors ld reg =
      load_lines alloc now base (Some p) errors ld' (reg\<lparr>rg_keys := (rg_keys reg)(p \<mapsto> k')\<rparr>) \<and>
      ld_text ld' = later \<and> ahead ld ld' \<and> values_only k k' \<and> values_ok k' \<and> value_map k' = foldl add_value (value_map k) vs"
proof (induction vs arbitrary: ld k reg)
  case Nil
  then show ?case by (intro exI [of _ ld] exI [of _ k]) (simp add: fun_upd_idem)
next
  case (Cons v vs)
  from load_lines_value [OF alloc _ Cons.prems(2,3), of ld v "concat (map horizon_registry_save_value vs) @ later" now base errors]
    Cons.prems obtain ld1 k1 where 1: "load_lines alloc now base (Some p) errors ld reg =
      load_lines alloc now base (Some p) errors ld1 (reg\<lparr>rg_keys := (rg_keys reg)(p \<mapsto> k1)\<rparr>)"
    "ld_text ld1 = concat (map horizon_registry_save_value vs) @ later" "gains_value k v k1" "ahead ld ld1" by auto
  have "values_ok k1" using 1(3) by (simp add: gains_value_def)
  have upd: "(rg_keys (reg\<lparr>rg_keys := (rg_keys reg)(p \<mapsto> k1)\<rparr>))(p \<mapsto> l) = (rg_keys reg)(p \<mapsto> l)"
    "reg\<lparr>rg_keys := f\<rparr>\<lparr>rg_keys := g\<rparr> = reg\<lparr>rg_keys := g\<rparr>" for l f g by simp_all
  have live: "rg_keys (reg\<lparr>rg_keys := (rg_keys reg)(p \<mapsto> k1)\<rparr>) p = Some k1" by simp
  have "\<forall>v\<in>set vs. length (rv_name v) \<le> HORIZON_REG_MAX_VALUE" "length (concat (map horizon_registry_save_value vs)) < 0x10000000"
    using Cons.prems(4,5) by simp_all
  from Cons.IH [OF 1(2) live \<open>values_ok k1\<close> this, unfolded upd] obtain ld2 k2 where
    2: "load_lines alloc now base (Some p) errors ld1 (reg\<lparr>rg_keys := (rg_keys reg)(p \<mapsto> k1)\<rparr>) =
      load_lines alloc now base (Some p) errors ld2 (reg\<lparr>rg_keys := (rg_keys reg)(p \<mapsto> k2)\<rparr>)"
    "ld_text ld2 = later" "ahead ld1 ld2" "values_only k1 k2" "values_ok k2" "value_map k2 = foldl add_value (value_map k1) vs" by blast
  have "ahead ld ld2" by (rule ahead_trans [OF 1(4) 2(3)])
  moreover have "values_only k k2" using 1(3) 2(4) values_only_trans by (auto simp: gains_value_def)
  moreover have "value_map k1 = add_value (value_map k) v" using 1(3) unfolding gains_value_def add_value_def by blast
  then have "value_map k2 = foldl add_value (value_map k) (v # vs)" using 2(6) by simp
  ultimately show ?case using 1(1) 2(1,2,5) by metis
qed

lemma foldl_add_value:
  assumes "sorted_names (map rv_name vs)"
  shows "foldl add_value m vs n =
    (case List.find (\<lambda>v. fold_name (rv_name v) = n) vs of Some v \<Rightarrow> Some (rv_type v, rv_data v) | None \<Rightarrow> m n)"
  using assms
proof (induction vs arbitrary: m)
  case (Cons v vs)
  have "sorted_names (map rv_name vs)" "\<forall>w\<in>set vs. fold_name (rv_name w) \<noteq> fold_name (rv_name v)"
    using Cons.prems by (auto simp: sorted_names_def)
  then have "List.find (\<lambda>w. fold_name (rv_name w) = fold_name (rv_name v)) vs = None" by (auto simp: find_None_iff)
  then show ?case using Cons.IH [OF \<open>sorted_names (map rv_name vs)\<close>] by (auto simp: add_value_def)
qed simp

lemma loaded_values:
  assumes "values_ok k0"
  shows "foldl add_value m (rk_values k0) = m ++ value_map k0"
proof (rule ext)
  fix n
  have "sorted_names (map rv_name (rk_values k0))" using assms by (simp add: values_ok_def value_names_def)
  from foldl_add_value [OF this, of m n] show "foldl add_value m (rk_values k0) n = (m ++ value_map k0) n"
    by (simp add: value_map_def map_add_def split: option.splits)
qed

section \<open>What holds of registry files\<close>

text \<open>C14. Loading any bytes, with any allocations failing, ends: no freed or null pointer is followed, the tree stays
  well formed and no reference of a caller is lost or gained. A file that begins as a registry file is never taken for
  another kind of file.\<close>

theorem registry_load_safe:
  assumes "reg_ok reg held" "live_key reg base" "fresh_from alloc 0 reg"
  shows "\<exists>status errors reg'. horizon_reg_load alloc now base bytes reg = Some (status, errors, reg') \<and> reg_ok reg' held \<and>
    (registry_file bytes \<and> fst (alloc 0) Alloc_line \<longrightarrow> status = HORIZON_REG_SUCCESS \<or> status = HORIZON_REG_NO_MEMORY)"
  using load_ends [OF assms] .

text \<open>The values of a key that were written to a file are read back: the lines that were written for them, read below
  a key, give it each value with its type and its bytes, whatever its name and data, long data on several lines
  included; nothing else of the registry changes and no line counts as an error.\<close>

theorem registry_values_saved_loaded:
  assumes "plenty alloc" "values_ok saved" "reg_ok reg held" "rg_keys reg p = Some k"
    and "ld_text ld = concat (map horizon_registry_save_value (rk_values saved)) @ later"
    and "length (concat (map horizon_registry_save_value (rk_values saved))) < 0x10000000"
  shows "\<exists>ld' k'. load_lines alloc now base (Some p) errors ld reg =
      load_lines alloc now base (Some p) errors ld' (reg\<lparr>rg_keys := (rg_keys reg)(p \<mapsto> k')\<rparr>) \<and>
      ld_text ld' = later \<and> values_only k k' \<and> value_map k' = value_map k ++ value_map saved"
proof -
  from assms(3) obtain root where "keys_ok root held (rg_keys reg)" by (rule reg_okE)
  from keys_okD(2) [OF this assms(4)] have "values_ok k" by (simp add: key_ok_def)
  moreover have "\<forall>v\<in>set (rk_values saved). length (rv_name v) \<le> HORIZON_REG_MAX_VALUE" using assms(2) by (simp add: values_ok_def)
  ultimately show ?thesis
    using load_lines_values [OF assms(1,5,4) _ _ assms(6), of now base errors] unfolding loaded_values [OF assms(2)] by blast
qed


text \<open>C29. After a flush that reports success the file of each hive that had changed is the text of the hive when the
  flush looked at it, and the hive counts as saved up to that generation and no further: what other threads changed
  while the card was written is still to be saved. A hive that had not changed is not written.\<close>

theorem registry_flush_saves:
  assumes "horizon_registry_flush io stream others sv = Some (True, sv')"
  shows "hive_saved False (sv_reg sv) sv sv' \<and> hive_saved True (others False (sv_reg sv)) sv sv' \<and>
    sv_reg sv' = others True (others False (sv_reg sv))"
proof -
  from assms obtain sv1 where 1: "flush_hive io (stream False) (others False) False sv = Some (True, sv1)"
    and 2: "flush_hive io (stream True) (others True) True sv1 = Some (True, sv')"
    by (auto simp: horizon_registry_flush_def split: bind_splits)
  note a = flush_hive_done(1,2) [OF 1] flush_hive_done(3) [OF 1, of True]
  note b = flush_hive_done(1,2) [OF 2] flush_hive_done(3) [OF 2, of False]
  have "hive_saved False (sv_reg sv) sv sv'" using a(1) b(3) by (simp add: hive_saved_def split: option.splits)
  moreover have "hive_saved True (others False (sv_reg sv)) sv sv'" using b(1) a(2,3) by (simp add: hive_saved_def split: option.splits)
  ultimately show ?thesis using a(2) b(2) by simp
qed

text \<open>C40. The class of a key does not survive a save and a load: what was written for it is read back with a null
  character at its end, which the next save writes too.\<close>

theorem registry_class_grows:
  assumes "plenty alloc" "rg_keys reg p = Some k" "length (horizon_registry_save_str quotes cls) < 0x10000000"
  shows "\<exists>ld'. horizon_reg_load_option alloc p (ascii ''#class=\"'' @ horizon_registry_save_str quotes cls @ [34]) ld reg =
    Some (ld', reg\<lparr>rg_keys := (rg_keys reg)(p \<mapsto> k\<lparr>rk_class := cls @ [0]\<rparr>)\<rparr>)"
proof -
  let ?line = "ascii ''#class=\"'' @ horizon_registry_save_str quotes cls @ [34]"
  have "(length ?line + 1) * 2 < 0x7fffffff" using assms(3) by (simp add: ascii_def)
  from tmp_space_plenty [OF assms(1) this, of ld] obtain ld1 where
    ld1: "horizon_reg_tmp_space alloc ((length ?line + 1) * 2) ld = (True, ld1)" "(length ?line + 1) * 2 \<le> ld_tmp_size ld1" by blast
  have "2 * (length cls + 1) \<le> ld_tmp_size ld1" using ld1(2) save_str_length [of cls quotes] by simp
  from parse_saved [OF _ _ this, of quotes 34 "[]"] have
    str: "horizon_reg_parse_str (ld_tmp_size ld1) (horizon_registry_save_str quotes cls @ [34]) 34 = Some (cls, [])"
    by (simp add: escape_pair_def)
  have tags: "\<not> begins (ascii ''#time='') ?line" "begins (ascii ''#class=\"'') ?line"
    "drop 8 ?line = horizon_registry_save_str quotes cls @ [34]" by (simp_all add: begins_def ascii_def)
  show ?thesis using ld1(1) str tags assms(1,2)
    unfolding horizon_reg_load_option_def by (simp add: ask_def plenty_def upd_key_def)
qed

text \<open>A key that is left out of the file because its subkeys imply it is lost when all of them are volatile.\<close>

lemma save_volatile:
  "\<forall>w\<in>set ws. \<exists>k. rg_keys reg (fst w) = Some k \<and> flagged k HORIZON_REG_FLAG_VOLATILE \<Longrightarrow> save_keys reg ws = Some []"
proof (induction ws)
  case Nil
  then show ?case by (subst save_keys.simps) simp
next
  case (Cons w ws)
  then show ?case by (subst save_keys.simps) (cases w; auto)
qed

theorem implied_key_lost:
  assumes "rg_keys reg p = Some k" "\<not> flagged k HORIZON_REG_FLAG_VOLATILE" "\<not> flagged k HORIZON_REG_FLAG_SYMLINK"
    "rk_values k = []" "rk_class k = []" "rk_subkeys k \<noteq> []"
    and "\<forall>c\<in>set (rk_subkeys k). \<exists>ck. rg_keys reg c = Some ck \<and> flagged ck HORIZON_REG_FLAG_VOLATILE"
  shows "horizon_registry_save_subkeys reg p = Some []"
proof -
  have "save_keys reg (map (\<lambda>c. (c, [c])) (rk_subkeys k)) = Some []" by (rule save_volatile) (use assms(7) in auto)
  then show ?thesis using assms(1-6) unfolding horizon_registry_save_subkeys_def
    by (subst save_keys.simps) (simp add: horizon_registry_save_path_def)
qed

section \<open>Examples\<close>

definition example_alloc :: reg_allocator where
  "example_alloc n = (\<lambda>_. True, 10 + n)"

lemma example_load:
  "plenty example_alloc" "fst (example_alloc 0) Alloc_line" "live_key example_reg 1" "fresh_from example_alloc 0 example_reg"
  by (auto simp: plenty_def example_alloc_def live_key_def fresh_from_def example_reg_def example_keys_def example_key_def flagged_def)

theorem registry_load_safe_witness:
  "\<exists>status errors reg'. horizon_reg_load example_alloc 7 1 (ascii ''WINE REGISTRY Version 2'' @ [10, 91, 120, 93, 10, 34, 200, 0]) example_reg =
      Some (status, errors, reg') \<and> reg_ok reg' [1] \<and> (status = HORIZON_REG_SUCCESS \<or> status = HORIZON_REG_NO_MEMORY)"
proof -
  have "registry_file (ascii ''WINE REGISTRY Version 2'' @ [10, 91, 120, 93, 10, 34, 200, 0])" by (auto simp: registry_file_def)
  with registry_load_safe [OF example_reg_ok example_load(3,4), of 7] example_load(2) show ?thesis by blast
qed

definition example_saved :: horizon_reg_key where
  "example_saved = (example_key ''S'' None [] 1 [])\<lparr>rk_value_max := 8,
     rk_values := [\<lparr>rv_name = [], rv_type = 1, rv_data = [0x41, 0, 0, 0]\<rparr>, \<lparr>rv_name = [97], rv_type = 3, rv_data = []\<rparr>]\<rparr>"

lemma example_saved_text:
  "concat (map horizon_registry_save_value (rk_values example_saved)) =
     [64, 61, 34, 65, 34, 10, 34, 97, 34, 61, 104, 101, 120, 58, 10]"
  by (simp add: example_saved_def example_key_def horizon_registry_save_value_def save_name_def string_value_def save_char_def
      ascii_def escape_letter_def)

theorem registry_values_saved_loaded_witness:
  "\<exists>ld' k'. load_lines example_alloc 7 0 (Some 2) 0 (new_loader [64, 61, 34, 65, 34, 10, 34, 97, 34, 61, 104, 101, 120, 58, 10]) example_reg =
      load_lines example_alloc 7 0 (Some 2) 0 ld' (example_reg\<lparr>rg_keys := (rg_keys example_reg)(2 \<mapsto> k')\<rparr>) \<and>
      ld_text ld' = [] \<and> value_map k' [] = Some (1, [0x41, 0, 0, 0]) \<and> value_map k' (fold_name [97]) = Some (3, [])"
proof -
  have "values_ok example_saved"
    by (simp add: values_ok_def example_saved_def example_key_def value_names_def sorted_names_def capacity_ok_def fold_unit_def)
  from registry_values_saved_loaded [OF example_load(1) this example_reg_ok example_at(2),
      of "new_loader [64, 61, 34, 65, 34, 10, 34, 97, 34, 61, 104, 101, 120, 58, 10]" "[]" 7 0 0, unfolded example_saved_text]
  obtain ld' k' where "load_lines example_alloc 7 0 (Some 2) 0 (new_loader [64, 61, 34, 65, 34, 10, 34, 97, 34, 61, 104, 101, 120, 58, 10]) example_reg =
      load_lines example_alloc 7 0 (Some 2) 0 ld' (example_reg\<lparr>rg_keys := (rg_keys example_reg)(2 \<mapsto> k')\<rparr>)"
    "ld_text ld' = []" "value_map k' = value_map (example_key ''b'' (Some 1) [] 1 []) ++ value_map example_saved"
    by (auto simp: new_loader_def)
  moreover have "value_map example_saved [] = Some (1, [0x41, 0, 0, 0])" "value_map example_saved (fold_name [97]) = Some (3, [])"
    by (simp_all add: value_map_def example_saved_def fold_unit_def)
  ultimately show ?thesis by (intro exI [of _ ld'] exI [of _ k']) simp
qed



definition example_server :: reg_server where
  "example_server = \<lparr>sv_reg = example_reg\<lparr>rg_hives := (Some 2, None), rg_generation := (1, 0)\<rparr>, sv_saved = (0, 0),
     sv_card = \<lparr>cd_files = Map.empty, cd_calls = 0, cd_off = False\<rparr>\<rparr>"

theorem registry_flush_saves_witness:
  "\<exists>sv'. horizon_registry_flush (\<lambda>_. Io_ok 0) (\<lambda>_. True) (\<lambda>_ reg. reg) example_server = Some (True, sv') \<and>
     sv_saved sv' = (1, 0) \<and> cd_files (sv_card sv') ''registry/system.reg'' \<noteq> None"
proof -
  let ?reg = "sv_reg example_server"
  obtain body where "horizon_registry_save_subkeys ?reg 2 = Some body"
    by (simp add: horizon_registry_save_subkeys_def save_keys.simps [of _ "[_]"] save_keys.simps [of _ "[]"] example_server_def
        example_reg_def example_keys_def example_key_def horizon_registry_save_path_def flagged_def)
  then obtain t where t: "hive_text False ?reg 2 = Some t" by (simp add: hive_text_def)
  obtain sv' where flush: "horizon_registry_flush (\<lambda>_. Io_ok 0) (\<lambda>_. True) (\<lambda>_ reg. reg) example_server = Some (True, sv')"
    using t by (simp add: horizon_registry_flush_def flush_hive_def example_server_def side_def set_side_def hive_name_def
        horizon_registry_write_snapshot_def recover_snapshot_def replace_file_def card_access_def card_create_def
        card_write_def card_close_def card_unlink_def card_rename_def card_call_def Let_def)
  from registry_flush_saves [OF flush] t have "fst (sv_saved sv') = 1" "snd (sv_saved sv') = 0"
    "cd_files (sv_card sv') ''registry/system.reg'' = Some t"
    by (simp_all add: hive_saved_def example_server_def side_def hive_name_def)
  then show ?thesis using flush by (intro exI [of _ sv']) (simp add: prod_eq_iff)
qed

theorem registry_class_grows_witness:
  "\<exists>ld'. horizon_reg_load_option example_alloc 1 (ascii ''#class=\"'' @ [88, 34]) (new_loader []) example_reg =
     Some (ld', example_reg\<lparr>rg_keys := (rg_keys example_reg)(1 \<mapsto>
       (example_key ''A'' (Some 0) [2, 3] 2 [watch 8 52 4 False, watch 8 53 1 False])\<lparr>rk_class := [88, 0]\<rparr>)\<rparr>)"
proof -
  have "horizon_registry_save_str quotes [88] = [88]" by (simp add: save_char_def)
  then show ?thesis using registry_class_grows [OF example_load(1) example_at(1), of "[88]" "new_loader []"] by simp
qed

end
