(* ===== verification/HzRegWhole.thy ===== *)
theory HzRegWhole
  imports HzRegFiles "HOL-Library.Sublist"
begin

text \<open>
  A hive that is saved and loaded is the same tree: the keys of the file, their values and their links.
\<close>

section \<open>Keys by path\<close>

text \<open>The key below \<open>b\<close> at a path of names without case.\<close>

inductive key_at :: "(ptr \<Rightarrow> horizon_reg_key option) \<Rightarrow> ptr \<Rightarrow> u16 list list \<Rightarrow> ptr \<Rightarrow> bool" for K b where
  here: "K b = Some k \<Longrightarrow> key_at K b [] b"
| below: "key_at K b ns q \<Longrightarrow> K q = Some k \<Longrightarrow> c \<in> set (rk_subkeys k) \<Longrightarrow> key_at K b (ns @ [fold_name (name_of K c)]) c"

inductive_cases key_at_NilE: "key_at K b [] q"
inductive_cases key_at_snocE: "key_at K b (ns @ [n]) q"

lemma key_at_parent:
  assumes "keys_ok root held K" "key_at K b (ns @ [n]) c"
  obtains q k ck where "key_at K b ns q" "K q = Some k" "c \<in> set (rk_subkeys k)" "n = fold_name (name_of K c)"
    "K c = Some ck" "rk_parent ck = Some q"
proof -
  from assms(2) obtain q k where q: "key_at K b ns q" "K q = Some k" "c \<in> set (rk_subkeys k)" "n = fold_name (name_of K c)"
    by (cases rule: key_at.cases) auto
  from keys_okD(1) [OF assms(1) q(2)] q(3) obtain ck where "K c = Some ck" "rk_parent ck = Some q" by (auto elim: subkey_live)
  with q that show thesis by blast
qed

lemma key_at_live:
  assumes "keys_ok root held K" "key_at K b ns q"
  obtains k where "K q = Some k"
proof (cases ns rule: rev_cases)
  case Nil
  with assms(2) that show thesis by (auto elim: key_at_NilE)
next
  case (snoc ms n)
  with assms that show thesis by (auto elim: key_at_parent)
qed

lemma same_subkey:
  assumes "keys_ok root held K" "K q = Some k" "c \<in> set (rk_subkeys k)" "d \<in> set (rk_subkeys k)"
    "fold_name (name_of K c) = fold_name (name_of K d)"
  shows "c = d"
proof -
  have "sorted_names (subkey_names K k)" using keys_okD(1) [OF assms(1,2)] by (simp add: linked_ok_def)
  then have "inj_on (\<lambda>c. fold_name (name_of K c)) (set (rk_subkeys k))"
    using sorted_names_distinct by (fastforce simp: subkey_names_def distinct_map comp_def)
  with assms(3-5) show ?thesis by (auto dest: inj_onD)
qed

lemma key_at_fun: "keys_ok root held K \<Longrightarrow> key_at K b ns q \<Longrightarrow> key_at K b ns r \<Longrightarrow> q = r"
proof (induction ns arbitrary: q r rule: rev_induct)
  case Nil
  then show ?case by (auto elim!: key_at_NilE)
next
  case (snoc n ns)
  from snoc.prems(1,2) obtain q1 k1 where 1: "key_at K b ns q1" "K q1 = Some k1" "q \<in> set (rk_subkeys k1)" "n = fold_name (name_of K q)"
    by (rule key_at_parent)
  from snoc.prems(1,3) obtain q2 k2 where 2: "key_at K b ns q2" "K q2 = Some k2" "r \<in> set (rk_subkeys k2)" "n = fold_name (name_of K r)"
    by (rule key_at_parent)
  have "q1 = q2" by (rule snoc.IH [OF snoc.prems(1) 1(1) 2(1)])
  then show ?case using same_subkey [OF snoc.prems(1) 1(2,3)] 1 2 by auto
qed

lemma key_at_chain:
  assumes "keys_ok root held K" "key_at K b ns q" "reg_chain K b xs"
  shows "\<exists>ys. reg_chain K q ys \<and> length ys = length ns + length xs"
  using assms(2)
proof (induction rule: key_at.induct)
  case (here k)
  then show ?case using assms(3) by auto
next
  case (below ns q k c)
  then obtain ys where ys: "reg_chain K q ys" "length ys = length ns + length xs" by blast
  from keys_okD(1) [OF assms(1) below.hyps(2)] below.hyps(3) obtain ck where "K c = Some ck" "rk_parent ck = Some q" by (auto elim: subkey_live)
  then have "reg_chain K c (c # ys)" using ys(1) by (rule reg_chain.up)
  then show ?case using ys(2) by (intro exI [of _ "c # ys"]) simp
qed

lemma key_at_path: "keys_ok root held K \<Longrightarrow> key_at K b ns q \<Longrightarrow> key_at K b ms q \<Longrightarrow> ns = ms"
proof (induction ns arbitrary: q ms rule: rev_induct)
  case Nil
  then have "q = b" "K b \<noteq> None" by (auto elim: key_at_NilE)
  then obtain xs where xs: "reg_chain K b xs" using keys_okD(3) [OF Nil.prems(1)] by blast
  from key_at_chain [OF Nil.prems(1,3) xs] \<open>q = b\<close> reg_chain_fun [OF xs] show ?case by force
next
  case (snoc n ns)
  from snoc.prems(1,2) obtain r k qk where r: "key_at K b ns r" "n = fold_name (name_of K q)" "K q = Some qk" "rk_parent qk = Some r"
    by (rule key_at_parent)
  show ?case
  proof (cases ms rule: rev_cases)
    case Nil
    then have "q = b" "K b \<noteq> None" using snoc.prems(3) by (auto elim: key_at_NilE)
    then obtain xs where xs: "reg_chain K b xs" using keys_okD(3) [OF snoc.prems(1)] by blast
    from key_at_chain [OF snoc.prems(1,2) xs] \<open>q = b\<close> reg_chain_fun [OF xs] show ?thesis by force
  next
    case (snoc ms' m)
    then obtain r' k' qk' where r': "key_at K b ms' r'" "m = fold_name (name_of K q)" "K q = Some qk'" "rk_parent qk' = Some r'"
      using snoc.prems(1,3) by (metis key_at_parent)
    then have "r' = r" using r by simp
    then show ?thesis using snoc.IH [OF snoc.prems(1) r(1)] r'(1,2) r(2) snoc by simp
  qed
qed

section \<open>What is at a path\<close>

text \<open>The values of a key and whether it is a link.\<close>

definition key_info :: "horizon_reg_key \<Rightarrow> (u16 list \<rightharpoonup> u32 \<times> u8 list) \<times> bool" where
  "key_info k = (value_map k, flagged k HORIZON_REG_FLAG_SYMLINK)"

definition content :: "(ptr \<Rightarrow> horizon_reg_key option) \<Rightarrow> ptr \<Rightarrow> u16 list list \<rightharpoonup> (u16 list \<rightharpoonup> u32 \<times> u8 list) \<times> bool" where
  "content K b ns = (if \<exists>q. key_at K b ns q then map_option key_info (K (THE q. key_at K b ns q)) else None)"

lemma content_Some: "keys_ok root held K \<Longrightarrow> key_at K b ns q \<Longrightarrow> K q = Some k \<Longrightarrow> content K b ns = Some (key_info k)"
proof -
  assume a: "keys_ok root held K" "key_at K b ns q" "K q = Some k"
  have "(THE r. key_at K b ns r) = q" by (rule the_equality, rule a(2)) (rule key_at_fun [OF a(1) _ a(2)])
  then show ?thesis using a(2,3) by (auto simp: content_def)
qed

lemma content_None: "\<nexists>q. key_at K b ns q \<Longrightarrow> content K b ns = None"
  by (simp add: content_def)

lemma content_cases:
  assumes "keys_ok root held K"
  obtains (at) q k where "key_at K b ns q" "K q = Some k" "content K b ns = Some (key_info k)"
    | (none) "\<nexists>q. key_at K b ns q" "content K b ns = None"
proof (cases "\<exists>q. key_at K b ns q")
  case True
  then obtain q where q: "key_at K b ns q" by blast
  with assms obtain k where "K q = Some k" by (rule key_at_live)
  with q content_Some [OF assms q] at show thesis by blast
next
  case False
  with none content_None [OF False] show thesis by blast
qed

text \<open>One key changes, but not its name, its place or its subkeys.\<close>

lemma key_at_local:
  assumes "K q = Some k" "rk_name k' = rk_name k" "rk_subkeys k' = rk_subkeys k"
  shows "key_at (K(q \<mapsto> k')) b ns r \<longleftrightarrow> key_at K b ns r"
proof -
  have nm: "name_of (K(q \<mapsto> k')) = name_of K" using assms by (auto simp: name_of_def fun_eq_iff)
  have imp: "key_at K2 b ns r" if at: "key_at K1 b ns r" and nm: "name_of K1 = name_of K2"
    and sub: "\<And>x. map_option rk_subkeys (K1 x) = map_option rk_subkeys (K2 x)" for K1 K2 ns r
    using at
  proof (induction rule: key_at.induct)
    case (here k1)
    then obtain k2 where "K2 b = Some k2" using sub [of b] by (cases "K2 b") auto
    then show ?case by (rule key_at.here)
  next
    case (below ns x k1 c)
    from below.hyps sub [of x] obtain k2 where "K2 x = Some k2" "c \<in> set (rk_subkeys k2)" by (cases "K2 x") auto
    from key_at.below [OF below.IH this] nm show ?case by simp
  qed
  show ?thesis using imp [of "K(q \<mapsto> k')" ns r K] imp [of K ns r "K(q \<mapsto> k')"] nm assms by auto
qed

lemma content_local:
  assumes ok: "keys_ok root held K" "keys_ok root held (K(q \<mapsto> k'))" and k: "K q = Some k" "rk_name k' = rk_name k" "rk_subkeys k' = rk_subkeys k"
    and at: "key_at K b ms q"
  shows "content (K(q \<mapsto> k')) b = (content K b)(ms \<mapsto> key_info k')"
proof (rule ext)
  fix ns
  define K' where "K' = K(q \<mapsto> k')"
  have loc: "key_at K' b ns r \<longleftrightarrow> key_at K b ns r" for ns r unfolding K'_def using key_at_local [of K q k k'] k by blast
  have ok': "keys_ok root held K'" using ok(2) by (simp add: K'_def)
  from ok(1) have "content K' b ns = ((content K b)(ms \<mapsto> key_info k')) ns"
  proof (cases rule: content_cases [where b = b and ns = ns])
    case (at r rk)
    have eq: "r = q \<longleftrightarrow> ns = ms" using key_at_path [OF ok(1) assms(6)] key_at_fun [OF ok(1) assms(6)] at(1) by blast
    have "K' r = Some (if r = q then k' else rk)" using at(2) by (simp add: K'_def)
    from content_Some [OF ok' _ this, of b ns] loc at eq show ?thesis by simp
  next
    case none
    then have "ns \<noteq> ms" using assms(6) by blast
    then show ?thesis using none loc content_None [of K' b ns] by simp
  qed
  then show "content (K(q \<mapsto> k')) b ns = ((content K b)(ms \<mapsto> key_info k')) ns" by (simp add: K'_def)
qed

text \<open>A new key below another.\<close>

lemma linked_names:
  assumes "K q = Some k" "K p = None" "K' = K(q \<mapsto> with_subkey K name p k, p \<mapsto> created_key name q 0 modif)"
  shows "name_of K' p = name" "c \<noteq> p \<Longrightarrow> name_of K' c = name_of K c"
  using assms by (auto simp: name_of_def created_key_def with_subkey_def)

lemma subkey_not_new: "keys_ok root held K \<Longrightarrow> K p = None \<Longrightarrow> K x = Some xk \<Longrightarrow> c \<in> set (rk_subkeys xk) \<Longrightarrow> c \<noteq> p"
  using keys_okD(1) by (metis option.discI subkey_live)

lemma key_at_linked:
  assumes ok: "keys_ok root held K" and q: "K q = Some k" and p: "K p = None"
    and K': "K' = K(q \<mapsto> with_subkey K name p k, p \<mapsto> created_key name q 0 modif)" and at: "key_at K b ns r"
  shows "key_at K' b ns r"
  using at
proof (induction rule: key_at.induct)
  case (here k0)
  then have "K' b \<noteq> None" using q p by (auto simp: K')
  then show ?case by (auto intro: key_at.here)
next
  case (below ns x xk c)
  have c: "c \<noteq> p" by (rule subkey_not_new [OF ok p below.hyps(2,3)])
  have "x \<noteq> p" using below.hyps(2) p by auto
  then have "\<exists>xk'. K' x = Some xk' \<and> c \<in> set (rk_subkeys xk')"
    using below.hyps(2,3) q by (cases "x = q") (auto simp: K' with_subkey_def)
  then show ?case using key_at.below [OF below.IH] linked_names(2) [OF q p K' c] by metis
qed

lemma key_at_unlinked:
  assumes ok: "keys_ok root held K" and q: "K q = Some k" and p: "K p = None" and b: "K b \<noteq> None"
    and K': "K' = K(q \<mapsto> with_subkey K name p k, p \<mapsto> created_key name q 0 modif)" and at: "key_at K' b ns r"
  shows "key_at K b ns r \<or> (r = p \<and> (\<exists>ms. key_at K b ms q \<and> ns = ms @ [fold_name name]))"
  using at
proof (induction rule: key_at.induct)
  case (here k0)
  then show ?case using b by (auto intro: key_at.here)
next
  case (below ns x xk c)
  have "rk_subkeys xk = []" if "x = p" using below.hyps(2) that by (auto simp: K' created_key_def)
  then have x: "x \<noteq> p" "key_at K b ns x" using below.hyps(3) below.IH by auto
  show ?case
  proof (cases "c = p")
    case True
    have "K x = Some xk" if "x \<noteq> q" using below.hyps(2) x(1) that by (simp add: K')
    then have "x = q" using subkey_not_new [OF ok p] below.hyps(3) True by blast
    then show ?thesis using x(2) True linked_names(1) [OF q p K'] by auto
  next
    case False
    then have "\<exists>xk. K x = Some xk \<and> c \<in> set (rk_subkeys xk)"
      using below.hyps(2,3) x(1) q by (cases "x = q") (auto simp: K' with_subkey_def)
    then show ?thesis using key_at.below [OF x(2)] linked_names(2) [OF q p K' False] by metis
  qed
qed

lemma key_at_link:
  assumes ok: "keys_ok root held K" and q: "K q = Some k" and p: "K p = None" and b: "K b \<noteq> None"
    and K': "K' = K(q \<mapsto> with_subkey K name p k, p \<mapsto> created_key name q 0 modif)"
  shows "key_at K' b ns r \<longleftrightarrow> key_at K b ns r \<or> (r = p \<and> (\<exists>ms. key_at K b ms q \<and> ns = ms @ [fold_name name]))"
proof
  show "key_at K' b ns r \<Longrightarrow> key_at K b ns r \<or> (r = p \<and> (\<exists>ms. key_at K b ms q \<and> ns = ms @ [fold_name name]))"
    by (rule key_at_unlinked [OF ok q p b K'])
next
  assume "key_at K b ns r \<or> (r = p \<and> (\<exists>ms. key_at K b ms q \<and> ns = ms @ [fold_name name]))"
  then show "key_at K' b ns r"
  proof
    assume "r = p \<and> (\<exists>ms. key_at K b ms q \<and> ns = ms @ [fold_name name])"
    then obtain ms where ms: "r = p" "key_at K b ms q" "ns = ms @ [fold_name name]" by blast
    have "K' q = Some (with_subkey K name p k)" "p \<in> set (rk_subkeys (with_subkey K name p k))"
      using p q by (auto simp: K' with_subkey_def)
    from key_at.below [OF key_at_linked [OF ok q p K' ms(2)] this] ms(1,3) linked_names(1) [OF q p K'] show ?thesis by simp
  qed (rule key_at_linked [OF ok q p K'])
qed

lemma content_link:
  assumes ok: "keys_ok root held K" "keys_ok root held K'" and q: "K q = Some k" and p: "K p = None" and at: "key_at K b ms q"
    and K': "K' = K(q \<mapsto> with_subkey K name p k, p \<mapsto> created_key name q 0 modif)"
  shows "key_at K' b (ms @ [fold_name name]) p" "content K' b = (content K b)(ms @ [fold_name name] \<mapsto> (Map.empty, False))"
    "key_at K b ns r \<Longrightarrow> key_at K' b ns r"
proof -
  have pq: "p \<noteq> q" using p q by auto
  have b: "K b \<noteq> None" using at by (induction rule: key_at.induct) auto
  note link = key_at_link [OF ok(1) q p b K']
  show new: "key_at K' b (ms @ [fold_name name]) p" using link at by blast
  show "key_at K b ns r \<Longrightarrow> key_at K' b ns r" using link by blast
  show "content K' b = (content K b)(ms @ [fold_name name] \<mapsto> (Map.empty, False))"
  proof (rule ext)
    fix ns
    show "content K' b ns = ((content K b)(ms @ [fold_name name] \<mapsto> (Map.empty, False))) ns"
    proof (cases "ns = ms @ [fold_name name]")
      case True
      have "K' p = Some (created_key name q 0 modif)" by (simp add: K')
      from content_Some [OF ok(2) new this] True show ?thesis
        by (simp add: key_info_def created_key_def value_map_def flagged_def new_flags_def fun_eq_iff)
    next
      case False
      from ok(1) show ?thesis
      proof (cases rule: content_cases [where b = b and ns = ns])
        case (at r rk)
        have "key_at K' b ns r" using link at(1) by blast
        moreover have "r \<noteq> p" using at(2) p by auto
        then have "\<exists>rk'. K' r = Some rk' \<and> key_info rk' = key_info rk"
          using at(2) q by (cases "r = q") (auto simp: K' key_info_def value_map_def with_subkey_def flagged_def fun_eq_iff)
        ultimately show ?thesis using content_Some [OF ok(2)] at(3) False by fastforce
      next
        case none
        have "\<not> key_at K' b ns r" for r
        proof
          assume "key_at K' b ns r"
          then obtain ms' where "key_at K b ms' q" "ns = ms' @ [fold_name name]" using link none(1) by blast
          then show False using key_at_path [OF ok(1) assms(5)] False by blast
        qed
        then show ?thesis using none(2) False content_None [of K' b ns] by simp
      qed
    qed
  qed
qed

section \<open>Loading a path\<close>

text \<open>Names with a backslash between them.\<close>

fun joined :: "u16 list list \<Rightarrow> u16 list" where
  "joined [] = []"
| "joined [n] = n"
| "joined (n # m # ns) = n @ BACKSLASH # joined (m # ns)"

definition tail_text :: "u16 list list \<Rightarrow> u16 list" where
  "tail_text ns = (if ns = [] then [] else BACKSLASH # joined ns)"

lemma joined_Cons: "joined (n # ns) = n @ tail_text ns"
  by (cases ns) (simp_all add: tail_text_def)

lemma joined_start: "name_ok n \<Longrightarrow> joined (n # ns) \<noteq> [] \<and> hd (joined (n # ns)) \<noteq> BACKSLASH"
  by (cases n) (auto simp: joined_Cons name_ok_def)

lemma joined_element: "name_ok n \<Longrightarrow> horizon_reg_element (joined (n # ns)) = length n"
  unfolding joined_Cons by (rule element_name) (auto simp: tail_text_def)

lemma joined_rest:
  assumes "name_ok n" "\<forall>m\<in>set ns. name_ok m"
  shows "skip_backslashes (drop (length n) (joined (n # ns))) = joined ns"
proof (cases ns)
  case (Cons m ms)
  have "name_ok m" using assms(2) Cons by simp
  then obtain c cs where j: "joined (m # ms) = c # cs" "c \<noteq> BACKSLASH" using joined_start [of m ms] by (cases "joined (m # ms)") auto
  have "drop (length n) (joined (n # ns)) = BACKSLASH # joined (m # ms)" using Cons by (simp add: joined_Cons tail_text_def)
  then show ?thesis using j Cons by (simp add: skip_backslashes_def)
qed (simp add: joined_Cons tail_text_def skip_backslashes_def)

text \<open>Paths from \<open>ms\<close> down to the end of the names that were not there are there now, with nothing at them.\<close>

definition implied :: "(u16 list list \<rightharpoonup> ('v \<rightharpoonup> 'w) \<times> bool) \<Rightarrow> u16 list list \<Rightarrow> (u16 list list \<rightharpoonup> ('v \<rightharpoonup> 'w) \<times> bool)" where
  "implied T path ns = (if T ns = None \<and> prefix ns path then Some (Map.empty, False) else T ns)"

text \<open>What the loader has to keep between lines.\<close>

definition loading :: "reg_allocator \<Rightarrow> ptr list \<Rightarrow> ptr \<Rightarrow> horizon_reg_loader \<Rightarrow> horizon_reg \<Rightarrow> bool" where
  "loading alloc held b ld reg \<longleftrightarrow> plenty alloc \<and> load_inv alloc held {b} ld reg"

lemma loading_keys:
  assumes "loading alloc held b ld reg"
  obtains root where "rg_root reg = Some root" "keys_ok root held (rg_keys reg)"
  using assms by (auto simp: loading_def load_inv_def elim: reg_okE)

lemma key_at_not_deleted:
  assumes "loading alloc held b ld reg" "key_at (rg_keys reg) b ms q" "rg_keys reg q = Some k"
  shows "\<not> flagged k HORIZON_REG_FLAG_DELETED"
proof (cases ms rule: rev_cases)
  case Nil
  then have "q = b" using assms(2) by (auto elim: key_at_NilE)
  then show ?thesis using assms(1,3) by (auto simp: loading_def load_inv_def live_key_def)
next
  case (snoc ns n)
  from assms(1) obtain root where ok: "keys_ok root held (rg_keys reg)" by (rule loading_keys)
  from ok assms(2) [unfolded snoc] obtain r rk qk where "rg_keys reg q = Some qk" "rk_parent qk = Some r" by (rule key_at_parent)
  then show ?thesis using keys_okD(2) [OF ok assms(3)] assms(3) by (auto simp: key_ok_def)
qed

lemma alloc_key_plenty:
  assumes "plenty alloc" "ask alloc ld = (mem, p, ld')"
  obtains sk where "horizon_reg_alloc_key mem n modif = Some sk" "\<forall>a. mem a" "ld_text ld' = ld_text ld"
proof -
  have m: "\<forall>a. mem a" "ld_text ld' = ld_text ld" using assms by (auto simp: plenty_def ask_def)
  then show thesis using that by (simp add: horizon_reg_alloc_key_def)
qed

text \<open>The step that makes a key that is missing.\<close>

lemma load_new_key:
  assumes l: "loading alloc held b ld reg" and at: "key_at (rg_keys reg) b ms q" and q: "rg_keys reg q = Some k"
    and n: "name_ok n" "\<not> has_name (subkey_names (rg_keys reg) k) n"
  obtains mem p ld' sk reg' where "ask alloc ld = (mem, p, ld')" "horizon_reg_alloc_key mem n modif = Some sk"
    "horizon_reg_link mem q p (name_place (subkey_names (rg_keys reg) k) n) (reg\<lparr>rg_keys := (rg_keys reg)(p \<mapsto> sk)\<rparr>) =
       Some (HORIZON_REG_SUCCESS, reg')"
    "loading alloc held b ld' reg'" "ld_text ld' = ld_text ld" "key_at (rg_keys reg') b (ms @ [fold_name n]) p"
    "content (rg_keys reg') b = (content (rg_keys reg) b)(ms @ [fold_name n] \<mapsto> (Map.empty, False))"
proof -
  from l obtain root where root: "rg_root reg = Some root" "keys_ok root held (rg_keys reg)" by (rule loading_keys)
  have inv: "plenty alloc" "load_inv alloc held {b} ld reg" using l by (simp_all add: loading_def)
  obtain mem p ld' where ask: "ask alloc ld = (mem, p, ld')" by (cases "ask alloc ld") auto
  from inv(1) ask obtain sk where sk: "horizon_reg_alloc_key mem n modif = Some sk" "\<forall>a. mem a" "ld_text ld' = ld_text ld"
    by (rule alloc_key_plenty [where n = n and modif = modif])
  have fresh: "rg_keys reg p = None" using ask inv(2) fresh_fromD [of alloc "ld_calls ld" reg] by (auto simp: load_inv_def ask_def)
  let ?reg1 = "reg\<lparr>rg_keys := (rg_keys reg)(q \<mapsto> with_subkey (rg_keys reg) n p k, p \<mapsto> created_key n q 0 modif)\<rparr>"
  from link_new [OF root(2) q key_at_not_deleted [OF l at q] fresh n sk(1), unfolded Let_def] sk(2) have
    link: "horizon_reg_link mem q p (name_place (subkey_names (rg_keys reg) k) n) (reg\<lparr>rg_keys := (rg_keys reg)(p \<mapsto> sk)\<rparr>) =
       Some (HORIZON_REG_SUCCESS, ?reg1)" and ok': "keys_ok root held (rg_keys ?reg1)" by auto
  note c = content_link [OF root(2) ok' q fresh at, of n modif, simplified]
  have "live_key ?reg1 b" using inv(2) q fresh
    by (auto simp: load_inv_def live_key_def with_subkey_def flagged_def created_key_def new_flags_def)
  moreover have "fresh_from alloc (ld_calls ld') ?reg1"
  proof -
    have f: "fresh_from alloc (ld_calls ld) reg" using inv(2) by (simp add: load_inv_def)
    have pc: "p = snd (alloc (ld_calls ld))" "ld_calls ld' = Suc (ld_calls ld)" using ask by (auto simp: ask_def)
    show ?thesis unfolding pc(2) by (rule fresh_used [OF f]) (use pc(1) q in auto)
  qed
  moreover have "reg_ok ?reg1 held" using ok' root(1) by (intro reg_okI) simp_all
  ultimately have "loading alloc held b ld' ?reg1" using inv(1) by (simp add: loading_def load_inv_def)
  then show thesis using that [OF ask sk(1) link] sk(3) c by simp
qed

lemma prefix_below: "prefix ns ms \<Longrightarrow> prefix ns (ms @ es)"
  by (meson prefixI prefix_order.trans)

lemma load_path_joined:
  assumes "loading alloc held b ld reg" "key_at (rg_keys reg) b ms q" "\<forall>n\<in>set es. name_ok n"
    and "\<And>ns. prefix ns ms \<Longrightarrow> content (rg_keys reg) b ns \<noteq> None"
  shows "\<exists>q' ld' reg'. load_path alloc modif (joined es) q ld reg = Some (Some q', ld', reg') \<and> loading alloc held b ld' reg' \<and>
    ld_text ld' = ld_text ld \<and> key_at (rg_keys reg') b (ms @ map fold_name es) q' \<and>
    content (rg_keys reg') b = implied (content (rg_keys reg) b) (ms @ map fold_name es)"
  using assms
proof (induction es arbitrary: q ms ld reg)
  case Nil
  have "implied (content (rg_keys reg) b) ms = content (rg_keys reg) b"
    using Nil.prems(4) by (auto simp: implied_def fun_eq_iff)
  then show ?case using Nil.prems by (subst load_path.simps) auto
next
  case (Cons n es)
  let ?name = "joined (n # es)"
  have n: "name_ok n" "\<forall>m\<in>set es. name_ok m" using Cons.prems(3) by auto
  have name: "?name \<noteq> []" "horizon_reg_element ?name = length n" "take (length n) ?name = n" "0 < length n" "length n \<le> HORIZON_REG_MAX_NAME"
    "skip_backslashes (drop (length n) ?name) = joined es"
    using joined_start [OF n(1)] joined_element [OF n(1)] joined_rest [OF n] n(1) by (auto simp: joined_Cons name_ok_def)
  from Cons.prems(1) obtain root where ok: "keys_ok root held (rg_keys reg)" by (rule loading_keys)
  from ok Cons.prems(2) obtain k where k: "rg_keys reg q = Some k" by (rule key_at_live)
  have l: "linked_ok (rg_keys reg) q k" by (rule keys_okD(1) [OF ok k])
  have pre: "prefix ns (ms @ [fold_name n]) \<longleftrightarrow> prefix ns ms \<or> ns = ms @ [fold_name n]" for ns by auto
  from l show ?case
  proof (cases rule: find_subkey_cases [where n = n])
    case (found c ck i)
    have c: "fold_name (name_of (rg_keys reg) c) = fold_name n" using found(3,4) by (simp add: name_of_def)
    have at: "key_at (rg_keys reg) b (ms @ [fold_name n]) c" using key_at.below [OF Cons.prems(2) k found(2)] c by simp
    have eq: "load_path alloc modif ?name q ld reg = load_path alloc modif (joined es) c ld reg"
      using name k found(1) by (subst load_path.simps) (simp add: Let_def)
    have "content (rg_keys reg) b ns \<noteq> None" if "prefix ns (ms @ [fold_name n])" for ns
      using that Cons.prems(4) content_Some [OF ok at found(3)] unfolding pre by auto
    from Cons.IH [OF Cons.prems(1) at n(2) this] show ?thesis unfolding eq by simp
  next
    case missing
    from Cons.prems(1,2) k n(1) missing(2) obtain mem p ld1 sk reg1 where new: "ask alloc ld = (mem, p, ld1)"
      "horizon_reg_alloc_key mem n modif = Some sk"
      "horizon_reg_link mem q p (name_place (subkey_names (rg_keys reg) k) n) (reg\<lparr>rg_keys := (rg_keys reg)(p \<mapsto> sk)\<rparr>) =
         Some (HORIZON_REG_SUCCESS, reg1)"
      "loading alloc held b ld1 reg1" "ld_text ld1 = ld_text ld" "key_at (rg_keys reg1) b (ms @ [fold_name n]) p"
      "content (rg_keys reg1) b = (content (rg_keys reg) b)(ms @ [fold_name n] \<mapsto> (Map.empty, False))"
      by (rule load_new_key [where modif = modif])
    have eq: "load_path alloc modif ?name q ld reg = load_path alloc modif (joined es) p ld1 reg1"
      using name k missing(1) new(1-3) by (subst load_path.simps) (simp add: Let_def)
    have "content (rg_keys reg1) b ns \<noteq> None" if "prefix ns (ms @ [fold_name n])" for ns
      using that Cons.prems(4) unfolding pre new(7) by auto
    note IH = Cons.IH [OF new(4,6) n(2) this]
    have none: "content (rg_keys reg) b (ms @ [fold_name n]) = None"
    proof (rule ccontr)
      assume "content (rg_keys reg) b (ms @ [fold_name n]) \<noteq> None"
      then obtain c where "key_at (rg_keys reg) b (ms @ [fold_name n]) c" by (auto simp: content_def split: if_splits)
      from ok this obtain r rk where r: "key_at (rg_keys reg) b ms r" "rg_keys reg r = Some rk" "c \<in> set (rk_subkeys rk)"
        "fold_name n = fold_name (name_of (rg_keys reg) c)" by (rule key_at_parent)
      have "r = q" by (rule key_at_fun [OF ok r(1) Cons.prems(2)])
      then show False using missing(2) r k by (auto simp: has_name_def subkey_names_def)
    qed
    have "implied (content (rg_keys reg1) b) ((ms @ [fold_name n]) @ map fold_name es) =
        implied (content (rg_keys reg) b) (ms @ map fold_name (n # es))"
      using none unfolding new(7) by (auto simp: implied_def fun_eq_iff prefix_below)
    then show ?thesis unfolding eq using IH new(5) by auto
  qed
qed

section \<open>Loading what was saved for a key\<close>

text \<open>The path is one string with its backslashes escaped.\<close>

lemma save_char_backslash: "save_char brackets c (Some BACKSLASH) = save_char brackets c None" "save_char brackets BACKSLASH f = [92, 92]"
  by (auto simp: save_char_def is_xdigit_def is_digit_def split: option.splits)

lemma save_str_joined:
  "horizon_registry_save_str brackets (a @ BACKSLASH # s) =
     horizon_registry_save_str brackets a @ [92, 92] @ horizon_registry_save_str brackets s"
proof (induction a)
  case Nil
  then show ?case by (simp add: save_char_backslash)
next
  case (Cons c a)
  then show ?case by (cases a) (simp_all add: save_char_backslash)
qed

lemma path_names_joined: "path_names ks = horizon_registry_save_str brackets (joined (map rk_name ks))"
proof (induction ks rule: path_names.induct)
  case (3 k k' ks)
  then show ?case by (simp add: save_str_joined)
qed simp_all

text \<open>A change of the key at a path.\<close>

lemma loading_ahead: "loading alloc held b ld reg \<Longrightarrow> ahead ld ld' \<Longrightarrow> loading alloc held b ld' reg"
  unfolding loading_def using load_inv_ahead by blast

lemma loading_upd:
  assumes l: "loading alloc held b ld reg" and at: "key_at (rg_keys reg) b ms q" and k: "rg_keys reg q = Some k"
    and same: "rk_name k' = rk_name k" "rk_subkeys k' = rk_subkeys k"
    and inv: "load_inv alloc held {b} ld' (reg\<lparr>rg_keys := (rg_keys reg)(q \<mapsto> k')\<rparr>)"
  shows "loading alloc held b ld' (reg\<lparr>rg_keys := (rg_keys reg)(q \<mapsto> k')\<rparr>)"
    "key_at ((rg_keys reg)(q \<mapsto> k')) b ms q"
    "content ((rg_keys reg)(q \<mapsto> k')) b = (content (rg_keys reg) b)(ms \<mapsto> key_info k')"
proof -
  let ?reg = "reg\<lparr>rg_keys := (rg_keys reg)(q \<mapsto> k')\<rparr>"
  show l': "loading alloc held b ld' ?reg" using l inv by (simp add: loading_def)
  show "key_at ((rg_keys reg)(q \<mapsto> k')) b ms q" using at key_at_local [of "rg_keys reg" q k k' b ms q] k same by blast
  from l obtain root where root: "rg_root reg = Some root" "keys_ok root held (rg_keys reg)" by (rule loading_keys)
  from l' obtain root' where "rg_root ?reg = Some root'" "keys_ok root' held (rg_keys ?reg)" by (rule loading_keys)
  then have "keys_ok root held ((rg_keys reg)(q \<mapsto> k'))" using root(1) by simp
  then show "content ((rg_keys reg)(q \<mapsto> k')) b = (content (rg_keys reg) b)(ms \<mapsto> key_info k')"
    using content_local [of root held "rg_keys reg" q k' k b ms] root(2) k same at by blast
qed

lemma load_lines_option:
  assumes "plenty alloc" "ld_text ld = 35 # r @ 10 # later" "\<forall>c\<in>set r. line_byte c"
    and "\<And>ld. horizon_reg_load_option alloc q (35 # r) ld reg = Some (ld, reg')"
  obtains ld' where "load_lines alloc now b (Some q) errors ld reg = load_lines alloc now b (Some q) errors ld' reg'"
    "ld_text ld' = later" "ahead ld ld'"
proof -
  have "ld_text ld = (35 # r) @ 10 # later" using assms(2) by simp
  moreover have "\<forall>c\<in>set (35 # r). line_byte c" using assms(3) by (simp add: line_byte_def)
  ultimately obtain ld1 where ld1: "horizon_reg_next_line alloc ld = (1, ld1)" "ld_line ld1 = 35 # r" "ld_text ld1 = later"
    by (rule next_line_plenty [OF assms(1)])
  have "skip_spaces (ld_line ld1) = 35 # r" using ld1(2) by (simp add: skip_spaces_def is_space_def)
  then have "load_line alloc now b (Some q) ld1 reg = Some (Some q, False, ld1, reg')" using assms(4) by (simp add: load_line_def)
  from load_lines_step [OF ld1(1) this] that ld1(3) next_line_ahead [OF ld1(1)] show thesis by simp
qed

lemma load_lines_blank:
  assumes "plenty alloc" "ld_text ld = 10 # later"
  obtains ld' where "load_lines alloc now b key errors ld reg = load_lines alloc now b key errors ld' reg" "ld_text ld' = later" "ahead ld ld'"
proof -
  have "ld_text ld = [] @ 10 # later" "\<forall>c\<in>set []. line_byte c" using assms(2) by simp_all
  then obtain ld1 where ld1: "horizon_reg_next_line alloc ld = (1, ld1)" "ld_line ld1 = []" "ld_text ld1 = later"
    by (rule next_line_plenty [OF assms(1)])
  have "load_line alloc now b key ld1 reg = Some (key, False, ld1, reg)" using ld1(2) by (simp add: load_line_def skip_spaces_def)
  from load_lines_step [OF ld1(1) this] that ld1(3) next_line_ahead [OF ld1(1)] show thesis by simp
qed

lemma line_byte_brackets: "line_byte 91" "line_byte 93"
  by (simp_all add: line_byte_def)

lemma load_lines_key:
  assumes l: "loading alloc held b ld reg" and txt_is: "ld_text ld = 91 # path_names ks @ 93 # d @ 10 # later"
    and d: "\<forall>c\<in>set d. line_byte c" and names: "\<forall>k\<in>set ks. name_ok (rk_name k)"
    and len: "length (path_names ks) + length d < 0x10000000"
  obtains q ld' reg' where "load_lines alloc now b key errors ld reg = load_lines alloc now b (Some q) errors ld' reg'"
    "loading alloc held b ld' reg'" "ld_text ld' = later" "key_at (rg_keys reg') b (map (fold_name \<circ> rk_name) ks) q"
    "content (rg_keys reg') b = implied (content (rg_keys reg) b) (map (fold_name \<circ> rk_name) ks)"
proof -
  let ?es = "map rk_name ks" and ?p = "path_names ks @ 93 # d"
  have alloc: "plenty alloc" using l by (simp add: loading_def)
  have "ld_text ld = (91 # ?p) @ 10 # later" using txt_is by simp
  moreover have "\<forall>c\<in>set (91 # ?p). line_byte c" using d save_str_bytes line_byte_brackets by (auto simp: path_names_joined)
  ultimately obtain ld1 where ld1: "horizon_reg_next_line alloc ld = (1, ld1)" "ld_line ld1 = 91 # ?p" "ld_text ld1 = later"
    by (rule next_line_plenty [OF alloc])
  note l1 = loading_ahead [OF l next_line_ahead [OF ld1(1)]]
  have "(length ?p + 1) * 2 < 0x7fffffff" using len by simp
  from tmp_space_plenty [OF alloc this, of ld1] obtain ld2 where ld2: "horizon_reg_tmp_space alloc ((length ?p + 1) * 2) ld1 = (True, ld2)"
    "(length ?p + 1) * 2 \<le> ld_tmp_size ld2" "ld_text ld2 = later" using ld1(3) by metis
  note l2 = loading_ahead [OF l1 tmp_space_ahead [OF ld2(1)]]
  have "2 * (length (joined ?es) + 1) \<le> ld_tmp_size ld2"
    using ld2(2) save_str_length [of "joined ?es" brackets] by (simp add: path_names_joined)
  from parse_saved [OF _ _ this, of brackets 93 d] have
    str: "horizon_reg_parse_str (ld_tmp_size ld2) ?p 93 = Some (joined ?es, d)" by (simp add: escape_pair_def path_names_joined)
  obtain modif where key: "horizon_reg_load_key alloc now b ?p ld1 reg = load_path alloc modif (joined ?es) b ld2 reg"
    using ld2(1) str by (simp add: horizon_reg_load_key_def Let_def)
  from l obtain root where ok: "keys_ok root held (rg_keys reg)" by (rule loading_keys)
  obtain k where k: "rg_keys reg b = Some k" using l by (auto simp: loading_def load_inv_def live_key_def)
  have here: "key_at (rg_keys reg) b [] b" using key_at.here [of "rg_keys reg" b k] k by blast
  have "content (rg_keys reg) b ns \<noteq> None" if "prefix ns []" for ns using content_Some [OF ok here k] that by simp
  from load_path_joined [OF l2 here _ this, of ?es modif] names obtain q ld' reg' where
    path: "load_path alloc modif (joined ?es) b ld2 reg = Some (Some q, ld', reg')" "loading alloc held b ld' reg'"
    "ld_text ld' = later" "key_at (rg_keys reg') b (map fold_name ?es) q"
    "content (rg_keys reg') b = implied (content (rg_keys reg) b) (map fold_name ?es)" using ld2(3) by auto
  have "skip_spaces (ld_line ld1) = 91 # ?p" using ld1(2) by (simp add: skip_spaces_def is_space_def)
  then have "load_line alloc now b key ld1 reg = Some (Some q, False, ld', reg')" using key path(1) by (simp add: load_line_def)
  from load_lines_step [OF ld1(1) this] have
    "load_lines alloc now b key errors ld reg = load_lines alloc now b (Some q) errors ld' reg'" by simp
  from that [OF this path(2,3)] path(4,5) show thesis by simp
qed

text \<open>The options and the values of the key.\<close>

definition time_text :: "horizon_reg_key \<Rightarrow> u8 list" where
  "time_text k = ascii ''time='' @ number_text 16 (unat (drop_bit 32 (rk_modif k))) @
     padded 8 (number_text 16 (unat (ucast (rk_modif k) :: u32)))"

lemma time_text_bytes: "\<forall>c\<in>set (time_text k). line_byte c"
proof -
  have "line_byte c" if "c \<in> set (ascii ''time='')" for c using that by (auto simp: ascii_def line_byte_def)
  moreover have "line_byte c" if "c \<in> set (number_text 16 n) \<or> c \<in> set (padded 8 (number_text 16 n))" for c n
    using that xdigit_of [of 16 c n] digit_line_byte by (auto dest!: padded_set)
  ultimately show ?thesis by (auto simp: time_text_def)
qed

definition body_text :: "horizon_reg_key \<Rightarrow> u8 list" where
  "body_text k = (if flagged k HORIZON_REG_FLAG_SYMLINK then 35 # ascii ''link'' @ [10] else []) @
     concat (map horizon_registry_save_value (rk_values k))"

lemma save_key_split:
  assumes "rk_class k = []"
  shows "save_key k path = 10 # 91 # path @ 93 # (32 # number_text 10 (unat (unix_seconds (rk_modif k)))) @
    10 # 35 # time_text k @ 10 # body_text k"
  using assms by (simp add: save_key_def time_text_def body_text_def ascii_def)

lemma time_option:
  assumes "rg_keys reg q = Some k"
  shows "\<exists>modif. \<forall>ld. horizon_reg_load_option alloc q (35 # time_text t) ld reg =
    Some (ld, reg\<lparr>rg_keys := (rg_keys reg)(q \<mapsto> k\<lparr>rk_modif := modif\<rparr>)\<rparr>)"
proof -
  have "begins (ascii ''#time='') (35 # time_text t)" by (simp add: begins_def ascii_def time_text_def)
  then show ?thesis using assms by (auto simp: horizon_reg_load_option_def upd_key_def Let_def)
qed

lemma link_option:
  assumes "rg_keys reg q = Some k"
  shows "horizon_reg_load_option alloc q (35 # ascii ''link'') ld reg =
    Some (ld, reg\<lparr>rg_keys := (rg_keys reg)(q \<mapsto> k\<lparr>rk_flags := rk_flags k OR HORIZON_REG_FLAG_SYMLINK\<rparr>)\<rparr>)"
  using assms by (simp add: horizon_reg_load_option_def upd_key_def begins_def ascii_def)

lemma flag_facts:
  "flagged (k\<lparr>rk_flags := rk_flags k OR HORIZON_REG_FLAG_SYMLINK\<rparr>) HORIZON_REG_FLAG_SYMLINK"
  "flagged (k\<lparr>rk_flags := rk_flags k OR HORIZON_REG_FLAG_SYMLINK\<rparr>) HORIZON_REG_FLAG_DELETED = flagged k HORIZON_REG_FLAG_DELETED"
  by (simp_all add: flagged_def and.commute bit.conj_disj_distrib)

text \<open>The line of a link.\<close>

lemma load_link:
  assumes alloc: "plenty alloc" and inv: "load_inv alloc held {b} ld reg" and q: "rg_keys reg q = Some k" "key_info k = (Map.empty, False)"
    and txt_is: "ld_text ld = body_text src @ later"
  shows "\<exists>ld' k'. load_lines alloc now b (Some q) errors ld reg =
        load_lines alloc now b (Some q) errors ld' (reg\<lparr>rg_keys := (rg_keys reg)(q \<mapsto> k')\<rparr>) \<and>
      ld_text ld' = concat (map horizon_registry_save_value (rk_values src)) @ later \<and>
      load_inv alloc held {b} ld' (reg\<lparr>rg_keys := (rg_keys reg)(q \<mapsto> k')\<rparr>) \<and> rk_name k' = rk_name k \<and> rk_subkeys k' = rk_subkeys k \<and>
      value_map k' = Map.empty \<and> flagged k' HORIZON_REG_FLAG_SYMLINK = flagged src HORIZON_REG_FLAG_SYMLINK"
proof (cases "flagged src HORIZON_REG_FLAG_SYMLINK")
  case True
  let ?k = "k\<lparr>rk_flags := rk_flags k OR HORIZON_REG_FLAG_SYMLINK\<rparr>"
  have t: "ld_text ld = 35 # ascii ''link'' @ 10 # concat (map horizon_registry_save_value (rk_values src)) @ later"
    "\<forall>c\<in>set (ascii ''link''). line_byte c"
    using txt_is True by (auto simp: body_text_def ascii_def line_byte_def)
  obtain ld' where 2: "load_lines alloc now b (Some q) errors ld reg =
      load_lines alloc now b (Some q) errors ld' (reg\<lparr>rg_keys := (rg_keys reg)(q \<mapsto> ?k)\<rparr>)"
    "ld_text ld' = concat (map horizon_registry_save_value (rk_values src)) @ later" "ahead ld ld'"
    by (rule load_lines_option [OF alloc t link_option [OF q(1)]])
  have "load_inv alloc held {b} ld' (reg\<lparr>rg_keys := (rg_keys reg)(q \<mapsto> ?k)\<rparr>)"
    by (rule load_inv_option [OF inv q(1) 2(3)]) (use flag_facts(2) [of k] in simp_all)
  then show ?thesis using 2 True flag_facts(1) [of k] q(2)
    by (intro exI [of _ ld'] exI [of _ ?k]) (simp add: key_info_def value_map_def fun_eq_iff)
next
  case False
  have "reg\<lparr>rg_keys := (rg_keys reg)(q \<mapsto> k)\<rparr> = reg" using q(1) by (simp add: fun_upd_idem)
  then show ?thesis using False txt_is inv q(2)
    by (intro exI [of _ ld] exI [of _ k]) (simp add: body_text_def key_info_def)
qed

text \<open>The lines after the one with the path, read into a key with nothing in it.\<close>

lemma load_body:
  assumes l: "loading alloc held b ld reg" and at: "key_at (rg_keys reg) b ms q" "rg_keys reg q = Some k" "key_info k = (Map.empty, False)"
    and txt_is: "ld_text ld = 35 # time_text src @ 10 # body_text src @ later" and src: "values_ok src"
    and len: "length (body_text src) < 0x10000000"
  obtains ld' reg' where "load_lines alloc now b (Some q) errors ld reg = load_lines alloc now b (Some q) errors ld' reg'"
    "loading alloc held b ld' reg'" "ld_text ld' = later" "content (rg_keys reg') b = (content (rg_keys reg) b)(ms \<mapsto> key_info src)"
proof -
  have alloc: "plenty alloc" and inv: "load_inv alloc held {b} ld reg" using l by (simp_all add: loading_def)
  obtain modif where time: "\<And>ld. horizon_reg_load_option alloc q (35 # time_text src) ld reg =
      Some (ld, reg\<lparr>rg_keys := (rg_keys reg)(q \<mapsto> k\<lparr>rk_modif := modif\<rparr>)\<rparr>)" using time_option [OF at(2)] by blast
  let ?k1 = "k\<lparr>rk_modif := modif\<rparr>"
  let ?reg1 = "reg\<lparr>rg_keys := (rg_keys reg)(q \<mapsto> ?k1)\<rparr>"
  obtain ld1 where 1: "load_lines alloc now b (Some q) errors ld reg = load_lines alloc now b (Some q) errors ld1 ?reg1"
    "ld_text ld1 = body_text src @ later" "ahead ld ld1"
    by (rule load_lines_option [OF alloc txt_is time_text_bytes time])
  have inv1: "load_inv alloc held {b} ld1 ?reg1" by (rule load_inv_option [OF inv at(2) 1(3)]) (simp_all add: flagged_def)
  note u1 = loading_upd [OF l at(1,2) _ _ inv1]
  have info1: "key_info ?k1 = (Map.empty, False)" using at(3) by (simp add: key_info_def value_map_def flagged_def fun_eq_iff)
  have q1: "rg_keys ?reg1 q = Some ?k1" by simp
  have upd1: "(rg_keys ?reg1)(q \<mapsto> x) = (rg_keys reg)(q \<mapsto> x)" "?reg1\<lparr>rg_keys := f\<rparr> = reg\<lparr>rg_keys := f\<rparr>" for x f by simp_all
  have same1: "rk_name ?k1 = rk_name k" "rk_subkeys ?k1 = rk_subkeys k" by simp_all
  obtain ld2 k2 where 2: "load_lines alloc now b (Some q) errors ld1 ?reg1 =
        load_lines alloc now b (Some q) errors ld2 (reg\<lparr>rg_keys := (rg_keys reg)(q \<mapsto> k2)\<rparr>)"
      "ld_text ld2 = concat (map horizon_registry_save_value (rk_values src)) @ later"
      "load_inv alloc held {b} ld2 (reg\<lparr>rg_keys := (rg_keys reg)(q \<mapsto> k2)\<rparr>)" "rk_name k2 = rk_name k" "rk_subkeys k2 = rk_subkeys k"
      "value_map k2 = Map.empty" "flagged k2 HORIZON_REG_FLAG_SYMLINK = flagged src HORIZON_REG_FLAG_SYMLINK"
    using load_link [OF alloc inv1 q1 info1 1(2), of now errors, unfolded upd1 same1] by blast
  let ?reg2 = "reg\<lparr>rg_keys := (rg_keys reg)(q \<mapsto> k2)\<rparr>"
  have q2: "rg_keys ?reg2 q = Some k2" by simp
  have upd: "(rg_keys ?reg2)(q \<mapsto> x) = (rg_keys reg)(q \<mapsto> x)" "?reg2\<lparr>rg_keys := f\<rparr> = reg\<lparr>rg_keys := f\<rparr>" for x f by simp_all
  have "\<forall>v\<in>set (rk_values src). length (rv_name v) \<le> HORIZON_REG_MAX_VALUE" using src by (simp add: values_ok_def)
  moreover have "length (concat (map horizon_registry_save_value (rk_values src))) < 0x10000000" using len by (simp add: body_text_def)
  ultimately obtain ld3 k3 where 3: "load_lines alloc now b (Some q) errors ld2 ?reg2 =
      load_lines alloc now b (Some q) errors ld3 (reg\<lparr>rg_keys := (rg_keys reg)(q \<mapsto> k3)\<rparr>)"
    "ld_text ld3 = later" "ahead ld2 ld3" "values_only k2 k3" "values_ok k3"
    "value_map k3 = foldl add_value (value_map k2) (rk_values src)"
    using load_lines_values [OF alloc 2(2) q2 load_inv_key(1) [OF 2(3) q2], of now b errors, unfolded upd] by blast
  have "load_inv alloc held {b} ld3 (?reg2\<lparr>rg_keys := (rg_keys ?reg2)(q \<mapsto> k3)\<rparr>)" by (rule load_inv_values [OF 2(3) q2 3(4,5,3)])
  then have inv3: "load_inv alloc held {b} ld3 (reg\<lparr>rg_keys := (rg_keys reg)(q \<mapsto> k3)\<rparr>)" unfolding upd .
  have same: "rk_name k3 = rk_name k" "rk_subkeys k3 = rk_subkeys k" using values_onlyD(1,3) [OF 3(4)] 2(4,5) by simp_all
  have "key_info k3 = key_info src"
    using 3(6) loaded_values [OF src, of "Map.empty"] values_onlyD(5) [OF 3(4)] 2(6,7) by (simp add: key_info_def flagged_def)
  then show thesis using that [OF _ loading_upd(1) [OF l at(1,2) same inv3] 3(2)] loading_upd(3) [OF l at(1,2) same inv3] 1(1) 2(1) 3(1) by simp
qed

lemma implied_self [simp]: "implied T P P = (case T P of None \<Rightarrow> Some (Map.empty, False) | Some x \<Rightarrow> Some x)"
  by (simp add: implied_def split: option.splits)

lemma load_block:
  assumes l: "loading alloc held b ld reg" and txt_is: "ld_text ld = save_key src (path_names ks) @ later"
    and names: "\<forall>k\<in>set ks. name_ok (rk_name k)" and src: "values_ok src" "rk_class src = []"
    and len: "length (save_key src (path_names ks)) < 0x10000000"
    and P: "P = map (fold_name \<circ> rk_name) ks" and before: "content (rg_keys reg) b P = None \<or> content (rg_keys reg) b P = Some (Map.empty, False)"
  obtains q ld' reg' where "load_lines alloc now b key errors ld reg = load_lines alloc now b (Some q) errors ld' reg'"
    "loading alloc held b ld' reg'" "ld_text ld' = later"
    "content (rg_keys reg') b = (implied (content (rg_keys reg) b) P)(P \<mapsto> key_info src)"
proof -
  have alloc: "plenty alloc" using l by (simp add: loading_def)
  let ?d = "32 # number_text 10 (unat (unix_seconds (rk_modif src)))"
  have t: "save_key src (path_names ks) = 10 # 91 # path_names ks @ 93 # ?d @ 10 # 35 # time_text src @ 10 # body_text src"
    by (rule save_key_split [OF src(2)])
  have "ld_text ld = 10 # (91 # path_names ks @ 93 # ?d @ 10 # (35 # time_text src @ 10 # body_text src @ later))"
    using txt_is t by simp
  then obtain ld1 where 1: "load_lines alloc now b key errors ld reg = load_lines alloc now b key errors ld1 reg"
    "ld_text ld1 = 91 # path_names ks @ 93 # ?d @ 10 # (35 # time_text src @ 10 # body_text src @ later)" "ahead ld ld1"
    by (rule load_lines_blank [OF alloc])
  have d: "\<forall>c\<in>set ?d. line_byte c" using xdigit_of [of 10] digit_line_byte by (auto simp: line_byte_def [of 32])
  have dl: "length (path_names ks) + length ?d < 0x10000000" using len unfolding t by simp
  obtain q ld2 reg2 where 2: "load_lines alloc now b key errors ld1 reg = load_lines alloc now b (Some q) errors ld2 reg2"
    "loading alloc held b ld2 reg2" "ld_text ld2 = 35 # time_text src @ 10 # body_text src @ later"
    "key_at (rg_keys reg2) b (map (fold_name \<circ> rk_name) ks) q"
    "content (rg_keys reg2) b = implied (content (rg_keys reg) b) (map (fold_name \<circ> rk_name) ks)"
    by (rule load_lines_key [OF loading_ahead [OF l 1(3)] 1(2) d names dl])
  note at = 2(4) [folded P] and cont = 2(5) [folded P]
  from 2(2) obtain root where ok: "keys_ok root held (rg_keys reg2)" by (rule loading_keys)
  from ok at obtain k where k: "rg_keys reg2 q = Some k" by (rule key_at_live)
  have "key_info k = (Map.empty, False)" using content_Some [OF ok at k] before unfolding cont by auto
  moreover have "length (body_text src) < 0x10000000" using len unfolding t by simp
  ultimately obtain ld3 reg3 where "load_lines alloc now b (Some q) errors ld2 reg2 = load_lines alloc now b (Some q) errors ld3 reg3"
    "loading alloc held b ld3 reg3" "ld_text ld3 = later" "content (rg_keys reg3) b = (content (rg_keys reg2) b)(P \<mapsto> key_info src)"
    using load_body [OF 2(2) at k _ 2(3) src(1), of now errors] by blast
  then show thesis using that 1(1) 2(1) cont by simp
qed

section \<open>Saving and loading a tree\<close>

text \<open>A tree that has at most \<open>n\<close> levels and neither volatile keys nor classes.\<close>

fun savable :: "nat \<Rightarrow> (ptr \<Rightarrow> horizon_reg_key option) \<Rightarrow> ptr \<Rightarrow> bool" where
  "savable 0 K p \<longleftrightarrow> False"
| "savable (Suc n) K p \<longleftrightarrow>
     (case K p of
        None \<Rightarrow> False
      | Some k \<Rightarrow> \<not> flagged k HORIZON_REG_FLAG_VOLATILE \<and> rk_class k = [] \<and> (\<forall>c\<in>set (rk_subkeys k). savable n K c))"

lemma save_keys_append:
  assumes "save_keys reg as = Some x" "save_keys reg bs = Some y"
  shows "save_keys reg (as @ bs) = Some (x @ y)"
proof -
  let ?P = "\<lambda>reg as x. \<forall>bs y. save_keys reg bs = Some y \<longrightarrow> save_keys reg (as @ bs) = Some (x @ y)"
  have "?P reg as x"
  proof (rule save_keys.raw_induct [where P = ?P, OF _ assms(1)], intro allI impI)
    fix f reg as x bs y
    assume IH: "\<And>reg ws x. f reg ws = Some x \<Longrightarrow> ?P reg ws x" and y: "save_keys reg bs = Some y"
      and body: "(case as of [] \<Rightarrow> Some []
        | (p, path) # ws \<Rightarrow>
          do { k \<leftarrow> rg_keys reg p;
               if flagged k HORIZON_REG_FLAG_VOLATILE then f reg ws
               else do { name \<leftarrow> horizon_registry_save_path reg path;
                         rest \<leftarrow> f reg (map (\<lambda>c. (c, path @ [c])) (rk_subkeys k) @ ws);
                         Some ((if rk_values k \<noteq> [] \<or> rk_subkeys k = [] \<or> rk_class k \<noteq> [] \<or>
                                   flagged k HORIZON_REG_FLAG_SYMLINK then save_key k name else []) @ rest) } }) = Some x"
    show "save_keys reg (as @ bs) = Some (x @ y)"
    proof (cases as)
      case Nil
      then show ?thesis using body y by simp
    next
      case (Cons w ws)
      obtain p path where w: "w = (p, path)" by fastforce
      from body Cons w obtain k where k: "rg_keys reg p = Some k" by (auto split: bind_splits)
      show ?thesis
      proof (cases "flagged k HORIZON_REG_FLAG_VOLATILE")
        case True
        then have "save_keys reg (ws @ bs) = Some (x @ y)" using body Cons w k IH y by auto
        then show ?thesis unfolding Cons w using k True by (subst save_keys.simps) simp
      next
        case False
        let ?block = "\<lambda>name. if rk_values k \<noteq> [] \<or> rk_subkeys k = [] \<or> rk_class k \<noteq> [] \<or> flagged k HORIZON_REG_FLAG_SYMLINK
          then save_key k name else []"
        from body Cons w k False obtain name rest where b: "horizon_registry_save_path reg path = Some name"
          "f reg (map (\<lambda>c. (c, path @ [c])) (rk_subkeys k) @ ws) = Some rest" "x = ?block name @ rest"
          by (auto split: bind_splits)
        have "save_keys reg (map (\<lambda>c. (c, path @ [c])) (rk_subkeys k) @ ws @ bs) = Some (rest @ y)"
          using IH [OF b(2)] y by simp
        then show ?thesis unfolding Cons w using k False b(1,3) by (subst save_keys.simps) simp
      qed
    qed
  qed
  then show ?thesis using assms(2) by blast
qed

lemma key_at_prefix:
  assumes "keys_ok root held K"
  shows "key_at K b (as @ bs) q \<Longrightarrow> \<exists>r. key_at K b as r"
proof (induction bs arbitrary: q rule: rev_induct)
  case (snoc n bs)
  from snoc.prems have "key_at K b ((as @ bs) @ [n]) q" by simp
  with assms obtain r where "key_at K b (as @ bs) r" by (rule key_at_parent)
  then show ?case by (rule snoc.IH)
qed auto

lemma key_at_descend:
  assumes ok: "keys_ok root held K" and at: "key_at K h P p" "K p = Some k" and below: "key_at K h ns q" "prefix P ns" "ns \<noteq> P"
  shows "\<exists>c\<in>set (rk_subkeys k). prefix (P @ [fold_name (name_of K c)]) ns"
proof -
  obtain m rest where ns: "ns = P @ m # rest" using below(2,3) by (metis append_Nil2 neq_Nil_conv prefixE)
  have "key_at K h ((P @ [m]) @ rest) q" using below(1) ns by simp
  from key_at_prefix [OF ok this] obtain c where "key_at K h (P @ [m]) c" by blast
  with ok obtain r rk where r: "key_at K h P r" "K r = Some rk" "c \<in> set (rk_subkeys rk)" "m = fold_name (name_of K c)"
    by (rule key_at_parent)
  have "r = p" by (rule key_at_fun [OF ok r(1) at(1)])
  then show ?thesis using r at(2) ns by auto
qed

text \<open>What reading a text does to what is below the base.\<close>

type_synonym tree_content = "u16 list list \<rightharpoonup> (u16 list \<rightharpoonup> u32 \<times> u8 list) \<times> bool"

definition loads_as ::
    "reg_allocator \<Rightarrow> ptr list \<Rightarrow> ptr \<Rightarrow> u64 \<Rightarrow> u8 list \<Rightarrow> (tree_content \<Rightarrow> bool) \<Rightarrow> (tree_content \<Rightarrow> tree_content) \<Rightarrow> bool" where
  "loads_as alloc held b now t pre eff \<longleftrightarrow>
     (\<forall>ld reg key errors later.
        loading alloc held b ld reg \<and> ld_text ld = t @ later \<and> length t < 0x10000000 \<and> pre (content (rg_keys reg) b) \<longrightarrow>
        (\<exists>key' ld' reg'. load_lines alloc now b key errors ld reg = load_lines alloc now b key' errors ld' reg' \<and>
           loading alloc held b ld' reg' \<and> ld_text ld' = later \<and> content (rg_keys reg') b = eff (content (rg_keys reg) b)))"

lemma loads_asD:
  assumes "loads_as alloc held b now t pre eff" "loading alloc held b ld reg" "ld_text ld = t @ later" "length t < 0x10000000"
    "pre (content (rg_keys reg) b)"
  obtains key' ld' reg' where "load_lines alloc now b key errors ld reg = load_lines alloc now b key' errors ld' reg'"
    "loading alloc held b ld' reg'" "ld_text ld' = later" "content (rg_keys reg') b = eff (content (rg_keys reg) b)"
  using assms unfolding loads_as_def by blast

lemma loads_nothing: "loads_as alloc held b now [] pre (\<lambda>T. T)"
  unfolding loads_as_def by auto

lemma loads_both:
  assumes 1: "loads_as alloc held b now s pre1 eff1" and 2: "loads_as alloc held b now t pre2 eff2"
    and both: "\<And>T. pre T \<Longrightarrow> pre1 T \<and> pre2 (eff1 T) \<and> eff2 (eff1 T) = eff T"
  shows "loads_as alloc held b now (s @ t) pre eff"
  unfolding loads_as_def
proof (intro allI impI, elim conjE)
  fix ld reg key errors later
  assume l: "loading alloc held b ld reg" "ld_text ld = (s @ t) @ later" "length (s @ t) < 0x10000000" "pre (content (rg_keys reg) b)"
  note pre = both [OF l(4)]
  from 1 l(1) obtain key1 ld1 reg1 where
    a: "load_lines alloc now b key errors ld reg = load_lines alloc now b key1 errors ld1 reg1" "loading alloc held b ld1 reg1"
      "ld_text ld1 = t @ later" "content (rg_keys reg1) b = eff1 (content (rg_keys reg) b)"
    by (rule loads_asD) (use l pre in auto)
  from 2 a(2,3) obtain key2 ld2 reg2 where
    b: "load_lines alloc now b key1 errors ld1 reg1 = load_lines alloc now b key2 errors ld2 reg2" "loading alloc held b ld2 reg2"
      "ld_text ld2 = later" "content (rg_keys reg2) b = eff2 (content (rg_keys reg1) b)"
    by (rule loads_asD) (use l pre a(4) in auto)
  show "\<exists>key' ld' reg'. load_lines alloc now b key errors ld reg = load_lines alloc now b key' errors ld' reg' \<and>
      loading alloc held b ld' reg' \<and> ld_text ld' = later \<and> content (rg_keys reg') b = eff (content (rg_keys reg) b)"
    using a b pre by auto
qed

lemma loads_change:
  assumes "loads_as alloc held b now t pre1 eff1" "\<And>T. pre T \<Longrightarrow> pre1 T \<and> eff1 T = eff T"
  shows "loads_as alloc held b now t pre eff"
  using assms unfolding loads_as_def by metis

lemma loads_block:
  assumes "\<forall>k\<in>set ks. name_ok (rk_name k)" "values_ok src" "rk_class src = []" "P = map (fold_name \<circ> rk_name) ks"
  shows "loads_as alloc held b now (save_key src (path_names ks)) (\<lambda>T. T P = None \<or> T P = Some (Map.empty, False))
    (\<lambda>T. (implied T P)(P \<mapsto> key_info src))"
  unfolding loads_as_def
proof (intro allI impI, elim conjE)
  fix ld reg key errors later
  assume l: "loading alloc held b ld reg" "ld_text ld = save_key src (path_names ks) @ later" "length (save_key src (path_names ks)) < 0x10000000"
    "content (rg_keys reg) b P = None \<or> content (rg_keys reg) b P = Some (Map.empty, False)"
  show "\<exists>key' ld' reg'. load_lines alloc now b key errors ld reg = load_lines alloc now b key' errors ld' reg' \<and>
      loading alloc held b ld' reg' \<and> ld_text ld' = later \<and> content (rg_keys reg') b = (implied (content (rg_keys reg) b) P)(P \<mapsto> key_info src)"
    using load_block [OF l(1,2) assms(1-3) l(3) assms(4) l(4), of now key errors] by metis
qed

text \<open>The keys of the tree \<open>S\<close> from \<open>P\<close> down are there; the keys on the way to \<open>P\<close> are there too.\<close>

definition merged :: "tree_content \<Rightarrow> u16 list list \<Rightarrow> tree_content \<Rightarrow> tree_content" where
  "merged S P T ns = (if prefix P ns \<and> S ns \<noteq> None then S ns else implied T P ns)"

definition clear_below :: "u16 list list \<Rightarrow> tree_content \<Rightarrow> bool" where
  "clear_below P T \<longleftrightarrow> (\<forall>ns. prefix P ns \<longrightarrow> T ns = None \<or> ns = P \<and> T ns = Some (Map.empty, False))"

text \<open>The same for several keys with the same parent.\<close>

definition merged_all :: "tree_content \<Rightarrow> u16 list list \<Rightarrow> u16 list list \<Rightarrow> tree_content \<Rightarrow> tree_content" where
  "merged_all S P ms T ns = (if \<exists>m\<in>set ms. prefix (P @ [m]) ns \<and> S ns \<noteq> None then S ns
     else if ms = [] then T ns else implied T P ns)"

lemma prefix_siblings: "prefix (P @ [m]) ns \<Longrightarrow> prefix (P @ [m']) ns \<Longrightarrow> m = m'"
  by (auto simp: prefix_def)

lemma merged_all_step:
  assumes "m \<notin> set ms" "S (P @ [m]) \<noteq> None"
  shows "merged_all S P ms (merged S (P @ [m]) T) = merged_all S P (m # ms) T"
proof (rule ext)
  fix ns
  have no: "\<not> prefix (P @ [m]) ns" if "m' \<in> set ms" "prefix (P @ [m']) ns" for m'
    using prefix_siblings [OF that(2)] that(1) assms(1) by blast
  have imp: "implied T (P @ [m]) ns = implied T P ns" if "\<not> (prefix (P @ [m]) ns \<and> S ns \<noteq> None)"
  proof -
    have "ns \<noteq> P @ [m]" using that assms(2) by auto
    then show ?thesis by (simp add: implied_def)
  qed
  have long: "\<not> prefix ns P" if "prefix (P @ [m']) ns" for m' using prefix_length_le [OF that] prefix_length_le [of ns P] by auto
  show "merged_all S P ms (merged S (P @ [m]) T) ns = merged_all S P (m # ms) T ns"
    using imp no long assms(2) by (auto simp: merged_all_def merged_def implied_def)
qed

lemma clear_child:
  assumes "clear_below P T" "ns \<noteq> P" "prefix P ns"
  shows "T ns = None"
  using assms by (auto simp: clear_below_def)

lemma children_loaded:
  assumes each: "\<And>c. c \<in> set cs \<Longrightarrow> \<exists>t. save_keys reg [(c, path @ [c])] = Some t \<and>
      loads_as alloc held b now t (clear_below (P @ [f c])) (merged S (P @ [f c]))"
    and there: "\<And>c. c \<in> set cs \<Longrightarrow> S (P @ [f c]) \<noteq> None" and dist: "distinct (map f cs)"
  shows "\<exists>t. save_keys reg (map (\<lambda>c. (c, path @ [c])) cs) = Some t \<and>
    loads_as alloc held b now t (\<lambda>T. \<forall>c\<in>set cs. clear_below (P @ [f c]) T) (merged_all S P (map f cs))"
  using assms
proof (induction cs)
  case Nil
  have "loads_as alloc held b now [] (\<lambda>T. True) (merged_all S P [])"
    by (rule loads_change [OF loads_nothing]) (simp add: merged_all_def fun_eq_iff)
  then show ?case by (subst save_keys.simps) simp
next
  case (Cons c cs)
  from Cons.prems(1) [of c] obtain s where s: "save_keys reg [(c, path @ [c])] = Some s"
    "loads_as alloc held b now s (clear_below (P @ [f c])) (merged S (P @ [f c]))" by auto
  from Cons obtain t where t: "save_keys reg (map (\<lambda>c. (c, path @ [c])) cs) = Some t"
    "loads_as alloc held b now t (\<lambda>T. \<forall>c\<in>set cs. clear_below (P @ [f c]) T) (merged_all S P (map f cs))" by auto
  have new: "f c \<notin> set (map f cs)" "S (P @ [f c]) \<noteq> None" using Cons.prems(2,3) by auto
  have "loads_as alloc held b now (s @ t) (\<lambda>T. \<forall>c\<in>set (c # cs). clear_below (P @ [f c]) T) (merged_all S P (map f (c # cs)))"
  proof (rule loads_both [OF s(2) t(2)], intro conjI)
    fix T assume T: "\<forall>c\<in>set (c # cs). clear_below (P @ [f c]) T"
    then show "clear_below (P @ [f c]) T" by simp
    show "merged_all S P (map f cs) (merged S (P @ [f c]) T) = merged_all S P (map f (c # cs)) T"
      using merged_all_step [of "f c" "map f cs" S P T] new by simp
    show "\<forall>d\<in>set cs. clear_below (P @ [f d]) (merged S (P @ [f c]) T)"
    proof
      fix d assume d: "d \<in> set cs"
      have Td: "clear_below (P @ [f d]) T" using T d by simp
      have "f d \<noteq> f c" using new(1) d by (metis image_eqI set_map)
      then have "\<not> prefix (P @ [f c]) ns" "ns \<noteq> P @ [f c]" "\<not> prefix ns P" if "prefix (P @ [f d]) ns" for ns
        using prefix_siblings [OF that] \<open>f d \<noteq> f c\<close> prefix_length_le [OF that] prefix_length_le [of ns P] by auto
      then show "clear_below (P @ [f d]) (merged S (P @ [f c]) T)"
        using Td by (auto simp: clear_below_def merged_def implied_def)
    qed
  qed
  then show ?case using save_keys_append [OF s(1) t(1)] by auto
qed

lemma clear_after:
  assumes "clear_below P T" "\<And>ns. ns \<noteq> P \<Longrightarrow> T' ns = T ns \<or> T' ns = implied T P ns"
  shows "clear_below (P @ [m]) T'"
proof -
  have "T' ns = None" if ns: "prefix (P @ [m]) ns" for ns
  proof -
    have "prefix P ns" "ns \<noteq> P" "\<not> prefix ns P"
      using ns prefix_length_le [OF ns] prefix_length_le [of ns P] by (auto simp: prefix_def)
    then show ?thesis using clear_child [OF assms(1)] assms(2) [of ns] by (auto simp: implied_def)
  qed
  then show ?thesis by (simp add: clear_below_def)
qed

lemma merged_whole:
  assumes SP: "S P = Some i" and T: "clear_below P T"
    and down: "\<And>ns. S ns \<noteq> None \<Longrightarrow> prefix P ns \<Longrightarrow> ns \<noteq> P \<Longrightarrow> \<exists>m\<in>set ms. prefix (P @ [m]) ns"
    and bare: "\<not> written \<Longrightarrow> i = (Map.empty, False) \<and> ms \<noteq> []"
  shows "merged_all S P ms (if written then (implied T P)(P \<mapsto> i) else T) = merged S P T"
proof (rule ext)
  fix ns
  have up: "prefix P ns" "ns \<noteq> P" if "prefix (P @ [m]) ns" for m using that by (auto simp: prefix_def)
  have TP: "T P = None \<or> T P = Some (Map.empty, False)" using T by (auto simp: clear_below_def)
  show "merged_all S P ms (if written then (implied T P)(P \<mapsto> i) else T) ns = merged S P T ns"
  proof (cases "ns = P")
    case True
    then show ?thesis using up SP bare TP by (auto simp: merged_all_def merged_def implied_def)
  next
    case False
    then show ?thesis using up down [of ns] bare by (auto simp: merged_all_def merged_def implied_def)
  qed
qed

lemma path_keys_named:
  assumes "keys_ok root held K" "those (map K path) = Some ks"
  shows "\<forall>k\<in>set ks. name_ok (rk_name k)"
proof
  fix x assume "x \<in> set ks"
  then obtain q where "K q = Some x" using assms(2) by (induction path arbitrary: ks) (auto split: option.splits)
  from keys_okD(2) [OF assms(1) this] show "name_ok (rk_name x)" by (simp add: key_ok_def)
qed

lemma those_snoc: "those (map K path) = Some ks \<Longrightarrow> K c = Some ck \<Longrightarrow> those (map K (path @ [c])) = Some (ks @ [ck])"
  by (induction path arbitrary: ks) (auto split: option.splits)

lemma loads_key_block:
  assumes "\<forall>k\<in>set ks. name_ok (rk_name k)" "values_ok k" "rk_class k = []" "P = map (fold_name \<circ> rk_name) ks"
  shows "loads_as alloc held b now (if written then save_key k (path_names ks) else []) (clear_below P)
    (\<lambda>T. if written then (implied T P)(P \<mapsto> key_info k) else T)"
proof (cases written)
  case True
  have "loads_as alloc held b now (save_key k (path_names ks)) (clear_below P) (\<lambda>T. (implied T P)(P \<mapsto> key_info k))"
    by (rule loads_change [OF loads_block [OF assms]]) (auto simp: clear_below_def)
  then show ?thesis using True by simp
next
  case False
  then show ?thesis using loads_nothing by simp
qed

text \<open>A tree is written, and reading what was written makes the same tree at the same path.\<close>

lemma tree_loaded:
  assumes ok: "keys_ok root hs (rg_keys reg)" and S: "S = content (rg_keys reg) h"
  shows "savable n (rg_keys reg) p \<Longrightarrow> those (map (rg_keys reg) path) = Some ks \<Longrightarrow> P = map (fold_name \<circ> rk_name) ks \<Longrightarrow>
    key_at (rg_keys reg) h P p \<Longrightarrow>
    \<exists>t. save_keys reg [(p, path)] = Some t \<and> loads_as alloc held b now t (clear_below P) (merged S P)"
proof (induction n arbitrary: p path ks P)
  case 0
  then show ?case by simp
next
  case (Suc n)
  let ?K = "rg_keys reg"
  from Suc.prems(1) obtain k where k: "?K p = Some k" "\<not> flagged k HORIZON_REG_FLAG_VOLATILE" "rk_class k = []"
    "\<forall>c\<in>set (rk_subkeys k). savable n ?K c" by (auto split: option.splits)
  let ?f = "\<lambda>c. fold_name (name_of ?K c)"
  have l: "linked_ok ?K p k" by (rule keys_okD(1) [OF ok k(1)])
  have vals: "values_ok k" using keys_okD(2) [OF ok k(1)] by (simp add: key_ok_def)
  note names = path_keys_named [OF ok Suc.prems(2)]
  have child: "key_at ?K h (P @ [?f c]) c" if "c \<in> set (rk_subkeys k)" for c by (rule key_at.below [OF Suc.prems(4) k(1) that])
  have S_at: "S (P @ [?f c]) \<noteq> None" if "c \<in> set (rk_subkeys k)" for c
    using subkey_live [OF l that] content_Some [OF ok child [OF that]] unfolding S by (metis option.distinct(1))
  have SP: "S P = Some (key_info k)" unfolding S by (rule content_Some [OF ok Suc.prems(4) k(1)])
  have each: "\<exists>t. save_keys reg [(c, path @ [c])] = Some t \<and> loads_as alloc held b now t (clear_below (P @ [?f c])) (merged S (P @ [?f c]))"
    if c: "c \<in> set (rk_subkeys k)" for c
  proof -
    from subkey_live [OF l c] obtain ck where ck: "?K c = Some ck" "rk_name ck = name_of ?K c" .
    from those_snoc [where K = ?K, OF Suc.prems(2) ck(1)] show ?thesis using Suc.IH [of c "path @ [c]" "ks @ [ck]" "P @ [?f c]"] k(4) c Suc.prems(3) child [OF c] ck(2) by simp
  qed
  have "distinct (map ?f (rk_subkeys k))"
    using l sorted_names_distinct [of "subkey_names ?K k"] by (simp add: linked_ok_def subkey_names_def comp_def)
  from children_loaded [OF each S_at this] obtain t where t: "save_keys reg (map (\<lambda>c. (c, path @ [c])) (rk_subkeys k)) = Some t"
    "loads_as alloc held b now t (\<lambda>T. \<forall>c\<in>set (rk_subkeys k). clear_below (P @ [?f c]) T) (merged_all S P (map ?f (rk_subkeys k)))" by blast
  let ?written = "rk_values k \<noteq> [] \<or> rk_subkeys k = [] \<or> rk_class k \<noteq> [] \<or> flagged k HORIZON_REG_FLAG_SYMLINK"
  let ?block = "if ?written then save_key k (path_names ks) else []"
  have saved: "save_keys reg [(p, path)] = Some (?block @ t)"
    using k(1,2) t(1) Suc.prems(2) by (subst save_keys.simps) (simp add: horizon_registry_save_path_def)
  note block = loads_key_block [OF names vals k(3) Suc.prems(3), of alloc held b now ?written]
  have down: "\<exists>m\<in>set (map ?f (rk_subkeys k)). prefix (P @ [m]) ns" if "S ns \<noteq> None" "prefix P ns" "ns \<noteq> P" for ns
  proof -
    from that(1) obtain q where "key_at ?K h ns q" by (auto simp: S content_def split: if_splits)
    from key_at_descend [OF ok Suc.prems(4) k(1) this that(2,3)] show ?thesis by auto
  qed
  have bare: "key_info k = (Map.empty, False) \<and> map ?f (rk_subkeys k) \<noteq> []" if "\<not> ?written"
    using that by (auto simp: key_info_def value_map_def fun_eq_iff)
  have "loads_as alloc held b now (?block @ t) (clear_below P) (merged S P)"
  proof (rule loads_both [OF block t(2)], intro conjI ballI)
    fix T assume T: "clear_below P T"
    then show "clear_below P T" .
    show "clear_below (P @ [?f c]) (if ?written then (implied T P)(P \<mapsto> key_info k) else T)" for c by (rule clear_after [OF T]) auto
    show "merged_all S P (map ?f (rk_subkeys k)) (if ?written then (implied T P)(P \<mapsto> key_info k) else T) = merged S P T"
      by (rule merged_whole [where S = S and i = "key_info k", OF SP T]) (use down bare in blast)+
  qed
  then show ?case using saved by blast
qed

section \<open>The whole file\<close>

lemma comment_line:
  assumes "plenty alloc" "ld_text ld = 59 # r @ 10 # later" "\<forall>c\<in>set r. line_byte c"
  obtains ld' where "load_lines alloc now b key errors ld reg = load_lines alloc now b key errors ld' reg" "ld_text ld' = later" "ahead ld ld'"
proof -
  have "ld_text ld = (59 # r) @ 10 # later" "\<forall>c\<in>set (59 # r). line_byte c" using assms(2,3) by (simp_all add: line_byte_def)
  then obtain ld1 where ld1: "horizon_reg_next_line alloc ld = (1, ld1)" "ld_line ld1 = 59 # r" "ld_text ld1 = later"
    by (rule next_line_plenty [OF assms(1)])
  have "skip_spaces (ld_line ld1) = 59 # r" using ld1(2) by (simp add: skip_spaces_def is_space_def)
  then have "load_line alloc now b key ld1 reg = Some (key, False, ld1, reg)" by (simp add: load_line_def)
  from load_lines_step [OF ld1(1) this] that ld1(3) next_line_ahead [OF ld1(1)] show thesis by simp
qed

lemma header_bytes: "\<forall>c\<in>set (ascii ''WINE REGISTRY Version 2''). line_byte c"
    "\<forall>c\<in>set (ascii (''; All keys relative to '' @ hive_root user)). line_byte c"
  by (simp_all add: ascii_def line_byte_def hive_root_def)

text \<open>Only the base is there, with nothing in it.\<close>

lemma empty_base:
  assumes ok: "keys_ok root held K" and k: "K b = Some k" "rk_subkeys k = []" "rk_values k = []" "\<not> flagged k HORIZON_REG_FLAG_SYMLINK"
  shows "content K b = [[] \<mapsto> (Map.empty, False)]"
proof (rule ext)
  fix ns
  have here: "key_at K b [] b" using key_at.here [of K b k] k(1) by blast
  show "content K b ns = [[] \<mapsto> (Map.empty, False)] ns"
  proof (cases ns)
    case Nil
    then show ?thesis using content_Some [OF ok here k(1)] k(3,4) by (simp add: key_info_def value_map_def fun_eq_iff)
  next
    case (Cons m ms)
    have "\<not> key_at K b ([m] @ ms) q" for q
    proof
      assume "key_at K b ([m] @ ms) q"
      from key_at_prefix [OF ok this] obtain c where "key_at K b ([] @ [m]) c" by auto
      with ok obtain r rk where "key_at K b [] r" "K r = Some rk" "c \<in> set (rk_subkeys rk)" by (rule key_at_parent)
      then show False using k by (auto elim: key_at_NilE)
    qed
    then show ?thesis using Cons content_None [of K b ns] by simp
  qed
qed

text \<open>C10. A hive that is saved and loaded again is the same tree: when none of its keys is volatile or has a class, the
  text that is written for it, loaded below a key with nothing in it, gives exactly the keys of the hive, at the same
  paths, with the same values and links, and no line counts as an error.\<close>

theorem registry_hive_roundtrip:
  assumes "reg_ok src held_src" "savable n (rg_keys src) hive" "plenty alloc"
    and "reg_ok reg held" "live_key reg base" "fresh_from alloc 0 reg"
    and "rg_keys reg base = Some k" "rk_subkeys k = []" "rk_values k = []" "\<not> flagged k HORIZON_REG_FLAG_SYMLINK"
  shows "\<exists>t. hive_text user src hive = Some t \<and>
    (length t < 0x10000000 \<longrightarrow>
       (\<exists>reg'. horizon_reg_load alloc now base t reg = Some (HORIZON_REG_SUCCESS, 0, reg') \<and> reg_ok reg' held \<and>
          content (rg_keys reg') base = content (rg_keys src) hive))"
proof -
  from assms(1) obtain rs where ok: "keys_ok rs held_src (rg_keys src)" by (rule reg_okE)
  from assms(4) obtain root where okb: "keys_ok root held (rg_keys reg)" by (rule reg_okE)
  let ?S = "content (rg_keys src) hive"
  obtain hk where hk: "rg_keys src hive = Some hk" using assms(2) by (cases n) (auto split: option.splits)
  have here: "key_at (rg_keys src) hive [] hive" using key_at.here [of "rg_keys src" hive hk] hk by blast
  from tree_loaded [where path = "[]" and ks = "[]" and P = "[]" and h = hive and alloc = alloc and held = held and b = base and now = now,
      OF ok refl assms(2) _ _ here] obtain body where
    body: "horizon_registry_save_subkeys src hive = Some body"
    "loads_as alloc held base now body (clear_below []) (merged ?S [])" by (auto simp: horizon_registry_save_subkeys_def)
  let ?head = "ascii ''WINE REGISTRY Version 2''" and ?note = "ascii (''; All keys relative to '' @ hive_root user)"
  have t: "hive_text user src hive = Some (?head @ 10 # 59 # ?note @ 10 # body)" using body(1) by (simp add: hive_text_def ascii_def)
  have "\<exists>reg'. horizon_reg_load alloc now base (?head @ 10 # 59 # ?note @ 10 # body) reg = Some (HORIZON_REG_SUCCESS, 0, reg') \<and>
      reg_ok reg' held \<and> content (rg_keys reg') base = ?S" if len: "length (?head @ 10 # 59 # ?note @ 10 # body) < 0x10000000"
  proof -
    let ?ld = "new_loader (?head @ 10 # 59 # ?note @ 10 # body)"
    have l0: "loading alloc held base ?ld reg" using assms(3-6) by (simp add: loading_def load_inv_def new_loader_def)
    have "ld_text ?ld = ?head @ 10 # 59 # ?note @ 10 # body" by (simp add: new_loader_def)
    with assms(3) obtain ld1 where 1: "horizon_reg_next_line alloc ?ld = (1, ld1)" "ld_line ld1 = ?head" "ld_text ld1 = 59 # ?note @ 10 # body"
      using header_bytes(1) by (rule next_line_plenty)
    obtain ld2 where 2: "load_lines alloc now base None 0 ld1 reg = load_lines alloc now base None 0 ld2 reg" "ld_text ld2 = body @ []"
      "ahead ld1 ld2" by (rule comment_line [OF assms(3) 1(3) header_bytes(2)]) simp
    have l2: "loading alloc held base ld2 reg" by (rule loading_ahead [OF loading_ahead [OF l0 next_line_ahead [OF 1(1)]] 2(3)])
    have T: "content (rg_keys reg) base = [[] \<mapsto> (Map.empty, False)]" by (rule empty_base [OF okb assms(7-10)])
    obtain key' ld3 reg3 where 3: "load_lines alloc now base None 0 ld2 reg = load_lines alloc now base key' 0 ld3 reg3"
      "loading alloc held base ld3 reg3" "ld_text ld3 = []" "content (rg_keys reg3) base = merged ?S [] (content (rg_keys reg) base)"
      by (rule loads_asD [OF body(2) l2 2(2)]) (use len T in \<open>auto simp: clear_below_def\<close>)
    have "load_lines alloc now base key' 0 ld3 reg3 = Some (HORIZON_REG_SUCCESS, 0, reg3)"
      using 3(3) by (subst load_lines.simps) (simp add: horizon_reg_next_line_def)
    moreover have "merged ?S [] (content (rg_keys reg) base) = ?S"
    proof (rule ext)
      fix ns
      show "merged ?S [] (content (rg_keys reg) base) ns = ?S ns"
        using content_Some [OF ok here hk] unfolding T by (cases "?S ns"; cases "ns = []") (simp_all add: merged_def implied_def)
    qed
    moreover have "reg_ok reg3 held" using 3(2) by (simp add: loading_def load_inv_def)
    ultimately show ?thesis using 1 2(1) 3(1,4) by (simp add: horizon_reg_load_def)
  qed
  then show ?thesis using t by blast
qed

lemma example_savable: "savable 3 (rg_keys example_reg) 1"
  by (simp add: example_reg_def example_keys_def example_key_def flagged_def eval_nat_numeral)

lemma bare_block:
  assumes "rk_class k = []" "rk_values k = []" "\<not> flagged k HORIZON_REG_FLAG_SYMLINK"
  shows "length (save_key k path) \<le> length path + 100"
proof -
  have "length (number_text 10 (unat (unix_seconds (rk_modif k)))) \<le> 10"
    by (rule number_text_length) (use unsigned_less [of "unix_seconds (rk_modif k)", where ?'a = nat] in simp_all)
  moreover have "length (number_text 16 (unat (drop_bit 32 (rk_modif k)))) \<le> 16"
    by (rule number_text_length) (use unsigned_less [of "drop_bit 32 (rk_modif k)", where ?'a = nat] in simp_all)
  moreover have "length (number_text 16 (unat (w :: u32))) \<le> 8" for w
    by (rule number_text_length) (use unsigned_less [of w, where ?'a = nat] in simp_all)
  then have "length (padded 8 (number_text 16 (unat (ucast (rk_modif k) :: u32)))) = 8" by (rule padded_length)
  ultimately show ?thesis using assms(2,3) unfolding save_key_split [OF assms(1)] by (simp add: time_text_def body_text_def ascii_def)
qed

lemma example_hive_text: "length (the (hive_text False example_reg 1)) < 0x10000000"
proof -
  let ?b = "example_key ''b'' (Some 1) [] 1 []" and ?c = "example_key ''C'' (Some 1) [] 1 []"
  have keys: "rg_keys example_reg 3 = Some ?c" by (simp add: example_reg_def example_keys_def)
  have plain: "rk_class k = []" "rk_values k = []" "\<not> flagged k f" "rk_subkeys k = []" if "k = ?b \<or> k = ?c" for k f
    using that by (auto simp: example_key_def flagged_def)
  have c: "save_keys example_reg [(3, [3])] = Some (save_key ?c (path_names [?c]))"
    using plain keys by (subst save_keys.simps, subst save_keys.simps) (simp add: horizon_registry_save_path_def)
  have "save_keys example_reg [(2, [2]), (3, [3])] = Some (save_key ?b (path_names [?b]) @ save_key ?c (path_names [?c]))"
    using plain c example_at(2) by (subst save_keys.simps) (simp add: horizon_registry_save_path_def)
  then have "hive_text False example_reg 1 = Some (ascii ''WINE REGISTRY Version 2'' @ [10] @
      ascii ('';; All keys relative to '' @ hive_root False) @ [10] @ save_key ?b (path_names [?b]) @ save_key ?c (path_names [?c]))"
    using example_at(1) unfolding hive_text_def horizon_registry_save_subkeys_def
    by (subst save_keys.simps) (simp add: horizon_registry_save_path_def example_key_def flagged_def)
  moreover have "length (path_names [?b]) = 1" "length (path_names [?c]) = 1"
    by (simp_all add: example_key_def ascii_name_def save_char_def)
  ultimately show ?thesis using bare_block [of ?b "path_names [?b]"] bare_block [of ?c "path_names [?c]"] plain
    by (simp add: ascii_def hive_root_def del: path_names.simps)
qed

theorem registry_hive_roundtrip_witness:
  "\<exists>t reg'. hive_text False example_reg 1 = Some t \<and>
     horizon_reg_load example_alloc 7 2 t example_reg = Some (HORIZON_REG_SUCCESS, 0, reg') \<and> reg_ok reg' [1] \<and>
     content (rg_keys reg') 2 = content (rg_keys example_reg) 1"
proof -
  have base: "live_key example_reg 2" "rk_subkeys (example_key ''b'' (Some 1) [] 1 []) = []" "rk_values (example_key ''b'' (Some 1) [] 1 []) = []"
    "\<not> flagged (example_key ''b'' (Some 1) [] 1 []) HORIZON_REG_FLAG_SYMLINK"
    by (auto simp: live_key_def example_reg_def example_keys_def example_key_def flagged_def)
  from registry_hive_roundtrip [OF example_reg_ok example_savable example_load(1) example_reg_ok base(1) example_load(4) example_at(2) base(2-4),
      of False 7] example_hive_text show ?thesis by auto
qed

end
