(* ===== verification/Spec2Isabelle.thy ===== *)
theory Spec2Isabelle
  imports HzPrelude HzThreads HzCompletion HzMessages HzAsync HzObjects HzSync HzServer HzWaits HzSwapIndex HzPages HzFiles HzFileServer HzRedirect HzNames HzMemfile HzMsgQueue HzRegUse HzRegFiles HzRegWhole
begin

text \<open>
  Autorun runs Windows programs on Horizon, the system of the Nintendo Switch. It is a Wine tree in which a server
  that Wine keeps in a process of its own, \<open>wineserver\<close>, is replaced by one inside the process
  (\<open>dlls/ntdll/unix/horizon.c\<close> and the headers \<open>horizon_*.h\<close> beside it), and in which the memory, thread and file
  calls of a unix system are built on the few that Horizon has. This library models that server and that memory
  layer: the code that is Autorun's own and on which every program depends. A client thread sends a request
  over a connection; the server thread of that connection takes the server lock, runs the handler of the request on
  the shared objects, and answers. So each handler is one step on the state, and what threads do concurrently is a
  sequence of steps.

  \<^bold>\<open>Theories and sources.\<close> All paths are below \<open>dlls/ntdll/unix\<close>.

  \<^item> \<open>HzPrelude\<close>: machine words, walks along linked lists, and the interfaces: \<open>invariant_machine\<close> (a component whose
    operations keep an invariant), \<open>refinement_machine\<close> (one that also implements an abstract component) and
    \<open>fifo_queue\<close>. Each component interprets the ones it provides, and its theorems about sequences of operations
    come from there.
  \<^item> \<open>HzThreads\<close> (\<open>horizon_threads.h\<close>): the life of a thread, mutexes (refined to a recursive lock), keyed events (a
    step relation, calls paired one to one), the list of exited threads.
  \<^item> \<open>HzCompletion\<close> (\<open>horizon_completion.h\<close>, descriptor queue of \<open>horizon.c\<close>): completion ports as first-in first-out queues.
  \<^item> \<open>HzMessages\<close> (\<open>horizon_message_queue.h\<close>, \<open>horizon_win_timers.h\<close>): posted messages (refined to a list), window timers.
  \<^item> \<open>HzMsgQueue\<close> (\<open>horizon_msg_queue.h\<close>): messages sent between threads and their answers, on an explicit heap:
    an operation that follows a pointer to freed memory is \<open>None\<close>, and no run comes to that.
  \<^item> \<open>HzAsync\<close> (\<open>horizon_async.h\<close> and the socket lists of \<open>horizon.c\<close>): asynchronous operations on sockets.
  \<^item> \<open>HzObjects\<close>, \<open>HzSync\<close>, \<open>HzServer\<close> (\<open>horizon.c\<close>): the heap of server objects, handles and reference counts; the
    handlers for events, mutexes, semaphores, timers and completion ports; the closing of handles.
  \<^item> \<open>HzWaits\<close> (\<open>horizon.c\<close>): the decision of a wait, the queues of waiting threads, which of them a signal completes.
  \<^item> \<open>HzFiles\<close>, \<open>HzFileServer\<close> (\<open>horizon_file_access.h\<close>, \<open>horizon.c\<close>): rules for sharing and names; opening, renaming,
    deleting and sizing files, with the calls to the file system in their order.
  \<^item> \<open>HzPages\<close>, \<open>HzSwapIndex\<close> (\<open>horizon_pool.h\<close>, \<open>horizon_swap_index.h\<close>, \<open>horizon_free_range.h\<close>): pools of pages and mapping
    objects, the index of swapped pages (refined to a set), unmapped ranges.
  \<^item> \<open>HzMemfile\<close> (\<open>horizon_memfile.h\<close>): the memory of sections without a file: anchors, views, reads and writes.
  \<^item> \<open>HzRedirect\<close> (\<open>horizon_read_redirect.h\<close>): loads emulated on a page that is elsewhere.
  \<^item> \<open>HzRegTables\<close>, \<open>HzRegistry\<close>, \<open>HzRegTree\<close>, \<open>HzRegUse\<close> (\<open>horizon_registry.h\<close>): the registry, keys on an explicit heap with sorted
    tables that share the interface \<open>name_table\<close>. \<open>HzRegTables\<close> has names and the binary search, \<open>HzRegistry\<close> the operations,
    \<open>HzRegTree\<close> the invariant of the tree, \<open>HzRegUse\<close> what callers rely on.
  \<^item> \<open>HzRegText\<close>, \<open>HzRegLex\<close>, \<open>HzRegLoad\<close>, \<open>HzRegSave\<close>, \<open>HzRegFiles\<close>, \<open>HzRegWhole\<close> (\<open>horizon_registry.h\<close>, \<open>horizon_registry_server.h\<close>,
    \<open>horizon_registry_paths.h\<close>): the files of the registry. \<open>HzRegText\<close> has the parser and the writer, \<open>HzRegLex\<close> that numbers,
    strings and bytes are read back, \<open>HzRegLoad\<close> that a load ends and keeps the tree, \<open>HzRegSave\<close> the card, on which a
    call may fail and the power may be lost, \<open>HzRegFiles\<close> the properties of saves and loads, and \<open>HzRegWhole\<close> that a hive
    that is saved and loaded is the same tree.
  \<^item> \<open>HzNames\<close> (\<open>horizon_object_dirs.h\<close>, \<open>horizon_sockaddr.h\<close>): object directories, IPv6 addresses of IPv4 sockets.

  \<^bold>\<open>How the code is rendered.\<close> A struct is a record, an enum a datatype, an operation one definition under its C name;
  a handler returns its status and the new state, and its early returns are branches. A linked list is the list of its nodes
  in link order; where the code compares node addresses, nodes carry theirs, and where pointers are shared by several
  owners (server objects, results of messages) the heap is a map from addresses and an access to freed memory a failure. Unsigned
  values that may wrap are words of their width; sizes and counts that the code bounds before it adds are natural numbers. What the kernel, the
  C allocator, the clock and the file system answer is an argument. Regions under the server lock are one step.

  \<^bold>\<open>What is shown.\<close> For handles and objects: closing ends one handle and frees exactly what has no reference left. For waits:
  which object a wait takes, that a wait for all takes all or none, and that a signal completes the oldest waits. For threads and
  queues: refinement of locks, lists and queues, order, pairing, that answers are due and arrive, that loops end. For memory:
  no page is handed out twice, views stay mapped as long as they are used, indexes are exact. For files: sharing is
  enforced, no descriptor leaks, renames happen on closed files. For the registry: no call follows a freed pointer, lookups end through any
  links, values are a map, changes signal those who watch; any file loads, what is written is read back, and a save that is cut
  short leaves the old text or the new one. Where the code differs from what it means to do the difference
  is a theorem too.

  \<^bold>\<open>Bounds and fuel.\<close> The search for a timer id has fuel for one round of the id range, proved enough. The rescheduling of a
  timer, the loops that empty the lists of an ended thread's message queue, and the loops of the registry that follow parents, links
  and lines of a file are partial functions to \<open>option\<close>, proved to return. The walk of the writer over the tree is one too; it
  returns for every tree without volatile keys and classes, as is shown with the round trip. Every other loop is a function with its termination proof; the retry loop over deadlines ends because each
  round takes one deadline away.

  \<^bold>\<open>Not modelled.\<close> The requests on registry keys, which call the operations modelled here; windows, clipboard and drawing requests, pipes, sockets below their asynchronous lists
  and directory listings; condition variables and the
  clock, beyond when they let a step be taken; the byte layout of most requests and replies; the page tables of
  \<open>horizon_mman.h\<close> and the swap pager, which are calls to the kernel around the structures modelled here; the launcher, compositor
  and code translators of \<open>horizon-wine\<close>; and the Wine modules that Autorun takes over unchanged.
\<close>

end
